(* ===== verification/Glean_Prelude.thy ===== *)
theory Glean_Prelude
  imports Main "HOL-Library.Word" "HOL-Library.List_Lexorder"
begin

text \<open>
  The vocabulary shared by every theory of the development: machine integers, byte
  strings, the result type that makes each raise, abort and out-of-range access of the
  C++ code a value, big-endian byte strings, and generic lemmas on words, lists and
  lexicographic order.
\<close>

unbundle bit_operations_syntax

named_theorems unat_simps \<open>rewrite an operation on words into arithmetic on nat\<close>
named_theorems result_simps \<open>unfold the operations of the result type\<close>

type_synonym u8 = "8 word"
type_synonym u16 = "16 word"
type_synonym u32 = "32 word"
type_synonym u64 = "64 word"
type_synonym bytes = "u8 list"

section \<open>Results\<close>

text \<open>
  \<open>RtsError\<close> is \<^verbatim>\<open>rts::error\<close> (an exception with a message), \<open>CheckFailed\<close> a glog
  \<^verbatim>\<open>CHECK\<close> that aborts the process, \<open>Undefined\<close> an access outside the memory the code was
  given, which C++ leaves undefined.
\<close>

datatype err = RtsError string | CheckFailed | Undefined

type_synonym 'a result = "err + 'a"

definition ok :: "'a \<Rightarrow> 'a result" where
  "ok x = Inr x"

definition raise :: "err \<Rightarrow> 'a result" where
  "raise e = Inl e"

definition rbind :: "'a result \<Rightarrow> ('a \<Rightarrow> 'b result) \<Rightarrow> 'b result" where
  "rbind m f = (case m of Inl e \<Rightarrow> Inl e | Inr x \<Rightarrow> f x)"

definition guard :: "bool \<Rightarrow> err \<Rightarrow> unit result" where
  "guard b e = (if b then ok () else raise e)"

lemma rbind_ok [simp, result_simps]: "rbind (ok x) f = f x"
  by (simp add: rbind_def ok_def)

lemma rbind_raise [simp, result_simps]: "rbind (raise e) f = raise e"
  by (simp add: rbind_def raise_def)

lemma rbind_assoc: "rbind (rbind m f) g = rbind m (\<lambda>x. rbind (f x) g)"
  by (cases m) (simp_all add: rbind_def)

lemma ok_inject [simp]: "ok x = ok y \<longleftrightarrow> x = y"
  by (simp add: ok_def)

lemma raise_inject [simp]: "raise e = raise e' \<longleftrightarrow> e = e'"
  by (simp add: raise_def)

lemma ok_neq_raise [simp]: "ok x \<noteq> raise e" "raise e \<noteq> ok x"
  by (simp_all add: ok_def raise_def)

lemma rbind_eq_ok [simp]: "rbind m f = ok y \<longleftrightarrow> (\<exists>x. m = ok x \<and> f x = ok y)"
  by (cases m) (auto simp: rbind_def ok_def raise_def)

lemma rbind_eq_raise:
  "rbind m f = raise e \<longleftrightarrow> m = raise e \<or> (\<exists>x. m = ok x \<and> f x = raise e)"
  by (cases m) (auto simp: rbind_def ok_def raise_def)

lemma result_cases [case_names raise ok]:
  obtains e where "m = raise e" | x where "m = ok x"
  by (cases m) (auto simp: ok_def raise_def)

lemma guard_True [simp]: "guard True e = ok ()"
  by (simp add: guard_def)

lemma guard_False [simp]: "guard False e = raise e"
  by (simp add: guard_def)

lemma guard_eq_ok [simp]: "guard b e = ok u \<longleftrightarrow> b"
  by (simp add: guard_def)

text \<open>A loop over a list that stops at the first error.\<close>

fun rfold :: "('a \<Rightarrow> 's \<Rightarrow> 's result) \<Rightarrow> 'a list \<Rightarrow> 's \<Rightarrow> 's result" where
  "rfold f [] s = ok s"
| "rfold f (x # xs) s = rbind (f x s) (rfold f xs)"

lemma rfold_append: "rfold f (xs @ ys) s = rbind (rfold f xs s) (rfold f ys)"
proof (induction xs arbitrary: s)
  case (Cons x xs)
  then have "rfold f (xs @ ys) = (\<lambda>s. rbind (rfold f xs s) (rfold f ys))"
    by (rule ext)
  then show ?case by (simp add: rbind_assoc)
qed simp

section \<open>Words as natural numbers\<close>

lemma unat_lt_64: "unat (w :: u64) < 18446744073709551616"
proof -
  have "unat w < 2 ^ LENGTH(64)" by (rule unsigned_less)
  then show ?thesis by simp
qed

lemma unat_lt_32: "unat (w :: u32) < 4294967296"
proof -
  have "unat w < 2 ^ LENGTH(32)" by (rule unsigned_less)
  then show ?thesis by simp
qed

lemma unat_lt_8: "unat (w :: u8) < 256"
proof -
  have "unat w < 2 ^ LENGTH(8)" by (rule unsigned_less)
  then show ?thesis by simp
qed

lemma unat_of_nat_64: "n < 2 ^ 64 \<Longrightarrow> unat (of_nat n :: u64) = n"
  by (simp add: unat_of_nat)

lemma unat_ucast_mod [unat_simps]:
  "unat (ucast (w :: 'a::len word) :: 'b::len word) = unat w mod 2 ^ LENGTH('b)"
  by (simp add: unsigned_ucast_eq take_bit_eq_mod)

lemma unat_push_bit_mod [unat_simps]:
  "unat (push_bit n (w :: 'a::len word)) = unat w * 2 ^ n mod 2 ^ LENGTH('a)"
  by (subst unsigned_push_bit_eq) (simp add: take_bit_eq_mod push_bit_eq_mult)

lemma unat_drop_bit_div [unat_simps]:
  "unat (drop_bit n (w :: 'a::len word)) = unat w div 2 ^ n"
  by (subst unat_drop_bit_eq) (simp add: drop_bit_eq_div)

lemma unat_or_nat [unat_simps]:
  "unat ((v :: 'a::len word) OR w) = unat v OR unat w"
  by (rule unsigned_or_eq)

lemma unat_and_nat [unat_simps]:
  "unat ((v :: 'a::len word) AND w) = unat v AND unat w"
  by (rule unsigned_and_eq)

lemma unat_add_mod [unat_simps]:
  "unat ((v :: 'a::len word) + w) = (unat v + unat w) mod 2 ^ LENGTH('a)"
  by (simp add: unat_word_ariths)

lemma unat_sub_le [unat_simps]:
  "w \<le> v \<Longrightarrow> unat ((v :: 'a::len word) - w) = unat v - unat w"
  by (simp add: unat_sub)

lemma and_low_mask_nat: "(n :: nat) AND (2 ^ k - 1) = n mod 2 ^ k"
  by (metis mask_eq_exp_minus_1 take_bit_eq_mask take_bit_eq_mod)

lemma or_disjoint_nat:
  assumes "2 ^ k dvd a" and "b < 2 ^ k"
  shows "(a :: nat) OR b = a + b"
proof -
  have "a AND b = 0"
  proof (rule bit_eqI)
    fix n
    have "bit a n \<Longrightarrow> k \<le> n"
      using assms(1) by (metis bit_push_bit_iff_nat dvd_def mult.commute push_bit_eq_mult)
    moreover have "bit b n \<Longrightarrow> n < k"
      using assms(2) by (metis bit_take_bit_iff take_bit_nat_eq_self)
    ultimately show "bit (a AND b) n = bit 0 n"
      by (auto simp: bit_and_iff)
  qed
  then show ?thesis by (simp add: disjunctive_add_eq_or)
qed

section \<open>Big-endian byte strings\<close>

text \<open>
  \<open>storeBE\<close> is \<^verbatim>\<open>storeUnaligned(p, Endian::big(w))\<close>, \<open>loadBE\<close> is
  \<^verbatim>\<open>Endian::big(loadUnaligned(p))\<close>: the most significant byte comes first whatever the byte
  order of the machine. \<open>storeLE\<close> and \<open>loadLE\<close> are plain unaligned stores and loads on the
  little-endian machines the code is built for.
\<close>

primrec be_bytes :: "nat \<Rightarrow> nat \<Rightarrow> bytes" where
  "be_bytes 0 v = []"
| "be_bytes (Suc n) v = of_nat (v div 256 ^ n) # be_bytes n v"

definition be_nat :: "bytes \<Rightarrow> nat" where
  "be_nat bs = foldl (\<lambda>a b. 256 * a + unat b) 0 bs"

definition storeBE :: "'a::len word \<Rightarrow> bytes" where
  "storeBE w = be_bytes (LENGTH('a) div 8) (unat w)"

definition loadBE :: "bytes \<Rightarrow> 'a::len word" where
  "loadBE bs = of_nat (be_nat (take (LENGTH('a) div 8) bs))"

definition storeLE :: "'a::len word \<Rightarrow> bytes" where
  "storeLE w = rev (storeBE w)"

definition loadLE :: "bytes \<Rightarrow> 'a::len word" where
  "loadLE bs = of_nat (be_nat (rev (take (LENGTH('a) div 8) bs)))"

lemma foldl_be_nat: "foldl (\<lambda>a b. 256 * a + unat b) c bs = c * 256 ^ length bs + be_nat bs"
proof (induction bs arbitrary: c rule: rev_induct)
  case (snoc x xs)
  have "be_nat (xs @ [x]) = 256 * be_nat xs + unat x"
    by (simp add: be_nat_def)
  with snoc show ?case by simp
qed (simp add: be_nat_def)

lemma be_nat_Nil [simp]: "be_nat [] = 0"
  by (simp add: be_nat_def)

lemma be_nat_Cons [simp]: "be_nat (x # xs) = unat x * 256 ^ length xs + be_nat xs"
  using foldl_be_nat [of "unat x" xs] by (simp add: be_nat_def)

lemma be_nat_append: "be_nat (xs @ ys) = be_nat xs * 256 ^ length ys + be_nat ys"
  by (induction xs) (simp_all add: power_add algebra_simps)

lemma be_nat_less: "be_nat xs < 256 ^ length xs"
proof (induction xs)
  case (Cons x xs)
  have "be_nat (x # xs) < (unat x + 1) * 256 ^ length xs"
    using Cons by simp
  also have "\<dots> \<le> 256 * 256 ^ length xs"
    using unat_lt_8 [of x] by (intro mult_le_mono1) linarith
  finally show ?case by simp
qed simp

lemma length_be_bytes [simp]: "length (be_bytes n v) = n"
  by (induction n) simp_all

lemma be_nat_be_bytes [simp]: "be_nat (be_bytes n v) = v mod 256 ^ n"
proof (induction n)
  case (Suc n)
  have "v mod (256 ^ n * 256) = 256 ^ n * (v div 256 ^ n mod 256) + v mod 256 ^ n"
    by (rule mod_mult2_eq)
  with Suc show ?case
    by (simp add: unat_of_nat take_bit_eq_mod mult.commute)
qed simp

lemma be_nat_inject:
  "length xs = length ys \<Longrightarrow> be_nat xs = be_nat ys \<longleftrightarrow> xs = ys"
proof (induction xs ys rule: list_induct2)
  case (Cons x xs y ys)
  have *: "be_nat (x # xs) div 256 ^ length xs = unat x"
    "be_nat (y # ys) div 256 ^ length ys = unat y"
    using be_nat_less [of xs] be_nat_less [of ys] by simp_all
  show ?case
    using Cons * by (metis be_nat_Cons add_left_cancel unsigned_word_eqI)
qed simp

lemma be_bytes_be_nat [simp]: "be_bytes (length bs) (be_nat bs) = bs"
  using be_nat_less [of bs] by (simp flip: be_nat_inject)

lemma be_bytes_eqI: "be_nat bs = v \<Longrightarrow> length bs = n \<Longrightarrow> be_bytes n v = bs"
  by auto

lemma be_nat_mono_lex:
  "length xs = length ys \<Longrightarrow> xs < ys \<longleftrightarrow> be_nat xs < be_nat ys"
proof (induction xs ys rule: list_induct2)
  case (Cons x xs y ys)
  have le: "unat a * 256 ^ length zs + be_nat us < unat b * 256 ^ length zs"
    if "unat a < unat b" "length us = length zs" for a b :: u8 and zs us :: bytes
  proof -
    have "unat a * 256 ^ length zs + be_nat us < (unat a + 1) * 256 ^ length zs"
      using be_nat_less [of us] that(2) by simp
    also have "\<dots> \<le> unat b * 256 ^ length zs"
      using that(1) by (intro mult_le_mono1) simp
    finally show ?thesis .
  qed
  consider "unat x < unat y" | "x = y" | "unat y < unat x"
    by (metis linorder_neqE_nat unsigned_word_eqI)
  then show ?case
  proof cases
    case 1
    with le [of x y xs ys] Cons.hyps show ?thesis
      by (simp add: word_less_nat_alt)
  next
    case 2
    with Cons show ?thesis by simp
  next
    case 3
    with le [of y x ys xs] Cons.hyps show ?thesis
      by (auto simp: word_less_nat_alt)
  qed
qed simp

lemma length_storeBE [simp]: "length (storeBE (w :: 'a::len word)) = LENGTH('a) div 8"
  by (simp add: storeBE_def)

lemma be_nat_storeBE:
  "be_nat (storeBE (w :: 'a::len word)) = unat w mod 256 ^ (LENGTH('a) div 8)"
  by (simp add: storeBE_def)

lemma unat_loadBE [unat_simps]:
  "unat (loadBE bs :: 'a::len word) = be_nat (take (LENGTH('a) div 8) bs) mod 2 ^ LENGTH('a)"
  by (simp only: loadBE_def unat_of_nat)

lemma length_storeLE [simp]: "length (storeLE (w :: 'a::len word)) = LENGTH('a) div 8"
  by (simp add: storeLE_def)

lemma loadLE_storeLE:
  assumes "LENGTH('a) mod 8 = 0"
  shows "loadLE (storeLE (w :: 'a::len word) @ bs) = w"
proof -
  have "(256 :: nat) ^ (LENGTH('a) div 8) = 2 ^ (8 * (LENGTH('a) div 8))"
    by (simp add: power_mult)
  also have "8 * (LENGTH('a) div 8) = LENGTH('a)"
    using assms by auto
  finally have "unat w mod 256 ^ (LENGTH('a) div 8) = unat w"
    by (simp add: unsigned_less)
  then show ?thesis
    by (simp add: loadLE_def storeLE_def be_nat_storeBE)
qed

end
