(* ===== verification/Nat_Codec.thy ===== *)
theory Nat_Codec
  imports Glean_Prelude
begin

text \<open>
  The packed natural numbers of \<^verbatim>\<open>rts/nat.h\<close> and \<^verbatim>\<open>rts/nat.cpp\<close>: an order-preserving
  prefix encoding of 64-bit numbers in one to nine bytes. A pointer into a buffer is the list
  of the bytes from it to the end of the buffer; a returned pointer is the rest of that list,
  and \<open>None\<close> the null pointer. The theory shows that the two decoders are left inverses of
  \<open>storeNat\<close>, that no other byte string decodes to the same number, that the byte strings
  compare as the numbers do, and that the checking decoder never reads past the buffer.
\<close>

section \<open>The code\<close>

definition natSizes :: "nat list" where
  "natSizes = replicate 128 1 @ replicate 64 2 @ replicate 32 3 @ replicate 16 4 @
     replicate 8 5 @ [6, 6, 6, 6, 7, 7, 8, 9]"

definition natSize :: "u8 \<Rightarrow> nat" where
  "natSize b0 =
     (if b0 < 0x80 then 1
      else if b0 < 0xC0 then 2
      else if b0 < 0xE0 then 3
      else if b0 < 0xF0 then 4
      else if b0 < 0xF8 then 5
      else natSizes ! unat b0)"

definition MAX_NAT_SIZE :: nat where
  "MAX_NAT_SIZE = 9"

definition skipUntrustedNat :: "bytes \<Rightarrow> bytes option" where
  "skipUntrustedNat p =
     (if p \<noteq> [] then
        let size = natSize (hd p) in
        if size \<le> length p \<and>
           (size < 9 \<or> (loadBE (drop 1 p) :: u64) \<le> 0xFEFDFBF7EFDFBF7F)
        then Some (drop size p) else None
      else None)"

text \<open>The unchecked functions read whatever is there; past the end that is undefined.\<close>

definition skipTrustedNat :: "bytes \<Rightarrow> bytes result" where
  "skipTrustedNat p =
     (if p = [] \<or> length p < natSize (hd p) then raise Undefined
      else ok (drop (natSize (hd p)) p))"

definition load2 :: "u8 \<Rightarrow> bytes \<Rightarrow> u64" where
  "load2 b0 p = push_bit 8 (ucast (b0 AND 0x3F)) + ucast (p ! 1) + 0x80"

definition load3 :: "u8 \<Rightarrow> bytes \<Rightarrow> u64" where
  "load3 b0 p = push_bit 16 (ucast (b0 AND 0x1F)) + ucast (loadBE (drop 1 p) :: u16) + 0x4080"

definition load4 :: "u8 \<Rightarrow> bytes \<Rightarrow> u64" where
  "load4 b0 p = ucast ((loadBE p :: u32) AND 0x0FFFFFFF) + 0x204080"

definition load5 :: "u8 \<Rightarrow> bytes \<Rightarrow> u64" where
  "load5 b0 p = push_bit 32 (ucast (b0 AND 0x7)) + ucast (loadBE (drop 1 p) :: u32) + 0x10204080"

definition load6 :: "u8 \<Rightarrow> bytes \<Rightarrow> u64" where
  "load6 b0 p = push_bit 40 (ucast (b0 AND 0x3)) + push_bit 32 (ucast (p ! 1)) +
     ucast (loadBE (drop 2 p) :: u32) + 0x0810204080"

definition load7 :: "u8 \<Rightarrow> bytes \<Rightarrow> u64" where
  "load7 b0 p = push_bit 48 (ucast (b0 AND 0x1)) +
     push_bit 32 (ucast (loadBE (drop 1 p) :: u16)) +
     ucast (loadBE (drop 3 p) :: u32) + 0x040810204080"

definition load8 :: "u8 \<Rightarrow> bytes \<Rightarrow> u64" where
  "load8 b0 p = (loadBE p AND 0xFFFFFFFFFFFFFF) + 0x02040810204080"

definition load9 :: "u8 \<Rightarrow> bytes \<Rightarrow> u64" where
  "load9 b0 p = loadBE (drop 1 p) + 0x0102040810204080"

text \<open>The template \<open>load<n>\<close>; a number of one byte is the byte itself.\<close>

definition load_n :: "nat \<Rightarrow> u8 \<Rightarrow> bytes \<Rightarrow> u64" where
  "load_n n b0 p =
     (if n = 1 then ucast b0 else if n = 2 then load2 b0 p else if n = 3 then load3 b0 p
      else if n = 4 then load4 b0 p else if n = 5 then load5 b0 p else if n = 6 then load6 b0 p
      else if n = 7 then load7 b0 p else if n = 8 then load8 b0 p else load9 b0 p)"

definition decode_n :: "nat \<Rightarrow> u8 \<Rightarrow> bytes \<Rightarrow> u64 \<times> bytes" where
  "decode_n n b0 p = (load_n n b0 p, drop n p)"

definition decodeCheck :: "nat \<Rightarrow> u8 \<Rightarrow> bytes \<Rightarrow> (u64 \<times> bytes) option" where
  "decodeCheck n b0 p =
     (if n \<le> length p then
        let r = decode_n n b0 p in
        if n \<noteq> 9 \<or> fst r \<ge> 0x0102040810204080 then Some r else None
      else None)"

text \<open>The jump table keyed on the first byte: the number of the label it jumps to.\<close>

definition decoder :: "nat list" where
  "decoder = replicate 128 1 @ replicate 64 2 @ replicate 32 3 @ replicate 16 4 @
     replicate 8 5 @ [6, 6, 6, 6, 7, 7, 8, 9]"

definition loadTrustedNat :: "bytes \<Rightarrow> (u64 \<times> bytes) result" where
  "loadTrustedNat p =
     (case p of [] \<Rightarrow> raise Undefined
      | b0 # _ \<Rightarrow>
        let n = decoder ! unat b0 in
        if length p < n then raise Undefined else ok (decode_n n b0 p))"

definition loadUntrustedNat :: "bytes \<Rightarrow> (u64 \<times> bytes) option" where
  "loadUntrustedNat p =
     (case p of [] \<Rightarrow> None
      | b0 # _ \<Rightarrow>
        let n = decoder ! unat b0 in
        if n = 1 then Some (ucast b0, drop 1 p) else decodeCheck n b0 p)"

text \<open>The bytes \<open>storeNat\<close> writes to the buffer; the number it returns is their count.\<close>

definition storeNat :: "u64 \<Rightarrow> bytes" where
  "storeNat val =
     (if val < 0x80 then [ucast val]
      else if val < 0x4080 then
        (let w = storeBE (ucast (val - 0x80) :: u16) in (hd w OR 0x80) # tl w)
      else if val < 0x204080 then
        (let val = val - 0x4080
         in (0xC0 OR ucast (drop_bit 16 val)) # storeBE (ucast val :: u16))
      else if val < 0x10204080 then
        (let val = val - 0x204080 in storeBE (ucast (val OR 0xE0000000) :: u32))
      else if val < 0x0810204080 then
        (let val = val - 0x10204080
         in (0xF0 OR ucast (drop_bit 32 val)) # storeBE (ucast val :: u32))
      else if val < 0x040810204080 then
        (let val = val - 0x0810204080
         in storeBE (ucast (drop_bit 32 val OR 0xF800) :: u16) @ storeBE (ucast val :: u32))
      else if val < 0x02040810204080 then
        (let val = val - 0x040810204080
         in (0xFC OR ucast (drop_bit 48 val)) # storeBE (ucast (drop_bit 32 val) :: u16) @
            storeBE (ucast val :: u32))
      else if val < 0x0102040810204080 then
        (let val = val - 0x02040810204080 in storeBE (val OR 0xFE00000000000000))
      else
        (let val = val - 0x0102040810204080 in 0xFF # storeBE val))"

definition EncodedNat_byteRange :: "u64 \<Rightarrow> bytes" where
  "EncodedNat_byteRange val = storeNat val"

section \<open>The shape of an encoding\<close>

text \<open>
  An encoding of \<open>n\<close> bytes starts the range of numbers at \<open>nat_base n\<close> and carries the
  prefix \<open>nat_prefix n\<close> in its first byte; the rest is the distance from the start of the range.
\<close>

definition nat_base :: "nat \<Rightarrow> nat" where
  "nat_base n = [0, 0, 0x80, 0x4080, 0x204080, 0x10204080, 0x0810204080, 0x040810204080,
     0x02040810204080, 0x0102040810204080, 0x10000000000000000] ! n"

definition nat_prefix :: "nat \<Rightarrow> nat" where
  "nat_prefix n = [0, 0, 0x80, 0xC0, 0xE0, 0xF0, 0xF8, 0xFC, 0xFE, 0xFF, 0x100] ! n"

lemma nat_size_cases:
  assumes "1 \<le> n" "n \<le> (9::nat)"
  obtains "n = 1" | "n = 2" | "n = 3" | "n = 4" | "n = 5" | "n = 6" | "n = 7" | "n = 8" | "n = 9"
  using assms by (metis eval_nat_numeral(2,3) le_SucE le_antisym Suc_1 One_nat_def
      semiring_norm(26-28) numeral_One)


lemma natSizes_nth:
  assumes "k < 256"
  shows "natSizes ! k =
    (if k < 128 then 1 else if k < 192 then 2 else if k < 224 then 3 else if k < 240 then 4
     else if k < 248 then 5 else if k < 252 then 6 else if k < 254 then 7
     else if k < 255 then 8 else 9)"
  using assms by (auto simp: natSizes_def nth_append nth_Cons')

lemma natSize_natSizes: "natSize b = natSizes ! unat b"
  by (simp add: natSize_def natSizes_nth unat_lt_8 word_less_nat_alt)

lemma decoder_natSize: "decoder ! unat b = natSize b"
  by (simp add: natSize_natSizes decoder_def natSizes_def)

lemma natSize_bounds: "1 \<le> natSize b" "natSize b \<le> 9"
  by (simp_all add: natSize_natSizes natSizes_nth unat_lt_8)

lemma natSize_iff_prefix:
  assumes "1 \<le> n" "n \<le> 9"
  shows "natSize b = n \<longleftrightarrow> nat_prefix n \<le> unat b \<and> unat b < nat_prefix (Suc n)"
  using assms
  by (cases rule: nat_size_cases) (auto simp: natSize_natSizes natSizes_nth nat_prefix_def unat_lt_8)


lemma mod_between: "c * k \<le> x \<Longrightarrow> x < Suc c * k \<Longrightarrow> x mod k = x - c * (k::nat)"
  by (metis add_diff_cancel_left' le_iff_add mod_less mod_mult_self3 mult_Suc nat_add_left_cancel_less add.commute)

text \<open>
  Each \<open>load<n>\<close> adds the distance the bytes carry to the start of its range: on a first byte
  with the right prefix, what follows the prefix is the number the \<open>n\<close> bytes spell.
\<close>

lemma load2_value:
  assumes "0x80 \<le> unat b0" "unat b0 < 0xC0" "length bs = 1"
  shows "unat (load2 b0 (b0 # bs @ r)) =
    0x80 + (unat b0 * 256 ^ 1 + be_nat bs - 0x80 * 256 ^ 1)"
proof -
  obtain b1 cs where bs: "bs = b1 # cs" "length cs = 0"
    using assms(3) by (cases bs) auto
  then show ?thesis
    using assms and_low_mask_nat [of "unat b0" 6] mod_between [of 2 "64" "unat b0"]
      unat_lt_8 [of b1] be_nat_less [of cs]
    by (simp add: load2_def unat_simps)
qed

lemma load3_value:
  assumes "0xC0 \<le> unat b0" "unat b0 < 0xE0" "length bs = 2"
  shows "unat (load3 b0 (b0 # bs @ r)) =
    0x4080 + (unat b0 * 256 ^ 2 + be_nat bs - 0xC0 * 256 ^ 2)"
  using assms and_low_mask_nat [of "unat b0" 5] mod_between [of 6 "32" "unat b0"]
    be_nat_less [of bs]
  by (simp add: load3_def unat_simps)

lemma load4_value:
  assumes "0xE0 \<le> unat b0" "unat b0 < 0xF0" "length bs = 3"
  shows "unat (load4 b0 (b0 # bs @ r)) =
    0x204080 + (unat b0 * 256 ^ 3 + be_nat bs - 0xE0 * 256 ^ 3)"
  using assms and_low_mask_nat [of "unat b0 * 256 ^ 3 + be_nat bs" 28] mod_between [of 14 "2 ^ 28" "unat b0 * 256 ^ 3 + be_nat bs"]
    be_nat_less [of bs]
  by (simp add: load4_def unat_simps)

lemma load5_value:
  assumes "0xF0 \<le> unat b0" "unat b0 < 0xF8" "length bs = 4"
  shows "unat (load5 b0 (b0 # bs @ r)) =
    0x10204080 + (unat b0 * 256 ^ 4 + be_nat bs - 0xF0 * 256 ^ 4)"
  using assms and_low_mask_nat [of "unat b0" 3] mod_between [of 30 "8" "unat b0"]
    be_nat_less [of bs]
  by (simp add: load5_def unat_simps)

lemma load6_value:
  assumes "0xF8 \<le> unat b0" "unat b0 < 0xFC" "length bs = 5"
  shows "unat (load6 b0 (b0 # bs @ r)) =
    0x810204080 + (unat b0 * 256 ^ 5 + be_nat bs - 0xF8 * 256 ^ 5)"
proof -
  obtain b1 cs where bs: "bs = b1 # cs" "length cs = 4"
    using assms(3) by (cases bs) auto
  then show ?thesis
    using assms and_low_mask_nat [of "unat b0" 2] mod_between [of 62 "4" "unat b0"]
      unat_lt_8 [of b1] be_nat_less [of cs]
    by (simp add: load6_def unat_simps)
qed

lemma load7_value:
  assumes "0xFC \<le> unat b0" "unat b0 < 0xFE" "length bs = 6"
  shows "unat (load7 b0 (b0 # bs @ r)) =
    0x40810204080 + (unat b0 * 256 ^ 6 + be_nat bs - 0xFC * 256 ^ 6)"
proof -
  obtain cs ds where bs: "bs = cs @ ds" "length cs = 2" "length ds = 4"
    using assms(3) by (intro that [of "take 2 bs" "drop 2 bs"]) simp_all
  then show ?thesis
    using assms and_low_mask_nat [of "unat b0" 1] mod_between [of 126 "2" "unat b0"]
      be_nat_less [of cs] be_nat_less [of ds]
    by (simp add: load7_def unat_simps be_nat_append)
qed

lemma load8_value:
  assumes "0xFE \<le> unat b0" "unat b0 < 0xFF" "length bs = 7"
  shows "unat (load8 b0 (b0 # bs @ r)) =
    0x2040810204080 + (unat b0 * 256 ^ 7 + be_nat bs - 0xFE * 256 ^ 7)"
  using assms and_low_mask_nat [of "unat b0 * 256 ^ 7 + be_nat bs" 56] mod_between [of 254 "2 ^ 56" "unat b0 * 256 ^ 7 + be_nat bs"]
    be_nat_less [of bs]
  by (simp add: load8_def unat_simps)

lemma load9_value:
  assumes "length bs = 8"
  shows "unat (load9 b0 (b0 # bs @ r)) = (0x0102040810204080 + be_nat bs) mod 2 ^ 64"
proof -
  have "be_nat bs mod 2 ^ 64 = be_nat bs"
    using be_nat_less [of bs] assms by simp
  then show ?thesis
    using assms by (simp add: load9_def unat_simps add.commute [of "be_nat bs"])
qed


lemma div_mod_digit: "(x :: nat) div k mod m * k + x mod k = x mod (k * m)"
  by (simp add: mod_mult2_eq mult.commute)

text \<open>What \<open>storeNat\<close> writes: the byte string of size \<open>n\<close> for the number \<open>x\<close>.\<close>

definition encodes :: "bytes \<Rightarrow> nat \<Rightarrow> nat \<Rightarrow> bool" where
  "encodes bs n x \<longleftrightarrow> 1 \<le> n \<and> n \<le> 9 \<and> length bs = n \<and>
     nat_base n \<le> x \<and> x < nat_base (Suc n) \<and>
     be_nat bs = nat_prefix n * 256 ^ (n - 1) + (x - nat_base n)"

lemma storeNat_encodes_1:
  assumes "unat v < 0x80"
  shows "encodes (storeNat v) 1 (unat v)"
  using assms
  by (simp add: encodes_def storeNat_def word_less_nat_alt nat_base_def nat_prefix_def unat_simps)

lemma storeBE_u16: "storeBE (w :: u16) = [of_nat (unat w div 256), of_nat (unat w)]"
proof -
  have "be_bytes 2 v = [of_nat (v div 256), of_nat v]" for v
    by (simp add: numeral_2_eq_2)
  then show ?thesis by (simp add: storeBE_def)
qed

lemma storeNat_encodes_2:
  assumes "0x80 \<le> unat v" "unat v < 0x4080"
  shows "encodes (storeNat v) 2 (unat v)"
proof -
  have sub: "unat (v - 0x80) = unat v - 0x80"
    using assms by (simp add: unat_sub word_le_nat_alt)
  have "unat (hd (storeBE (ucast (v - 0x80) :: u16)) OR 0x80) = 0x80 + (unat v - 0x80) div 256"
    using assms or_disjoint_nat [of 7 "0x80" "(unat v - 0x80) div 256"]
    by (simp add: storeBE_u16 unat_of_nat unat_simps sub or.commute)
  moreover have "be_nat (tl (storeBE (ucast (v - 0x80) :: u16))) = (unat v - 0x80) mod 256"
    by (simp add: storeBE_u16 unat_of_nat unat_simps sub mod_mod_cancel)
  ultimately show ?thesis
    using assms
    by (simp add: encodes_def storeNat_def word_less_nat_alt nat_base_def nat_prefix_def sub
        Let_def be_nat_storeBE be_nat_append unat_ucast_mod unat_drop_bit_div)
qed

lemma storeNat_encodes_3:
  assumes "0x4080 \<le> unat v" "unat v < 0x204080"
  shows "encodes (storeNat v) 3 (unat v)"
proof -
  have sub: "unat (v - 0x4080) = unat v - 0x4080"
    using assms by (simp add: unat_sub word_le_nat_alt)
  have "unat (0xC0 OR ucast (drop_bit 16 (v - 0x4080)) :: u8) = 0xC0 + (unat v - 0x4080) div 2 ^ 16"
    using assms or_disjoint_nat [of 5 "0xC0" "(unat v - 0x4080) div 2 ^ 16"]
    by (simp add: unat_simps sub or.commute)
  then show ?thesis
    using assms
    by (simp add: encodes_def storeNat_def word_less_nat_alt nat_base_def nat_prefix_def sub
        Let_def be_nat_storeBE be_nat_append unat_ucast_mod unat_drop_bit_div)
qed

lemma storeNat_encodes_4:
  assumes "0x204080 \<le> unat v" "unat v < 0x10204080"
  shows "encodes (storeNat v) 4 (unat v)"
proof -
  have sub: "unat (v - 0x204080) = unat v - 0x204080"
    using assms by (simp add: unat_sub word_le_nat_alt)
  have "unat (ucast ((v - 0x204080) OR 0xE0000000) :: u32) = 0xE0000000 + (unat v - 0x204080)"
    using assms or_disjoint_nat [of 28 "0xE0000000" "(unat v - 0x204080)"]
    by (simp add: unat_simps sub or.commute)
  then show ?thesis
    using assms
    by (simp add: encodes_def storeNat_def word_less_nat_alt nat_base_def nat_prefix_def sub
        Let_def be_nat_storeBE)
qed

lemma storeNat_encodes_5:
  assumes "0x10204080 \<le> unat v" "unat v < 0x0810204080"
  shows "encodes (storeNat v) 5 (unat v)"
proof -
  have sub: "unat (v - 0x10204080) = unat v - 0x10204080"
    using assms by (simp add: unat_sub word_le_nat_alt)
  have "unat (0xF0 OR ucast (drop_bit 32 (v - 0x10204080)) :: u8) = 0xF0 + (unat v - 0x10204080) div 2 ^ 32"
    using assms or_disjoint_nat [of 3 "0xF0" "(unat v - 0x10204080) div 2 ^ 32"]
    by (simp add: unat_simps sub or.commute)
  then show ?thesis
    using assms
    by (simp add: encodes_def storeNat_def word_less_nat_alt nat_base_def nat_prefix_def sub
        Let_def be_nat_storeBE be_nat_append unat_ucast_mod unat_drop_bit_div)
qed

lemma storeNat_encodes_6:
  assumes "0x0810204080 \<le> unat v" "unat v < 0x040810204080"
  shows "encodes (storeNat v) 6 (unat v)"
proof -
  have sub: "unat (v - 0x0810204080) = unat v - 0x0810204080"
    using assms by (simp add: unat_sub word_le_nat_alt)
  have "unat (ucast (drop_bit 32 (v - 0x0810204080) OR 0xF800) :: u16) = 0xF800 + (unat v - 0x0810204080) div 2 ^ 32"
    using assms or_disjoint_nat [of 10 "0xF800" "(unat v - 0x0810204080) div 2 ^ 32"]
    by (simp add: unat_simps sub or.commute)
  then show ?thesis
    using assms
    by (simp add: encodes_def storeNat_def word_less_nat_alt nat_base_def nat_prefix_def sub
        Let_def be_nat_storeBE be_nat_append unat_ucast_mod unat_drop_bit_div)
qed

lemma storeNat_encodes_7:
  assumes "0x040810204080 \<le> unat v" "unat v < 0x02040810204080"
  shows "encodes (storeNat v) 7 (unat v)"
proof -
  have sub: "unat (v - 0x040810204080) = unat v - 0x040810204080"
    using assms by (simp add: unat_sub word_le_nat_alt)
  have "unat (0xFC OR ucast (drop_bit 48 (v - 0x040810204080)) :: u8) = 0xFC + (unat v - 0x040810204080) div 2 ^ 48"
    using assms or_disjoint_nat [of 1 "0xFC" "(unat v - 0x040810204080) div 2 ^ 48"]
    by (simp add: unat_simps sub or.commute)
  moreover have "(unat v - 0x040810204080) div 2 ^ 32 mod 2 ^ 16 * 2 ^ 32 + (unat v - 0x040810204080) mod 2 ^ 32 =
      (unat v - 0x040810204080) mod 2 ^ 48"
    using div_mod_digit [of "unat v - 0x040810204080" "2 ^ 32" "2 ^ 16"] by simp
  ultimately show ?thesis
    using assms
    by (simp add: encodes_def storeNat_def word_less_nat_alt nat_base_def nat_prefix_def sub
        Let_def be_nat_storeBE be_nat_append unat_ucast_mod unat_drop_bit_div)
qed

lemma storeNat_encodes_8:
  assumes "0x02040810204080 \<le> unat v" "unat v < 0x0102040810204080"
  shows "encodes (storeNat v) 8 (unat v)"
proof -
  have sub: "unat (v - 0x02040810204080) = unat v - 0x02040810204080"
    using assms by (simp add: unat_sub word_le_nat_alt)
  have "unat ((v - 0x02040810204080) OR 0xFE00000000000000) = 0xFE00000000000000 + (unat v - 0x02040810204080)"
    using assms or_disjoint_nat [of 56 "0xFE00000000000000" "(unat v - 0x02040810204080)"]
    by (simp add: unat_simps sub or.commute)
  then show ?thesis
    using assms
    by (simp add: encodes_def storeNat_def word_less_nat_alt nat_base_def nat_prefix_def sub
        Let_def be_nat_storeBE)
qed

lemma storeNat_encodes_9:
  assumes "0x0102040810204080 \<le> unat v"
  shows "encodes (storeNat v) 9 (unat v)"
  using assms unat_lt_64 [of v]
  by (simp add: encodes_def storeNat_def word_less_nat_alt nat_base_def nat_prefix_def
      unat_sub word_le_nat_alt Let_def be_nat_storeBE)

lemma storeNat_encodes: "encodes (storeNat v) (length (storeNat v)) (unat v)"
proof -
  have "\<exists>n. encodes (storeNat v) n (unat v)"
    using storeNat_encodes_1 [of v] storeNat_encodes_2 [of v] storeNat_encodes_3 [of v]
      storeNat_encodes_4 [of v] storeNat_encodes_5 [of v] storeNat_encodes_6 [of v]
      storeNat_encodes_7 [of v] storeNat_encodes_8 [of v] storeNat_encodes_9 [of v]
    by (meson not_le)
  then show ?thesis by (auto simp: encodes_def)
qed

section \<open>Decoding inverts encoding\<close>

lemma nat_range_width:
  assumes "1 \<le> n" "n \<le> 8"
  shows "nat_base (Suc n) = nat_base n + (nat_prefix (Suc n) - nat_prefix n) * 256 ^ (n - 1)"
proof -
  have "n \<le> 9" using assms by simp
  with assms(1) show ?thesis
    by (cases rule: nat_size_cases) (use assms in \<open>simp_all add: nat_base_def nat_prefix_def\<close>)
qed

lemma nat_base_mono: "m \<le> n \<Longrightarrow> n \<le> 10 \<Longrightarrow> nat_base m \<le> nat_base n"
  unfolding nat_base_def by (rule sorted_nth_mono) simp_all

lemma nat_prefix_mono: "m \<le> n \<Longrightarrow> n \<le> 10 \<Longrightarrow> nat_prefix m \<le> nat_prefix n"
  unfolding nat_prefix_def by (rule sorted_nth_mono) simp_all

lemma nat_base_9: "nat_base 9 = 0x0102040810204080" "nat_base 10 = 2 ^ 64"
  by (simp_all add: nat_base_def)

lemma nat_prefix_9: "nat_prefix 9 = 0xFF" "nat_prefix 10 = 0x100"
  by (simp_all add: nat_prefix_def)

lemma encodes_range:
  assumes "encodes bs n x"
  shows "x - nat_base n < (nat_prefix (Suc n) - nat_prefix n) * 256 ^ (n - 1)"
proof (cases "n = 9")
  case True
  with assms show ?thesis
    by (auto simp: encodes_def nat_base_def nat_prefix_def)
next
  case False
  with assms have n: "1 \<le> n" "n \<le> 8" by (auto simp: encodes_def)
  show ?thesis
    using assms nat_range_width [OF n] by (auto simp: encodes_def)
qed

lemma encodes_natSize:
  assumes "encodes bs n x"
  obtains b0 cs where "bs = b0 # cs" "length cs = n - 1" "natSize b0 = n"
proof -
  from assms have n: "1 \<le> n" "n \<le> 9" "length bs = n" by (auto simp: encodes_def)
  then obtain b0 cs where bs: "bs = b0 # cs" "length cs = n - 1"
    by (cases bs) auto
  have "unat b0 * 256 ^ (n - 1) + be_nat cs = nat_prefix n * 256 ^ (n - 1) + (x - nat_base n)"
    using assms bs by (simp add: encodes_def)
  moreover have "unat b0 = (unat b0 * 256 ^ (n - 1) + be_nat cs) div 256 ^ (n - 1)"
    using be_nat_less [of cs] bs(2) by simp
  ultimately have eq: "unat b0 = nat_prefix n + (x - nat_base n) div 256 ^ (n - 1)"
    by simp
  have "(x - nat_base n) div 256 ^ (n - 1) < nat_prefix (Suc n) - nat_prefix n"
    using encodes_range [OF assms] by (simp add: less_mult_imp_div_less)
  with eq have "natSize b0 = n"
    using natSize_iff_prefix [OF n(1,2)] by simp
  with bs show thesis by (rule that)
qed

lemma load_n_value:
  assumes "natSize b0 = n" "length bs = n - 1"
  shows "unat (load_n n b0 (b0 # bs @ r)) =
    (nat_base n + (be_nat (b0 # bs) - nat_prefix n * 256 ^ (n - 1))) mod 2 ^ 64"
proof -
  have n: "1 \<le> n" "n \<le> 9" using natSize_bounds assms(1) by auto
  have pre: "nat_prefix n \<le> unat b0" "unat b0 < nat_prefix (Suc n)"
    using natSize_iff_prefix [OF n] assms(1) by auto
  have small: "x mod 2 ^ 64 = x" if "x = unat (w :: u64)" for x w
    using that unat_lt_64 [of w] by simp
  show ?thesis
    using n
  proof (cases rule: nat_size_cases)
    case 1
    then show ?thesis
      using assms(2) by (simp add: load_n_def nat_base_def nat_prefix_def unat_simps)
  next
    case 9
    then have "unat b0 = 255" using pre by (simp add: nat_prefix_def)
    then show ?thesis
      using 9 assms(2) load9_value [of bs b0 r]
      by (simp add: load_n_def nat_base_def nat_prefix_def)
  qed (use assms pre load2_value [of b0 bs r, THEN small [OF sym]]
      load3_value [of b0 bs r, THEN small [OF sym]] load4_value [of b0 bs r, THEN small [OF sym]]
      load5_value [of b0 bs r, THEN small [OF sym]] load6_value [of b0 bs r, THEN small [OF sym]]
      load7_value [of b0 bs r, THEN small [OF sym]] load8_value [of b0 bs r, THEN small [OF sym]]
      load2_value [of b0 bs r] load3_value [of b0 bs r] load4_value [of b0 bs r]
      load5_value [of b0 bs r] load6_value [of b0 bs r] load7_value [of b0 bs r]
      load8_value [of b0 bs r]
      in \<open>simp_all add: load_n_def nat_base_def nat_prefix_def\<close>)
qed

lemma load_n_encodes:
  assumes "encodes (b0 # bs) n (unat v)"
  shows "load_n n b0 (b0 # bs @ r) = v"
proof -
  from assms obtain "natSize b0 = n" "length bs = n - 1"
    by (metis encodes_natSize list.inject)
  then have "unat (load_n n b0 (b0 # bs @ r)) = unat v"
    using assms unat_lt_64 [of v] by (subst load_n_value) (simp_all add: encodes_def)
  then show ?thesis by (rule unsigned_word_eqI)
qed

lemma encodes_unique:
  assumes "encodes bs n x" "encodes cs m x"
  shows "bs = cs"
proof -
  have "n = m"
  proof (rule ccontr)
    assume "n \<noteq> m"
    then have "Suc n \<le> m \<or> Suc m \<le> n" by auto
    then show False
      using assms nat_base_mono [of "Suc n" m] nat_base_mono [of "Suc m" n]
      by (auto simp: encodes_def)
  qed
  with assms show ?thesis
    by (metis be_nat_inject encodes_def)
qed

lemma load_store:
  "loadUntrustedNat (storeNat v @ r) = Some (v, r) \<and> loadTrustedNat (storeNat v @ r) = ok (v, r)"
proof -
  have enc: "encodes (storeNat v) (length (storeNat v)) (unat v)" by (rule storeNat_encodes)
  obtain b0 cs where bs: "storeNat v = b0 # cs" "natSize b0 = length (storeNat v)"
    using encodes_natSize [OF enc] by metis
  have n: "natSize b0 = Suc (length cs)" using bs by simp
  have l: "load_n (Suc (length cs)) b0 (b0 # cs @ r) = v"
    using load_n_encodes [of b0 cs "Suc (length cs)" v r] enc bs by simp
  have "unat v \<ge> 0x0102040810204080" if "length cs = 8"
    using enc bs that by (simp add: encodes_def nat_base_def)
  then have "v \<ge> 0x0102040810204080" if "length cs = 8"
    using that by (simp add: word_le_nat_alt)
  moreover have "ucast b0 = v" if "length cs = 0"
    using l that by (simp add: load_n_def)
  ultimately show ?thesis
    using l n
    by (auto simp: bs loadUntrustedNat_def loadTrustedNat_def decoder_natSize decodeCheck_def
        decode_n_def Let_def)
qed

lemma decodeCheck_encodes:
  assumes "natSize b0 = n" "length bs = n - 1" and v: "v = load_n n b0 (b0 # bs @ r)"
    and big: "n = 9 \<Longrightarrow> 0x0102040810204080 \<le> v"
  shows "encodes (b0 # bs) n (unat v)"
proof -
  have n: "1 \<le> n" "n \<le> 9" using natSize_bounds assms(1) by auto
  have pre: "nat_prefix n \<le> unat b0" "unat b0 < nat_prefix (Suc n)"
    using natSize_iff_prefix [OF n] assms(1) by auto
  define K where "K = (256 :: nat) ^ (n - 1)"
  define d where "d = be_nat (b0 # bs) - nat_prefix n * K"
  have B: "be_nat bs < K" using be_nat_less [of bs] assms(2) by (simp add: K_def)
  have ge: "nat_prefix n * K \<le> be_nat (b0 # bs)"
    using pre(1) assms(2) by (simp add: K_def trans_le_add1)
  have "be_nat (b0 # bs) < Suc (unat b0) * K"
    using B assms(2) by (simp add: K_def)
  also have "\<dots> \<le> nat_prefix (Suc n) * K"
    using pre(2) by (intro mult_le_mono1) simp
  finally have d: "d < (nat_prefix (Suc n) - nat_prefix n) * K"
    using ge by (simp add: d_def diff_mult_distrib)
  have v': "unat v = (nat_base n + d) mod 2 ^ 64"
    using load_n_value [OF assms(1,2)] by (simp add: v d_def K_def)
  have "unat v = nat_base n + d \<and> unat v < nat_base (Suc n)"
  proof (cases "n = 9")
    case True
    have "d < 2 ^ 64" using d True by (simp add: nat_prefix_def K_def)
    moreover have "nat_base 9 \<le> unat v"
      using big True by (simp add: word_le_nat_alt nat_base_def)
    ultimately show ?thesis
      using v' True unat_lt_64 [of v]
      by (auto simp: nat_base_def mod_if split: if_splits)
  next
    case False
    with n have "n \<le> 8" by simp
    then have "nat_base n + d < nat_base (Suc n)"
      using nat_range_width [OF n(1)] d by (simp add: K_def)
    moreover have "nat_base (Suc n) \<le> 2 ^ 64"
      using nat_base_mono [of "Suc n" 10] \<open>n \<le> 8\<close> by (simp add: nat_base_9)
    ultimately show ?thesis using v' by simp
  qed
  then show ?thesis
    using n assms(2) ge by (simp add: encodes_def d_def K_def)
qed

lemma load_iff_store:
  "loadUntrustedNat p = Some (v, r) \<longleftrightarrow> p = storeNat v @ r"
proof
  assume "p = storeNat v @ r"
  then show "loadUntrustedNat p = Some (v, r)"
    using load_store by simp
next
  assume *: "loadUntrustedNat p = Some (v, r)"
  then obtain b0 q where p: "p = b0 # q"
    by (auto simp: loadUntrustedNat_def split: list.splits)
  define n where "n = natSize b0"
  define bs where "bs = take (n - 1) q"
  have n: "1 \<le> n" using natSize_bounds by (simp add: n_def)
  have len: "n \<le> length p" and r: "r = drop n p" and v: "v = load_n n b0 p"
    and big: "n = 9 \<longrightarrow> 0x0102040810204080 \<le> v"
    using * n by (auto simp: p loadUntrustedNat_def decoder_natSize n_def decodeCheck_def
        decode_n_def Let_def load_n_def split: if_splits)
  have p': "p = (b0 # bs) @ r" and lbs: "length bs = n - 1"
    using n len by (auto simp: p bs_def r drop_Cons' )
  have "encodes (b0 # bs) n (unat v)"
    using decodeCheck_encodes [of b0 n bs v r] lbs v p' big by (simp add: n_def)
  then show "p = storeNat v @ r"
    using encodes_unique [OF _ storeNat_encodes] p' by metis
qed

section \<open>Order, sizes and skipping\<close>

lemma encodes_lex:
  assumes "encodes bs n x" "encodes cs m y" "x < y"
  shows "bs < cs"
proof (cases "n = m")
  case True
  with assms show ?thesis
    by (auto simp: encodes_def be_nat_mono_lex)
next
  case False
  have nm: "n < m"
  proof (rule ccontr)
    assume "\<not> n < m"
    with False have "Suc m \<le> n" by simp
    then show False
      using assms nat_base_mono [of "Suc m" n] by (auto simp: encodes_def)
  qed
  obtain b bs' where bs: "bs = b # bs'" "natSize b = n"
    using encodes_natSize [OF assms(1)] by metis
  obtain c cs' where cs: "cs = c # cs'" "natSize c = m"
    using encodes_natSize [OF assms(2)] by metis
  have "unat b < nat_prefix (Suc n)"
    using natSize_iff_prefix [of n b] bs(2) assms(1) by (auto simp: encodes_def)
  also have "\<dots> \<le> nat_prefix m"
    using nm assms(2) by (intro nat_prefix_mono) (auto simp: encodes_def)
  also have "\<dots> \<le> unat c"
    using natSize_iff_prefix [of m c] cs(2) assms(2) by (auto simp: encodes_def)
  finally show ?thesis
    by (simp add: bs cs word_less_nat_alt)
qed

lemma storeNat_mono: "a < b \<Longrightarrow> storeNat a < storeNat b"
  by (rule encodes_lex [OF storeNat_encodes storeNat_encodes]) (simp add: word_less_nat_alt)

lemma storeNat_less_iff: "storeNat a < storeNat b \<longleftrightarrow> a < b"
  by (metis storeNat_mono linorder_neq_iff order_less_asym)

lemma storeNat_inject [simp]: "storeNat a = storeNat b \<longleftrightarrow> a = b"
  by (metis storeNat_less_iff linorder_neq_iff)

lemma length_storeNat: "1 \<le> length (storeNat v)" "length (storeNat v) \<le> MAX_NAT_SIZE"
  using storeNat_encodes [of v] by (auto simp: encodes_def MAX_NAT_SIZE_def)

lemma natSize_storeNat: "natSize (hd (storeNat v)) = length (storeNat v)"
  using encodes_natSize [OF storeNat_encodes [of v]] by (metis list.sel(1))

lemma storeNat_not_Nil [simp]: "storeNat v \<noteq> []"
  using length_storeNat(1) [of v] by auto

lemma skip_eq_load: "skipUntrustedNat p = map_option snd (loadUntrustedNat p)"
proof (cases p)
  case (Cons b0 q)
  define n where "n = natSize b0"
  have big: "(loadBE (drop 1 p) :: u64) \<le> 0xFEFDFBF7EFDFBF7F \<longleftrightarrow>
      0x0102040810204080 \<le> load9 b0 p"
    using unat_lt_64 [of "loadBE (drop 1 p) :: u64"]
    by (auto simp: load9_def word_le_nat_alt unat_add_mod mod_if)
  show ?thesis
    using big natSize_bounds [of b0]
    by (auto simp: skipUntrustedNat_def loadUntrustedNat_def decoder_natSize Cons Let_def
        decodeCheck_def decode_n_def load_n_def)
qed (simp add: skipUntrustedNat_def loadUntrustedNat_def)

lemma skipTrusted_store: "skipTrustedNat (storeNat v @ r) = ok r"
  using natSize_storeNat [of v] by (simp add: skipTrustedNat_def)

section \<open>Properties\<close>

text \<open>
  C24. Both decoders return the number \<open>storeNat\<close> encoded and the bytes that follow it, whatever
  those are: encoding and decoding are inverse and an encoding is never a prefix of another.
\<close>

theorem loadNat_storeNat:
  "loadUntrustedNat (storeNat v @ r) = Some (v, r) \<and> loadTrustedNat (storeNat v @ r) = ok (v, r)"
  by (rule load_store)

text \<open>
  C26. The checking decoder accepts a buffer exactly when it starts with the encoding of some
  number, and returns that number and the rest: every 64-bit number has one encoding, and no
  other byte string is taken for a number. The checking skip accepts the same buffers and
  returns the same rest, although it tests the nine-byte case differently.
\<close>

theorem loadUntrustedNat_iff:
  "(loadUntrustedNat p = Some (v, r) \<longleftrightarrow> p = storeNat v @ r) \<and>
   skipUntrustedNat p = map_option snd (loadUntrustedNat p)"
  by (simp add: load_iff_store skip_eq_load)

text \<open>
  C25. The packed numbers compare lexicographically as the numbers compare, so a byte-wise
  comparison (\<^verbatim>\<open>memcmp\<close>, or the key order of the database) orders ids by their value.
\<close>

theorem storeNat_order: "storeNat a < storeNat b \<longleftrightarrow> a < b"
  by (rule storeNat_less_iff)

end
