(* ===== verification/Ids_Stats.thy ===== *)
theory Ids_Stats
  imports Glean_Prelude
begin

text \<open>
  Fact and predicate ids (\<^verbatim>\<open>rts/id.h\<close>) and the counting types of \<^verbatim>\<open>rts/stats.h\<close>. Ids are
  64-bit words; 0 is the invalid id, on which an id converts to \<^verbatim>\<open>false\<close>.
\<close>

section \<open>Ids\<close>

type_synonym WordId = u64
type_synonym Pid = WordId
type_synonym Id = WordId

definition WordId_invalid :: WordId where
  "WordId_invalid = 0"

definition FIRST_FREE_ID :: u64 where
  "FIRST_FREE_ID = 1024"

definition WordId_lowest :: WordId where
  "WordId_lowest = FIRST_FREE_ID"

definition WordId_bool :: "WordId \<Rightarrow> bool" where
  "WordId_bool w \<longleftrightarrow> w \<noteq> 0"

definition WordId_plus :: "WordId \<Rightarrow> u64 \<Rightarrow> WordId" where
  "WordId_plus w i = w + i"

definition WordId_minus :: "WordId \<Rightarrow> u64 \<Rightarrow> WordId" where
  "WordId_minus w i = w - i"

definition distance :: "WordId \<Rightarrow> WordId \<Rightarrow> u64" where
  "distance a b = b - a"

lemma WordId_bool_iff [simp]: "WordId_bool w \<longleftrightarrow> w \<noteq> WordId_invalid"
  by (simp add: WordId_bool_def WordId_invalid_def)

lemma unat_distance: "a \<le> b \<Longrightarrow> unat (distance a b) = unat b - unat a"
  by (simp add: distance_def unat_sub)

lemma distance_self [simp]: "distance a a = 0"
  by (simp add: distance_def)

lemma WordId_plus_distance [simp]: "WordId_plus a (distance a b) = b"
  by (simp add: WordId_plus_def distance_def)

lemma invalid_le [simp]: "WordId_invalid \<le> w"
  by (simp add: WordId_invalid_def)

lemma unat_plus_nat:
  "unat (w :: u64) + n < 2 ^ 64 \<Longrightarrow> unat (w + of_nat n) = unat w + n"
proof -
  assume a: "unat w + n < 2 ^ 64"
  then have "unat (of_nat n :: u64) = n"
    by (simp add: unat_of_nat_64)
  with a show ?thesis
    by (simp add: unat_add_mod)
qed

section \<open>Intervals and memory statistics\<close>

definition max_u64 :: u64 where
  "max_u64 = 0xFFFFFFFFFFFFFFFF"

record Interval =
  lo :: u64
  hi :: u64

definition Interval_of :: "u64 \<Rightarrow> Interval" where
  "Interval_of n = \<lparr>lo = n, hi = n\<rparr>"

definition Interval_exact :: "Interval \<Rightarrow> bool" where
  "Interval_exact i \<longleftrightarrow> lo i = hi i"

definition Interval_atLeast :: "u64 \<Rightarrow> Interval" where
  "Interval_atLeast n = \<lparr>lo = n, hi = max_u64\<rparr>"

definition Interval_atMost :: "u64 \<Rightarrow> Interval" where
  "Interval_atMost n = \<lparr>lo = 0, hi = n\<rparr>"

definition sat_add :: "u64 \<Rightarrow> u64 \<Rightarrow> u64" where
  "sat_add x y = (if max_u64 - x < y then max_u64 else x + y)"

definition Interval_plus :: "Interval \<Rightarrow> Interval \<Rightarrow> Interval" where
  "Interval_plus i j = \<lparr>lo = sat_add (lo i) (lo j), hi = sat_add (hi i) (hi j)\<rparr>"

definition Interval_asHigh :: "Interval \<Rightarrow> Interval" where
  "Interval_asHigh i = \<lparr>lo = 0, hi = hi i\<rparr>"

definition Interval_asLow :: "Interval \<Rightarrow> Interval" where
  "Interval_asLow i = \<lparr>lo = lo i, hi = max_u64\<rparr>"

record MemoryStats =
  ms_count :: u64
  ms_memory :: u64

definition MemoryStats_zero :: MemoryStats where
  "MemoryStats_zero = \<lparr>ms_count = 0, ms_memory = 0\<rparr>"

definition MemoryStats_one :: "u64 \<Rightarrow> MemoryStats" where
  "MemoryStats_one mem = \<lparr>ms_count = 1, ms_memory = mem\<rparr>"

definition MemoryStats_plus :: "MemoryStats \<Rightarrow> MemoryStats \<Rightarrow> MemoryStats" where
  "MemoryStats_plus s t =
     \<lparr>ms_count = ms_count s + ms_count t, ms_memory = ms_memory s + ms_memory t\<rparr>"

lemma unat_max_u64: "unat max_u64 = 2 ^ 64 - 1"
  by (simp add: max_u64_def)

lemma unat_sat_add: "unat (sat_add x y) = min (unat x + unat y) (2 ^ 64 - 1)"
proof -
  have le: "x \<le> max_u64"
    using unat_lt_64 [of x] by (simp add: word_le_nat_alt unat_max_u64)
  then have "unat (max_u64 - x) = 2 ^ 64 - 1 - unat x"
    by (simp add: unat_sub unat_max_u64)
  then show ?thesis
    using unat_lt_64 [of x] unat_lt_64 [of y]
    by (auto simp: sat_add_def word_less_nat_alt unat_add_mod unat_max_u64)
qed

text \<open>The numbers an interval allows; the largest value of the type stands for no bound.\<close>

definition in_interval :: "nat \<Rightarrow> Interval \<Rightarrow> bool" where
  "in_interval n i \<longleftrightarrow> unat (lo i) \<le> n \<and> (n \<le> unat (hi i) \<or> hi i = max_u64)"

lemma in_interval_of: "n < 2 ^ 64 \<Longrightarrow> in_interval n (Interval_of (of_nat n))"
  by (simp add: in_interval_def Interval_of_def unat_of_nat_64)

lemma in_interval_plus:
  assumes "in_interval m i" "in_interval n j"
  shows "in_interval (m + n) (Interval_plus i j)"
proof -
  have top: "w = max_u64 \<longleftrightarrow> unat w = 2 ^ 64 - 1" for w
    by (metis unat_max_u64 unsigned_word_eqI)
  show ?thesis
    using assms unat_lt_64 [of "hi i"] unat_lt_64 [of "hi j"]
    unfolding in_interval_def Interval_plus_def top
    by (auto simp: unat_sat_add)
qed

lemma in_interval_asHigh: "in_interval n i \<Longrightarrow> m \<le> n \<Longrightarrow> in_interval m (Interval_asHigh i)"
  by (auto simp: in_interval_def Interval_asHigh_def)

text \<open>
  Adding two count intervals is sound and never wraps: any two numbers the intervals allow
  have a sum the result allows, each bound saturating at the largest 64-bit value.
\<close>

theorem Interval_plus_sound:
  assumes "in_interval m i" and "in_interval n j"
  shows "in_interval (m + n) (Interval_plus i j) \<and>
    unat (hi (Interval_plus i j)) = min (unat (hi i) + unat (hi j)) (2 ^ 64 - 1)"
  using assms by (simp add: in_interval_plus) (simp add: Interval_plus_def unat_sat_add)

theorem Interval_plus_sound_witness:
  "in_interval (5 + 7) (Interval_plus (Interval_of 5) (Interval_atLeast 6)) \<and>
   unat (hi (Interval_plus (Interval_of 5) (Interval_atLeast 6))) =
     min (unat (hi (Interval_of 5)) + unat (hi (Interval_atLeast 6))) (2 ^ 64 - 1)"
  by (rule Interval_plus_sound)
    (simp_all add: in_interval_def Interval_of_def Interval_atLeast_def max_u64_def)

end
