(* ===== verification/Binary_IO.thy ===== *)
theory Binary_IO
  imports Nat_Codec Ids_Stats "HOL-Library.Sublist"
begin

text \<open>
  The binary buffers of \<^verbatim>\<open>rts/binary.h\<close> and \<^verbatim>\<open>rts/binary.cpp\<close>. An \<open>Input\<close> is the list of the
  bytes not read yet; reading returns the value and the rest, or the error the code raises.
  An \<open>Output\<close> is its bytes together with the capacity of the malloced block behind it.

  The variable-length integers come from folly (\<^verbatim>\<open>folly/Varint.h\<close>), which is not part of the
  repository: \<open>enc\<close> and \<open>dec\<close>, arguments of the operations that use them, stand for
  \<^verbatim>\<open>encodeVarint\<close> and \<^verbatim>\<open>tryDecodeVarint\<close>, and \<open>gms\<close> for \<^verbatim>\<open>goodMallocSize\<close>.
\<close>

section \<open>Input\<close>

type_synonym varint_enc = "u64 \<Rightarrow> bytes"
type_synonym varint_dec = "bytes \<Rightarrow> (u64 \<times> bytes) option"

definition Input_want :: "nat \<Rightarrow> bytes \<Rightarrow> unit result" where
  "Input_want n buf = (if length buf < n then raise (RtsError ''truncated input'') else ok ())"

definition Input_fixed :: "bytes \<Rightarrow> ('a::len word \<times> bytes) result" where
  "Input_fixed buf =
     (let n = LENGTH('a) div 8 in
      rbind (Input_want n buf) (\<lambda>_. ok (loadLE buf, drop n buf)))"

definition Input_packed :: "varint_dec \<Rightarrow> bytes \<Rightarrow> ('a::len word \<times> bytes) result" where
  "Input_packed dec buf =
     (case dec buf of
        Some (v, temp) \<Rightarrow> ok (ucast v, temp)
      | None \<Rightarrow> raise (RtsError ''invalid packed value''))"

definition Input_untrustedNat :: "bytes \<Rightarrow> (u64 \<times> bytes) result" where
  "Input_untrustedNat buf =
     (case loadUntrustedNat buf of
        Some r \<Rightarrow> ok r
      | None \<Rightarrow> raise (RtsError ''invalid nat''))"

definition Input_trustedNat :: "bytes \<Rightarrow> (u64 \<times> bytes) result" where
  "Input_trustedNat buf = loadTrustedNat buf"

definition Input_skipUntrustedNat :: "bytes \<Rightarrow> bytes result" where
  "Input_skipUntrustedNat buf =
     (case skipUntrustedNat buf of
        Some p \<Rightarrow> ok p
      | None \<Rightarrow> raise (RtsError ''invalid nat''))"

definition Input_skipTrustedNat :: "bytes \<Rightarrow> bytes result" where
  "Input_skipTrustedNat buf = skipTrustedNat buf"

definition Input_byte :: "bytes \<Rightarrow> (u8 \<times> bytes) result" where
  "Input_byte buf = rbind (Input_want 1 buf) (\<lambda>_. ok (hd buf, drop 1 buf))"

definition Input_bytes :: "nat \<Rightarrow> bytes \<Rightarrow> (bytes \<times> bytes) result" where
  "Input_bytes n buf = rbind (Input_want n buf) (\<lambda>_. ok (take n buf, drop n buf))"

definition Input_rest :: "bytes \<Rightarrow> (bytes \<times> bytes) result" where
  "Input_rest buf = Input_bytes (length buf) buf"

definition Input_shift :: "bytes \<Rightarrow> bytes \<Rightarrow> bool \<times> bytes" where
  "Input_shift pat buf =
     (let n = length pat in
      if n \<le> length buf \<and> take n buf = pat then (True, drop n buf) else (False, buf))"

section \<open>Output\<close>

record Output =
  out_bytes :: bytes
  capacity :: nat

definition Output_empty :: Output where
  "Output_empty = \<lparr>out_bytes = [], capacity = 0\<rparr>"

definition Output_size :: "Output \<Rightarrow> nat" where
  "Output_size b = length (out_bytes b)"

definition Buf_realloc :: "(nat \<Rightarrow> nat) \<Rightarrow> nat \<Rightarrow> Output \<Rightarrow> Output" where
  "Buf_realloc gms n b =
     (let wanted = max (capacity b + max (capacity b) n) 64
      in b\<lparr>capacity := gms wanted\<rparr>)"

definition Buf_buffer :: "(nat \<Rightarrow> nat) \<Rightarrow> nat \<Rightarrow> Output \<Rightarrow> Output" where
  "Buf_buffer gms n b =
     (if capacity b - Output_size b < n then Buf_realloc gms n b else b)"

text \<open>
  Storing the bytes \<open>w\<close> at the end of the block and counting them as used. A store past the
  block is the undefined behaviour the reservation before it has to rule out.
\<close>

definition Buf_use :: "bytes \<Rightarrow> Output \<Rightarrow> Output result" where
  "Buf_use w b =
     (if Output_size b + length w \<le> capacity b then ok (b\<lparr>out_bytes := out_bytes b @ w\<rparr>)
      else raise Undefined)"

definition Output_packed :: "varint_enc \<Rightarrow> (nat \<Rightarrow> nat) \<Rightarrow> u64 \<Rightarrow> Output \<Rightarrow> Output result" where
  "Output_packed enc gms x b = Buf_use (enc x) (Buf_buffer gms 10 b)"

definition Output_nat :: "(nat \<Rightarrow> nat) \<Rightarrow> u64 \<Rightarrow> Output \<Rightarrow> Output result" where
  "Output_nat gms x b = Buf_use (storeNat x) (Buf_buffer gms MAX_NAT_SIZE b)"

definition Output_bytes :: "(nat \<Rightarrow> nat) \<Rightarrow> bytes \<Rightarrow> Output \<Rightarrow> Output result" where
  "Output_bytes gms d b =
     (if length d > 0 then Buf_use d (Buf_buffer gms (length d) b) else ok b)"

definition Output_fixed :: "(nat \<Rightarrow> nat) \<Rightarrow> 'a::len word \<Rightarrow> Output \<Rightarrow> Output result" where
  "Output_fixed gms x b = Output_bytes gms (storeLE x) b"

definition Output_put :: "(nat \<Rightarrow> nat) \<Rightarrow> bytes \<Rightarrow> Output \<Rightarrow> Output result" where
  "Output_put gms d b = Output_bytes gms d b"

definition Output_expect :: "(nat \<Rightarrow> nat) \<Rightarrow> nat \<Rightarrow> Output \<Rightarrow> Output" where
  "Output_expect gms n b = Buf_buffer gms n b"

text \<open>The string takes over the block, which holds a terminating NUL past the counted bytes.\<close>

definition Output_moveToFbString :: "(nat \<Rightarrow> nat) \<Rightarrow> Output \<Rightarrow> (bytes \<times> Output) result" where
  "Output_moveToFbString gms b =
     rbind (Buf_use [0] (Buf_buffer gms 1 b)) (\<lambda>_. ok (out_bytes b, Output_empty))"

section \<open>The upper end of a prefix range\<close>

definition lexicographicallyNext :: "bytes \<Rightarrow> bytes" where
  "lexicographicallyNext r =
     (let bs = rev (dropWhile (\<lambda>b. b = 0xFF) (rev r))
      in if bs = [] then [] else butlast bs @ [last bs + 1])"

lemma lexicographicallyNext_Nil [simp]: "lexicographicallyNext [] = []"
  by (simp add: lexicographicallyNext_def)

lemma lexicographicallyNext_Cons:
  "lexicographicallyNext (b # p) =
     (if lexicographicallyNext p = [] then (if b = 0xFF then [] else [b + 1])
      else b # lexicographicallyNext p)"
proof -
  have drop: "dropWhile P (xs @ [x]) =
      (if dropWhile P xs = [] then (if P x then [] else [x]) else dropWhile P xs @ [x])"
    for P :: "u8 \<Rightarrow> bool" and xs x
    by (induction xs) auto
  show ?thesis
    by (simp add: lexicographicallyNext_def Let_def drop)
qed

lemma u8_less_succ:
  assumes "b \<noteq> (0xFF :: u8)"
  shows "c < b + 1 \<longleftrightarrow> c \<le> b"
proof -
  have "b = of_nat (unat b)" by simp
  then have "unat b \<noteq> 255" using assms by (metis of_nat_numeral)
  then have "unat (b + 1) = unat b + 1"
    using unat_lt_8 [of b] by (simp add: unat_add_mod)
  then show ?thesis
    by (simp add: word_less_nat_alt word_le_nat_alt less_Suc_eq_le)
qed

lemma prefix_range:
  "prefix p (s :: bytes) \<longleftrightarrow>
     p \<le> s \<and> (lexicographicallyNext p = [] \<or> s < lexicographicallyNext p)"
proof (induction p arbitrary: s)
  case (Cons b p)
  have max: "c \<le> 0xFF" for c :: u8
    using unat_lt_8 [of c] by (simp add: word_le_nat_alt)
  show ?case
  proof (cases s)
    case s: (Cons c s')
    show ?thesis
      using Cons.IH [of s'] u8_less_succ [of b c] max [of c]
      by (auto simp: s lexicographicallyNext_Cons)
  qed simp
qed simp

section \<open>The variable-length integers of folly\<close>

text \<open>
  What the code relies on: an encoding decodes to its number wherever it stands, and takes at
  most \<^verbatim>\<open>kMaxVarintLength64 = 10\<close> bytes.
\<close>

locale varint_codec =
  fixes enc :: varint_enc and dec :: varint_dec
  assumes dec_enc: "dec (enc x @ r) = Some (x, r)"
    and enc_length: "length (enc x) \<le> 10"
begin

lemma enc_inject: "enc x = enc y \<longleftrightarrow> x = y"
  by (metis dec_enc option.inject prod.inject)

lemma packed_enc:
  "Input_packed dec (enc x @ r) = (ok (ucast x, r) :: ('a::len word \<times> bytes) result)"
  by (simp add: Input_packed_def dec_enc)

lemma packed64_enc: "Input_packed dec (enc x @ r) = (ok (x, r) :: (u64 \<times> bytes) result)"
  by (simp add: packed_enc)

end

text \<open>
  The documented format of folly's varints: groups of seven bits, least significant first, the
  top bit of a byte set when another follows.
\<close>

fun leb128 :: "nat \<Rightarrow> bytes" where
  "leb128 n = (if n < 128 then [of_nat n] else of_nat (n mod 128 + 128) # leb128 (n div 128))"

declare leb128.simps [simp del]

fun leb128_read :: "bytes \<Rightarrow> (nat \<times> bytes) option" where
  "leb128_read [] = None"
| "leb128_read (b # bs) =
     (if unat b < 128 then Some (unat b, bs)
      else map_option (\<lambda>(m, r). (unat b - 128 + 128 * m, r)) (leb128_read bs))"

definition leb128_enc :: varint_enc where
  "leb128_enc x = leb128 (unat x)"

definition leb128_dec :: varint_dec where
  "leb128_dec bs = map_option (\<lambda>(n, r). (of_nat n, r)) (leb128_read bs)"

lemma leb128_read_leb128: "leb128_read (leb128 n @ r) = Some (n, r)"
proof (induction n rule: leb128.induct)
  case (1 n)
  show ?case
  proof (cases "n < 128")
    case True
    then show ?thesis
      by (subst leb128.simps) (simp add: unat_of_nat)
  next
    case False
    moreover have "unat (of_nat (n mod 128 + 128) :: u8) = n mod 128 + 128"
      by (subst unat_of_nat) simp
    ultimately show ?thesis
      using 1 by (subst leb128.simps) (simp del: of_nat_add)
  qed
qed

lemma length_leb128: "n < 128 ^ k \<Longrightarrow> 0 < k \<Longrightarrow> length (leb128 n) \<le> k"
proof (induction n arbitrary: k rule: leb128.induct)
  case (1 n)
  show ?case
  proof (cases "n < 128")
    case True
    with 1 show ?thesis by (subst leb128.simps) simp
  next
    case False
    with 1(2) have k: "1 < k" by (cases k; cases "k - 1") auto
    then have "n div 128 < 128 ^ (k - 1)"
      using 1(2) by (cases k) (simp_all add: less_mult_imp_div_less mult.commute)
    then have "length (leb128 (n div 128)) \<le> k - 1"
      using 1(1) False k by simp
    with False k show ?thesis by (subst leb128.simps) simp
  qed
qed

interpretation leb: varint_codec leb128_enc leb128_dec
proof
  show "leb128_dec (leb128_enc x @ r) = Some (x, r)" for x r
    by (simp add: leb128_dec_def leb128_enc_def leb128_read_leb128)
  show "length (leb128_enc x) \<le> 10" for x
    using length_leb128 [of "unat x" 10] unat_lt_64 [of x] by (simp add: leb128_enc_def)
qed

section \<open>Writes stay inside the block\<close>

definition Output_ok :: "Output \<Rightarrow> bool" where
  "Output_ok b \<longleftrightarrow> Output_size b \<le> capacity b"

lemma Buf_buffer_room:
  assumes "\<And>n. n \<le> gms n" "Output_ok b"
  shows "Output_size b + n \<le> capacity (Buf_buffer gms n b)"
    and "out_bytes (Buf_buffer gms n b) = out_bytes b"
proof -
  have "capacity b + n \<le> gms (max (capacity b + max (capacity b) n) 64)"
    using assms(1) by (meson order_trans max.cobounded1 max.cobounded2 add_le_mono le_refl)
  with assms(2) show "Output_size b + n \<le> capacity (Buf_buffer gms n b)"
    by (auto simp: Buf_buffer_def Buf_realloc_def Let_def Output_ok_def)
  show "out_bytes (Buf_buffer gms n b) = out_bytes b"
    by (simp add: Buf_buffer_def Buf_realloc_def Let_def)
qed

lemma Buf_use_buffer:
  assumes "\<And>n. n \<le> gms n" "Output_ok b" "length w \<le> n"
  shows "\<exists>b'. Buf_use w (Buf_buffer gms n b) = ok b' \<and> out_bytes b' = out_bytes b @ w \<and> Output_ok b'"
  using Buf_buffer_room [OF assms(1,2), where n = n] assms(3)
  by (auto simp: Buf_use_def Output_size_def Output_ok_def)

lemma Output_bytes_appends:
  assumes "\<And>n. n \<le> gms n" "Output_ok b"
  shows "\<exists>b'. Output_bytes gms d b = ok b' \<and> out_bytes b' = out_bytes b @ d \<and> Output_ok b'"
  using Buf_use_buffer [OF assms, of d "length d"] assms(2)
  by (auto simp: Output_bytes_def)

text \<open>
  C34. When the allocator returns at least what is asked for and folly's varints take at most ten
  bytes, every write to an \<open>Output\<close> succeeds, appends exactly its bytes and keeps the used part
  inside the block: the space reserved before each store is enough.
\<close>

theorem Output_writes_in_bounds:
  assumes "\<And>n. n \<le> gms n" and "\<And>x. length (enc x) \<le> 10" and "Output_ok b"
  shows "(\<exists>b'. Output_bytes gms d b = ok b' \<and> out_bytes b' = out_bytes b @ d \<and> Output_ok b') \<and>
    (\<exists>b'. Output_nat gms x b = ok b' \<and> out_bytes b' = out_bytes b @ storeNat x \<and> Output_ok b') \<and>
    (\<exists>b'. Output_packed enc gms x b = ok b' \<and> out_bytes b' = out_bytes b @ enc x \<and> Output_ok b')"
  using Output_bytes_appends [OF assms(1,3)] assms
    Buf_use_buffer [OF assms(1,3) length_storeNat(2) [of x]]
    Buf_use_buffer [OF assms(1,3) assms(2)]
  unfolding Output_nat_def Output_packed_def by blast

theorem Output_writes_in_bounds_witness:
  "(\<exists>b'. Output_bytes (\<lambda>n. n) [1, 2] Output_empty = ok b' \<and>
      out_bytes b' = out_bytes Output_empty @ [1, 2] \<and> Output_ok b') \<and>
   (\<exists>b'. Output_nat (\<lambda>n. n) 300 Output_empty = ok b' \<and>
      out_bytes b' = out_bytes Output_empty @ storeNat 300 \<and> Output_ok b') \<and>
   (\<exists>b'. Output_packed leb128_enc (\<lambda>n. n) 300 Output_empty = ok b' \<and>
      out_bytes b' = out_bytes Output_empty @ leb128_enc 300 \<and> Output_ok b')"
  by (rule Output_writes_in_bounds)
    (simp_all add: leb.enc_length Output_ok_def Output_empty_def Output_size_def)

text \<open>
  C35. The byte string \<open>lexicographicallyNext p\<close> bounds the strings with the prefix \<open>p\<close> exactly: a
  string has the prefix iff it is at least \<open>p\<close> and, when the bound exists, less than it.
\<close>

theorem lexicographicallyNext_prefix_range:
  "prefix p s \<longleftrightarrow> p \<le> s \<and> (lexicographicallyNext p = [] \<or> s < lexicographicallyNext p)"
  by (rule prefix_range)

end
