(* ===== verification/Facts.thy ===== *)
theory Facts
  imports Binary_IO
begin

text \<open>
  Facts and their clauses (\<^verbatim>\<open>rts/fact.h\<close>, \<^verbatim>\<open>rts/fact.cpp\<close>). A clause is a pointer to the key
  followed by the value, with two 32-bit sizes; \<open>cdata\<close> is the memory readable from that pointer
  on. The theory shows that a serialized fact deserializes to the same type, key and value, and
  under which condition a deserialized clause lies inside the bytes it was read from.
\<close>

section \<open>Clauses\<close>

record Clause =
  cdata :: bytes
  key_size :: u32
  value_size :: u32

definition MAX_KEY_SIZE :: u32 where
  "MAX_KEY_SIZE = 0xFFFFFFF"

definition Clause_key :: "Clause \<Rightarrow> bytes" where
  "Clause_key c = take (unat (key_size c)) (cdata c)"

definition Clause_value :: "Clause \<Rightarrow> bytes" where
  "Clause_value c = take (unat (value_size c)) (drop (unat (key_size c)) (cdata c))"

text \<open>The sum is computed in 32 bits and only then widened.\<close>

definition Clause_size :: "Clause \<Rightarrow> u64" where
  "Clause_size c = ucast (key_size c + value_size c)"

definition Clause_bytes :: "Clause \<Rightarrow> bytes" where
  "Clause_bytes c = take (unat (Clause_size c)) (cdata c)"

definition Clause_from :: "bytes \<Rightarrow> u64 \<Rightarrow> Clause" where
  "Clause_from bs ks =
     \<lparr>cdata = bs, key_size = ucast ks, value_size = ucast (of_nat (length bs) - ks)\<rparr>"

definition Clause_fromKey :: "bytes \<Rightarrow> Clause" where
  "Clause_fromKey bs = \<lparr>cdata = bs, key_size = of_nat (length bs), value_size = 0\<rparr>"

section \<open>Facts\<close>

record Ref =
  ref_id :: Id
  ref_type :: Pid
  ref_clause :: Clause

definition Ref_invalid :: Ref where
  "Ref_invalid = \<lparr>ref_id = WordId_invalid, ref_type = WordId_invalid,
     ref_clause = \<lparr>cdata = [], key_size = 0, value_size = 0\<rparr>\<rparr>"

definition Ref_bool :: "Ref \<Rightarrow> bool" where
  "Ref_bool r \<longleftrightarrow> WordId_bool (ref_id r)"

definition Ref_key :: "Ref \<Rightarrow> bytes" where
  "Ref_key r = Clause_key (ref_clause r)"

definition Ref_value :: "Ref \<Rightarrow> bytes" where
  "Ref_value r = Clause_value (ref_clause r)"

text \<open>The block of a fact: the bit fields \<open>tag_ : 4\<close> and \<open>key_size : 28\<close>, then the bytes.\<close>

record Fact =
  fact_id :: Id
  fact_type :: Pid
  fact_tag :: "4 word"
  fact_key_size :: "28 word"
  fact_value_size :: u32
  fact_data :: bytes

definition Fact_create :: "Ref \<Rightarrow> 4 word \<Rightarrow> Fact" where
  "Fact_create r tag =
     \<lparr>fact_id = ref_id r, fact_type = ref_type r, fact_tag = tag,
      fact_key_size = ucast (key_size (ref_clause r)),
      fact_value_size = value_size (ref_clause r),
      fact_data = Clause_bytes (ref_clause r)\<rparr>"

definition Fact_clause :: "Fact \<Rightarrow> Clause" where
  "Fact_clause f =
     \<lparr>cdata = fact_data f, key_size = ucast (fact_key_size f), value_size = fact_value_size f\<rparr>"

definition Fact_ref :: "Fact \<Rightarrow> Ref" where
  "Fact_ref f = \<lparr>ref_id = fact_id f, ref_type = fact_type f, ref_clause = Fact_clause f\<rparr>"

definition Fact_key :: "Fact \<Rightarrow> bytes" where
  "Fact_key f = Clause_key (Fact_clause f)"

definition Fact_value :: "Fact \<Rightarrow> bytes" where
  "Fact_value f = Clause_value (Fact_clause f)"

definition Fact_eq :: "Fact \<Rightarrow> Fact \<Rightarrow> bool" where
  "Fact_eq f g \<longleftrightarrow> fact_id f = fact_id g \<and> fact_type f = fact_type g \<and>
     fact_key_size f = fact_key_size g \<and> fact_value_size f = fact_value_size g \<and>
     Fact_key f = Fact_key g \<and> Fact_value f = Fact_value g \<and> fact_tag f = fact_tag g"

text \<open>A list hook of two pointers, two ids, and the two 32-bit words of sizes.\<close>

definition sizeof_Fact :: u64 where
  "sizeof_Fact = 40"

definition Fact_size :: "Fact \<Rightarrow> u64" where
  "Fact_size f = sizeof_Fact + ucast (fact_key_size f) + ucast (fact_value_size f)"

section \<open>Serialization\<close>

definition Fact_serialize :: "varint_enc \<Rightarrow> Pid \<Rightarrow> Clause \<Rightarrow> bytes" where
  "Fact_serialize enc type clause =
     enc type @ enc (ucast (key_size clause)) @ enc (ucast (value_size clause)) @
     Clause_bytes clause"

definition Fact_deserialize :: "varint_dec \<Rightarrow> bytes \<Rightarrow> ((Pid \<times> Clause) \<times> bytes) result" where
  "Fact_deserialize dec inp =
     rbind (Input_packed dec inp) (\<lambda>(type, inp).
     rbind (Input_packed dec inp) (\<lambda>(ks :: u32, inp).
     rbind (Input_packed dec inp) (\<lambda>(vs :: u32, inp).
     rbind (Input_bytes (unat (ks + vs)) inp) (\<lambda>(_, rest).
     ok ((type, \<lparr>cdata = inp, key_size = ks, value_size = vs\<rparr>), rest)))))"

section \<open>Well-formed clauses\<close>

text \<open>The sizes add up without wrapping, and the key and value can be read.\<close>

definition Clause_ok :: "Clause \<Rightarrow> bool" where
  "Clause_ok c \<longleftrightarrow> unat (key_size c) + unat (value_size c) < 2 ^ 32 \<and>
     unat (key_size c) + unat (value_size c) \<le> length (cdata c)"

lemma unat_Clause_size:
  "unat (Clause_size c) = (unat (key_size c) + unat (value_size c)) mod 2 ^ 32"
  using unat_lt_32 [of "key_size c + value_size c"]
  by (simp add: Clause_size_def unat_ucast_mod unat_add_mod)

lemma Clause_ok_bytes:
  assumes "Clause_ok c"
  shows "Clause_bytes c = Clause_key c @ Clause_value c"
    and "length (Clause_key c) = unat (key_size c)"
    and "length (Clause_value c) = unat (value_size c)"
  using assms
  by (auto simp: Clause_ok_def Clause_bytes_def unat_Clause_size Clause_key_def
      Clause_value_def take_add)

lemma Clause_ok_key_inject:
  assumes "Clause_ok c" "Clause_ok d" "Clause_key c = Clause_key d"
  shows "key_size c = key_size d"
  using Clause_ok_bytes(2) [OF assms(1)] Clause_ok_bytes(2) [OF assms(2)] assms(3)
  by (metis unsigned_word_eqI)

lemma Clause_from_ok:
  assumes "unat ks \<le> length bs" "length bs < 2 ^ 32"
  shows "Clause_ok (Clause_from bs ks)"
    and "Clause_key (Clause_from bs ks) = take (unat ks) bs"
    and "Clause_value (Clause_from bs ks) = drop (unat ks) bs"
proof -
  have l: "unat (of_nat (length bs) :: u64) = length bs"
    using assms(2) by (simp add: unat_of_nat)
  then have "ks \<le> of_nat (length bs)"
    using assms(1) by (simp add: word_le_nat_alt)
  then have v: "unat (of_nat (length bs) - ks) = length bs - unat ks"
    by (simp add: unat_sub l)
  then have *: "unat (key_size (Clause_from bs ks)) = unat ks"
    "unat (value_size (Clause_from bs ks)) = length bs - unat ks"
    using assms by (simp_all add: Clause_from_def unat_ucast_mod)
  then show "Clause_ok (Clause_from bs ks)"
    using assms by (simp add: Clause_ok_def) (simp add: Clause_from_def)
  show "Clause_key (Clause_from bs ks) = take (unat ks) bs"
    using * by (simp add: Clause_key_def) (simp add: Clause_from_def)
  show "Clause_value (Clause_from bs ks) = drop (unat ks) bs"
    using * by (simp add: Clause_value_def) (simp add: Clause_from_def)
qed

lemma Fact_create_view:
  assumes "Clause_ok (ref_clause r)" "key_size (ref_clause r) \<le> MAX_KEY_SIZE"
  shows "Fact_key (Fact_create r t) = Ref_key r"
    and "Fact_value (Fact_create r t) = Ref_value r"
    and "Clause_ok (Fact_clause (Fact_create r t))"
    and "key_size (Fact_clause (Fact_create r t)) = key_size (ref_clause r)"
proof -
  define c where "c = ref_clause r"
  have ok: "Clause_ok c" using assms(1) by (simp add: c_def)
  have "unat (key_size c) < 2 ^ 28"
    using assms(2) by (simp add: c_def MAX_KEY_SIZE_def word_le_nat_alt)
  then have "unat (ucast (ucast (key_size c) :: 28 word) :: u32) = unat (key_size c)"
    by (simp add: unat_ucast_mod)
  then have ks: "ucast (ucast (key_size c) :: 28 word) = key_size c"
    by (rule unsigned_word_eqI)
  have "Fact_clause (Fact_create r t) =
      \<lparr>cdata = Clause_bytes c, key_size = key_size c, value_size = value_size c\<rparr>"
    by (simp add: Fact_clause_def Fact_create_def c_def [symmetric] ks)
  then show "Fact_key (Fact_create r t) = Ref_key r"
    "Fact_value (Fact_create r t) = Ref_value r"
    "Clause_ok (Fact_clause (Fact_create r t))"
    "key_size (Fact_clause (Fact_create r t)) = key_size (ref_clause r)"
    using ok Clause_ok_bytes [OF ok]
    by (auto simp: Fact_key_def Fact_value_def Ref_key_def Ref_value_def c_def [symmetric]
        Clause_key_def Clause_value_def Clause_ok_def Clause_bytes_def unat_Clause_size)
qed

lemma Fact_create_fields [simp]:
  "fact_id (Fact_create r t) = ref_id r" "fact_type (Fact_create r t) = ref_type r"
  "fact_tag (Fact_create r t) = t"
  by (simp_all add: Fact_create_def)

lemma Fact_ref_fields [simp]:
  "ref_id (Fact_ref f) = fact_id f" "ref_type (Fact_ref f) = fact_type f"
  "Ref_key (Fact_ref f) = Fact_key f" "Ref_value (Fact_ref f) = Fact_value f"
  by (simp_all add: Fact_ref_def Ref_key_def Ref_value_def Fact_key_def Fact_value_def)

lemma Ref_invalid_bool [simp]: "\<not> Ref_bool Ref_invalid"
  by (simp add: Ref_bool_def Ref_invalid_def)

section \<open>Serialization round trip\<close>

lemma Input_bytes_append:
  "Input_bytes n (xs @ r) = ok (xs, r)" if "length xs = n"
  using that by (simp add: Input_bytes_def Input_want_def)

lemma ucast_u64_u32: "ucast (ucast (w :: u32) :: u64) = w"
proof -
  have "unat (ucast (ucast w :: u64) :: u32) = unat w"
    using unat_lt_32 [of w] by (simp add: unat_ucast_mod)
  then show ?thesis by (rule unsigned_word_eqI)
qed

context varint_codec
begin

lemma deserialize_serialize:
  assumes "Clause_ok c"
  shows "Fact_deserialize dec (Fact_serialize enc t c @ r) =
    ok ((t, \<lparr>cdata = Clause_bytes c @ r, key_size = key_size c, value_size = value_size c\<rparr>), r)"
proof -
  have "length (Clause_bytes c) = unat (key_size c + value_size c)"
    using assms by (simp add: Clause_ok_bytes Clause_ok_def unat_add_mod)
  then show ?thesis
    by (simp add: Fact_deserialize_def Fact_serialize_def packed_enc Input_bytes_append
        ucast_u64_u32)
qed

end

lemma Clause_append_view:
  fixes r :: bytes
  assumes "Clause_ok c"
  defines "d \<equiv> \<lparr>cdata = Clause_bytes c @ r, key_size = key_size c, value_size = value_size c\<rparr>"
  shows "Clause_ok d" "Clause_key d = Clause_key c" "Clause_value d = Clause_value c"
  using assms Clause_ok_bytes [OF assms(1)]
  by (auto simp: d_def Clause_ok_def) (simp_all add: Clause_key_def Clause_value_def)

text \<open>
  C32. Serializing a fact and deserializing it gives back its predicate, its key and its value, and
  leaves the rest of the input unread; the clause is again well formed.
\<close>

theorem Fact_roundtrip:
  assumes "varint_codec enc dec" and "Clause_ok c"
  shows "\<exists>d. Fact_deserialize dec (Fact_serialize enc t c @ r) = ok ((t, d), r) \<and>
    Clause_ok d \<and> Clause_key d = Clause_key c \<and> Clause_value d = Clause_value c"
  using varint_codec.deserialize_serialize [OF assms] Clause_append_view [OF assms(2)] by blast

theorem Fact_roundtrip_witness:
  "\<exists>d. Fact_deserialize leb128_dec (Fact_serialize leb128_enc 7 (Clause_from [1, 2, 3] 2) @ [9]) =
     ok ((7, d), [9]) \<and> Clause_ok d \<and> Clause_key d = Clause_key (Clause_from [1, 2, 3] 2) \<and>
     Clause_value d = Clause_value (Clause_from [1, 2, 3] 2)"
  by (rule Fact_roundtrip [OF leb.varint_codec_axioms]) (simp add: Clause_from_ok)

lemma deserialize_in_bounds:
  assumes "Fact_deserialize dec inp = ok ((t, c), r)"
  shows "unat (key_size c + value_size c) \<le> length (cdata c) \<and>
    r = drop (unat (key_size c + value_size c)) (cdata c)"
  using assms
  by (auto simp: Fact_deserialize_def Input_bytes_def Input_want_def split: prod.splits if_splits)



end
