(* ===== verification/Lookups.thy ===== *)
theory Lookups
  imports Facts "HOL-Library.Multiset"
begin

text \<open>
  The interfaces of \<^verbatim>\<open>rts/lookup.h\<close> and the iterators and lookups of \<^verbatim>\<open>rts/lookup.cpp\<close>.

  A fact iterator is an object with \<open>get\<close> and \<open>next\<close>; the iterators that combine others
  (\<open>MergeIterator\<close>, \<open>AppendIterator\<close>, \<open>FilterIterator\<close>, the iterator of \<open>Snapshot::seek\<close>) are
  records with the fields of the C++ classes whose base iterators are the lists of facts they
  still have to produce. Two locales state what an iterator promises, one for the loop that
  every client writes (\<open>get\<close>, then \<open>next\<close>) and a stronger one for \<open>next\<close> without a \<open>get\<close>
  before it; each iterator is an interpretation of the one it satisfies.

  A \<open>Lookup\<close> object is a record of its virtual functions. The locales \<open>lookup_points\<close>,
  \<open>lookup_forward\<close> and \<open>lookup_contract\<close> say which facts a lookup gives access to and what each
  function returns for them.
\<close>

section \<open>Iterators\<close>

datatype Demand = KeyOnly | KeyValue

text \<open>A base iterator: the facts it has left. \<open>next\<close> on an exhausted iterator is not allowed.\<close>

type_synonym FactIterator = "Ref list"

definition iter_get :: "Demand \<Rightarrow> FactIterator \<Rightarrow> Ref" where
  "iter_get d it = (case it of [] \<Rightarrow> Ref_invalid | r # _ \<Rightarrow> r)"

definition iter_next :: "FactIterator \<Rightarrow> FactIterator result" where
  "iter_next it = (case it of [] \<Rightarrow> raise Undefined | _ # rs \<Rightarrow> ok rs)"

definition EmptyIterator :: FactIterator where
  "EmptyIterator = []"

text \<open>\<open>for (iter; auto fact = iter->get(); iter->next())\<close>: the facts the body sees.\<close>

fun iter_loop :: "(Demand \<Rightarrow> 's \<Rightarrow> Ref \<times> 's) \<Rightarrow> ('s \<Rightarrow> 's result) \<Rightarrow> nat \<Rightarrow> 's \<Rightarrow> Ref list option" where
  "iter_loop get nxt 0 s = None"
| "iter_loop get nxt (Suc n) s =
     (case get KeyValue s of (r, s') \<Rightarrow>
        if Ref_bool r then
          (case nxt s' of
             Inl _ \<Rightarrow> None
           | Inr s'' \<Rightarrow> map_option (\<lambda>rs. r # rs) (iter_loop get nxt n s''))
        else Some [])"

subsection \<open>MergeIterator\<close>

datatype Side = LeftSide | RightSide

record MergeIterator =
  mi_left :: "FactIterator option"
  mi_right :: "FactIterator option"
  mi_current :: "Side option"
  mi_prefix_size :: nat

definition MergeIterator_new :: "FactIterator \<Rightarrow> FactIterator \<Rightarrow> nat \<Rightarrow> MergeIterator" where
  "MergeIterator_new l r pfxsize =
     \<lparr>mi_left = Some l, mi_right = Some r, mi_current = None, mi_prefix_size = pfxsize\<rparr>"

definition MergeIterator_suffix :: "nat \<Rightarrow> Ref \<Rightarrow> bytes" where
  "MergeIterator_suffix n r = drop n (Ref_key r)"

definition tryGet :: "Demand \<Rightarrow> FactIterator option \<Rightarrow> Ref \<times> FactIterator option" where
  "tryGet d iter =
     (case iter of
        None \<Rightarrow> (Ref_invalid, None)
      | Some it \<Rightarrow> (let r = iter_get d it in if Ref_bool r then (r, iter) else (r, None)))"

definition MergeIterator_get :: "Demand \<Rightarrow> MergeIterator \<Rightarrow> Ref \<times> MergeIterator" where
  "MergeIterator_get d m =
     (case mi_current m of
        Some LeftSide \<Rightarrow> (iter_get d (the (mi_left m)), m)
      | Some RightSide \<Rightarrow> (iter_get d (the (mi_right m)), m)
      | None \<Rightarrow>
        (case tryGet d (mi_left m) of (l, lefti) \<Rightarrow>
         case tryGet d (mi_right m) of (r, righti) \<Rightarrow>
         let m' = m\<lparr>mi_left := lefti, mi_right := righti\<rparr>; suf = MergeIterator_suffix (mi_prefix_size m) in
         if Ref_bool l then
           if Ref_bool r \<and> suf r < suf l then (r, m'\<lparr>mi_current := Some RightSide\<rparr>)
           else (l, m'\<lparr>mi_current := Some LeftSide\<rparr>)
         else (r, m'\<lparr>mi_current := (if righti = None then None else Some RightSide)\<rparr>)))"

definition MergeIterator_next :: "MergeIterator \<Rightarrow> MergeIterator result" where
  "MergeIterator_next m =
     (let m' = (if mi_current m = None then snd (MergeIterator_get KeyOnly m) else m) in
      case mi_current m' of
        None \<Rightarrow> raise Undefined
      | Some LeftSide \<Rightarrow>
          rbind (iter_next (the (mi_left m'))) (\<lambda>it. ok (m'\<lparr>mi_left := Some it, mi_current := None\<rparr>))
      | Some RightSide \<Rightarrow>
          rbind (iter_next (the (mi_right m'))) (\<lambda>it. ok (m'\<lparr>mi_right := Some it, mi_current := None\<rparr>)))"

text \<open>The facts a merge still has to produce.\<close>

fun merge_refs :: "nat \<Rightarrow> Ref list \<Rightarrow> Ref list \<Rightarrow> Ref list" where
  "merge_refs n [] rs = rs"
| "merge_refs n ls [] = ls"
| "merge_refs n (l # ls) (r # rs) =
     (if MergeIterator_suffix n r < MergeIterator_suffix n l then r # merge_refs n (l # ls) rs
      else l # merge_refs n ls (r # rs))"

definition opt_list :: "'a list option \<Rightarrow> 'a list" where
  "opt_list x = (case x of None \<Rightarrow> [] | Some l \<Rightarrow> l)"

definition MergeIterator_items :: "MergeIterator \<Rightarrow> Ref list" where
  "MergeIterator_items m = merge_refs (mi_prefix_size m) (opt_list (mi_left m)) (opt_list (mi_right m))"

text \<open>\<open>FactIterator::merge\<close> needs the merging iterator only when both sides have facts.\<close>

definition FactIterator_merge :: "FactIterator \<Rightarrow> FactIterator \<Rightarrow> nat \<Rightarrow> FactIterator" where
  "FactIterator_merge l r n =
     (if Ref_bool (iter_get KeyOnly l) then
        if Ref_bool (iter_get KeyOnly r) then MergeIterator_items (MergeIterator_new l r n) else l
      else r)"

subsection \<open>AppendIterator\<close>

record AppendIterator =
  ai_current :: FactIterator
  ai_other :: "FactIterator option"
  ai_checked :: bool

definition AppendIterator_new :: "FactIterator \<Rightarrow> FactIterator \<Rightarrow> AppendIterator" where
  "AppendIterator_new l r = \<lparr>ai_current = l, ai_other = Some r, ai_checked = False\<rparr>"

definition AppendIterator_get :: "Demand \<Rightarrow> AppendIterator \<Rightarrow> Ref \<times> AppendIterator" where
  "AppendIterator_get d a =
     (let a' = a\<lparr>ai_checked := True\<rparr>; r = iter_get KeyValue (ai_current a') in
      case ai_other a' of
        Some other \<Rightarrow>
          if \<not> Ref_bool r then
            (iter_get KeyValue other, a'\<lparr>ai_current := other, ai_other := None\<rparr>)
          else (r, a')
      | None \<Rightarrow> (r, a'))"

definition AppendIterator_next :: "AppendIterator \<Rightarrow> AppendIterator result" where
  "AppendIterator_next a =
     (let a' = (if ai_checked a then a else snd (AppendIterator_get KeyOnly a)) in
      rbind (iter_next (ai_current a')) (\<lambda>it. ok (a'\<lparr>ai_current := it, ai_checked := False\<rparr>)))"

definition AppendIterator_items :: "AppendIterator \<Rightarrow> Ref list" where
  "AppendIterator_items a = ai_current a @ opt_list (ai_other a)"

definition FactIterator_append :: "FactIterator \<Rightarrow> FactIterator \<Rightarrow> FactIterator" where
  "FactIterator_append l r = AppendIterator_items (AppendIterator_new l r)"

subsection \<open>FilterIterator\<close>

record FilterIterator =
  fi_base :: FactIterator
  fi_visible :: "Id \<Rightarrow> bool"

fun FilterIterator_skip :: "(Id \<Rightarrow> bool) \<Rightarrow> FactIterator \<Rightarrow> FactIterator" where
  "FilterIterator_skip visible [] = []"
| "FilterIterator_skip visible (r # rs) =
     (if ref_id r \<noteq> WordId_invalid \<and> \<not> visible (ref_id r) then FilterIterator_skip visible rs
      else r # rs)"

definition FilterIterator_get :: "Demand \<Rightarrow> FilterIterator \<Rightarrow> Ref \<times> FilterIterator" where
  "FilterIterator_get d f =
     (let it = FilterIterator_skip (fi_visible f) (fi_base f)
      in (iter_get d it, f\<lparr>fi_base := it\<rparr>))"

definition FilterIterator_next :: "FilterIterator \<Rightarrow> FilterIterator result" where
  "FilterIterator_next f = rbind (iter_next (fi_base f)) (\<lambda>it. ok (f\<lparr>fi_base := it\<rparr>))"

definition FilterIterator_items :: "FilterIterator \<Rightarrow> Ref list" where
  "FilterIterator_items f = filter (\<lambda>r. fi_visible f (ref_id r)) (fi_base f)"

definition FactIterator_filter :: "FactIterator \<Rightarrow> (Id \<Rightarrow> bool) \<Rightarrow> FactIterator" where
  "FactIterator_filter base visible =
     FilterIterator_items \<lparr>fi_base = base, fi_visible = visible\<rparr>"

subsection \<open>The iterator of Snapshot::seek\<close>

record SnapshotIterator =
  si_base :: FactIterator
  si_boundary :: Id

definition SnapshotIterator_get :: "Demand \<Rightarrow> SnapshotIterator \<Rightarrow> Ref \<times> SnapshotIterator" where
  "SnapshotIterator_get d s =
     (let r = iter_get d (si_base s)
      in (if Ref_bool r \<and> ref_id r < si_boundary s then r else Ref_invalid, s))"

definition SnapshotIterator_next :: "SnapshotIterator \<Rightarrow> SnapshotIterator result" where
  "SnapshotIterator_next s = rbind (iter_next (si_base s)) (\<lambda>it. ok (s\<lparr>si_base := it\<rparr>))"

definition SnapshotIterator_items :: "SnapshotIterator \<Rightarrow> Ref list" where
  "SnapshotIterator_items s = takeWhile (\<lambda>r. ref_id r < si_boundary s) (si_base s)"

section \<open>Lookups\<close>

record Lookup =
  idByKey :: "Pid \<Rightarrow> bytes \<Rightarrow> Id"
  typeById :: "Id \<Rightarrow> Pid"
  factById :: "Id \<Rightarrow> (Pid \<times> Clause) option"
  startingId :: Id
  firstFreeId :: Id
  count :: "Pid \<Rightarrow> Interval"
  enumerate :: "Id \<Rightarrow> Id \<Rightarrow> FactIterator"
  enumerateBack :: "Id \<Rightarrow> Id \<Rightarrow> FactIterator"
  seek :: "Pid \<Rightarrow> bytes \<Rightarrow> nat \<Rightarrow> FactIterator"

definition EmptyLookup :: Lookup where
  "EmptyLookup =
     \<lparr>idByKey = (\<lambda>_ _. WordId_invalid), typeById = (\<lambda>_. WordId_invalid), factById = (\<lambda>_. None),
      startingId = WordId_lowest, firstFreeId = WordId_lowest, count = (\<lambda>_. Interval_of 0),
      enumerate = (\<lambda>_ _. EmptyIterator), enumerateBack = (\<lambda>_ _. EmptyIterator),
      seek = (\<lambda>_ _ _. EmptyIterator)\<rparr>"

subsection \<open>Snapshot\<close>

definition Snapshot_enumerate :: "Lookup \<Rightarrow> Id \<Rightarrow> Id \<Rightarrow> Id \<Rightarrow> FactIterator" where
  "Snapshot_enumerate base boundary a b =
     (if a \<ge> boundary then EmptyIterator
      else enumerate base a (if WordId_bool b then min b boundary else boundary))"

text \<open>As in the source, this enumerates the base forwards.\<close>

definition Snapshot_enumerateBack :: "Lookup \<Rightarrow> Id \<Rightarrow> Id \<Rightarrow> Id \<Rightarrow> FactIterator" where
  "Snapshot_enumerateBack base boundary a b =
     (if b \<ge> boundary then EmptyIterator
      else enumerate base (if WordId_bool a then min a boundary else boundary) b)"

definition Snapshot_seek :: "Lookup \<Rightarrow> Id \<Rightarrow> Pid \<Rightarrow> bytes \<Rightarrow> nat \<Rightarrow> FactIterator" where
  "Snapshot_seek base boundary type start n =
     SnapshotIterator_items \<lparr>si_base = seek base type start n, si_boundary = boundary\<rparr>"

definition Snapshot :: "Lookup \<Rightarrow> Id \<Rightarrow> Lookup" where
  "Snapshot base boundary =
     \<lparr>idByKey = (\<lambda>type key. let i = idByKey base type key in if i < boundary then i else WordId_invalid),
      typeById = (\<lambda>i. if i < boundary then typeById base i else WordId_invalid),
      factById = (\<lambda>i. if i < boundary then factById base i else None),
      startingId = min (startingId base) boundary,
      firstFreeId = min boundary (firstFreeId base),
      count = (\<lambda>pid. Interval_asHigh (count base pid)),
      enumerate = Snapshot_enumerate base boundary,
      enumerateBack = Snapshot_enumerateBack base boundary,
      seek = Snapshot_seek base boundary\<rparr>"

section \<open>What an iterator promises\<close>

locale iterator_loop =
  fixes get :: "Demand \<Rightarrow> 's \<Rightarrow> Ref \<times> 's"
    and nxt :: "'s \<Rightarrow> 's result"
    and items :: "'s \<Rightarrow> Ref list"
    and inv :: "'s \<Rightarrow> bool"
  assumes items_valid: "inv s \<Longrightarrow> r \<in> set (items s) \<Longrightarrow> Ref_bool r"
    and get_item: "inv s \<Longrightarrow> \<exists>s'. get d s = (iter_get d (items s), s') \<and> inv s' \<and> items s' = items s"
    and next_after_get: "inv s \<Longrightarrow> items s \<noteq> [] \<Longrightarrow>
      \<exists>s'. nxt (snd (get d s)) = ok s' \<and> inv s' \<and> items s' = tl (items s)"
begin

text \<open>The loop over the iterator sees exactly its items, in order, and ends.\<close>

lemma loop_items: "inv s \<Longrightarrow> length (items s) < n \<Longrightarrow> iter_loop get nxt n s = Some (items s)"
proof (induction n arbitrary: s)
  case (Suc n)
  obtain s' where s': "get KeyValue s = (iter_get KeyValue (items s), s')"
    using get_item [OF Suc.prems(1)] by blast
  show ?case
  proof (cases "items s")
    case Nil
    with s' show ?thesis by (simp add: iter_get_def)
  next
    case (Cons r rs)
    then have r: "Ref_bool r" "iter_get KeyValue (items s) = r"
      using items_valid [OF Suc.prems(1)] by (auto simp: iter_get_def)
    obtain s'' where s'': "nxt s' = ok s''" "inv s''" "items s'' = rs"
      using next_after_get [OF Suc.prems(1), of KeyValue] Cons s' by auto
    have "iter_loop get nxt n s'' = Some rs"
      using Suc.IH [OF s''(2)] Suc.prems(2) s''(3) Cons by simp
    then show ?thesis
      using s' r s''(1) Cons by (simp add: ok_def)
  qed
qed simp

end

text \<open>\<open>next\<close> called \<open>n\<close> times in a row.\<close>

fun iter_skip :: "('s \<Rightarrow> 's result) \<Rightarrow> nat \<Rightarrow> 's \<Rightarrow> 's result" where
  "iter_skip nxt 0 s = ok s"
| "iter_skip nxt (Suc n) s = rbind (nxt s) (iter_skip nxt n)"

text \<open>Iterators whose \<open>next\<close> may also be called without a \<open>get\<close> before it.\<close>

locale iterator_any =
  fixes get :: "Demand \<Rightarrow> 's \<Rightarrow> Ref \<times> 's"
    and nxt :: "'s \<Rightarrow> 's result"
    and items :: "'s \<Rightarrow> Ref list"
    and inv :: "'s \<Rightarrow> bool"
  assumes items_valid: "inv s \<Longrightarrow> r \<in> set (items s) \<Longrightarrow> Ref_bool r"
    and get_item: "inv s \<Longrightarrow> \<exists>s'. get d s = (iter_get d (items s), s') \<and> inv s' \<and> items s' = items s"
    and next_any: "inv s \<Longrightarrow> items s \<noteq> [] \<Longrightarrow>
      \<exists>s'. nxt s = ok s' \<and> inv s' \<and> items s' = tl (items s)"
begin

lemma skip_items:
  "inv s \<Longrightarrow> n \<le> length (items s) \<Longrightarrow> \<exists>s'. iter_skip nxt n s = ok s' \<and> inv s' \<and> items s' = drop n (items s)"
proof (induction n arbitrary: s)
  case (Suc n)
  then obtain s' where s': "nxt s = ok s'" "inv s'" "items s' = tl (items s)"
    using next_any [OF Suc.prems(1)] by fastforce
  then show ?case
    using Suc.IH [of s'] Suc.prems(2) by (simp add: drop_Suc)
qed simp

end

sublocale iterator_any \<subseteq> loop: iterator_loop get nxt items inv
proof
  fix s d
  assume s: "inv s" "items s \<noteq> []"
  obtain s' where "get d s = (iter_get d (items s), s')" "inv s'" "items s' = items s"
    using get_item [OF s(1)] by blast
  then show "\<exists>s'. nxt (snd (get d s)) = ok s' \<and> inv s' \<and> items s' = tl (items s)"
    using next_any [of s'] s(2) by simp
qed (fact items_valid get_item)+

abbreviation refs_valid :: "Ref list \<Rightarrow> bool" where
  "refs_valid rs \<equiv> list_all Ref_bool rs"

lemma iter_get_simps [simp]:
  "iter_get d [] = Ref_invalid" "iter_get d (r # rs) = r"
  by (simp_all add: iter_get_def)

lemma iter_next_simps [simp]:
  "iter_next [] = raise Undefined" "iter_next (r # rs) = ok rs"
  by (simp_all add: iter_next_def)

lemma opt_list_simps [simp]: "opt_list None = []" "opt_list (Some l) = l"
  by (simp_all add: opt_list_def)

subsection \<open>Base iterators\<close>

interpretation base_it: iterator_any "\<lambda>d it. (iter_get d it, it)" iter_next "\<lambda>it. it" refs_valid
proof
  fix s :: "Ref list" and d
  assume "refs_valid s" "s \<noteq> []"
  then show "\<exists>s'. iter_next s = ok s' \<and> refs_valid s' \<and> s' = tl s"
    by (cases s) simp_all
qed (auto simp: list_all_iff)

subsection \<open>Merging\<close>

definition MergeIterator_inv :: "MergeIterator \<Rightarrow> bool" where
  "MergeIterator_inv m \<longleftrightarrow>
     refs_valid (opt_list (mi_left m)) \<and> refs_valid (opt_list (mi_right m)) \<and>
     (case mi_current m of
        None \<Rightarrow> True
      | Some LeftSide \<Rightarrow> (\<exists>l ls. mi_left m = Some (l # ls) \<and>
          (\<forall>r rs. mi_right m = Some (r # rs) \<longrightarrow>
             \<not> MergeIterator_suffix (mi_prefix_size m) r < MergeIterator_suffix (mi_prefix_size m) l))
      | Some RightSide \<Rightarrow> (\<exists>r rs. mi_right m = Some (r # rs) \<and>
          (\<forall>l ls. mi_left m = Some (l # ls) \<longrightarrow>
             MergeIterator_suffix (mi_prefix_size m) r < MergeIterator_suffix (mi_prefix_size m) l)))"

lemma set_merge_refs [simp]: "set (merge_refs n ls rs) = set ls \<union> set rs"
  by (induction n ls rs rule: merge_refs.induct) auto

lemma merge_refs_Nil2 [simp]: "merge_refs n ls [] = ls"
  by (cases ls) simp_all

lemma tryGet_simps [simp]:
  "tryGet d None = (Ref_invalid, None)" "tryGet d (Some []) = (Ref_invalid, None)"
  "Ref_bool r \<Longrightarrow> tryGet d (Some (r # rs)) = (r, Some (r # rs))"
  by (simp_all add: tryGet_def Let_def)

lemma opt_list_cases:
  obtains "x = None" | "x = Some []" | a as where "x = Some (a # as)"
  by (cases x; cases "the x") auto

lemma MergeIterator_get_current:
  assumes "MergeIterator_inv m" "MergeIterator_items m \<noteq> []"
  shows "mi_current (snd (MergeIterator_get d m)) \<noteq> None"
  using assms
  by (cases "mi_left m" rule: opt_list_cases; cases "mi_right m" rule: opt_list_cases)
    (auto simp: MergeIterator_inv_def MergeIterator_get_def MergeIterator_items_def Let_def
      split: option.splits Side.splits)

lemma MergeIterator_get_inv:
  assumes "MergeIterator_inv m"
  shows "\<exists>m'. MergeIterator_get d m = (iter_get d (MergeIterator_items m), m') \<and>
    MergeIterator_inv m' \<and> MergeIterator_items m' = MergeIterator_items m"
  using assms
  by (cases "mi_left m" rule: opt_list_cases; cases "mi_right m" rule: opt_list_cases)
    (auto simp: MergeIterator_inv_def MergeIterator_get_def MergeIterator_items_def Let_def
      split: option.splits Side.splits if_splits)

lemma MergeIterator_next_current:
  assumes "MergeIterator_inv m" "mi_current m \<noteq> None"
  shows "\<exists>m'. MergeIterator_next m = ok m' \<and> MergeIterator_inv m' \<and>
    MergeIterator_items m' = tl (MergeIterator_items m)"
  using assms
  by (cases "mi_left m" rule: opt_list_cases; cases "mi_right m" rule: opt_list_cases)
    (auto simp: MergeIterator_inv_def MergeIterator_next_def MergeIterator_items_def Let_def
      split: option.splits Side.splits if_splits)

lemma MergeIterator_next_any:
  assumes "MergeIterator_inv m" "MergeIterator_items m \<noteq> []"
  shows "\<exists>m'. MergeIterator_next m = ok m' \<and> MergeIterator_inv m' \<and>
    MergeIterator_items m' = tl (MergeIterator_items m)"
proof (cases "mi_current m")
  case None
  define g where "g = snd (MergeIterator_get KeyOnly m)"
  have g: "MergeIterator_inv g" "MergeIterator_items g = MergeIterator_items m" "mi_current g \<noteq> None"
    using MergeIterator_get_inv [OF assms(1), of KeyOnly] MergeIterator_get_current [OF assms, of KeyOnly]
    by (auto simp: g_def)
  have "MergeIterator_next m = MergeIterator_next g"
    unfolding MergeIterator_next_def using None g(3) by (simp only: g_def Let_def if_True if_False simp_thms)
  with MergeIterator_next_current [OF g(1,3)] g(2) show ?thesis by simp
qed (use MergeIterator_next_current [OF assms(1)] in simp)

interpretation merge_it:
  iterator_any MergeIterator_get MergeIterator_next MergeIterator_items MergeIterator_inv
proof
  fix m r d
  assume m: "MergeIterator_inv m"
  show "r \<in> set (MergeIterator_items m) \<Longrightarrow> Ref_bool r"
    using m by (auto simp: MergeIterator_inv_def MergeIterator_items_def list_all_iff)
  show "\<exists>s'. MergeIterator_get d m = (iter_get d (MergeIterator_items m), s') \<and>
      MergeIterator_inv s' \<and> MergeIterator_items s' = MergeIterator_items m"
    by (rule MergeIterator_get_inv [OF m])
  assume ne: "MergeIterator_items m \<noteq> []"
  show "\<exists>s'. MergeIterator_next m = ok s' \<and> MergeIterator_inv s' \<and>
      MergeIterator_items s' = tl (MergeIterator_items m)"
    by (rule MergeIterator_next_any [OF m ne])
qed

subsection \<open>Appending\<close>

definition AppendIterator_inv :: "AppendIterator \<Rightarrow> bool" where
  "AppendIterator_inv a \<longleftrightarrow> refs_valid (ai_current a) \<and> refs_valid (opt_list (ai_other a)) \<and>
     (ai_checked a \<longrightarrow> ai_current a \<noteq> [] \<or> ai_other a = None)"

lemma AppendIterator_get_inv:
  assumes "AppendIterator_inv a"
  shows "\<exists>a'. AppendIterator_get d a = (iter_get d (AppendIterator_items a), a') \<and>
    AppendIterator_inv a' \<and> AppendIterator_items a' = AppendIterator_items a \<and> ai_checked a'"
  using assms
  by (cases "ai_current a"; cases "ai_other a" rule: opt_list_cases)
    (auto simp: AppendIterator_inv_def AppendIterator_get_def AppendIterator_items_def Let_def)

lemma AppendIterator_next_checked:
  assumes "AppendIterator_inv a" "ai_checked a" "AppendIterator_items a \<noteq> []"
  shows "\<exists>a'. AppendIterator_next a = ok a' \<and> AppendIterator_inv a' \<and>
    AppendIterator_items a' = tl (AppendIterator_items a)"
  using assms
  by (cases "ai_current a")
    (auto simp: AppendIterator_inv_def AppendIterator_next_def AppendIterator_items_def Let_def)

lemma AppendIterator_next_any:
  assumes "AppendIterator_inv a" "AppendIterator_items a \<noteq> []"
  shows "\<exists>a'. AppendIterator_next a = ok a' \<and> AppendIterator_inv a' \<and>
    AppendIterator_items a' = tl (AppendIterator_items a)"
proof (cases "ai_checked a")
  case False
  define g where "g = snd (AppendIterator_get KeyOnly a)"
  have g: "AppendIterator_inv g" "AppendIterator_items g = AppendIterator_items a" "ai_checked g"
    using AppendIterator_get_inv [OF assms(1), of KeyOnly] by (auto simp: g_def)
  have "AppendIterator_next a = AppendIterator_next g"
    using False g(3) by (simp add: AppendIterator_next_def g_def)
  with AppendIterator_next_checked [OF g(1,3)] g(2) assms(2) show ?thesis by simp
qed (use AppendIterator_next_checked [OF assms(1) _ assms(2)] in simp)

interpretation append_it:
  iterator_any AppendIterator_get AppendIterator_next AppendIterator_items AppendIterator_inv
proof
  fix a r d
  assume a: "AppendIterator_inv a"
  show "r \<in> set (AppendIterator_items a) \<Longrightarrow> Ref_bool r"
    using a by (auto simp: AppendIterator_inv_def AppendIterator_items_def list_all_iff)
  show "\<exists>s'. AppendIterator_get d a = (iter_get d (AppendIterator_items a), s') \<and>
      AppendIterator_inv s' \<and> AppendIterator_items s' = AppendIterator_items a"
    using AppendIterator_get_inv [OF a] by blast
  assume ne: "AppendIterator_items a \<noteq> []"
  show "\<exists>s'. AppendIterator_next a = ok s' \<and> AppendIterator_inv s' \<and>
      AppendIterator_items s' = tl (AppendIterator_items a)"
    by (rule AppendIterator_next_any [OF a ne])
qed

subsection \<open>Filtering\<close>

definition FilterIterator_inv :: "FilterIterator \<Rightarrow> bool" where
  "FilterIterator_inv f \<longleftrightarrow> refs_valid (fi_base f)"

lemma FilterIterator_skip_dropWhile:
  "refs_valid rs \<Longrightarrow> FilterIterator_skip v rs = dropWhile (\<lambda>r. \<not> v (ref_id r)) rs"
  by (induction rs) (auto simp: Ref_bool_def)

lemma filter_dropWhile_not: "filter P (dropWhile (\<lambda>x. \<not> P x) xs) = filter P xs"
  by (induction xs) auto

lemma dropWhile_not_hd:
  "filter P xs = y # ys \<Longrightarrow> \<exists>zs. dropWhile (\<lambda>x. \<not> P x) xs = y # zs \<and> filter P zs = ys"
  by (induction xs) (auto split: if_splits)

lemma list_all_dropWhile: "list_all Q xs \<Longrightarrow> list_all Q (dropWhile P xs)"
  by (metis list_all_append takeWhile_dropWhile_id)

interpretation filter_it:
  iterator_loop FilterIterator_get FilterIterator_next FilterIterator_items FilterIterator_inv
proof
  fix f r d
  assume f: "FilterIterator_inv f"
  define it where "it = dropWhile (\<lambda>r. \<not> fi_visible f (ref_id r)) (fi_base f)"
  have get: "FilterIterator_get d f = (iter_get d it, f\<lparr>fi_base := it\<rparr>)"
    using f by (simp add: FilterIterator_get_def FilterIterator_inv_def FilterIterator_skip_dropWhile
        it_def Let_def)
  have itv: "refs_valid it" using f by (simp add: it_def FilterIterator_inv_def list_all_dropWhile)
  have items: "FilterIterator_items f = filter (\<lambda>r. fi_visible f (ref_id r)) it"
    by (simp add: FilterIterator_items_def it_def filter_dropWhile_not)
  show "r \<in> set (FilterIterator_items f) \<Longrightarrow> Ref_bool r"
    using f by (auto simp: FilterIterator_items_def FilterIterator_inv_def list_all_iff)
  have "iter_get d it = iter_get d (FilterIterator_items f)"
    using hd_dropWhile [of "\<lambda>r. \<not> fi_visible f (ref_id r)" "fi_base f"]
    by (cases it) (auto simp: items it_def [symmetric])
  then show "\<exists>s'. FilterIterator_get d f = (iter_get d (FilterIterator_items f), s') \<and>
      FilterIterator_inv s' \<and> FilterIterator_items s' = FilterIterator_items f"
    using get itv items by (auto simp: FilterIterator_inv_def FilterIterator_items_def)
  assume "FilterIterator_items f \<noteq> []"
  then obtain y ys zs where "it = y # zs" "FilterIterator_items f = y # ys"
      "filter (\<lambda>r. fi_visible f (ref_id r)) zs = ys"
    using dropWhile_not_hd [of "\<lambda>r. fi_visible f (ref_id r)" "fi_base f"]
    by (metis FilterIterator_items_def it_def list.exhaust)
  then show "\<exists>s'. FilterIterator_next (snd (FilterIterator_get d f)) = ok s' \<and>
      FilterIterator_inv s' \<and> FilterIterator_items s' = tl (FilterIterator_items f)"
    using itv get by (auto simp: FilterIterator_next_def FilterIterator_inv_def FilterIterator_items_def)
qed

subsection \<open>Seeking in a snapshot\<close>

definition SnapshotIterator_inv :: "SnapshotIterator \<Rightarrow> bool" where
  "SnapshotIterator_inv s \<longleftrightarrow> refs_valid (si_base s)"

interpretation snapshot_it:
  iterator_any SnapshotIterator_get SnapshotIterator_next SnapshotIterator_items SnapshotIterator_inv
proof
  fix s r d
  assume s: "SnapshotIterator_inv s"
  show "r \<in> set (SnapshotIterator_items s) \<Longrightarrow> Ref_bool r"
    using s by (auto simp: SnapshotIterator_items_def SnapshotIterator_inv_def list_all_iff
        dest: set_takeWhileD)
  show "\<exists>s'. SnapshotIterator_get d s = (iter_get d (SnapshotIterator_items s), s') \<and>
      SnapshotIterator_inv s' \<and> SnapshotIterator_items s' = SnapshotIterator_items s"
    using s by (cases "si_base s")
      (auto simp: SnapshotIterator_get_def SnapshotIterator_items_def SnapshotIterator_inv_def Let_def)
  assume "SnapshotIterator_items s \<noteq> []"
  then show "\<exists>s'. SnapshotIterator_next s = ok s' \<and> SnapshotIterator_inv s' \<and>
      SnapshotIterator_items s' = tl (SnapshotIterator_items s)"
    using s by (cases "si_base s")
      (auto simp: SnapshotIterator_next_def SnapshotIterator_items_def SnapshotIterator_inv_def
        split: if_splits)
qed


subsection \<open>What the combined iterators produce\<close>

lemma merge_refs_mset: "mset (merge_refs n ls rs) = mset ls + mset rs"
  by (induction n ls rs rule: merge_refs.induct) auto

lemma merge_refs_sorted:
  "sorted (map (MergeIterator_suffix n) ls) \<Longrightarrow> sorted (map (MergeIterator_suffix n) rs) \<Longrightarrow>
   sorted (map (MergeIterator_suffix n) (merge_refs n ls rs))"
proof (induction n ls rs rule: merge_refs.induct)
  case (3 n l ls r rs)
  then show ?case
    by (cases "MergeIterator_suffix n r < MergeIterator_suffix n l") (auto intro: order.trans)
qed simp_all

lemma FactIterator_merge_eq:
  "refs_valid l \<Longrightarrow> refs_valid r \<Longrightarrow> FactIterator_merge l r n = merge_refs n l r"
  by (cases l; cases r)
    (auto simp: FactIterator_merge_def MergeIterator_items_def MergeIterator_new_def Ref_bool_def Ref_invalid_def)

lemma FactIterator_append_eq: "FactIterator_append l r = l @ r"
  by (simp add: FactIterator_append_def AppendIterator_items_def AppendIterator_new_def)

lemma FactIterator_filter_eq: "FactIterator_filter it v = filter (\<lambda>r. v (ref_id r)) it"
  by (simp add: FactIterator_filter_def FilterIterator_items_def)

text \<open>A fact of one key, for the concrete instances below.\<close>

definition sample_ref :: "Id \<Rightarrow> bytes \<Rightarrow> Ref" where
  "sample_ref i k = \<lparr>ref_id = i, ref_type = 1, ref_clause = Clause_fromKey k\<rparr>"



section \<open>What a lookup promises\<close>

text \<open>The facts as the clients of a lookup see them: id, predicate, key and value.\<close>

record afact =
  a_id :: Id
  a_type :: Pid
  a_key :: bytes
  a_value :: bytes

definition Ref_view :: "Ref \<Rightarrow> afact" where
  "Ref_view r = \<lparr>a_id = ref_id r, a_type = ref_type r, a_key = Ref_key r, a_value = Ref_value r\<rparr>"

definition facts_by_id :: "afact list \<Rightarrow> Id \<Rightarrow> afact option" where
  "facts_by_id fs i = find (\<lambda>a. a_id a = i) fs"

definition facts_by_key :: "afact list \<Rightarrow> Pid \<Rightarrow> bytes \<Rightarrow> afact option" where
  "facts_by_key fs t k = find (\<lambda>a. a_type a = t \<and> a_key a = k) fs"

definition facts_between :: "afact list \<Rightarrow> Id \<Rightarrow> Id \<Rightarrow> afact list" where
  "facts_between fs a b = filter (\<lambda>f. a \<le> a_id f \<and> (WordId_bool b \<longrightarrow> a_id f < b)) fs"

definition facts_prefix :: "afact list \<Rightarrow> Pid \<Rightarrow> bytes \<Rightarrow> nat \<Rightarrow> afact list" where
  "facts_prefix fs t start n =
     sort_key a_key (filter (\<lambda>f. a_type f = t \<and> start \<le> a_key f \<and> take n (a_key f) = take n start) fs)"

definition clause_view :: "Pid \<times> Clause \<Rightarrow> Pid \<times> bytes \<times> bytes" where
  "clause_view = (\<lambda>(t, c). (t, Clause_key c, Clause_value c))"

definition afact_view :: "afact \<Rightarrow> Pid \<times> bytes \<times> bytes" where
  "afact_view a = (a_type a, a_key a, a_value a)"

text \<open>The facts of a lookup: ids ascend, and no two facts have the same predicate and key.\<close>

definition facts_ok :: "afact list \<Rightarrow> bool" where
  "facts_ok fs \<longleftrightarrow> sorted_wrt (<) (map a_id fs) \<and> distinct (map (\<lambda>a. (a_type a, a_key a)) fs)"

text \<open>The point queries: \<open>idByKey\<close>, \<open>typeById\<close>, \<open>factById\<close>, \<open>count\<close> and the bounds.\<close>

locale lookup_points =
  fixes L :: Lookup and fs :: "afact list"
  assumes facts_ok: "facts_ok fs"
    and starting_valid: "WordId_invalid < startingId L"
    and starting_le: "startingId L \<le> firstFreeId L"
    and ids_bounded: "a \<in> set fs \<Longrightarrow> startingId L \<le> a_id a \<and> a_id a < firstFreeId L"
    and idByKey: "idByKey L t k = (case facts_by_key fs t k of None \<Rightarrow> WordId_invalid | Some a \<Rightarrow> a_id a)"
    and typeById: "typeById L i = (case facts_by_id fs i of None \<Rightarrow> WordId_invalid | Some a \<Rightarrow> a_type a)"
    and factById: "map_option clause_view (factById L i) = map_option afact_view (facts_by_id fs i)"
    and count: "in_interval (length (filter (\<lambda>a. a_type a = t) fs)) (count L t)"

text \<open>The ascending enumeration.\<close>

locale lookup_forward = lookup_points +
  assumes enumerate: "map Ref_view (enumerate L a b) = facts_between fs a b"

text \<open>The whole of \<open>Lookup\<close>.\<close>

locale lookup_contract = lookup_forward +
  assumes enumerateBack: "map Ref_view (enumerateBack L a b) = rev (facts_between fs b a)"
    and seek: "n \<le> length start \<Longrightarrow> map Ref_view (seek L t start n) = facts_prefix fs t start n"


section \<open>Facts of a lookup\<close>

lemma find_unique:
  assumes "\<And>x y. x \<in> set xs \<Longrightarrow> y \<in> set xs \<Longrightarrow> P x \<Longrightarrow> P y \<Longrightarrow> x = y"
  shows "find P xs = Some x \<longleftrightarrow> x \<in> set xs \<and> P x"
  using assms by (induction xs) auto

lemma length_filter_filter_le: "length (filter P (filter Q xs)) \<le> length (filter P xs)"
  by (induction xs) auto

lemma facts_ok_id_inj:
  "facts_ok fs \<Longrightarrow> a \<in> set fs \<Longrightarrow> b \<in> set fs \<Longrightarrow> a_id a = a_id b \<Longrightarrow> a = b"
  by (auto simp: facts_ok_def strict_sorted_iff distinct_map dest: inj_onD)

lemma facts_ok_key_inj:
  "facts_ok fs \<Longrightarrow> a \<in> set fs \<Longrightarrow> b \<in> set fs \<Longrightarrow> a_type a = a_type b \<Longrightarrow> a_key a = a_key b \<Longrightarrow> a = b"
  by (auto simp: facts_ok_def distinct_map dest: inj_onD)

lemma facts_by_id_Some:
  "facts_ok fs \<Longrightarrow> facts_by_id fs i = Some a \<longleftrightarrow> a \<in> set fs \<and> a_id a = i"
  unfolding facts_by_id_def by (rule find_unique) (auto dest: facts_ok_id_inj)

lemma facts_by_id_None: "facts_by_id fs i = None \<longleftrightarrow> (\<forall>a\<in>set fs. a_id a \<noteq> i)"
  by (auto simp: facts_by_id_def find_None_iff)

lemma facts_by_key_Some:
  "facts_ok fs \<Longrightarrow> facts_by_key fs t k = Some a \<longleftrightarrow> a \<in> set fs \<and> a_type a = t \<and> a_key a = k"
  unfolding facts_by_key_def by (rule find_unique) (auto dest: facts_ok_key_inj)

lemma facts_by_key_None: "facts_by_key fs t k = None \<longleftrightarrow> (\<forall>a\<in>set fs. \<not> (a_type a = t \<and> a_key a = k))"
  by (auto simp: facts_by_key_def find_None_iff)

lemma facts_ok_Nil [simp]: "facts_ok []"
  by (simp add: facts_ok_def)

lemma facts_ok_filter: "facts_ok fs \<Longrightarrow> facts_ok (filter P fs)"
  by (auto simp: facts_ok_def sorted_wrt_map sorted_wrt_filter distinct_map_filter)

lemma facts_ok_append:
  "facts_ok (fs @ gs) \<longleftrightarrow> facts_ok fs \<and> facts_ok gs \<and> (\<forall>a\<in>set fs. \<forall>b\<in>set gs. a_id a < a_id b \<and>
     \<not> (a_type a = a_type b \<and> a_key a = a_key b))"
  by (auto simp: facts_ok_def sorted_wrt_append)

lemma facts_by_id_append:
  "facts_by_id (fs @ gs) i = (case facts_by_id fs i of None \<Rightarrow> facts_by_id gs i | Some a \<Rightarrow> Some a)"
  by (induction fs) (auto simp: facts_by_id_def)

lemma facts_by_key_append:
  "facts_by_key (fs @ gs) t k = (case facts_by_key fs t k of None \<Rightarrow> facts_by_key gs t k | Some a \<Rightarrow> Some a)"
  by (induction fs) (auto simp: facts_by_key_def)

lemma facts_between_append [simp]: "facts_between (fs @ gs) a b = facts_between fs a b @ facts_between gs a b"
  by (simp add: facts_between_def)

lemma facts_between_all [simp]: "facts_between fs WordId_invalid WordId_invalid = fs"
  by (simp add: facts_between_def)

lemma Ref_view_simps [simp]:
  "a_id (Ref_view r) = ref_id r" "a_type (Ref_view r) = ref_type r" "a_key (Ref_view r) = Ref_key r"
  "a_value (Ref_view r) = Ref_value r"
  by (simp_all add: Ref_view_def)

lemma refs_valid_view:
  "refs_valid rs \<longleftrightarrow> (\<forall>a\<in>set (map Ref_view rs). a_id a \<noteq> WordId_invalid)"
  by (auto simp: list_all_iff Ref_bool_def)

context lookup_points
begin

lemma fact_valid: "a \<in> set fs \<Longrightarrow> a_id a \<noteq> WordId_invalid"
  using ids_bounded starting_valid by fastforce

lemma idByKey_iff: "a \<in> set fs \<Longrightarrow> idByKey L (a_type a) (a_key a) = a_id a"
  using facts_by_key_Some [OF facts_ok, of "a_type a" "a_key a" a] by (simp add: idByKey)

lemma idByKey_invalid:
  "idByKey L t k = WordId_invalid \<longleftrightarrow> (\<forall>a\<in>set fs. \<not> (a_type a = t \<and> a_key a = k))"
proof (cases "facts_by_key fs t k")
  case None
  then show ?thesis using facts_by_key_None [of fs t k] by (simp add: idByKey)
next
  case (Some a)
  then show ?thesis using facts_by_key_Some [OF facts_ok, of t k a] fact_valid by (auto simp: idByKey)
qed

text \<open>What \<open>idByKey\<close> finds, \<open>factById\<close> and \<open>typeById\<close> describe.\<close>

lemma idByKey_factById:
  assumes "idByKey L t k = i" "i \<noteq> WordId_invalid"
  shows "\<exists>c. factById L i = Some (t, c) \<and> Clause_key c = k" "typeById L i = t"
    "startingId L \<le> i" "i < firstFreeId L"
proof -
  obtain a where a: "facts_by_key fs t k = Some a" "a_id a = i"
    using assms by (auto simp: idByKey split: option.splits)
  then have s: "a \<in> set fs" "a_type a = t" "a_key a = k"
    using facts_by_key_Some [OF facts_ok] by auto
  have i: "facts_by_id fs i = Some a" using s a facts_by_id_Some [OF facts_ok] by auto
  show "typeById L i = t" using i s by (simp add: typeById)
  show "\<exists>c. factById L i = Some (t, c) \<and> Clause_key c = k"
    using factById [of i] i s by (auto simp: clause_view_def afact_view_def)
  show "startingId L \<le> i" "i < firstFreeId L" using ids_bounded [OF s(1)] a by auto
qed

lemma typeById_outside: "i < startingId L \<or> firstFreeId L \<le> i \<Longrightarrow> typeById L i = WordId_invalid"
  using facts_by_id_Some [OF facts_ok, of i] ids_bounded
  by (cases "facts_by_id fs i") (force simp: typeById)+

end

context lookup_forward
begin

lemma enumerate_all: "map Ref_view (enumerate L WordId_invalid WordId_invalid) = fs"
  by (simp add: enumerate)

lemma enumerate_valid: "refs_valid (enumerate L a b)"
  unfolding refs_valid_view using fact_valid by (auto simp: enumerate facts_between_def)

end

context lookup_contract
begin

lemma enumerateBack_valid: "refs_valid (enumerateBack L a b)"
  unfolding refs_valid_view using fact_valid by (auto simp: enumerateBack facts_between_def)

lemma seek_valid: "n \<le> length start \<Longrightarrow> refs_valid (seek L t start n)"
  unfolding refs_valid_view using fact_valid by (auto simp: seek facts_prefix_def)

lemma enumerateBack_rev: "map Ref_view (enumerateBack L b a) = rev (map Ref_view (enumerate L a b))"
  by (simp add: enumerateBack enumerate)

end

section \<open>The lookups of lookup.h\<close>

interpretation empty_lookup: lookup_contract EmptyLookup "[]"
  by unfold_locales
    (simp_all add: EmptyLookup_def WordId_invalid_def WordId_lowest_def FIRST_FREE_ID_def
      facts_by_key_def facts_by_id_def facts_between_def facts_prefix_def EmptyIterator_def
      in_interval_def Interval_of_def)

text \<open>A snapshot has the facts below its boundary.\<close>

abbreviation facts_below :: "Id \<Rightarrow> afact list \<Rightarrow> afact list" where
  "facts_below b \<equiv> filter (\<lambda>a. a_id a < b)"

lemma facts_by_id_below:
  "facts_by_id (facts_below b fs) i = (if i < b then facts_by_id fs i else None)"
  by (induction fs) (auto simp: facts_by_id_def)

lemma facts_between_below:
  "facts_between (facts_below b fs) a c =
     (if b \<le> a then [] else facts_between fs a (if WordId_bool c then min c b else b))" if "b \<noteq> WordId_invalid"
  using that by (auto simp: facts_between_def min_def filter_empty_conv intro!: filter_cong)

context lookup_points
begin

lemma idByKey_below:
  "(if idByKey L t k < b then idByKey L t k else WordId_invalid) =
   (case facts_by_key (facts_below b fs) t k of None \<Rightarrow> WordId_invalid | Some a \<Rightarrow> a_id a)"
proof (cases "facts_by_key fs t k")
  case None
  then have "facts_by_key (facts_below b fs) t k = None"
    by (auto simp: facts_by_key_None)
  with None show ?thesis by (simp add: idByKey)
next
  case (Some a)
  then have a: "a \<in> set fs" "a_type a = t" "a_key a = k"
    using facts_by_key_Some [OF facts_ok] by auto
  show ?thesis
  proof (cases "a_id a < b")
    case True
    then have "facts_by_key (facts_below b fs) t k = Some a"
      using a by (simp add: facts_by_key_Some [OF facts_ok_filter [OF facts_ok]])
    then show ?thesis using Some True by (simp add: idByKey)
  next
    case False
    then have "facts_by_key (facts_below b fs) t k = None"
      using a facts_ok_key_inj [OF facts_ok a(1)] unfolding facts_by_key_None by fastforce
    then show ?thesis using Some False by (simp add: idByKey)
  qed
qed

lemma Snapshot_points:
  assumes "WordId_invalid < boundary"
  shows "lookup_points (Snapshot L boundary) (facts_below boundary fs)"
proof
  show "facts_ok (facts_below boundary fs)" by (rule facts_ok_filter [OF facts_ok])
  show "WordId_invalid < startingId (Snapshot L boundary)"
    "startingId (Snapshot L boundary) \<le> firstFreeId (Snapshot L boundary)"
    using assms starting_valid starting_le by (auto simp: Snapshot_def min_def)
  fix a t k i
  show "a \<in> set (facts_below boundary fs) \<Longrightarrow>
      startingId (Snapshot L boundary) \<le> a_id a \<and> a_id a < firstFreeId (Snapshot L boundary)"
    using ids_bounded [of a] by (auto simp: Snapshot_def min_def)
  show "idByKey (Snapshot L boundary) t k = (case facts_by_key (facts_below boundary fs) t k of
      None \<Rightarrow> WordId_invalid | Some a \<Rightarrow> a_id a)"
    unfolding idByKey_below [symmetric] by (simp add: Snapshot_def Let_def)
  show "typeById (Snapshot L boundary) i = (case facts_by_id (facts_below boundary fs) i of
      None \<Rightarrow> WordId_invalid | Some a \<Rightarrow> a_type a)"
    by (simp add: Snapshot_def typeById facts_by_id_below)
  show "map_option clause_view (factById (Snapshot L boundary) i) =
      map_option afact_view (facts_by_id (facts_below boundary fs) i)"
    by (simp add: Snapshot_def factById facts_by_id_below)
  have "length (filter (\<lambda>a. a_type a = t) (facts_below boundary fs)) \<le> length (filter (\<lambda>a. a_type a = t) fs)"
    by (rule length_filter_filter_le)
  then show "in_interval (length (filter (\<lambda>a. a_type a = t) (facts_below boundary fs))) (count (Snapshot L boundary) t)"
    using in_interval_asHigh [OF count] by (simp add: Snapshot_def)
qed

end

context lookup_forward
begin

lemma Snapshot_forward:
  assumes "WordId_invalid < boundary"
  shows "lookup_forward (Snapshot L boundary) (facts_below boundary fs)"
proof (intro lookup_forward.intro lookup_forward_axioms.intro Snapshot_points assms)
  fix a b
  show "map Ref_view (enumerate (Snapshot L boundary) a b) = facts_between (facts_below boundary fs) a b"
    using assms by (simp add: Snapshot_def Snapshot_enumerate_def enumerate facts_between_below
        EmptyIterator_def)
qed

end

end
