(* ===== verification/Dense_Map.thy ===== *)
theory Dense_Map
  imports Ids_Stats
begin

text \<open>
  The map of \<^verbatim>\<open>rts/densemap.h\<close> from number-like keys to values: a vector of optional values for the
  keys from \<open>start\<close> on, and the number of keys that have one. \<open>operator[]\<close> returns a reference,
  so it is modelled as the map in which the slot exists (\<open>DenseMap_at\<close>) and the value in it
  (\<open>DenseMap_ref\<close>); a write through the reference is \<open>DenseMap_assign\<close>.

  The locale \<open>key_map\<close> states what the clients of the map rely on; its interpretation \<open>dense\<close>
  shows that this implementation delivers it as long as \<open>start + data.size()\<close> does not wrap
  around.
\<close>

section \<open>The map\<close>

record 'v DenseMap =
  dm_start :: u64
  dm_data :: "'v option list"
  dm_count :: u64

definition DenseMap_new :: "'v DenseMap" where
  "DenseMap_new = \<lparr>dm_start = 0, dm_data = [], dm_count = 0\<rparr>"

text \<open>The data members \<open>swap\<close> exchanges; \<open>count\<close> is not one of them.\<close>

definition DenseMap_swap :: "'v DenseMap \<Rightarrow> 'v DenseMap \<Rightarrow> 'v DenseMap \<times> 'v DenseMap" where
  "DenseMap_swap a b =
     (a\<lparr>dm_start := dm_start b, dm_data := dm_data b\<rparr>, b\<lparr>dm_start := dm_start a, dm_data := dm_data a\<rparr>)"

definition DenseMap_empty :: "'v DenseMap \<Rightarrow> bool" where
  "DenseMap_empty m \<longleftrightarrow> dm_count m = 0"

definition DenseMap_size :: "'v DenseMap \<Rightarrow> u64" where
  "DenseMap_size m = dm_count m"

text \<open>\<open>std::vector::resize\<close>.\<close>

definition vresize :: "nat \<Rightarrow> 'v option list \<Rightarrow> 'v option list" where
  "vresize n xs = take n xs @ replicate (n - length xs) None"

definition DenseMap_finish :: "'v DenseMap \<Rightarrow> u64" where
  "DenseMap_finish m = dm_start m + of_nat (length (dm_data m))"

definition DenseMap_reserve :: "'v DenseMap \<Rightarrow> u64 \<Rightarrow> u64 \<Rightarrow> 'v DenseMap" where
  "DenseMap_reserve m a b =
     (if dm_data m = [] then m\<lparr>dm_start := a, dm_data := vresize (unat (b - a)) []\<rparr>
      else if a < dm_start m then
        let sz = max b (DenseMap_finish m) - a;
            xs = vresize (unat (dm_start m - a)) [] @ dm_data m
        in m\<lparr>dm_data := vresize (unat sz) xs, dm_start := a\<rparr>
      else if unat (b - dm_start m) > length (dm_data m) then
        m\<lparr>dm_data := vresize (unat (b - dm_start m)) (dm_data m)\<rparr>
      else m)"

definition DenseMap_at :: "'v \<Rightarrow> 'v DenseMap \<Rightarrow> u64 \<Rightarrow> 'v DenseMap" where
  "DenseMap_at dflt m key =
     (let m' = DenseMap_reserve m key (key + 1);
          i = unat (key - dm_start m')
      in if dm_data m' ! i = None
         then m'\<lparr>dm_data := (dm_data m')[i := Some dflt], dm_count := dm_count m' + 1\<rparr>
         else m')"

definition DenseMap_ref :: "'v DenseMap \<Rightarrow> u64 \<Rightarrow> 'v" where
  "DenseMap_ref m key = the (dm_data m ! unat (key - dm_start m))"

definition DenseMap_assign :: "'v DenseMap \<Rightarrow> u64 \<Rightarrow> 'v \<Rightarrow> 'v DenseMap" where
  "DenseMap_assign m key v = m\<lparr>dm_data := (dm_data m)[unat (key - dm_start m) := Some v]\<rparr>"

definition DenseMap_lookup :: "'v DenseMap \<Rightarrow> u64 \<Rightarrow> 'v option" where
  "DenseMap_lookup m key =
     (if key \<ge> dm_start m then
        let i = unat (key - dm_start m) in if i < length (dm_data m) then dm_data m ! i else None
      else None)"

text \<open>The body of the loop in \<open>merge\<close>: \<open>i\<close> walks through \<open>data\<close>, \<open>x\<close> through the other map's.\<close>

fun DenseMap_merge_loop ::
  "('v \<Rightarrow> 'v \<Rightarrow> 'v) \<Rightarrow> 'v option list \<Rightarrow> 'v option list \<Rightarrow> u64 \<Rightarrow> ('v option list \<times> u64) result" where
  "DenseMap_merge_loop f is [] n = ok (is, n)"
| "DenseMap_merge_loop f [] (x # xs) n = raise Undefined"
| "DenseMap_merge_loop f (i # is) (x # xs) n =
     (case (x, i) of
        (None, _) \<Rightarrow> rbind (DenseMap_merge_loop f is xs n) (\<lambda>(is', n'). ok (i # is', n'))
      | (Some v, Some w) \<Rightarrow>
          rbind (DenseMap_merge_loop f is xs n) (\<lambda>(is', n'). ok (Some (f w v) # is', n'))
      | (Some v, None) \<Rightarrow>
          rbind (DenseMap_merge_loop f is xs (n + 1)) (\<lambda>(is', n'). ok (Some v # is', n')))"

definition DenseMap_merge :: "'v DenseMap \<Rightarrow> 'v DenseMap \<Rightarrow> ('v \<Rightarrow> 'v \<Rightarrow> 'v) \<Rightarrow> 'v DenseMap result" where
  "DenseMap_merge m other f =
     (if dm_data other = [] then ok m
      else if dm_data m = [] then ok other
      else
        let m' = DenseMap_reserve m (min (dm_start m) (dm_start other))
                   (max (DenseMap_finish m) (DenseMap_finish other));
            i = unat (dm_start other - dm_start m')
        in rbind (DenseMap_merge_loop f (drop i (dm_data m')) (dm_data other) (dm_count m'))
             (\<lambda>(xs, n). ok (m'\<lparr>dm_data := take i (dm_data m') @ xs, dm_count := n\<rparr>)))"

text \<open>The iterator: a key and the rest of the vector. The first slot is not checked.\<close>

fun DenseMap_Iter_skip :: "u64 \<Rightarrow> 'v option list \<Rightarrow> u64 \<times> 'v option list" where
  "DenseMap_Iter_skip key (None # xs) = DenseMap_Iter_skip (key + 1) xs"
| "DenseMap_Iter_skip key xs = (key, xs)"

lemma DenseMap_Iter_skip_length: "length (snd (DenseMap_Iter_skip key xs)) \<le> length xs"
  by (induction key xs rule: DenseMap_Iter_skip.induct) auto

function DenseMap_Iter_loop :: "u64 \<Rightarrow> 'v option list \<Rightarrow> (u64 \<times> 'v) list result" where
  "DenseMap_Iter_loop key [] = ok []"
| "DenseMap_Iter_loop key (None # xs) = raise Undefined"
| "DenseMap_Iter_loop key (Some v # xs) =
     rbind (DenseMap_Iter_loop (fst (DenseMap_Iter_skip (key + 1) xs)) (snd (DenseMap_Iter_skip (key + 1) xs)))
       (\<lambda>kvs. ok ((key, v) # kvs))"
  by pat_completeness auto
termination
  by (relation "measure (\<lambda>(key, xs). length xs)") (simp_all add: case_prod_unfold le_imp_less_Suc DenseMap_Iter_skip_length)

definition DenseMap_items :: "'v DenseMap \<Rightarrow> (u64 \<times> 'v) list result" where
  "DenseMap_items m = DenseMap_Iter_loop (dm_start m) (dm_data m)"

section \<open>The contract of a map\<close>

locale key_map =
  fixes lookup :: "'m \<Rightarrow> u64 \<Rightarrow> 'v option"
    and at :: "'v \<Rightarrow> 'm \<Rightarrow> u64 \<Rightarrow> 'm"
    and ref :: "'m \<Rightarrow> u64 \<Rightarrow> 'v"
    and assign :: "'m \<Rightarrow> u64 \<Rightarrow> 'v \<Rightarrow> 'm"
    and inv :: "'m \<Rightarrow> bool"
    and key_ok :: "u64 \<Rightarrow> bool"
  assumes at_inv: "inv m \<Longrightarrow> key_ok k \<Longrightarrow> inv (at d m k)"
    and at_lookup: "inv m \<Longrightarrow> key_ok k \<Longrightarrow>
      lookup (at d m k) j = (if j = k \<and> lookup m k = None then Some d else lookup m j)"
    and ref_lookup: "inv m \<Longrightarrow> lookup m k = Some v \<Longrightarrow> ref m k = v"
    and assign_inv: "inv m \<Longrightarrow> lookup m k \<noteq> None \<Longrightarrow> inv (assign m k v)"
    and assign_lookup: "inv m \<Longrightarrow> lookup m k \<noteq> None \<Longrightarrow>
      lookup (assign m k v) j = (if j = k then Some v else lookup m j)"
begin

text \<open>\<open>m[k] = f(m[k])\<close>, through the reference.\<close>

lemma update_lookup:
  assumes "inv m" "key_ok k"
  shows "lookup (assign (at d m k) k (f (ref (at d m k) k))) j =
    (if j = k then Some (f (case lookup m k of None \<Rightarrow> d | Some v \<Rightarrow> v)) else lookup m j)"
    and "inv (assign (at d m k) k (f (ref (at d m k) k)))"
proof -
  let ?m = "at d m k"
  have i: "inv ?m" and l: "lookup ?m k = Some (case lookup m k of None \<Rightarrow> d | Some v \<Rightarrow> v)"
    using assms by (auto simp: at_inv at_lookup split: option.splits)
  show "inv (assign ?m k (f (ref ?m k)))" using i l by (simp add: assign_inv)
  show "lookup (assign ?m k (f (ref ?m k))) j =
      (if j = k then Some (f (case lookup m k of None \<Rightarrow> d | Some v \<Rightarrow> v)) else lookup m j)"
    using assms assign_lookup [OF i] ref_lookup [OF i l] l by (simp add: at_lookup)
qed

end

section \<open>The invariant\<close>

text \<open>The number of slots that hold a value.\<close>

primrec some_count :: "'v option list \<Rightarrow> nat" where
  "some_count [] = 0"
| "some_count (x # xs) = (case x of None \<Rightarrow> 0 | Some _ \<Rightarrow> 1) + some_count xs"

lemma some_count_append [simp]: "some_count (xs @ ys) = some_count xs + some_count ys"
  by (induction xs) (auto split: option.splits)

lemma some_count_replicate [simp]: "some_count (replicate n None) = 0"
  by (induction n) auto

lemma some_count_le: "some_count xs \<le> length xs"
  by (induction xs) (auto split: option.splits)

definition DenseMap_ok :: "'v DenseMap \<Rightarrow> bool" where
  "DenseMap_ok m \<longleftrightarrow> unat (dm_start m) + length (dm_data m) < 2 ^ 64 \<and>
     (dm_data m \<noteq> [] \<longrightarrow> hd (dm_data m) \<noteq> None \<and> last (dm_data m) \<noteq> None) \<and>
     unat (dm_count m) = some_count (dm_data m)"

definition DenseMap_key_ok :: "u64 \<Rightarrow> bool" where
  "DenseMap_key_ok k \<longleftrightarrow> unat k + 1 < 2 ^ 64"

lemma DenseMap_new_ok [simp]: "DenseMap_ok DenseMap_new"
  by (simp add: DenseMap_ok_def DenseMap_new_def)

lemma DenseMap_lookup_new [simp]: "DenseMap_lookup DenseMap_new k = None"
  by (simp add: DenseMap_lookup_def DenseMap_new_def)

text \<open>The slot of a key, as a natural number.\<close>

lemma DenseMap_lookup_nat:
  "DenseMap_lookup m k = (if unat (dm_start m) \<le> unat k \<and> unat k < unat (dm_start m) + length (dm_data m)
     then dm_data m ! (unat k - unat (dm_start m)) else None)"
  by (auto simp: DenseMap_lookup_def Let_def word_le_nat_alt unat_sub)

lemma length_vresize [simp]: "length (vresize n xs) = n"
  by (simp add: vresize_def)

lemma vresize_Nil [simp]: "vresize n [] = replicate n None"
  by (simp add: vresize_def)

lemma nth_vresize: "i < n \<Longrightarrow> vresize n xs ! i = (if i < length xs then xs ! i else None)"
  by (simp add: vresize_def nth_append)

lemma some_count_vresize: "length xs \<le> n \<Longrightarrow> some_count (vresize n xs) = some_count xs"
  by (simp add: vresize_def)

lemma unat_succ: "DenseMap_key_ok k \<Longrightarrow> unat (k + 1) = unat k + 1"
  using unat_plus_nat [of k 1] by (simp add: DenseMap_key_ok_def)

lemma unat_finish:
  "unat (dm_start m) + length (dm_data m) < 2 ^ 64 \<Longrightarrow>
   unat (DenseMap_finish m) = unat (dm_start m) + length (dm_data m)"
  by (simp add: DenseMap_finish_def unat_plus_nat)

text \<open>\<open>reserve\<close> covers the asked range and keeps every value.\<close>

lemma unat_max: "unat (max a b) = max (unat a) (unat (b :: u64))"
  by (simp add: max_def word_le_nat_alt)

lemma reserve_shape:
  assumes m: "unat (dm_start m) + length (dm_data m) < 2 ^ 64" and ab: "unat a \<le> unat b"
  shows "unat (dm_start (DenseMap_reserve m a b)) =
      (if dm_data m = [] then unat a else min (unat a) (unat (dm_start m)))" (is ?A)
    and "unat (dm_start (DenseMap_reserve m a b)) + length (dm_data (DenseMap_reserve m a b)) =
      (if dm_data m = [] then unat b else max (unat b) (unat (dm_start m) + length (dm_data m)))" (is ?B)
proof -
  note f = unat_finish [OF m]
  have ba: "unat (b - a) = unat b - unat a"
    using ab by (simp add: unat_sub word_le_nat_alt)
  consider "dm_data m = []" | "dm_data m \<noteq> []" "a < dm_start m" | "dm_data m \<noteq> []" "\<not> a < dm_start m"
    by blast
  then have "?A \<and> ?B"
  proof cases
    case 1
    then show ?thesis using ba ab by (simp add: DenseMap_reserve_def)
  next
    case 2
    then have "unat (max b (DenseMap_finish m) - a) = max (unat b) (unat (dm_start m) + length (dm_data m)) - unat a"
      using ab f by (simp add: unat_sub word_le_nat_alt unat_max le_max_iff_disj)
    then show ?thesis
      using 2 ab by (simp add: DenseMap_reserve_def Let_def word_less_nat_alt min_def)
  next
    case 3
    then have "unat (b - dm_start m) = unat b - unat (dm_start m)"
      using ab by (simp add: unat_sub word_le_nat_alt word_less_nat_alt)
    then show ?thesis
      using 3 by (simp add: DenseMap_reserve_def Let_def word_less_nat_alt)
  qed
  then show ?A ?B by blast+
qed

lemma reserve_content:
  assumes m: "unat (dm_start m) + length (dm_data m) < 2 ^ 64" and ab: "unat a \<le> unat b"
  shows "DenseMap_lookup (DenseMap_reserve m a b) k = DenseMap_lookup m k" (is ?A)
    and "some_count (dm_data (DenseMap_reserve m a b)) = some_count (dm_data m)" (is ?B)
proof -
  note f = unat_finish [OF m]
  have ba: "unat (b - a) = unat b - unat a"
    using ab by (simp add: unat_sub word_le_nat_alt)
  consider "dm_data m = []" | "dm_data m \<noteq> []" "a < dm_start m" | "dm_data m \<noteq> []" "\<not> a < dm_start m"
    by blast
  then have "?A \<and> ?B"
  proof cases
    case 1
    then show ?thesis
      by (auto simp: DenseMap_reserve_def DenseMap_lookup_nat)
  next
    case 2
    define sz where "sz = unat (max b (DenseMap_finish m) - a)"
    define gap where "gap = unat (dm_start m) - unat a"
    have sz: "sz = max (unat b) (unat (dm_start m) + length (dm_data m)) - unat a"
      using ab f by (simp add: sz_def unat_sub word_le_nat_alt unat_max le_max_iff_disj)
    have gap: "unat (dm_start m - a) = gap" "unat (dm_start m) = unat a + gap" "gap + length (dm_data m) \<le> sz"
      using 2 sz by (auto simp: gap_def unat_sub word_le_nat_alt word_less_nat_alt)
    have r: "DenseMap_reserve m a b =
        m\<lparr>dm_data := vresize sz (vresize gap [] @ dm_data m), dm_start := a\<rparr>"
      using 2 gap(1) by (simp add: DenseMap_reserve_def Let_def sz_def)
    show ?thesis
      using gap(2,3) by (auto simp: r DenseMap_lookup_nat nth_vresize nth_append some_count_vresize)
  next
    case 3
    then have u: "unat (b - dm_start m) = unat b - unat (dm_start m)"
      using ab by (simp add: unat_sub word_le_nat_alt word_less_nat_alt)
    show ?thesis
      using 3 u by (auto simp: DenseMap_reserve_def DenseMap_lookup_nat nth_vresize some_count_vresize)
  qed
  then show ?A ?B by blast+
qed

lemma reserve_count [simp]: "dm_count (DenseMap_reserve m a b) = dm_count m"
  by (simp add: DenseMap_reserve_def Let_def)

section \<open>The implementation keeps the contract\<close>

lemma some_count_update:
  "i < length xs \<Longrightarrow> xs ! i = None \<Longrightarrow> some_count (xs[i := Some v]) = Suc (some_count xs)"
  by (induction xs arbitrary: i) (auto split: nat.splits simp: nth_Cons)

lemma some_count_replace:
  "i < length xs \<Longrightarrow> xs ! i \<noteq> None \<Longrightarrow> some_count (xs[i := Some v]) = some_count xs"
  by (induction xs arbitrary: i) (auto split: nat.splits simp: nth_Cons)

text \<open>The ends of the vector, as slots.\<close>

definition DenseMap_slot :: "'v DenseMap \<Rightarrow> nat \<Rightarrow> 'v option" where
  "DenseMap_slot m n = (if unat (dm_start m) \<le> n \<and> n < unat (dm_start m) + length (dm_data m)
     then dm_data m ! (n - unat (dm_start m)) else None)"

lemma lookup_slot: "DenseMap_lookup m k = DenseMap_slot m (unat k)"
  by (simp add: DenseMap_lookup_nat DenseMap_slot_def)

lemma slot_lookup: "n < 2 ^ 64 \<Longrightarrow> DenseMap_slot m n = DenseMap_lookup m (of_nat n)"
  by (simp add: lookup_slot unat_of_nat_64)

lemma DenseMap_ok_slots:
  "DenseMap_ok m \<longleftrightarrow> unat (dm_start m) + length (dm_data m) < 2 ^ 64 \<and>
     (dm_data m \<noteq> [] \<longrightarrow> DenseMap_slot m (unat (dm_start m)) \<noteq> None \<and>
        DenseMap_slot m (unat (dm_start m) + length (dm_data m) - 1) \<noteq> None) \<and>
     unat (dm_count m) = some_count (dm_data m)"
proof (cases "dm_data m = []")
  case False
  then obtain n where "length (dm_data m) = Suc n" by (cases "dm_data m") auto
  then show ?thesis
    using False by (simp add: DenseMap_ok_def DenseMap_slot_def hd_conv_nth last_conv_nth)
qed (simp add: DenseMap_ok_def)

lemma slot_update:
  assumes "unat (dm_start m) \<le> unat k" "unat k < unat (dm_start m) + length (dm_data m)"
  shows "DenseMap_slot (m\<lparr>dm_data := (dm_data m)[unat (k - dm_start m) := x], dm_count := c\<rparr>) n =
    (if n = unat k then x else DenseMap_slot m n)"
  using assms by (auto simp: DenseMap_slot_def unat_sub word_le_nat_alt nth_list_update)

lemma reserve_key:
  assumes "DenseMap_ok m" and "DenseMap_key_ok k"
  defines "m' \<equiv> DenseMap_reserve m k (k + 1)"
  shows "unat (dm_start m') = (if dm_data m = [] then unat k else min (unat k) (unat (dm_start m)))"
    "unat (dm_start m') + length (dm_data m') =
      (if dm_data m = [] then unat k + 1 else max (unat k + 1) (unat (dm_start m) + length (dm_data m)))"
    "unat (dm_start m') \<le> unat k" "unat k < unat (dm_start m') + length (dm_data m')"
    "n < 2 ^ 64 \<Longrightarrow> DenseMap_slot m' n = DenseMap_slot m n"
    "some_count (dm_data m') = some_count (dm_data m)"
    "unat (dm_start m') + length (dm_data m') < 2 ^ 64"
proof -
  have m: "unat (dm_start m) + length (dm_data m) < 2 ^ 64" and k: "unat k \<le> unat (k + 1)"
    "unat (k + 1) = unat k + 1" "unat k + 1 < 2 ^ 64"
    using assms unat_succ [of k] by (simp_all add: DenseMap_ok_def DenseMap_key_ok_def)
  show 1: "unat (dm_start m') = (if dm_data m = [] then unat k else min (unat k) (unat (dm_start m)))"
    and 2: "unat (dm_start m') + length (dm_data m') =
      (if dm_data m = [] then unat k + 1 else max (unat k + 1) (unat (dm_start m) + length (dm_data m)))"
    unfolding m'_def using reserve_shape [OF m k(1)] k(2) by simp_all
  show "unat (dm_start m') \<le> unat k" using 1 by simp
  show "unat k < unat (dm_start m') + length (dm_data m')"
    "unat (dm_start m') + length (dm_data m') < 2 ^ 64" unfolding 2 using m k by (auto simp: max_def)
  show "n < 2 ^ 64 \<Longrightarrow> DenseMap_slot m' n = DenseMap_slot m n"
    using reserve_content(1) [OF m k(1)] by (simp add: slot_lookup m'_def)
  show "some_count (dm_data m') = some_count (dm_data m)"
    unfolding m'_def by (rule reserve_content(2) [OF m k(1)])
qed

lemma DenseMap_at_shape:
  fixes d :: 'v
  assumes "DenseMap_ok m" and "DenseMap_key_ok k"
  defines "m' \<equiv> DenseMap_at d m k" and "r \<equiv> DenseMap_reserve m k (k + 1)"
  shows "dm_start m' = dm_start r" "length (dm_data m') = length (dm_data r)"
    "n < 2 ^ 64 \<Longrightarrow> DenseMap_slot m' n = (if n = unat k \<and> DenseMap_slot m n = None then Some d else DenseMap_slot m n)"
    "unat (dm_count m') = some_count (dm_data m')"
proof -
  note r = reserve_key [OF assms(1,2), folded r_def]
  define i where "i = unat (k - dm_start r)"
  have i: "i < length (dm_data r)" "dm_data r ! i = DenseMap_slot m (unat k)"
  proof -
    have i': "i = unat k - unat (dm_start r)" using r(3) by (simp add: i_def unat_sub word_le_nat_alt)
    then show "i < length (dm_data r)" using r(3,4) by simp
    show "dm_data r ! i = DenseMap_slot m (unat k)"
      using r(3,4) r(5) [of "unat k"] unat_lt_64 [of k] i' by (simp add: DenseMap_slot_def)
  qed
  have m': "m' = (if DenseMap_slot m (unat k) = None
      then r\<lparr>dm_data := (dm_data r)[i := Some d], dm_count := dm_count r + 1\<rparr> else r)"
    using i by (simp add: m'_def DenseMap_at_def Let_def r_def i_def)
  show "dm_start m' = dm_start r" "length (dm_data m') = length (dm_data r)"
    by (simp_all add: m')
  show "n < 2 ^ 64 \<Longrightarrow> DenseMap_slot m' n = (if n = unat k \<and> DenseMap_slot m n = None then Some d else DenseMap_slot m n)"
    using slot_update [OF r(3,4), where x = "Some d" and c = "dm_count r + 1" and n = n] r(5) by (auto simp: m' i_def)
  have c: "unat (dm_count r) = some_count (dm_data r)"
    using assms(1) r(6) by (simp add: DenseMap_ok_def r_def)
  show "unat (dm_count m') = some_count (dm_data m')"
  proof (cases "DenseMap_slot m (unat k) = None")
    case True
    have "unat (dm_count r) + 1 < 2 ^ 64"
      using some_count_update [OF i(1), of d] some_count_le [of "(dm_data r)[i := Some d]"] r(7) True i(2) c
      by simp
    then show ?thesis
      using True i c unat_plus_nat [of "dm_count r" 1] by (simp add: m' some_count_update)
  qed (use c in \<open>auto simp: m'\<close>)
qed

lemma DenseMap_at_ok:
  assumes "DenseMap_ok m" and "DenseMap_key_ok k"
  shows "DenseMap_ok (DenseMap_at d m k)"
proof -
  note r = reserve_key [OF assms] and a = DenseMap_at_shape [OF assms, where d = d]
  show ?thesis
    unfolding DenseMap_ok_slots a(1,2,4)
    using assms(1) r(1,2,7) a(3) by (auto simp: DenseMap_ok_slots min_def max_def)
qed

lemma DenseMap_at_lookup:
  assumes "DenseMap_ok m" and "DenseMap_key_ok k"
  shows "DenseMap_lookup (DenseMap_at d m k) j =
    (if j = k \<and> DenseMap_lookup m k = None then Some d else DenseMap_lookup m j)"
  using DenseMap_at_shape(3) [OF assms, of "unat j" d] unat_lt_64 [of j]
  by (auto simp: lookup_slot dest: unsigned_word_eqI)

lemma lookup_Some_range:
  assumes "DenseMap_lookup m k = Some v"
  shows "unat (dm_start m) \<le> unat k" "unat k < unat (dm_start m) + length (dm_data m)"
    "dm_data m ! unat (k - dm_start m) = Some v" "unat (k - dm_start m) < length (dm_data m)"
  using assms by (auto simp: DenseMap_lookup_def Let_def word_le_nat_alt unat_sub split: if_splits)

lemma assign_slot:
  assumes "DenseMap_lookup m k \<noteq> None"
  shows "DenseMap_slot (DenseMap_assign m k v) n = (if n = unat k then Some v else DenseMap_slot m n)"
proof -
  obtain w where w: "DenseMap_lookup m k = Some w" using assms by auto
  show ?thesis
    using slot_update [OF lookup_Some_range(1,2) [OF w], where x = "Some v" and c = "dm_count m" and n = n]
    by (simp add: DenseMap_assign_def)
qed

lemma DenseMap_assign_lookup:
  assumes "DenseMap_lookup m k \<noteq> None"
  shows "DenseMap_lookup (DenseMap_assign m k v) j = (if j = k then Some v else DenseMap_lookup m j)"
  by (auto simp: lookup_slot assign_slot [OF assms] dest: unsigned_word_eqI)

lemma DenseMap_assign_ok:
  assumes m: "DenseMap_ok m" and k: "DenseMap_lookup m k \<noteq> None"
  shows "DenseMap_ok (DenseMap_assign m k v)"
proof -
  obtain w where w: "DenseMap_lookup m k = Some w" using k by auto
  have "dm_start (DenseMap_assign m k v) = dm_start m" "dm_count (DenseMap_assign m k v) = dm_count m"
    "length (dm_data (DenseMap_assign m k v)) = length (dm_data m)"
    "some_count (dm_data (DenseMap_assign m k v)) = some_count (dm_data m)"
    using lookup_Some_range(3,4) [OF w] by (simp_all add: DenseMap_assign_def some_count_replace)
  moreover from this have "dm_data (DenseMap_assign m k v) = [] \<longleftrightarrow> dm_data m = []"
    by (metis length_0_conv)
  ultimately show ?thesis
    using m by (simp add: DenseMap_ok_slots assign_slot [OF k])
qed

text \<open>\<open>operator[]\<close> on a key that has a value changes nothing.\<close>

lemma DenseMap_at_existing:
  assumes m: "DenseMap_ok m" and k: "DenseMap_lookup m k = Some v"
  shows "DenseMap_at d m k = m"
proof -
  note r = lookup_Some_range [OF k]
  have ok: "DenseMap_key_ok k" using r(2) m by (simp add: DenseMap_ok_def DenseMap_key_ok_def)
  have "unat (k + 1 - dm_start m) = unat k + 1 - unat (dm_start m)"
    using r(1) unat_succ [OF ok] by (simp add: unat_sub word_le_nat_alt)
  then have "DenseMap_reserve m k (k + 1) = m"
    using r by (auto simp: DenseMap_reserve_def word_less_nat_alt)
  then show ?thesis using r(3) by (simp add: DenseMap_at_def Let_def)
qed

interpretation dense: key_map DenseMap_lookup DenseMap_at DenseMap_ref DenseMap_assign DenseMap_ok DenseMap_key_ok
  by unfold_locales
    (simp_all add: DenseMap_at_ok DenseMap_at_lookup DenseMap_assign_ok DenseMap_assign_lookup
      DenseMap_ref_def lookup_Some_range(3))

section \<open>Iteration\<close>

fun slots_from :: "u64 \<Rightarrow> 'v option list \<Rightarrow> (u64 \<times> 'v) list" where
  "slots_from k [] = []"
| "slots_from k (None # xs) = slots_from (k + 1) xs"
| "slots_from k (Some v # xs) = (k, v) # slots_from (k + 1) xs"

lemma Iter_skip_slots:
  "slots_from (fst (DenseMap_Iter_skip k xs)) (snd (DenseMap_Iter_skip k xs)) = slots_from k xs"
  by (induction k xs rule: DenseMap_Iter_skip.induct) auto

lemma Iter_skip_hd:
  "snd (DenseMap_Iter_skip k xs) = [] \<or> hd (snd (DenseMap_Iter_skip k xs)) \<noteq> None"
  by (induction k xs rule: DenseMap_Iter_skip.induct) auto

lemma Iter_loop_slots:
  "xs = [] \<or> hd xs \<noteq> None \<Longrightarrow> DenseMap_Iter_loop k xs = ok (slots_from k xs)"
proof (induction k xs rule: DenseMap_Iter_loop.induct)
  case (3 k v xs)
  then show ?case using Iter_skip_hd [of "k + 1" xs] by (simp add: Iter_skip_slots)
qed simp_all

lemma set_slots_from:
  "unat k + length xs < 2 ^ 64 \<Longrightarrow>
   (j, v) \<in> set (slots_from k xs) \<longleftrightarrow>
     unat k \<le> unat j \<and> unat j < unat k + length xs \<and> xs ! (unat j - unat k) = Some v"
proof (induction k xs rule: slots_from.induct)
  case (2 k xs)
  have "unat (k + 1) = unat k + 1" using 2 unat_plus_nat [of k 1] by simp
  then show ?case using 2 by (auto simp: nth_Cons' Suc_le_eq)
next
  case (3 k w xs)
  have "unat (k + 1) = unat k + 1" using 3 unat_plus_nat [of k 1] by simp
  then show ?case using 3 by (auto simp: nth_Cons' Suc_le_eq dest: unsigned_word_eqI)
qed simp

lemma slots_from_sorted:
  "unat k + length xs < 2 ^ 64 \<Longrightarrow> sorted_wrt (<) (map fst (slots_from k xs))"
proof (induction k xs rule: slots_from.induct)
  case (2 k xs)
  have "unat (k + 1) = unat k + 1" using 2 unat_plus_nat [of k 1] by simp
  then show ?case using 2 by simp
next
  case (3 k w xs)
  have u: "unat (k + 1) = unat k + 1" using 3 unat_plus_nat [of k 1] by simp
  then have "k < j" if "(j, v) \<in> set (slots_from (k + 1) xs)" for j v
    using that 3 by (simp add: set_slots_from word_less_nat_alt)
  then show ?case using 3 u by auto
qed simp

lemma DenseMap_items_spec:
  assumes "DenseMap_ok m"
  shows "\<exists>kvs. DenseMap_items m = ok kvs \<and> sorted_wrt (<) (map fst kvs) \<and>
    set kvs = {(k, v). DenseMap_lookup m k = Some v}"
proof -
  have "dm_data m = [] \<or> hd (dm_data m) \<noteq> None" "unat (dm_start m) + length (dm_data m) < 2 ^ 64"
    using assms by (auto simp: DenseMap_ok_def)
  then show ?thesis
    by (intro exI [of _ "slots_from (dm_start m) (dm_data m)"])
      (auto simp: DenseMap_items_def DenseMap_lookup_nat Iter_loop_slots slots_from_sorted set_slots_from
        split: if_splits)
qed

section \<open>Merging\<close>

definition merge_slot :: "('v \<Rightarrow> 'v \<Rightarrow> 'v) \<Rightarrow> 'v option \<Rightarrow> 'v option \<Rightarrow> 'v option" where
  "merge_slot f i x = (case (x, i) of (None, _) \<Rightarrow> i | (Some v, Some w) \<Rightarrow> Some (f w v) | (Some v, None) \<Rightarrow> Some v)"

lemma merge_slot_simps [simp]:
  "merge_slot f i None = i" "merge_slot f None x = x" "merge_slot f (Some w) (Some v) = Some (f w v)"
  "merge_slot f i x = None \<longleftrightarrow> i = None \<and> x = None"
  by (auto simp: merge_slot_def split: option.splits)

definition merge_data :: "('v \<Rightarrow> 'v \<Rightarrow> 'v) \<Rightarrow> 'v option list \<Rightarrow> 'v option list \<Rightarrow> 'v option list" where
  "merge_data f is xs = map2 (merge_slot f) is xs @ drop (length xs) is"

lemma merge_data_simps [simp]:
  "merge_data f is [] = is" "merge_data f [] xs = []"
  "merge_data f (i # is) (x # xs) = merge_slot f i x # merge_data f is xs"
  by (simp_all add: merge_data_def)

lemma length_merge_data [simp]: "length (merge_data f is xs) = length is"
  by (simp add: merge_data_def)

lemma nth_merge_data:
  "j < length is \<Longrightarrow> merge_data f is xs ! j = (if j < length xs then merge_slot f (is ! j) (xs ! j) else is ! j)"
  by (simp add: merge_data_def nth_append)

lemma some_count_merge_data: "some_count is \<le> some_count (merge_data f is xs)"
  by (induction "is" xs rule: list_induct2') (auto split: option.splits)

lemma merge_loop_spec:
  "length xs \<le> length is \<Longrightarrow> DenseMap_merge_loop f is xs n =
     ok (merge_data f is xs, n + of_nat (some_count (merge_data f is xs) - some_count is))"
proof (induction "is" xs arbitrary: n rule: list_induct2')
  case (4 i "is" x xs)
  then show ?case
    using some_count_merge_data [of "is" f xs] by (cases x; cases i) (simp_all add: Suc_diff_le)
qed simp_all

lemma min_max_nat: "unat (min a b) = min (unat a) (unat (b :: u64))"
  by (simp add: min_def word_le_nat_alt)

lemma nth_merge_at:
  assumes "j < length ys" "i \<le> length ys"
  shows "(take i ys @ merge_data f (drop i ys) xs) ! j =
    (if i \<le> j \<and> j < i + length xs then merge_slot f (ys ! j) (xs ! (j - i)) else ys ! j)"
  using assms by (auto simp: nth_append nth_merge_data)

text \<open>Overlaying a vector that lies inside another one.\<close>

lemma overlay_slots:
  assumes i: "unat (dm_start r) + i = unat (dm_start x)" "i + length (dm_data x) \<le> length (dm_data r)"
  shows "DenseMap_slot (r\<lparr>dm_data := take i (dm_data r) @ merge_data f (drop i (dm_data r)) (dm_data x), dm_count := c\<rparr>) n =
    merge_slot f (DenseMap_slot r n) (DenseMap_slot x n)"
proof (cases "unat (dm_start r) \<le> n \<and> n < unat (dm_start r) + length (dm_data r)")
  case True
  then obtain j where j: "n = unat (dm_start r) + j" "j < length (dm_data r)"
    by (metis le_Suc_ex nat_add_left_cancel_less)
  have "DenseMap_slot x n = (if i \<le> j \<and> j < i + length (dm_data x) then dm_data x ! (j - i) else None)"
    using j i(1) [symmetric] by (auto simp: DenseMap_slot_def diff_diff_left [symmetric])
  then show ?thesis
    using j nth_merge_at [OF j(2), of i f "dm_data x"] i(2) by (simp add: DenseMap_slot_def)
next
  case False
  then show ?thesis using i by (auto simp: DenseMap_slot_def)
qed

lemma overlay_count:
  "some_count (take i ys @ merge_data f (drop i ys) xs) =
     some_count ys + (some_count (merge_data f (drop i ys) xs) - some_count (drop i ys))"
  using some_count_merge_data [of "drop i ys" f xs] some_count_append [of "take i ys" "drop i ys"]
  by simp

text \<open>The range that \<open>merge\<close> reserves.\<close>

lemma merge_reserve:
  assumes m: "DenseMap_ok m" "dm_data m \<noteq> []" and x: "DenseMap_ok x"
  defines "r \<equiv> DenseMap_reserve m (min (dm_start m) (dm_start x)) (max (DenseMap_finish m) (DenseMap_finish x))"
  shows "unat (dm_start r) = min (unat (dm_start m)) (unat (dm_start x))"
    "unat (dm_start r) + length (dm_data r) =
       max (unat (dm_start m) + length (dm_data m)) (unat (dm_start x) + length (dm_data x))"
    "unat (dm_start r) + unat (dm_start x - dm_start r) = unat (dm_start x)"
    "unat (dm_start x - dm_start r) + length (dm_data x) \<le> length (dm_data r)"
    "n < 2 ^ 64 \<Longrightarrow> DenseMap_slot r n = DenseMap_slot m n"
    "unat (dm_count r) = some_count (dm_data r)"
proof -
  let ?a = "min (dm_start m) (dm_start x)" and ?b = "max (DenseMap_finish m) (DenseMap_finish x)"
  have bd: "unat (dm_start m) + length (dm_data m) < 2 ^ 64" "unat (dm_start x) + length (dm_data x) < 2 ^ 64"
    using m x by (simp_all add: DenseMap_ok_def)
  have ab: "unat ?a = min (unat (dm_start m)) (unat (dm_start x))"
    "unat ?b = max (unat (dm_start m) + length (dm_data m)) (unat (dm_start x) + length (dm_data x))"
    by (simp_all add: min_max_nat unat_max unat_finish [OF bd(1)] unat_finish [OF bd(2)])
  then have le: "unat ?a \<le> unat ?b" by simp
  note rs = reserve_shape [OF bd(1) le, folded r_def] and rc = reserve_content [OF bd(1) le, folded r_def]
  show 1: "unat (dm_start r) = min (unat (dm_start m)) (unat (dm_start x))"
    and 2: "unat (dm_start r) + length (dm_data r) =
       max (unat (dm_start m) + length (dm_data m)) (unat (dm_start x) + length (dm_data x))"
    using rs m(2) ab by auto
  then show 3: "unat (dm_start r) + unat (dm_start x - dm_start r) = unat (dm_start x)"
    by (simp add: unat_sub word_le_nat_alt)
  show "unat (dm_start x - dm_start r) + length (dm_data x) \<le> length (dm_data r)"
    using 2 3 by simp
  show "n < 2 ^ 64 \<Longrightarrow> DenseMap_slot r n = DenseMap_slot m n"
    using rc(1) by (simp add: slot_lookup)
  show "unat (dm_count r) = some_count (dm_data r)"
    using m(1) rc(2) by (simp add: r_def DenseMap_ok_def)
qed

lemma merge_nonempty:
  assumes m: "DenseMap_ok m" "dm_data m \<noteq> []" and x: "DenseMap_ok x" "dm_data x \<noteq> []"
  shows "\<exists>r. DenseMap_merge m x f = ok r \<and> DenseMap_ok r \<and>
    (\<forall>n < 2 ^ 64. DenseMap_slot r n = merge_slot f (DenseMap_slot m n) (DenseMap_slot x n))"
proof -
  define r where "r = DenseMap_reserve m (min (dm_start m) (dm_start x)) (max (DenseMap_finish m) (DenseMap_finish x))"
  define i where "i = unat (dm_start x - dm_start r)"
  note r = merge_reserve [OF m x(1), folded r_def, folded i_def]
  define c where "c = some_count (merge_data f (drop i (dm_data r)) (dm_data x)) - some_count (drop i (dm_data r))"
  define d where "d = take i (dm_data r) @ merge_data f (drop i (dm_data r)) (dm_data x)"
  define R where "R = r\<lparr>dm_data := d, dm_count := dm_count r + of_nat c\<rparr>"
  have R: "DenseMap_merge m x f = ok R"
    using m x r(4) merge_loop_spec [of "dm_data x" "drop i (dm_data r)" f]
    by (simp add: DenseMap_merge_def Let_def r_def [symmetric] i_def [symmetric] d_def R_def c_def)
  have len: "length d = length (dm_data r)" using r(4) by (simp add: d_def)
  have slot: "DenseMap_slot R n = merge_slot f (DenseMap_slot m n) (DenseMap_slot x n)" if "n < 2 ^ 64" for n
    using overlay_slots [OF r(3,4)] r(5) [OF that] by (simp add: R_def d_def)
  have lt: "unat (dm_start R) + length (dm_data R) < 2 ^ 64"
    using r(2) m(1) x(1) len by (simp add: R_def DenseMap_ok_def)
  have cnt: "unat (dm_count R) = some_count d"
  proof -
    have sc: "some_count d = some_count (dm_data r) + c" unfolding d_def c_def by (rule overlay_count)
    then have "unat (dm_count r) + c < 2 ^ 64"
      using some_count_le [of d] lt r(6) by (simp add: R_def)
    then show ?thesis using sc r(6) unat_plus_nat [of "dm_count r" c] by (simp add: R_def)
  qed
  have "DenseMap_slot R (unat (dm_start R)) \<noteq> None"
    "DenseMap_slot R (unat (dm_start R) + length (dm_data R) - 1) \<noteq> None"
    using m x r(1,2) len lt unfolding DenseMap_ok_slots
    by (auto simp: R_def [THEN arg_cong [of _ _ dm_start]] R_def [THEN arg_cong [of _ _ dm_data]] slot
        min_def max_def split: if_splits)
  then have "DenseMap_ok R" using cnt lt by (simp add: DenseMap_ok_slots R_def)
  with R slot show ?thesis by blast
qed

lemma DenseMap_merge_spec:
  assumes m: "DenseMap_ok m" and x: "DenseMap_ok x"
  shows "\<exists>r. DenseMap_merge m x f = ok r \<and> DenseMap_ok r \<and>
    (\<forall>k. DenseMap_lookup r k = merge_slot f (DenseMap_lookup m k) (DenseMap_lookup x k))"
proof -
  consider "dm_data x = []" | "dm_data x \<noteq> []" "dm_data m = []" | "dm_data x \<noteq> []" "dm_data m \<noteq> []"
    by blast
  then show ?thesis
  proof cases
    case 1
    then show ?thesis using m by (auto simp: DenseMap_merge_def DenseMap_lookup_nat)
  next
    case 2
    then show ?thesis using x by (auto simp: DenseMap_merge_def DenseMap_lookup_nat)
  next
    case 3
    then show ?thesis using merge_nonempty [OF m 3(2) x 3(1), of f] unat_lt_64 by (auto simp: lookup_slot)
  qed
qed

text \<open>
  Merging two maps: \<open>DenseMap::merge\<close> never walks past the end of its vector, keeps the
  invariant of the map (the first and the last slot are filled and \<open>count\<close> is the number of keys)
  and maps every key to the value of the map that has it, or to the combined value where both have.
\<close>

theorem DenseMap_merge_combines:
  assumes "DenseMap_ok m" and "DenseMap_ok other"
  shows "\<exists>r. DenseMap_merge m other f = ok r \<and> DenseMap_ok r \<and>
    (\<forall>k. DenseMap_lookup r k = (case (DenseMap_lookup m k, DenseMap_lookup other k) of
        (Some v, Some w) \<Rightarrow> Some (f v w) | (Some v, None) \<Rightarrow> Some v | (None, w) \<Rightarrow> w))"
proof -
  obtain r where "DenseMap_merge m other f = ok r" "DenseMap_ok r"
    "\<forall>k. DenseMap_lookup r k = merge_slot f (DenseMap_lookup m k) (DenseMap_lookup other k)"
    using DenseMap_merge_spec [OF assms] by blast
  then show ?thesis by (auto simp: merge_slot_def split: option.splits)
qed

theorem DenseMap_merge_combines_witness:
  "\<exists>r. DenseMap_merge (DenseMap_at (1 :: nat) (DenseMap_at 1 DenseMap_new 7) 4) (DenseMap_at 2 DenseMap_new 4) (+) = ok r \<and>
    DenseMap_ok r \<and> DenseMap_lookup r 4 = Some 3 \<and> DenseMap_lookup r 7 = Some 1 \<and> DenseMap_lookup r 5 = None"
proof -
  have ok: "DenseMap_ok (DenseMap_at (1 :: nat) (DenseMap_at 1 DenseMap_new 7) 4)" "DenseMap_ok (DenseMap_at (2 :: nat) DenseMap_new 4)"
    by (simp_all add: DenseMap_at_ok DenseMap_key_ok_def)
  have l: "DenseMap_lookup (DenseMap_at (1 :: nat) (DenseMap_at 1 DenseMap_new 7) 4) k = (if k = 4 \<or> k = 7 then Some 1 else None)"
    "DenseMap_lookup (DenseMap_at (2 :: nat) DenseMap_new 4) k = (if k = 4 then Some 2 else None)" for k
    by (simp_all add: DenseMap_at_ok DenseMap_key_ok_def DenseMap_at_lookup)
  show ?thesis
    using DenseMap_merge_combines [OF ok, of "(+)"] unfolding l by (elim exE) (auto intro!: exI)
qed

text \<open>\<open>swap\<close> leaves the counts behind: swapping an empty and a one-element map breaks both.\<close>

lemma DenseMap_swap_breaks_count:
  "\<not> DenseMap_ok (fst (DenseMap_swap DenseMap_new (DenseMap_at (0 :: nat) DenseMap_new 5)))"
  by (simp add: DenseMap_swap_def DenseMap_new_def DenseMap_at_def DenseMap_reserve_def DenseMap_ok_def
      vresize_def Let_def)

end
