(* ===== verification/Define_Iface.thy ===== *)
theory Define_Iface
  imports Lookups
begin

text \<open>
  The interface \<open>Define\<close> of \<^verbatim>\<open>rts/define.h\<close>: a lookup to which facts can be added. The state of the
  object is explicit: \<open>view\<close> is the object as a \<open>Lookup\<close>, \<open>facts\<close> the facts it gives access to,
  and \<open>define\<close> returns the id and the new state. \<open>args_ok\<close> says for which arguments the
  implementation makes its promise.
\<close>

section \<open>The contract of Define\<close>

definition new_fact :: "Lookup \<Rightarrow> Pid \<Rightarrow> Clause \<Rightarrow> afact" where
  "new_fact L t c = \<lparr>a_id = firstFreeId L, a_type = t, a_key = Clause_key c, a_value = Clause_value c\<rparr>"

locale define_provider =
  fixes view :: "'s \<Rightarrow> Lookup"
    and facts :: "'s \<Rightarrow> afact list"
    and inv :: "'s \<Rightarrow> bool"
    and define_fact :: "'s \<Rightarrow> Pid \<Rightarrow> Clause \<Rightarrow> Id \<Rightarrow> (Id \<times> 's) result"
    and args_ok :: "'s \<Rightarrow> Pid \<Rightarrow> Clause \<Rightarrow> Id \<Rightarrow> bool"
  assumes contract: "inv s \<Longrightarrow> lookup_contract (view s) (facts s)"
    and define_existing: "inv s \<Longrightarrow> args_ok s t c m \<Longrightarrow> facts_by_key (facts s) t (Clause_key c) = Some a \<Longrightarrow>
      define_fact s t c m = ok (if a_value a = Clause_value c then a_id a else WordId_invalid, s)"
    and define_new: "inv s \<Longrightarrow> args_ok s t c m \<Longrightarrow> facts_by_key (facts s) t (Clause_key c) = None \<Longrightarrow>
      \<exists>s'. define_fact s t c m = ok (firstFreeId (view s), s') \<and> inv s' \<and>
        facts s' = facts s @ [new_fact (view s) t c] \<and>
        firstFreeId (view s') = firstFreeId (view s) + 1 \<and> startingId (view s') = startingId (view s)"
begin

lemma points: "inv s \<Longrightarrow> lookup_points (view s) (facts s)"
  using contract unfolding lookup_contract_def lookup_forward_def by blast

text \<open>What every call does, whichever branch it takes.\<close>

lemma define_total:
  assumes "inv s" "args_ok s t c m"
  shows "\<exists>i s'. define_fact s t c m = ok (i, s') \<and> inv s' \<and> (s' = s \<or>
    i = firstFreeId (view s) \<and> facts s' = facts s @ [new_fact (view s) t c] \<and>
    firstFreeId (view s') = firstFreeId (view s) + 1 \<and> startingId (view s') = startingId (view s))"
proof (cases "facts_by_key (facts s) t (Clause_key c)")
  case None
  then show ?thesis using define_new [OF assms] by blast
next
  case (Some a)
  then show ?thesis using define_existing [OF assms] assms(1) by auto
qed

text \<open>An id that \<open>define\<close> returns is the id of a fact with the given predicate, key and value.\<close>

lemma define_valid:
  assumes "inv s" "args_ok s t c m" "define_fact s t c m = ok (i, s')" "i \<noteq> WordId_invalid"
  shows "\<exists>a\<in>set (facts s'). a_id a = i \<and> a_type a = t \<and> a_key a = Clause_key c \<and> a_value a = Clause_value c"
proof (cases "facts_by_key (facts s) t (Clause_key c)")
  case None
  then show ?thesis using define_new [OF assms(1,2)] assms(3) by (auto simp: new_fact_def)
next
  case (Some a)
  then show ?thesis
    using define_existing [OF assms(1,2) Some] assms(3,4)
      facts_by_key_Some [OF lookup_points.facts_ok [OF points [OF assms(1)]]]
    by (auto split: if_splits)
qed

text \<open>The call fails only when the fact is there with another value.\<close>

lemma define_invalid:
  assumes "inv s" "args_ok s t c m" "define_fact s t c m = ok (WordId_invalid, s')"
  shows "s' = s \<and> (\<exists>a\<in>set (facts s). a_type a = t \<and> a_key a = Clause_key c \<and> a_value a \<noteq> Clause_value c)"
proof (cases "facts_by_key (facts s) t (Clause_key c)")
  case None
  have "firstFreeId (view s) \<noteq> WordId_invalid"
    using lookup_points.starting_valid lookup_points.starting_le points [OF assms(1)] by fastforce
  with None show ?thesis using define_new [OF assms(1,2)] assms(3) by auto
next
  case (Some a)
  then have a: "a \<in> set (facts s)" "a_type a = t" "a_key a = Clause_key c"
    using facts_by_key_Some [OF lookup_points.facts_ok [OF points [OF assms(1)]]] by auto
  then have "a_id a \<noteq> WordId_invalid" using lookup_points.fact_valid [OF points [OF assms(1)]] by blast
  then show ?thesis
    using define_existing [OF assms(1,2) Some] assms(3) a by (auto split: if_splits)
qed

text \<open>Defining a fact twice gives the same id and changes nothing the second time.\<close>

lemma define_idempotent:
  assumes "inv s" "args_ok s t c m" "define_fact s t c m = ok (i, s')" "i \<noteq> WordId_invalid"
    and "inv s'" "args_ok s' t c m'"
  shows "define_fact s' t c m' = ok (i, s')"
proof -
  obtain a where a: "a \<in> set (facts s')" "a_id a = i" "a_type a = t" "a_key a = Clause_key c" "a_value a = Clause_value c"
    using define_valid [OF assms(1-4)] by blast
  then have "facts_by_key (facts s') t (Clause_key c) = Some a"
    using facts_by_key_Some [OF lookup_points.facts_ok [OF points [OF assms(5)]]] by blast
  then show ?thesis using define_existing [OF assms(5,6)] a by simp
qed

end

end
