(* ===== verification/Fact_Set.thy ===== *)
theory Fact_Set
  imports Define_Iface Dense_Map
begin

text \<open>
  The in-memory set of facts of \<^verbatim>\<open>rts/factset.h\<close> and \<^verbatim>\<open>rts/factset.cpp\<close>. The facts are a vector, in
  the order of their ids; a \<open>DenseMap\<close> holds for each predicate the hash set of its facts by key
  (here the list of the facts in it); a second one, filled lazily by \<open>seek\<close>, holds for each
  predicate an ordered map from keys to facts (here the list of the facts in key order).
  \<open>FactSet_ok\<close> is the invariant that ties them together; \<open>factset\<close> interprets the contract of
  \<open>Define\<close> on the set.
\<close>

section \<open>Hash sets and ordered maps of facts\<close>

text \<open>\<open>FastSetBy<const Fact *, FactByKeyOnly>\<close>: \<open>find\<close> and \<open>insert\<close>.\<close>

definition keyset_find :: "Fact list \<Rightarrow> bytes \<Rightarrow> Fact option" where
  "keyset_find ks k = find (\<lambda>f. Fact_key f = k) ks"

definition keyset_insert :: "Fact list \<Rightarrow> Fact \<Rightarrow> (Fact \<times> bool) \<times> Fact list" where
  "keyset_insert ks f =
     (case keyset_find ks (Fact_key f) of
        Some g \<Rightarrow> ((g, False), ks)
      | None \<Rightarrow> ((f, True), ks @ [f]))"

definition keyset_insert_range :: "Fact list \<Rightarrow> Fact list \<Rightarrow> Fact list" where
  "keyset_insert_range ks fs = fold (\<lambda>f ks. snd (keyset_insert ks f)) fs ks"

text \<open>\<open>Index::map_t\<close>, a \<open>std::map<folly::ByteRange, const Fact *>\<close>.\<close>

definition index_insert :: "Fact \<Rightarrow> Fact list \<Rightarrow> Fact list" where
  "index_insert f m = (if \<exists>g\<in>set m. Fact_key g = Fact_key f then m else insort_key Fact_key f m)"

definition index_lower_bound :: "Fact list \<Rightarrow> bytes \<Rightarrow> nat" where
  "index_lower_bound m k = length (takeWhile (\<lambda>f. Fact_key f < k) m)"

section \<open>Iterators over positions\<close>

text \<open>The iterators of \<open>enumerate\<close> and \<open>seek\<close>: two positions in a sequence of facts.\<close>

record RangeIterator =
  ri_facts :: "Fact list"
  ri_pos :: nat
  ri_end :: nat

definition RangeIterator_get :: "Demand \<Rightarrow> RangeIterator \<Rightarrow> Ref \<times> RangeIterator" where
  "RangeIterator_get d it =
     (if ri_pos it \<noteq> ri_end it then Fact_ref (ri_facts it ! ri_pos it) else Ref_invalid, it)"

definition RangeIterator_next :: "RangeIterator \<Rightarrow> RangeIterator result" where
  "RangeIterator_next it =
     (if ri_pos it = ri_end it then raise Undefined else ok (it\<lparr>ri_pos := ri_pos it + 1\<rparr>))"

definition RangeIterator_items :: "RangeIterator \<Rightarrow> Ref list" where
  "RangeIterator_items it = map (\<lambda>i. Fact_ref (ri_facts it ! i)) [ri_pos it ..< ri_end it]"

definition BackIterator_get :: "Demand \<Rightarrow> RangeIterator \<Rightarrow> Ref \<times> RangeIterator" where
  "BackIterator_get d it =
     (if ri_pos it \<noteq> ri_end it then Fact_ref (ri_facts it ! (ri_pos it - 1)) else Ref_invalid, it)"

definition BackIterator_next :: "RangeIterator \<Rightarrow> RangeIterator result" where
  "BackIterator_next it =
     (if ri_pos it = ri_end it then raise Undefined else ok (it\<lparr>ri_pos := ri_pos it - 1\<rparr>))"

definition BackIterator_items :: "RangeIterator \<Rightarrow> Ref list" where
  "BackIterator_items it = rev (map (\<lambda>i. Fact_ref (ri_facts it ! i)) [ri_end it ..< ri_pos it])"

section \<open>The set\<close>

record FactSet =
  starting_id :: Id
  fs_facts :: "Fact list"
  fs_keys :: "Fact list DenseMap"
  fact_memory :: u64
  fs_index :: "Fact list DenseMap"

definition FactSet_new :: "Id \<Rightarrow> FactSet" where
  "FactSet_new start =
     \<lparr>starting_id = start, fs_facts = [], fs_keys = DenseMap_new, fact_memory = 0, fs_index = DenseMap_new\<rparr>"

definition FactSet_size :: "FactSet \<Rightarrow> nat" where
  "FactSet_size s = length (fs_facts s)"

definition FactSet_empty :: "FactSet \<Rightarrow> bool" where
  "FactSet_empty s \<longleftrightarrow> fs_facts s = []"

definition FactSet_lower_bound :: "FactSet \<Rightarrow> Id \<Rightarrow> nat" where
  "FactSet_lower_bound s i =
     (if i \<le> starting_id s then 0 else min (unat (distance (starting_id s) i)) (length (fs_facts s)))"

definition FactSet_upper_bound :: "FactSet \<Rightarrow> Id \<Rightarrow> nat" where
  "FactSet_upper_bound s i =
     (if i < starting_id s then 0 else min (unat (distance (starting_id s) i + 1)) (length (fs_facts s)))"

definition FactSet_firstFreeId :: "FactSet \<Rightarrow> Id" where
  "FactSet_firstFreeId s = WordId_plus (starting_id s) (of_nat (length (fs_facts s)))"

definition FactSet_idByKey :: "FactSet \<Rightarrow> Pid \<Rightarrow> bytes \<Rightarrow> Id" where
  "FactSet_idByKey s type key =
     (case DenseMap_lookup (fs_keys s) type of
        Some p \<Rightarrow> (case keyset_find p key of Some f \<Rightarrow> fact_id f | None \<Rightarrow> WordId_invalid)
      | None \<Rightarrow> WordId_invalid)"

definition FactSet_typeById :: "FactSet \<Rightarrow> Id \<Rightarrow> Pid" where
  "FactSet_typeById s i =
     (if i \<ge> starting_id s \<and> unat (distance (starting_id s) i) < length (fs_facts s)
      then fact_type (fs_facts s ! unat (distance (starting_id s) i)) else WordId_invalid)"

definition FactSet_factById :: "FactSet \<Rightarrow> Id \<Rightarrow> (Pid \<times> Clause) option" where
  "FactSet_factById s i =
     (if i \<ge> starting_id s \<and> unat (distance (starting_id s) i) < length (fs_facts s)
      then let f = fs_facts s ! unat (distance (starting_id s) i) in Some (fact_type f, Fact_clause f)
      else None)"

definition FactSet_count :: "FactSet \<Rightarrow> Pid \<Rightarrow> Interval" where
  "FactSet_count s pid =
     (case DenseMap_lookup (fs_keys s) pid of
        Some p \<Rightarrow> Interval_of (of_nat (length p))
      | None \<Rightarrow> Interval_of 0)"

definition FactSet_enumerate :: "FactSet \<Rightarrow> Id \<Rightarrow> Id \<Rightarrow> FactIterator" where
  "FactSet_enumerate s a b =
     RangeIterator_items
       \<lparr>ri_facts = fs_facts s, ri_pos = FactSet_lower_bound s a,
        ri_end = (if WordId_bool b then FactSet_lower_bound s b else length (fs_facts s))\<rparr>"

definition FactSet_enumerateBack :: "FactSet \<Rightarrow> Id \<Rightarrow> Id \<Rightarrow> FactIterator" where
  "FactSet_enumerateBack s a b =
     BackIterator_items
       \<lparr>ri_facts = fs_facts s,
        ri_pos = (if WordId_bool a then FactSet_lower_bound s a else length (fs_facts s)),
        ri_end = FactSet_lower_bound s b\<rparr>"

text \<open>\<open>seek\<close> refreshes the index of the predicate when its size is not that of the key set.\<close>

definition FactSet_refresh :: "FactSet \<Rightarrow> Pid \<Rightarrow> Fact list \<Rightarrow> FactSet" where
  "FactSet_refresh s type p =
     (let ix = DenseMap_at [] (fs_index s) type; m = DenseMap_ref ix type in
      s\<lparr>fs_index := (if length m = length p then ix
                     else DenseMap_assign ix type (fold index_insert p []))\<rparr>)"

definition FactSet_seek :: "FactSet \<Rightarrow> Pid \<Rightarrow> bytes \<Rightarrow> nat \<Rightarrow> FactIterator \<times> FactSet" where
  "FactSet_seek s type start n =
     (case DenseMap_lookup (fs_keys s) type of
        None \<Rightarrow> (EmptyIterator, s)
      | Some p \<Rightarrow>
          let s' = FactSet_refresh s type p;
              m = DenseMap_ref (fs_index s') type;
              next = lexicographicallyNext (take n start)
          in (RangeIterator_items
                \<lparr>ri_facts = m, ri_pos = index_lower_bound m start,
                 ri_end = (if next = [] then length m else index_lower_bound m next)\<rparr>, s'))"

definition FactSet_lookup :: "FactSet \<Rightarrow> Lookup" where
  "FactSet_lookup s =
     \<lparr>idByKey = FactSet_idByKey s, typeById = FactSet_typeById s, factById = FactSet_factById s,
      startingId = starting_id s, firstFreeId = FactSet_firstFreeId s, count = FactSet_count s,
      enumerate = FactSet_enumerate s, enumerateBack = FactSet_enumerateBack s,
      seek = (\<lambda>type start n. fst (FactSet_seek s type start n))\<rparr>"

definition FactSet_define :: "FactSet \<Rightarrow> Pid \<Rightarrow> Clause \<Rightarrow> Id \<Rightarrow> (Id \<times> FactSet) result" where
  "FactSet_define s type clause max_ref =
     (if key_size clause > MAX_KEY_SIZE then raise (RtsError ''key too large'')
      else
        let next_id = FactSet_firstFreeId s;
            fact = Fact_create \<lparr>ref_id = next_id, ref_type = type, ref_clause = clause\<rparr> 0;
            keys = DenseMap_at [] (fs_keys s) type
        in case keyset_insert (DenseMap_ref keys type) fact of
             ((r, True), kmap) \<Rightarrow>
               ok (next_id, s\<lparr>fs_keys := DenseMap_assign keys type kmap,
                              fact_memory := fact_memory s + Fact_size fact,
                              fs_facts := fs_facts s @ [fact]\<rparr>)
           | ((r, False), kmap) \<Rightarrow>
               ok (if Fact_value fact = Fact_value r then fact_id r else WordId_invalid,
                   s\<lparr>fs_keys := keys\<rparr>))"

definition FactSet_serialize :: "varint_enc \<Rightarrow> FactSet \<Rightarrow> Id \<times> nat \<times> bytes" where
  "FactSet_serialize enc s =
     (starting_id s, FactSet_size s,
      concat (map (\<lambda>f. Fact_serialize enc (fact_type f) (Fact_clause f)) (fs_facts s)))"

definition FactSet_append :: "FactSet \<Rightarrow> FactSet \<Rightarrow> FactSet result" where
  "FactSet_append s other =
     rbind (DenseMap_merge (fs_keys s) (fs_keys other) keyset_insert_range) (\<lambda>keys.
       ok (s\<lparr>fs_facts := fs_facts s @ fs_facts other, fs_keys := keys,
             fact_memory := fact_memory s + fact_memory other\<rparr>))"

definition FactSet_appendable :: "FactSet \<Rightarrow> FactSet \<Rightarrow> bool result" where
  "FactSet_appendable s other =
     (if FactSet_empty s \<or> FactSet_empty other then ok True
      else if FactSet_firstFreeId s \<noteq> starting_id other then ok False
      else rbind (DenseMap_items (fs_keys other)) (\<lambda>ks.
        ok (\<forall>(t, fs) \<in> set ks.
              case DenseMap_lookup (fs_keys s) t of
                Some p \<Rightarrow> (\<forall>f\<in>set fs. keyset_find p (Fact_key f) = None)
              | None \<Rightarrow> True)))"


section \<open>The iterators produce their items\<close>

definition RangeIterator_ok :: "RangeIterator \<Rightarrow> bool" where
  "RangeIterator_ok it \<longleftrightarrow> ri_pos it \<le> ri_end it \<and> ri_end it \<le> length (ri_facts it) \<and>
     (\<forall>f\<in>set (ri_facts it). fact_id f \<noteq> WordId_invalid)"

definition BackIterator_ok :: "RangeIterator \<Rightarrow> bool" where
  "BackIterator_ok it \<longleftrightarrow> ri_end it \<le> ri_pos it \<and> ri_pos it \<le> length (ri_facts it) \<and>
     (\<forall>f\<in>set (ri_facts it). fact_id f \<noteq> WordId_invalid)"

interpretation range_it:
  iterator_any RangeIterator_get RangeIterator_next RangeIterator_items RangeIterator_ok
proof
  fix it r d
  assume it: "RangeIterator_ok it"
  show "r \<in> set (RangeIterator_items it) \<Longrightarrow> Ref_bool r"
    using it by (auto simp: RangeIterator_items_def RangeIterator_ok_def Ref_bool_def)
  show "\<exists>it'. RangeIterator_get d it = (iter_get d (RangeIterator_items it), it') \<and>
      RangeIterator_ok it' \<and> RangeIterator_items it' = RangeIterator_items it"
    using it by (auto simp: RangeIterator_get_def RangeIterator_items_def RangeIterator_ok_def upt_conv_Cons)
  assume "RangeIterator_items it \<noteq> []"
  then show "\<exists>it'. RangeIterator_next it = ok it' \<and> RangeIterator_ok it' \<and>
      RangeIterator_items it' = tl (RangeIterator_items it)"
    using it by (auto simp: RangeIterator_next_def RangeIterator_items_def RangeIterator_ok_def upt_conv_Cons)
qed

interpretation back_it:
  iterator_any BackIterator_get BackIterator_next BackIterator_items BackIterator_ok
proof
  fix it r d
  assume it: "BackIterator_ok it"
  have upt: "[ri_end it ..< ri_pos it] = [ri_end it ..< ri_pos it - 1] @ [ri_pos it - 1]" if "ri_end it < ri_pos it"
    using that by (cases "ri_pos it") auto
  show "r \<in> set (BackIterator_items it) \<Longrightarrow> Ref_bool r"
    using it by (auto simp: BackIterator_items_def BackIterator_ok_def Ref_bool_def)
  show "\<exists>it'. BackIterator_get d it = (iter_get d (BackIterator_items it), it') \<and>
      BackIterator_ok it' \<and> BackIterator_items it' = BackIterator_items it"
    using it upt by (cases "ri_end it < ri_pos it")
      (auto simp: BackIterator_get_def BackIterator_items_def BackIterator_ok_def)
  assume "BackIterator_items it \<noteq> []"
  then have lt: "ri_end it < ri_pos it" by (auto simp: BackIterator_items_def)
  then show "\<exists>it'. BackIterator_next it = ok it' \<and> BackIterator_ok it' \<and>
      BackIterator_items it' = tl (BackIterator_items it)"
    using it upt [OF lt] by (auto simp: BackIterator_next_def BackIterator_items_def BackIterator_ok_def)
qed

section \<open>The invariant\<close>

definition keyset :: "FactSet \<Rightarrow> Pid \<Rightarrow> Fact list" where
  "keyset s t = (case DenseMap_lookup (fs_keys s) t of None \<Rightarrow> [] | Some p \<Rightarrow> p)"

definition FactSet_index :: "FactSet \<Rightarrow> Pid \<Rightarrow> Fact list" where
  "FactSet_index s t = (case DenseMap_lookup (fs_index s) t of None \<Rightarrow> [] | Some m \<Rightarrow> m)"

definition Fact_view :: "Fact \<Rightarrow> afact" where
  "Fact_view f = Ref_view (Fact_ref f)"

definition FactSet_facts :: "FactSet \<Rightarrow> afact list" where
  "FactSet_facts s = map Fact_view (fs_facts s)"

definition FactSet_ok :: "FactSet \<Rightarrow> bool" where
  "FactSet_ok s \<longleftrightarrow>
     WordId_invalid < starting_id s \<and> unat (starting_id s) + length (fs_facts s) < 2 ^ 64 \<and>
     (\<forall>i < length (fs_facts s). fact_id (fs_facts s ! i) = starting_id s + of_nat i) \<and>
     (\<forall>f\<in>set (fs_facts s). DenseMap_key_ok (fact_type f)) \<and>
     DenseMap_ok (fs_keys s) \<and> DenseMap_ok (fs_index s) \<and>
     (\<forall>t. set (keyset s t) = {f \<in> set (fs_facts s). fact_type f = t} \<and> distinct (map Fact_key (keyset s t))) \<and>
     (\<forall>t. set (FactSet_index s t) \<subseteq> set (keyset s t) \<and> sorted_wrt (<) (map Fact_key (FactSet_index s t))) \<and>
     fact_memory s = sum_list (map Fact_size (fs_facts s))"

lemma Fact_view_simps [simp]:
  "a_id (Fact_view f) = fact_id f" "a_type (Fact_view f) = fact_type f"
  "a_key (Fact_view f) = Fact_key f" "a_value (Fact_view f) = Fact_value f"
  by (simp_all add: Fact_view_def)

lemma FactSet_new_ok: "WordId_invalid < start \<Longrightarrow> FactSet_ok (FactSet_new start)"
  using unat_lt_64 [of start] by (simp add: FactSet_ok_def FactSet_new_def keyset_def FactSet_index_def)

lemma FactSet_facts_new [simp]: "FactSet_facts (FactSet_new start) = []"
  by (simp add: FactSet_facts_def FactSet_new_def)

text \<open>The parts of the invariant.\<close>

lemma FactSet_okD:
  assumes "FactSet_ok s"
  shows "WordId_invalid < starting_id s" "unat (starting_id s) + length (fs_facts s) < 2 ^ 64"
    "\<And>i. i < length (fs_facts s) \<Longrightarrow> fact_id (fs_facts s ! i) = starting_id s + of_nat i"
    "\<And>f. f \<in> set (fs_facts s) \<Longrightarrow> DenseMap_key_ok (fact_type f)"
    "DenseMap_ok (fs_keys s)" "DenseMap_ok (fs_index s)"
    "\<And>t. set (keyset s t) = {f \<in> set (fs_facts s). fact_type f = t}" "\<And>t. distinct (map Fact_key (keyset s t))"
    "\<And>t. set (FactSet_index s t) \<subseteq> set (keyset s t)" "\<And>t. sorted_wrt (<) (map Fact_key (FactSet_index s t))"
    "fact_memory s = sum_list (map Fact_size (fs_facts s))"
  using assms unfolding FactSet_ok_def by blast+

lemma FactSet_okI:
  assumes "WordId_invalid < starting_id s" "unat (starting_id s) + length (fs_facts s) < 2 ^ 64"
    "\<And>i. i < length (fs_facts s) \<Longrightarrow> fact_id (fs_facts s ! i) = starting_id s + of_nat i"
    "\<And>f. f \<in> set (fs_facts s) \<Longrightarrow> DenseMap_key_ok (fact_type f)"
    "DenseMap_ok (fs_keys s)" "DenseMap_ok (fs_index s)"
    "\<And>t. set (keyset s t) = {f \<in> set (fs_facts s). fact_type f = t}" "\<And>t. distinct (map Fact_key (keyset s t))"
    "\<And>t. set (FactSet_index s t) \<subseteq> set (keyset s t)" "\<And>t. sorted_wrt (<) (map Fact_key (FactSet_index s t))"
    "fact_memory s = sum_list (map Fact_size (fs_facts s))"
  shows "FactSet_ok s"
  using assms unfolding FactSet_ok_def by blast

lemma FactSet_unat_id:
  assumes "FactSet_ok s" "i < length (fs_facts s)"
  shows "unat (fact_id (fs_facts s ! i)) = unat (starting_id s) + i"
  using FactSet_okD(2,3) [OF assms(1)] assms(2) by (simp add: unat_plus_nat)

lemma FactSet_unat_firstFree:
  "FactSet_ok s \<Longrightarrow> unat (FactSet_firstFreeId s) = unat (starting_id s) + length (fs_facts s)"
  using FactSet_okD(2) [of s] by (simp add: FactSet_firstFreeId_def WordId_plus_def unat_plus_nat)

lemma FactSet_fact_bounds:
  assumes "FactSet_ok s" "f \<in> set (fs_facts s)"
  shows "starting_id s \<le> fact_id f" "fact_id f < FactSet_firstFreeId s" "fact_id f \<noteq> WordId_invalid"
proof -
  obtain i where i: "i < length (fs_facts s)" "f = fs_facts s ! i"
    using assms(2) by (auto simp: in_set_conv_nth)
  then show 1: "starting_id s \<le> fact_id f" and "fact_id f < FactSet_firstFreeId s"
    using FactSet_unat_id [OF assms(1) i(1)] FactSet_unat_firstFree [OF assms(1)]
    by (simp_all add: word_le_nat_alt word_less_nat_alt)
  show "fact_id f \<noteq> WordId_invalid"
    using 1 FactSet_okD(1) [OF assms(1)] by auto
qed

lemma keyset_find_Some:
  assumes "FactSet_ok s"
  shows "keyset_find (keyset s t) k = Some f \<longleftrightarrow> f \<in> set (fs_facts s) \<and> fact_type f = t \<and> Fact_key f = k"
proof -
  have "keyset_find (keyset s t) k = Some f \<longleftrightarrow> f \<in> set (keyset s t) \<and> Fact_key f = k"
    unfolding keyset_find_def using FactSet_okD(8) [OF assms, of t]
    by (intro find_unique) (auto simp: distinct_map dest: inj_onD)
  then show ?thesis using FactSet_okD(7) [OF assms] by auto
qed

lemma FactSet_facts_ok:
  assumes s: "FactSet_ok s"
  shows "facts_ok (FactSet_facts s)"
  unfolding facts_ok_def
proof
  have "fact_id (fs_facts s ! i) < fact_id (fs_facts s ! j)" if "i < j" "j < length (fs_facts s)" for i j
    using that FactSet_unat_id [OF s] by (simp add: word_less_nat_alt)
  then show id: "sorted_wrt (<) (map a_id (FactSet_facts s))"
    by (simp add: FactSet_facts_def sorted_wrt_iff_nth_less)
  have "distinct (fs_facts s)"
    using id unfolding strict_sorted_iff FactSet_facts_def by (simp add: distinct_map comp_def)
  moreover have "f = g" if "f \<in> set (fs_facts s)" "g \<in> set (fs_facts s)" "fact_type f = fact_type g" "Fact_key f = Fact_key g" for f g
    using that keyset_find_Some [OF s, of "fact_type f" "Fact_key f"] by (metis option.inject)
  ultimately show "distinct (map (\<lambda>a. (a_type a, a_key a)) (FactSet_facts s))"
    by (auto simp: FactSet_facts_def distinct_map inj_on_def)
qed

section \<open>The set as a lookup\<close>

lemma facts_by_key_view:
  assumes s: "FactSet_ok s"
  shows "facts_by_key (FactSet_facts s) t k = map_option Fact_view (keyset_find (keyset s t) k)"
proof (cases "keyset_find (keyset s t) k")
  case None
  then have "\<not> (f \<in> set (fs_facts s) \<and> fact_type f = t \<and> Fact_key f = k)" for f
    using keyset_find_Some [OF s, of t k f] by simp
  then show ?thesis using None by (auto simp: facts_by_key_None FactSet_facts_def)
next
  case (Some f)
  then show ?thesis
    using keyset_find_Some [OF s, of t k f] facts_by_key_Some [OF FactSet_facts_ok [OF s]]
    by (simp add: FactSet_facts_def)
qed

lemma FactSet_position:
  assumes s: "FactSet_ok s"
  shows "i \<ge> starting_id s \<and> unat (distance (starting_id s) i) < length (fs_facts s) \<longleftrightarrow>
    (\<exists>j < length (fs_facts s). unat i = unat (starting_id s) + j)"
    and "j < length (fs_facts s) \<Longrightarrow> unat i = unat (starting_id s) + j \<Longrightarrow> unat (distance (starting_id s) i) = j"
  by (auto simp: unat_distance word_le_nat_alt)

lemma facts_by_id_view:
  assumes s: "FactSet_ok s"
  shows "facts_by_id (FactSet_facts s) i =
    (if i \<ge> starting_id s \<and> unat (distance (starting_id s) i) < length (fs_facts s)
     then Some (Fact_view (fs_facts s ! unat (distance (starting_id s) i))) else None)"
proof (cases "\<exists>j < length (fs_facts s). unat i = unat (starting_id s) + j")
  case True
  then obtain j where j: "j < length (fs_facts s)" "unat i = unat (starting_id s) + j" by blast
  then have "fact_id (fs_facts s ! j) = i"
    using FactSet_unat_id [OF s j(1)] by (metis unsigned_word_eqI)
  then have "facts_by_id (FactSet_facts s) i = Some (Fact_view (fs_facts s ! j))"
    using j(1) facts_by_id_Some [OF FactSet_facts_ok [OF s]] by (auto simp: FactSet_facts_def)
  then show ?thesis
    using True FactSet_position(1) [OF s, of i] FactSet_position(2) [OF s j] by simp
next
  case False
  then have "fact_id f \<noteq> i" if "f \<in> set (fs_facts s)" for f
    using that FactSet_unat_id [OF s] by (auto simp: in_set_conv_nth)
  then have "facts_by_id (FactSet_facts s) i = None"
    by (auto simp: facts_by_id_None FactSet_facts_def)
  then show ?thesis using False FactSet_position(1) [OF s, of i] by simp
qed

lemma keyset_length:
  assumes s: "FactSet_ok s"
  shows "length (keyset s t) = length (filter (\<lambda>a. a_type a = t) (FactSet_facts s))"
proof -
  have d: "distinct (fs_facts s)"
    using FactSet_facts_ok [OF s] by (auto simp: facts_ok_def FactSet_facts_def distinct_map)
  have "length (keyset s t) = card (set (keyset s t))"
    using FactSet_okD(8) [OF s, of t] by (simp add: distinct_map distinct_card)
  also have "set (keyset s t) = set (filter (\<lambda>f. fact_type f = t) (fs_facts s))"
    using FactSet_okD(7) [OF s, of t] by auto
  also have "card \<dots> = length (filter (\<lambda>f. fact_type f = t) (fs_facts s))"
    using d by (intro distinct_card distinct_filter)
  finally show ?thesis by (simp add: FactSet_facts_def filter_map comp_def)
qed

lemma FactSet_points:
  assumes s: "FactSet_ok s"
  shows "lookup_points (FactSet_lookup s) (FactSet_facts s)"
proof
  show "facts_ok (FactSet_facts s)" by (rule FactSet_facts_ok [OF s])
  show "WordId_invalid < startingId (FactSet_lookup s)"
    using FactSet_okD(1) [OF s] by (simp add: FactSet_lookup_def)
  show "startingId (FactSet_lookup s) \<le> firstFreeId (FactSet_lookup s)"
    using FactSet_unat_firstFree [OF s] by (simp add: FactSet_lookup_def word_le_nat_alt)
  fix a t k i
  show "a \<in> set (FactSet_facts s) \<Longrightarrow>
      startingId (FactSet_lookup s) \<le> a_id a \<and> a_id a < firstFreeId (FactSet_lookup s)"
    using FactSet_fact_bounds [OF s] by (auto simp: FactSet_lookup_def FactSet_facts_def)
  show "idByKey (FactSet_lookup s) t k = (case facts_by_key (FactSet_facts s) t k of
      None \<Rightarrow> WordId_invalid | Some a \<Rightarrow> a_id a)"
    unfolding facts_by_key_view [OF s]
    by (simp add: FactSet_lookup_def FactSet_idByKey_def keyset_def keyset_find_def split: option.splits)
  show "typeById (FactSet_lookup s) i = (case facts_by_id (FactSet_facts s) i of
      None \<Rightarrow> WordId_invalid | Some a \<Rightarrow> a_type a)"
    unfolding facts_by_id_view [OF s] by (simp add: FactSet_lookup_def FactSet_typeById_def)
  show "map_option clause_view (factById (FactSet_lookup s) i) =
      map_option afact_view (facts_by_id (FactSet_facts s) i)"
    unfolding facts_by_id_view [OF s]
    by (simp add: FactSet_lookup_def FactSet_factById_def Let_def clause_view_def afact_view_def
        Fact_key_def Fact_value_def)
  have "length (FactSet_facts s) < 2 ^ 64"
    using FactSet_okD(2) [OF s] by (simp add: FactSet_facts_def)
  then have "length (keyset s t) < 2 ^ 64"
    using keyset_length [OF s, of t] length_filter_le [of "\<lambda>a. a_type a = t" "FactSet_facts s"] by linarith
  then have "in_interval (length (keyset s t)) (count (FactSet_lookup s) t)"
    using in_interval_of [of "length (keyset s t)"]
    by (auto simp: FactSet_lookup_def FactSet_count_def keyset_def split: option.splits)
  then show "in_interval (length (filter (\<lambda>a. a_type a = t) (FactSet_facts s))) (count (FactSet_lookup s) t)"
    by (simp add: keyset_length [OF s])
qed

subsection \<open>Enumeration\<close>

lemma filter_upt:
  assumes "h \<le> n"
  shows "filter (\<lambda>i. l \<le> i \<and> i < h) [0..<n] = [l..<h]"
  by (rule sorted_distinct_set_unique) (use assms in \<open>auto intro: sorted_wrt_filter\<close>)

lemma lower_bound_iff:
  assumes s: "FactSet_ok s" and j: "j < length (fs_facts s)"
  shows "FactSet_lower_bound s i \<le> j \<longleftrightarrow> i \<le> fact_id (fs_facts s ! j)"
  using j FactSet_unat_id [OF s j]
  by (auto simp: FactSet_lower_bound_def unat_distance word_le_nat_alt)

lemma lower_bound_le: "FactSet_lower_bound s i \<le> length (fs_facts s)"
  by (simp add: FactSet_lower_bound_def)

lemma filter_nth_range:
  assumes "\<And>j. j < length xs \<Longrightarrow> P (xs ! j) \<longleftrightarrow> l \<le> j \<and> j < h" "h \<le> length xs"
  shows "filter P xs = map (\<lambda>i. xs ! i) [l..<h]"
proof -
  have "filter P xs = filter P (map (\<lambda>i. xs ! i) [0..<length xs])" by (simp add: map_nth)
  also have "\<dots> = map (\<lambda>i. xs ! i) (filter (\<lambda>i. P (xs ! i)) [0..<length xs])"
    by (simp add: filter_map comp_def)
  also have "filter (\<lambda>i. P (xs ! i)) [0..<length xs] = filter (\<lambda>i. l \<le> i \<and> i < h) [0..<length xs]"
    using assms(1) by (intro filter_cong) auto
  finally show ?thesis by (simp add: filter_upt [OF assms(2)])
qed

lemma FactSet_between:
  assumes s: "FactSet_ok s"
  shows "facts_between (FactSet_facts s) a b =
    map (\<lambda>i. Fact_view (fs_facts s ! i))
      [FactSet_lower_bound s a ..< if WordId_bool b then FactSet_lower_bound s b else length (fs_facts s)]"
    (is "_ = map _ [?l ..< ?h]")
proof -
  have "filter (\<lambda>f. a \<le> fact_id f \<and> (WordId_bool b \<longrightarrow> fact_id f < b)) (fs_facts s) =
      map (\<lambda>i. fs_facts s ! i) [?l ..< ?h]"
    using lower_bound_iff [OF s] by (intro filter_nth_range) (auto simp: not_le [symmetric] lower_bound_le)
  then show ?thesis
    by (simp add: facts_between_def FactSet_facts_def filter_map comp_def)
qed

lemma FactSet_enumerate_view:
  assumes "FactSet_ok s"
  shows "map Ref_view (FactSet_enumerate s a b) = facts_between (FactSet_facts s) a b"
  by (simp add: FactSet_enumerate_def RangeIterator_items_def FactSet_between [OF assms] Fact_view_def)

lemma FactSet_enumerateBack_view:
  assumes "FactSet_ok s"
  shows "map Ref_view (FactSet_enumerateBack s a b) = rev (facts_between (FactSet_facts s) b a)"
  by (simp add: FactSet_enumerateBack_def BackIterator_items_def FactSet_between [OF assms] Fact_view_def rev_map)

subsection \<open>Seeking\<close>

lemma DenseMap_lookup_key_ok: "DenseMap_ok m \<Longrightarrow> DenseMap_lookup m k = Some v \<Longrightarrow> DenseMap_key_ok k"
  using lookup_Some_range(2) [of m k v] by (simp add: DenseMap_ok_def DenseMap_key_ok_def)

lemma index_insert_set: "\<forall>g\<in>set m. Fact_key g \<noteq> Fact_key f \<Longrightarrow> set (index_insert f m) = insert f (set m)"
  by (simp add: index_insert_def set_insort_key)

lemma index_insert_sorted:
  "sorted_wrt (<) (map Fact_key m) \<Longrightarrow> sorted_wrt (<) (map Fact_key (index_insert f m))"
  by (auto simp: index_insert_def strict_sorted_iff sorted_insort_key distinct_map inj_on_def set_insort_key
      distinct_insort)

lemma index_fold:
  "distinct (map Fact_key (p @ m)) \<Longrightarrow> sorted_wrt (<) (map Fact_key m) \<Longrightarrow>
   set (fold index_insert p m) = set p \<union> set m \<and> sorted_wrt (<) (map Fact_key (fold index_insert p m))"
proof (induction p arbitrary: m)
  case (Cons f p)
  have s: "set (index_insert f m) = insert f (set m)"
    using Cons.prems by (intro index_insert_set) (auto, metis imageI)
  have so: "sorted_wrt (<) (map Fact_key (index_insert f m))" by (rule index_insert_sorted [OF Cons.prems(2)])
  have "distinct (map Fact_key (p @ index_insert f m))"
    using Cons.prems(1) so s by (auto simp: strict_sorted_iff)
  from Cons.IH [OF this so] s show ?case by auto
qed simp

lemma FactSet_refresh_simps [simp]:
  "starting_id (FactSet_refresh s t p) = starting_id s" "fs_facts (FactSet_refresh s t p) = fs_facts s"
  "fs_keys (FactSet_refresh s t p) = fs_keys s" "fact_memory (FactSet_refresh s t p) = fact_memory s"
  "keyset (FactSet_refresh s t p) = keyset s"
  by (simp_all add: FactSet_refresh_def Let_def keyset_def fun_eq_iff)

lemma FactSet_refresh_index:
  assumes s: "FactSet_ok s" and p: "DenseMap_lookup (fs_keys s) t = Some p"
  defines "s' \<equiv> FactSet_refresh s t p"
  shows "DenseMap_ok (fs_index s')"
    "\<exists>m. DenseMap_lookup (fs_index s') t = Some m \<and> set m = set p \<and> sorted_wrt (<) (map Fact_key m)"
    "j \<noteq> t \<Longrightarrow> DenseMap_lookup (fs_index s') j = DenseMap_lookup (fs_index s) j"
proof -
  let ?ix = "DenseMap_at [] (fs_index s) t"
  have k: "DenseMap_key_ok t" and i: "DenseMap_ok (fs_index s)" and pk: "keyset s t = p"
    using DenseMap_lookup_key_ok [OF FactSet_okD(5) [OF s] p] FactSet_okD(6) [OF s] p by (simp_all add: keyset_def)
  have ix: "DenseMap_ok ?ix" "DenseMap_lookup ?ix t = Some (FactSet_index s t)"
    using i k by (auto simp: dense.at_inv dense.at_lookup FactSet_index_def split: option.splits)
  have m: "DenseMap_ref ?ix t = FactSet_index s t" by (rule dense.ref_lookup [OF ix])
  have sub: "set (FactSet_index s t) \<subseteq> set p" "sorted_wrt (<) (map Fact_key (FactSet_index s t))"
    "distinct (map Fact_key p)"
    using FactSet_okD(8,9,10) [OF s, of t] pk by auto
  have s': "fs_index s' = (if length (FactSet_index s t) = length p then ?ix
      else DenseMap_assign ?ix t (fold index_insert p []))"
    by (simp add: s'_def FactSet_refresh_def Let_def m)
  have eq: "set (FactSet_index s t) = set p" if "length (FactSet_index s t) = length p"
    using that sub by (intro card_subset_eq) (auto simp: strict_sorted_iff distinct_map distinct_card)
  have f: "set (fold index_insert p []) = set p" "sorted_wrt (<) (map Fact_key (fold index_insert p []))"
    using index_fold [of p "[]"] sub(3) by auto
  show "DenseMap_ok (fs_index s')"
    using ix by (simp add: s' dense.assign_inv)
  show "\<exists>m. DenseMap_lookup (fs_index s') t = Some m \<and> set m = set p \<and> sorted_wrt (<) (map Fact_key m)"
    using ix eq f sub(2) by (auto simp: s' dense.assign_lookup)
  show "j \<noteq> t \<Longrightarrow> DenseMap_lookup (fs_index s') j = DenseMap_lookup (fs_index s) j"
    using ix i k by (auto simp: s' dense.assign_lookup dense.at_lookup)
qed

lemma FactSet_refresh_ok:
  assumes s: "FactSet_ok s" and p: "DenseMap_lookup (fs_keys s) t = Some p"
  shows "FactSet_ok (FactSet_refresh s t p)"
proof -
  note r = FactSet_refresh_index [OF s p]
  obtain m where m: "DenseMap_lookup (fs_index (FactSet_refresh s t p)) t = Some m" "set m = set p"
    "sorted_wrt (<) (map Fact_key m)" using r(2) by blast
  have "FactSet_index (FactSet_refresh s t p) j = (if j = t then m else FactSet_index s j)" for j
    using r(3) m(1) by (simp add: FactSet_index_def)
  moreover have "keyset s t = p" using p by (simp add: keyset_def)
  ultimately show ?thesis
    using FactSet_okD [OF s] r(1) m unfolding FactSet_ok_def by auto
qed

lemma index_lower_bound_iff:
  assumes "sorted_wrt (<) (map Fact_key m)" "j < length m"
  shows "index_lower_bound m k \<le> j \<longleftrightarrow> k \<le> Fact_key (m ! j)"
  using assms
proof (induction m arbitrary: j)
  case (Cons f m)
  then show ?case
    by (cases j) (auto simp: index_lower_bound_def not_less [symmetric] dest: nth_mem less_trans)
qed simp

lemma index_range:
  assumes "sorted_wrt (<) (map Fact_key m)"
  shows "map (\<lambda>i. m ! i) [index_lower_bound m a ..< if b = [] then length m else index_lower_bound m b] =
    filter (\<lambda>f. a \<le> Fact_key f \<and> (b = [] \<or> Fact_key f < b)) m"
proof (rule filter_nth_range [symmetric])
  show "(if b = [] then length m else index_lower_bound m b) \<le> length m"
    by (simp add: index_lower_bound_def length_takeWhile_le)
qed (use index_lower_bound_iff [OF assms] in \<open>auto simp: not_le [symmetric]\<close>)

lemma prefix_take: "n \<le> length start \<Longrightarrow> prefix (take n start) k \<longleftrightarrow> take n k = take n (start :: bytes)"
  by (metis append_take_drop_id length_take min.absorb2 prefixI prefix_def append_eq_conv_conj)

lemma seek_range:
  assumes "n \<le> length start"
  shows "start \<le> k \<and> (lexicographicallyNext (take n start) = [] \<or> k < lexicographicallyNext (take n start)) \<longleftrightarrow>
    start \<le> k \<and> take n k = take n start"
proof -
  have "take n start \<le> start"
    using prefix_range [of "take n start" start] take_is_prefix by blast
  then show ?thesis
    using prefix_range [of "take n start" k] prefix_take [OF assms] by (meson order.trans)
qed

lemma RangeIterator_items_map:
  "RangeIterator_items it = map Fact_ref (map (\<lambda>i. ri_facts it ! i) [ri_pos it ..< ri_end it])"
  by (simp add: RangeIterator_items_def)

lemma sort_key_unique:
  assumes "sorted_wrt (<) (map k xs)" "set xs = set ys" "distinct (map k ys)"
  shows "sort_key k ys = (xs :: 'a list)"
  by (rule map_sorted_distinct_set_unique [of k])
    (use assms in \<open>auto simp: strict_sorted_iff distinct_map\<close>)

lemma facts_ok_distinct_keys:
  assumes "facts_ok fs" "\<And>a. P a \<Longrightarrow> a_type a = t"
  shows "distinct (map a_key (filter P fs))"
proof -
  have "distinct fs" using assms(1) by (auto simp: facts_ok_def distinct_map)
  then show ?thesis
    using assms facts_ok_key_inj [OF assms(1)] by (auto simp: distinct_map inj_on_def)
qed

lemma FactSet_seek_view:
  assumes s: "FactSet_ok s" and n: "n \<le> length start"
  shows "map Ref_view (fst (FactSet_seek s t start n)) = facts_prefix (FactSet_facts s) t start n"
    and "FactSet_ok (snd (FactSet_seek s t start n))"
    and "FactSet_facts (snd (FactSet_seek s t start n)) = FactSet_facts s"
proof -
  let ?P = "\<lambda>f. start \<le> Fact_key f \<and> take n (Fact_key f) = take n start"
  show "FactSet_ok (snd (FactSet_seek s t start n))"
    "FactSet_facts (snd (FactSet_seek s t start n)) = FactSet_facts s"
    using s FactSet_refresh_ok [OF s]
    by (auto simp: FactSet_seek_def Let_def FactSet_facts_def split: option.splits)
  show "map Ref_view (fst (FactSet_seek s t start n)) = facts_prefix (FactSet_facts s) t start n"
  proof (cases "DenseMap_lookup (fs_keys s) t")
    case None
    then have "keyset s t = []" by (simp add: keyset_def)
    then show ?thesis
      using None FactSet_okD(7) [OF s, of t]
      by (auto simp: FactSet_seek_def EmptyIterator_def facts_prefix_def FactSet_facts_def filter_empty_conv)
  next
    case (Some p)
    obtain m where m: "DenseMap_lookup (fs_index (FactSet_refresh s t p)) t = Some m" "set m = set p"
      "sorted_wrt (<) (map Fact_key m)"
      using FactSet_refresh_index(2) [OF s Some] by blast
    have r: "DenseMap_ref (fs_index (FactSet_refresh s t p)) t = m"
      using dense.ref_lookup [OF FactSet_refresh_index(1) [OF s Some] m(1)] .
    have "fst (FactSet_seek s t start n) = map Fact_ref (filter ?P m)"
      using index_range [OF m(3), of start "lexicographicallyNext (take n start)"]
      unfolding seek_range [OF n] by (simp only: Some r FactSet_seek_def Let_def RangeIterator_items_map
          option.case fst_conv RangeIterator.select_convs)
    then have "map Ref_view (fst (FactSet_seek s t start n)) = map Fact_view (filter ?P m)"
      by (simp add: Fact_view_def)
    also have "\<dots> = facts_prefix (FactSet_facts s) t start n"
      unfolding facts_prefix_def
    proof (rule sort_key_unique [symmetric])
      show "sorted_wrt (<) (map a_key (map Fact_view (filter ?P m)))"
        using sorted_wrt_filter [of "\<lambda>f g. Fact_key f < Fact_key g" m ?P] m(3) by (simp add: sorted_wrt_map comp_def)
      have "set m = {f \<in> set (fs_facts s). fact_type f = t}"
        using m(2) FactSet_okD(7) [OF s, of t] Some by (simp add: keyset_def)
      then show "set (map Fact_view (filter ?P m)) =
          set (filter (\<lambda>f. a_type f = t \<and> start \<le> a_key f \<and> take n (a_key f) = take n start) (FactSet_facts s))"
        by (auto simp: FactSet_facts_def)
      show "distinct (map a_key (filter (\<lambda>f. a_type f = t \<and> start \<le> a_key f \<and> take n (a_key f) = take n start) (FactSet_facts s)))"
        by (rule facts_ok_distinct_keys [OF FactSet_facts_ok [OF s]]) simp
    qed
    finally show ?thesis .
  qed
qed

lemma FactSet_contract:
  assumes s: "FactSet_ok s"
  shows "lookup_contract (FactSet_lookup s) (FactSet_facts s)"
  by (intro lookup_contract.intro lookup_forward.intro lookup_forward_axioms.intro
      lookup_contract_axioms.intro FactSet_points [OF s])
    (simp_all add: FactSet_lookup_def FactSet_enumerate_view [OF s] FactSet_enumerateBack_view [OF s]
      FactSet_seek_view(1) [OF s])

section \<open>Adding facts\<close>

definition FactSet_args_ok :: "FactSet \<Rightarrow> Pid \<Rightarrow> Clause \<Rightarrow> Id \<Rightarrow> bool" where
  "FactSet_args_ok s t c m \<longleftrightarrow> Clause_ok c \<and> key_size c \<le> MAX_KEY_SIZE \<and> DenseMap_key_ok t \<and>
     unat (FactSet_firstFreeId s) + 1 < 2 ^ 64"

lemma FactSet_define_found:
  assumes s: "FactSet_ok s" and a: "FactSet_args_ok s t c m"
    and g: "keyset_find (keyset s t) (Clause_key c) = Some g"
  shows "FactSet_define s t c m = ok (if Fact_value g = Clause_value c then fact_id g else WordId_invalid, s)"
proof -
  let ?r = "\<lparr>ref_id = FactSet_firstFreeId s, ref_type = t, ref_clause = c\<rparr>"
  have ac: "Clause_ok c" "key_size c \<le> MAX_KEY_SIZE" using a by (simp_all add: FactSet_args_ok_def)
  have v: "Fact_key (Fact_create ?r 0) = Clause_key c" "Fact_value (Fact_create ?r 0) = Clause_value c"
    using Fact_create_view [of ?r 0] ac by (simp_all add: Ref_key_def Ref_value_def)
  obtain p where p: "DenseMap_lookup (fs_keys s) t = Some p" "keyset s t = p"
    using g by (auto simp: keyset_def keyset_find_def split: option.splits)
  have k: "DenseMap_key_ok t" and d: "DenseMap_ok (fs_keys s)"
    using a FactSet_okD(5) [OF s] by (simp_all add: FactSet_args_ok_def)
  have at: "DenseMap_at [] (fs_keys s) t = fs_keys s" by (rule DenseMap_at_existing [OF d p(1)])
  have ref: "DenseMap_ref (fs_keys s) t = p" by (rule dense.ref_lookup [OF d p(1)])
  show ?thesis
    using ac g p by (simp add: FactSet_define_def Let_def at ref keyset_insert_def v not_less eq_commute [of "Clause_value c"])
qed

lemma FactSet_define_fresh:
  assumes s: "FactSet_ok s" and a: "FactSet_args_ok s t c m"
    and g: "keyset_find (keyset s t) (Clause_key c) = None"
  defines "f \<equiv> Fact_create \<lparr>ref_id = FactSet_firstFreeId s, ref_type = t, ref_clause = c\<rparr> 0"
  shows "\<exists>s'. FactSet_define s t c m = ok (FactSet_firstFreeId s, s') \<and> FactSet_ok s' \<and>
    fs_facts s' = fs_facts s @ [f] \<and> starting_id s' = starting_id s"
proof -
  let ?r = "\<lparr>ref_id = FactSet_firstFreeId s, ref_type = t, ref_clause = c\<rparr>"
  have ac: "Clause_ok c" "key_size c \<le> MAX_KEY_SIZE" and k: "DenseMap_key_ok t"
    using a by (simp_all add: FactSet_args_ok_def)
  have d: "DenseMap_ok (fs_keys s)" by (rule FactSet_okD(5) [OF s])
  have v: "Fact_key f = Clause_key c" "fact_id f = FactSet_firstFreeId s" "fact_type f = t"
    using Fact_create_view [of ?r 0] ac by (simp_all add: Ref_key_def f_def)
  let ?keys = "DenseMap_at [] (fs_keys s) t"
  have "DenseMap_lookup ?keys t = Some (keyset s t)"
    using d k by (simp add: dense.at_lookup keyset_def split: option.splits)
  then have ref: "DenseMap_ref ?keys t = keyset s t"
    by (rule dense.ref_lookup [OF dense.at_inv [OF d k]])
  define s' where "s' = s\<lparr>fs_keys := DenseMap_assign ?keys t (keyset s t @ [f]),
    fact_memory := fact_memory s + Fact_size f, fs_facts := fs_facts s @ [f]\<rparr>"
  have "FactSet_define s t c m = ok (FactSet_firstFreeId s, s')"
    using ac g ref v by (simp add: FactSet_define_def Let_def keyset_insert_def not_less s'_def flip: f_def)
  moreover have "FactSet_ok s'"
  proof -
    note u = dense.update_lookup [OF d k, of "[]" "\<lambda>p. p @ [f]", unfolded ref]
    have ks: "keyset s' j = (if j = t then keyset s t @ [f] else keyset s j)" for j
      using u(1) [of j] by (simp add: s'_def keyset_def)
    have ix: "FactSet_index s' j = FactSet_index s j" for j by (simp add: s'_def FactSet_index_def)
    have nf: "Fact_key f \<notin> Fact_key ` set (keyset s t)"
      using g v(1) by (auto simp: keyset_find_def find_None_iff)
    have len: "unat (starting_id s) + (length (fs_facts s) + 1) < 2 ^ 64"
      using a FactSet_unat_firstFree [OF s] by (simp add: FactSet_args_ok_def)
    note i = FactSet_okD [OF s]
    have fs: "fs_facts s' = fs_facts s @ [f]" "starting_id s' = starting_id s"
      "fact_memory s' = fact_memory s + Fact_size f" "fs_index s' = fs_index s"
      by (simp_all add: s'_def)
    show ?thesis
    proof (rule FactSet_okI)
      show "WordId_invalid < starting_id s'" "DenseMap_ok (fs_index s')" using i(1,6) by (simp_all add: fs)
      show "unat (starting_id s') + length (fs_facts s') < 2 ^ 64" using len by (simp add: fs)
      show "DenseMap_ok (fs_keys s')" using u(2) by (simp add: s'_def)
      show "fact_memory s' = sum_list (map Fact_size (fs_facts s'))" using i(11) by (simp add: fs)
      show "fact_id (fs_facts s' ! n) = starting_id s' + of_nat n" if "n < length (fs_facts s')" for n
        using that i(3) v(2) by (auto simp: fs nth_append FactSet_firstFreeId_def WordId_plus_def less_Suc_eq)
      show "DenseMap_key_ok (fact_type x)" if "x \<in> set (fs_facts s')" for x using that i(4) k v(3) by (auto simp: fs)
      show "set (keyset s' j) = {x \<in> set (fs_facts s'). fact_type x = j}" for j
        unfolding ks fs using i(7) [of j] v(3) by auto
      show "distinct (map Fact_key (keyset s' j))" for j unfolding ks using i(8) [of j] nf by auto
      show "set (FactSet_index s' j) \<subseteq> set (keyset s' j)" for j unfolding ks ix using i(9) [of j] by auto
      show "sorted_wrt (<) (map Fact_key (FactSet_index s' j))" for j unfolding ix by (rule i(10))
    qed
  qed
  ultimately show ?thesis by (auto simp: s'_def)
qed

interpretation factset: define_provider FactSet_lookup FactSet_facts FactSet_ok FactSet_define FactSet_args_ok
proof (rule define_provider.intro)
  fix s t c m
  assume s: "FactSet_ok s"
  show "lookup_contract (FactSet_lookup s) (FactSet_facts s)" by (rule FactSet_contract [OF s])
  assume a: "FactSet_args_ok s t c m"
  show "FactSet_define s t c m = ok (if a_value x = Clause_value c then a_id x else WordId_invalid, s)"
    if "facts_by_key (FactSet_facts s) t (Clause_key c) = Some x" for x
    using that FactSet_define_found [OF s a] by (auto simp: facts_by_key_view [OF s])
  assume "facts_by_key (FactSet_facts s) t (Clause_key c) = None"
  then obtain s' where s': "FactSet_define s t c m = ok (FactSet_firstFreeId s, s')" "FactSet_ok s'"
    "fs_facts s' = fs_facts s @ [Fact_create \<lparr>ref_id = FactSet_firstFreeId s, ref_type = t, ref_clause = c\<rparr> 0]"
    "starting_id s' = starting_id s"
    using FactSet_define_fresh [OF s a] by (auto simp: facts_by_key_view [OF s])
  have "Fact_view (Fact_create \<lparr>ref_id = FactSet_firstFreeId s, ref_type = t, ref_clause = c\<rparr> 0) =
      new_fact (FactSet_lookup s) t c"
    using a Fact_create_view [of "\<lparr>ref_id = FactSet_firstFreeId s, ref_type = t, ref_clause = c\<rparr>" 0]
    by (simp add: FactSet_args_ok_def new_fact_def FactSet_lookup_def Ref_key_def Ref_value_def)
  then show "\<exists>s'. FactSet_define s t c m = ok (firstFreeId (FactSet_lookup s), s') \<and> FactSet_ok s' \<and>
      FactSet_facts s' = FactSet_facts s @ [new_fact (FactSet_lookup s) t c] \<and>
      firstFreeId (FactSet_lookup s') = firstFreeId (FactSet_lookup s) + 1 \<and>
      startingId (FactSet_lookup s') = startingId (FactSet_lookup s)"
    using s' by (simp add: FactSet_lookup_def FactSet_facts_def FactSet_firstFreeId_def WordId_plus_def)
qed

section \<open>Appending a set\<close>

lemma keyset_insert_range_disjoint:
  "distinct (map Fact_key (ks @ fs)) \<Longrightarrow> keyset_insert_range ks fs = ks @ fs"
proof (induction fs arbitrary: ks)
  case (Cons f fs)
  have "Fact_key f \<notin> Fact_key ` set ks" using Cons.prems by auto
  then have "keyset_find ks (Fact_key f) = None"
    unfolding keyset_find_def find_None_iff by (metis imageI)
  then have "keyset_insert_range ks (f # fs) = keyset_insert_range (ks @ [f]) fs"
    by (simp add: keyset_insert_range_def keyset_insert_def)
  also have "\<dots> = ks @ f # fs" using Cons by simp
  finally show ?case .
qed (simp add: keyset_insert_range_def)

definition FactSet_disjoint :: "FactSet \<Rightarrow> FactSet \<Rightarrow> bool" where
  "FactSet_disjoint s other \<longleftrightarrow>
     (\<forall>f\<in>set (fs_facts s). \<forall>g\<in>set (fs_facts other). \<not> (fact_type f = fact_type g \<and> Fact_key f = Fact_key g))"

lemma keyset_find_None:
  assumes "FactSet_ok s"
  shows "keyset_find (keyset s t) k = None \<longleftrightarrow> (\<forall>f\<in>set (fs_facts s). \<not> (fact_type f = t \<and> Fact_key f = k))"
  using keyset_find_Some [OF assms, of t k] by (metis not_None_eq)

text \<open>\<open>appendable\<close> returns, and says exactly whether its comment's conditions hold.\<close>

lemma FactSet_appendable_iff:
  assumes s: "FactSet_ok s" and x: "FactSet_ok other"
  shows "FactSet_appendable s other = ok (fs_facts s = [] \<or> fs_facts other = [] \<or>
    FactSet_firstFreeId s = starting_id other \<and> FactSet_disjoint s other)"
proof -
  obtain kvs where kvs: "DenseMap_items (fs_keys other) = ok kvs"
    "set kvs = {(k, v). DenseMap_lookup (fs_keys other) k = Some v}"
    using DenseMap_items_spec [OF FactSet_okD(5) [OF x]] by blast
  have "(\<forall>(t, fs) \<in> set kvs. case DenseMap_lookup (fs_keys s) t of
        Some p \<Rightarrow> (\<forall>f\<in>set fs. keyset_find p (Fact_key f) = None) | None \<Rightarrow> True) \<longleftrightarrow>
      (\<forall>t. \<forall>f\<in>set (keyset other t). keyset_find (keyset s t) (Fact_key f) = None)"
    (is "?A \<longleftrightarrow> ?B")
  proof -
    have "(\<forall>fs. DenseMap_lookup (fs_keys other) t = Some fs \<longrightarrow> (case DenseMap_lookup (fs_keys s) t of
          Some p \<Rightarrow> (\<forall>f\<in>set fs. keyset_find p (Fact_key f) = None) | None \<Rightarrow> True)) \<longleftrightarrow>
        (\<forall>f\<in>set (keyset other t). keyset_find (keyset s t) (Fact_key f) = None)" for t
      by (cases "DenseMap_lookup (fs_keys other) t"; cases "DenseMap_lookup (fs_keys s) t")
        (simp_all add: keyset_def keyset_find_def)
    then show ?thesis unfolding kvs(2) by blast
  qed
  also have "\<dots> \<longleftrightarrow> FactSet_disjoint s other"
    unfolding keyset_find_None [OF s] FactSet_disjoint_def using FactSet_okD(7) [OF x] by auto
  finally show ?thesis
    by (auto simp: FactSet_appendable_def kvs(1) FactSet_empty_def)
qed

lemma FactSet_append_spec:
  assumes s: "FactSet_ok s" and x: "FactSet_ok other" and d: "FactSet_disjoint s other"
    and len: "unat (starting_id s) + length (fs_facts s @ fs_facts other) < 2 ^ 64"
    and ids: "\<And>i. i < length (fs_facts other) \<Longrightarrow> fact_id (fs_facts other ! i) = FactSet_firstFreeId s + of_nat i"
  shows "\<exists>r. FactSet_append s other = ok r \<and> FactSet_ok r \<and> starting_id r = starting_id s \<and>
    FactSet_facts r = FactSet_facts s @ FactSet_facts other"
proof -
  note i = FactSet_okD [OF s] and o = FactSet_okD [OF x]
  obtain keys where m: "DenseMap_merge (fs_keys s) (fs_keys other) keyset_insert_range = ok keys" "DenseMap_ok keys"
    "\<And>t. DenseMap_lookup keys t = merge_slot keyset_insert_range (DenseMap_lookup (fs_keys s) t) (DenseMap_lookup (fs_keys other) t)"
    using DenseMap_merge_spec [OF i(5) o(5)] by blast
  define r where "r = s\<lparr>fs_facts := fs_facts s @ fs_facts other, fs_keys := keys, fact_memory := fact_memory s + fact_memory other\<rparr>"
  have dis: "distinct (map Fact_key (keyset s t @ keyset other t))" for t
    using i(7,8) [of t] o(7,8) [of t] d by (auto simp: FactSet_disjoint_def)
  have ks: "keyset r t = keyset s t @ keyset other t" for t
    using m(3) [of t] keyset_insert_range_disjoint [OF dis [of t]]
    by (auto simp: r_def keyset_def split: option.splits)
  have ix: "FactSet_index r = FactSet_index s" by (simp add: r_def FactSet_index_def fun_eq_iff)
  have "FactSet_ok r"
  proof (rule FactSet_okI)
    show "WordId_invalid < starting_id r" "unat (starting_id r) + length (fs_facts r) < 2 ^ 64"
      "DenseMap_ok (fs_keys r)" "DenseMap_ok (fs_index r)"
      using i(1,6) len m(2) by (simp_all add: r_def)
    show "fact_memory r = sum_list (map Fact_size (fs_facts r))" using i(11) o(11) by (simp add: r_def)
    show "DenseMap_key_ok (fact_type f)" if "f \<in> set (fs_facts r)" for f using that i(4) o(4) by (auto simp: r_def)
    show "fact_id (fs_facts r ! n) = starting_id r + of_nat n" if "n < length (fs_facts r)" for n
      using that i(3) [of n] ids [of "n - length (fs_facts s)"]
      by (auto simp: r_def nth_append FactSet_firstFreeId_def WordId_plus_def)
    show "set (keyset r t) = {f \<in> set (fs_facts r). fact_type f = t}" for t
      unfolding ks using i(7) [of t] o(7) [of t] by (auto simp: r_def)
    show "distinct (map Fact_key (keyset r t))" for t unfolding ks by (rule dis)
    show "set (FactSet_index r t) \<subseteq> set (keyset r t)" "sorted_wrt (<) (map Fact_key (FactSet_index r t))" for t
      unfolding ks ix using i(9,10) [of t] by auto
  qed
  then show ?thesis using m(1) by (simp add: FactSet_append_def r_def FactSet_facts_def)
qed

lemma FactSet_append_appendable:
  assumes s: "FactSet_ok s" and x: "FactSet_ok other" and a: "FactSet_appendable s other = ok True"
    and e: "fs_facts s \<noteq> [] \<or> starting_id other = starting_id s"
  shows "\<exists>r. FactSet_append s other = ok r \<and> FactSet_ok r \<and> starting_id r = starting_id s \<and>
    FactSet_facts r = FactSet_facts s @ FactSet_facts other"
proof (cases "fs_facts other = []")
  case True
  then show ?thesis using FactSet_append_spec [OF s x] FactSet_okD(2) [OF s] by (simp add: FactSet_disjoint_def)
next
  case False
  then have ff: "FactSet_firstFreeId s = starting_id other" and d: "FactSet_disjoint s other"
    using a e by (auto simp: FactSet_appendable_iff [OF s x] FactSet_disjoint_def FactSet_firstFreeId_def WordId_plus_def)
  have "unat (starting_id s) + length (fs_facts s @ fs_facts other) < 2 ^ 64"
    using FactSet_unat_firstFree [OF s] FactSet_okD(2) [OF x] by (simp flip: ff)
  then show ?thesis using FactSet_append_spec [OF s x d] FactSet_okD(3) [OF x] by (simp add: ff)
qed


section \<open>Histories of a set\<close>

text \<open>The sets that any sequence of \<open>define\<close>, \<open>seek\<close> and \<open>append\<close> leads to.\<close>

inductive FactSet_reach :: "FactSet \<Rightarrow> bool" where
  new: "WordId_invalid < start \<Longrightarrow> FactSet_reach (FactSet_new start)"
| defined: "FactSet_reach s \<Longrightarrow> FactSet_args_ok s t c m \<Longrightarrow> FactSet_define s t c m = ok (i, s') \<Longrightarrow> FactSet_reach s'"
| sought: "FactSet_reach s \<Longrightarrow> n \<le> length start \<Longrightarrow> FactSet_reach (snd (FactSet_seek s t start n))"
| appended: "FactSet_reach s \<Longrightarrow> FactSet_reach other \<Longrightarrow> FactSet_appendable s other = ok True \<Longrightarrow>
    fs_facts s \<noteq> [] \<or> starting_id other = starting_id s \<Longrightarrow> FactSet_append s other = ok r \<Longrightarrow> FactSet_reach r"

lemma FactSet_reach_ok: "FactSet_reach s \<Longrightarrow> FactSet_ok s"
proof (induction rule: FactSet_reach.induct)
  case (defined s t c m i s')
  then show ?case using factset.define_total by fastforce
next
  case (appended s other r)
  then show ?case using FactSet_append_appendable [of s other] by auto
qed (simp_all add: FactSet_new_ok FactSet_seek_view)

text \<open>A step of a concrete history, and a set of three facts of two predicates.\<close>

definition sample_step :: "Pid \<Rightarrow> Clause \<Rightarrow> FactSet \<Rightarrow> FactSet" where
  "sample_step t c s = (case FactSet_define s t c 0 of Inr (i, s') \<Rightarrow> s' | Inl _ \<Rightarrow> s)"

definition sample_set :: FactSet where
  "sample_set = sample_step 7 (Clause_from [1, 1] 2)
     (snd (FactSet_seek (sample_step 5 (Clause_from [1] 1)
       (sample_step 7 (Clause_from [1, 2, 9] 2) (FactSet_new 1024))) 7 [1] 1))"

lemma sample_step_reach:
  assumes "FactSet_reach s" "FactSet_args_ok s t c 0"
  shows "FactSet_reach (sample_step t c s)"
proof -
  obtain i s' where "FactSet_define s t c 0 = ok (i, s')"
    using factset.define_total [OF FactSet_reach_ok [OF assms(1)] assms(2)] by blast
  then show ?thesis using FactSet_reach.defined [OF assms] by (simp add: sample_step_def ok_def)
qed

lemma sample_clauses:
  "Clause_ok (Clause_from [1, 2, 9] 2)" "Clause_ok (Clause_from [1, 2, 8] 2)"
  "Clause_ok (Clause_from [1] 1)" "Clause_ok (Clause_from [1, 1] 2)"
  by (simp_all add: Clause_from_ok)

lemma sample_args:
  "FactSet_args_ok (FactSet_new 1024) 7 (Clause_from [1, 2, 9] 2) 0"
  "FactSet_args_ok (sample_step 7 (Clause_from [1, 2, 9] 2) (FactSet_new 1024)) 5 (Clause_from [1] 1) 0"
  "FactSet_args_ok (snd (FactSet_seek (sample_step 5 (Clause_from [1] 1)
       (sample_step 7 (Clause_from [1, 2, 9] 2) (FactSet_new 1024))) 7 [1] 1)) 7 (Clause_from [1, 1] 2) 0"
proof -
  have "FactSet_firstFreeId (FactSet_new 1024) = 1024"
    "FactSet_firstFreeId (sample_step 7 (Clause_from [1, 2, 9] 2) (FactSet_new 1024)) = 1025"
    "FactSet_firstFreeId (snd (FactSet_seek (sample_step 5 (Clause_from [1] 1)
       (sample_step 7 (Clause_from [1, 2, 9] 2) (FactSet_new 1024))) 7 [1] 1)) = 1026"
    by code_simp+
  then show "FactSet_args_ok (FactSet_new 1024) 7 (Clause_from [1, 2, 9] 2) 0"
    "FactSet_args_ok (sample_step 7 (Clause_from [1, 2, 9] 2) (FactSet_new 1024)) 5 (Clause_from [1] 1) 0"
    "FactSet_args_ok (snd (FactSet_seek (sample_step 5 (Clause_from [1] 1)
       (sample_step 7 (Clause_from [1, 2, 9] 2) (FactSet_new 1024))) 7 [1] 1)) 7 (Clause_from [1, 1] 2) 0"
    unfolding FactSet_args_ok_def
    by (simp_all add: sample_clauses DenseMap_key_ok_def MAX_KEY_SIZE_def) (simp_all add: Clause_from_def)
qed

lemma sample_set_reach: "FactSet_reach sample_set"
  unfolding sample_set_def
  by (intro sample_step_reach sample_args FactSet_reach.sought FactSet_reach.new)
    (simp_all add: WordId_invalid_def)

lemma sample_set_facts:
  "FactSet_facts sample_set =
     [\<lparr>a_id = 1024, a_type = 7, a_key = [1, 2], a_value = [9]\<rparr>,
      \<lparr>a_id = 1025, a_type = 5, a_key = [1], a_value = []\<rparr>,
      \<lparr>a_id = 1026, a_type = 7, a_key = [1, 1], a_value = []\<rparr>]"
  by code_simp

lemma sample_set_free: "FactSet_firstFreeId sample_set = 1027"
  by code_simp

section \<open>Properties\<close>



text \<open>
  C29. Every branch of \<open>FactSet::define\<close>: a key longer than \<open>MAX_KEY_SIZE\<close> is an error; a fact that is
  already there with the same value gives its id, with another value the invalid id, and the set
  is unchanged in both cases; a new fact gets the first free id and is appended.
\<close>

theorem FactSet_define_behaviour:
  assumes s: "FactSet_ok s" and c: "Clause_ok c" and t: "DenseMap_key_ok t"
    and room: "unat (FactSet_firstFreeId s) + 1 < 2 ^ 64"
  shows "(MAX_KEY_SIZE < key_size c \<longrightarrow> FactSet_define s t c m = raise (RtsError ''key too large'')) \<and>
    (key_size c \<le> MAX_KEY_SIZE \<longrightarrow> (case facts_by_key (FactSet_facts s) t (Clause_key c) of
       Some a \<Rightarrow> FactSet_define s t c m = ok (if a_value a = Clause_value c then a_id a else WordId_invalid, s)
     | None \<Rightarrow> \<exists>s'. FactSet_define s t c m = ok (FactSet_firstFreeId s, s') \<and> FactSet_ok s' \<and>
         FactSet_facts s' = FactSet_facts s @
           [\<lparr>a_id = FactSet_firstFreeId s, a_type = t, a_key = Clause_key c, a_value = Clause_value c\<rparr>]))"
proof -
  have a: "FactSet_args_ok s t c m" if "key_size c \<le> MAX_KEY_SIZE"
    using that c t room by (simp add: FactSet_args_ok_def)
  show ?thesis
    using factset.define_existing [OF s a] factset.define_new [OF s a]
    by (auto simp: FactSet_define_def new_fact_def FactSet_lookup_def split: option.splits)
qed

theorem FactSet_define_behaviour_witness:
  "FactSet_define sample_set 7 (Clause_from [1, 2, 9] 2) 0 = ok (1024, sample_set) \<and>
   FactSet_define sample_set 7 (Clause_from [1, 2, 8] 2) 0 = ok (WordId_invalid, sample_set)"
proof -
  have h: "FactSet_ok sample_set" "DenseMap_key_ok 7" "unat (FactSet_firstFreeId sample_set) + 1 < 2 ^ 64"
    using FactSet_reach_ok [OF sample_set_reach] sample_set_free by (simp_all add: DenseMap_key_ok_def)
  show ?thesis
    using FactSet_define_behaviour [OF h(1) sample_clauses(1) h(2,3), of 0]
      FactSet_define_behaviour [OF h(1) sample_clauses(2) h(2,3), of 0]
    by (simp add: sample_set_facts facts_by_key_def MAX_KEY_SIZE_def Clause_from_def Clause_key_def Clause_value_def)
qed


definition sample_other :: FactSet where
  "sample_other = sample_step 5 (Clause_from [2] 1) (FactSet_new 1027)"

lemma sample_other_ok: "FactSet_ok sample_other"
proof -
  have "FactSet_firstFreeId (FactSet_new 1027) = 1027" by code_simp
  then have "FactSet_args_ok (FactSet_new 1027) 5 (Clause_from [2] 1) 0"
    unfolding FactSet_args_ok_def
    by (simp add: Clause_from_ok DenseMap_key_ok_def MAX_KEY_SIZE_def) (simp add: Clause_from_def)
  then show ?thesis
    unfolding sample_other_def
    by (intro FactSet_reach_ok sample_step_reach FactSet_reach.new) (simp_all add: WordId_invalid_def)
qed


text \<open>
  The missing check: a set of facts from 1027 on appended to an empty set that starts at 2000 is
  stored, but the fact cannot be found by its id.
\<close>

lemma FactSet_append_empty_loses_ids:
  "FactSet_appendable (FactSet_new 2000) sample_other = ok True \<and>
   map_sum id (\<lambda>r. (FactSet_idByKey r 5 [2], FactSet_typeById r 1027)) (FactSet_append (FactSet_new 2000) sample_other) =
     ok (1027, WordId_invalid)"
  by code_simp

section \<open>What a snapshot of a set answers\<close>

text \<open>
  A snapshot of the sample set at the boundary 1026 has the first two facts. Its \<open>seek\<close> over
  predicate 7 nevertheless finds nothing, since the fact with the smaller key is beyond the
  boundary and ends the iteration; its \<open>enumerateBack\<close> enumerates forwards from the boundary.
\<close>

lemma Snapshot_seek_stops_early:
  "map Ref_view (seek (Snapshot (FactSet_lookup sample_set) 1026) 7 [1] 1) = [] \<and>
   facts_prefix (facts_below 1026 (FactSet_facts sample_set)) 7 [1] 1 =
     [\<lparr>a_id = 1024, a_type = 7, a_key = [1, 2], a_value = [9]\<rparr>]"
  by code_simp

lemma Snapshot_enumerateBack_is_forward:
  "map (a_id \<circ> Ref_view) (enumerateBack (Snapshot (FactSet_lookup sample_set) 1026) 1025 WordId_invalid) = [1025, 1026]"
  by code_simp

text \<open>
  Point lookups, counts and the ascending enumeration of a \<open>Snapshot\<close> answer exactly for the
  facts of the base below the boundary.
\<close>

theorem Snapshot_restricts:
  assumes "lookup_forward L fs" and "WordId_invalid < boundary"
  shows "lookup_forward (Snapshot L boundary) (filter (\<lambda>a. a_id a < boundary) fs)"
  by (rule lookup_forward.Snapshot_forward [OF assms])

theorem Snapshot_restricts_witness:
  "lookup_forward (Snapshot (FactSet_lookup sample_set) 1026)
     (filter (\<lambda>a. a_id a < 1026) (FactSet_facts sample_set))"
proof (rule Snapshot_restricts)
  show "lookup_forward (FactSet_lookup sample_set) (FactSet_facts sample_set)"
    using FactSet_contract [OF FactSet_reach_ok [OF sample_set_reach]] by (simp add: lookup_contract_def)
qed (simp add: WordId_invalid_def)

end
