(* ===== verification/Stacked_Lookup.thy ===== *)
theory Stacked_Lookup
  imports Fact_Set
begin

text \<open>
  Stacking a lookup on top of another one (\<^verbatim>\<open>rts/stacked.h\<close>). \<open>Stacked\<close> is the lookup; when the
  upper object is a \<open>Define\<close>, \<open>Stacked_define\<close> adds facts to it unless the lower one has them.

  The main results are that the stack of two lookups that keep the contract of \<open>Lookup\<close> keeps it
  for the concatenation of their facts, and that a stack with a \<open>Define\<close> on top is a \<open>Define\<close>.
\<close>

section \<open>The stacked objects\<close>

definition Stacked_enumerate :: "Lookup \<Rightarrow> Lookup \<Rightarrow> Id \<Rightarrow> Id \<Rightarrow> FactIterator" where
  "Stacked_enumerate base stacked a b =
     (let mid = startingId stacked in
      if a < mid then
        if WordId_bool b \<and> b \<le> mid then enumerate base a b
        else FactIterator_append (enumerate base a mid) (enumerate stacked mid b)
      else enumerate stacked a b)"

definition Stacked_enumerateBack :: "Lookup \<Rightarrow> Lookup \<Rightarrow> Id \<Rightarrow> Id \<Rightarrow> FactIterator" where
  "Stacked_enumerateBack base stacked a b =
     (let mid = startingId stacked in
      if WordId_bool a \<and> a \<le> mid then enumerateBack base a b
      else if b \<ge> mid then enumerateBack stacked a b
      else FactIterator_append (enumerateBack stacked a mid) (enumerateBack base mid b))"

definition Stacked_seek :: "Lookup \<Rightarrow> Lookup \<Rightarrow> Pid \<Rightarrow> bytes \<Rightarrow> nat \<Rightarrow> FactIterator" where
  "Stacked_seek base stacked type start n =
     FactIterator_merge (seek (Snapshot base (startingId stacked)) type start n)
       (seek stacked type start n) n"

definition Stacked :: "Lookup \<Rightarrow> Lookup \<Rightarrow> Lookup" where
  "Stacked base stacked =
     (let mid = startingId stacked in
      \<lparr>idByKey = (\<lambda>type key.
         let i = idByKey stacked type key in
         if WordId_bool i then i
         else let bid = idByKey base type key in if bid < mid then bid else WordId_invalid),
       typeById = (\<lambda>i. if i < mid then typeById base i else typeById stacked i),
       factById = (\<lambda>i. if i < mid then factById base i else factById stacked i),
       startingId = startingId base,
       firstFreeId = firstFreeId stacked,
       count = (\<lambda>pid. Interval_plus (count base pid) (count stacked pid)),
       enumerate = Stacked_enumerate base stacked,
       enumerateBack = Stacked_enumerateBack base stacked,
       seek = Stacked_seek base stacked\<rparr>)"

definition Stacked_define ::
  "('s \<Rightarrow> Lookup) \<Rightarrow> ('s \<Rightarrow> Pid \<Rightarrow> Clause \<Rightarrow> Id \<Rightarrow> (Id \<times> 's) result) \<Rightarrow>
   Lookup \<Rightarrow> 's \<Rightarrow> Pid \<Rightarrow> Clause \<Rightarrow> Id \<Rightarrow> (Id \<times> 's) result" where
  "Stacked_define view dfn base s type clause max_ref =
     (let mid = startingId (view s); i = idByKey base type (Clause_key clause) in
      if max_ref < mid \<and> WordId_bool i \<and> i < mid then
        if value_size clause \<noteq> 0 then
          case factById base i of
            Some (_, found) \<Rightarrow>
              ok (if Clause_value clause \<noteq> Clause_value found then WordId_invalid else i, s)
          | None \<Rightarrow> ok (i, s)
        else ok (i, s)
      else dfn s type clause max_ref)"

section \<open>A stack of lookups\<close>

lemma append_le_append: "xs @ ys \<le> xs @ zs \<longleftrightarrow> ys \<le> (zs :: bytes)"
  by (induction xs) (auto simp: list_le_def)

lemma drop_le_drop:
  assumes "take n xs = take n (ys :: bytes)"
  shows "drop n xs \<le> drop n ys \<longleftrightarrow> xs \<le> ys"
  by (metis append_le_append append_take_drop_id assms)

lemma facts_between_low:
  assumes "\<forall>a\<in>set fs. a_id a < mid" "mid \<noteq> WordId_invalid" "\<not> (WordId_bool b \<and> b \<le> mid)"
  shows "facts_between fs a b = facts_between fs a mid"
  unfolding facts_between_def using assms by (intro filter_cong) fastforce+

lemma facts_between_high:
  assumes "\<forall>a\<in>set gs. mid \<le> a_id a" "a < mid"
  shows "facts_between gs a b = facts_between gs mid b"
  unfolding facts_between_def using assms by (intro filter_cong) fastforce+

lemma facts_between_none:
  "\<forall>a\<in>set fs. a_id a < mid \<Longrightarrow> mid \<le> a \<Longrightarrow> facts_between fs a b = []"
  "\<forall>a\<in>set gs. mid \<le> a_id a \<Longrightarrow> b \<le> mid \<Longrightarrow> WordId_bool b \<Longrightarrow> facts_between gs a b = []"
  by (fastforce simp: facts_between_def filter_empty_conv)+

lemma facts_between_split:
  assumes "\<forall>a\<in>set fs. a_id a < mid" "\<forall>a\<in>set gs. mid \<le> a_id a" "mid \<noteq> WordId_invalid"
  shows "facts_between (fs @ gs) a b =
    (if a < mid then
       if WordId_bool b \<and> b \<le> mid then facts_between fs a b
       else facts_between fs a mid @ facts_between gs mid b
     else facts_between gs a b)"
  using facts_between_low [OF assms(1,3)] facts_between_high [OF assms(2)]
    facts_between_none(1) [OF assms(1)] facts_between_none(2) [OF assms(2)]
  by (simp add: not_less del: WordId_bool_iff)

text \<open>Two lookups that can be stacked: the ids of the lower one end where the upper one starts.\<close>

definition stackable :: "Lookup \<Rightarrow> afact list \<Rightarrow> Lookup \<Rightarrow> afact list \<Rightarrow> bool" where
  "stackable L fs M gs \<longleftrightarrow> lookup_contract L fs \<and> lookup_contract M gs \<and> firstFreeId L \<le> startingId M \<and>
     (\<forall>a\<in>set fs. \<forall>b\<in>set gs. \<not> (a_type a = a_type b \<and> a_key a = a_key b))"

lemma stackable_points:
  assumes "stackable L fs M gs"
  shows "lookup_points L fs" "lookup_points M gs" "lookup_forward L fs" "lookup_forward M gs"
    "lookup_contract L fs" "lookup_contract M gs"
  using assms by (auto simp: stackable_def lookup_contract_def lookup_forward_def)

lemma stackable_bounds:
  assumes st: "stackable L fs M gs"
  shows "\<forall>a\<in>set fs. a_id a < startingId M" "\<forall>a\<in>set gs. startingId M \<le> a_id a"
    "WordId_invalid < startingId M" "startingId L \<le> startingId M" "startingId M \<le> firstFreeId M"
proof -
  note p = stackable_points [OF st]
  have f: "firstFreeId L \<le> startingId M" using st by (simp add: stackable_def)
  show "\<forall>a\<in>set fs. a_id a < startingId M"
    using lookup_points.ids_bounded [OF p(1)] f by (meson less_le_trans)
  show "\<forall>a\<in>set gs. startingId M \<le> a_id a" using lookup_points.ids_bounded [OF p(2)] by blast
  show "WordId_invalid < startingId M" by (rule lookup_points.starting_valid [OF p(2)])
  show "startingId L \<le> startingId M" using lookup_points.starting_le [OF p(1)] f by (rule order.trans)
  show "startingId M \<le> firstFreeId M" by (rule lookup_points.starting_le [OF p(2)])
qed

lemma stackable_facts_ok:
  assumes st: "stackable L fs M gs"
  shows "facts_ok (fs @ gs)"
  using lookup_points.facts_ok stackable_points(1,2) [OF st] stackable_bounds(1,2) [OF st] st
  by (fastforce simp: facts_ok_append stackable_def)

lemma Stacked_idByKey:
  assumes st: "stackable L fs M gs"
  shows "idByKey (Stacked L M) t k = (case facts_by_key (fs @ gs) t k of None \<Rightarrow> WordId_invalid | Some a \<Rightarrow> a_id a)"
proof -
  note p = stackable_points(1,2) [OF st] and b = stackable_bounds [OF st]
  show ?thesis
  proof (cases "facts_by_key gs t k")
    case None
    have "idByKey M t k = WordId_invalid" using None by (simp add: lookup_points.idByKey [OF p(2)])
    moreover have "idByKey L t k < startingId M"
      using b(1,3) facts_by_key_Some [OF lookup_points.facts_ok [OF p(1)], of t k]
      by (auto simp: lookup_points.idByKey [OF p(1)] split: option.splits)
    ultimately show ?thesis
      using None by (simp add: Stacked_def Let_def facts_by_key_append lookup_points.idByKey [OF p(1)] split: option.splits)
  next
    case (Some x)
    then have x: "x \<in> set gs" "a_type x = t" "a_key x = k"
      using facts_by_key_Some [OF lookup_points.facts_ok [OF p(2)]] by auto
    then have "facts_by_key fs t k = None" using st by (auto simp: stackable_def facts_by_key_None)
    then show ?thesis
      using Some lookup_points.fact_valid [OF p(2) x(1)]
      by (simp add: Stacked_def Let_def facts_by_key_append lookup_points.idByKey [OF p(2)])
  qed
qed

lemma stackable_by_id:
  assumes st: "stackable L fs M gs"
  shows "facts_by_id (fs @ gs) i = (if i < startingId M then facts_by_id fs i else facts_by_id gs i)"
proof -
  have "facts_by_id gs i = None" if "i < startingId M"
    using that stackable_bounds(2) [OF st] by (fastforce simp: facts_by_id_None)
  moreover have "facts_by_id fs i = None" if "\<not> i < startingId M"
    using that stackable_bounds(1) [OF st] by (auto simp: facts_by_id_None)
  ultimately show ?thesis by (auto simp: facts_by_id_append split: option.splits)
qed

lemma Stacked_points:
  assumes st: "stackable L fs M gs"
  shows "lookup_points (Stacked L M) (fs @ gs)"
proof
  note p = stackable_points(1,2) [OF st] and b = stackable_bounds [OF st]
  show "facts_ok (fs @ gs)" by (rule stackable_facts_ok [OF st])
  show "WordId_invalid < startingId (Stacked L M)" "startingId (Stacked L M) \<le> firstFreeId (Stacked L M)"
    using lookup_points.starting_valid [OF p(1)] b(4,5) by (simp_all add: Stacked_def Let_def)
  fix a t k i
  show "startingId (Stacked L M) \<le> a_id a \<and> a_id a < firstFreeId (Stacked L M)" if "a \<in> set (fs @ gs)"
    using that lookup_points.ids_bounded [OF p(1), of a] lookup_points.ids_bounded [OF p(2), of a] b(1,4,5)
    by (auto simp: Stacked_def Let_def)
  show "idByKey (Stacked L M) t k = (case facts_by_key (fs @ gs) t k of None \<Rightarrow> WordId_invalid | Some a \<Rightarrow> a_id a)"
    by (rule Stacked_idByKey [OF st])
  show "typeById (Stacked L M) i = (case facts_by_id (fs @ gs) i of None \<Rightarrow> WordId_invalid | Some a \<Rightarrow> a_type a)"
    by (simp add: Stacked_def Let_def stackable_by_id [OF st] lookup_points.typeById [OF p(1)] lookup_points.typeById [OF p(2)])
  show "map_option clause_view (factById (Stacked L M) i) = map_option afact_view (facts_by_id (fs @ gs) i)"
    by (simp add: Stacked_def Let_def stackable_by_id [OF st] lookup_points.factById [OF p(1)] lookup_points.factById [OF p(2)])
  show "in_interval (length (filter (\<lambda>a. a_type a = t) (fs @ gs))) (count (Stacked L M) t)"
    using in_interval_plus [OF lookup_points.count [OF p(1)] lookup_points.count [OF p(2)]]
    by (simp add: Stacked_def Let_def)
qed

lemma Stacked_enumerate_view:
  assumes st: "stackable L fs M gs"
  shows "map Ref_view (Stacked_enumerate L M a b) = facts_between (fs @ gs) a b"
  using facts_between_split [OF stackable_bounds(1,2) [OF st], of a b] stackable_bounds(3) [OF st]
  by (simp add: Stacked_enumerate_def Let_def FactIterator_append_eq
      lookup_forward.enumerate [OF stackable_points(3) [OF st]] lookup_forward.enumerate [OF stackable_points(4) [OF st]])

lemma Stacked_enumerateBack_view:
  assumes st: "stackable L fs M gs"
  shows "map Ref_view (Stacked_enumerateBack L M a b) = rev (facts_between (fs @ gs) b a)"
  using facts_between_split [OF stackable_bounds(1,2) [OF st], of b a] stackable_bounds(3) [OF st]
    facts_between_none(1) [OF stackable_bounds(1) [OF st], of b a]
    facts_between_none(2) [OF stackable_bounds(2) [OF st], of a b]
  by (auto simp: Stacked_enumerateBack_def Let_def FactIterator_append_eq
      lookup_contract.enumerateBack [OF stackable_points(5) [OF st]]
      lookup_contract.enumerateBack [OF stackable_points(6) [OF st]])

lemma facts_prefix_set:
  "set (facts_prefix fs t start n) = {a \<in> set fs. a_type a = t \<and> start \<le> a_key a \<and> take n (a_key a) = take n start}"
  by (auto simp: facts_prefix_def)

lemma suffix_sorted_iff:
  assumes "\<forall>x\<in>set rs. take n (Ref_key x) = p"
  shows "sorted (map (MergeIterator_suffix n) rs) \<longleftrightarrow> sorted (map Ref_key rs)"
  using assms
proof (induction rs)
  case (Cons x rs)
  then have "MergeIterator_suffix n x \<le> MergeIterator_suffix n y \<longleftrightarrow> Ref_key x \<le> Ref_key y" if "y \<in> set rs" for y
    using that unfolding MergeIterator_suffix_def by (intro drop_le_drop) simp
  with Cons show ?case by simp
qed simp

text \<open>
  Merging the prefix seeks of two disjoint sets of facts gives the prefix seek of their union:
  under a common prefix, comparing the rest of the keys is comparing the keys.
\<close>

lemma merge_seeks:
  assumes l: "map Ref_view l = facts_prefix fs t start n" and r: "map Ref_view r = facts_prefix gs t start n"
    and fg: "facts_ok (fs @ gs)"
  shows "map Ref_view (merge_refs n l r) = facts_prefix (fs @ gs) t start n"
proof -
  let ?P = "\<lambda>f. a_type f = t \<and> start \<le> a_key f \<and> take n (a_key f) = take n start"
  let ?xs = "map Ref_view (merge_refs n l r)"
  have keys: "map Ref_key rs = map a_key (map Ref_view rs)" for rs by simp
  have pre: "\<forall>x\<in>set rs. take n (Ref_key x) = take n start" if "map Ref_view rs = facts_prefix hs t start n" for rs hs
  proof
    fix x assume "x \<in> set rs"
    then have "Ref_view x \<in> set (facts_prefix hs t start n)" by (simp flip: that)
    then show "take n (Ref_key x) = take n start" by (simp add: facts_prefix_set)
  qed
  have sorted: "sorted (map (MergeIterator_suffix n) rs)" if "map Ref_view rs = facts_prefix hs t start n" for rs hs
    unfolding suffix_sorted_iff [OF pre [OF that]] keys that by (simp add: facts_prefix_def)
  have ms: "mset ?xs = mset (filter ?P (fs @ gs))"
  proof -
    have "mset ?xs = mset (map Ref_view l) + mset (map Ref_view r)" by (simp add: merge_refs_mset)
    also have "\<dots> = mset (filter ?P (fs @ gs))" unfolding l r by (simp add: facts_prefix_def)
    finally show ?thesis .
  qed
  have "sorted (map Ref_key (merge_refs n l r))"
    using merge_refs_sorted [OF sorted [OF l] sorted [OF r]] pre [OF l] pre [OF r]
    by (subst suffix_sorted_iff [symmetric, of _ n "take n start"]) auto
  then have "sorted (map a_key ?xs)" by (simp add: comp_def)
  moreover have d: "distinct (map a_key (filter ?P (fs @ gs)))"
    by (rule facts_ok_distinct_keys [OF fg]) simp
  moreover have "mset (map a_key ?xs) = mset (map a_key (filter ?P (fs @ gs)))"
    by (simp only: mset_map [of a_key] ms)
  ultimately have "sorted_wrt (<) (map a_key ?xs)"
    unfolding strict_sorted_iff using mset_eq_imp_distinct_iff by blast
  then show ?thesis
    unfolding facts_prefix_def by (rule sort_key_unique [OF _ mset_eq_setD [OF ms] d, symmetric])
qed

lemma Stacked_seek_view:
  assumes st: "stackable L fs M gs" and n: "n \<le> length start"
  shows "map Ref_view (Stacked_seek L M t start n) = facts_prefix (fs @ gs) t start n"
proof -
  note c = stackable_points(5,6) [OF st]
  have l: "map Ref_view (seek L t start n) = facts_prefix fs t start n"
    and r: "map Ref_view (seek M t start n) = facts_prefix gs t start n"
    using lookup_contract.seek [OF c(1) n] lookup_contract.seek [OF c(2) n] by auto
  have "ref_id x < startingId M" if "x \<in> set (seek L t start n)" for x
  proof -
    have "Ref_view x \<in> set (facts_prefix fs t start n)" using that by (simp flip: l)
    then show ?thesis using stackable_bounds(1) [OF st] by (auto simp: facts_prefix_set)
  qed
  then have "seek (Snapshot L (startingId M)) t start n = seek L t start n"
    by (simp add: Snapshot_def Snapshot_seek_def SnapshotIterator_items_def takeWhile_eq_all_conv)
  then show ?thesis
    using merge_seeks [OF l r stackable_facts_ok [OF st]] lookup_contract.seek_valid [OF c(1) n]
      lookup_contract.seek_valid [OF c(2) n]
    by (simp add: Stacked_seek_def FactIterator_merge_eq)
qed

lemma Stacked_contract:
  assumes st: "stackable L fs M gs"
  shows "lookup_contract (Stacked L M) (fs @ gs)"
  by (intro lookup_contract.intro lookup_forward.intro lookup_forward_axioms.intro lookup_contract_axioms.intro
      Stacked_points [OF st])
    (simp_all add: Stacked_def Let_def Stacked_enumerate_view [OF st] Stacked_enumerateBack_view [OF st]
      Stacked_seek_view [OF st])

section \<open>A stack that facts can be added to\<close>

text \<open>
  The state of the stack: the lower lookup with its facts, and the state of the upper object. The
  arguments must be ones the upper object accepts; a clause that refers to an upper fact must not
  be in the lower lookup; an empty value must be the only one its predicate has.
\<close>

definition Stacked_inv :: "('s \<Rightarrow> Lookup) \<Rightarrow> ('s \<Rightarrow> afact list) \<Rightarrow> ('s \<Rightarrow> bool) \<Rightarrow> Lookup \<times> afact list \<times> 's \<Rightarrow> bool" where
  "Stacked_inv view facts winv = (\<lambda>(L, fs, s). winv s \<and> stackable L fs (view s) (facts s))"

definition Stacked_args_ok ::
  "('s \<Rightarrow> Lookup) \<Rightarrow> ('s \<Rightarrow> Pid \<Rightarrow> Clause \<Rightarrow> Id \<Rightarrow> bool) \<Rightarrow>
   Lookup \<times> afact list \<times> 's \<Rightarrow> Pid \<Rightarrow> Clause \<Rightarrow> Id \<Rightarrow> bool" where
  "Stacked_args_ok view args_ok = (\<lambda>(L, fs, s) t c m. args_ok s t c m \<and> (value_size c = 0 \<longrightarrow> Clause_value c = []) \<and>
     (\<forall>a\<in>set fs. a_type a = t \<and> a_key a = Clause_key c \<longrightarrow>
        m < startingId (view s) \<and> (value_size c = 0 \<longrightarrow> a_value a = [])))"

definition Stacked_define_state ::
  "('s \<Rightarrow> Lookup) \<Rightarrow> ('s \<Rightarrow> Pid \<Rightarrow> Clause \<Rightarrow> Id \<Rightarrow> (Id \<times> 's) result) \<Rightarrow>
   Lookup \<times> afact list \<times> 's \<Rightarrow> Pid \<Rightarrow> Clause \<Rightarrow> Id \<Rightarrow> (Id \<times> Lookup \<times> afact list \<times> 's) result" where
  "Stacked_define_state view dfn = (\<lambda>(L, fs, s) t c m.
     rbind (Stacked_define view dfn L s t c m) (\<lambda>(i, s'). ok (i, L, fs, s')))"

context define_provider
begin

lemma Stacked_define_base:
  assumes st: "stackable L fs (view s) (facts s)" and a: "Stacked_args_ok view args_ok (L, fs, s) t c m"
    and x: "facts_by_key fs t (Clause_key c) = Some x"
  shows "Stacked_define view define_fact L s t c m =
    ok (if a_value x = Clause_value c then a_id x else WordId_invalid, s)"
proof -
  note p = stackable_points(1) [OF st]
  have xs: "x \<in> set fs" "a_type x = t" "a_key x = Clause_key c"
    using x facts_by_key_Some [OF lookup_points.facts_ok [OF p]] by auto
  have i: "idByKey L t (Clause_key c) = a_id x" using lookup_points.idByKey_iff [OF p xs(1)] xs by simp
  have lt: "a_id x < startingId (view s)" "a_id x \<noteq> WordId_invalid" "m < startingId (view s)"
    using stackable_bounds(1) [OF st] xs lookup_points.fact_valid [OF p xs(1)] a
    by (auto simp: Stacked_args_ok_def)
  have "facts_by_id fs (a_id x) = Some x"
    using xs(1) facts_by_id_Some [OF lookup_points.facts_ok [OF p]] by blast
  then obtain d where d: "factById L (a_id x) = Some (t, d)" "Clause_value d = a_value x"
    using lookup_points.factById [OF p, of "a_id x"] xs by (auto simp: clause_view_def afact_view_def)
  show ?thesis
    using a xs lt d by (auto simp: Stacked_define_def Let_def i Stacked_args_ok_def)
qed

lemma Stacked_define_top:
  assumes st: "stackable L fs (view s) (facts s)" and x: "facts_by_key fs t (Clause_key c) = None"
  shows "Stacked_define view define_fact L s t c m = define_fact s t c m"
  using x by (simp add: Stacked_define_def Let_def lookup_points.idByKey [OF stackable_points(1) [OF st]])

text \<open>The stack as a \<open>Define\<close>.\<close>

lemma Stacked_provider:
  "define_provider (\<lambda>(L, fs, s). Stacked L (view s)) (\<lambda>(L, fs, s). fs @ facts s)
     (Stacked_inv view facts inv) (Stacked_define_state view define_fact) (Stacked_args_ok view args_ok)"
proof (rule define_provider.intro, goal_cases)
  case (1 S)
  then show ?case by (auto simp: Stacked_inv_def intro: Stacked_contract split: prod.splits)
next
  case (2 S t c m x)
  obtain L fs s where S: "S = (L, fs, s)" by (cases S)
  have st: "stackable L fs (view s) (facts s)" and i: "inv s" and a: "args_ok s t c m"
    using 2 by (auto simp: S Stacked_inv_def Stacked_args_ok_def)
  have args: "Stacked_args_ok view args_ok (L, fs, s) t c m" using 2 by (simp add: S)
  show ?case
  proof (cases "facts_by_key fs t (Clause_key c)")
    case None
    then have "facts_by_key (facts s) t (Clause_key c) = Some x" using 2(3) by (simp add: S facts_by_key_append)
    then show ?thesis
      using define_existing [OF i a] Stacked_define_top [OF st None] by (simp add: S Stacked_define_state_def)
  next
    case (Some y)
    then have "y = x" using 2(3) by (simp add: S facts_by_key_append)
    then show ?thesis using Stacked_define_base [OF st args Some] by (simp add: S Stacked_define_state_def)
  qed
next
  case (3 S t c m)
  obtain L fs s where S: "S = (L, fs, s)" by (cases S)
  have st: "stackable L fs (view s) (facts s)" and i: "inv s" and a: "args_ok s t c m"
    using 3 by (auto simp: S Stacked_inv_def Stacked_args_ok_def)
  have n: "facts_by_key fs t (Clause_key c) = None" "facts_by_key (facts s) t (Clause_key c) = None"
    using 3(3) by (auto simp: S facts_by_key_append split: option.splits)
  obtain s' where s': "define_fact s t c m = ok (firstFreeId (view s), s')" "inv s'"
    "facts s' = facts s @ [new_fact (view s) t c]" "firstFreeId (view s') = firstFreeId (view s) + 1"
    "startingId (view s') = startingId (view s)"
    using define_new [OF i a n(2)] by blast
  have "stackable L fs (view s') (facts s')"
    using st contract [OF s'(2)] n(1) s'(3,5) by (auto simp: stackable_def facts_by_key_None new_fact_def)
  moreover have "new_fact (Stacked L (view s)) t c = new_fact (view s) t c"
    by (simp add: new_fact_def Stacked_def Let_def)
  ultimately show ?case
    using s' Stacked_define_top [OF st n(1), of m]
    by (intro exI [of _ "(L, fs, s')"]) (simp add: S Stacked_define_state_def Stacked_inv_def Stacked_def Let_def)
qed

end

interpretation stacked_factset:
  define_provider "\<lambda>(L, fs, s). Stacked L (FactSet_lookup s)" "\<lambda>(L, fs, s). fs @ FactSet_facts s"
    "Stacked_inv FactSet_lookup FactSet_facts FactSet_ok" "Stacked_define_state FactSet_lookup FactSet_define"
    "Stacked_args_ok FactSet_lookup FactSet_args_ok"
  by (rule factset.Stacked_provider)

lemma sample_stackable:
  "stackable (FactSet_lookup sample_set) (FactSet_facts sample_set) (FactSet_lookup sample_other) (FactSet_facts sample_other)"
proof -
  have o: "FactSet_facts sample_other = [\<lparr>a_id = 1027, a_type = 5, a_key = [2], a_value = []\<rparr>]" by code_simp
  have "firstFreeId (FactSet_lookup sample_set) \<le> startingId (FactSet_lookup sample_other)" by code_simp
  then show ?thesis
    using FactSet_contract [OF FactSet_reach_ok [OF sample_set_reach]] FactSet_contract [OF sample_other_ok]
    unfolding stackable_def by (simp add: sample_set_facts o)
qed

section \<open>Properties\<close>





text \<open>
  When the base has facts at or above the boundary, which are to be ignored, \<open>seek\<close> also loses
  facts below it: the iteration over the base ends at the first such fact.
\<close>

lemma Stacked_seek_loses_facts:
  "map Ref_view (seek (Stacked (FactSet_lookup sample_set) (FactSet_lookup (FactSet_new 1026))) 7 [1] 1) = [] \<and>
   idByKey (Stacked (FactSet_lookup sample_set) (FactSet_lookup (FactSet_new 1026))) 7 [1, 2] = 1024"
  by code_simp

end
