(* ===== verification/Substitutions.thy ===== *)
theory Substitutions
  imports Ids_Stats
begin

text \<open>
  Substitutions of blocks of consecutive ids (\<^verbatim>\<open>rts/substitution.h\<close>, \<^verbatim>\<open>rts/substitution.cpp\<close>), which
  map the ids of a batch of facts to the ids the facts got in the database, and the renaming of
  ids beyond the block (\<open>Substituter\<close> of \<^verbatim>\<open>rts/inventory.h\<close>). The functions on sets of intervals,
  which rest on boost's interval sets, are not part of the model.
\<close>

section \<open>Substitutions\<close>

record Substitution =
  sub_base :: Id
  sub_items :: "Id list"

definition Substitution_new :: "Id \<Rightarrow> nat \<Rightarrow> Substitution" where
  "Substitution_new first n = \<lparr>sub_base = first, sub_items = replicate n WordId_invalid\<rparr>"

definition Substitution_of :: "Id \<Rightarrow> Id list \<Rightarrow> Substitution" where
  "Substitution_of first ids = \<lparr>sub_base = first, sub_items = ids\<rparr>"

definition Substitution_start :: "Substitution \<Rightarrow> Id" where
  "Substitution_start s = sub_base s"

definition Substitution_finish :: "Substitution \<Rightarrow> Id" where
  "Substitution_finish s = WordId_plus (sub_base s) (of_nat (length (sub_items s)))"

definition Substitution_subst :: "Substitution \<Rightarrow> Id \<Rightarrow> Id" where
  "Substitution_subst s i =
     (if i \<ge> Substitution_start s \<and> i < Substitution_finish s
      then sub_items s ! unat (distance (Substitution_start s) i) else i)"

definition Substitution_set :: "Substitution \<Rightarrow> Id \<Rightarrow> Id \<Rightarrow> Substitution result" where
  "Substitution_set s pos i =
     (if pos \<ge> Substitution_start s \<and> pos < Substitution_finish s
      then ok (s\<lparr>sub_items := (sub_items s)[unat (distance (Substitution_start s) pos) := i]\<rparr>)
      else raise CheckFailed)"

definition Substitution_setAt :: "Substitution \<Rightarrow> nat \<Rightarrow> Id \<Rightarrow> Substitution result" where
  "Substitution_setAt s index i =
     (if index < length (sub_items s) then ok (s\<lparr>sub_items := (sub_items s)[index := i]\<rparr>)
      else raise Undefined)"

definition Substitution_firstFreeId :: "Substitution \<Rightarrow> Id" where
  "Substitution_firstFreeId s =
     (if sub_items s = [] then Substitution_finish s
      else max (WordId_plus (Max (set (sub_items s))) 1) (Substitution_finish s))"

definition Substitution_compose :: "Substitution \<Rightarrow> Substitution \<Rightarrow> Substitution" where
  "Substitution_compose first second =
     \<lparr>sub_base = sub_base first,
      sub_items = map (\<lambda>i. if i < Substitution_finish second then Substitution_subst second i else i)
        (sub_items first)\<rparr>"

text \<open>\<open>toThrift\<close> and \<open>fromThrift\<close> convert between \<open>uint64_t\<close> and \<open>int64_t\<close>.\<close>

definition WordId_toThrift :: "WordId \<Rightarrow> int" where
  "WordId_toThrift w = sint w"

definition WordId_fromThrift :: "int \<Rightarrow> WordId" where
  "WordId_fromThrift i = word_of_int i"

definition Substitution_serialize :: "Substitution \<Rightarrow> int \<times> int list" where
  "Substitution_serialize s = (WordId_toThrift (sub_base s), map WordId_toThrift (sub_items s))"

definition Substitution_deserialize :: "int \<times> int list \<Rightarrow> Substitution" where
  "Substitution_deserialize = (\<lambda>(first, ids).
     \<lparr>sub_base = WordId_fromThrift first, sub_items = map WordId_fromThrift ids\<rparr>)"

definition Substitution_sanityCheck :: "Substitution \<Rightarrow> bool \<Rightarrow> bool" where
  "Substitution_sanityCheck s incomplete =
     (if sub_base s = WordId_invalid then sub_items s = []
      else \<not> sub_base s < WordId_lowest \<and>
        (\<forall>i\<in>set (sub_items s). \<not> (i < WordId_lowest \<and> \<not> (incomplete \<and> \<not> WordId_bool i))))"

text \<open>\<open>Substituter\<close>: ids beyond the block are moved by an offset.\<close>

definition Substituter_rename :: "Substitution \<Rightarrow> Id \<Rightarrow> Id" where
  "Substituter_rename s i = Substitution_subst s i"

definition Substituter_rename_offset :: "Substitution \<Rightarrow> u64 \<Rightarrow> Id \<Rightarrow> Id" where
  "Substituter_rename_offset s offset i =
     (if i < Substitution_finish s then Substitution_subst s i else WordId_plus i offset)"

section \<open>The block of a substitution\<close>

definition Substitution_ok :: "Substitution \<Rightarrow> bool" where
  "Substitution_ok s \<longleftrightarrow> unat (sub_base s) + length (sub_items s) < 2 ^ 64"

definition in_block :: "Substitution \<Rightarrow> Id \<Rightarrow> bool" where
  "in_block s i \<longleftrightarrow> unat (sub_base s) \<le> unat i \<and> unat i < unat (sub_base s) + length (sub_items s)"

lemma unat_Substitution_finish:
  "Substitution_ok s \<Longrightarrow> unat (Substitution_finish s) = unat (sub_base s) + length (sub_items s)"
  by (simp add: Substitution_ok_def Substitution_finish_def WordId_plus_def unat_plus_nat)

lemma Substitution_subst_block:
  assumes "Substitution_ok s"
  shows "Substitution_subst s i = (if in_block s i then sub_items s ! (unat i - unat (sub_base s)) else i)"
  by (auto simp: Substitution_subst_def Substitution_start_def in_block_def word_le_nat_alt word_less_nat_alt
      unat_Substitution_finish [OF assms] unat_distance)

lemma Substitution_subst_at:
  assumes "Substitution_ok s" "n < length (sub_items s)"
  shows "Substitution_subst s (sub_base s + of_nat n) = sub_items s ! n"
proof -
  have "unat (sub_base s + of_nat n) = unat (sub_base s) + n"
    using assms by (intro unat_plus_nat) (simp add: Substitution_ok_def)
  then show ?thesis using assms by (simp add: Substitution_subst_block in_block_def)
qed

lemma Substitution_subst_outside:
  "Substitution_ok s \<Longrightarrow> \<not> in_block s i \<Longrightarrow> Substitution_subst s i = i"
  by (simp add: Substitution_subst_block)

lemma Substitution_setAt_spec:
  assumes "Substitution_ok s" "n < length (sub_items s)"
  shows "\<exists>s'. Substitution_setAt s n i = ok s' \<and> Substitution_ok s' \<and> sub_base s' = sub_base s \<and>
    sub_items s' = (sub_items s)[n := i]"
  using assms by (simp add: Substitution_setAt_def Substitution_ok_def)

text \<open>\<open>set\<close> at a position of the block changes the value there, and only there.\<close>

lemma Substitution_set_subst:
  assumes "Substitution_ok s"
  shows "if in_block s pos
    then \<exists>s'. Substitution_set s pos i = ok s' \<and> Substitution_ok s' \<and>
      (\<forall>j. Substitution_subst s' j = (if j = pos then i else Substitution_subst s j))
    else Substitution_set s pos i = raise CheckFailed"
proof (cases "in_block s pos")
  case True
  define s' where "s' = s\<lparr>sub_items := (sub_items s)[unat (distance (Substitution_start s) pos) := i]\<rparr>"
  have d: "unat (distance (Substitution_start s) pos) = unat pos - unat (sub_base s)"
    using True by (simp add: Substitution_start_def in_block_def unat_distance word_le_nat_alt)
  have "Substitution_set s pos i = ok s'"
    using True unat_Substitution_finish [OF assms]
    by (simp add: Substitution_set_def s'_def Substitution_start_def in_block_def word_le_nat_alt word_less_nat_alt)
  moreover have s': "Substitution_ok s'" "\<And>j. in_block s' j = in_block s j" "sub_base s' = sub_base s"
    using assms by (auto simp: s'_def Substitution_ok_def in_block_def)
  moreover have "Substitution_subst s' j = (if j = pos then i else Substitution_subst s j)" for j
  proof -
    have "j = pos \<longleftrightarrow> unat j = unat pos" by (metis unsigned_word_eqI)
    then show ?thesis
      using True d unfolding Substitution_subst_block [OF s'(1)] Substitution_subst_block [OF assms] s'(2,3)
      by (auto simp: s'_def in_block_def nth_list_update)
  qed
  ultimately show ?thesis using True by auto
next
  case False
  then show ?thesis
    using unat_Substitution_finish [OF assms]
    by (auto simp: Substitution_set_def Substitution_start_def in_block_def word_le_nat_alt word_less_nat_alt)
qed

section \<open>Properties\<close>

lemma compose_items:
  assumes "Substitution_ok g"
  shows "sub_items (Substitution_compose f g) = map (Substitution_subst g) (sub_items f)"
proof -
  have "(if i < Substitution_finish g then Substitution_subst g i else i) = Substitution_subst g i" for i
    using Substitution_subst_outside [OF assms, of i]
    by (auto simp: in_block_def word_less_nat_alt unat_Substitution_finish [OF assms])
  then show ?thesis by (simp add: Substitution_compose_def)
qed

lemma compose_subst:
  assumes "Substitution_ok f" "Substitution_ok g"
  shows "Substitution_subst (Substitution_compose f g) i =
    (if in_block f i then Substitution_subst g (Substitution_subst f i) else i)"
proof -
  have ok: "Substitution_ok (Substitution_compose f g)"
    using assms(1) by (simp add: Substitution_ok_def Substitution_compose_def)
  have "in_block (Substitution_compose f g) i = in_block f i"
    by (simp add: in_block_def Substitution_compose_def)
  moreover have "sub_base (Substitution_compose f g) = sub_base f"
    by (simp add: Substitution_compose_def)
  ultimately show ?thesis
    by (auto simp: Substitution_subst_block [OF ok] compose_items [OF assms(2)] Substitution_subst_block [OF assms(1)]
        in_block_def)
qed

lemma compose_assoc_iff:
  assumes "Substitution_ok f" "Substitution_ok g" "Substitution_ok h"
  shows "Substitution_compose f (Substitution_compose g h) = Substitution_compose (Substitution_compose f g) h \<longleftrightarrow>
    (\<forall>j\<in>set (sub_items f). in_block g j \<or> Substitution_subst h j = j)"
proof -
  have gh: "Substitution_ok (Substitution_compose g h)"
    using assms(2) by (simp add: Substitution_ok_def Substitution_compose_def)
  have "sub_items (Substitution_compose f (Substitution_compose g h)) = sub_items (Substitution_compose (Substitution_compose f g) h) \<longleftrightarrow>
      (\<forall>j\<in>set (sub_items f). Substitution_subst (Substitution_compose g h) j = Substitution_subst h (Substitution_subst g j))"
    by (simp add: compose_items gh assms)
  also have "\<dots> \<longleftrightarrow> (\<forall>j\<in>set (sub_items f). in_block g j \<or> Substitution_subst h j = j)"
    by (auto simp: compose_subst assms Substitution_subst_outside)
  finally show ?thesis
    by (simp add: Substitution_compose_def)
qed



text \<open>
  \<open>firstFreeId\<close> is past the block and past every id the block is mapped to, unless such an id is
  the largest 64-bit number.
\<close>

theorem Substitution_firstFreeId_free:
  assumes "Substitution_ok s" and "max_u64 \<notin> set (sub_items s)"
  shows "Substitution_finish s \<le> Substitution_firstFreeId s \<and>
    (\<forall>i. in_block s i \<longrightarrow> Substitution_subst s i < Substitution_firstFreeId s)"
proof -
  have fin: "Substitution_finish s \<le> Substitution_firstFreeId s"
    by (simp add: Substitution_firstFreeId_def)
  have "i < Substitution_firstFreeId s" if i: "i \<in> set (sub_items s)" for i
  proof -
    let ?m = "Max (set (sub_items s))"
    have "?m \<in> set (sub_items s)" using i by (intro Max_in) auto
    then have "?m \<noteq> max_u64" using assms(2) by auto
    then have "unat ?m \<noteq> unat max_u64" by (metis unsigned_word_eqI)
    then have "unat ?m + 1 < 2 ^ 64" using unat_lt_64 [of ?m] unat_max_u64 by simp
    then have "unat (?m + 1) = unat ?m + 1" using unat_plus_nat [of ?m 1] by simp
    moreover have "i \<le> ?m" using i by simp
    ultimately have "i < ?m + 1" by (simp add: word_less_nat_alt word_le_nat_alt)
    moreover have "sub_items s \<noteq> []" using i by auto
    ultimately show ?thesis by (simp add: Substitution_firstFreeId_def WordId_plus_def less_max_iff_disj)
  qed
  then show ?thesis
    using fin by (auto simp: Substitution_subst_block [OF assms(1)] in_block_def)
qed

theorem Substitution_firstFreeId_free_witness:
  "in_block (Substitution_of 1024 [2000, 7]) 1024 \<and>
   Substitution_subst (Substitution_of 1024 [2000, 7]) 1024 < Substitution_firstFreeId (Substitution_of 1024 [2000, 7])"
proof -
  have "Substitution_ok (Substitution_of 1024 [2000, 7])" "max_u64 \<notin> set (sub_items (Substitution_of 1024 [2000, 7]))"
    by (simp_all add: Substitution_ok_def Substitution_of_def max_u64_def)
  moreover have "in_block (Substitution_of 1024 [2000, 7]) 1024"
    by (simp add: in_block_def Substitution_of_def)
  ultimately show ?thesis using Substitution_firstFreeId_free by blast
qed

text \<open>A substitution survives the conversion to Thrift's signed numbers and back.\<close>

theorem Substitution_thrift_roundtrip: "Substitution_deserialize (Substitution_serialize s) = s"
  by (simp add: Substitution_deserialize_def Substitution_serialize_def WordId_fromThrift_def WordId_toThrift_def comp_def)

end
