(* ===== verification/Inventories.thy ===== *)
theory Inventories
  imports Facts Substitutions
begin

text \<open>
  Predicates and inventories of predicates (\<^verbatim>\<open>rts/inventory.h\<close>, \<^verbatim>\<open>rts/inventory.cpp\<close>).

  A predicate carries a typechecker, a bytecode subroutine that the schema compiler generates. It
  is a parameter of the model: a function from a clause to its run. A run asks the renamer for the
  ids of the facts the clause refers to, one at a time, each answer deciding how it goes on, and
  ends with the substituted clause and the size of its key, or with an error.
\<close>

section \<open>Typechecker runs and renamers\<close>

datatype tc_run = TcDone bytes u64 | TcError err | TcRename Id Pid "Id \<Rightarrow> tc_run"

text \<open>A renamer may update a state of its own (\<open>max_ref\<close> in \<open>defineUntrustedBatch\<close>).\<close>

type_synonym 'm Renamer = "Id \<Rightarrow> Pid \<Rightarrow> 'm \<Rightarrow> (Id \<times> 'm) result"

primrec run_typecheck :: "'m Renamer \<Rightarrow> tc_run \<Rightarrow> 'm \<Rightarrow> ((bytes \<times> u64) \<times> 'm) result" where
  "run_typecheck rename (TcDone out ks) m = ok ((out, ks), m)"
| "run_typecheck rename (TcError e) m = raise e"
| "run_typecheck rename (TcRename i t k) m =
     (case rename i t m of
        Inl e \<Rightarrow> raise e
      | Inr (j, m') \<Rightarrow> run_typecheck rename (k j) m')"

record Predicate =
  pred_id :: Pid
  pred_name :: string
  pred_version :: int
  typechecker :: "Clause \<Rightarrow> tc_run"
  traverser :: "Clause \<Rightarrow> (Id \<times> Pid) list"

definition Predicate_typecheck ::
  "Predicate \<Rightarrow> 'm Renamer \<Rightarrow> Clause \<Rightarrow> 'm \<Rightarrow> ((bytes \<times> u64) \<times> 'm) result" where
  "Predicate_typecheck p rename clause m = run_typecheck rename (typechecker p clause) m"

definition Substituter_renamer :: "(Id \<Rightarrow> Id) \<Rightarrow> unit Renamer" where
  "Substituter_renamer f = (\<lambda>i _ m. ok (f i, m))"

definition Predicate_substitute :: "Predicate \<Rightarrow> (Id \<Rightarrow> Id) \<Rightarrow> Clause \<Rightarrow> (bytes \<times> u64) result" where
  "Predicate_substitute p f clause =
     rbind (Predicate_typecheck p (Substituter_renamer f) clause ()) (\<lambda>(r, _). ok r)"

definition Predicate_traverse :: "Predicate \<Rightarrow> (Id \<Rightarrow> Pid \<Rightarrow> 'm \<Rightarrow> 'm) \<Rightarrow> Clause \<Rightarrow> 'm \<Rightarrow> 'm" where
  "Predicate_traverse p handler clause m = fold (\<lambda>(i, t). handler i t) (traverser p clause) m"

section \<open>Inventories\<close>

record Inventory =
  inv_first_id :: Pid
  inv_preds :: "Predicate list"

definition no_predicate :: Predicate where
  "no_predicate = \<lparr>pred_id = WordId_invalid, pred_name = [], pred_version = 0,
     typechecker = (\<lambda>_. TcError Undefined), traverser = (\<lambda>_. [])\<rparr>"

definition Inventory_empty :: Inventory where
  "Inventory_empty = \<lparr>inv_first_id = WordId_lowest, inv_preds = []\<rparr>"

definition Inventory_of :: "Predicate list \<Rightarrow> Inventory" where
  "Inventory_of ps =
     (let first_id = fold (\<lambda>p. min (pred_id p)) ps WordId_lowest;
          last_id = fold (\<lambda>p. max (WordId_plus (pred_id p) 1)) ps WordId_lowest
      in \<lparr>inv_first_id = first_id,
          inv_preds = fold (\<lambda>p preds. preds[unat (distance first_id (pred_id p)) := p]) ps
            (replicate (unat (distance first_id last_id)) no_predicate)\<rparr>)"

definition lookupPredicate :: "Inventory \<Rightarrow> Pid \<Rightarrow> Predicate option" where
  "lookupPredicate inventory i =
     (if i \<ge> inv_first_id inventory then
        let n = unat (distance (inv_first_id inventory) i) in
        if n < length (inv_preds inventory) \<and> WordId_bool (pred_id (inv_preds inventory ! n))
        then Some (inv_preds inventory ! n) else None
      else None)"

definition Inventory_firstFreeId :: "Inventory \<Rightarrow> Pid" where
  "Inventory_firstFreeId inventory = WordId_plus (inv_first_id inventory) (of_nat (length (inv_preds inventory)))"

definition Inventory_predicates :: "Inventory \<Rightarrow> Predicate list" where
  "Inventory_predicates inventory = filter (\<lambda>p. WordId_bool (pred_id p)) (inv_preds inventory)"

section \<open>Looking up what was put in\<close>

lemma fold_min_le: "fold (\<lambda>p. min (f p)) ps a \<le> (a :: u64)" "p \<in> set ps \<Longrightarrow> fold (\<lambda>p. min (f p)) ps a \<le> f p"
proof -
  show 1: "fold (\<lambda>p. min (f p)) ps a \<le> a" for ps a
  proof (induction ps arbitrary: a)
    case (Cons x ps)
    show ?case using Cons.IH [of "min (f x) a"] by simp
  qed simp
  show "p \<in> set ps \<Longrightarrow> fold (\<lambda>p. min (f p)) ps a \<le> f p"
  proof (induction ps arbitrary: a)
    case (Cons x ps)
    then show ?case using 1 [of ps "min (f x) a"] by auto
  qed simp
qed

lemma fold_max_ge: "(a :: u64) \<le> fold (\<lambda>p. max (f p)) ps a" "p \<in> set ps \<Longrightarrow> f p \<le> fold (\<lambda>p. max (f p)) ps a"
proof -
  show 1: "a \<le> fold (\<lambda>p. max (f p)) ps a" for ps a
  proof (induction ps arbitrary: a)
    case (Cons x ps)
    show ?case using Cons.IH [of "max (f x) a"] by simp
  qed simp
  show "p \<in> set ps \<Longrightarrow> f p \<le> fold (\<lambda>p. max (f p)) ps a"
  proof (induction ps arbitrary: a)
    case (Cons x ps)
    then show ?case using 1 [of "max (f x) a" ps] by auto
  qed simp
qed

lemma fold_update_length [simp]: "length (fold (\<lambda>p xs. xs[idx p := p]) ps xs) = length xs"
  by (induction ps arbitrary: xs) auto

lemma fold_update_nth:
  assumes "\<forall>p\<in>set ps. idx p < length xs" "n < length xs"
  shows "fold (\<lambda>p xs. xs[idx p := p]) ps xs ! n =
      (case find (\<lambda>p. idx p = n) (rev ps) of Some p \<Rightarrow> p | None \<Rightarrow> xs ! n)"
  using assms by (induction ps rule: rev_induct) (auto simp: nth_list_update)

text \<open>The range of ids the constructor computes covers all predicates.\<close>

lemma Inventory_of_range:
  assumes ps: "\<And>p. p \<in> set ps \<Longrightarrow> unat (pred_id p) + 1 < 2 ^ 64"
  defines "a \<equiv> fold (\<lambda>p. min (pred_id p)) ps WordId_lowest"
    and "b \<equiv> fold (\<lambda>p. max (WordId_plus (pred_id p) 1)) ps WordId_lowest"
  shows "unat a \<le> unat b" "p \<in> set ps \<Longrightarrow> unat a \<le> unat (pred_id p) \<and> unat (pred_id p) < unat b"
proof -
  show "unat a \<le> unat b"
    using fold_min_le(1) [of pred_id ps WordId_lowest] fold_max_ge(1) [of WordId_lowest "\<lambda>p. WordId_plus (pred_id p) 1" ps]
    by (simp add: a_def b_def word_le_nat_alt)
  show "unat a \<le> unat (pred_id p) \<and> unat (pred_id p) < unat b" if "p \<in> set ps"
    using fold_min_le(2) [OF that, of pred_id WordId_lowest]
      fold_max_ge(2) [OF that, of "\<lambda>p. WordId_plus (pred_id p) 1" WordId_lowest]
      ps [OF that] unat_plus_nat [of "pred_id p" 1]
    by (simp add: a_def b_def word_le_nat_alt WordId_plus_def)
qed

lemma lookup_Inventory_of:
  assumes ps: "\<And>p. p \<in> set ps \<Longrightarrow> unat (pred_id p) + 1 < 2 ^ 64" and i: "i \<noteq> WordId_invalid"
  shows "lookupPredicate (Inventory_of ps) i = find (\<lambda>p. pred_id p = i) (rev ps)"
proof -
  define a where "a = fold (\<lambda>p. min (pred_id p)) ps WordId_lowest"
  define b where "b = fold (\<lambda>p. max (WordId_plus (pred_id p) 1)) ps WordId_lowest"
  let ?idx = "\<lambda>p. unat (distance a (pred_id p))"
  let ?xs = "replicate (unat (distance a b)) no_predicate"
  have r: "unat a \<le> unat b" "\<And>p. p \<in> set ps \<Longrightarrow> unat a \<le> unat (pred_id p) \<and> unat (pred_id p) < unat b"
    unfolding a_def b_def using Inventory_of_range [of ps] ps by blast+
  have idx: "?idx p = unat (pred_id p) - unat a" if "p \<in> set ps" for p
    using r(2) [OF that] by (simp add: unat_distance word_le_nat_alt)
  have len: "unat (distance a b) = unat b - unat a" using r(1) by (simp add: unat_distance word_le_nat_alt)
  have inb: "\<forall>p\<in>set ps. ?idx p < length ?xs"
  proof
    fix p assume "p \<in> set ps"
    then show "?idx p < length ?xs" using r(2) [of p] idx [of p] len by auto
  qed
  have inv: "Inventory_of ps = \<lparr>inv_first_id = a, inv_preds = fold (\<lambda>p xs. xs[?idx p := p]) ps ?xs\<rparr>"
    by (simp add: Inventory_of_def Let_def a_def b_def)
  define n where "n = unat (distance a i)"
  show ?thesis
  proof (cases "a \<le> i \<and> n < length ?xs")
    case True
    then have n: "n = unat i - unat a" "unat a \<le> unat i" by (auto simp: n_def unat_distance word_le_nat_alt)
    have eq: "?idx p = n \<longleftrightarrow> pred_id p = i" if "p \<in> set ps" for p
    proof -
      have "pred_id p = i \<longleftrightarrow> unat (pred_id p) = unat i" by (metis unsigned_word_eqI)
      then show ?thesis using idx [OF that] r(2) [OF that] n by auto
    qed
    have "find (\<lambda>p. ?idx p = n) (rev ps) = find (\<lambda>p. pred_id p = i) (rev ps)"
      using eq by (intro find_cong) auto
    then have f: "fold (\<lambda>p xs. xs[?idx p := p]) ps ?xs ! n =
        (case find (\<lambda>p. pred_id p = i) (rev ps) of Some p \<Rightarrow> p | None \<Rightarrow> ?xs ! n)"
      using fold_update_nth [OF inb] True by simp
    show ?thesis
    proof (cases "find (\<lambda>p. pred_id p = i) (rev ps)")
      case None
      then show ?thesis
        using True f by (simp add: lookupPredicate_def inv Let_def n_def [symmetric] no_predicate_def)
    next
      case (Some p)
      then have "pred_id p = i" by (auto simp: find_Some_iff)
      then show ?thesis
        using True f i Some by (simp add: lookupPredicate_def inv Let_def n_def [symmetric])
    qed
  next
    case False
    then have "find (\<lambda>p. pred_id p = i) (rev ps) = None"
      using r(2) inb by (auto simp: find_None_iff n_def word_le_nat_alt)
    with False show ?thesis by (auto simp: lookupPredicate_def inv Let_def n_def)
  qed
qed

text \<open>
  An inventory built from a list of predicates finds exactly them: looking up a valid id gives
  the last predicate of the list with that id, and nothing when there is none.
\<close>

theorem Inventory_lookup:
  assumes "\<And>p. p \<in> set ps \<Longrightarrow> unat (pred_id p) + 1 < 2 ^ 64" and "i \<noteq> WordId_invalid"
  shows "lookupPredicate (Inventory_of ps) i = find (\<lambda>p. pred_id p = i) (rev ps)"
  by (rule lookup_Inventory_of [OF assms])

theorem Inventory_lookup_witness:
  "lookupPredicate (Inventory_of [no_predicate\<lparr>pred_id := 7, pred_version := 1\<rparr>, no_predicate\<lparr>pred_id := 1030\<rparr>,
      no_predicate\<lparr>pred_id := 7, pred_version := 2\<rparr>]) 7 = Some (no_predicate\<lparr>pred_id := 7, pred_version := 2\<rparr>)"
  by (subst Inventory_lookup) (auto simp: WordId_invalid_def)

end
