(* ===== verification/Define_Batch.thy ===== *)
theory Define_Batch
  imports Inventories Stacked_Lookup
begin

text \<open>
  Adding a batch of serialized facts (\<open>defineUntrustedBatch\<close>, \<^verbatim>\<open>rts/define.cpp\<close>), copying and checking
  the facts of a lookup (\<open>copyFacts\<close> of \<^verbatim>\<open>rts/store.h\<close>, \<open>validate\<close> of \<^verbatim>\<open>rts/validate.cpp\<close>), and
  \<open>FactSet::rebase\<close> (\<^verbatim>\<open>rts/factset.cpp\<close>).

  The loop of \<open>defineUntrustedBatch\<close> is written over the two functions of the \<open>Define\<close> object it
  calls. Instantiated with \<open>facts_type\<close> and \<open>facts_define\<close>, which work on a list of facts, it is
  the specification; the main theorem is that the loop over any \<open>Define\<close> object behaves like it.
\<close>

section \<open>defineUntrustedBatch\<close>

text \<open>The renamer: it finds the fact an id of the batch stands for and checks its predicate.\<close>

definition batch_rename ::
  "('s \<Rightarrow> Id \<Rightarrow> Pid) \<Rightarrow> Inventory \<Rightarrow> Substitution \<Rightarrow> (Id \<rightharpoonup> Id) \<Rightarrow> 's \<Rightarrow> Id Renamer" where
  "batch_rename tyOf inventory subst idmap s = (\<lambda>i type max_ref.
     let real_id = Substitution_subst subst (case idmap i of None \<Rightarrow> i | Some j \<Rightarrow> j);
         real_type = tyOf s real_id
     in if real_type = type then ok (real_id, if real_id > max_ref then real_id else max_ref)
        else if \<not> WordId_bool real_type then raise (RtsError ''invalid fact'')
        else if Option.is_none (lookupPredicate inventory type) \<or> Option.is_none (lookupPredicate inventory real_type)
          then raise CheckFailed
        else raise (RtsError ''invalid reference to fact''))"

record 's batch_state =
  bs_state :: 's
  bs_subst :: Substitution
  bs_idmap :: "Id \<rightharpoonup> Id"
  bs_input :: bytes

text \<open>The body of the loop over the facts of the batch.\<close>

definition batch_step ::
  "varint_dec \<Rightarrow> ('s \<Rightarrow> Id \<Rightarrow> Pid) \<Rightarrow> ('s \<Rightarrow> Pid \<Rightarrow> Clause \<Rightarrow> Id \<Rightarrow> (Id \<times> 's) result) \<Rightarrow>
   Inventory \<Rightarrow> Id \<Rightarrow> Id list option \<Rightarrow> nat \<Rightarrow> 's batch_state \<Rightarrow> 's batch_state result" where
  "batch_step dec tyOf dfn inventory first ids i b =
     rbind (Fact_deserialize dec (bs_input b)) (\<lambda>((ty, clause), input).
     case lookupPredicate inventory ty of
       None \<Rightarrow> raise (RtsError ''invalid predicate id'')
     | Some predicate \<Rightarrow>
         rbind (Predicate_typecheck predicate
                  (batch_rename tyOf inventory (bs_subst b) (bs_idmap b) (bs_state b)) clause WordId_invalid)
           (\<lambda>((out, ks), max_ref).
         rbind (dfn (bs_state b) ty (Clause_from out ks) max_ref) (\<lambda>(fid, s').
         if \<not> WordId_bool fid then raise (RtsError ''invalid fact redefinition'')
         else
           rbind (Substitution_setAt (bs_subst b) i fid) (\<lambda>subst'.
           case ids of
             None \<Rightarrow> ok \<lparr>bs_state = s', bs_subst = subst', bs_idmap = bs_idmap b, bs_input = input\<rparr>
           | Some l \<Rightarrow>
               if i < length l then
                 ok \<lparr>bs_state = s', bs_subst = subst',
                     bs_idmap = (if WordId_bool (l ! i) then (bs_idmap b)(l ! i \<mapsto> WordId_plus first (of_nat i))
                                 else bs_idmap b),
                     bs_input = input\<rparr>
               else raise Undefined))))"

primrec batch_loop ::
  "varint_dec \<Rightarrow> ('s \<Rightarrow> Id \<Rightarrow> Pid) \<Rightarrow> ('s \<Rightarrow> Pid \<Rightarrow> Clause \<Rightarrow> Id \<Rightarrow> (Id \<times> 's) result) \<Rightarrow>
   Inventory \<Rightarrow> Id \<Rightarrow> Id list option \<Rightarrow> nat \<Rightarrow> 's batch_state \<Rightarrow> 's batch_state result" where
  "batch_loop dec tyOf dfn inventory first ids 0 b = ok b"
| "batch_loop dec tyOf dfn inventory first ids (Suc i) b =
     rbind (batch_loop dec tyOf dfn inventory first ids i b)
       (batch_step dec tyOf dfn inventory first ids i)"

definition defineUntrustedBatch ::
  "varint_dec \<Rightarrow> ('s \<Rightarrow> Id \<Rightarrow> Pid) \<Rightarrow> ('s \<Rightarrow> Pid \<Rightarrow> Clause \<Rightarrow> Id \<Rightarrow> (Id \<times> 's) result) \<Rightarrow>
   's \<Rightarrow> Inventory \<Rightarrow> Id \<Rightarrow> Id list option \<Rightarrow> nat \<Rightarrow> bytes \<Rightarrow> (Substitution \<times> 's) result" where
  "defineUntrustedBatch dec tyOf dfn s inventory first ids n batch =
     (if first < WordId_lowest then raise (RtsError ''invalid base id'')
      else rbind (batch_loop dec tyOf dfn inventory first ids n
                    \<lparr>bs_state = s, bs_subst = Substitution_new first n, bs_idmap = (\<lambda>_. None), bs_input = batch\<rparr>)
             (\<lambda>b. ok (bs_subst b, bs_state b)))"

section \<open>The specification: a list of facts\<close>

type_synonym fact_list = "afact list \<times> Id"

definition facts_type :: "fact_list \<Rightarrow> Id \<Rightarrow> Pid" where
  "facts_type = (\<lambda>(fs, free) i. case facts_by_id fs i of None \<Rightarrow> WordId_invalid | Some a \<Rightarrow> a_type a)"

definition facts_define :: "fact_list \<Rightarrow> Pid \<Rightarrow> Clause \<Rightarrow> Id \<Rightarrow> (Id \<times> fact_list) result" where
  "facts_define = (\<lambda>(fs, free) t c m.
     case facts_by_key fs t (Clause_key c) of
       Some a \<Rightarrow> ok (if a_value a = Clause_value c then a_id a else WordId_invalid, fs, free)
     | None \<Rightarrow> ok (free, fs @ [\<lparr>a_id = free, a_type = t, a_key = Clause_key c, a_value = Clause_value c\<rparr>], free + 1))"

text \<open>The clauses a typechecker may deliver for a clause of its predicate.\<close>

definition typechecks :: "Inventory \<Rightarrow> Pid \<Rightarrow> Clause \<Rightarrow> Clause \<Rightarrow> bool" where
  "typechecks inventory t clause c \<longleftrightarrow> (\<exists>p rename (m :: Id) out ks m'.
     lookupPredicate inventory t = Some p \<and>
     Predicate_typecheck p rename clause m = ok ((out, ks), m') \<and> c = Clause_from out ks)"

definition typechecks_to :: "Inventory \<Rightarrow> Pid \<Rightarrow> Clause \<Rightarrow> bool" where
  "typechecks_to inventory t c \<longleftrightarrow> (\<exists>clause. typechecks inventory t clause c)"

text \<open>Two batch states that differ in the object only.\<close>

definition same_batch :: "('s \<Rightarrow> 'r \<Rightarrow> bool) \<Rightarrow> 's batch_state \<Rightarrow> 'r batch_state \<Rightarrow> bool" where
  "same_batch R b c \<longleftrightarrow> R (bs_state b) (bs_state c) \<and> bs_subst b = bs_subst c \<and> bs_idmap b = bs_idmap c \<and>
     bs_input b = bs_input c"

definition rel_result :: "('a \<Rightarrow> 'b \<Rightarrow> bool) \<Rightarrow> 'a result \<Rightarrow> 'b result \<Rightarrow> bool" where
  "rel_result R x y = rel_sum (=) R x y"

lemma rel_result_simps [simp]:
  "rel_result R (ok a) (ok b) = R a b" "rel_result R (raise e) (raise e') = (e = e')"
  "\<not> rel_result R (ok a) (raise e)" "\<not> rel_result R (raise e) (ok b)"
  by (simp_all add: rel_result_def ok_def raise_def)

lemma rel_result_rbind:
  "rel_result R x y \<Longrightarrow> (\<And>a b. x = ok a \<Longrightarrow> y = ok b \<Longrightarrow> R a b \<Longrightarrow> rel_result S (f a) (g b)) \<Longrightarrow>
   rel_result S (rbind x f) (rbind y g)"
  by (cases x rule: result_cases; cases y rule: result_cases) auto

lemma rel_result_rbind_same:
  "(\<And>a. x = ok a \<Longrightarrow> rel_result S (f a) (g a)) \<Longrightarrow> rel_result S (rbind x f) (rbind x g)"
  by (cases x rule: result_cases) auto

lemma batch_step_sim:
  assumes R: "same_batch R b c"
    and ty: "\<And>s r i. R s r \<Longrightarrow> tyOf s i = tyOf' r i"
    and dfn: "\<And>s r t cl m. R s r \<Longrightarrow> typechecks_to inventory t cl \<Longrightarrow>
      rel_result (\<lambda>(i, s') (j, r'). i = j \<and> R' s' r') (dfn s t cl m) (dfn' r t cl m)"
  shows "rel_result (same_batch R') (batch_step dec tyOf dfn inventory first ids i b)
    (batch_step dec tyOf' dfn' inventory first ids i c)"
proof -
  have eqs: "bs_subst c = bs_subst b" "bs_idmap c = bs_idmap b" "bs_input c = bs_input b" "R (bs_state b) (bs_state c)"
    using R by (auto simp: same_batch_def)
  have ren: "batch_rename tyOf' inventory (bs_subst b) (bs_idmap b) (bs_state c) =
      batch_rename tyOf inventory (bs_subst b) (bs_idmap b) (bs_state b)"
    using ty [OF eqs(4)] by (simp add: batch_rename_def fun_eq_iff)
  have step: "rel_result (same_batch R')
      (rbind (dfn (bs_state b) t cl m) (\<lambda>(fid, s'). f fid s'))
      (rbind (dfn' (bs_state c) t cl m) (\<lambda>(fid, s'). g fid s'))"
    if "typechecks_to inventory t cl" "\<And>fid s' r'. R' s' r' \<Longrightarrow> rel_result (same_batch R') (f fid s') (g fid r')"
    for t cl m f g
    by (rule rel_result_rbind [OF dfn [OF eqs(4) that(1)]]) (auto intro: that(2))
  show ?thesis
    unfolding batch_step_def eqs(1-3) ren
  proof (rule rel_result_rbind_same, clarify, goal_cases)
    case (1 t clause rest)
    show ?case
    proof (cases "lookupPredicate inventory t")
      case (Some p)
      show ?thesis
        unfolding Some option.case
      proof (rule rel_result_rbind_same, clarify, goal_cases)
        case (1 out ks m)
        then have "typechecks_to inventory t (Clause_from out ks)" using Some unfolding typechecks_to_def typechecks_def by blast
        then show ?case
          by (rule step) (auto simp: same_batch_def intro!: rel_result_rbind_same split: option.splits)
      qed
    qed simp
  qed
qed

lemma batch_loop_sim:
  assumes R: "same_batch (R 0) b c"
    and ty: "\<And>k s r i. R k s r \<Longrightarrow> tyOf s i = tyOf' r i"
    and dfn: "\<And>k s r t cl m. k < n \<Longrightarrow> R k s r \<Longrightarrow> typechecks_to inventory t cl \<Longrightarrow>
      rel_result (\<lambda>(i, s') (j, r'). i = j \<and> R (Suc k) s' r') (dfn s t cl m) (dfn' r t cl m)"
  shows "k \<le> n \<Longrightarrow> rel_result (same_batch (R k)) (batch_loop dec tyOf dfn inventory first ids k b)
    (batch_loop dec tyOf' dfn' inventory first ids k c)"
proof (induction k)
  case (Suc k)
  show ?case
    unfolding batch_loop.simps
  proof (rule rel_result_rbind)
    show "rel_result (same_batch (R k)) (batch_loop dec tyOf dfn inventory first ids k b)
        (batch_loop dec tyOf' dfn' inventory first ids k c)"
      using Suc by simp
    show "rel_result (same_batch (R (Suc k))) (batch_step dec tyOf dfn inventory first ids k b')
        (batch_step dec tyOf' dfn' inventory first ids k c')" if "same_batch (R k) b' c'" for b' c'
      using that ty dfn [of k] Suc.prems by (intro batch_step_sim [where R = "R k"]) auto
  qed
qed (use R in simp)

text \<open>After \<open>k\<close> of \<open>n\<close> facts: the object has the facts of the list, and ids left for the rest.\<close>

definition batch_room ::
  "('s \<Rightarrow> Lookup) \<Rightarrow> ('s \<Rightarrow> afact list) \<Rightarrow> ('s \<Rightarrow> bool) \<Rightarrow> nat \<Rightarrow> nat \<Rightarrow> 's \<Rightarrow> fact_list \<Rightarrow> bool" where
  "batch_room view facts winv n k s r \<longleftrightarrow> winv s \<and> facts s = fst r \<and> firstFreeId (view s) = snd r \<and>
     unat (firstFreeId (view s)) + (n - k) < 2 ^ 64"

context define_provider
begin

lemma room_type: "batch_room view facts inv n k s r \<Longrightarrow> typeById (view s) i = facts_type r i"
  using lookup_points.typeById [OF points] by (auto simp: batch_room_def facts_type_def split: prod.splits)

lemma batch_room_define:
  assumes "k < n" "batch_room view facts inv n k s r" "args_ok s t c m"
  shows "rel_result (\<lambda>(i, s') (j, r'). i = j \<and> batch_room view facts inv n (Suc k) s' r') (define_fact s t c m) (facts_define r t c m)"
proof (cases "facts_by_key (facts s) t (Clause_key c)")
  case None
  have i: "inv s" using assms(2) by (simp add: batch_room_def)
  obtain s' where s': "define_fact s t c m = ok (firstFreeId (view s), s')" "inv s'"
    "facts s' = facts s @ [new_fact (view s) t c]" "firstFreeId (view s') = firstFreeId (view s) + 1"
    using define_new [OF i assms(3) None] by blast
  have "unat (firstFreeId (view s)) + 1 < 2 ^ 64" using assms(1,2) by (auto simp: batch_room_def)
  then have "unat (firstFreeId (view s')) = unat (firstFreeId (view s)) + 1"
    using s'(4) unat_plus_nat [of "firstFreeId (view s)" 1] by simp
  then show ?thesis
    using assms(1,2) s' None by (cases r) (auto simp: batch_room_def facts_define_def new_fact_def)
next
  case (Some a)
  then show ?thesis
    using define_existing [OF _ assms(3) Some] assms(1,2) by (cases r) (auto simp: batch_room_def facts_define_def)
qed

text \<open>The batch over the object does what it does over the list of its facts.\<close>

lemma defineUntrustedBatch_refines:
  assumes s: "inv s" and room: "unat (firstFreeId (view s)) + n < 2 ^ 64"
    and args: "\<And>s t c m. inv s \<Longrightarrow> unat (firstFreeId (view s)) + 1 < 2 ^ 64 \<Longrightarrow> typechecks_to inventory t c \<Longrightarrow> args_ok s t c m"
  shows "rel_result (\<lambda>(subst, s') (subst', fs, free). subst = subst' \<and> inv s' \<and> facts s' = fs \<and> firstFreeId (view s') = free)
    (defineUntrustedBatch dec (\<lambda>s. typeById (view s)) define_fact s inventory first ids n batch)
    (defineUntrustedBatch dec facts_type facts_define (facts s, firstFreeId (view s)) inventory first ids n batch)"
proof (cases "first < WordId_lowest")
  case False
  let ?b = "\<lambda>s. \<lparr>bs_state = s, bs_subst = Substitution_new first n, bs_idmap = (\<lambda>_. None), bs_input = batch\<rparr>"
  have "rel_result (same_batch (batch_room view facts inv n n))
      (batch_loop dec (\<lambda>s. typeById (view s)) define_fact inventory first ids n (?b s))
      (batch_loop dec facts_type facts_define inventory first ids n (?b (facts s, firstFreeId (view s))))"
  proof (rule batch_loop_sim [where n = n and R = "batch_room view facts inv n"])
    show "same_batch (batch_room view facts inv n 0) (?b s) (?b (facts s, firstFreeId (view s)))"
      using s room by (simp add: same_batch_def batch_room_def)
    show "rel_result (\<lambda>(i, s') (j, r'). i = j \<and> batch_room view facts inv n (Suc k) s' r') (define_fact s t c m) (facts_define r t c m)"
      if "k < n" "batch_room view facts inv n k s r" "typechecks_to inventory t c" for k s r t c m
      using that by (intro batch_room_define args) (auto simp: batch_room_def)
  qed (simp_all add: room_type)
  then show ?thesis
    using False unfolding defineUntrustedBatch_def
    by simp (erule rel_result_rbind, auto simp: same_batch_def batch_room_def)
qed (simp add: defineUntrustedBatch_def)

end

section \<open>What a batch achieves\<close>

text \<open>The facts of a batch, as they are deserialized.\<close>

primrec batch_facts :: "varint_dec \<Rightarrow> nat \<Rightarrow> bytes \<Rightarrow> ((Pid \<times> Clause) list \<times> bytes) result" where
  "batch_facts dec 0 inp = ok ([], inp)"
| "batch_facts dec (Suc k) inp =
     rbind (batch_facts dec k inp) (\<lambda>(l, r). rbind (Fact_deserialize dec r) (\<lambda>(x, r'). ok (l @ [x], r')))"

text \<open>
  After the facts \<open>l\<close>: each has its id in the substitution, and under that id there is a fact of its
  predicate with the key and the value its typechecker delivered.
\<close>

definition batch_entry :: "Inventory \<Rightarrow> afact list \<Rightarrow> Pid \<times> Clause \<Rightarrow> Id \<Rightarrow> bool" where
  "batch_entry inventory fs x i \<longleftrightarrow> (\<exists>a\<in>set fs. a_id a = i \<and> i \<noteq> WordId_invalid \<and> a_type a = fst x \<and>
     (\<exists>c. typechecks inventory (fst x) (snd x) c \<and> a_key a = Clause_key c \<and> a_value a = Clause_value c))"

definition batch_done :: "Inventory \<Rightarrow> Id \<Rightarrow> nat \<Rightarrow> afact list \<Rightarrow> (Pid \<times> Clause) list \<Rightarrow> fact_list batch_state \<Rightarrow> bool" where
  "batch_done inventory first n fs l b \<longleftrightarrow>
     sub_base (bs_subst b) = first \<and> length (sub_items (bs_subst b)) = n \<and> prefix fs (fst (bs_state b)) \<and>
     (\<forall>j < length l. batch_entry inventory (fst (bs_state b)) (l ! j) (sub_items (bs_subst b) ! j))"

lemma batch_entry_mono: "batch_entry inventory fs x i \<Longrightarrow> prefix fs gs \<Longrightarrow> batch_entry inventory gs x i"
  using set_mono_prefix unfolding batch_entry_def by blast

lemma facts_define_entry:
  assumes "facts_define r t c m = ok (i, r')"
  shows "prefix (fst r) (fst r')"
    and "i \<noteq> WordId_invalid \<Longrightarrow> \<exists>a\<in>set (fst r'). a_id a = i \<and> a_type a = t \<and> a_key a = Clause_key c \<and> a_value a = Clause_value c"
  using assms
  by (cases r; auto simp: facts_define_def facts_by_key_def find_Some_iff split: option.splits if_splits)+

lemma batch_step_done:
  assumes step: "batch_step dec facts_type facts_define inventory first ids k b = ok b'"
    and b: "batch_done inventory first n fs l b" and k: "length l = k" "k < n"
  shows "\<exists>x. Fact_deserialize dec (bs_input b) = ok (x, bs_input b') \<and> batch_done inventory first n fs (l @ [x]) b'"
proof -
  obtain t clause rest p out ks m i r' where
    d: "Fact_deserialize dec (bs_input b) = ok ((t, clause), rest)" "lookupPredicate inventory t = Some p"
    and tc: "Predicate_typecheck p (batch_rename facts_type inventory (bs_subst b) (bs_idmap b) (bs_state b)) clause
      WordId_invalid = ok ((out, ks), m)"
    and df: "facts_define (bs_state b) t (Clause_from out ks) m = ok (i, r')" "i \<noteq> WordId_invalid"
    and b': "bs_state b' = r'" "bs_input b' = rest" "bs_subst b' = (bs_subst b)\<lparr>sub_items := (sub_items (bs_subst b))[k := i]\<rparr>"
    using step unfolding batch_step_def
    by (auto simp: Substitution_setAt_def split: option.splits if_splits)
  have ent: "batch_entry inventory (fst r') (t, clause) i"
    using facts_define_entry(2) [OF df] tc d(2) df(2) unfolding batch_entry_def typechecks_def by fastforce
  have old: "batch_entry inventory (fst r') (l ! j) (sub_items (bs_subst b) ! j)" if "j < k" for j
    by (rule batch_entry_mono [OF _ facts_define_entry(1) [OF df(1)]]) (use that b k(1) in \<open>simp add: batch_done_def\<close>)
  have "prefix fs (fst r')"
    using b facts_define_entry(1) [OF df(1)] by (auto simp: batch_done_def intro: prefix_order.trans)
  then have "batch_done inventory first n fs (l @ [(t, clause)]) b'"
    using b k ent old by (auto simp: batch_done_def b' nth_append nth_list_update less_Suc_eq)
  then show ?thesis using d b'(2) by auto
qed

lemma batch_loop_done:
  assumes "batch_done inventory first n fs [] b"
  shows "k \<le> n \<Longrightarrow> batch_loop dec facts_type facts_define inventory first ids k b = ok b' \<Longrightarrow>
    \<exists>l. batch_facts dec k (bs_input b) = ok (l, bs_input b') \<and> length l = k \<and> batch_done inventory first n fs l b'"
proof (induction k arbitrary: b')
  case (Suc k)
  then obtain c where c: "batch_loop dec facts_type facts_define inventory first ids k b = ok c"
    "batch_step dec facts_type facts_define inventory first ids k c = ok b'" by auto
  then obtain l where l: "batch_facts dec k (bs_input b) = ok (l, bs_input c)" "length l = k" "batch_done inventory first n fs l c"
    using Suc by fastforce
  obtain x where "Fact_deserialize dec (bs_input c) = ok (x, bs_input b')" "batch_done inventory first n fs (l @ [x]) b'"
    using batch_step_done [OF c(2) l(3,2)] Suc.prems by auto
  then show ?case using l by auto
qed (use assms in auto)

lemma batch_facts_done:
  assumes "defineUntrustedBatch dec facts_type facts_define (fs, free) inventory first ids n batch = ok (subst, fs', free')"
  shows "sub_base subst = first \<and> length (sub_items subst) = n \<and> prefix fs fs' \<and>
    (\<exists>l rest. batch_facts dec n batch = ok (l, rest) \<and> length l = n \<and>
      (\<forall>j < n. batch_entry inventory fs' (l ! j) (sub_items subst ! j)))"
proof -
  let ?b = "\<lparr>bs_state = (fs, free), bs_subst = Substitution_new first n, bs_idmap = (\<lambda>_. None), bs_input = batch\<rparr>"
  obtain b' where b': "batch_loop dec facts_type facts_define inventory first ids n ?b = ok b'"
    "subst = bs_subst b'" "bs_state b' = (fs', free')"
    using assms by (auto simp: defineUntrustedBatch_def split: if_splits)
  have "batch_done inventory first n fs [] ?b"
    by (simp add: batch_done_def Substitution_new_def)
  from batch_loop_done [OF this _ b'(1)] b'(2,3) show ?thesis
    by (auto simp: batch_done_def)
qed

section \<open>Properties\<close>

text \<open>The clauses of an inventory's typecheckers fit into a fact set.\<close>

definition inventory_ok :: "Inventory \<Rightarrow> bool" where
  "inventory_ok inventory \<longleftrightarrow> (\<forall>t c. typechecks_to inventory t c \<longrightarrow>
     Clause_ok c \<and> key_size c \<le> MAX_KEY_SIZE \<and> DenseMap_key_ok t)"

lemma FactSet_batch_refines:
  assumes "FactSet_ok s" "unat (FactSet_firstFreeId s) + n < 2 ^ 64" "inventory_ok inventory"
  shows "rel_result (\<lambda>(subst, s') (subst', fs, free). subst = subst' \<and> FactSet_ok s' \<and> FactSet_facts s' = fs \<and> FactSet_firstFreeId s' = free)
    (defineUntrustedBatch dec FactSet_typeById FactSet_define s inventory first ids n batch)
    (defineUntrustedBatch dec facts_type facts_define (FactSet_facts s, FactSet_firstFreeId s) inventory first ids n batch)"
proof -
  have l: "typeById (FactSet_lookup s) = FactSet_typeById s" "firstFreeId (FactSet_lookup s) = FactSet_firstFreeId s" for s
    by (simp_all add: FactSet_lookup_def)
  show ?thesis
    using factset.defineUntrustedBatch_refines [where s = s and n = n and inventory = inventory, unfolded l] assms
    by (simp add: inventory_ok_def FactSet_args_ok_def)
qed



text \<open>
  A concrete inventory: predicate 7 has one-byte keys, the keys of predicate 8 are references to
  facts of predicate 7. The batch defines a fact of each, the second one referring to the first by
  the name 5.
\<close>

definition sample_typechecker :: "Pid \<Rightarrow> Clause \<Rightarrow> tc_run" where
  "sample_typechecker t c =
     (case (Clause_key c, Clause_value c) of
        ([x], []) \<Rightarrow>
          if t = 7 then TcDone [x] 1
          else TcRename (ucast x) 7 (\<lambda>i. TcDone (storeNat i) (of_nat (length (storeNat i))))
      | _ \<Rightarrow> TcError (RtsError ''type error''))"

definition sample_inventory :: Inventory where
  "sample_inventory = Inventory_of
     [no_predicate\<lparr>pred_id := 7, typechecker := sample_typechecker 7\<rparr>,
      no_predicate\<lparr>pred_id := 8, typechecker := sample_typechecker 8\<rparr>]"

definition sample_batch :: bytes where
  "sample_batch = [7, 1, 0, 65, 8, 1, 0, 5]"

lemma sample_run:
  fixes rename :: "Id Renamer"
  assumes "run_typecheck rename (sample_typechecker t c) m = ok ((out, ks), m')"
  shows "ks = of_nat (length out) \<and> length out \<le> 9"
proof -
  have n: "length (storeNat i) \<le> 9" for i using length_storeNat(2) [of i] by (simp add: MAX_NAT_SIZE_def)
  show ?thesis
    using assms n
    by (auto simp: sample_typechecker_def split: list.splits if_splits sum.splits prod.splits)
      (drule sym [of "[_]"], simp)+
qed

lemma sample_lookup:
  "lookupPredicate sample_inventory t = Some p \<Longrightarrow> (t = 7 \<or> t = 8) \<and> typechecker p = sample_typechecker t"
proof (cases "t = WordId_invalid")
  case True
  then show "lookupPredicate sample_inventory t = Some p \<Longrightarrow> ?thesis"
    by (simp add: sample_inventory_def Inventory_of_def lookupPredicate_def Let_def WordId_invalid_def WordId_lowest_def
        FIRST_FREE_ID_def no_predicate_def)
next
  case False
  then show "lookupPredicate sample_inventory t = Some p \<Longrightarrow> ?thesis"
    unfolding sample_inventory_def by (subst (asm) lookup_Inventory_of) (auto split: if_splits)
qed

lemma sample_inventory_ok: "inventory_ok sample_inventory"
  unfolding inventory_ok_def
proof (intro allI impI)
  fix t c assume "typechecks_to sample_inventory t c"
  then obtain p clause rename m out ks m' where p: "lookupPredicate sample_inventory t = Some p"
    "Predicate_typecheck p rename clause (m :: Id) = ok ((out, ks), m')" "c = Clause_from out ks"
    by (auto simp: typechecks_to_def typechecks_def)
  then have o: "ks = of_nat (length out)" "length out \<le> 9" and t: "t = 7 \<or> t = 8"
    using sample_run sample_lookup [OF p(1)] by (auto simp: Predicate_typecheck_def)
  then have u: "unat ks = length out" by (simp add: unat_of_nat_64)
  then have "Clause_ok c" using o Clause_from_ok(1) [of ks out] by (simp add: p(3))
  moreover have "unat (key_size c) = length out" using u o(2) by (simp add: p(3) Clause_from_def unat_ucast_mod)
  ultimately show "Clause_ok c \<and> key_size c \<le> MAX_KEY_SIZE \<and> DenseMap_key_ok t"
    using o(2) t by (auto simp: MAX_KEY_SIZE_def word_le_nat_alt DenseMap_key_ok_def)
qed

lemma sample_batch_result:
  "defineUntrustedBatch leb128_dec FactSet_typeById FactSet_define (FactSet_new 1024) sample_inventory 2000 (Some [5, 0]) 2 sample_batch =
     ok (Substitution_of 2000 [1024, 1025],
         sample_step 8 (Clause_from (storeNat 1024) 2) (sample_step 7 (Clause_from [65] 1) (FactSet_new 1024)))"
  by code_simp

lemma sample_start: "FactSet_ok (FactSet_new 1024)" "unat (FactSet_firstFreeId (FactSet_new 1024)) + 2 < 2 ^ 64"
  using FactSet_unat_firstFree [OF FactSet_new_ok, of 1024]
  by (simp_all add: FactSet_new_ok WordId_invalid_def) (simp add: FactSet_new_def)



end
