(* ===== verification/Rebase_Validate.thy ===== *)
theory Rebase_Validate
  imports Define_Batch
begin

text \<open>
  Three clients of the interfaces: \<open>copyFacts\<close> (\<^verbatim>\<open>rts/store.h\<close>), the consistency check \<open>validate\<close>
  (\<^verbatim>\<open>rts/validate.cpp\<close>) and \<open>FactSet::rebase\<close> (\<^verbatim>\<open>rts/factset.cpp\<close>), which applies a substitution to
  a set and splits it.
\<close>

section \<open>copyFacts\<close>

text \<open>A store is used through \<open>insert\<close> only.\<close>

definition copyFacts :: "(Ref \<Rightarrow> 'st \<Rightarrow> 'st) \<Rightarrow> 'st \<Rightarrow> Lookup \<Rightarrow> 'st" where
  "copyFacts insert_fact store L = fold insert_fact (enumerate L WordId_invalid WordId_invalid) store"

section \<open>validate\<close>

record Validate =
  val_typecheck :: bool
  val_keys :: bool
  val_limit :: nat

record validate_state =
  vs_count :: nat
  vs_allowed :: Id
  vs_types :: "Pid list"

text \<open>The renamer that \<open>validate\<close> passes to the typecheckers: a reference must go back.\<close>

definition validate_rename :: "Id \<Rightarrow> Pid list \<Rightarrow> unit Renamer" where
  "validate_rename starting types = (\<lambda>i type m.
     let n = unat (distance starting i) in
     if n < length types then
       if type \<noteq> types ! n then raise (RtsError ''fact type mismatch'') else ok (i, m)
     else raise (RtsError ''out_of_range''))"

definition validate_typecheck :: "Inventory \<Rightarrow> Id \<Rightarrow> Pid list \<Rightarrow> Ref \<Rightarrow> unit result" where
  "validate_typecheck inventory starting types fct =
     (case lookupPredicate inventory (ref_type fct) of
        None \<Rightarrow> raise (RtsError ''invalid predicate'')
      | Some predicate \<Rightarrow>
          rbind (Predicate_typecheck predicate (validate_rename starting types) (ref_clause fct) ())
            (\<lambda>((out, ks), _).
              if Clause_bytes (ref_clause fct) \<noteq> out then raise (RtsError ''invalid fact'')
              else if ucast (key_size (ref_clause fct)) \<noteq> ks then raise (RtsError ''key size mismatch'')
              else ok ()))"

definition validate_fact ::
  "Inventory \<Rightarrow> Validate \<Rightarrow> Lookup \<Rightarrow> Ref \<Rightarrow> validate_state \<Rightarrow> validate_state result" where
  "validate_fact inventory val L fct s =
     (if ref_id fct < vs_allowed s then raise (RtsError ''enumeration out of order'')
      else if ref_id fct \<ge> firstFreeId L then raise (RtsError ''fact id out of bounds'')
      else
        rbind (if val_typecheck val then validate_typecheck inventory (startingId L) (vs_types s) fct else ok ()) (\<lambda>_.
        if val_keys val \<and> idByKey L (ref_type fct) (Ref_key fct) \<noteq> ref_id fct
        then raise (RtsError ''idByKey mismatch'')
        else ok \<lparr>vs_count = vs_count s + 1, vs_allowed = WordId_plus (ref_id fct) 1,
                 vs_types = (vs_types s)[unat (distance (startingId L) (ref_id fct)) := ref_type fct]\<rparr>))"

fun validate_loop ::
  "Inventory \<Rightarrow> Validate \<Rightarrow> Lookup \<Rightarrow> FactIterator \<Rightarrow> validate_state \<Rightarrow> unit result" where
  "validate_loop inventory val L [] s = ok ()"
| "validate_loop inventory val L (fct # it) s =
     (if vs_count s \<ge> val_limit val then ok ()
      else rbind (validate_fact inventory val L fct s) (validate_loop inventory val L it))"

definition validate :: "Inventory \<Rightarrow> Validate \<Rightarrow> Lookup \<Rightarrow> unit result" where
  "validate inventory val L =
     validate_loop inventory val L (enumerate L WordId_invalid WordId_invalid)
       \<lparr>vs_count = 0, vs_allowed = startingId L,
        vs_types = replicate (unat (distance (startingId L) (firstFreeId L))) WordId_invalid\<rparr>"

text \<open>What the check looks for in one fact, apart from its type.\<close>

definition valid_entry :: "Validate \<Rightarrow> Lookup \<Rightarrow> Ref \<Rightarrow> bool" where
  "valid_entry val L r \<longleftrightarrow> ref_id r < firstFreeId L \<and>
     (val_keys val \<longrightarrow> idByKey L (ref_type r) (Ref_key r) = ref_id r)"

text \<open>The types of the facts before a fact, as its typechecker sees them.\<close>

definition note_type :: "Lookup \<Rightarrow> Ref \<Rightarrow> Pid list \<Rightarrow> Pid list" where
  "note_type L r types = types[unat (distance (startingId L) (ref_id r)) := ref_type r]"

definition typechecks_in_order :: "Inventory \<Rightarrow> Lookup \<Rightarrow> Pid list \<Rightarrow> Ref list \<Rightarrow> bool" where
  "typechecks_in_order inventory L types rs \<longleftrightarrow> (\<forall>j < length rs.
     validate_typecheck inventory (startingId L) (fold (note_type L) (take j rs) types) (rs ! j) = ok ())"

lemma typechecks_in_order_Cons:
  "typechecks_in_order inventory L types (r # rs) \<longleftrightarrow>
     validate_typecheck inventory (startingId L) types r = ok () \<and> typechecks_in_order inventory L (note_type L r types) rs"
  by (auto simp: typechecks_in_order_def less_Suc_eq_0_disj)

lemma validate_loop_iff:
  "validate_loop inventory val L it s = ok () \<longleftrightarrow>
    (let rs = take (val_limit val - vs_count s) it in
     (\<forall>r\<in>set rs. vs_allowed s \<le> ref_id r \<and> valid_entry val L r) \<and> sorted_wrt (<) (map ref_id rs) \<and>
     (val_typecheck val \<longrightarrow> typechecks_in_order inventory L (vs_types s) rs))"
proof (induction it arbitrary: s)
  case (Cons r it)
  show ?case
  proof (cases "val_limit val - vs_count s")
    case 0
    then show ?thesis by (simp add: typechecks_in_order_def)
  next
    case (Suc n)
    let ?tc = "val_typecheck val \<longrightarrow> validate_typecheck inventory (startingId L) (vs_types s) r = ok ()"
    show ?thesis
    proof (cases "vs_allowed s \<le> ref_id r \<and> valid_entry val L r \<and> ?tc")
      case True
      let ?s = "\<lparr>vs_count = vs_count s + 1, vs_allowed = ref_id r + 1, vs_types = note_type L r (vs_types s)\<rparr>"
      have "unat (ref_id r) + 1 < 2 ^ 64"
        using True unat_lt_64 [of "firstFreeId L"] by (simp add: valid_entry_def word_less_nat_alt)
      then have "unat (ref_id r + 1) = unat (ref_id r) + 1" using unat_plus_nat [of "ref_id r" 1] by simp
      then have lt: "ref_id r + 1 \<le> x \<longleftrightarrow> ref_id r < x" for x
        by (simp add: word_le_nat_alt word_less_nat_alt Suc_le_eq)
      have "validate_loop inventory val L (r # it) s = validate_loop inventory val L it ?s"
        using True Suc by (auto simp: validate_fact_def valid_entry_def note_type_def WordId_plus_def not_less not_le)
      moreover have "val_limit val - vs_count ?s = n" using Suc by simp
      ultimately show ?thesis
        using True Suc by (auto simp: Cons.IH Let_def lt typechecks_in_order_Cons intro: order.trans less_imp_le)
    next
      case False
      then show ?thesis
        using Suc by (auto simp: validate_fact_def valid_entry_def Let_def typechecks_in_order_Cons not_less not_le)
    qed
  qed
qed (simp add: typechecks_in_order_def)

text \<open>A lookup that keeps its contract passes all checks but the typechecks.\<close>

lemma lookup_entries_valid:
  assumes "lookup_forward L fs"
  shows "\<forall>r\<in>set (enumerate L WordId_invalid WordId_invalid). startingId L \<le> ref_id r \<and> valid_entry val L r"
    and "sorted_wrt (<) (map ref_id (enumerate L WordId_invalid WordId_invalid))"
proof -
  let ?rs = "enumerate L WordId_invalid WordId_invalid"
  have p: "lookup_points L fs" using assms by (simp add: lookup_forward_def)
  have fs: "map Ref_view ?rs = fs" by (rule lookup_forward.enumerate_all [OF assms])
  show "\<forall>r\<in>set ?rs. startingId L \<le> ref_id r \<and> valid_entry val L r"
  proof
    fix r assume "r \<in> set ?rs"
    then have "Ref_view r \<in> set fs" by (simp flip: fs)
    then show "startingId L \<le> ref_id r \<and> valid_entry val L r"
      using lookup_points.ids_bounded [OF p] lookup_points.idByKey_iff [OF p] by (force simp: valid_entry_def)
  qed
  have "map ref_id ?rs = map a_id fs" by (simp flip: fs)
  then show "sorted_wrt (<) (map ref_id ?rs)"
    using lookup_points.facts_ok [OF p] by (simp add: facts_ok_def)
qed

lemma validate_contract:
  assumes "lookup_forward L fs" "\<not> val_typecheck val"
  shows "validate inventory val L = ok ()"
  using lookup_entries_valid [OF assms(1)] assms(2) unfolding validate_def
  by (auto simp: validate_loop_iff Let_def sorted_wrt_take take_map [symmetric] dest: in_set_takeD)

section \<open>rebase\<close>

definition substituteFact :: "Inventory \<Rightarrow> (Id \<Rightarrow> Id) \<Rightarrow> Fact \<Rightarrow> (bytes \<times> u64) result" where
  "substituteFact inventory ren f =
     (case lookupPredicate inventory (fact_type f) of
        None \<Rightarrow> raise CheckFailed
      | Some predicate \<Rightarrow> Predicate_substitute predicate ren (Fact_clause f))"

text \<open>The first loop: the facts inserted into the global store, in order.\<close>

definition rebase_global :: "Inventory \<Rightarrow> (Id \<Rightarrow> Id) \<Rightarrow> Substitution \<Rightarrow> Fact \<Rightarrow> Ref list \<Rightarrow> Ref list result" where
  "rebase_global inventory ren subst f acc =
     rbind (substituteFact inventory ren f) (\<lambda>(out, ks).
       ok (acc @ [\<lparr>ref_id = Substitution_subst subst (fact_id f), ref_type = fact_type f, ref_clause = Clause_from out ks\<rparr>]))"

text \<open>The second loop: the local set and the id the next fact must get.\<close>

definition rebase_local :: "Inventory \<Rightarrow> (Id \<Rightarrow> Id) \<Rightarrow> Fact \<Rightarrow> FactSet \<times> Id \<Rightarrow> (FactSet \<times> Id) result" where
  "rebase_local inventory ren f = (\<lambda>(local, expected).
     rbind (substituteFact inventory ren f) (\<lambda>(out, ks).
     rbind (FactSet_define local (fact_type f) (Clause_from out ks) WordId_invalid) (\<lambda>(i, local').
     if i \<noteq> expected then raise CheckFailed else ok (local', WordId_plus expected 1))))"

definition FactSet_rebase :: "Inventory \<Rightarrow> Substitution \<Rightarrow> FactSet \<Rightarrow> (FactSet \<times> Ref list) result" where
  "FactSet_rebase inventory subst s =
     (let new_start = Substitution_firstFreeId subst;
          ren = Substituter_rename_offset subst (distance (Substitution_finish subst) new_start);
          split = FactSet_lower_bound s (Substitution_finish subst)
      in rbind (rfold (rebase_global inventory ren subst) (take split (fs_facts s)) []) (\<lambda>global.
         rbind (rfold (rebase_local inventory ren) (drop split (fs_facts s)) (FactSet_new new_start, new_start)) (\<lambda>(local, _).
         ok (local, global))))"

lemma run_typecheck_const:
  "run_typecheck (\<lambda>i _ m. ok (f i, m)) r m = (case run_typecheck (Substituter_renamer f) r () of
     Inl e \<Rightarrow> raise e | Inr (x, _) \<Rightarrow> ok (x, m))"
  by (induction r) (simp_all add: Substituter_renamer_def ok_def raise_def)

lemma substitute_typechecks:
  assumes "lookupPredicate inventory t = Some p" "Predicate_substitute p f clause = ok (out, ks)"
  shows "typechecks inventory t clause (Clause_from out ks)"
proof -
  have "run_typecheck (Substituter_renamer f) (typechecker p clause) () = ok ((out, ks), ())"
    using assms(2) by (auto simp: Predicate_substitute_def Predicate_typecheck_def)
  then have "Predicate_typecheck p (\<lambda>i _ m. ok (f i, m)) clause (WordId_invalid :: Id) = ok ((out, ks), WordId_invalid)"
    unfolding Predicate_typecheck_def run_typecheck_const by (simp add: ok_def)
  then show ?thesis using assms(1) unfolding typechecks_def by blast
qed

lemma rebase_global_ids:
  "rfold (rebase_global inventory ren subst) fs acc = ok global \<Longrightarrow>
   map (\<lambda>r. (ref_id r, ref_type r)) global =
     map (\<lambda>r. (ref_id r, ref_type r)) acc @ map (\<lambda>f. (Substitution_subst subst (fact_id f), fact_type f)) fs"
  by (induction fs arbitrary: acc) (auto simp: rebase_global_def)

lemma rebase_local_step:
  assumes "rebase_local inventory ren f (local, FactSet_firstFreeId local) = ok (local', e)"
    and l: "FactSet_ok local" and inv: "inventory_ok inventory" and room: "unat (FactSet_firstFreeId local) + 1 < 2 ^ 64"
  shows "FactSet_ok local' \<and> starting_id local' = starting_id local \<and> e = FactSet_firstFreeId local' \<and> FactSet_firstFreeId local' = FactSet_firstFreeId local + 1 \<and>
    map a_id (FactSet_facts local') = map a_id (FactSet_facts local) @ [FactSet_firstFreeId local] \<and>
    map a_type (FactSet_facts local') = map a_type (FactSet_facts local) @ [fact_type f]"
proof -
  obtain p out ks where sub: "lookupPredicate inventory (fact_type f) = Some p"
    "Predicate_substitute p ren (Fact_clause f) = ok (out, ks)"
    and def: "FactSet_define local (fact_type f) (Clause_from out ks) WordId_invalid = ok (FactSet_firstFreeId local, local')"
    and e: "e = FactSet_firstFreeId local + 1"
    using assms(1) by (auto simp: rebase_local_def substituteFact_def WordId_plus_def split: option.splits if_splits)
  let ?c = "Clause_from out ks"
  have a: "FactSet_args_ok local (fact_type f) ?c WordId_invalid"
    using substitute_typechecks [OF sub] inv room by (auto simp: inventory_ok_def typechecks_to_def FactSet_args_ok_def)
  have "facts_by_key (FactSet_facts local) (fact_type f) (Clause_key ?c) = None"
  proof (rule ccontr)
    assume "facts_by_key (FactSet_facts local) (fact_type f) (Clause_key ?c) \<noteq> None"
    then obtain x where x: "facts_by_key (FactSet_facts local) (fact_type f) (Clause_key ?c) = Some x" by auto
    then have "x \<in> set (FactSet_facts local)" using facts_by_key_Some [OF FactSet_facts_ok [OF l]] by blast
    then have lt: "a_id x < FactSet_firstFreeId local" using FactSet_fact_bounds(2) [OF l] by (auto simp: FactSet_facts_def)
    then have "FactSet_firstFreeId local \<noteq> WordId_invalid" by (auto simp: WordId_invalid_def)
    with lt show False using factset.define_existing [OF l a x] def by (auto split: if_splits)
  qed
  from factset.define_new [OF l a this] def e show ?thesis
    by (auto simp: FactSet_lookup_def new_fact_def)
qed

lemma rebase_local_facts:
  assumes inv: "inventory_ok inventory"
  shows "rfold (rebase_local inventory ren) fs (local, FactSet_firstFreeId local) = ok (local', e) \<Longrightarrow> FactSet_ok local \<Longrightarrow>
    unat (FactSet_firstFreeId local) + length fs < 2 ^ 64 \<Longrightarrow>
    FactSet_ok local' \<and> starting_id local' = starting_id local \<and>
    map a_id (FactSet_facts local') = map a_id (FactSet_facts local) @ map (\<lambda>j. FactSet_firstFreeId local + of_nat j) [0..<length fs] \<and>
    map a_type (FactSet_facts local') = map a_type (FactSet_facts local) @ map fact_type fs"
proof (induction fs arbitrary: local)
  case (Cons f fs)
  then obtain l e1 where l: "rebase_local inventory ren f (local, FactSet_firstFreeId local) = ok (l, e1)"
    "rfold (rebase_local inventory ren) fs (l, e1) = ok (local', e)" by auto
  note st = rebase_local_step [OF l(1) Cons.prems(2) inv]
  have st': "FactSet_ok l \<and> starting_id l = starting_id local" "e1 = FactSet_firstFreeId l" "FactSet_firstFreeId l = FactSet_firstFreeId local + 1"
    "map a_id (FactSet_facts l) = map a_id (FactSet_facts local) @ [FactSet_firstFreeId local]"
    "map a_type (FactSet_facts l) = map a_type (FactSet_facts local) @ [fact_type f]"
    using st Cons.prems(3) by auto
  have "unat (FactSet_firstFreeId l) = unat (FactSet_firstFreeId local) + 1"
    using st'(3) Cons.prems(3) unat_plus_nat [of "FactSet_firstFreeId local" 1] by simp
  then have "unat (FactSet_firstFreeId l) + length fs < 2 ^ 64" using Cons.prems(3) by simp
  from Cons.IH [OF l(2) [unfolded st'(2)] conjunct1 [OF st'(1)] this] conjunct2 [OF st'(1)] show ?case
    unfolding st'(3,4,5) by (simp add: upt_conv_Cons map_Suc_upt [symmetric] add.assoc del: upt_Suc)
qed simp

text \<open>Where the set is split: the ids below and the ids from the end of the block on.\<close>

lemma rebase_split:
  assumes s: "FactSet_ok s" and le: "starting_id s \<le> b" and j: "FactSet_lower_bound s b + j < length (fs_facts s)"
  shows "fact_id (fs_facts s ! (FactSet_lower_bound s b + j)) = b + of_nat j"
proof -
  have "FactSet_lower_bound s b = unat b - unat (starting_id s)"
    using le j by (auto simp: FactSet_lower_bound_def unat_distance min_def word_le_nat_alt split: if_splits)
  moreover have "unat (starting_id s) \<le> unat b" using le by (simp add: word_le_nat_alt)
  ultimately have "unat (starting_id s + of_nat (FactSet_lower_bound s b)) = unat b"
    using unat_plus_nat [of "starting_id s" "FactSet_lower_bound s b"] unat_lt_64 [of b] by simp
  then have "starting_id s + of_nat (FactSet_lower_bound s b) = b" by (rule unsigned_word_eqI)
  then show ?thesis using FactSet_okD(3) [OF s j] by (simp add: add.assoc [symmetric])
qed

lemma rebase_ids:
  assumes s: "FactSet_ok s" and le: "starting_id s \<le> Substitution_finish subst"
  defines "b \<equiv> Substitution_finish subst" and "new_start \<equiv> Substitution_firstFreeId subst"
  defines "ren \<equiv> Substituter_rename_offset subst (distance b new_start)" and "split \<equiv> FactSet_lower_bound s b"
  shows "map (\<lambda>f. Substitution_subst subst (fact_id f)) (take split (fs_facts s)) @
      map (\<lambda>j. new_start + of_nat j) [0..<length (drop split (fs_facts s))] = map (\<lambda>f. ren (fact_id f)) (fs_facts s)"
proof -
  have sl: "split \<le> length (fs_facts s)" by (simp add: split_def lower_bound_le)
  have "Substitution_subst subst (fact_id (fs_facts s ! n)) = ren (fact_id (fs_facts s ! n))" if "n < split" for n
  proof -
    have "\<not> b \<le> fact_id (fs_facts s ! n)"
      using that sl lower_bound_iff [OF s, of n b] by (simp add: split_def)
    then show ?thesis by (simp add: ren_def Substituter_rename_offset_def b_def not_le)
  qed
  moreover have "new_start + of_nat j = ren (fact_id (fs_facts s ! (split + j)))" if "split + j < length (fs_facts s)" for j
  proof -
    have "\<not> fact_id (fs_facts s ! (split + j)) < b"
      using that lower_bound_iff [OF s, of "split + j" b] by (simp add: split_def not_less)
    moreover have "fact_id (fs_facts s ! (split + j)) = b + of_nat j"
      unfolding split_def by (rule rebase_split [OF s]) (use le that in \<open>simp_all add: b_def split_def\<close>)
    ultimately show ?thesis by (simp add: ren_def Substituter_rename_offset_def b_def WordId_plus_def distance_def)
  qed
  ultimately show ?thesis
    using sl by (intro nth_equalityI) (auto simp: nth_append min_def)
qed

section \<open>Properties\<close>


lemma sample_rebase:
  "FactSet_rebase sample_inventory (Substitution_of 1024 [2000])
     (sample_step 7 (Clause_from [66] 1) (sample_step 7 (Clause_from [65] 1) (FactSet_new 1024))) =
   ok (sample_step 7 (Clause_from [66] 1) (FactSet_new 2001),
     [\<lparr>ref_id = 2000, ref_type = 7, ref_clause = Clause_from [65] 1\<rparr>])"
  by code_simp

lemma sample_pair_ok:
  "FactSet_ok (sample_step 7 (Clause_from [66] 1) (sample_step 7 (Clause_from [65] 1) (FactSet_new 1024)))"
proof -
  have "FactSet_firstFreeId (FactSet_new 1024) = 1024"
    "FactSet_firstFreeId (sample_step 7 (Clause_from [65] 1) (FactSet_new 1024)) = 1025" by code_simp+
  then have "FactSet_args_ok (FactSet_new 1024) 7 (Clause_from [65] 1) 0"
    "FactSet_args_ok (sample_step 7 (Clause_from [65] 1) (FactSet_new 1024)) 7 (Clause_from [66] 1) 0"
    unfolding FactSet_args_ok_def
    by (simp_all add: Clause_from_ok DenseMap_key_ok_def MAX_KEY_SIZE_def) (simp_all add: Clause_from_def)
  then show ?thesis
    by (intro FactSet_reach_ok sample_step_reach FactSet_reach.new) (simp_all add: WordId_invalid_def)
qed




end
