(* ===== verification/Bits_Hdr.thy ===== *)
theory Bits_Hdr
  imports Glean_Prelude
begin

unbundle bit_operations_syntax

text \<open>
  The building blocks of the compressed sets of \<^verbatim>\<open>rts/ownership/setu32.h\<close>: the 256-bit sets
  \<^verbatim>\<open>Bits256\<close> and the block headers \<^verbatim>\<open>SetU32::Hdr\<close>, which pack a 24-bit block number, a
  6-bit length and a 2-bit block type into 32 bits. The lemmas read a \<open>Bits256\<close> as a set of bytes
  and a header as a mixed-radix number.
\<close>

section \<open>Bits256\<close>

type_synonym Bits256 = "256 word"

definition Bits256_none :: Bits256 where
  "Bits256_none = 0"

definition Bits256_all :: Bits256 where
  "Bits256_all = - 1"

text \<open>The lanes of 32 bits are shifted by \<open>n\<close> minus their offset; a shift by 32 or more gives 0.\<close>

definition Bits256_single :: "u8 \<Rightarrow> Bits256" where
  "Bits256_single n = push_bit (unat n) 1"

definition Bits256_empty :: "Bits256 \<Rightarrow> bool" where
  "Bits256_empty w \<longleftrightarrow> w = 0"

definition Bits256_contains :: "Bits256 \<Rightarrow> u8 \<Rightarrow> bool" where
  "Bits256_contains w n \<longleftrightarrow> \<not> Bits256_empty (w AND Bits256_single n)"

definition Bits256_includes :: "Bits256 \<Rightarrow> Bits256 \<Rightarrow> bool" where
  "Bits256_includes w other \<longleftrightarrow> NOT w AND other = 0"

definition Bits256_eq :: "Bits256 \<Rightarrow> Bits256 \<Rightarrow> bool" where
  "Bits256_eq w other \<longleftrightarrow> Bits256_empty (w XOR other)"

definition Bits256_with :: "Bits256 \<Rightarrow> u8 list \<Rightarrow> Bits256" where
  "Bits256_with w vals = fold (\<lambda>v x. x OR Bits256_single v) vals w"

definition Bits256_of :: "u8 list \<Rightarrow> Bits256" where
  "Bits256_of vals = Bits256_with Bits256_none vals"

text \<open>\<^verbatim>\<open>_mm_popcnt_u64\<close> and \<^verbatim>\<open>_lzcnt_u64\<close> (64 for 0) on the four 64-bit lanes.\<close>

definition lane :: "Bits256 \<Rightarrow> nat \<Rightarrow> u64" where
  "lane w k = ucast (drop_bit (64 * k) w)"

definition popcnt :: "u64 \<Rightarrow> nat" where
  "popcnt w = length (filter (bit w) [0..<64])"

definition lzcnt :: "u64 \<Rightarrow> nat" where
  "lzcnt w = length (takeWhile (\<lambda>i. \<not> bit w i) (rev [0..<64]))"

definition Bits256_count :: "Bits256 \<Rightarrow> nat" where
  "Bits256_count w = popcnt (lane w 0) + popcnt (lane w 1) + popcnt (lane w 2) + popcnt (lane w 3)"

definition Bits256_upper :: "Bits256 \<Rightarrow> u32" where
  "Bits256_upper w =
     (if lzcnt (lane w 3) < 64 then of_nat (255 - lzcnt (lane w 3))
      else if lzcnt (lane w 2) < 64 then of_nat (191 - lzcnt (lane w 2))
      else if lzcnt (lane w 1) < 64 then of_nat (127 - lzcnt (lane w 1))
      else 63 - of_nat (lzcnt (lane w 0)))"

text \<open>The set of bytes that a word stands for.\<close>

definition bits :: "Bits256 \<Rightarrow> u8 set" where
  "bits w = {n. bit w (unat n)}"

lemma bit_single: "bit (Bits256_single n) i \<longleftrightarrow> i = unat n"
  using unat_lt_8 [of n] by (auto simp: Bits256_single_def bit_simps)

lemma unat_inj: "unat (a :: 'a :: len word) = unat b \<longleftrightarrow> a = b"
  by (metis unsigned_word_eqI)

lemma bits_single [simp]: "bits (Bits256_single n) = {n}"
  by (auto simp: bits_def bit_single unat_inj)

lemma bits_or [simp]: "bits (v OR w) = bits v \<union> bits w"
  by (auto simp: bits_def bit_or_iff)

lemma bits_none [simp]: "bits Bits256_none = {}" "bits 0 = {}"
  by (simp_all add: bits_def Bits256_none_def)

lemma bits_all [simp]: "bits Bits256_all = UNIV"
  using unat_lt_8 by (auto simp: bits_def Bits256_all_def)

lemma bits_with [simp]: "bits (Bits256_with w vs) = bits w \<union> set vs"
  by (induction vs arbitrary: w) (auto simp: Bits256_with_def)

lemma bits_of [simp]: "bits (Bits256_of vs) = set vs"
  by (simp add: Bits256_of_def)

lemma bit_iff_bits: "i < 256 \<Longrightarrow> bit w i \<longleftrightarrow> of_nat i \<in> bits w"
  by (simp add: bits_def unat_of_nat)

lemma bits_inject: "bits v = bits w \<longleftrightarrow> v = w"
proof
  assume "bits v = bits w"
  then show "v = w" by (intro bit_word_eqI) (simp add: bit_iff_bits)
qed simp

lemma contains_bits [simp]: "Bits256_contains w n \<longleftrightarrow> n \<in> bits w"
proof -
  have "bits (w AND Bits256_single n) = bits w \<inter> {n}"
    by (auto simp: bits_def bit_and_iff bit_single unat_inj)
  then have "w AND Bits256_single n = 0 \<longleftrightarrow> bits w \<inter> {n} = {}"
    using bits_inject [of "w AND Bits256_single n" 0] by simp
  then show ?thesis by (auto simp: Bits256_contains_def Bits256_empty_def)
qed

lemma bits_and_not: "bits (NOT w AND v) = bits v - bits w"
  using unat_lt_8 by (auto simp: bits_def bit_and_iff bit_not_iff)

lemma includes_bits [simp]: "Bits256_includes w v \<longleftrightarrow> bits v \<subseteq> bits w"
  using bits_inject [of "NOT w AND v" 0] by (auto simp: Bits256_includes_def bits_and_not)

lemma eq_bits [simp]: "Bits256_eq v w \<longleftrightarrow> v = w"
proof -
  have "bits (v XOR w) = (bits v - bits w) \<union> (bits w - bits v)"
    by (auto simp: bits_def bit_xor_iff)
  then have "v XOR w = 0 \<longleftrightarrow> bits v = bits w"
    using bits_inject [of "v XOR w" 0] by auto
  then show ?thesis by (simp add: Bits256_eq_def Bits256_empty_def bits_inject)
qed

lemma popcnt_lane:
  assumes "k < 4"
  shows "popcnt (lane w k) = card {i. 64 * k \<le> i \<and> i < 64 * k + 64 \<and> bit w i}"
proof -
  have "popcnt (lane w k) = card {i. i < 64 \<and> bit w (64 * k + i)}"
    unfolding popcnt_def length_filter_conv_card
    by (rule arg_cong [where f = card])
      (auto simp: lane_def bit_simps assms)
  also have "\<dots> = card ((\<lambda>i. 64 * k + i) ` {i. i < 64 \<and> bit w (64 * k + i)})"
    by (rule card_image [symmetric]) (simp add: inj_on_def)
  also have "(\<lambda>i. 64 * k + i) ` {i. i < 64 \<and> bit w (64 * k + i)}
    = {i. 64 * k \<le> i \<and> i < 64 * k + 64 \<and> bit w i}"
    by (force simp: image_iff le_iff_add)
  finally show ?thesis .
qed

lemma card_bits: "card (bits w) = card {i. i < 256 \<and> bit w i}"
proof -
  have "unat ` bits w = {i. i < 256 \<and> bit w i}"
  proof (intro set_eqI iffI)
    show "i \<in> unat ` bits w" if "i \<in> {i. i < 256 \<and> bit w i}" for i
      using that by (intro image_eqI [of _ _ "of_nat i"]) (auto simp: bits_def unat_of_nat)
  qed (use unat_lt_8 in \<open>auto simp: bits_def\<close>)
  moreover have "inj_on unat (bits w)" by (simp add: inj_on_def unat_inj)
  ultimately show ?thesis using card_image by metis
qed

lemma count_bits: "Bits256_count w = card (bits w)"
proof -
  let ?B = "\<lambda>a b. {i. a \<le> i \<and> i < b \<and> bit w i}"
  have split: "card (?B a c) = card (?B a b) + card (?B b c)" if "a \<le> b" "b \<le> c" for a b c
    by (subst card_Un_disjoint [symmetric]) (use that in \<open>auto intro!: arg_cong [where f = card]\<close>)
  have "card (bits w) = card (?B 0 256)" by (simp add: card_bits)
  also have "\<dots> = card (?B 0 64) + card (?B 64 128) + card (?B 128 192) + card (?B 192 256)"
    using split [of 0 64 256] split [of 64 128 256] split [of 128 192 256] by simp
  finally show ?thesis
    by (simp add: Bits256_count_def popcnt_lane)
qed

lemma lzcnt_le: "lzcnt w \<le> 64"
  using length_takeWhile_le [of "\<lambda>i. \<not> bit w i" "rev [0..<64]"] by (simp add: lzcnt_def)

lemma lzcnt_above:
  assumes "64 \<le> i + lzcnt w" "i < 64"
  shows "\<not> bit w i"
proof -
  have "takeWhile (\<lambda>i. \<not> bit w i) (rev [0..<64]) ! (63 - i) = rev [0..<64] ! (63 - i)"
    using assms by (intro takeWhile_nth) (simp add: lzcnt_def)
  also have "\<dots> = i" using assms by (simp add: rev_nth)
  moreover have "63 - i < length (takeWhile (\<lambda>i. \<not> bit w i) (rev [0..<64]))"
    using assms by (simp add: lzcnt_def)
  ultimately have "i \<in> set (takeWhile (\<lambda>i. \<not> bit w i) (rev [0..<64]))"
    using nth_mem by metis
  then show ?thesis by (blast dest: set_takeWhileD)
qed

lemma lzcnt_top:
  assumes "lzcnt w < 64"
  shows "bit w (63 - lzcnt w)"
  using nth_length_takeWhile [of "\<lambda>i. \<not> bit w i" "rev [0..<64]"] assms
  by (simp add: lzcnt_def rev_nth)

lemma bit_lane: "i < 64 \<Longrightarrow> bit (lane w k) i \<longleftrightarrow> bit w (64 * k + i)"
  by (simp add: lane_def bit_simps)

lemma lane_top:
  assumes "lzcnt (lane w k) < 64"
  shows "bit w (64 * k + 63 - lzcnt (lane w k))"
    and "\<And>i. \<lbrakk>64 * k + 63 - lzcnt (lane w k) < i; i < 64 * k + 64\<rbrakk> \<Longrightarrow> \<not> bit w i"
proof -
  show "bit w (64 * k + 63 - lzcnt (lane w k))"
    using lzcnt_top [OF assms] bit_lane [of "63 - lzcnt (lane w k)" w k] assms by simp
  show "\<not> bit w i" if "64 * k + 63 - lzcnt (lane w k) < i" "i < 64 * k + 64" for i
    using lzcnt_above [of "i - 64 * k" "lane w k"] bit_lane [of "i - 64 * k" w k] that assms
    by (cases "64 * k \<le> i") (auto simp: not_le)
qed

lemma lane_zero:
  assumes "\<not> lzcnt (lane w k) < 64" "64 * k \<le> i" "i < 64 * k + 64"
  shows "\<not> bit w i"
  using lzcnt_above [of "i - 64 * k" "lane w k"] bit_lane [of "i - 64 * k" w k] assms by auto

lemma in64: "64 * (i div 64) \<le> i" "i < 64 * (i div 64) + (64 :: nat)"
  by linarith+

lemma top_lane:
  assumes "lzcnt (lane w k) < 64" and above: "\<And>j. k < j \<Longrightarrow> j < 4 \<Longrightarrow> \<not> lzcnt (lane w j) < 64"
    and "m = 64 * k + 63 - lzcnt (lane w k)"
  shows "bit w m" and "m < i \<Longrightarrow> \<not> bit w i"
proof -
  show "bit w m" using lane_top assms by simp
  show "\<not> bit w i" if "m < i"
  proof
    assume "bit w i"
    then have "i < 256" using bit_imp_le_length [of w i] by simp
    moreover have "i div 64 \<noteq> k"
      using lane_top(2) [OF assms(1), of i] that assms(3) \<open>bit w i\<close> in64 [of i] by auto
    moreover have "k \<le> i div 64" using that assms(1,3) by linarith
    ultimately have "\<not> lzcnt (lane w (i div 64)) < 64" using above by simp
    then show False using lane_zero [of w "i div 64" i] \<open>bit w i\<close> in64 [of i] by simp
  qed
qed

lemma upper_top:
  assumes "w \<noteq> 0"
  shows "\<exists>m<256. Bits256_upper w = of_nat m \<and> bit w m \<and> (\<forall>i>m. \<not> bit w i)"
proof -
  have *: "\<exists>m<256. x = of_nat m \<and> bit w m \<and> (\<forall>i>m. \<not> bit w i)"
    if "k < 4" "lzcnt (lane w k) < 64" "\<And>j. k < j \<Longrightarrow> j < 4 \<Longrightarrow> \<not> lzcnt (lane w j) < 64"
      "x = (of_nat (64 * k + 63 - lzcnt (lane w k)) :: u32)" for k x
    using top_lane [OF that(2,3)] that(1,4) by (intro exI [of _ "64 * k + 63 - lzcnt (lane w k)"]) auto
  define P where "P k \<longleftrightarrow> lzcnt (lane w k) < 64" for k
  have four: "k = 0 \<or> k = 1 \<or> k = 2 \<or> k = 3" if "k < 4" for k :: nat using that by auto
  obtain i where "bit w i" using assms by (auto simp: bit_eq_iff)
  moreover from this have "i < 256" using bit_imp_le_length [of w i] by simp
  ultimately have "lzcnt (lane w (i div 64)) < 64" "i div 64 < 4"
    using lane_zero [of w "i div 64" i] in64 [of i] by auto
  then consider (a) "P 3" | (b) "\<not> P 3" "P 2" | (c) "\<not> P 3" "\<not> P 2" "P 1"
    | (d) "\<not> P 3" "\<not> P 2" "\<not> P 1" "P 0"
    unfolding P_def using four [of "i div 64"] by metis
  then show ?thesis
  proof cases
    case a then show ?thesis
      unfolding P_def by (intro * [of 3]) (auto simp: Bits256_upper_def)
  next
    case b
    have "j = 3" if "2 < j" "j < 4" for j :: nat using that by simp
    with b show ?thesis unfolding P_def by (intro * [of 2]) (auto simp: Bits256_upper_def)
  next
    case c
    have "j = 2 \<or> j = 3" if "1 < j" "j < 4" for j :: nat using that by auto
    with c show ?thesis unfolding P_def by (intro * [of 1]) (auto simp: Bits256_upper_def)
  next
    case d
    have "j = 1 \<or> j = 2 \<or> j = 3" if "0 < j" "j < 4" for j :: nat using that by auto
    with d show ?thesis unfolding P_def by (intro * [of 0]) (auto simp: Bits256_upper_def of_nat_diff)
  qed
qed

section \<open>Block headers\<close>

type_synonym Hdr = u32

datatype HdrType = Sparse | Dense | Full

definition HdrType_code :: "HdrType \<Rightarrow> u32" where
  "HdrType_code t = (case t of Sparse \<Rightarrow> 0 | Dense \<Rightarrow> 1 | Full \<Rightarrow> 2)"

definition Hdr_make :: "u32 \<Rightarrow> u8 \<Rightarrow> HdrType \<Rightarrow> Hdr" where
  "Hdr_make i len type = push_bit 8 i OR push_bit 2 (ucast len) OR HdrType_code type"

definition Hdr_sparse :: "u32 \<Rightarrow> u8 \<Rightarrow> Hdr" where
  "Hdr_sparse i len = Hdr_make i len Sparse"

definition Hdr_dense :: "u32 \<Rightarrow> Hdr" where
  "Hdr_dense i = Hdr_make i 0 Dense"

definition Hdr_full :: "u32 \<Rightarrow> Hdr" where
  "Hdr_full i = Hdr_make i 0 Full"

definition Hdr_id :: "Hdr \<Rightarrow> u32" where
  "Hdr_id h = drop_bit 8 h"

definition Hdr_type :: "Hdr \<Rightarrow> HdrType" where
  "Hdr_type h = (if h AND 3 = 0 then Sparse else if h AND 3 = 1 then Dense else Full)"

definition sparseLen :: "Hdr \<Rightarrow> nat" where
  "sparseLen h = unat (drop_bit 2 h AND 63)"

definition addSparseLen :: "Hdr \<Rightarrow> u8 \<Rightarrow> Hdr" where
  "addSparseLen h n = h + push_bit 2 (ucast n)"

definition denseLen :: "Hdr \<Rightarrow> nat" where
  "denseLen h = unat (h AND 1)"

definition Hdr_before :: "Hdr \<Rightarrow> u32 \<Rightarrow> bool" where
  "Hdr_before h i \<longleftrightarrow> h < push_bit 8 i"

lemma unat_push:
  fixes w :: "'a :: len word"
  assumes "unat w * 2 ^ n < 2 ^ LENGTH('a)"
  shows "unat (push_bit n w) = unat w * 2 ^ n"
  unfolding unsigned_push_bit_eq using assms by (simp add: push_bit_eq_mult take_bit_nat_eq_self)

lemma unat_drop: "unat (drop_bit n w) = unat w div 2 ^ n" for w :: "'a :: len word"
proof -
  have "take_bit LENGTH('a) (unat w) = unat w" by (rule take_bit_nat_eq_self) (rule unsigned_less)
  then show ?thesis unfolding unsigned_drop_bit_eq by (simp add: drop_bit_eq_div)
qed

lemma HdrType_code_less: "unat (HdrType_code t) < 3"
  by (cases t) (simp_all add: HdrType_code_def)

text \<open>Below the limits of the fields the header is a mixed-radix number.\<close>

lemma unat_Hdr_make:
  assumes "i < 0x1000000" "len < 64"
  shows "unat (Hdr_make i len t) = 256 * unat i + 4 * unat len + unat (HdrType_code t)"
proof -
  have i: "unat i < 2 ^ 24" and l: "unat len < 64" and t: "unat (HdrType_code t) < 4"
    using assms HdrType_code_less [of t] by (auto simp: word_less_nat_alt)
  have bt: "\<not> bit (HdrType_code t) n" if "2 \<le> n" for n
    using that by (cases t) (auto simp: HdrType_code_def bit_simps)
  have "unat (take_bit 6 len) = unat len"
    using l by (simp add: unsigned_take_bit_eq take_bit_nat_eq_self)
  then have "take_bit 6 len = len" by (simp only: unat_inj)
  then have bl: "n < 6" if "bit len n" for n
    using that by (metis bit_take_bit_iff)
  have "push_bit 8 i AND push_bit 2 (ucast len) = 0"
    by (rule bit_word_eqI) (auto simp: bit_simps dest: bl)
  moreover have "(push_bit 8 i OR push_bit 2 (ucast len)) AND HdrType_code t = 0"
    using bt by (intro bit_word_eqI) (force simp: bit_simps)
  ultimately have "Hdr_make i len t = push_bit 8 i + push_bit 2 (ucast len) + HdrType_code t"
    by (simp add: Hdr_make_def disjunctive_add_eq_or or.assoc)
  moreover have "unat (push_bit 8 i) = 256 * unat i" "unat (push_bit 2 (ucast len :: u32)) = 4 * unat len"
    using i l unat_push [of i 8] unat_push [of "ucast len :: u32" 2]
    by (simp_all add: unsigned_ucast_eq take_bit_nat_eq_self)
  ultimately show ?thesis
    using i l t by (simp add: unat_word_ariths)
qed

lemma Hdr_id_unat: "unat (Hdr_id h) = unat h div 256"
  by (simp add: Hdr_id_def unat_drop)

lemma unat_and_mask: "unat (w AND mask n) = unat w mod 2 ^ n" for w :: "'a :: len word"
  using unsigned_take_bit_eq [of n w] by (simp add: take_bit_eq_mask flip: take_bit_eq_mod)

lemma sparseLen_unat: "sparseLen h = unat h div 4 mod 64"
  using unat_and_mask [of "drop_bit 2 h" 6]
  by (simp add: sparseLen_def mask_eq_exp_minus_1 unat_drop)

lemma Hdr_type_unat: "unat (h AND 3) = unat h mod 4" for h :: u32
  using unat_and_mask [of h 2] by (simp add: mask_eq_exp_minus_1)

lemma denseLen_unat: "denseLen h = unat h mod 2"
  using unat_and_mask [of h 1] by (simp add: denseLen_def mask_eq_exp_minus_1)

lemma Hdr_before_unat:
  assumes "i < 0x1000000"
  shows "Hdr_before h i \<longleftrightarrow> Hdr_id h < i"
proof -
  have "unat (push_bit 8 i) = 256 * unat i"
    using assms unat_push [of i 8] by (simp add: word_less_nat_alt)
  then show ?thesis
    by (simp add: Hdr_before_def word_less_nat_alt Hdr_id_unat div_less_iff_less_mult mult.commute)
qed

lemma Hdr_id_less: "Hdr_id h < 0x1000000"
  using unat_lt_32 [of h] by (simp add: word_less_nat_alt Hdr_id_unat)

text \<open>The fields of a header are those it was made from.\<close>

lemma Hdr_make_fields:
  assumes "i < 0x1000000" "len < 64"
  shows "Hdr_id (Hdr_make i len t) = i" "Hdr_type (Hdr_make i len t) = t"
    "sparseLen (Hdr_make i len t) = unat len" "denseLen (Hdr_make i len t) = (if t = Dense then 1 else 0)"
proof -
  note u = unat_Hdr_make [OF assms, of t]
  have l: "unat len < 64" and t: "unat (HdrType_code t) < 4"
    using assms HdrType_code_less [of t] by (auto simp: word_less_nat_alt)
  have d: "(256 * a + 4 * b + c) div 256 = a" "(256 * a + 4 * b + c) mod 4 = c"
    "(256 * a + 4 * b + c) div 4 mod 64 = b" "(256 * a + 4 * b + c) mod 2 = c mod 2"
    if "b < 64" "c < 4" for a b c :: nat
  proof -
    show "(256 * a + 4 * b + c) div 256 = a" using that by (intro div_nat_eqI) auto
    have "(256 * a + 4 * b + c) div 4 = 64 * a + b" using that by (intro div_nat_eqI) auto
    then show "(256 * a + 4 * b + c) div 4 mod 64 = b" using that by simp
    have "256 * a + 4 * b + c = c + 4 * (64 * a + b)" by simp
    then show "(256 * a + 4 * b + c) mod 4 = c" using that by (simp only: mod_mult_self2) simp
    have "256 * a + 4 * b + c = c + 2 * (128 * a + 2 * b)" by simp
    then show "(256 * a + 4 * b + c) mod 2 = c mod 2" by (simp only: mod_mult_self2)
  qed
  note d = d [OF l t]
  show "Hdr_id (Hdr_make i len t) = i"
    by (rule unat_inj [THEN iffD1]) (simp add: Hdr_id_unat u d)
  have "unat (Hdr_make i len t AND 3) = unat (HdrType_code t)" by (simp only: Hdr_type_unat u d)
  then have "Hdr_make i len t AND 3 = HdrType_code t" by (simp only: unat_inj)
  then show "Hdr_type (Hdr_make i len t) = t"
    by (cases t) (simp_all add: Hdr_type_def HdrType_code_def)
  show "sparseLen (Hdr_make i len t) = unat len" by (simp only: sparseLen_unat u d)
  show "denseLen (Hdr_make i len t) = (if t = Dense then 1 else 0)"
    unfolding denseLen_unat u d by (cases t) (simp_all add: HdrType_code_def)
qed

lemma addSparseLen_make:
  assumes "i < 0x1000000" "len < 64" "unat len + unat n < 64"
  shows "addSparseLen (Hdr_make i len t) n = Hdr_make i (len + n) t"
proof (rule unat_inj [THEN iffD1])
  have i: "unat i < 2 ^ 24" and s: "unat (len + n) = unat len + unat n"
    using assms by (simp_all add: word_less_nat_alt unat_word_ariths)
  then have "len + n < 64" using assms(3) by (simp add: word_less_nat_alt)
  then have "unat (Hdr_make i (len + n) t) = unat (Hdr_make i len t) + 4 * unat n"
    using assms s by (simp add: unat_Hdr_make)
  moreover have "unat (push_bit 2 (ucast n :: u32)) = 4 * unat n"
    using assms(3) unat_push [of "ucast n :: u32" 2]
    by (simp add: unsigned_ucast_eq take_bit_nat_eq_self)
  moreover have "unat (Hdr_make i len t) + 4 * unat n < 2 ^ 32"
    using assms(3) i HdrType_code_less [of t] by (simp add: unat_Hdr_make assms(1,2))
  ultimately show "unat (addSparseLen (Hdr_make i len t) n) = unat (Hdr_make i (len + n) t)"
    by (simp add: addSparseLen_def unat_word_ariths)
qed

end
