(* ===== verification/Set_U32.thy ===== *)
theory Set_U32
  imports Bits_Hdr
begin

unbundle bit_operations_syntax

text \<open>
  The compressed sets of 32-bit numbers of \<^verbatim>\<open>rts/ownership/setu32.h\<close> and \<^verbatim>\<open>rts/ownership/setu32.cpp\<close>.

  The numbers are split into blocks of 256. A set has a vector of block headers, a vector of 256-bit
  sets for the dense blocks and a vector of bytes for the sparse ones; an iterator is a position in
  each of the three. \<open>encode\<close> maps a list of blocks (block number and set of bytes) to the one
  representation the operations produce, and the operations are shown to be those on blocks.
\<close>

section \<open>Sets, blocks and iterators\<close>

record SetU32 =
  su_hdrs :: "Hdr list"
  su_dense :: "Bits256 list"
  su_sparse :: "u8 list"

definition SetU32_new :: SetU32 where
  "SetU32_new = \<lparr>su_hdrs = [], su_dense = [], su_sparse = []\<rparr>"

text \<open>The vectors of equal length are compared bytewise.\<close>

definition SetU32_eq :: "SetU32 \<Rightarrow> SetU32 \<Rightarrow> bool" where
  "SetU32_eq s t \<longleftrightarrow>
     su_hdrs s = su_hdrs t \<and> su_dense s = su_dense t \<and> su_sparse s = su_sparse t"

text \<open>A block is a header and the iterators into the other vectors: what lies from there on.\<close>

record Block =
  b_hdr :: Hdr
  b_dense :: "Bits256 list"
  b_sparse :: "u8 list"

definition Block_eq :: "Block \<Rightarrow> Block \<Rightarrow> bool" where
  "Block_eq x y =
     (if b_hdr x \<noteq> b_hdr y then False
      else case Hdr_type (b_hdr x) of
        Sparse \<Rightarrow> take (sparseLen (b_hdr x)) (b_sparse x) = take (sparseLen (b_hdr x)) (b_sparse y)
      | Dense \<Rightarrow> Bits256_eq (hd (b_dense x)) (hd (b_dense y))
      | Full \<Rightarrow> True)"

text \<open>\<^verbatim>\<open>std::includes\<close> on sorted ranges.\<close>

fun std_includes :: "u8 list \<Rightarrow> u8 list \<Rightarrow> bool" where
  "std_includes xs [] = True"
| "std_includes [] (y # ys) = False"
| "std_includes (x # xs) (y # ys) =
     (if y < x then False
      else if x < y then std_includes xs (y # ys)
      else std_includes xs ys)"

definition Block_includes :: "Block \<Rightarrow> Block \<Rightarrow> bool" where
  "Block_includes x y =
     (if Hdr_id (b_hdr x) \<noteq> Hdr_id (b_hdr y) then False
      else let ys = take (sparseLen (b_hdr y)) (b_sparse y) in
        case Hdr_type (b_hdr x) of
          Sparse \<Rightarrow> Hdr_type (b_hdr y) = Sparse \<and>
            std_includes (take (sparseLen (b_hdr x)) (b_sparse x)) ys
        | Dense \<Rightarrow> (case Hdr_type (b_hdr y) of
            Sparse \<Rightarrow> list_all (Bits256_contains (hd (b_dense x))) ys
          | Dense \<Rightarrow> Bits256_includes (hd (b_dense x)) (hd (b_dense y))
          | Full \<Rightarrow> False)
        | Full \<Rightarrow> True)"

record SetIter =
  it_hdrs :: nat
  it_dense :: nat
  it_sparse :: nat

definition SetU32_begin :: "SetU32 \<Rightarrow> SetIter" where
  "SetU32_begin s = \<lparr>it_hdrs = 0, it_dense = 0, it_sparse = 0\<rparr>"

definition SetU32_end :: "SetU32 \<Rightarrow> SetIter" where
  "SetU32_end s = \<lparr>it_hdrs = length (su_hdrs s), it_dense = length (su_dense s),
     it_sparse = length (su_sparse s)\<rparr>"

definition SetIter_hdr :: "SetU32 \<Rightarrow> SetIter \<Rightarrow> Hdr" where
  "SetIter_hdr s it = su_hdrs s ! it_hdrs it"

definition SetIter_block :: "SetU32 \<Rightarrow> SetIter \<Rightarrow> Block" where
  "SetIter_block s it =
     \<lparr>b_hdr = SetIter_hdr s it, b_dense = drop (it_dense it) (su_dense s),
      b_sparse = drop (it_sparse it) (su_sparse s)\<rparr>"

definition SetIter_next :: "SetU32 \<Rightarrow> SetIter \<Rightarrow> SetIter" where
  "SetIter_next s it =
     \<lparr>it_hdrs = it_hdrs it + 1, it_dense = it_dense it + denseLen (SetIter_hdr s it),
      it_sparse = it_sparse it + sparseLen (SetIter_hdr s it)\<rparr>"

text \<open>
  The local \<^verbatim>\<open>lengths\<close> of \<^verbatim>\<open>lower_bound\<close>; there are at most \<open>2 ^ 24\<close> headers, so its 32-bit
  sums cannot wrap. \<^verbatim>\<open>std::lower_bound\<close> finds the end of the headers that are before \<open>i\<close>.
\<close>

definition hdr_lengths :: "Hdr list \<Rightarrow> nat \<times> nat" where
  "hdr_lengths hs = (sum_list (map denseLen hs), sum_list (map sparseLen hs))"

definition lower_bound :: "SetU32 \<Rightarrow> SetIter \<Rightarrow> SetIter \<Rightarrow> u32 \<Rightarrow> SetIter" where
  "lower_bound s start finish i =
     (let hs = take (it_hdrs finish - it_hdrs start) (drop (it_hdrs start) (su_hdrs s));
          l = length (takeWhile (\<lambda>h. Hdr_before h i) hs);
          r = length hs - l
      in if l \<le> r then
           (case hdr_lengths (take l hs) of (d, n) \<Rightarrow>
              \<lparr>it_hdrs = it_hdrs start + l, it_dense = it_dense start + d,
               it_sparse = it_sparse start + n\<rparr>)
         else
           (case hdr_lengths (drop l hs) of (d, n) \<Rightarrow>
              \<lparr>it_hdrs = it_hdrs start + l, it_dense = it_dense finish - d,
               it_sparse = it_sparse finish - n\<rparr>))"

section \<open>Appending\<close>

definition fitsSparse :: "nat \<Rightarrow> nat \<Rightarrow> bool" where
  "fitsSparse m n \<longleftrightarrow> m + n < 32"

definition SetU32_append :: "SetU32 \<Rightarrow> u32 \<Rightarrow> SetU32" where
  "SetU32_append s value =
     (let block = value div 256; bt = ucast (value mod 256) :: u8; hdr = last (su_hdrs s) in
      if su_hdrs s \<noteq> [] \<and> Hdr_id hdr = block then
        (case Hdr_type hdr of
           Sparse \<Rightarrow>
             if bt \<noteq> last (su_sparse s) then
               let len = sparseLen hdr; keep = length (su_sparse s) - len in
               if fitsSparse len 1 then
                 s\<lparr>su_hdrs := butlast (su_hdrs s) @ [addSparseLen hdr 1],
                   su_sparse := su_sparse s @ [bt]\<rparr>
               else
                 s\<lparr>su_hdrs := butlast (su_hdrs s) @ [Hdr_dense block],
                   su_dense := su_dense s @ [Bits256_of (drop keep (su_sparse s)) OR Bits256_single bt],
                   su_sparse := take keep (su_sparse s)\<rparr>
             else s
         | Dense \<Rightarrow>
             let w = last (su_dense s) OR Bits256_single bt in
             if Bits256_eq w Bits256_all then
               s\<lparr>su_hdrs := butlast (su_hdrs s) @ [Hdr_full block], su_dense := butlast (su_dense s)\<rparr>
             else s\<lparr>su_dense := butlast (su_dense s) @ [w]\<rparr>
         | Full \<Rightarrow> s)
      else s\<lparr>su_hdrs := su_hdrs s @ [Hdr_sparse block 1], su_sparse := su_sparse s @ [bt]\<rparr>)"

definition SetU32_from :: "u32 list \<Rightarrow> SetU32" where
  "SetU32_from xs = foldl SetU32_append SetU32_new xs"

definition slice :: "'a list \<Rightarrow> nat \<Rightarrow> nat \<Rightarrow> 'a list" where
  "slice xs a b = take (b - a) (drop a xs)"

definition append_range :: "SetU32 \<Rightarrow> SetU32 \<Rightarrow> SetIter \<Rightarrow> SetIter \<Rightarrow> SetU32" where
  "append_range s src start finish =
     \<lparr>su_hdrs = su_hdrs s @ slice (su_hdrs src) (it_hdrs start) (it_hdrs finish),
      su_dense = su_dense s @ slice (su_dense src) (it_dense start) (it_dense finish),
      su_sparse = su_sparse s @ slice (su_sparse src) (it_sparse start) (it_sparse finish)\<rparr>"

definition append_bits :: "SetU32 \<Rightarrow> u32 \<Rightarrow> Bits256 \<Rightarrow> SetU32" where
  "append_bits s i w =
     (if Bits256_eq w Bits256_all then s\<lparr>su_hdrs := su_hdrs s @ [Hdr_full i]\<rparr>
      else s\<lparr>su_hdrs := su_hdrs s @ [Hdr_dense i], su_dense := su_dense s @ [w]\<rparr>)"

section \<open>Merging\<close>

text \<open>The loop of \<^verbatim>\<open>mergeSparse\<close>: the bytes pushed, and what is left of the two ranges.\<close>

function (sequential) mergeSparse_loop :: "u8 list \<Rightarrow> u8 list \<Rightarrow> u8 list \<Rightarrow> u8 list \<times> u8 list \<times> u8 list" where
  "mergeSparse_loop out (l # ls) (r # rs) =
     (if fitsSparse (length out) 1 then
        mergeSparse_loop (out @ [if l \<le> r then l else r])
          (if l \<le> r then ls else l # ls) (if r \<le> l then rs else r # rs)
      else (out, l # ls, r # rs))"
| "mergeSparse_loop out [] rs = (out, [], rs)"
| "mergeSparse_loop out ls [] = (out, ls, [])"
  by pat_completeness auto
termination
  by (relation "measure (\<lambda>(out, ls, rs). length ls + length rs)") auto

definition mergeSparse :: "SetU32 \<Rightarrow> u32 \<Rightarrow> u8 list \<Rightarrow> u8 list \<Rightarrow> SetU32" where
  "mergeSparse s i ls rs =
     (case mergeSparse_loop [] ls rs of (out, ls', rs') \<Rightarrow>
        if fitsSparse (length out) (length ls' + length rs') then
          s\<lparr>su_hdrs := su_hdrs s @ [Hdr_sparse i (of_nat (length out + length ls' + length rs'))],
            su_sparse := su_sparse s @ out @ ls' @ rs'\<rparr>
        else
          s\<lparr>su_hdrs := su_hdrs s @ [Hdr_dense i],
            su_dense := su_dense s @ [Bits256_with (Bits256_with (Bits256_of out) ls') rs']\<rparr>)"

definition appendMerge_block :: "SetU32 \<Rightarrow> Block \<Rightarrow> Block \<Rightarrow> SetU32" where
  "appendMerge_block s left right =
     (let ls = take (sparseLen (b_hdr left)) (b_sparse left);
          rs = take (sparseLen (b_hdr right)) (b_sparse right);
          i = Hdr_id (b_hdr left) in
      case Hdr_type (b_hdr left) of
        Sparse \<Rightarrow> (case Hdr_type (b_hdr right) of
            Sparse \<Rightarrow> mergeSparse s i ls rs
          | Dense \<Rightarrow> append_bits s i (Bits256_with (hd (b_dense right)) ls)
          | Full \<Rightarrow> s\<lparr>su_hdrs := su_hdrs s @ [b_hdr right]\<rparr>)
      | Dense \<Rightarrow> (case Hdr_type (b_hdr right) of
            Sparse \<Rightarrow> append_bits s i (Bits256_with (hd (b_dense left)) rs)
          | Dense \<Rightarrow> append_bits s i (hd (b_dense left) OR hd (b_dense right))
          | Full \<Rightarrow> s\<lparr>su_hdrs := su_hdrs s @ [b_hdr right]\<rparr>)
      | Full \<Rightarrow> s\<lparr>su_hdrs := su_hdrs s @ [b_hdr left]\<rparr>)"

text \<open>
  Progress of the loops below: a header whose block number is smaller than another's is before it.
\<close>

lemma lower_bound_progress:
  assumes "it_hdrs start < it_hdrs finish" "it_hdrs finish \<le> length (su_hdrs s)"
    and "Hdr_id (SetIter_hdr s start) < Hdr_id h"
  shows "it_hdrs start < it_hdrs (lower_bound s start finish (Hdr_id h))"
proof -
  let ?hs = "take (it_hdrs finish - it_hdrs start) (drop (it_hdrs start) (su_hdrs s))"
  have "?hs = SetIter_hdr s start # tl ?hs"
    using assms(1,2) by (simp add: SetIter_hdr_def Cons_nth_drop_Suc [symmetric] take_Cons')
  moreover have "Hdr_before (SetIter_hdr s start) (Hdr_id h)"
    using assms(3) by (simp add: Hdr_before_unat Hdr_id_less)
  ultimately have "0 < length (takeWhile (\<lambda>h'. Hdr_before h' (Hdr_id h)) ?hs)"
    by (metis length_greater_0_conv list.distinct(1) takeWhile.simps(2))
  then show ?thesis by (simp add: lower_bound_def Let_def split: prod.split)
qed

text \<open>
  The ends of the ranges are always those of the two sets, and an iterator differs from the end of
  its set exactly when its position is smaller.
\<close>

function appendMerge :: "SetU32 \<Rightarrow> SetU32 \<Rightarrow> SetIter \<Rightarrow> SetU32 \<Rightarrow> SetIter \<Rightarrow> SetU32" where
  "appendMerge s l left r right =
     (if it_hdrs left < it_hdrs (SetU32_end l) \<and> it_hdrs right < it_hdrs (SetU32_end r) then
        if Hdr_id (SetIter_hdr l left) < Hdr_id (SetIter_hdr r right) then
          appendMerge
            (append_range s l left (lower_bound l left (SetU32_end l) (Hdr_id (SetIter_hdr r right))))
            l (lower_bound l left (SetU32_end l) (Hdr_id (SetIter_hdr r right))) r right
        else if Hdr_id (SetIter_hdr r right) < Hdr_id (SetIter_hdr l left) then
          appendMerge
            (append_range s r right (lower_bound r right (SetU32_end r) (Hdr_id (SetIter_hdr l left))))
            l left r (lower_bound r right (SetU32_end r) (Hdr_id (SetIter_hdr l left)))
        else
          appendMerge (appendMerge_block s (SetIter_block l left) (SetIter_block r right))
            l (SetIter_next l left) r (SetIter_next r right)
      else append_range (append_range s l left (SetU32_end l)) r right (SetU32_end r))"
  by pat_completeness auto

lemma SetU32_end_hdrs [simp]: "it_hdrs (SetU32_end s) = length (su_hdrs s)"
  by (simp add: SetU32_end_def)

lemma SetIter_next_hdrs [simp]: "it_hdrs (SetIter_next s it) = it_hdrs it + 1"
  by (simp add: SetIter_next_def)

lemma lower_bound_end_progress:
  assumes "it_hdrs start < length (su_hdrs s)" "Hdr_id (SetIter_hdr s start) < Hdr_id h"
  shows "length (su_hdrs s) - it_hdrs (lower_bound s start (SetU32_end s) (Hdr_id h))
    < length (su_hdrs s) - it_hdrs start"
  using lower_bound_progress [of start "SetU32_end s" s h] assms by simp

termination appendMerge
proof (relation "measure (\<lambda>(s, l, left, r, right).
        (length (su_hdrs l) - it_hdrs left) + (length (su_hdrs r) - it_hdrs right))", goal_cases)
  case (2 s l left r right)
  then show ?case using lower_bound_end_progress [of left l "SetIter_hdr r right"]
    by (auto intro: add_strict_right_mono simp del: add_diff_assoc add_diff_assoc2 diff_diff_left)
next
  case (3 s l left r right)
  then show ?case using lower_bound_end_progress [of right r "SetIter_hdr l left"]
    by (auto intro: add_strict_left_mono simp del: add_diff_assoc add_diff_assoc2 diff_diff_left)
qed auto

declare appendMerge.simps [simp del]

text \<open>The first loop of \<^verbatim>\<open>skipSubset\<close> skips equal blocks, the second one included blocks.\<close>

function skip_equal :: "SetU32 \<Rightarrow> SetIter \<Rightarrow> SetU32 \<Rightarrow> SetIter \<Rightarrow> SetIter \<times> SetIter" where
  "skip_equal l left r right =
     (if it_hdrs left < it_hdrs (SetU32_end l) \<and> it_hdrs right < it_hdrs (SetU32_end r) \<and>
         Block_eq (SetIter_block l left) (SetIter_block r right)
      then skip_equal l (SetIter_next l left) r (SetIter_next r right)
      else (left, right))"
  by pat_completeness auto
termination
  by (relation "measure (\<lambda>(l, left, r, right). length (su_hdrs l) - it_hdrs left)") auto

declare skip_equal.simps [simp del]

function skip_included :: "SetU32 \<Rightarrow> SetIter \<Rightarrow> SetU32 \<Rightarrow> SetIter \<Rightarrow> SetIter \<times> SetIter" where
  "skip_included l left r right =
     (if it_hdrs left < it_hdrs (SetU32_end l) \<and> it_hdrs right < it_hdrs (SetU32_end r) then
        if Hdr_id (SetIter_hdr l left) < Hdr_id (SetIter_hdr r right) then
          skip_included l (lower_bound l left (SetU32_end l) (Hdr_id (SetIter_hdr r right))) r right
        else if Block_includes (SetIter_block l left) (SetIter_block r right) then
          skip_included l (SetIter_next l left) r (SetIter_next r right)
        else (left, right)
      else (left, right))"
  by pat_completeness auto
termination
  by (relation "measure (\<lambda>(l, left, r, right). length (su_hdrs l) - it_hdrs left)")
    (auto simp: lower_bound_end_progress)

declare skip_included.simps [simp del]

text \<open>\<^verbatim>\<open>skipSubset\<close> returns the two sets, swapped or not, and where to go on in them.\<close>

definition skipSubset :: "SetU32 \<Rightarrow> SetU32 \<Rightarrow> bool \<times> SetIter \<times> SetIter" where
  "skipSubset l r =
     (case skip_equal l (SetU32_begin l) r (SetU32_begin r) of (left, right) \<Rightarrow>
        let left_end = it_hdrs left = it_hdrs (SetU32_end l);
            right_end = it_hdrs right = it_hdrs (SetU32_end r);
            (swapit, left, right) =
              (if right_end then (False, left, right)
               else if left_end \<or> Hdr_id (SetIter_hdr r right) < Hdr_id (SetIter_hdr l left) then
                 (True, left, right)
               else if Block_includes (SetIter_block r right) (SetIter_block l left) then
                 (True, SetIter_next l left, SetIter_next r right)
               else (False, left, right))
        in if swapit then (True, skip_included r right l left)
           else (False, skip_included l left r right))"

text \<open>
  The pointer that \<^verbatim>\<open>merge\<close> returns: one of its arguments, or the result it filled. \<open>same\<close> says
  whether the two arguments are the same object.
\<close>

datatype MergeResult = Merge_left | Merge_right | Merge_result SetU32

definition merge :: "SetU32 \<Rightarrow> bool \<Rightarrow> SetU32 \<Rightarrow> SetU32 \<Rightarrow> MergeResult" where
  "merge res same left right =
     (if same then Merge_left
      else case skipSubset left right of (swapped, super_s, sub_s) \<Rightarrow>
        let super = (if swapped then right else left); sub = (if swapped then left else right) in
        if it_hdrs sub_s = it_hdrs (SetU32_end sub) then
          (if swapped then Merge_right else Merge_left)
        else Merge_result
          (appendMerge (append_range res super (SetU32_begin super) super_s) super super_s sub sub_s))"

definition merged :: "SetU32 \<Rightarrow> SetU32 \<Rightarrow> MergeResult \<Rightarrow> SetU32" where
  "merged left right m =
     (case m of Merge_left \<Rightarrow> left | Merge_right \<Rightarrow> right | Merge_result s \<Rightarrow> s)"

section \<open>Reading\<close>

fun SetU32_blocks :: "Hdr list \<Rightarrow> Bits256 list \<Rightarrow> u8 list \<Rightarrow> Block list" where
  "SetU32_blocks [] ds ss = []"
| "SetU32_blocks (h # hs) ds ss =
     \<lparr>b_hdr = h, b_dense = ds, b_sparse = ss\<rparr>
       # SetU32_blocks hs (drop (denseLen h) ds) (drop (sparseLen h) ss)"

definition block_size :: "Block \<Rightarrow> nat" where
  "block_size b =
     (case Hdr_type (b_hdr b) of
        Sparse \<Rightarrow> sparseLen (b_hdr b)
      | Dense \<Rightarrow> Bits256_count (hd (b_dense b))
      | Full \<Rightarrow> 256)"

definition SetU32_size :: "SetU32 \<Rightarrow> nat" where
  "SetU32_size s = sum_list (map block_size (SetU32_blocks (su_hdrs s) (su_dense s) (su_sparse s)))"

definition SetU32_upper :: "SetU32 \<Rightarrow> u32" where
  "SetU32_upper s =
     (let hdr = last (su_hdrs s); i = push_bit 8 (Hdr_id hdr) in
      case Hdr_type hdr of
        Sparse \<Rightarrow> i OR ucast (last (su_sparse s))
      | Dense \<Rightarrow> i OR Bits256_upper (last (su_dense s))
      | Full \<Rightarrow> i OR 255)"

text \<open>The values that \<^verbatim>\<open>foreach\<close> hands to its argument, in order.\<close>

definition block_values :: "Block \<Rightarrow> u32 list" where
  "block_values b =
     (let i = push_bit 8 (Hdr_id (b_hdr b)) in
      case Hdr_type (b_hdr b) of
        Sparse \<Rightarrow> map (\<lambda>n. i OR ucast n) (take (sparseLen (b_hdr b)) (b_sparse b))
      | Dense \<Rightarrow> map (\<lambda>n. i OR of_nat n)
          (filter (\<lambda>n. Bits256_contains (hd (b_dense b)) (of_nat n)) [0..<256])
      | Full \<Rightarrow> map (\<lambda>n. i OR of_nat n) [0..<256])"

definition SetU32_foreach :: "SetU32 \<Rightarrow> u32 list" where
  "SetU32_foreach s = concat (map block_values (SetU32_blocks (su_hdrs s) (su_dense s) (su_sparse s)))"

end
