(* ===== verification/Set_U32_Correct.thy ===== *)
theory Set_U32_Correct
  imports Set_U32
begin

unbundle bit_operations_syntax

text \<open>
  Correctness of the compressed sets: \<open>encode\<close> maps an ascending list of non-empty blocks to its one
  representation; appending, merging and reading are shown on lists of blocks and then on sets of
  numbers.
\<close>

section \<open>The representation\<close>

type_synonym blk = "u32 \<times> u8 set"

definition enc_hdr :: "blk \<Rightarrow> Hdr" where
  "enc_hdr b = (if snd b = UNIV then Hdr_full (fst b)
     else if card (snd b) < 32 then Hdr_sparse (fst b) (of_nat (card (snd b)))
     else Hdr_dense (fst b))"

definition enc_dense :: "blk \<Rightarrow> Bits256 list" where
  "enc_dense b = (if snd b = UNIV \<or> card (snd b) < 32 then []
     else [Bits256_of (sorted_list_of_set (snd b))])"

definition enc_sparse :: "blk \<Rightarrow> u8 list" where
  "enc_sparse b = (if card (snd b) < 32 then sorted_list_of_set (snd b) else [])"

definition encode :: "blk list \<Rightarrow> SetU32" where
  "encode bs = \<lparr>su_hdrs = map enc_hdr bs, su_dense = concat (map enc_dense bs),
     su_sparse = concat (map enc_sparse bs)\<rparr>"

definition good_block :: "blk \<Rightarrow> bool" where
  "good_block b \<longleftrightarrow> fst b < 0x1000000 \<and> snd b \<noteq> {}"

definition good :: "blk list \<Rightarrow> bool" where
  "good bs \<longleftrightarrow> sorted_wrt (<) (map fst bs) \<and> list_all good_block bs"

lemma encode_append: "encode (bs @ cs) =
  \<lparr>su_hdrs = su_hdrs (encode bs) @ map enc_hdr cs, su_dense = su_dense (encode bs) @ concat (map enc_dense cs),
   su_sparse = su_sparse (encode bs) @ concat (map enc_sparse cs)\<rparr>"
  by (simp add: encode_def)

lemma encode_sel [simp]: "su_hdrs (encode bs) = map enc_hdr bs"
  "su_dense (encode bs) = concat (map enc_dense bs)" "su_sparse (encode bs) = concat (map enc_sparse bs)"
  by (simp_all add: encode_def)

lemma card_u8: "card (UNIV :: u8 set) = 256"
  by (simp add: card_word)

lemma of_nat_card: "card S < 32 \<Longrightarrow> unat (of_nat (card S) :: u8) = card S"
  by (simp add: unat_of_nat)

lemma small_not_UNIV: "card S < 32 \<Longrightarrow> S \<noteq> (UNIV :: u8 set)"
  using card_u8 by auto

lemma small_len: "card S < 32 \<Longrightarrow> (of_nat (card S) :: u8) < 64"
  by (simp add: word_less_nat_alt of_nat_card)

text \<open>What a header says of its block.\<close>

lemma enc_fields:
  assumes "good_block b"
  shows "Hdr_id (enc_hdr b) = fst b" "sparseLen (enc_hdr b) = length (enc_sparse b)"
    "denseLen (enc_hdr b) = length (enc_dense b)"
    "Hdr_type (enc_hdr b) = (if snd b = UNIV then Full else if card (snd b) < 32 then Sparse else Dense)"
  using assms
  by (simp_all add: good_block_def enc_hdr_def enc_dense_def enc_sparse_def Hdr_full_def Hdr_sparse_def
      Hdr_dense_def Hdr_make_fields card_u8 of_nat_card word_less_nat_alt small_not_UNIV)

lemma enc_inj:
  assumes "good_block b" "good_block c" "enc_hdr b = enc_hdr c"
    "enc_dense b = enc_dense c" "enc_sparse b = enc_sparse c"
  shows "b = c"
proof -
  have f: "fst b = fst c" using assms enc_fields(1) by metis
  have t: "(snd b = UNIV) = (snd c = UNIV)" "(card (snd b) < 32) = (card (snd c) < 32)"
    using enc_fields(4) [OF assms(1)] enc_fields(4) [OF assms(2)] assms(3)
    by (auto split: if_splits simp: small_not_UNIV)
  have "snd b = snd c"
  proof (cases "card (snd b) < 32")
    case True
    then have "set (enc_sparse b) = snd b" "set (enc_sparse c) = snd c"
      using t by (simp_all add: enc_sparse_def)
    then show ?thesis using assms by simp
  next
    case False
    moreover have "bits (Bits256_of (sorted_list_of_set S)) = S" for S :: "u8 set" by simp
    ultimately show ?thesis
      using assms(4) t unfolding enc_dense_def by (metis list.inject)
  qed
  with f show ?thesis by (rule prod_eqI)
qed

section \<open>Iterators\<close>

text \<open>The iterator at a block.\<close>

definition pos :: "blk list \<Rightarrow> nat \<Rightarrow> SetIter" where
  "pos bs k = \<lparr>it_hdrs = k, it_dense = length (concat (map enc_dense (take k bs))),
     it_sparse = length (concat (map enc_sparse (take k bs)))\<rparr>"

lemma pos_hdrs [simp]: "it_hdrs (pos bs k) = k"
  by (simp add: pos_def)

lemma begin_pos: "SetU32_begin (encode bs) = pos bs 0"
  by (simp add: SetU32_begin_def pos_def)

lemma end_pos: "SetU32_end (encode bs) = pos bs (length bs)"
  by (simp add: SetU32_end_def pos_def)

lemma concat_take_drop: "concat (map f xs) = concat (map f (take k xs)) @ concat (map f (drop k xs))"
  by (metis append_take_drop_id concat_append map_append)

lemma drop_concat: "drop (length (concat (map f (take k xs)))) (concat (map f xs)) = concat (map f (drop k xs))"
  by (subst (2) concat_take_drop [of _ _ k]) simp

lemma hdr_at: "k < length bs \<Longrightarrow> SetIter_hdr (encode bs) (pos bs k) = enc_hdr (bs ! k)"
  by (simp add: SetIter_hdr_def)

lemma block_at:
  assumes "k < length bs"
  shows "SetIter_block (encode bs) (pos bs k) =
    \<lparr>b_hdr = enc_hdr (bs ! k), b_dense = enc_dense (bs ! k) @ concat (map enc_dense (drop (Suc k) bs)),
     b_sparse = enc_sparse (bs ! k) @ concat (map enc_sparse (drop (Suc k) bs))\<rparr>"
proof -
  have "drop k bs = bs ! k # drop (Suc k) bs" using assms by (simp add: Cons_nth_drop_Suc)
  then show ?thesis
    by (simp only: SetIter_block_def hdr_at assms) (simp add: pos_def drop_concat)
qed

lemma good_nth: "good bs \<Longrightarrow> k < length bs \<Longrightarrow> good_block (bs ! k)"
  by (simp add: good_def list_all_length)

lemma next_pos:
  assumes "good bs" "k < length bs"
  shows "SetIter_next (encode bs) (pos bs k) = pos bs (Suc k)"
  using assms hdr_at [OF assms(2)] enc_fields(2,3) [OF good_nth [OF assms]]
  by (simp add: SetIter_next_def) (simp add: pos_def take_Suc_conv_app_nth)

lemma hdr_lengths_enc:
  assumes "list_all good_block bs"
  shows "hdr_lengths (map enc_hdr bs) =
    (length (concat (map enc_dense bs)), length (concat (map enc_sparse bs)))"
  using assms by (induction bs) (simp_all add: hdr_lengths_def enc_fields)

lemma length_concat_take_add:
  "length (concat (map f (take (k + l) xs))) =
   length (concat (map f (take k xs))) + length (concat (map f (take l (drop k xs))))"
  by (simp add: take_add)

lemma length_concat_drop:
  "length (concat (map f xs)) - length (concat (map f (drop (k + l) xs))) =
   length (concat (map f (take k xs))) + length (concat (map f (take l (drop k xs))))"
  using arg_cong [OF concat_take_drop [of f xs "k + l"], of length]
  by (simp flip: length_concat_take_add)

lemma good_drop: "good bs \<Longrightarrow> good (drop k bs)"
  by (simp add: good_def sorted_wrt_drop flip: drop_map)
    (metis append_take_drop_id list_all_append)

lemma good_take: "good bs \<Longrightarrow> good (take k bs)"
  by (simp add: good_def sorted_wrt_take flip: take_map)
    (metis append_take_drop_id list_all_append)

lemma good_list_all: "good bs \<Longrightarrow> list_all good_block bs"
  by (simp add: good_def)

definition upto_id :: "u32 \<Rightarrow> blk list \<Rightarrow> blk list" where
  "upto_id i bs = takeWhile (\<lambda>b. fst b < i) bs"

definition from_id :: "u32 \<Rightarrow> blk list \<Rightarrow> blk list" where
  "from_id i bs = dropWhile (\<lambda>b. fst b < i) bs"

lemma takeWhile_enc:
  assumes "list_all good_block bs" "i < 0x1000000"
  shows "takeWhile (\<lambda>h. Hdr_before h i) (map enc_hdr bs) = map enc_hdr (upto_id i bs)"
  using assms by (induction bs) (simp_all add: upto_id_def Hdr_before_unat enc_fields)

lemma lower_bound_pos:
  assumes "good bs" "k \<le> length bs" "i < 0x1000000"
  shows "lower_bound (encode bs) (pos bs k) (SetU32_end (encode bs)) i
    = pos bs (k + length (upto_id i (drop k bs)))"
proof -
  let ?cs = "drop k bs"
  let ?l = "length (upto_id i ?cs)"
  have good: "list_all good_block ?cs" using good_list_all [OF good_drop [OF assms(1)]] .
  have l: "?l \<le> length bs - k" unfolding upto_id_def by (rule order_trans [OF length_takeWhile_le]) simp
  have g: "list_all good_block (take ?l ?cs)" "list_all good_block (drop ?l ?cs)"
    using good by (metis append_take_drop_id list_all_append)+
  have hs: "take (it_hdrs (SetU32_end (encode bs)) - it_hdrs (pos bs k))
      (drop (it_hdrs (pos bs k)) (su_hdrs (encode bs))) = map enc_hdr ?cs"
    by (simp add: drop_map)
  have len: "length (takeWhile (\<lambda>h. Hdr_before h i) (map enc_hdr ?cs)) = ?l"
    by (simp add: takeWhile_enc good assms(3))
  show ?thesis
    unfolding lower_bound_def hs Let_def len take_map drop_map
      hdr_lengths_enc [OF g(1)] hdr_lengths_enc [OF g(2)]
    by (simp add: end_pos)
      (auto simp: pos_def length_concat_take_add length_concat_drop add.commute)
qed

lemma slice_concat:
  assumes "k \<le> m"
  shows "slice (concat (map f xs)) (length (concat (map f (take k xs)))) (length (concat (map f (take m xs))))
    = concat (map f (slice xs k m))"
proof -
  obtain l where m: "m = k + l" using assms le_iff_add by blast
  have "drop k xs = take l (drop k xs) @ drop l (drop k xs)" by (rule append_take_drop_id [symmetric])
  then have "concat (map f (drop k xs)) =
    concat (map f (take l (drop k xs))) @ concat (map f (drop l (drop k xs)))"
    by (metis concat_append map_append)
  then show ?thesis
    unfolding slice_def drop_concat m length_concat_take_add by simp
qed

lemma append_range_pos:
  assumes "k \<le> m" "m \<le> length bs"
  shows "append_range (encode rs) (encode bs) (pos bs k) (pos bs m) = encode (rs @ slice bs k m)"
  using assms
  by (simp add: append_range_def encode_append pos_def slice_concat) (simp add: slice_def take_map drop_map)

lemma slice_rest: "slice bs k (length bs) = drop k bs"
  by (simp add: slice_def)

lemma slice_add: "slice bs k (k + l) = take l (drop k bs)"
  by (simp add: slice_def)

section \<open>Operations on blocks\<close>

text \<open>A block of the code stands for a block number and a set of bytes.\<close>

definition block_rep :: "Block \<Rightarrow> blk \<Rightarrow> bool" where
  "block_rep B b \<longleftrightarrow> good_block b \<and> b_hdr B = enc_hdr b \<and>
     (\<exists>ds. b_dense B = enc_dense b @ ds) \<and> (\<exists>ss. b_sparse B = enc_sparse b @ ss)"

lemma block_rep_at:
  "good bs \<Longrightarrow> k < length bs \<Longrightarrow> block_rep (SetIter_block (encode bs) (pos bs k)) (bs ! k)"
  by (auto simp: block_rep_def block_at good_nth)

lemma block_rep_sparse:
  "block_rep B b \<Longrightarrow> take (sparseLen (b_hdr B)) (b_sparse B) = enc_sparse b"
  by (auto simp: block_rep_def enc_fields)

lemma block_rep_dense:
  "block_rep B b \<Longrightarrow> snd b \<noteq> UNIV \<Longrightarrow> \<not> card (snd b) < 32 \<Longrightarrow> bits (hd (b_dense B)) = snd b"
  by (auto simp: block_rep_def enc_dense_def)

lemma block_rep_fields:
  assumes "block_rep B b"
  shows "Hdr_id (b_hdr B) = fst b"
    "Hdr_type (b_hdr B) = (if snd b = UNIV then Full else if card (snd b) < 32 then Sparse else Dense)"
    "b_hdr B = enc_hdr b"
  using assms by (simp_all add: block_rep_def enc_fields)

lemmas block_rep = block_rep_sparse block_rep_dense block_rep_fields(1,2)

lemma enc_sparse_set: "card (snd b) < 32 \<Longrightarrow> set (enc_sparse b) = snd b"
  by (simp add: enc_sparse_def)

lemma Block_eq_rep:
  assumes "block_rep B b" "block_rep C c"
  shows "Block_eq B C \<longleftrightarrow> b = c"
proof
  assume eq: "Block_eq B C"
  then have h: "enc_hdr b = enc_hdr c"
    using assms by (simp add: Block_eq_def block_rep_fields(3) split: if_splits)
  have g: "good_block b" "good_block c" using assms by (simp_all add: block_rep_def)
  have f: "fst b = fst c" using h g enc_fields(1) by metis
  have l: "b_hdr B = b_hdr C"
    using h assms by (simp add: block_rep_fields(3))
  have t: "snd b = UNIV \<longleftrightarrow> snd c = UNIV" "card (snd b) < 32 \<longleftrightarrow> card (snd c) < 32"
    using enc_fields(4) [OF g(1)] enc_fields(4) [OF g(2)] h by (auto split: if_splits simp: small_not_UNIV)
  consider "snd b = UNIV" | "snd b \<noteq> UNIV" "card (snd b) < 32" | "snd b \<noteq> UNIV" "\<not> card (snd b) < 32"
    by blast
  then have "snd b = snd c"
  proof cases
    case 2
    then have "enc_sparse b = enc_sparse c"
      using eq l block_rep_sparse [OF assms(1)] block_rep_sparse [OF assms(2)]
      by (simp add: Block_eq_def block_rep_fields(2) [OF assms(2)] t)
    then show ?thesis using enc_sparse_set [of b] enc_sparse_set [of c] t 2 by simp
  next
    case 3
    then have "hd (b_dense B) = hd (b_dense C)"
      using eq l by (simp add: Block_eq_def block_rep_fields(2) [OF assms(2)] t)
    then show ?thesis using block_rep_dense assms t 3 by metis
  qed (use t in simp)
  with f show "b = c" by (rule prod_eqI)
next
  assume "b = c"
  then show "Block_eq B C"
    using assms block_rep_sparse [OF assms(1)] block_rep_sparse [OF assms(2)]
    by (cases "snd c = UNIV") (auto simp: Block_eq_def block_rep_def enc_fields enc_dense_def)
qed

lemma std_includes_subset:
  "sorted_wrt (<) xs \<Longrightarrow> sorted_wrt (<) ys \<Longrightarrow> std_includes xs ys \<longleftrightarrow> set ys \<subseteq> set xs"
proof (induction xs ys rule: std_includes.induct)
  case (3 x xs y ys)
  consider "y < x" | "x < y" | "x = y" by fastforce
  then show ?case
  proof cases
    case 1 then show ?thesis using 3(3) by auto
  next
    case 2
    then have "x \<notin> set (y # ys)" using 3(4) by auto
    then show ?thesis using 2 3 by auto
  next
    case 3
    then have "x \<notin> set ys" using "3.prems" by auto
    then show ?thesis using 3 "3.IH" "3.prems" by auto
  qed
qed simp_all

lemma Block_includes_rep:
  assumes "block_rep B b" "block_rep C c"
  shows "Block_includes B C \<longleftrightarrow> fst b = fst c \<and> snd c \<subseteq> snd b"
proof -
  have small: "card (snd b) < 32 \<Longrightarrow> snd c \<subseteq> snd b \<Longrightarrow> card (snd c) < 32"
    using card_mono [of "snd b" "snd c"] by simp
  show ?thesis
    using small small_not_UNIV [of "snd b"] small_not_UNIV [of "snd c"] block_rep_dense [OF assms(1)]
      block_rep_dense [OF assms(2)]
    by (auto simp: Block_includes_def Let_def block_rep_fields(1,2) [OF assms(1)]
        block_rep_fields(1,2) [OF assms(2)] block_rep_sparse [OF assms(1)] block_rep_sparse [OF assms(2)]
        enc_sparse_def std_includes_subset list_all_iff)
qed

lemma strict_list: "sorted_wrt (<) xs \<Longrightarrow> sorted_list_of_set (set xs) = xs" for xs :: "'a :: linorder list"
  by (simp add: strict_sorted_iff sorted_list_of_set.idem_if_sorted_distinct)

lemma strict_card: "sorted_wrt (<) xs \<Longrightarrow> card (set xs) = length xs" for xs :: "'a :: linorder list"
  by (simp add: strict_sorted_iff distinct_card)

lemma mergeSparse_loop_spec:
  assumes "mergeSparse_loop out ls rs = (out', ls', rs')"
    and "sorted_wrt (<) (out @ ls)" "sorted_wrt (<) (out @ rs)"
  shows "sorted_wrt (<) (out' @ ls') \<and> sorted_wrt (<) (out' @ rs') \<and>
    set out' \<union> set ls' \<union> set rs' = set out \<union> set ls \<union> set rs \<and>
    (ls' = [] \<or> rs' = [] \<or> 31 \<le> length out')"
  using assms
proof (induction out ls rs rule: mergeSparse_loop.induct)
  case (1 out l ls r rs)
  show ?case
  proof (cases "fitsSparse (length out) 1")
    case True
    let ?out = "out @ [if l \<le> r then l else r]"
    let ?ls = "if l \<le> r then ls else l # ls" and ?rs = "if r \<le> l then rs else r # rs"
    have "sorted_wrt (<) (?out @ ?ls)" "sorted_wrt (<) (?out @ ?rs)"
      using "1.prems"(2,3) by (cases l r rule: linorder_cases; force simp: sorted_wrt_append)+
    moreover have "set ?out \<union> set ?ls \<union> set ?rs = set out \<union> set (l # ls) \<union> set (r # rs)"
      by auto
    ultimately show ?thesis using "1.IH" [OF True] "1.prems"(1) True by simp
  next
    case False
    then show ?thesis using "1.prems" by (auto simp: fitsSparse_def)
  qed
qed simp_all

lemma encode_snoc_sparse:
  assumes "sorted_wrt (<) xs" "length xs < 32" "S = set xs"
  shows "encode (rs @ [(i, S)]) = (encode rs)\<lparr>su_hdrs := su_hdrs (encode rs) @ [Hdr_sparse i (of_nat (length xs))],
    su_sparse := su_sparse (encode rs) @ xs\<rparr>"
  using assms small_not_UNIV [of S]
  by (simp add: encode_def enc_hdr_def enc_dense_def enc_sparse_def strict_card strict_list)

lemma encode_snoc_bits:
  assumes "\<not> card (bits w) < 32"
  shows "encode (rs @ [(i, bits w)]) = append_bits (encode rs) i w"
proof -
  have "Bits256_of (sorted_list_of_set (bits w)) = w"
    by (rule bits_inject [THEN iffD1]) simp
  moreover have "bits w = UNIV \<longleftrightarrow> w = Bits256_all" by (metis bits_all bits_inject)
  ultimately show ?thesis
    using assms by (auto simp: append_bits_def encode_def enc_hdr_def enc_dense_def enc_sparse_def card_u8)
qed

lemma mergeSparse_rep:
  assumes "sorted_wrt (<) ls" "sorted_wrt (<) rs'" "length ls < 32" "length rs' < 32"
  shows "mergeSparse (encode rs) i ls rs' = encode (rs @ [(i, set ls \<union> set rs')])"
proof -
  obtain out l r where loop: "mergeSparse_loop [] ls rs' = (out, l, r)" by (cases "mergeSparse_loop [] ls rs'")
  have sorted: "sorted_wrt (<) (out @ l)" "sorted_wrt (<) (out @ r)"
    and set: "set out \<union> set l \<union> set r = set ls \<union> set rs'"
    and one: "l = [] \<or> r = [] \<or> 31 \<le> length out"
    using mergeSparse_loop_spec [OF loop] assms by simp_all
  show ?thesis
  proof (cases "length out + length l + length r < 32")
    case True
    then have "l = [] \<or> r = []" using one by (cases l; cases r) auto
    then have "sorted_wrt (<) (out @ l @ r)" using sorted by auto
    moreover have "set ls \<union> set rs' = set (out @ l @ r)" using set by auto
    ultimately show ?thesis
      using True encode_snoc_sparse [of "out @ l @ r" "set ls \<union> set rs'" rs i]
      by (simp add: mergeSparse_def loop fitsSparse_def add.assoc)
  next
    case False
    let ?w = "Bits256_with (Bits256_with (Bits256_of out) l) r"
    have bits: "bits ?w = set ls \<union> set rs'" using set by simp
    have "length (out @ l) \<le> card (bits ?w)" "length (out @ r) \<le> card (bits ?w)"
      using strict_card [OF sorted(1)] strict_card [OF sorted(2)]
        card_mono [of "bits ?w" "set (out @ l)"] card_mono [of "bits ?w" "set (out @ r)"] by auto
    then have big: "\<not> card (bits ?w) < 32" using one False by (cases l; cases r) auto
    have "card (bits ?w) \<le> 62"
      using card_Un_le [of "set ls" "set rs'"] card_length [of ls] card_length [of rs'] assms(3,4)
      unfolding bits by linarith
    then have "?w \<noteq> Bits256_all" using card_u8 by (metis bits_all le_eq_less_or_eq not_le numeral_less_iff semiring_norm(76,78,80,81))
    then show ?thesis
      using False encode_snoc_bits [OF big, of rs i]
      by (simp add: set mergeSparse_def loop fitsSparse_def append_bits_def)
  qed
qed

lemma card_Un_ge: "\<not> card S < n \<Longrightarrow> \<not> card (S \<union> T) < n" "\<not> card T < n \<Longrightarrow> \<not> card (S \<union> T) < n"
  for S T :: "u8 set"
  using card_mono [of "S \<union> T" S] card_mono [of "S \<union> T" T] by simp_all

lemma enc_full: "snd b = UNIV \<Longrightarrow> encode (rs @ [b]) = (encode rs)\<lparr>su_hdrs := su_hdrs (encode rs) @ [enc_hdr b]\<rparr>"
  by (simp add: encode_def enc_dense_def enc_sparse_def card_u8)

lemma appendMerge_block_rep:
  assumes "block_rep B b" "block_rep C c" "fst b = fst c"
  shows "appendMerge_block (encode rs) B C = encode (rs @ [(fst b, snd b \<union> snd c)])"
proof -
  note rep = block_rep_fields(1,2) [OF assms(1)] block_rep_fields(1,2) [OF assms(2)]
    block_rep_sparse [OF assms(1)] block_rep_sparse [OF assms(2)]
  note bd = block_rep_dense [OF assms(1)] and cd = block_rep_dense [OF assms(2)]
  have full: "encode (rs @ [(fst b, UNIV)]) = (encode rs)\<lparr>su_hdrs := su_hdrs (encode rs) @ [Hdr_full (fst b)]\<rparr>"
    using enc_full [of "(fst b, UNIV)" rs] by (simp add: enc_hdr_def)
  consider (l) "snd b = UNIV" | (r) "snd b \<noteq> UNIV" "snd c = UNIV"
    | (ss) "card (snd b) < 32" "card (snd c) < 32"
    | (sd) "card (snd b) < 32" "snd c \<noteq> UNIV" "\<not> card (snd c) < 32"
    | (ds) "snd b \<noteq> UNIV" "\<not> card (snd b) < 32" "card (snd c) < 32"
    | (dd) "snd b \<noteq> UNIV" "\<not> card (snd b) < 32" "snd c \<noteq> UNIV" "\<not> card (snd c) < 32" by blast
  then show ?thesis
  proof cases
    case l
    then have "b_hdr B = Hdr_full (fst b)" using block_rep_fields(3) [OF assms(1)] by (simp add: enc_hdr_def)
    moreover have "appendMerge_block (encode rs) B C = (encode rs)\<lparr>su_hdrs := su_hdrs (encode rs) @ [b_hdr B]\<rparr>"
      using l by (simp add: appendMerge_block_def Let_def rep)
    ultimately show ?thesis using l full by simp
  next
    case r
    then have "b_hdr C = Hdr_full (fst b)"
      using block_rep_fields(3) [OF assms(2)] assms(3) by (simp add: enc_hdr_def)
    moreover have "appendMerge_block (encode rs) B C = (encode rs)\<lparr>su_hdrs := su_hdrs (encode rs) @ [b_hdr C]\<rparr>"
      using r by (simp add: appendMerge_block_def Let_def rep)
    ultimately show ?thesis using r full by simp
  next
    case ss
    then have "mergeSparse (encode rs) (fst b) (enc_sparse b) (enc_sparse c)
      = encode (rs @ [(fst b, snd b \<union> snd c)])"
      by (subst mergeSparse_rep) (simp_all add: enc_sparse_def)
    then show ?thesis using ss by (simp add: appendMerge_block_def Let_def rep small_not_UNIV)
  next
    case sd
    let ?w = "Bits256_with (hd (b_dense C)) (enc_sparse b)"
    have "bits ?w = snd b \<union> snd c" using sd cd by (auto simp: enc_sparse_set)
    then show ?thesis
      using encode_snoc_bits [of ?w rs "fst b"] sd card_Un_ge(2) [of "snd c" 32 "snd b"]
      by (simp add: appendMerge_block_def Let_def rep small_not_UNIV)
  next
    case ds
    let ?w = "Bits256_with (hd (b_dense B)) (enc_sparse c)"
    have "bits ?w = snd b \<union> snd c" using ds bd by (simp add: enc_sparse_set)
    then show ?thesis
      using encode_snoc_bits [of ?w rs "fst b"] ds card_Un_ge(1) [of "snd b" 32 "snd c"]
      by (simp add: appendMerge_block_def Let_def rep small_not_UNIV)
  next
    case dd
    let ?w = "hd (b_dense B) OR hd (b_dense C)"
    have "bits ?w = snd b \<union> snd c" using dd bd cd by simp
    then show ?thesis
      using encode_snoc_bits [of ?w rs "fst b"] dd card_Un_ge(1) [of "snd b" 32 "snd c"]
      by (simp add: appendMerge_block_def Let_def rep)
  qed
qed

section \<open>Merging blocks\<close>

fun merge_blocks :: "blk list \<Rightarrow> blk list \<Rightarrow> blk list" where
  "merge_blocks [] cs = cs"
| "merge_blocks bs [] = bs"
| "merge_blocks (b # bs) (c # cs) =
     (if fst b < fst c then b # merge_blocks bs (c # cs)
      else if fst c < fst b then c # merge_blocks (b # bs) cs
      else (fst b, snd b \<union> snd c) # merge_blocks bs cs)"

lemma merge_blocks_Nil [simp]: "merge_blocks bs [] = bs"
  by (cases bs) simp_all

lemma merge_blocks_commute: "merge_blocks bs cs = merge_blocks cs bs"
  by (induction bs cs rule: merge_blocks.induct) (auto simp: not_less_iff_gr_or_eq)

lemma merge_blocks_left: "cs \<noteq> [] \<Longrightarrow>
  merge_blocks bs cs = upto_id (fst (hd cs)) bs @ merge_blocks (from_id (fst (hd cs)) bs) cs"
  by (induction bs) (cases cs; auto simp: upto_id_def from_id_def)+

lemma merge_blocks_right: "bs \<noteq> [] \<Longrightarrow>
  merge_blocks bs cs = upto_id (fst (hd bs)) cs @ merge_blocks bs (from_id (fst (hd bs)) cs)"
  using merge_blocks_left [of bs cs] by (simp add: merge_blocks_commute)

lemma take_upto_id: "take (length (upto_id i bs)) bs = upto_id i bs"
  by (metis takeWhile_eq_take upto_id_def)

lemma drop_upto_id: "drop (length (upto_id i bs)) bs = from_id i bs"
  by (metis dropWhile_eq_drop upto_id_def from_id_def)

lemma id_less: "good bs \<Longrightarrow> k < length bs \<Longrightarrow> fst (bs ! k) < 0x1000000"
  using good_nth by (auto simp: good_block_def)

lemma length_upto_id: "length (upto_id i bs) \<le> length bs"
  by (simp add: upto_id_def length_takeWhile_le)

lemma drop_nth: "k < length xs \<Longrightarrow> drop k xs = xs ! k # drop (Suc k) xs"
  by (simp add: Cons_nth_drop_Suc)

lemma upto_id_drop:
  assumes "k < length bs" "fst (bs ! k) < i"
  shows "0 < length (upto_id i (drop k bs))" "k + length (upto_id i (drop k bs)) \<le> length bs"
proof -
  show "0 < length (upto_id i (drop k bs))" using assms by (simp add: drop_nth upto_id_def)
  show "k + length (upto_id i (drop k bs)) \<le> length bs"
    using length_upto_id [of i "drop k bs"] assms(1) by simp
qed

lemma from_id_drop: "drop (k + length (upto_id i (drop k bs))) bs = from_id i (drop k bs)"
  using drop_upto_id [of i "drop k bs"] by (simp add: add.commute)

text \<open>The steps of the loop.\<close>

lemma appendMerge_steps:
  assumes "good bs" "good cs" "k < length bs" "m < length cs"
  shows "fst (bs ! k) < fst (cs ! m) \<Longrightarrow>
      appendMerge (encode rs) (encode bs) (pos bs k) (encode cs) (pos cs m) =
      appendMerge (encode (rs @ upto_id (fst (cs ! m)) (drop k bs))) (encode bs)
        (pos bs (k + length (upto_id (fst (cs ! m)) (drop k bs)))) (encode cs) (pos cs m)"
    and "fst (cs ! m) < fst (bs ! k) \<Longrightarrow>
      appendMerge (encode rs) (encode bs) (pos bs k) (encode cs) (pos cs m) =
      appendMerge (encode (rs @ upto_id (fst (bs ! k)) (drop m cs))) (encode bs) (pos bs k)
        (encode cs) (pos cs (m + length (upto_id (fst (bs ! k)) (drop m cs))))"
    and "fst (bs ! k) = fst (cs ! m) \<Longrightarrow>
      appendMerge (encode rs) (encode bs) (pos bs k) (encode cs) (pos cs m) =
      appendMerge (encode (rs @ [(fst (bs ! k), snd (bs ! k) \<union> snd (cs ! m))])) (encode bs) (pos bs (Suc k))
        (encode cs) (pos cs (Suc m))"
proof -
  note step = appendMerge.simps [of "encode rs" "encode bs" "pos bs k" "encode cs" "pos cs m"]
  note at = assms hdr_at [OF assms(3)] enc_fields(1) [OF good_nth [OF assms(1,3)]]
    hdr_at [OF assms(4)] enc_fields(1) [OF good_nth [OF assms(2,4)]]
    id_less [OF assms(1,3)] id_less [OF assms(2,4)]
  show "appendMerge (encode rs) (encode bs) (pos bs k) (encode cs) (pos cs m) =
      appendMerge (encode (rs @ upto_id (fst (cs ! m)) (drop k bs))) (encode bs)
        (pos bs (k + length (upto_id (fst (cs ! m)) (drop k bs)))) (encode cs) (pos cs m)"
    if "fst (bs ! k) < fst (cs ! m)"
    using that upto_id_drop [OF assms(3) that]
    by (subst step) (simp add: at lower_bound_pos append_range_pos slice_add take_upto_id)
  show "appendMerge (encode rs) (encode bs) (pos bs k) (encode cs) (pos cs m) =
      appendMerge (encode (rs @ upto_id (fst (bs ! k)) (drop m cs))) (encode bs) (pos bs k)
        (encode cs) (pos cs (m + length (upto_id (fst (bs ! k)) (drop m cs))))"
    if "fst (cs ! m) < fst (bs ! k)"
    using that upto_id_drop [OF assms(4) that]
    by (subst step) (simp add: at lower_bound_pos append_range_pos slice_add take_upto_id)
  show "appendMerge (encode rs) (encode bs) (pos bs k) (encode cs) (pos cs m) =
      appendMerge (encode (rs @ [(fst (bs ! k), snd (bs ! k) \<union> snd (cs ! m))])) (encode bs) (pos bs (Suc k))
        (encode cs) (pos cs (Suc m))"
    if "fst (bs ! k) = fst (cs ! m)"
    using that appendMerge_block_rep [OF block_rep_at [OF assms(1,3)] block_rep_at [OF assms(2,4)] that, of rs]
    by (subst step) (simp add: at next_pos)
qed

lemma appendMerge_done:
  assumes "\<not> (k < length bs \<and> m < length cs)" "k \<le> length bs" "m \<le> length cs"
  shows "appendMerge (encode rs) (encode bs) (pos bs k) (encode cs) (pos cs m)
    = encode (rs @ drop k bs @ drop m cs)"
proof -
  have "\<not> (it_hdrs (pos bs k) < it_hdrs (SetU32_end (encode bs)) \<and>
    it_hdrs (pos cs m) < it_hdrs (SetU32_end (encode cs)))" using assms(1) by simp
  then have "appendMerge (encode rs) (encode bs) (pos bs k) (encode cs) (pos cs m) =
    append_range (append_range (encode rs) (encode bs) (pos bs k) (SetU32_end (encode bs)))
      (encode cs) (pos cs m) (SetU32_end (encode cs))"
    by (subst appendMerge.simps) (rule if_not_P)
  then show ?thesis using assms(2,3) by (simp add: end_pos append_range_pos slice_rest)
qed

text \<open>Appending a merge from two positions appends the merged blocks.\<close>

lemma appendMerge_pos:
  assumes "good bs" "good cs" "k \<le> length bs" "m \<le> length cs"
  shows "appendMerge (encode rs) (encode bs) (pos bs k) (encode cs) (pos cs m)
    = encode (rs @ merge_blocks (drop k bs) (drop m cs))"
  using assms(3,4)
proof (induction "length bs - k + (length cs - m)" arbitrary: k m rs rule: less_induct)
  case less
  show ?case
  proof (cases "k < length bs \<and> m < length cs")
    case False
    then have "k = length bs \<or> m = length cs" using less.prems by auto
    then show ?thesis using less.prems appendMerge_done [OF False] by auto
  next
    case True
    then have k: "k < length bs" and m: "m < length cs" by simp_all
    note steps = appendMerge_steps [OF assms(1,2) k m]
    consider (lt) "fst (bs ! k) < fst (cs ! m)" | (gt) "fst (cs ! m) < fst (bs ! k)"
      | (eq) "fst (bs ! k) = fst (cs ! m)" by fastforce
    then show ?thesis
    proof cases
      case lt
      let ?l = "length (upto_id (fst (cs ! m)) (drop k bs))"
      have "length bs - (k + ?l) + (length cs - m) < length bs - k + (length cs - m)"
        using upto_id_drop [OF k lt] by linarith
      note ih = less.hyps [OF this]
      show ?thesis
        using upto_id_drop(2) [OF k lt] m merge_blocks_left [of "drop m cs" "drop k bs"]
        by (subst steps(1) [OF lt]) (simp add: ih from_id_drop hd_drop_conv_nth)
    next
      case gt
      let ?l = "length (upto_id (fst (bs ! k)) (drop m cs))"
      have "length bs - k + (length cs - (m + ?l)) < length bs - k + (length cs - m)"
        using upto_id_drop [OF m gt] by linarith
      note ih = less.hyps [OF this]
      show ?thesis
        using upto_id_drop(2) [OF m gt] k merge_blocks_right [of "drop k bs" "drop m cs"]
        by (subst steps(2) [OF gt]) (simp add: ih from_id_drop hd_drop_conv_nth)
    next
      case eq
      then show ?thesis
        using k m by (simp add: steps(3) less.hyps drop_nth [OF k] drop_nth [OF m])
    qed
  qed
qed

text \<open>The iterators have skipped a prefix of the first list that contains one of the second.\<close>

definition skipped :: "blk list \<Rightarrow> blk list \<Rightarrow> nat \<Rightarrow> nat \<Rightarrow> bool" where
  "skipped bs cs k m \<longleftrightarrow> k \<le> length bs \<and> m \<le> length cs \<and>
     merge_blocks bs cs = take k bs @ merge_blocks (drop k bs) (drop m cs)"

lemma merge_blocks_same: "merge_blocks (p @ bs) (p @ cs) = p @ merge_blocks bs cs"
  by (induction p) simp_all

lemma skipped_same:
  assumes "k \<le> length bs" "k \<le> length cs" "take k bs = take k cs"
  shows "skipped bs cs k k"
  using assms merge_blocks_same [of "take k bs" "drop k bs" "drop k cs"]
  by (simp add: skipped_def) (simp only: assms append_take_drop_id flip: assms(3))

lemma skip_equal_pos:
  assumes "good bs" "good cs" "k \<le> length bs" "k \<le> length cs" "take k bs = take k cs"
  shows "\<exists>j. skip_equal (encode bs) (pos bs k) (encode cs) (pos cs k) = (pos bs j, pos cs j) \<and>
    j \<le> length bs \<and> j \<le> length cs \<and> take j bs = take j cs"
  using assms(3-5)
proof (induction "length bs - k" arbitrary: k rule: less_induct)
  case less
  show ?case
  proof (cases "k < length bs \<and> k < length cs \<and> bs ! k = cs ! k")
    case True
    then have "skip_equal (encode bs) (pos bs k) (encode cs) (pos cs k)
      = skip_equal (encode bs) (pos bs (Suc k)) (encode cs) (pos cs (Suc k))"
      using assms(1,2) by (subst skip_equal.simps) (simp add: Block_eq_rep [OF block_rep_at block_rep_at] next_pos)
    then show ?thesis
      using less.hyps [of "Suc k"] less.prems True by (simp add: take_Suc_conv_app_nth diff_less_mono2)
  next
    case False
    then have "skip_equal (encode bs) (pos bs k) (encode cs) (pos cs k) = (pos bs k, pos cs k)"
      using assms(1,2) by (subst skip_equal.simps) (auto simp: Block_eq_rep [OF block_rep_at block_rep_at])
    then show ?thesis using less.prems by blast
  qed
qed

lemma skipped_upto:
  assumes "skipped bs cs k m" "m < length cs"
  shows "skipped bs cs (k + length (upto_id (fst (cs ! m)) (drop k bs))) m"
proof -
  let ?u = "upto_id (fst (cs ! m)) (drop k bs)"
  have "merge_blocks (drop k bs) (drop m cs)
    = ?u @ merge_blocks (drop (k + length ?u) bs) (drop m cs)"
    using assms merge_blocks_left [of "drop m cs" "drop k bs"] by (simp add: hd_drop_conv_nth from_id_drop)
  moreover have "take (k + length ?u) bs = take k bs @ ?u"
    by (simp add: take_add take_upto_id)
  moreover have "k + length ?u \<le> length bs"
    using length_upto_id [of _ "drop k bs"] assms by (simp add: skipped_def) (metis le_diff_conv2 add.commute)
  ultimately show ?thesis using assms by (simp add: skipped_def)
qed

lemma skipped_Suc:
  assumes "skipped bs cs k m" "k < length bs" "m < length cs"
    and "fst (bs ! k) = fst (cs ! m)" "snd (cs ! m) \<subseteq> snd (bs ! k)"
  shows "skipped bs cs (Suc k) (Suc m)"
proof -
  have "(fst (bs ! k), snd (bs ! k) \<union> snd (cs ! m)) = bs ! k" using assms(5) by (simp add: prod_eq_iff Un_absorb2)
  then have "merge_blocks (drop k bs) (drop m cs) = bs ! k # merge_blocks (drop (Suc k) bs) (drop (Suc m) cs)"
    using assms(2-4) by (simp add: drop_nth)
  then show ?thesis using assms by (simp add: skipped_def take_Suc_conv_app_nth)
qed

lemma skip_included_pos:
  assumes "good bs" "good cs" "skipped bs cs k m"
  shows "\<exists>k' m'. skip_included (encode bs) (pos bs k) (encode cs) (pos cs m) = (pos bs k', pos cs m') \<and>
    skipped bs cs k' m'"
  using assms(3)
proof (induction "length bs - k" arbitrary: k m rule: less_induct)
  case less
  note step = skip_included.simps [of "encode bs" "pos bs k" "encode cs" "pos cs m"]
  consider (stop) "\<not> (k < length bs \<and> m < length cs)"
    | (lt) "k < length bs" "m < length cs" "fst (bs ! k) < fst (cs ! m)"
    | (inc) "k < length bs" "m < length cs" "fst (bs ! k) = fst (cs ! m)" "snd (cs ! m) \<subseteq> snd (bs ! k)"
    | (out) "k < length bs" "m < length cs" "\<not> fst (bs ! k) < fst (cs ! m)"
        "\<not> (fst (bs ! k) = fst (cs ! m) \<and> snd (cs ! m) \<subseteq> snd (bs ! k))"
    by blast
  then show ?case
  proof cases
    case stop
    then show ?thesis using less.prems by (subst step) auto
  next
    case lt
    let ?l = "length (upto_id (fst (cs ! m)) (drop k bs))"
    have "length bs - (k + ?l) < length bs - k" using upto_id_drop [OF lt(1,3)] by linarith
    moreover have "skip_included (encode bs) (pos bs k) (encode cs) (pos cs m)
      = skip_included (encode bs) (pos bs (k + ?l)) (encode cs) (pos cs m)"
      using lt assms(1,2) id_less [OF assms(2) lt(2)]
      by (subst step) (simp add: hdr_at enc_fields good_nth lower_bound_pos)
    ultimately show ?thesis using less.hyps skipped_upto [OF less.prems lt(2)] by simp
  next
    case inc
    then have "skip_included (encode bs) (pos bs k) (encode cs) (pos cs m)
      = skip_included (encode bs) (pos bs (Suc k)) (encode cs) (pos cs (Suc m))"
      using assms(1,2)
      by (subst step) (simp add: hdr_at enc_fields good_nth next_pos Block_includes_rep [OF block_rep_at block_rep_at])
    moreover have "length bs - Suc k < length bs - k" using inc by simp
    ultimately show ?thesis using less.hyps skipped_Suc [OF less.prems inc] by simp
  next
    case out
    then have "skip_included (encode bs) (pos bs k) (encode cs) (pos cs m) = (pos bs k, pos cs m)"
      using assms(1,2)
      by (subst step) (auto simp: hdr_at enc_fields good_nth Block_includes_rep [OF block_rep_at block_rep_at])
    then show ?thesis using less.prems by blast
  qed
qed

lemma skipSubset_pos:
  assumes "good bs" "good cs"
  shows "(\<exists>k m. skipSubset (encode bs) (encode cs) = (False, pos bs k, pos cs m) \<and> skipped bs cs k m) \<or>
    (\<exists>k m. skipSubset (encode bs) (encode cs) = (True, pos cs m, pos bs k) \<and> skipped cs bs m k)"
proof -
  obtain j where eq: "skip_equal (encode bs) (pos bs 0) (encode cs) (pos cs 0) = (pos bs j, pos cs j)"
    and j: "j \<le> length bs" "j \<le> length cs" "take j bs = take j cs"
    using skip_equal_pos [OF assms, of 0] by auto
  have s: "skipped bs cs j j" "skipped cs bs j j" using j skipped_same by simp_all
  obtain k m where no: "skip_included (encode bs) (pos bs j) (encode cs) (pos cs j) = (pos bs k, pos cs m)"
      "skipped bs cs k m" using skip_included_pos [OF assms s(1)] by blast
  obtain m' k' where sw: "skip_included (encode cs) (pos cs j) (encode bs) (pos bs j) = (pos cs m', pos bs k')"
      "skipped cs bs m' k'" using skip_included_pos [OF assms(2,1) s(2)] by blast
  show ?thesis
  proof (cases "j < length bs \<and> j < length cs \<and> fst (cs ! j) = fst (bs ! j) \<and> snd (bs ! j) \<subseteq> snd (cs ! j)")
    case True
    then obtain m2 k2 where "skip_included (encode cs) (pos cs (Suc j)) (encode bs) (pos bs (Suc j)) = (pos cs m2, pos bs k2)"
      "skipped cs bs m2 k2"
      using skip_included_pos [OF assms(2,1) skipped_Suc [OF s(2)]] by blast
    moreover from this True have "skipSubset (encode bs) (encode cs) = (True, pos cs m2, pos bs k2)"
      using assms by (simp add: skipSubset_def begin_pos eq hdr_at enc_fields good_nth next_pos
          Block_includes_rep [OF block_rep_at block_rep_at])
    ultimately show ?thesis by blast
  next
    case False
    then have inc: "\<not> Block_includes (SetIter_block (encode cs) (pos cs j)) (SetIter_block (encode bs) (pos bs j))"
      if "j \<noteq> length bs" "j \<noteq> length cs"
      using assms that j by (simp add: Block_includes_rep [OF block_rep_at block_rep_at] le_neq_implies_less)
    have "skipSubset (encode bs) (encode cs) = (False, pos bs k, pos cs m) \<or>
      skipSubset (encode bs) (encode cs) = (True, pos cs m', pos bs k')"
      using inc no(1) sw(1) by (auto simp: skipSubset_def begin_pos eq Let_def)
    then show ?thesis using no(2) sw(2) by blast
  qed
qed

text \<open>Merging two sets into an empty one gives the merged blocks.\<close>

lemma merge_encode:
  assumes "good bs" "good cs" "same \<Longrightarrow> bs = cs"
  shows "merged (encode bs) (encode cs) (merge SetU32_new same (encode bs) (encode cs))
    = encode (merge_blocks bs cs)"
proof (cases same)
  case True
  then show ?thesis using assms(3) merge_blocks_same [of bs "[]" "[]"] by (simp add: merge_def merged_def)
next
  case False
  have new: "SetU32_new = encode []" by (simp add: SetU32_new_def encode_def)
  have *: "append_range SetU32_new (encode xs) (pos xs 0) (pos xs k) = encode (take k xs)" if "k \<le> length xs" for xs k
    using append_range_pos [of 0 k xs "[]"] that by (simp add: new slice_def)
  show ?thesis
    using skipSubset_pos [OF assms(1,2)] False assms(1,2)
    by (auto simp: merge_def merged_def Let_def begin_pos skipped_def * appendMerge_pos
        merge_blocks_commute [of cs bs])
qed

section \<open>Appending a value\<close>

definition add_value :: "blk list \<Rightarrow> u32 \<Rightarrow> u8 \<Rightarrow> blk list" where
  "add_value bs i n =
     (if bs \<noteq> [] \<and> fst (last bs) = i then butlast bs @ [(i, insert n (snd (last bs)))]
      else bs @ [(i, {n})])"

lemma encode_snoc: "encode (rs @ [b]) =
  \<lparr>su_hdrs = su_hdrs (encode rs) @ [enc_hdr b], su_dense = su_dense (encode rs) @ enc_dense b,
   su_sparse = su_sparse (encode rs) @ enc_sparse b\<rparr>"
  by (simp add: encode_def)

lemma strict_snoc:
  assumes "sorted_wrt (<) xs" "\<forall>x\<in>set xs. x < n"
  shows "sorted_wrt (<) (xs @ [n :: u8])"
  using assms by (simp add: sorted_wrt_append)

lemma le_last: "sorted_wrt (<) xs \<Longrightarrow> x \<in> set xs \<Longrightarrow> x \<le> last xs" for xs :: "'a :: linorder list"
  by (induction xs) (auto simp: less_imp_le)

lemma append_new_block:
  assumes "\<not> (bs \<noteq> [] \<and> fst (last bs) = v div 256)" "good bs"
  shows "SetU32_append (encode bs) v = encode (bs @ [(v div 256, {ucast (v mod 256)})])"
proof -
  have "\<not> (su_hdrs (encode bs) \<noteq> [] \<and> Hdr_id (last (su_hdrs (encode bs))) = v div 256)"
    using assms good_nth [of bs "length bs - 1"] by (auto simp: last_map enc_fields last_conv_nth)
  then show ?thesis
    using small_not_UNIV [of "{ucast (v mod 256)}"]
    by (auto simp: SetU32_append_def Let_def encode_snoc enc_hdr_def enc_dense_def enc_sparse_def)
qed

lemma append_full_block:
  assumes "good_block (i, UNIV)" "i = v div 256"
  shows "SetU32_append (encode (rs @ [(i, UNIV)])) v = encode (rs @ [(i, UNIV)])"
  using enc_fields [OF assms(1)] assms(2) [symmetric] by (simp add: SetU32_append_def Let_def)

lemma append_dense_block:
  assumes "good_block (i, S)" "i = v div 256" "n = ucast (v mod 256)" "S \<noteq> UNIV" "\<not> card S < 32"
  shows "SetU32_append (encode (rs @ [(i, S)])) v = encode (rs @ [(i, insert n S)])"
proof -
  let ?w = "Bits256_of (sorted_list_of_set S) OR Bits256_single n"
  note f = enc_fields [OF assms(1)] assms(2,3) [symmetric]
  have w: "bits ?w = insert n S" by auto
  have es: "enc_sparse (i, S) = []" "enc_dense (i, S) = [Bits256_of (sorted_list_of_set S)]"
    using assms(4,5) by (simp_all add: enc_sparse_def enc_dense_def)
  have "\<not> card (bits ?w) < 32" unfolding w using assms(5) card_mono [OF finite subset_insertI, of S n] by simp
  then show ?thesis
    using encode_snoc_bits [of ?w rs i] assms(4,5) f es w
    by (simp add: SetU32_append_def Let_def append_bits_def butlast_append) (simp add: encode_def enc_hdr_def)
qed

lemma append_sparse_eq:
  assumes "good_block (i, set xs)" "i = v div 256" "n = ucast (v mod 256)"
    and "sorted_wrt (<) xs" "length xs < 32"
  shows "SetU32_append (encode (rs @ [(i, set xs)])) v =
    (if n \<noteq> last xs then
       if length xs < 31 then encode rs\<lparr>su_hdrs := map enc_hdr rs @ [addSparseLen (enc_hdr (i, set xs)) 1],
           su_sparse := su_sparse (encode rs) @ xs @ [n]\<rparr>
       else encode rs\<lparr>su_hdrs := map enc_hdr rs @ [Hdr_dense i],
           su_dense := su_dense (encode rs) @ [Bits256_of xs OR Bits256_single n]\<rparr>
     else encode (rs @ [(i, set xs)]))"
proof -
  note f = enc_fields [OF assms(1)] assms(2,3) [symmetric]
  have ne: "xs \<noteq> []" using assms(1) by (auto simp: good_block_def)
  have es: "enc_sparse (i, set xs) = xs" "enc_dense (i, set xs) = []"
    using assms(4,5) strict_card [OF assms(4)] strict_list [OF assms(4)]
    by (simp_all add: enc_sparse_def enc_dense_def)
  show ?thesis
    using small_not_UNIV [of "set xs"] f es ne strict_card [OF assms(4)] assms(5)
    by (simp add: SetU32_append_def Let_def fitsSparse_def butlast_append encode_def)
qed

lemma append_sparse_block:
  assumes "good_block (i, set xs)" "i = v div 256" "n = ucast (v mod 256)" "\<forall>x\<in>set xs. x \<le> n"
    and "sorted_wrt (<) xs" "length xs < 32"
  shows "SetU32_append (encode (rs @ [(i, set xs)])) v = encode (rs @ [(i, insert n (set xs))])"
proof -
  note eq = append_sparse_eq [OF assms(1-3,5,6), of rs]
  have ne: "xs \<noteq> []" and i: "i < 0x1000000" using assms(1) by (auto simp: good_block_def)
  have card: "card (set xs) = length xs" using strict_card assms(5) .
  show ?thesis
  proof (cases "n \<in> set xs")
    case True
    then have "n = last xs" using assms(4) ne le_last [OF assms(5)] by (metis last_in_set order_antisym)
    then show ?thesis using True by (simp add: eq insert_absorb)
  next
    case False
    then have lt: "\<forall>x\<in>set xs. x < n" using assms(4) by (auto simp: order.strict_iff_order)
    then have nl: "n \<noteq> last xs" using ne by (metis last_in_set order_less_irrefl)
    have strict: "sorted_wrt (<) (xs @ [n])" using strict_snoc [OF assms(5) lt] .
    have ins: "insert n (set xs) = set (xs @ [n])" by auto
    show ?thesis
    proof (cases "length xs < 31")
      case True
      have sp: "card (set xs) < 32" using True card by simp
      have "addSparseLen (enc_hdr (i, set xs)) 1 = Hdr_sparse i (of_nat (Suc (length xs)))"
        using sp small_not_UNIV [OF sp] addSparseLen_make [OF i small_len [OF sp], of 1 Sparse] True card
        by (simp add: enc_hdr_def Hdr_sparse_def unat_of_nat add.commute)
      then show ?thesis using encode_snoc_sparse [OF strict _ ins, of rs i] True nl by (simp add: eq)
    next
      case long: False
      let ?w = "Bits256_of xs OR Bits256_single n"
      have w: "bits ?w = insert n (set xs)" by auto
      have c32: "card (insert n (set xs)) = 32"
        unfolding ins strict_card [OF strict] using long assms(6) by simp
      then have "bits ?w \<noteq> UNIV" using w card_u8 by auto
      then have "?w \<noteq> Bits256_all" by (metis bits_all)
      then show ?thesis
        using encode_snoc_bits [of ?w rs i] w c32 nl long by (simp add: eq append_bits_def)
    qed
  qed
qed

lemma append_same_block:
  assumes "good_block (i, S)" "i = v div 256" "n = ucast (v mod 256)" "\<forall>x\<in>S. x \<le> n"
  shows "SetU32_append (encode (rs @ [(i, S)])) v = encode (rs @ [(i, insert n S)])"
proof (cases "card S < 32")
  case True
  have "set (sorted_list_of_set S) = S" by simp
  then show ?thesis
    using append_sparse_block [of i "sorted_list_of_set S" v n rs] assms True by simp
next
  case False
  then show ?thesis using append_full_block [of i v rs] append_dense_block [of i S v n rs] assms
    by (cases "S = UNIV") simp_all
qed

section \<open>Sets of numbers\<close>

definition elems :: "blk list \<Rightarrow> u32 set" where
  "elems bs = {v. \<exists>S. (v div 256, S) \<in> set bs \<and> ucast (v mod 256) \<in> S}"

lemma unat_low_byte: "unat (ucast (v mod 256) :: u8) = unat v mod 256" for v :: u32
proof -
  have "unat (v mod 256) = unat v mod 256" by (simp add: unat_mod_distrib)
  then show ?thesis by (simp add: unsigned_ucast_eq take_bit_eq_mod)
qed

lemma unat_div_256: "unat (v div 256) = unat v div 256" for v :: u32
  by (simp add: unat_div_distrib)

lemma div_mod_eq: "v div 256 = w div 256 \<Longrightarrow> ucast (v mod 256) = (ucast (w mod 256) :: u8) \<Longrightarrow> v = w" for v w :: u32
  by (metis unat_low_byte unat_div_256 div_mult_mod_eq unat_inj)

lemma good_Cons: "good (b # bs) \<longleftrightarrow> good_block b \<and> (\<forall>c\<in>set bs. fst b < fst c) \<and> good bs"
  by (auto simp: good_def)

lemma elems_Nil [simp]: "elems [] = {}"
  by (simp add: elems_def)

lemma elems_Cons: "elems (b # bs) = {v. v div 256 = fst b \<and> ucast (v mod 256) \<in> snd b} \<union> elems bs"
  by (cases b) (auto simp: elems_def)

lemma elems_append: "elems (bs @ cs) = elems bs \<union> elems cs"
  by (auto simp: elems_def)

lemma elems_merge: "elems (merge_blocks bs cs) = elems bs \<union> elems cs"
  by (induction bs cs rule: merge_blocks.induct) (auto simp: elems_Cons not_less_iff_gr_or_eq)

lemma merge_fst: "fst ` set (merge_blocks bs cs) = fst ` set bs \<union> fst ` set cs"
  by (induction bs cs rule: merge_blocks.induct) (auto simp: not_less_iff_gr_or_eq)

lemma merge_above:
  "(\<forall>x\<in>set (merge_blocks bs cs). i < fst x) \<longleftrightarrow> (\<forall>x\<in>set bs. i < fst x) \<and> (\<forall>x\<in>set cs. i < fst x)"
proof -
  have "(\<forall>x\<in>set (merge_blocks bs cs). i < fst x) \<longleftrightarrow> (\<forall>y\<in>fst ` set (merge_blocks bs cs). i < y)" by simp
  then show ?thesis by (simp add: merge_fst ball_Un)
qed

lemma good_merge: "good bs \<Longrightarrow> good cs \<Longrightarrow> good (merge_blocks bs cs)"
proof (induction bs cs rule: merge_blocks.induct)
  case (3 b bs c cs)
  have above: "\<forall>x\<in>set cs. i < fst x" if "i < fst c" for i
    using 3(5) that by (auto simp: good_Cons)
  have above': "\<forall>x\<in>set bs. i < fst x" if "i < fst b" for i
    using 3(4) that by (auto simp: good_Cons)
  consider "fst b < fst c" | "fst c < fst b" | "fst b = fst c" by fastforce
  then show ?case
  proof cases
    case 1 then show ?thesis using 3 above by (simp add: good_Cons merge_above)
  next
    case 2 then show ?thesis using 3 above' by (simp add: good_Cons merge_above)
  next
    case eq: 3
    then show ?thesis using 3 by (simp add: good_Cons merge_above good_block_def)
  qed
qed simp_all

definition join :: "u32 \<Rightarrow> u8 \<Rightarrow> u32" where
  "join i n = push_bit 8 i OR ucast n"

lemma unat_join:
  assumes "i < 0x1000000"
  shows "unat (join i n) = 256 * unat i + unat n"
proof -
  have i: "unat i < 2 ^ 24" using assms by (simp add: word_less_nat_alt)
  have "push_bit 8 i AND (ucast n :: u32) = 0"
    by (rule bit_word_eqI) (auto simp: bit_simps dest: bit_imp_le_length)
  then have "join i n = push_bit 8 i + ucast n"
    by (simp add: join_def disjunctive_add_eq_or)
  moreover have "unat (push_bit 8 i) = 256 * unat i" using i unat_push [of i 8] by simp
  moreover have "unat (ucast n :: u32) = unat n"
    using unat_lt_8 [of n] by (simp add: unsigned_ucast_eq take_bit_nat_eq_self)
  ultimately show ?thesis using i unat_lt_8 [of n] by (simp add: unat_word_ariths)
qed

lemma join_div_mod:
  assumes "i < 0x1000000"
  shows "join i n div 256 = i" "ucast (join i n mod 256) = n"
proof -
  have "unat (join i n div 256) = unat i"
    unfolding unat_div_256 unat_join [OF assms] using unat_lt_8 [of n] by simp
  then show "join i n div 256 = i" by (simp only: unat_inj)
  have "unat (ucast (join i n mod 256) :: u8) = unat n"
    unfolding unat_low_byte unat_join [OF assms] using unat_lt_8 [of n] by simp
  then show "ucast (join i n mod 256) = n" by (simp only: unat_inj)
qed

lemma div_256_less: "v div 256 < (0x1000000 :: u32)"
  using unat_lt_32 [of v] by (simp add: word_less_nat_alt unat_div_256)

lemma join_div: "join (v div 256) (ucast (v mod 256)) = v"
  by (rule div_mod_eq) (simp_all add: join_div_mod div_256_less)

definition blocks_of :: "u32 set \<Rightarrow> blk list" where
  "blocks_of A = map (\<lambda>i. (i, {n. join i n \<in> A})) (sorted_list_of_set ((\<lambda>v. v div 256) ` A))"

lemma elems_iff:
  assumes "good bs"
  shows "join i n \<in> elems bs \<and> i < 0x1000000 \<longleftrightarrow> (\<exists>S. (i, S) \<in> set bs \<and> n \<in> S)"
proof -
  have "i < 0x1000000" if "(i, S) \<in> set bs" for S
    using assms that by (auto simp: good_def list_all_iff good_block_def)
  then show ?thesis by (auto simp: elems_def join_div_mod)
qed

lemma blocks_of_elems:
  assumes "good bs"
  shows "blocks_of (elems bs) = bs"
proof -
  have g: "good_block b" if "b \<in> set bs" for b using assms that by (simp add: good_def list_all_iff)
  have "(\<lambda>v. v div 256) ` elems bs = fst ` set bs"
  proof (intro set_eqI iffI)
    fix i assume "i \<in> fst ` set bs"
    then obtain S where S: "(i, S) \<in> set bs" by force
    then obtain n where "n \<in> S" using g by (force simp: good_block_def)
    then have "join i n \<in> elems bs" "i < 0x1000000" using elems_iff [OF assms] S by blast+
    then show "i \<in> (\<lambda>v. v div 256) ` elems bs" using join_div_mod by (metis imageI)
  qed (force simp: elems_def)
  moreover have "sorted_list_of_set (fst ` set bs) = map fst bs"
    using strict_list [of "map fst bs"] assms by (simp add: good_def)
  ultimately have "blocks_of (elems bs) = map (\<lambda>b. (fst b, {n. join (fst b) n \<in> elems bs})) bs"
    by (simp add: blocks_of_def)
  moreover have "(fst b, {n. join (fst b) n \<in> elems bs}) = b" if b: "b \<in> set bs" for b
  proof -
    have "distinct (map fst bs)" using assms by (simp add: good_def strict_sorted_iff)
    then have "S = snd b" if "(fst b, S) \<in> set bs" for S
      using that b by (metis eq_key_imp_eq_value prod.collapse)
    then have "{n. join (fst b) n \<in> elems bs} = snd b"
      using elems_iff [OF assms, of "fst b"] g [OF b] b by (auto simp: good_block_def) (metis prod.collapse)
    then show ?thesis by simp
  qed
  ultimately show ?thesis by (simp add: map_idI)
qed

lemma good_blocks_of: "good (blocks_of A)"
  by (auto simp: good_def blocks_of_def good_block_def list_all_iff comp_def div_256_less)
    (metis join_div)

lemma elems_blocks_of: "elems (blocks_of A) = A"
  by (auto simp: elems_def blocks_of_def image_iff) (metis join_div)+

lemma block_le:
  assumes "good bs" "\<forall>w\<in>elems bs. w \<le> v" "b \<in> set bs"
  shows "fst b \<le> v div 256"
proof -
  have "good_block b" using assms by (simp add: good_def list_all_iff)
  then obtain n where n: "n \<in> snd b" "fst b < 0x1000000" by (auto simp: good_block_def)
  then have "join (fst b) n \<in> elems bs" using elems_iff [OF assms(1), of "fst b" n] assms(3)
    by (metis prod.collapse)
  then have "unat (join (fst b) n) div 256 \<le> unat v div 256"
    using assms(2) by (simp add: word_le_nat_alt div_le_mono)
  then show ?thesis
    using unat_join [OF n(2), of n] unat_lt_8 [of n] by (simp add: word_le_nat_alt unat_div_256)
qed

lemma byte_le:
  assumes "good bs" "\<forall>w\<in>elems bs. w \<le> v" "(v div 256, S) \<in> set bs" "x \<in> S"
  shows "x \<le> ucast (v mod 256)"
proof -
  have "join (v div 256) x \<in> elems bs" using elems_iff [OF assms(1)] assms(3,4) by blast
  then have "unat (join (v div 256) x) \<le> unat v" using assms(2) by (simp add: word_le_nat_alt)
  then have "unat x \<le> unat v mod 256"
    unfolding unat_join [OF div_256_less] unat_div_256 using mult_div_mod_eq [of 256 "unat v"] by linarith
  then show ?thesis by (simp add: word_le_nat_alt unat_low_byte)
qed

lemma append_encode:
  assumes "good bs" "\<forall>w\<in>elems bs. w \<le> v"
  shows "SetU32_append (encode bs) v = encode (blocks_of (insert v (elems bs)))"
proof (cases "bs \<noteq> [] \<and> fst (last bs) = v div 256")
  let ?i = "v div 256" and ?n = "ucast (v mod 256) :: u8"
  case True
  then obtain cs S where bs: "bs = cs @ [(?i, S)]"
    by (metis append_butlast_last_id prod.collapse)
  have g: "good_block (?i, S)" using assms(1) by (simp add: bs good_def)
  have "good (cs @ [(?i, insert ?n S)])" using assms(1) by (simp add: bs good_def good_block_def)
  moreover have "elems (cs @ [(?i, insert ?n S)]) = insert v (elems bs)"
    using div_mod_eq by (auto simp: bs elems_append elems_Cons)
  moreover have "\<forall>x\<in>S. x \<le> ?n" using byte_le [OF assms, of S] by (simp add: bs)
  ultimately show ?thesis
    using append_same_block [OF g refl refl, of cs] blocks_of_elems by (metis bs)
next
  let ?i = "v div 256" and ?n = "ucast (v mod 256) :: u8"
  case False
  have "fst b < ?i" if b: "b \<in> set bs" for b
  proof -
    have "fst (last bs) \<le> ?i" using block_le [OF assms] b by (metis empty_iff last_in_set list.set(1))
    moreover have "fst b \<le> last (map fst bs)"
      using le_last [of "map fst bs" "fst b"] assms(1) b by (simp add: good_def)
    moreover have "bs \<noteq> []" using b by auto
    ultimately show ?thesis using False by (simp add: last_map)
  qed
  then have "good (bs @ [(?i, {?n})])"
    using assms(1) by (simp add: good_def sorted_wrt_append good_block_def div_256_less)
  moreover have "elems (bs @ [(?i, {?n})]) = insert v (elems bs)"
    using div_mod_eq by (auto simp: elems_append elems_Cons)
  ultimately show ?thesis
    using append_new_block [OF False assms(1)] blocks_of_elems by metis
qed

lemma from_blocks: "sorted xs \<Longrightarrow> SetU32_from xs = encode (blocks_of (set xs))"
proof (induction xs rule: rev_induct)
  case Nil
  show ?case by (simp add: SetU32_from_def SetU32_new_def encode_def blocks_of_def)
next
  case (snoc v xs)
  then have "SetU32_from (xs @ [v]) = SetU32_append (encode (blocks_of (set xs))) v"
    by (simp add: SetU32_from_def sorted_append)
  then show ?case
    using append_encode [OF good_blocks_of, of "set xs" v] snoc.prems
    by (simp add: elems_blocks_of sorted_append)
qed

text \<open>The representation of a set of numbers.\<close>

definition rep :: "u32 set \<Rightarrow> SetU32" where
  "rep A = SetU32_from (sorted_list_of_set A)"

lemma rep_encode: "rep A = encode (blocks_of A)"
  by (simp add: rep_def from_blocks)

lemma rep_merge:
  "merged (rep A) (rep B) (merge SetU32_new (same \<and> A = B) (rep A) (rep B)) = rep (A \<union> B)"
  using merge_encode [OF good_blocks_of [of A] good_blocks_of [of B], of "same \<and> A = B"]
    blocks_of_elems [OF good_merge [OF good_blocks_of [of A] good_blocks_of [of B]]]
  by (simp add: rep_encode elems_merge elems_blocks_of)

lemma encode_inj:
  assumes "good bs" "good cs" "encode bs = encode cs"
  shows "bs = cs"
  using assms
proof (induction bs arbitrary: cs)
  case Nil
  then show ?case by (cases cs) (simp_all add: encode_def)
next
  case (Cons b bs)
  then obtain c ds where cs: "cs = c # ds" by (cases cs) (simp_all add: encode_def)
  have g: "good_block b" "good_block c" "good bs" "good ds" using Cons.prems cs by (simp_all add: good_Cons)
  have h: "enc_hdr b = enc_hdr c" using Cons.prems(3) by (simp add: encode_def cs)
  have "length (enc_dense b) = length (enc_dense c)" "length (enc_sparse b) = length (enc_sparse c)"
    using enc_fields(2,3) g(1,2) h by metis+
  then have "enc_dense b = enc_dense c" "enc_sparse b = enc_sparse c" "encode bs = encode ds"
    using Cons.prems(3) by (simp_all add: encode_def cs)
  then show ?case using enc_inj [OF g(1,2) h] Cons.IH [OF g(3,4)] cs by simp
qed

lemma rep_inj: "SetU32_eq (rep A) (rep B) \<longleftrightarrow> A = B"
proof
  assume "SetU32_eq (rep A) (rep B)"
  then have "encode (blocks_of A) = encode (blocks_of B)" by (simp add: SetU32_eq_def rep_encode)
  then show "A = B" using encode_inj good_blocks_of elems_blocks_of by metis
qed (simp add: SetU32_eq_def)

section \<open>Reading a set\<close>

lemma blocks_rep:
  assumes "list_all good_block bs"
  shows "list_all2 block_rep
    (SetU32_blocks (map enc_hdr bs) (concat (map enc_dense bs)) (concat (map enc_sparse bs))) bs"
  using assms by (induction bs) (auto simp: block_rep_def enc_fields)

lemma block_size_rep: "block_rep B b \<Longrightarrow> block_size B = card (snd b)"
  by (auto simp: block_size_def block_rep_fields(2) block_rep_dense count_bits card_u8)
    (simp add: block_rep_def enc_fields enc_sparse_def)

lemma of_nat_byte: "(of_nat n :: u32) = ucast (of_nat n :: u8)" if "n < 256"
proof -
  have "unat (ucast (of_nat n :: u8) :: u32) = n"
    using that by (simp add: unsigned_ucast_eq unat_of_nat take_bit_nat_eq_self)
  then show ?thesis using that by (intro unat_inj [THEN iffD1]) (simp add: unat_of_nat)
qed

lemma sorted_bytes: "map of_nat (filter (\<lambda>n. of_nat n \<in> S) [0..<256]) = sorted_list_of_set (S :: u8 set)"
proof -
  let ?xs = "map of_nat (filter (\<lambda>n. of_nat n \<in> S) [0..<256]) :: u8 list"
  have "sorted_wrt (\<lambda>m n. m < n \<and> n < 256) (filter (\<lambda>n. of_nat n \<in> S) [0..<256])"
    by (rule sorted_wrt_filter) (simp add: sorted_wrt_iff_nth_less)
  then have "sorted_wrt (<) ?xs"
    by (auto simp: sorted_wrt_map word_less_nat_alt unat_of_nat elim!: sorted_wrt_mono_rel [rotated])
  moreover have "set ?xs = S"
  proof (intro set_eqI iffI)
    fix n assume "n \<in> S"
    then show "n \<in> set ?xs" using unat_lt_8 [of n] by (auto simp: image_iff intro!: bexI [of _ "unat n"])
  qed auto
  ultimately show ?thesis using strict_list by metis
qed

lemma block_values_rep:
  assumes "block_rep B b"
  shows "block_values B = map (join (fst b)) (sorted_list_of_set (snd b))"
proof -
  have bytes: "map (\<lambda>n. push_bit 8 i OR of_nat n) (filter (\<lambda>n. of_nat n \<in> S) [0..<256])
    = map (join i) (sorted_list_of_set S)" for i and S :: "u8 set"
    unfolding sorted_bytes [symmetric] by (auto simp: join_def of_nat_byte)
  show ?thesis
    using bytes [of "fst b" "snd b"] bytes [of "fst b" UNIV] block_rep_dense [OF assms]
      block_rep_sparse [OF assms]
    by (auto simp: block_values_def Let_def block_rep_fields(1,2) [OF assms] enc_sparse_def join_def)
qed

lemma map_rep: "list_all2 block_rep Bs bs \<Longrightarrow> (\<And>B b. block_rep B b \<Longrightarrow> f B = g b) \<Longrightarrow> map f Bs = map g bs"
  by (induction rule: list_all2_induct) simp_all

lemma foreach_encode:
  assumes "good bs"
  shows "SetU32_foreach (encode bs) = concat (map (\<lambda>b. map (join (fst b)) (sorted_list_of_set (snd b))) bs)"
  using map_rep [OF blocks_rep [OF good_list_all [OF assms]] block_values_rep]
  by (simp add: SetU32_foreach_def)

lemma size_encode:
  assumes "good bs"
  shows "SetU32_size (encode bs) = sum_list (map (card \<circ> snd) bs)"
  using map_rep [OF blocks_rep [OF good_list_all [OF assms]], of block_size "card \<circ> snd"]
  by (simp add: SetU32_size_def block_size_rep)

lemma join_less:
  assumes "i < 0x1000000" "j < 0x1000000"
  shows "join i m < join j n \<longleftrightarrow> i < j \<or> i = j \<and> m < n"
proof -
  have "256 * unat i + unat m < 256 * unat j + unat n \<longleftrightarrow> unat i < unat j \<or> unat i = unat j \<and> unat m < unat n"
    using unat_lt_8 [of m] unat_lt_8 [of n] by auto
  then show ?thesis unfolding word_less_nat_alt unat_join [OF assms(1)] unat_join [OF assms(2)] by (simp add: unat_inj)
qed

lemma values_strict:
  assumes "good bs"
  shows "sorted_wrt (<) (concat (map (\<lambda>b. map (join (fst b)) (sorted_list_of_set (snd b))) bs))"
  using assms
proof (induction bs)
  case (Cons b bs)
  have "sorted_wrt (<) (map (join (fst b)) (sorted_list_of_set (snd b)))"
    using Cons.prems by (simp add: sorted_wrt_map good_Cons good_block_def join_less)
  moreover have "c \<in> set bs \<Longrightarrow> fst b < fst c \<and> fst c < 0x1000000 \<and> fst b < 0x1000000" for c
    using Cons.prems by (auto simp: good_def list_all_iff good_block_def)
  ultimately show ?case
    using Cons by (auto simp: sorted_wrt_append good_Cons join_less)
qed simp

lemma set_values:
  assumes "good bs"
  shows "set (concat (map (\<lambda>b. map (join (fst b)) (sorted_list_of_set (snd b))) bs)) = elems bs"
proof (intro set_eqI iffI)
  fix v assume "v \<in> elems bs"
  then obtain S where "(v div 256, S) \<in> set bs" "ucast (v mod 256) \<in> S" by (auto simp: elems_def)
  then show "v \<in> set (concat (map (\<lambda>b. map (join (fst b)) (sorted_list_of_set (snd b))) bs))"
    by (auto simp: image_iff join_div intro!: bexI [of _ "(v div 256, S)"] bexI [of _ "ucast (v mod 256) :: u8"])
qed (use elems_iff [OF assms] in \<open>auto, blast\<close>)

lemma rep_foreach: "SetU32_foreach (rep A) = sorted_list_of_set A"
  using strict_list [OF values_strict [OF good_blocks_of [of A]]]
    set_values [OF good_blocks_of [of A]] foreach_encode [OF good_blocks_of [of A]]
  by (simp add: rep_encode elems_blocks_of)

lemma length_values: "length (concat (map (\<lambda>b. map (join (fst b)) (sorted_list_of_set (snd b))) bs))
  = sum_list (map (card \<circ> snd) bs)"
  by (induction bs) simp_all

lemma rep_size: "SetU32_size (rep A) = card A"
  using size_encode [OF good_blocks_of [of A]] length_values [of "blocks_of A"]
    foreach_encode [OF good_blocks_of [of A]] rep_foreach [of A]
  by (simp add: rep_encode)

lemma last_sorted:
  fixes S :: "'a :: len word set"
  assumes "S \<noteq> {}"
  shows "last (sorted_list_of_set S) = Max S"
proof (rule Max_eqI [symmetric])
  have "sorted_list_of_set S \<noteq> []" using assms by simp
  then show "last (sorted_list_of_set S) \<in> S" using last_in_set [of "sorted_list_of_set S"] by simp
  show "y \<le> last (sorted_list_of_set S)" if "y \<in> S" for y
    using that by (intro le_last) simp_all
qed simp

lemma upper_bits:
  assumes "bits w \<noteq> {}"
  shows "Bits256_upper w = ucast (Max (bits w))"
proof -
  have "w \<noteq> 0" using assms by auto
  then obtain m where m: "m < 256" "Bits256_upper w = of_nat m" "bit w m" "\<And>i. m < i \<Longrightarrow> \<not> bit w i"
    using upper_top by blast
  have "Max (bits w) = of_nat m"
  proof (rule Max_eqI)
    show "of_nat m \<in> bits w" using m(1,3) bit_iff_bits by blast
    show "y \<le> of_nat m" if "y \<in> bits w" for y
      using that m(1) m(4) [of "unat y"] by (auto simp: bits_def word_le_nat_alt unat_of_nat not_less [symmetric])
  qed simp
  then show ?thesis using m by (simp add: of_nat_byte)
qed

lemma upper_encode:
  assumes "good (bs @ [b])"
  shows "SetU32_upper (encode (bs @ [b])) = join (fst b) (Max (snd b))"
proof -
  have g: "good_block b" using assms by (simp add: good_def)
  then have ne: "snd b \<noteq> {}" by (simp add: good_block_def)
  have M: "Max (UNIV :: u8 set) = 255"
    by (rule Max_eqI) (use unat_lt_8 in \<open>auto simp: word_le_nat_alt less_Suc_eq_le [symmetric]\<close>)
  consider (full) "snd b = UNIV" | (sparse) "card (snd b) < 32" | (dense) "snd b \<noteq> UNIV" "\<not> card (snd b) < 32" by blast
  then show ?thesis
  proof cases
    case full
    then show ?thesis using enc_fields [OF g] by (simp add: SetU32_upper_def Let_def join_def M)
  next
    case sparse
    have "sorted_list_of_set (snd b) \<noteq> []" using ne by simp
    then show ?thesis
      using enc_fields [OF g] sparse small_not_UNIV [OF sparse] last_sorted [OF ne]
      by (simp add: SetU32_upper_def Let_def join_def enc_sparse_def)
  next
    case dense
    then show ?thesis
      using enc_fields [OF g] upper_bits [of "Bits256_of (sorted_list_of_set (snd b))"] ne
      by (simp add: SetU32_upper_def Let_def join_def enc_dense_def)
  qed
qed

lemma rep_upper:
  assumes "A \<noteq> {}"
  shows "SetU32_upper (rep A) = Max A"
proof -
  have "blocks_of A \<noteq> []" using assms elems_blocks_of [of A] by auto
  then obtain bs b where bs: "blocks_of A = bs @ [b]" by (metis append_butlast_last_id)
  have g: "good (bs @ [b])" using good_blocks_of [of A] bs by simp
  then have "sorted_list_of_set (snd b) \<noteq> []" "snd b \<noteq> {}" by (auto simp: good_def good_block_def)
  then have "last (SetU32_foreach (rep A)) = join (fst b) (Max (snd b))"
    using foreach_encode [OF g] by (simp add: rep_encode bs last_map last_sorted)
  moreover have "last (SetU32_foreach (rep A)) = Max A" using assms by (simp add: rep_foreach last_sorted)
  ultimately show ?thesis using upper_encode [OF g] by (simp add: rep_encode bs)
qed

section \<open>Properties\<close>

text \<open>
  C22. Building a set by appending its elements in ascending order and reading it back gives the
  elements in ascending order; the size and the upper bound are those of the set, and two sets are
  equal as representations exactly when they have the same elements (the representation is canonical).
\<close>

theorem SetU32_canonical:
  "SetU32_foreach (SetU32_from (sorted_list_of_set A)) = sorted_list_of_set A \<and>
   SetU32_size (SetU32_from (sorted_list_of_set A)) = card A \<and>
   (A = {} \<or> SetU32_upper (SetU32_from (sorted_list_of_set A)) = Max A) \<and>
   (SetU32_eq (SetU32_from (sorted_list_of_set A)) (SetU32_from (sorted_list_of_set B)) \<longleftrightarrow> A = B)"
  using rep_foreach [of A] rep_size [of A] rep_upper [of A] rep_inj [of A B] by (auto simp: rep_def)

text \<open>
  C4. Merging two sets into an empty result returns the canonical representation of their union,
  whether it is one of the arguments or the newly built set.
\<close>

theorem SetU32_merge_union:
  assumes "same \<longrightarrow> A = B"
  shows "merged (SetU32_from (sorted_list_of_set A)) (SetU32_from (sorted_list_of_set B))
      (merge SetU32_new same (SetU32_from (sorted_list_of_set A)) (SetU32_from (sorted_list_of_set B)))
    = SetU32_from (sorted_list_of_set (A \<union> B))"
  using rep_merge [of A B same] assms by (cases same) (simp_all add: rep_def)

theorem SetU32_merge_union_witness:
  "merged (SetU32_from (sorted_list_of_set {1, 300})) (SetU32_from (sorted_list_of_set {2, 300}))
      (merge SetU32_new False (SetU32_from (sorted_list_of_set {1, 300})) (SetU32_from (sorted_list_of_set {2, 300})))
    = SetU32_from (sorted_list_of_set {1, 2, 300})"
  using SetU32_merge_union [of False "{1, 300}" "{2, 300}"] by (simp add: insert_commute)

text \<open>
  The fields of a block header are those it was made from, and extending a sparse block
  changes only its length.
\<close>

theorem Hdr_fields:
  assumes "i < 0x1000000" "unat len + unat n < 64"
  shows "Hdr_id (addSparseLen (Hdr_make i len t) n) = i \<and> Hdr_type (addSparseLen (Hdr_make i len t) n) = t \<and>
    sparseLen (addSparseLen (Hdr_make i len t) n) = unat len + unat n \<and>
    (\<forall>j<0x1000000. Hdr_before (Hdr_make i len t) j \<longleftrightarrow> i < j)"
proof -
  have len: "len < 64" and s: "unat (len + n) = unat len + unat n"
    using assms(2) by (simp_all add: word_less_nat_alt unat_word_ariths)
  then have "len + n < 64" using assms(2) by (simp add: word_less_nat_alt)
  then show ?thesis
    using Hdr_make_fields [OF assms(1), of "len + n" t] Hdr_make_fields [OF assms(1) len, of t] s
    by (simp add: addSparseLen_make [OF assms(1) len assms(2)] Hdr_before_unat)
qed

theorem Hdr_fields_witness:
  "Hdr_id (addSparseLen (Hdr_make 5 3 Sparse) 2) = 5 \<and> Hdr_type (addSparseLen (Hdr_make 5 3 Sparse) 2) = Sparse \<and>
    sparseLen (addSparseLen (Hdr_make 5 3 Sparse) 2) = 5 \<and>
    Hdr_before (Hdr_make 5 3 Sparse) 6 \<and> \<not> Hdr_before (Hdr_make 5 3 Sparse) 5"
proof -
  note h = Hdr_fields [of 5 3 2 Sparse]
  then have "\<forall>j<0x1000000. Hdr_before (Hdr_make 5 3 Sparse) j \<longleftrightarrow> 5 < j" by simp
  from this [rule_format, of 6] this [rule_format, of 5] h show ?thesis by simp
qed

end
