(* ===== verification/Lookup_Cache.thy ===== *)
theory Lookup_Cache
  imports Lookups Fact_Set
begin

text \<open>
  The LRU cache for point lookups (\<^verbatim>\<open>rts/cache.h\<close>, \<^verbatim>\<open>rts/cache.cpp\<close>).

  Facts live on a heap: a map from addresses to facts in which freed facts are gone, so that using
  a pointer after its fact was deleted is the error \<open>Undefined\<close>. The index maps ids and keys to
  addresses, the storage is the LRU list of addresses with its byte and fact counters, and
  the touched buffers are the addresses recorded in each shard, below \<^verbatim>\<open>next\<close>. The locks make every
  operation atomic; which shard a thread records its hits in and whether \<^verbatim>\<open>tryLock\<close> succeeds are
  arguments of the operations.
\<close>

section \<open>State\<close>

type_synonym addr = nat

datatype Stat = IdByKey_hits | IdByKey_misses | IdByKey_failures | IdByKey_deletes
  | TypeById_hits | TypeById_misses | TypeById_failures
  | FactById_hits | FactById_misses | FactById_failures | FactById_deletes
  | FactBytes | FactCount

definition Stats_counters :: "Stat list" where
  "Stats_counters = [IdByKey_hits, IdByKey_misses, IdByKey_failures, IdByKey_deletes,
     TypeById_hits, TypeById_misses, TypeById_failures,
     FactById_hits, FactById_misses, FactById_failures, FactById_deletes]"

definition Stats_non_counters :: "Stat list" where
  "Stats_non_counters = [FactBytes, FactCount]"

type_synonym Stats = "Stat \<Rightarrow> u64"

definition Stats_read :: "Stats \<Rightarrow> u64 list" where
  "Stats_read v = map v (Stats_counters @ Stats_non_counters)"

definition Stats_readAndResetCounters :: "Stats \<Rightarrow> u64 list \<times> Stats" where
  "Stats_readAndResetCounters v =
     (map v Stats_counters @ map v Stats_non_counters,
      \<lambda>s. if s \<in> set Stats_counters then 0 else v s)"

record CacheOptions =
  opt_capacity :: u64
  opt_shards :: nat
  opt_touched_buffer_size :: nat

record CacheIndex =
  ix_ids :: "Id \<rightharpoonup> addr"
  ix_keys :: "Pid \<times> bytes \<rightharpoonup> addr"

record CacheStorage =
  st_facts :: "addr list"
  st_bytes :: u64
  st_count :: u64

type_synonym Heap = "addr \<rightharpoonup> Fact"

record LookupCache =
  lc_options :: CacheOptions
  lc_index :: CacheIndex
  lc_storage :: CacheStorage
  lc_touched :: "addr list list"
  lc_stats :: Stats
  lc_heap :: Heap
  lc_next :: addr

definition LookupCache_new :: "CacheOptions \<Rightarrow> Stats \<Rightarrow> LookupCache" where
  "LookupCache_new opts s =
     \<lparr>lc_options = opts, lc_index = \<lparr>ix_ids = Map.empty, ix_keys = Map.empty\<rparr>,
      lc_storage = \<lparr>st_facts = [], st_bytes = 0, st_count = 0\<rparr>,
      lc_touched = replicate (opt_shards opts) [], lc_stats = s, lc_heap = Map.empty, lc_next = 0\<rparr>"

definition deref :: "Heap \<Rightarrow> addr \<Rightarrow> Fact result" where
  "deref h a = (case h a of None \<Rightarrow> raise Undefined | Some f \<Rightarrow> ok f)"

definition bump :: "Stat \<Rightarrow> LookupCache \<Rightarrow> LookupCache" where
  "bump s c = c\<lparr>lc_stats := (lc_stats c)(s := lc_stats c s + 1)\<rparr>"

definition create :: "Ref \<Rightarrow> 4 word \<Rightarrow> LookupCache \<Rightarrow> addr \<times> LookupCache" where
  "create r tag c =
     (lc_next c, c\<lparr>lc_heap := (lc_heap c)(lc_next c \<mapsto> Fact_create r tag), lc_next := lc_next c + 1\<rparr>)"

primrec destroy_all :: "addr list \<Rightarrow> LookupCache \<Rightarrow> LookupCache result" where
  "destroy_all [] c = ok c"
| "destroy_all (a # as) c =
     rbind (deref (lc_heap c) a) (\<lambda>_. destroy_all as (c\<lparr>lc_heap := (lc_heap c)(a := None)\<rparr>))"

section \<open>Storage\<close>

definition Storage_push_back :: "Heap \<Rightarrow> addr \<Rightarrow> CacheStorage \<Rightarrow> CacheStorage result" where
  "Storage_push_back h a st =
     rbind (deref h a) (\<lambda>f.
     ok \<lparr>st_facts = st_facts st @ [a], st_bytes = st_bytes st + Fact_size f, st_count = st_count st + 1\<rparr>)"

text \<open>Erasing a node that is not in the list is undefined.\<close>

definition Storage_release :: "Heap \<Rightarrow> addr \<Rightarrow> CacheStorage \<Rightarrow> CacheStorage result" where
  "Storage_release h a st =
     rbind (deref h a) (\<lambda>f.
     if a \<in> set (st_facts st) then
       ok \<lparr>st_facts = remove1 a (st_facts st), st_bytes = st_bytes st - Fact_size f,
           st_count = st_count st - 1\<rparr>
     else raise Undefined)"

definition Storage_touch :: "addr \<Rightarrow> CacheStorage \<Rightarrow> CacheStorage result" where
  "Storage_touch a st =
     (if a \<in> set (st_facts st) then ok (st\<lparr>st_facts := remove1 a (st_facts st) @ [a]\<rparr>)
      else raise Undefined)"

primrec drain :: "addr list \<Rightarrow> CacheStorage \<Rightarrow> CacheStorage result" where
  "drain [] st = ok st"
| "drain (a # as) st = rbind (Storage_touch a st) (drain as)"

primrec drain_all :: "addr list list \<Rightarrow> CacheStorage \<Rightarrow> CacheStorage result" where
  "drain_all [] st = ok st"
| "drain_all (t # ts) st = rbind (drain t st) (drain_all ts)"

definition deleteFromIndex :: "Heap \<Rightarrow> addr \<Rightarrow> CacheIndex \<Rightarrow> CacheIndex result" where
  "deleteFromIndex h a ix =
     rbind (deref h a) (\<lambda>f.
     ok \<lparr>ix_ids = (ix_ids ix)(fact_id f := None),
         ix_keys = (if 0 < fact_tag f then (ix_keys ix)((fact_type f, Fact_key f) := None)
                    else ix_keys ix)\<rparr>)"

text \<open>
  \<open>Storage::Range\<close> is the facts taken so far, their bytes and their number, and the facts that are
  left of the list.
\<close>

record StorageRange =
  rg_taken :: "addr list"
  rg_left :: "addr list"
  rg_bytes :: u64
  rg_count :: u64

definition Storage_start :: "CacheStorage \<Rightarrow> StorageRange" where
  "Storage_start st = \<lparr>rg_taken = [], rg_left = st_facts st, rg_bytes = 0, rg_count = 0\<rparr>"

definition Range_next :: "Heap \<Rightarrow> StorageRange \<Rightarrow> (addr \<times> StorageRange) result" where
  "Range_next h r =
     (case rg_left r of
        [] \<Rightarrow> raise Undefined
      | a # as \<Rightarrow> rbind (deref h a) (\<lambda>f.
          ok (a, \<lparr>rg_taken = rg_taken r @ [a], rg_left = as, rg_bytes = rg_bytes r + Fact_size f,
                  rg_count = rg_count r + 1\<rparr>)))"

function evict_loop ::
  "Heap \<Rightarrow> u64 \<Rightarrow> u64 \<Rightarrow> CacheIndex \<Rightarrow> StorageRange \<Rightarrow> (CacheIndex \<times> StorageRange) result" where
  "evict_loop h bts target ix r =
     (if target < bts - rg_bytes r \<and> rg_left r \<noteq> [] then
        (case Range_next h r of
           Inl e \<Rightarrow> Inl e
         | Inr (a, r') \<Rightarrow> (case deleteFromIndex h a ix of
             Inl e \<Rightarrow> Inl e
           | Inr ix' \<Rightarrow> evict_loop h bts target ix' r'))
      else ok (ix, r))"
  by pat_completeness auto
termination
  by (relation "measure (\<lambda>(h, bts, target, ix, r). length (rg_left r))")
    (auto simp: Range_next_def rbind_def ok_def raise_def deref_def split: list.splits option.splits)

declare evict_loop.simps [simp del]

definition Storage_splice_to :: "StorageRange \<Rightarrow> CacheStorage \<Rightarrow> addr list \<Rightarrow> addr list \<times> CacheStorage" where
  "Storage_splice_to r st dead =
     (dead @ rg_taken r,
      \<lparr>st_facts = rg_left r, st_bytes = st_bytes st - rg_bytes r, st_count = st_count st - rg_count r\<rparr>)"

definition evict :: "u64 \<Rightarrow> LookupCache \<Rightarrow> addr list \<Rightarrow> (LookupCache \<times> addr list) result" where
  "evict target c dead =
     rbind (evict_loop (lc_heap c) (st_bytes (lc_storage c)) target (lc_index c) (Storage_start (lc_storage c)))
       (\<lambda>(ix, r). case Storage_splice_to r (lc_storage c) dead of (dead', st) \<Rightarrow>
          ok (c\<lparr>lc_index := ix, lc_storage := st\<rparr>, dead'))"

section \<open>Insertion\<close>

definition index_add :: "Heap \<Rightarrow> addr \<Rightarrow> CacheIndex \<Rightarrow> CacheIndex result" where
  "index_add h a ix =
     rbind (deref h a) (\<lambda>f.
     let ids = (case ix_ids ix (fact_id f) of None \<Rightarrow> (ix_ids ix)(fact_id f \<mapsto> a) | Some _ \<Rightarrow> ix_ids ix);
         keys = (if fact_tag f \<noteq> 0 then
                   (case ix_keys ix (fact_type f, Fact_key f) of
                      None \<Rightarrow> (ix_keys ix)((fact_type f, Fact_key f) \<mapsto> a)
                    | Some _ \<Rightarrow> ix_keys ix)
                 else ix_keys ix)
     in ok \<lparr>ix_ids = ids, ix_keys = keys\<rparr>)"

definition drain_touched :: "LookupCache \<Rightarrow> LookupCache result" where
  "drain_touched c =
     rbind (drain_all (lc_touched c) (lc_storage c)) (\<lambda>st.
     ok (c\<lparr>lc_storage := st, lc_touched := map (\<lambda>_. []) (lc_touched c)\<rparr>))"

definition replace_existing :: "4 word \<Rightarrow> addr \<Rightarrow> LookupCache \<Rightarrow> addr list \<Rightarrow> (LookupCache \<times> addr list) result" where
  "replace_existing tag a c dead =
     (let c = bump (if tag = 1 then IdByKey_deletes else FactById_deletes) c in
      rbind (deleteFromIndex (lc_heap c) a (lc_index c)) (\<lambda>ix.
      rbind (Storage_release (lc_heap c) a (lc_storage c)) (\<lambda>st.
      ok (c\<lparr>lc_index := ix, lc_storage := st\<rparr>, dead @ [a]))))"

definition add_owned :: "addr \<Rightarrow> LookupCache \<Rightarrow> LookupCache result" where
  "add_owned owned c =
     rbind (Storage_push_back (lc_heap c) owned (lc_storage c)) (\<lambda>st.
     rbind (index_add (lc_heap c) owned (lc_index c)) (\<lambda>ix.
     ok (c\<lparr>lc_storage := st, lc_index := ix\<rparr>)))"

text \<open>
  \<open>shrunk\<close> is the target of an eviction, \<^verbatim>\<open>capacity * 0.9 - size\<close> in floating point, or 0. \<open>existing\<close>
  is the cached fact with the same id and its tag.
\<close>

definition make_room ::
  "(u64 \<Rightarrow> u64 \<Rightarrow> u64) \<Rightarrow> u64 \<Rightarrow> 4 word \<Rightarrow> (addr \<times> 4 word) option \<Rightarrow> LookupCache \<Rightarrow> addr list \<Rightarrow>
   (LookupCache \<times> addr list) result" where
  "make_room shrunk sz tag existing c dead =
     (let cap = opt_capacity (lc_options c) in
      if \<not> Option.is_none existing \<or> cap < st_bytes (lc_storage c) + sz then
        rbind (drain_touched c) (\<lambda>c.
        rbind (case existing of None \<Rightarrow> ok (c, dead) | Some (a, _) \<Rightarrow> replace_existing tag a c dead)
          (\<lambda>(c, dead).
        if cap < st_bytes (lc_storage c) + sz then evict (shrunk cap sz) c dead else ok (c, dead)))
      else ok (c, dead))"

text \<open>A fact that is not stored is freed when its owner goes out of scope.\<close>

definition insertOne ::
  "(u64 \<Rightarrow> u64 \<Rightarrow> u64) \<Rightarrow> addr \<Rightarrow> LookupCache \<Rightarrow> addr list \<Rightarrow> (LookupCache \<times> addr list) result" where
  "insertOne shrunk owned c dead =
     rbind (deref (lc_heap c) owned) (\<lambda>f.
     let sz = Fact_size f;
         drop_owned = rbind (destroy_all [owned] c) (\<lambda>c. ok (c, dead)) in
     if opt_capacity (lc_options c) < sz then drop_owned
     else
       rbind (case ix_ids (lc_index c) (fact_id f) of
           None \<Rightarrow> ok None
         | Some a \<Rightarrow> rbind (deref (lc_heap c) a) (\<lambda>g. ok (Some (a, fact_tag g))))
       (\<lambda>existing.
       if (case existing of None \<Rightarrow> False | Some (a, t) \<Rightarrow> fact_tag f \<le> t) then drop_owned
       else
         rbind (make_room shrunk sz (fact_tag f) existing c dead) (\<lambda>(c, dead).
         rbind (add_owned owned c) (\<lambda>c. ok (c, dead)))))"

text \<open>The statistics of bytes and facts rely on wrap-around when the cache shrinks.\<close>

definition performUpdate ::
  "(LookupCache \<Rightarrow> (LookupCache \<times> 'a) result) \<Rightarrow> LookupCache \<Rightarrow> (LookupCache \<times> 'a) result" where
  "performUpdate f c =
     rbind (f c) (\<lambda>(c', x).
     let v = lc_stats c';
         v = v(FactBytes := v FactBytes + (st_bytes (lc_storage c') - st_bytes (lc_storage c)));
         v = v(FactCount := v FactCount + (st_count (lc_storage c') - st_count (lc_storage c)))
     in ok (c'\<lparr>lc_stats := v\<rparr>, x))"

definition cache_insert :: "(u64 \<Rightarrow> u64 \<Rightarrow> u64) \<Rightarrow> addr \<Rightarrow> LookupCache \<Rightarrow> LookupCache result" where
  "cache_insert shrunk owned c =
     rbind (performUpdate (\<lambda>c. insertOne shrunk owned c []) c) (\<lambda>(c, dead). destroy_all dead c)"

definition Inserter_insert :: "(u64 \<Rightarrow> u64 \<Rightarrow> u64) \<Rightarrow> Ref \<Rightarrow> LookupCache \<Rightarrow> LookupCache result" where
  "Inserter_insert shrunk r c =
     (case create r 2 c of (owned, c) \<Rightarrow>
        rbind (insertOne shrunk owned c []) (\<lambda>(c, dead). destroy_all dead c))"

primrec Inserter_insert_all :: "(u64 \<Rightarrow> u64 \<Rightarrow> u64) \<Rightarrow> Ref list \<Rightarrow> LookupCache \<Rightarrow> LookupCache result" where
  "Inserter_insert_all shrunk [] c = ok c"
| "Inserter_insert_all shrunk (r # rs) c =
     rbind (Inserter_insert shrunk r c) (Inserter_insert_all shrunk rs)"

definition withBulkStore :: "(u64 \<Rightarrow> u64 \<Rightarrow> u64) \<Rightarrow> Ref list \<Rightarrow> LookupCache \<Rightarrow> LookupCache result" where
  "withBulkStore shrunk rs c =
     rbind (performUpdate (\<lambda>c. rbind (Inserter_insert_all shrunk rs c) (\<lambda>c. ok (c, ()))) c) (\<lambda>(c, _). ok c)"

definition cache_clear :: "LookupCache \<Rightarrow> LookupCache" where
  "cache_clear c =
     c\<lparr>lc_stats := (lc_stats c)(FactBytes := lc_stats c FactBytes - st_bytes (lc_storage c),
                              FactCount := lc_stats c FactCount - st_count (lc_storage c))\<rparr>"

section \<open>Lookups\<close>

record TouchEnv =
  te_shard :: nat
  te_trylock :: bool

definition touch :: "TouchEnv \<Rightarrow> addr \<Rightarrow> LookupCache \<Rightarrow> LookupCache result" where
  "touch env a c =
     (if 0 < opt_shards (lc_options c) then
        if te_shard env < length (lc_touched c) then
          let t = lc_touched c ! te_shard env in
          if length t < opt_touched_buffer_size (lc_options c) then
            ok (c\<lparr>lc_touched := (lc_touched c)[te_shard env := t @ [a]]\<rparr>)
          else if te_trylock env then
            rbind (drain t (lc_storage c)) (\<lambda>st.
            ok (c\<lparr>lc_storage := st, lc_touched := (lc_touched c)[te_shard env := []]\<rparr>))
          else ok c
        else raise Undefined
      else rbind (Storage_touch a (lc_storage c)) (\<lambda>st. ok (c\<lparr>lc_storage := st\<rparr>)))"

definition Anchor_idByKey ::
  "(u64 \<Rightarrow> u64 \<Rightarrow> u64) \<Rightarrow> Lookup \<Rightarrow> TouchEnv \<Rightarrow> Pid \<Rightarrow> bytes \<Rightarrow> LookupCache \<Rightarrow> (Id \<times> LookupCache) result" where
  "Anchor_idByKey shrunk base env type key c =
     rbind (case ix_keys (lc_index c) (type, key) of
         None \<Rightarrow> ok (WordId_invalid, c)
       | Some a \<Rightarrow> rbind (deref (lc_heap c) a) (\<lambda>f.
           rbind (touch env a c) (\<lambda>c. ok (fact_id f, c))))
     (\<lambda>(cached, c).
     if WordId_bool cached then ok (cached, bump IdByKey_hits c)
     else
       let i = idByKey base type key in
       if WordId_bool i then
         case create \<lparr>ref_id = i, ref_type = type, ref_clause = Clause_fromKey key\<rparr> 1 (bump IdByKey_misses c) of
           (owned, c) \<Rightarrow> rbind (cache_insert shrunk owned c) (\<lambda>c. ok (i, c))
       else ok (WordId_invalid, bump IdByKey_failures c))"

definition empty_clause :: Clause where
  "empty_clause = \<lparr>cdata = [], key_size = 0, value_size = 0\<rparr>"

definition Anchor_typeById ::
  "(u64 \<Rightarrow> u64 \<Rightarrow> u64) \<Rightarrow> Lookup \<Rightarrow> TouchEnv \<Rightarrow> Id \<Rightarrow> LookupCache \<Rightarrow> (Pid \<times> LookupCache) result" where
  "Anchor_typeById shrunk base env i c =
     rbind (case ix_ids (lc_index c) i of
         None \<Rightarrow> ok (WordId_invalid, c)
       | Some a \<Rightarrow> rbind (deref (lc_heap c) a) (\<lambda>f.
           rbind (touch env a c) (\<lambda>c. ok (fact_type f, c))))
     (\<lambda>(cached, c).
     if WordId_bool cached then ok (cached, bump TypeById_hits c)
     else
       let type = typeById base i in
       if WordId_bool type then
         case create \<lparr>ref_id = i, ref_type = type, ref_clause = empty_clause\<rparr> 0 (bump TypeById_misses c) of
           (owned, c) \<Rightarrow> rbind (cache_insert shrunk owned c) (\<lambda>c. ok (type, c))
       else ok (WordId_invalid, bump TypeById_failures c))"

text \<open>The result is what the function \<^verbatim>\<open>f\<close> is called with, if it is called.\<close>

definition Anchor_factById ::
  "(u64 \<Rightarrow> u64 \<Rightarrow> u64) \<Rightarrow> Lookup \<Rightarrow> TouchEnv \<Rightarrow> Id \<Rightarrow> LookupCache \<Rightarrow> ((Pid \<times> Clause) option \<times> LookupCache) result" where
  "Anchor_factById shrunk base env i c =
     rbind (case ix_ids (lc_index c) i of
         None \<Rightarrow> ok (None, c)
       | Some a \<Rightarrow> rbind (deref (lc_heap c) a) (\<lambda>f.
           if fact_tag f = 2 then
             rbind (touch env a c) (\<lambda>c.
             rbind (deref (lc_heap c) a) (\<lambda>f. ok (Some (fact_type f, Fact_clause f), c)))
           else ok (None, c)))
     (\<lambda>(cached, c).
     case cached of
       Some x \<Rightarrow> ok (Some x, bump FactById_hits c)
     | None \<Rightarrow>
         (case factById base i of
            Some (type, clause) \<Rightarrow>
              (case create \<lparr>ref_id = i, ref_type = type, ref_clause = clause\<rparr> 2 c of (owned, c) \<Rightarrow>
                 rbind (deref (lc_heap c) owned) (\<lambda>f.
                 rbind (cache_insert shrunk owned (bump FactById_misses c)) (\<lambda>c.
                 ok (Some (fact_type f, Fact_clause f), c))))
          | None \<Rightarrow> ok (None, bump FactById_failures c)))"

end
