(* ===== verification/Lookup_Cache_Correct.thy ===== *)
theory Lookup_Cache_Correct
  imports Lookup_Cache
begin

text \<open>
  The cache is transparent and safe: whatever it has been used for before, the lookups through it
  give what the base lookup gives, no operation uses a freed fact or frees one twice, no fact is
  leaked, and the cached facts fit into the capacity.
\<close>

section \<open>The invariant\<close>

text \<open>What a cached fact may say: its type, with tag \<open>KEY\<close> its key, with tag \<open>FULL\<close> everything.\<close>

definition agrees :: "afact list \<Rightarrow> Fact \<Rightarrow> bool" where
  "agrees fs f \<longleftrightarrow> (\<exists>a\<in>set fs. a_id a = fact_id f \<and> a_type a = fact_type f \<and>
     (fact_tag f \<noteq> 0 \<longrightarrow> Fact_key f = a_key a) \<and> (fact_tag f = 2 \<longrightarrow> Fact_value f = a_value a))"

definition bytes_of :: "Heap \<Rightarrow> addr list \<Rightarrow> nat" where
  "bytes_of h as = sum_list (map (\<lambda>a. unat (Fact_size (the (h a)))) as)"

definition storage_ok :: "Heap \<Rightarrow> CacheStorage \<Rightarrow> bool" where
  "storage_ok h st \<longleftrightarrow> distinct (st_facts st) \<and> unat (st_bytes st) = bytes_of h (st_facts st) \<and>
     unat (st_count st) = length (st_facts st)"

definition ids_ok :: "Heap \<Rightarrow> addr set \<Rightarrow> CacheIndex \<Rightarrow> bool" where
  "ids_ok h A ix \<longleftrightarrow> (\<forall>i a. ix_ids ix i = Some a \<longleftrightarrow> a \<in> A \<and> fact_id (the (h a)) = i)"

definition keys_ok :: "Heap \<Rightarrow> addr set \<Rightarrow> CacheIndex \<Rightarrow> bool" where
  "keys_ok h A ix \<longleftrightarrow> (\<forall>t k a. ix_keys ix (t, k) = Some a \<longleftrightarrow>
     a \<in> A \<and> fact_tag (the (h a)) \<noteq> 0 \<and> fact_type (the (h a)) = t \<and> Fact_key (the (h a)) = k)"

definition touched_ok :: "CacheOptions \<Rightarrow> addr set \<Rightarrow> addr list list \<Rightarrow> bool" where
  "touched_ok opts A ts \<longleftrightarrow> length ts = opt_shards opts \<and> (\<forall>t\<in>set ts. set t \<subseteq> A)"

text \<open>\<open>X\<close> are the facts on the heap that are not in the storage: those about to be inserted or freed.\<close>

definition cache_inv :: "CacheOptions \<Rightarrow> afact list \<Rightarrow> addr set \<Rightarrow> LookupCache \<Rightarrow> bool" where
  "cache_inv opts fs X c \<longleftrightarrow> lc_options c = opts \<and> storage_ok (lc_heap c) (lc_storage c) \<and>
     dom (lc_heap c) = set (st_facts (lc_storage c)) \<union> X \<and> set (st_facts (lc_storage c)) \<inter> X = {} \<and>
     (\<forall>a\<in>dom (lc_heap c). a < lc_next c) \<and>
     ids_ok (lc_heap c) (set (st_facts (lc_storage c))) (lc_index c) \<and>
     keys_ok (lc_heap c) (set (st_facts (lc_storage c))) (lc_index c) \<and>
     touched_ok opts (set (st_facts (lc_storage c))) (lc_touched c) \<and>
     (\<forall>a\<in>set (st_facts (lc_storage c)). agrees fs (the (lc_heap c a))) \<and>
     st_bytes (lc_storage c) \<le> opt_capacity opts"

lemma cache_invD:
  assumes "cache_inv opts fs X c"
  shows "storage_ok (lc_heap c) (lc_storage c)" "set (st_facts (lc_storage c)) \<subseteq> dom (lc_heap c)"
    "ids_ok (lc_heap c) (set (st_facts (lc_storage c))) (lc_index c)"
    "keys_ok (lc_heap c) (set (st_facts (lc_storage c))) (lc_index c)"
    "set (st_facts (lc_storage c)) \<inter> X = {}" "lc_options c = opts"
    "st_bytes (lc_storage c) \<le> opt_capacity opts"
    "dom (lc_heap c) = set (st_facts (lc_storage c)) \<union> X" "\<forall>a\<in>dom (lc_heap c). a < lc_next c"
  using assms unfolding cache_inv_def by blast+

definition no_hits :: "LookupCache \<Rightarrow> bool" where
  "no_hits c \<longleftrightarrow> (\<forall>t\<in>set (lc_touched c). t = [])"

lemma deref_ok [simp]: "a \<in> dom h \<Longrightarrow> deref h a = ok (the (h a))"
  by (auto simp: deref_def)

section \<open>The hit buffers\<close>

text \<open>Recorded hits only reorder the storage.\<close>

definition reordered :: "CacheStorage \<Rightarrow> CacheStorage \<Rightarrow> bool" where
  "reordered st st' \<longleftrightarrow> mset (st_facts st') = mset (st_facts st) \<and> st_bytes st' = st_bytes st \<and>
     st_count st' = st_count st"

lemma reordered_set: "reordered st st' \<Longrightarrow> set (st_facts st') = set (st_facts st)"
  unfolding reordered_def by (metis mset_eq_setD)

lemma reordered_trans: "reordered st st' \<Longrightarrow> reordered st' st'' \<Longrightarrow> reordered st st''"
  by (simp add: reordered_def)

lemma bytes_of_mset: "mset as = mset bs \<Longrightarrow> bytes_of h as = bytes_of h bs"
  unfolding bytes_of_def sum_mset_sum_list [symmetric] mset_map by (rule arg_cong)

lemma reordered_ok:
  assumes "storage_ok h st" "reordered st st'"
  shows "storage_ok h st'"
proof -
  have m: "mset (st_facts st') = mset (st_facts st)" using assms(2) by (simp add: reordered_def)
  show ?thesis
    using assms mset_eq_imp_distinct_iff [OF m] mset_eq_length [OF m] bytes_of_mset [OF m, of h]
    by (simp add: storage_ok_def reordered_def)
qed

lemma Storage_touch_ok:
  assumes "a \<in> set (st_facts st)"
  obtains st' where "Storage_touch a st = ok st'" "reordered st st'"
  using assms that [of "st\<lparr>st_facts := remove1 a (st_facts st) @ [a]\<rparr>"]
  by (simp add: Storage_touch_def reordered_def)

lemma drain_ok:
  assumes "set t \<subseteq> set (st_facts st)"
  shows "\<exists>st'. drain t st = ok st' \<and> reordered st st'"
  using assms
proof (induction t arbitrary: st)
  case Nil
  then show ?case by (simp add: reordered_def)
next
  case (Cons a t)
  then obtain st1 where st1: "Storage_touch a st = ok st1" "reordered st st1"
    by (auto elim: Storage_touch_ok)
  then have "set t \<subseteq> set (st_facts st1)" using Cons.prems reordered_set by auto
  from Cons.IH [OF this] show ?case using st1 reordered_trans by auto
qed

lemma drain_all_ok:
  assumes "\<forall>t\<in>set ts. set t \<subseteq> set (st_facts st)"
  shows "\<exists>st'. drain_all ts st = ok st' \<and> reordered st st'"
  using assms
proof (induction ts arbitrary: st)
  case Nil
  then show ?case by (simp add: reordered_def)
next
  case (Cons t ts)
  then obtain st1 where st1: "drain t st = ok st1" "reordered st st1" using drain_ok [of t st] by auto
  then have "\<forall>t\<in>set ts. set t \<subseteq> set (st_facts st1)" using Cons.prems reordered_set by auto
  from Cons.IH [OF this] show ?case using st1 reordered_trans by auto
qed

lemma cache_inv_reordered:
  assumes "cache_inv opts fs X c" "reordered (lc_storage c) st"
    and "touched_ok opts (set (st_facts (lc_storage c))) ts"
  shows "cache_inv opts fs X (c\<lparr>lc_storage := st, lc_touched := ts\<rparr>)"
  using assms reordered_ok reordered_set [OF assms(2)]
  by (auto simp: cache_inv_def reordered_def)

lemma drain_touched_ok:
  assumes "cache_inv opts fs X c"
  obtains st where "drain_touched c = ok (c\<lparr>lc_storage := st, lc_touched := map (\<lambda>_. []) (lc_touched c)\<rparr>)"
    "reordered (lc_storage c) st"
    "cache_inv opts fs X (c\<lparr>lc_storage := st, lc_touched := map (\<lambda>_. []) (lc_touched c)\<rparr>)"
proof -
  have t: "\<forall>t\<in>set (lc_touched c). set t \<subseteq> set (st_facts (lc_storage c))"
    using assms by (simp add: cache_inv_def touched_ok_def)
  then obtain st where st: "drain_all (lc_touched c) (lc_storage c) = ok st" "reordered (lc_storage c) st"
    using drain_all_ok by blast
  have "touched_ok opts (set (st_facts (lc_storage c))) (map (\<lambda>_. []) (lc_touched c))"
    using assms by (auto simp: cache_inv_def touched_ok_def)
  then show ?thesis
    using that [of st] st cache_inv_reordered [OF assms st(2)] by (simp add: drain_touched_def)
qed

section \<open>Removing facts\<close>

lemma ids_ok_inj: "ids_ok h A ix \<Longrightarrow> a \<in> A \<Longrightarrow> b \<in> A \<Longrightarrow> fact_id (the (h a)) = fact_id (the (h b)) \<Longrightarrow> a = b"
  unfolding ids_ok_def by (metis option.inject)

lemma keys_ok_inj:
  "keys_ok h A ix \<Longrightarrow> a \<in> A \<Longrightarrow> b \<in> A \<Longrightarrow> fact_tag (the (h a)) \<noteq> 0 \<Longrightarrow> fact_tag (the (h b)) \<noteq> 0 \<Longrightarrow>
   fact_type (the (h a)) = fact_type (the (h b)) \<Longrightarrow> Fact_key (the (h a)) = Fact_key (the (h b)) \<Longrightarrow> a = b"
  unfolding keys_ok_def by (metis option.inject)

lemma deleteFromIndex_ok:
  assumes "ids_ok h A ix" "keys_ok h A ix" "a \<in> A" "a \<in> dom h"
  obtains ix' where "deleteFromIndex h a ix = ok ix'" "ids_ok h (A - {a}) ix'" "keys_ok h (A - {a}) ix'"
    "ix_ids ix' (fact_id (the (h a))) = None"
proof -
  let ?f = "the (h a)"
  let ?ix = "\<lparr>ix_ids = (ix_ids ix)(fact_id ?f := None),
    ix_keys = (if 0 < fact_tag ?f then (ix_keys ix)((fact_type ?f, Fact_key ?f) := None) else ix_keys ix)\<rparr>"
  have i: "ix_ids ix (fact_id ?f) = Some a" using assms by (simp add: ids_ok_def)
  have "ids_ok h (A - {a}) ?ix" using assms(1,3) i by (auto simp: ids_ok_def dest: ids_ok_inj [OF assms(1)])
  moreover have "keys_ok h (A - {a}) ?ix"
  proof (cases "fact_tag ?f = 0")
    case True
    then show ?thesis using assms(2) by (auto simp: keys_ok_def)
  next
    case False
    then have "ix_keys ix (fact_type ?f, Fact_key ?f) = Some a" using assms by (simp add: keys_ok_def)
    then show ?thesis using assms(2,3) False by (auto simp: keys_ok_def word_gt_0 dest: keys_ok_inj [OF assms(2)])
  qed
  ultimately show ?thesis using that [of ?ix] assms(4) by (simp add: deleteFromIndex_def)
qed

lemma bytes_of_Cons: "bytes_of h (a # as) = unat (Fact_size (the (h a))) + bytes_of h as"
  by (simp add: bytes_of_def)

lemma bytes_of_append: "bytes_of h (as @ bs) = bytes_of h as + bytes_of h bs"
  by (simp add: bytes_of_def)

lemma bytes_of_remove1: "a \<in> set as \<Longrightarrow> bytes_of h as = unat (Fact_size (the (h a))) + bytes_of h (remove1 a as)"
  by (induction as) (auto simp: bytes_of_Cons)

lemma Fact_size_pos: "40 \<le> unat (Fact_size f)"
proof -
  have "unat (fact_key_size f) < 2 ^ 28" "unat (fact_value_size f) < 2 ^ 32"
    using unsigned_less [of "fact_key_size f"] unsigned_less [of "fact_value_size f"] by simp_all
  then show ?thesis
    by (simp add: Fact_size_def sizeof_Fact_def unat_word_ariths unsigned_ucast_eq take_bit_nat_eq_self)
qed

lemma length_le_bytes: "length as \<le> bytes_of h as"
proof (induction as)
  case (Cons a as)
  then show ?case using Fact_size_pos [of "the (h a)"] by (simp add: bytes_of_Cons)
qed (simp add: bytes_of_def)

lemma Storage_release_ok:
  assumes "storage_ok h st" "a \<in> set (st_facts st)" "a \<in> dom h"
  obtains st' where "Storage_release h a st = ok st'" "storage_ok h st'" "st_facts st' = remove1 a (st_facts st)"
    "unat (st_bytes st') \<le> unat (st_bytes st)"
proof -
  let ?f = "the (h a)"
  let ?st = "\<lparr>st_facts = remove1 a (st_facts st), st_bytes = st_bytes st - Fact_size ?f, st_count = st_count st - 1\<rparr>"
  have b: "unat (st_bytes st) = unat (Fact_size ?f) + bytes_of h (remove1 a (st_facts st))"
    using assms(1) bytes_of_remove1 [OF assms(2)] by (simp add: storage_ok_def)
  then have "unat (st_bytes st - Fact_size ?f) = bytes_of h (remove1 a (st_facts st))"
    by (subst unat_sub_le) (simp_all add: word_le_nat_alt)
  moreover have "0 < length (st_facts st)" using assms(2) by (cases "st_facts st") auto
  then have "unat (st_count st - 1) = length (remove1 a (st_facts st))"
    using assms(1,2) by (subst unat_sub_le) (simp_all add: storage_ok_def word_le_nat_alt length_remove1 Suc_le_eq)
  ultimately have "storage_ok h ?st" using assms(1) by (simp add: storage_ok_def distinct_remove1)
  then show ?thesis
    using that [of ?st] assms(2,3) b by (simp add: Storage_release_def storage_ok_def)
qed

lemma replace_existing_ok:
  assumes "cache_inv opts fs X c" "no_hits c" "a \<in> set (st_facts (lc_storage c))"
  obtains c' where "replace_existing tag a c dead = ok (c', dead @ [a])" "cache_inv opts fs (insert a X) c'"
    "no_hits c'" "lc_heap c' = lc_heap c" "ix_ids (lc_index c') (fact_id (the (lc_heap c a))) = None"
    "lc_stats c' FactBytes = lc_stats c FactBytes" "lc_stats c' FactCount = lc_stats c FactCount"
proof -
  note inv = assms(1) [unfolded cache_inv_def]
  have a: "a \<in> dom (lc_heap c)" using assms(3) inv by blast
  obtain ix where ix: "deleteFromIndex (lc_heap c) a (lc_index c) = ok ix"
      "ids_ok (lc_heap c) (set (st_facts (lc_storage c)) - {a}) ix"
      "keys_ok (lc_heap c) (set (st_facts (lc_storage c)) - {a}) ix"
      "ix_ids ix (fact_id (the (lc_heap c a))) = None"
    by (rule deleteFromIndex_ok [OF cache_invD(3,4) [OF assms(1)] assms(3) a])
  obtain st where st: "Storage_release (lc_heap c) a (lc_storage c) = ok st" "storage_ok (lc_heap c) st"
      "st_facts st = remove1 a (st_facts (lc_storage c))" "unat (st_bytes st) \<le> unat (st_bytes (lc_storage c))"
    by (rule Storage_release_ok [OF cache_invD(1) [OF assms(1)] assms(3) a])
  have s: "set (st_facts st) = set (st_facts (lc_storage c)) - {a}"
    using inv st(3) by (simp add: storage_ok_def)
  let ?c = "(bump (if tag = 1 then IdByKey_deletes else FactById_deletes) c)\<lparr>lc_index := ix, lc_storage := st\<rparr>"
  have "cache_inv opts fs (insert a X) ?c"
    using inv ix(2,3) st(2,4) assms(2,3)
    by (auto simp: cache_inv_def s bump_def touched_ok_def no_hits_def word_le_nat_alt)
  then show ?thesis
    using that [of ?c] ix st assms(2) by (simp add: replace_existing_def bump_def no_hits_def)
qed

section \<open>Eviction\<close>

text \<open>The facts of a range: those taken are no longer in the index, their bytes are counted.\<close>

definition range_ok :: "Heap \<Rightarrow> CacheStorage \<Rightarrow> CacheIndex \<Rightarrow> StorageRange \<Rightarrow> bool" where
  "range_ok h st ix r \<longleftrightarrow> st_facts st = rg_taken r @ rg_left r \<and> unat (rg_bytes r) = bytes_of h (rg_taken r) \<and>
     unat (rg_count r) = length (rg_taken r) \<and> ids_ok h (set (rg_left r)) ix \<and> keys_ok h (set (rg_left r)) ix"

lemma range_bytes:
  assumes "storage_ok h st" "range_ok h st ix r"
  shows "unat (st_bytes st - rg_bytes r) = bytes_of h (rg_left r)"
proof -
  have "unat (st_bytes st) = unat (rg_bytes r) + bytes_of h (rg_left r)"
    using assms by (simp add: storage_ok_def range_ok_def bytes_of_append)
  then show ?thesis by (subst unat_sub_le) (simp_all add: word_le_nat_alt)
qed

lemma range_step:
  assumes "storage_ok h st" "range_ok h st ix r" "rg_left r = a # as" "set (st_facts st) \<subseteq> dom h"
  obtains r' ix' where "Range_next h r = ok (a, r')" "deleteFromIndex h a ix = ok ix'" "range_ok h st ix' r'"
    "rg_left r' = as"
proof -
  let ?r = "\<lparr>rg_taken = rg_taken r @ [a], rg_left = as, rg_bytes = rg_bytes r + Fact_size (the (h a)),
    rg_count = rg_count r + 1\<rparr>"
  have facts: "st_facts st = rg_taken r @ a # as" using assms(2,3) by (simp add: range_ok_def)
  have a: "a \<in> dom h" "a \<notin> set as" using assms(1,4) facts by (auto simp: storage_ok_def)
  have "set (a # as) - {a} = set as" using a(2) by auto
  then obtain ix' where ix: "deleteFromIndex h a ix = ok ix'" "ids_ok h (set as) ix'" "keys_ok h (set as) ix'"
    using deleteFromIndex_ok [of h "set (a # as)" ix a] assms(2,3) a(1) by (auto simp: range_ok_def)
  have "bytes_of h (rg_taken r) + unat (Fact_size (the (h a))) < 2 ^ 64"
    using unat_lt_64 [of "st_bytes st"] assms(1) by (simp add: storage_ok_def facts bytes_of_append bytes_of_Cons)
  moreover have "length (rg_taken r) + 1 < 2 ^ 64"
    using unat_lt_64 [of "st_count st"] assms(1) by (simp add: storage_ok_def facts)
  ultimately have "range_ok h st ix' ?r"
    using assms(2) ix(2,3) facts
    by (simp add: range_ok_def bytes_of_append bytes_of_Cons unat_word_ariths bytes_of_def)
  then show ?thesis
    using that [of ?r ix'] ix(1) assms(3) a(1) by (simp add: Range_next_def)
qed

lemma evict_loop_ok:
  assumes "storage_ok h st" "set (st_facts st) \<subseteq> dom h" "range_ok h st ix r"
  shows "\<exists>ix' r'. evict_loop h (st_bytes st) target ix r = ok (ix', r') \<and> range_ok h st ix' r' \<and>
    bytes_of h (rg_left r') \<le> unat target"
  using assms(3)
proof (induction "rg_left r" arbitrary: ix r)
  case Nil
  then show ?case
    by (subst evict_loop.simps) (auto simp: bytes_of_def)
next
  case (Cons a as)
  show ?case
  proof (cases "target < st_bytes st - rg_bytes r")
    case True
    obtain r' ix' where step: "Range_next h r = ok (a, r')" "deleteFromIndex h a ix = ok ix'"
        "range_ok h st ix' r'" "rg_left r' = as"
      using range_step [OF assms(1) Cons.prems Cons.hyps(2) [symmetric] assms(2)] .
    have "evict_loop h (st_bytes st) target ix r = evict_loop h (st_bytes st) target ix' r'"
      using True Cons.hyps(2) step(1,2) by (subst evict_loop.simps) (auto simp: ok_def)
    then show ?thesis using Cons.hyps(1) [of r' ix'] step(3,4) by simp
  next
    case False
    then have "evict_loop h (st_bytes st) target ix r = ok (ix, r)" by (subst evict_loop.simps) simp
    then show ?thesis
      using False Cons.prems range_bytes [OF assms(1) Cons.prems] by (simp add: word_le_nat_alt not_less)
  qed
qed

lemma evict_ok:
  assumes "cache_inv opts fs X c" "no_hits c"
  obtains c' ds where "evict target c dead = ok (c', dead @ ds)" "cache_inv opts fs (set ds \<union> X) c'" "no_hits c'"
    "distinct ds" "set ds \<inter> X = {}" "lc_heap c' = lc_heap c" "st_bytes (lc_storage c') \<le> target"
    "lc_stats c' = lc_stats c" "\<And>i. ix_ids (lc_index c) i = None \<Longrightarrow> ix_ids (lc_index c') i = None"
proof -
  note inv = assms(1) [unfolded cache_inv_def]
  let ?h = "lc_heap c" and ?st = "lc_storage c"
  have st: "storage_ok ?h ?st" "set (st_facts ?st) \<subseteq> dom ?h" using inv by auto
  have "range_ok ?h ?st (lc_index c) (Storage_start ?st)"
    using inv by (simp add: range_ok_def Storage_start_def bytes_of_def)
  then obtain ix r where loop: "evict_loop ?h (st_bytes ?st) target (lc_index c) (Storage_start ?st) = ok (ix, r)"
      and r: "range_ok ?h ?st ix r" and small: "bytes_of ?h (rg_left r) \<le> unat target"
    using evict_loop_ok [OF st] by blast
  let ?st' = "\<lparr>st_facts = rg_left r, st_bytes = st_bytes ?st - rg_bytes r, st_count = st_count ?st - rg_count r\<rparr>"
  let ?c = "c\<lparr>lc_index := ix, lc_storage := ?st'\<rparr>"
  have facts: "st_facts ?st = rg_taken r @ rg_left r" using r by (simp add: range_ok_def)
  have bytes: "unat (st_bytes ?st - rg_bytes r) = bytes_of ?h (rg_left r)" using range_bytes [OF st(1) r] .
  have "unat (st_count ?st - rg_count r) = length (rg_left r)"
    using r st(1) facts by (subst unat_sub_le) (simp_all add: range_ok_def storage_ok_def word_le_nat_alt)
  then have "storage_ok ?h ?st'" using st(1) bytes facts by (simp add: storage_ok_def)
  moreover have "st_bytes ?st - rg_bytes r \<le> opt_capacity opts"
    using inv bytes st(1) facts by (simp add: word_le_nat_alt storage_ok_def bytes_of_append)
  ultimately have "cache_inv opts fs (set (rg_taken r) \<union> X) ?c"
    using inv r facts st(1) assms(2)
    by (auto simp: cache_inv_def range_ok_def touched_ok_def no_hits_def storage_ok_def)
  moreover have "ix_ids ix i = None" if "ix_ids (lc_index c) i = None" for i
  proof -
    have "a \<notin> set (rg_left r) \<or> fact_id (the (?h a)) \<noteq> i" for a
      using inv that facts by (auto simp: ids_ok_def) (metis Un_iff option.distinct(1))
    then show ?thesis using r by (auto simp: range_ok_def ids_ok_def) (metis not_None_eq)
  qed
  moreover have "evict target c dead = ok (?c, dead @ rg_taken r)"
    by (simp add: evict_def loop Storage_splice_to_def)
  moreover have "distinct (rg_taken r)" "set (rg_taken r) \<inter> X = {}"
    using inv facts by (auto simp: storage_ok_def)
  moreover have "no_hits ?c" using assms(2) by (simp add: no_hits_def)
  ultimately show ?thesis
    using that [of ?c "rg_taken r"] small bytes by (simp add: word_le_nat_alt)
qed

section \<open>Allocation\<close>

lemma bytes_of_cong: "(\<And>a. a \<in> set as \<Longrightarrow> h a = h' a) \<Longrightarrow> bytes_of h as = bytes_of h' as"
  unfolding bytes_of_def by (metis (mono_tags, lifting) map_eq_conv)

lemma ids_ok_cong: "(\<And>a. a \<in> A \<Longrightarrow> h a = h' a) \<Longrightarrow> ids_ok h A ix = ids_ok h' A ix"
  by (simp add: ids_ok_def cong: conj_cong)

lemma keys_ok_cong: "(\<And>a. a \<in> A \<Longrightarrow> h a = h' a) \<Longrightarrow> keys_ok h A ix = keys_ok h' A ix"
  by (simp add: keys_ok_def cong: conj_cong)

text \<open>Changing the heap outside the storage keeps the invariant.\<close>

lemma cache_inv_heap:
  assumes "cache_inv opts fs X c" and same: "\<And>a. a \<in> set (st_facts (lc_storage c)) \<Longrightarrow> h a = lc_heap c a"
    and "dom h = set (st_facts (lc_storage c)) \<union> Y" "set (st_facts (lc_storage c)) \<inter> Y = {}" "\<forall>a\<in>dom h. a < n"
  shows "cache_inv opts fs Y (c\<lparr>lc_heap := h, lc_next := n\<rparr>)"
proof -
  let ?A = "set (st_facts (lc_storage c))"
  note inv = cache_invD [OF assms(1)]
  have "storage_ok h (lc_storage c)"
    using inv(1) bytes_of_cong [of "st_facts (lc_storage c)" h "lc_heap c"] same by (simp add: storage_ok_def)
  moreover have "ids_ok h ?A (lc_index c)" "keys_ok h ?A (lc_index c)"
    using inv(3,4) ids_ok_cong [of ?A h "lc_heap c"] keys_ok_cong [of ?A h "lc_heap c"] same by simp_all
  moreover have "\<forall>a\<in>?A. agrees fs (the (h a))" using assms(1) same by (simp add: cache_inv_def)
  ultimately show ?thesis using assms by (simp add: cache_inv_def)
qed

lemma create_ok:
  assumes "cache_inv opts fs X c"
  obtains a c' where "create r tag c = (a, c')" "cache_inv opts fs (insert a X) c'" "a \<notin> X"
    "lc_heap c' a = Some (Fact_create r tag)" "lc_stats c' = lc_stats c" "lc_storage c' = lc_storage c"
    "lc_index c' = lc_index c"
proof -
  let ?n = "lc_next c"
  note dom = cache_invD(8) [OF assms]
  have n: "?n \<notin> dom (lc_heap c)" using cache_invD(9) [OF assms] by blast
  then have nX: "?n \<notin> X" and nA: "?n \<notin> set (st_facts (lc_storage c))" using dom by blast+
  have lt: "\<forall>a\<in>dom (lc_heap c). a < Suc ?n" using cache_invD(9) [OF assms] by (auto simp: less_Suc_eq)
  let ?c = "c\<lparr>lc_heap := (lc_heap c)(?n \<mapsto> Fact_create r tag), lc_next := Suc ?n\<rparr>"
  have "cache_inv opts fs (insert ?n X) ?c"
  proof (rule cache_inv_heap [OF assms])
    show "dom ((lc_heap c)(?n \<mapsto> Fact_create r tag)) = set (st_facts (lc_storage c)) \<union> insert ?n X"
      by (simp add: dom)
    show "\<forall>a\<in>dom ((lc_heap c)(?n \<mapsto> Fact_create r tag)). a < Suc ?n" using lt by simp
    show "set (st_facts (lc_storage c)) \<inter> insert ?n X = {}" using nA cache_invD(5) [OF assms] by simp
    show "((lc_heap c)(?n \<mapsto> Fact_create r tag)) a = lc_heap c a" if "a \<in> set (st_facts (lc_storage c))" for a
      using that nA by auto
  qed
  then show ?thesis using nX by (intro that [of ?n ?c]) (simp_all add: create_def)
qed

lemma destroy_ok:
  assumes "cache_inv opts fs (insert a X) c" "a \<notin> X"
  shows "a \<in> dom (lc_heap c)" "cache_inv opts fs X (c\<lparr>lc_heap := (lc_heap c)(a := None)\<rparr>)"
proof -
  show "a \<in> dom (lc_heap c)" using assms(1) by (auto simp: cache_inv_def)
  have "cache_inv opts fs X (c\<lparr>lc_heap := (lc_heap c)(a := None), lc_next := lc_next c\<rparr>)"
    using assms by (intro cache_inv_heap [OF assms(1)]) (auto simp: cache_inv_def)
  then show "cache_inv opts fs X (c\<lparr>lc_heap := (lc_heap c)(a := None)\<rparr>)" by simp
qed

lemma destroy_all_ok:
  assumes "cache_inv opts fs (set ds \<union> X) c" "distinct ds" "set ds \<inter> X = {}"
  shows "\<exists>c'. destroy_all ds c = ok c' \<and> cache_inv opts fs X c' \<and> lc_storage c' = lc_storage c \<and>
    lc_stats c' = lc_stats c \<and> lc_index c' = lc_index c"
  using assms
proof (induction ds arbitrary: c)
  case (Cons a ds)
  have "cache_inv opts fs (insert a (set ds \<union> X)) c" "a \<notin> set ds \<union> X" using Cons.prems by auto
  note d = destroy_ok [OF this]
  then show ?case using Cons.IH [OF d(2)] Cons.prems(2,3) by auto
qed auto

section \<open>Insertion\<close>

lemma keys_absent:
  assumes "facts_ok fs" "cache_inv opts fs X c" "agrees fs f" "fact_tag f \<noteq> 0"
    and "ix_ids (lc_index c) (fact_id f) = None"
  shows "ix_keys (lc_index c) (fact_type f, Fact_key f) = None"
proof (rule ccontr)
  assume "\<not> ?thesis"
  then obtain b where "ix_keys (lc_index c) (fact_type f, Fact_key f) = Some b" by auto
  then have b: "b \<in> set (st_facts (lc_storage c))" "fact_tag (the (lc_heap c b)) \<noteq> 0"
    "fact_type (the (lc_heap c b)) = fact_type f" "Fact_key (the (lc_heap c b)) = Fact_key f"
    using cache_invD(4) [OF assms(2)] by (auto simp: keys_ok_def)
  then obtain x where x: "x \<in> set fs" "a_id x = fact_id (the (lc_heap c b))" "a_type x = fact_type f" "a_key x = Fact_key f"
    using assms(2) by (auto simp: cache_inv_def agrees_def)
  obtain y where y: "y \<in> set fs" "a_id y = fact_id f" "a_type y = fact_type f" "a_key y = Fact_key f"
    using assms(3,4) by (auto simp: agrees_def)
  have "x = y" using facts_ok_key_inj [OF assms(1)] x y by metis
  then have "ix_ids (lc_index c) (fact_id f) = Some b"
    using cache_invD(3) [OF assms(2)] b(1) x(2) y(2) by (simp add: ids_ok_def)
  then show False using assms(5) by simp
qed

lemma add_owned_ok:
  assumes "facts_ok fs" "cache_inv opts fs (insert a X) c" "a \<notin> X" "agrees fs (the (lc_heap c a))"
    and "ix_ids (lc_index c) (fact_id (the (lc_heap c a))) = None"
    and "unat (st_bytes (lc_storage c)) + unat (Fact_size (the (lc_heap c a))) \<le> unat (opt_capacity opts)"
  obtains c' where "add_owned a c = ok c'" "cache_inv opts fs X c'" "lc_stats c' = lc_stats c"
proof -
  let ?h = "lc_heap c" and ?f = "the (lc_heap c a)" and ?A = "set (st_facts (lc_storage c))"
  note inv = cache_invD [OF assms(2)]
  have a: "a \<in> dom ?h" "a \<notin> ?A" using assms(2) by (auto simp: cache_inv_def)
  let ?st = "\<lparr>st_facts = st_facts (lc_storage c) @ [a], st_bytes = st_bytes (lc_storage c) + Fact_size ?f,
    st_count = st_count (lc_storage c) + 1\<rparr>"
  let ?ix = "\<lparr>ix_ids = (ix_ids (lc_index c))(fact_id ?f \<mapsto> a),
    ix_keys = (if fact_tag ?f \<noteq> 0 then (ix_keys (lc_index c))((fact_type ?f, Fact_key ?f) \<mapsto> a) else ix_keys (lc_index c))\<rparr>"
  have none: "fact_tag ?f \<noteq> 0 \<Longrightarrow> ix_keys (lc_index c) (fact_type ?f, Fact_key ?f) = None"
    using keys_absent [OF assms(1,2,4) _ assms(5)] .
  have sum: "unat (st_bytes (lc_storage c) + Fact_size ?f) = unat (st_bytes (lc_storage c)) + unat (Fact_size ?f)"
    using assms(6) unat_lt_64 [of "opt_capacity opts"] by (simp add: unat_word_ariths)
  have "length (st_facts (lc_storage c)) + 40 \<le> unat (opt_capacity opts)"
    using assms(6) inv(1) length_le_bytes [of "st_facts (lc_storage c)" ?h] Fact_size_pos [of ?f] by (simp add: storage_ok_def)
  then have "storage_ok ?h ?st"
    using inv(1) sum a unat_lt_64 [of "opt_capacity opts"]
    by (simp add: storage_ok_def bytes_of_append bytes_of_def unat_word_ariths)
  moreover have "ids_ok ?h (insert a ?A) ?ix" using inv(3) a(2) assms(5)
    by (auto simp: ids_ok_def) (metis option.distinct(1))
  moreover have "keys_ok ?h (insert a ?A) ?ix" using inv(4) a(2) none
    by (auto simp: keys_ok_def) (metis option.distinct(1))
  ultimately have "cache_inv opts fs X (c\<lparr>lc_storage := ?st, lc_index := ?ix\<rparr>)"
    using assms(2,3,4,6) sum a by (auto simp: cache_inv_def touched_ok_def word_le_nat_alt)
  moreover have "add_owned a c = ok (c\<lparr>lc_storage := ?st, lc_index := ?ix\<rparr>)"
    using a(1) assms(5) none by (simp add: add_owned_def Storage_push_back_def index_add_def Let_def)
  ultimately show ?thesis using that by simp
qed

text \<open>
  The target of an eviction leaves room for the fact, and sums of two sizes up to the capacity do not wrap.
\<close>

definition shrunk_ok :: "(u64 \<Rightarrow> u64 \<Rightarrow> u64) \<Rightarrow> CacheOptions \<Rightarrow> bool" where
  "shrunk_ok shrunk opts \<longleftrightarrow> unat (opt_capacity opts) < 2 ^ 63 \<and>
     (\<forall>sz \<le> opt_capacity opts. unat (shrunk (opt_capacity opts) sz) + unat sz \<le> unat (opt_capacity opts))"

lemma fits_iff:
  assumes "unat cap < 2 ^ 63" "b \<le> cap" "sz \<le> (cap :: u64)"
  shows "cap < b + sz \<longleftrightarrow> unat cap < unat b + unat sz"
  using assms by (simp add: word_less_nat_alt word_le_nat_alt unat_word_ariths)

text \<open>The steps of making room move facts from the storage to those about to be freed.\<close>

definition freed :: "CacheOptions \<Rightarrow> afact list \<Rightarrow> addr set \<Rightarrow> LookupCache \<Rightarrow> LookupCache \<Rightarrow> addr list \<Rightarrow> bool" where
  "freed opts fs Y c c' ds \<longleftrightarrow> cache_inv opts fs (set ds \<union> Y) c' \<and> distinct ds \<and> set ds \<inter> Y = {} \<and>
     lc_heap c' = lc_heap c \<and> lc_stats c' FactBytes = lc_stats c FactBytes \<and>
     lc_stats c' FactCount = lc_stats c FactCount"

lemma freed_refl: "cache_inv opts fs Y c \<Longrightarrow> freed opts fs Y c c []"
  by (simp add: freed_def)

lemma freed_trans:
  "freed opts fs Y c c' ds \<Longrightarrow> freed opts fs (set ds \<union> Y) c' c'' es \<Longrightarrow> freed opts fs Y c c'' (ds @ es)"
  by (auto simp: freed_def Un_assoc Un_left_commute)

lemma drain_freed:
  assumes "cache_inv opts fs Y c"
  obtains c' where "drain_touched c = ok c'" "freed opts fs Y c c' []" "no_hits c'" "lc_index c' = lc_index c"
proof -
  obtain st where "drain_touched c = ok (c\<lparr>lc_storage := st, lc_touched := map (\<lambda>_. []) (lc_touched c)\<rparr>)"
      "cache_inv opts fs Y (c\<lparr>lc_storage := st, lc_touched := map (\<lambda>_. []) (lc_touched c)\<rparr>)"
    by (rule drain_touched_ok [OF assms])
  then show ?thesis
    using that [of "c\<lparr>lc_storage := st, lc_touched := map (\<lambda>_. []) (lc_touched c)\<rparr>"]
    by (simp add: freed_def no_hits_def)
qed

lemma replace_freed:
  assumes "cache_inv opts fs Y c" "no_hits c" and ex: "map_option fst ex = ix_ids (lc_index c) i"
  obtains c' ds where "(case ex of None \<Rightarrow> ok (c, dead) | Some (a, _) \<Rightarrow> replace_existing tag a c dead) = ok (c', dead @ ds)"
    "freed opts fs Y c c' ds" "no_hits c'" "ix_ids (lc_index c') i = None"
proof (cases ex)
  case None
  then show ?thesis
    using that [of c "[]"] freed_refl [OF assms(1)] assms(2) ex by simp
next
  case (Some p)
  then obtain a t where p: "ex = Some (a, t)" "ix_ids (lc_index c) i = Some a" using ex by (cases p) auto
  then have a: "a \<in> set (st_facts (lc_storage c))" "fact_id (the (lc_heap c a)) = i"
    using cache_invD(3) [OF assms(1)] by (simp_all add: ids_ok_def)
  obtain c' where "replace_existing tag a c dead = ok (c', dead @ [a])" "cache_inv opts fs (insert a Y) c'"
      "no_hits c'" "lc_heap c' = lc_heap c" "ix_ids (lc_index c') (fact_id (the (lc_heap c a))) = None"
      "lc_stats c' FactBytes = lc_stats c FactBytes" "lc_stats c' FactCount = lc_stats c FactCount"
    by (rule replace_existing_ok [OF assms(1,2) a(1)])
  moreover have "a \<notin> Y" using a(1) cache_invD(5) [OF assms(1)] by blast
  ultimately show ?thesis using that [of c' "[a]"] p(1) a(2) by (simp add: freed_def)
qed

lemma evict_freed:
  assumes "cache_inv opts fs Y c" "no_hits c" "shrunk_ok shrunk opts" "sz \<le> opt_capacity opts"
    and "ix_ids (lc_index c) i = None"
  obtains c' ds where "(if opt_capacity opts < st_bytes (lc_storage c) + sz
      then evict (shrunk (opt_capacity opts) sz) c dead else ok (c, dead)) = ok (c', dead @ ds)"
    "freed opts fs Y c c' ds" "ix_ids (lc_index c') i = None"
    "unat (st_bytes (lc_storage c')) + unat sz \<le> unat (opt_capacity opts)"
proof (cases "opt_capacity opts < st_bytes (lc_storage c) + sz")
  case True
  obtain c' ds where "evict (shrunk (opt_capacity opts) sz) c dead = ok (c', dead @ ds)"
      "cache_inv opts fs (set ds \<union> Y) c'" "distinct ds" "set ds \<inter> Y = {}" "lc_heap c' = lc_heap c"
      "st_bytes (lc_storage c') \<le> shrunk (opt_capacity opts) sz" "lc_stats c' = lc_stats c" "ix_ids (lc_index c') i = None"
    by (rule evict_ok [OF assms(1,2)]) (use assms(5) in blast)
  moreover have "unat (shrunk (opt_capacity opts) sz) + unat sz \<le> unat (opt_capacity opts)"
    using assms(3,4) by (simp add: shrunk_ok_def)
  ultimately show ?thesis using that [of c' ds] True by (simp add: freed_def word_le_nat_alt)
next
  case False
  have "unat (opt_capacity opts) < 2 ^ 63" using assms(3) by (simp add: shrunk_ok_def)
  then have "unat (st_bytes (lc_storage c)) + unat sz \<le> unat (opt_capacity opts)"
    using False fits_iff [OF _ cache_invD(7) [OF assms(1)] assms(4)] by (simp add: not_less)
  then show ?thesis using that [of c "[]"] False freed_refl [OF assms(1)] assms(5) by simp
qed

lemma make_room_ok:
  assumes "cache_inv opts fs Y c" "shrunk_ok shrunk opts" "sz \<le> opt_capacity opts"
    and ex: "map_option fst ex = ix_ids (lc_index c) i"
  obtains c' ds where "make_room shrunk sz tag ex c dead = ok (c', dead @ ds)" "freed opts fs Y c c' ds"
    "ix_ids (lc_index c') i = None" "unat (st_bytes (lc_storage c')) + unat sz \<le> unat (opt_capacity opts)"
proof -
  have opts: "lc_options c = opts" using cache_invD(6) [OF assms(1)] .
  show ?thesis
  proof (cases "\<not> Option.is_none ex \<or> opt_capacity opts < st_bytes (lc_storage c) + sz")
    case False
    then have "ix_ids (lc_index c) i = None" using ex by (cases ex) simp_all
    moreover have "unat (opt_capacity opts) < 2 ^ 63" using assms(2) by (simp add: shrunk_ok_def)
    then have "unat (st_bytes (lc_storage c)) + unat sz \<le> unat (opt_capacity opts)"
      using False fits_iff [OF _ cache_invD(7) [OF assms(1)] assms(3)] by (simp add: not_less)
    ultimately show ?thesis
      using that [of c "[]"] False freed_refl [OF assms(1)] by (simp add: make_room_def opts)
  next
    case True
    obtain c1 where c1: "drain_touched c = ok c1" "freed opts fs Y c c1 []" "no_hits c1" "lc_index c1 = lc_index c"
      by (rule drain_freed [OF assms(1)])
    have i1: "cache_inv opts fs Y c1" using c1(2) by (simp add: freed_def)
    obtain c2 es where c2: "(case ex of None \<Rightarrow> ok (c1, dead) | Some (a, _) \<Rightarrow> replace_existing tag a c1 dead)
        = ok (c2, dead @ es)" "freed opts fs Y c1 c2 es" "no_hits c2" "ix_ids (lc_index c2) i = None"
      by (rule replace_freed [OF i1 c1(3), of ex i]) (use ex c1(4) in auto)
    have i2: "cache_inv opts fs (set es \<union> Y) c2" using c2(2) by (simp add: freed_def)
    obtain c3 ds where c3: "(if opt_capacity opts < st_bytes (lc_storage c2) + sz
        then evict (shrunk (opt_capacity opts) sz) c2 (dead @ es) else ok (c2, dead @ es)) = ok (c3, (dead @ es) @ ds)"
        "freed opts fs (set es \<union> Y) c2 c3 ds" "ix_ids (lc_index c3) i = None"
        "unat (st_bytes (lc_storage c3)) + unat sz \<le> unat (opt_capacity opts)"
      by (rule evict_freed [OF i2 c2(3) assms(2,3) c2(4)])
    have "make_room shrunk sz tag ex c dead = ok (c3, dead @ es @ ds)"
      using True c2(1) c3(1) by (simp add: make_room_def Let_def opts c1(1))
    moreover have "freed opts fs Y c c3 (es @ ds)"
      using freed_trans [OF freed_trans [OF c1(2), of c2 es] , of c3 ds] c2(2) c3(2) by simp
    ultimately show ?thesis using that [of c3 "es @ ds"] c3(3,4) by simp
  qed
qed

lemma insertOne_ok:
  assumes "facts_ok fs" "cache_inv opts fs (insert a X) c" "a \<notin> X" "shrunk_ok shrunk opts"
    and "agrees fs (the (lc_heap c a))"
  shows "\<exists>c' ds. insertOne shrunk a c dead = ok (c', dead @ ds) \<and> cache_inv opts fs (set ds \<union> X) c' \<and>
    distinct ds \<and> set ds \<inter> X = {} \<and> lc_stats c' FactBytes = lc_stats c FactBytes \<and>
    lc_stats c' FactCount = lc_stats c FactCount"
proof -
  let ?f = "the (lc_heap c a)"
  have a: "a \<in> dom (lc_heap c)" and opts: "lc_options c = opts"
    using destroy_ok(1) [OF assms(2,3)] cache_invD(6) [OF assms(2)] by simp_all
  obtain c0 where c0: "destroy_all [a] c = ok c0" "cache_inv opts fs X c0" "lc_stats c0 = lc_stats c"
    using destroy_all_ok [of opts fs "[a]" X c] assms(2,3) by auto
  define ex where "ex = map_option (\<lambda>b. (b, fact_tag (the (lc_heap c b)))) (ix_ids (lc_index c) (fact_id ?f))"
  have ex: "(case ix_ids (lc_index c) (fact_id ?f) of None \<Rightarrow> ok None
      | Some b \<Rightarrow> rbind (deref (lc_heap c) b) (\<lambda>g. ok (Some (b, fact_tag g)))) = ok ex"
  proof (cases "ix_ids (lc_index c) (fact_id ?f)")
    case (Some b)
    then have "b \<in> dom (lc_heap c)" using cache_invD(2,3) [OF assms(2)] by (auto simp: ids_ok_def)
    then show ?thesis using Some by (simp add: ex_def)
  qed (simp add: ex_def)
  show ?thesis
  proof (cases "opt_capacity opts < Fact_size ?f \<or> (case ex of None \<Rightarrow> False | Some (b, t) \<Rightarrow> fact_tag ?f \<le> t)")
    case True
    then have "insertOne shrunk a c dead = ok (c0, dead @ [])"
      using a ex by (auto simp: insertOne_def Let_def opts c0(1) simp del: destroy_all.simps)
    then show ?thesis using c0 by (intro exI [of _ c0] exI [of _ "[]"]) simp
  next
    case False
    then have sz: "Fact_size ?f \<le> opt_capacity opts" by auto
    obtain c1 ds where c1: "make_room shrunk (Fact_size ?f) (fact_tag ?f) ex c dead = ok (c1, dead @ ds)"
        "freed opts fs (insert a X) c c1 ds" "ix_ids (lc_index c1) (fact_id ?f) = None"
        "unat (st_bytes (lc_storage c1)) + unat (Fact_size ?f) \<le> unat (opt_capacity opts)"
      by (rule make_room_ok [OF assms(2,4) sz, of ex]) (simp_all add: ex_def option.map_comp comp_def option.map_ident)
    then have h: "lc_heap c1 = lc_heap c" and ds: "distinct ds" "set ds \<inter> insert a X = {}"
      and i1: "cache_inv opts fs (insert a (set ds \<union> X)) c1" by (simp_all add: freed_def)
    have an: "a \<notin> set ds \<union> X" using ds(2) assms(3) by auto
    obtain c2 where c2: "add_owned a c1 = ok c2" "cache_inv opts fs (set ds \<union> X) c2" "lc_stats c2 = lc_stats c1"
      by (rule add_owned_ok [OF assms(1) i1 an]) (use assms(5) c1(3,4) h in simp_all)
    have "insertOne shrunk a c dead = ok (c2, dead @ ds)"
      using False a ex c1(1) c2(1) by (auto simp: insertOne_def Let_def opts)
    then show ?thesis
      using c2(2,3) ds c1(2) by (intro exI [of _ c2] exI [of _ ds]) (simp add: freed_def)
  qed
qed

section \<open>The operations of the cache\<close>

definition stats_ok :: "LookupCache \<Rightarrow> bool" where
  "stats_ok c \<longleftrightarrow> lc_stats c FactBytes = st_bytes (lc_storage c) \<and> lc_stats c FactCount = st_count (lc_storage c)"

text \<open>Between operations every fact on the heap is in the storage.\<close>

definition cache_ok :: "CacheOptions \<Rightarrow> afact list \<Rightarrow> LookupCache \<Rightarrow> bool" where
  "cache_ok opts fs c \<longleftrightarrow> cache_inv opts fs {} c \<and> stats_ok c"

lemma LookupCache_new_ok:
  "v FactBytes = 0 \<Longrightarrow> v FactCount = 0 \<Longrightarrow> cache_ok opts fs (LookupCache_new opts v)"
  by (auto simp: cache_ok_def cache_inv_def stats_ok_def LookupCache_new_def storage_ok_def bytes_of_def
      ids_ok_def keys_ok_def touched_ok_def)

lemma bump_inv [simp]: "cache_inv opts fs X (bump s c) = cache_inv opts fs X c"
  by (simp add: cache_inv_def bump_def)

lemma bump_stats_ok: "s \<noteq> FactBytes \<Longrightarrow> s \<noteq> FactCount \<Longrightarrow> stats_ok (bump s c) = stats_ok c"
  by (auto simp: stats_ok_def bump_def)

lemma bump_ok: "s \<noteq> FactBytes \<Longrightarrow> s \<noteq> FactCount \<Longrightarrow> cache_ok opts fs (bump s c) = cache_ok opts fs c"
  by (simp add: cache_ok_def bump_stats_ok)

lemma performUpdate_ok:
  assumes "f c = ok (c', x)" "stats_ok c" "lc_stats c' FactBytes = lc_stats c FactBytes"
    "lc_stats c' FactCount = lc_stats c FactCount"
  shows "\<exists>v. performUpdate f c = ok (c'\<lparr>lc_stats := v\<rparr>, x) \<and> stats_ok (c'\<lparr>lc_stats := v\<rparr>)"
  using assms by (simp add: performUpdate_def Let_def stats_ok_def)
    (intro exI [of _ "(lc_stats c')(FactBytes := st_bytes (lc_storage c'), FactCount := st_count (lc_storage c'))"], simp)

lemma cache_inv_stats [simp]: "cache_inv opts fs X (c\<lparr>lc_stats := v\<rparr>) = cache_inv opts fs X c"
  by (simp add: cache_inv_def)

lemma cache_insert_ok:
  assumes "facts_ok fs" "cache_inv opts fs {a} c" "stats_ok c" "shrunk_ok shrunk opts" "agrees fs (the (lc_heap c a))"
  obtains c' where "cache_insert shrunk a c = ok c'" "cache_ok opts fs c'"
proof -
  obtain c1 ds where c1: "insertOne shrunk a c [] = ok (c1, ds)" "cache_inv opts fs (set ds) c1" "distinct ds"
      "lc_stats c1 FactBytes = lc_stats c FactBytes" "lc_stats c1 FactCount = lc_stats c FactCount"
    using insertOne_ok [of fs opts a "{}" c shrunk "[]"] assms by auto
  obtain v where v: "performUpdate (\<lambda>c. insertOne shrunk a c []) c = ok (c1\<lparr>lc_stats := v\<rparr>, ds)"
      "stats_ok (c1\<lparr>lc_stats := v\<rparr>)"
    using performUpdate_ok [of "\<lambda>c. insertOne shrunk a c []", OF c1(1) assms(3) c1(4,5)] by blast
  obtain c2 where "destroy_all ds (c1\<lparr>lc_stats := v\<rparr>) = ok c2" "cache_inv opts fs {} c2"
      "lc_storage c2 = lc_storage c1" "lc_stats c2 = v"
    using destroy_all_ok [of opts fs ds "{}" "c1\<lparr>lc_stats := v\<rparr>"] c1(2,3) by auto
  then show ?thesis
    using that [of c2] v by (simp add: cache_insert_def cache_ok_def stats_ok_def)
qed

text \<open>A bulk store inserts facts of the database.\<close>

lemma Inserter_insert_ok:
  assumes "facts_ok fs" "cache_inv opts fs {} c" "shrunk_ok shrunk opts" "agrees fs (Fact_create r 2)"
  shows "\<exists>c'. Inserter_insert shrunk r c = ok c' \<and> cache_inv opts fs {} c' \<and>
    lc_stats c' FactBytes = lc_stats c FactBytes \<and> lc_stats c' FactCount = lc_stats c FactCount"
proof -
  obtain a c0 where c0: "create r 2 c = (a, c0)" "cache_inv opts fs {a} c0" "lc_heap c0 a = Some (Fact_create r 2)"
      "lc_stats c0 = lc_stats c"
    by (rule create_ok [OF assms(2)])
  obtain c1 ds where c1: "insertOne shrunk a c0 [] = ok (c1, ds)" "cache_inv opts fs (set ds) c1" "distinct ds"
      "lc_stats c1 FactBytes = lc_stats c0 FactBytes" "lc_stats c1 FactCount = lc_stats c0 FactCount"
    using insertOne_ok [of fs opts a "{}" c0 shrunk "[]"] assms c0 by auto
  obtain c2 where "destroy_all ds c1 = ok c2" "cache_inv opts fs {} c2" "lc_stats c2 = lc_stats c1"
    using destroy_all_ok [of opts fs ds "{}" c1] c1(2,3) by auto
  then show ?thesis using c0(1,4) c1 by (simp add: Inserter_insert_def)
qed

lemma withBulkStore_ok:
  assumes "facts_ok fs" "cache_ok opts fs c" "shrunk_ok shrunk opts" "\<forall>r\<in>set rs. agrees fs (Fact_create r 2)"
  shows "\<exists>c'. withBulkStore shrunk rs c = ok c' \<and> cache_ok opts fs c'"
proof -
  have "cache_inv opts fs {} c" using assms(2) by (simp add: cache_ok_def)
  then have "\<exists>c'. Inserter_insert_all shrunk rs c = ok c' \<and> cache_inv opts fs {} c' \<and>
    lc_stats c' FactBytes = lc_stats c FactBytes \<and> lc_stats c' FactCount = lc_stats c FactCount"
    using assms(4)
  proof (induction rs arbitrary: c)
    case (Cons r rs)
    then obtain c1 where "Inserter_insert shrunk r c = ok c1" "cache_inv opts fs {} c1"
        "lc_stats c1 FactBytes = lc_stats c FactBytes" "lc_stats c1 FactCount = lc_stats c FactCount"
      using Inserter_insert_ok [OF assms(1) Cons.prems(1) assms(3), of r] by auto
    then show ?case using Cons.IH [of c1] Cons.prems(2) by auto
  qed auto
  then obtain c1 where c1: "Inserter_insert_all shrunk rs c = ok c1" "cache_inv opts fs {} c1"
      "lc_stats c1 FactBytes = lc_stats c FactBytes" "lc_stats c1 FactCount = lc_stats c FactCount" by blast
  let ?f = "\<lambda>c. rbind (Inserter_insert_all shrunk rs c) (\<lambda>c. ok (c, ()))"
  have "?f c = ok (c1, ())" by (simp add: c1(1))
  then obtain v where "performUpdate ?f c = ok (c1\<lparr>lc_stats := v\<rparr>, ())" "stats_ok (c1\<lparr>lc_stats := v\<rparr>)"
    using performUpdate_ok [of ?f c c1 "()"] assms(2) c1(3,4) by (auto simp: cache_ok_def)
  then show ?thesis using c1(2) by (simp add: withBulkStore_def cache_ok_def)
qed

section \<open>Lookups through the cache\<close>

definition env_ok :: "CacheOptions \<Rightarrow> TouchEnv \<Rightarrow> bool" where
  "env_ok opts env \<longleftrightarrow> opt_shards opts = 0 \<or> te_shard env < opt_shards opts"

lemma touch_ok:
  assumes "cache_ok opts fs c" "a \<in> set (st_facts (lc_storage c))" "env_ok opts env"
  obtains c' where "touch env a c = ok c'" "cache_ok opts fs c'" "lc_heap c' = lc_heap c"
proof -
  let ?t = "lc_touched c ! te_shard env"
  have inv: "cache_inv opts fs {} c" and st: "stats_ok c" using assms(1) by (simp_all add: cache_ok_def)
  have ts: "touched_ok opts (set (st_facts (lc_storage c))) (lc_touched c)" and o: "lc_options c = opts"
    using inv by (simp_all add: cache_inv_def)
  show ?thesis
  proof (cases "opt_shards opts = 0")
    case True
    obtain s where s: "Storage_touch a (lc_storage c) = ok s" "reordered (lc_storage c) s"
      by (rule Storage_touch_ok [OF assms(2)])
    have "cache_inv opts fs {} (c\<lparr>lc_storage := s\<rparr>)" using cache_inv_reordered [OF inv s(2) ts] by simp
    then show ?thesis
      using that [of "c\<lparr>lc_storage := s\<rparr>"] True s st
      by (simp add: touch_def o cache_ok_def stats_ok_def reordered_def)
  next
    case False
    then have sh: "te_shard env < length (lc_touched c)" using assms(3) ts by (simp add: env_ok_def touched_ok_def)
    then have t: "set ?t \<subseteq> set (st_facts (lc_storage c))" using ts by (simp add: touched_ok_def)
    obtain s where s: "drain ?t (lc_storage c) = ok s" "reordered (lc_storage c) s" using drain_ok [OF t] by blast
    have upd: "touched_ok opts (set (st_facts (lc_storage c))) ((lc_touched c)[te_shard env := u])"
      if "set u \<subseteq> set (st_facts (lc_storage c))" for u
    proof -
      have "set ((lc_touched c)[te_shard env := u]) \<subseteq> insert u (set (lc_touched c))"
        by (rule set_update_subset_insert)
      then show ?thesis using ts that unfolding touched_ok_def by (metis insertE length_list_update subsetD)
    qed
    have "cache_inv opts fs {} (c\<lparr>lc_touched := (lc_touched c)[te_shard env := ?t @ [a]]\<rparr>)"
      using cache_inv_reordered [OF inv _ upd [of "?t @ [a]"], of "lc_storage c"] t assms(2) by (simp add: reordered_def)
    moreover have "cache_inv opts fs {} (c\<lparr>lc_storage := s, lc_touched := (lc_touched c)[te_shard env := []]\<rparr>)"
      using cache_inv_reordered [OF inv s(2) upd [of "[]"]] by simp
    moreover have "touch env a c =
      (if length ?t < opt_touched_buffer_size opts then ok (c\<lparr>lc_touched := (lc_touched c)[te_shard env := ?t @ [a]]\<rparr>)
       else if te_trylock env then ok (c\<lparr>lc_storage := s, lc_touched := (lc_touched c)[te_shard env := []]\<rparr>) else ok c)"
      using False sh s(1) by (simp add: touch_def o Let_def)
    moreover have "stats_ok (c\<lparr>lc_touched := ts\<rparr>)" "stats_ok (c\<lparr>lc_storage := s, lc_touched := ts\<rparr>)" for ts
      using st s(2) by (simp_all add: stats_ok_def reordered_def)
    ultimately show ?thesis
      using that assms(1) unfolding cache_ok_def
      by (cases "length ?t < opt_touched_buffer_size opts"; cases "te_trylock env") force+
  qed
qed

definition clauses_ok :: "Lookup \<Rightarrow> bool" where
  "clauses_ok L \<longleftrightarrow> (\<forall>i t c. factById L i = Some (t, c) \<longrightarrow> Clause_ok c \<and> key_size c \<le> MAX_KEY_SIZE)"

text \<open>A miss inserts the fact the base has found.\<close>

lemma miss_ok:
  assumes "facts_ok fs" "cache_ok opts fs c" "shrunk_ok shrunk opts" "agrees fs (Fact_create r tag)"
    "s \<noteq> FactBytes" "s \<noteq> FactCount"
  obtains a c1 c2 where "create r tag (bump s c) = (a, c1)" "lc_heap c1 a = Some (Fact_create r tag)"
    "cache_insert shrunk a c1 = ok c2" "cache_ok opts fs c2"
proof -
  have b: "cache_ok opts fs (bump s c)" using assms(2,5,6) bump_ok by blast
  then have "cache_inv opts fs {} (bump s c)" by (simp add: cache_ok_def)
  then obtain a c1 where c1: "create r tag (bump s c) = (a, c1)" "cache_inv opts fs {a} c1"
      "lc_heap c1 a = Some (Fact_create r tag)" "lc_stats c1 = lc_stats (bump s c)" "lc_storage c1 = lc_storage (bump s c)"
    by (rule create_ok)
  have "stats_ok c1" using b c1(4,5) by (simp add: cache_ok_def stats_ok_def)
  then obtain c2 where "cache_insert shrunk a c1 = ok c2" "cache_ok opts fs c2"
    using cache_insert_ok [OF assms(1) c1(2) _ assms(3)] assms(4) c1(3) by auto
  then show ?thesis using that c1 by blast
qed

context lookup_points
begin

lemma by_id: "a \<in> set fs \<Longrightarrow> facts_by_id fs (a_id a) = Some a"
  using facts_ok by (simp add: facts_by_id_Some)

lemma id_valid: "a \<in> set fs \<Longrightarrow> WordId_bool (a_id a)"
  using ids_bounded [of a] starting_valid by (auto simp: WordId_bool_iff)

lemma key_length:
  assumes "clauses_ok L" "a \<in> set fs"
  shows "length (a_key a) \<le> unat MAX_KEY_SIZE"
proof -
  obtain t c where c: "factById L (a_id a) = Some (t, c)" "Clause_key c = a_key a"
    using factById [of "a_id a"] by_id [OF assms(2)] by (auto simp: clause_view_def afact_view_def)
  then have "Clause_ok c" "key_size c \<le> MAX_KEY_SIZE" using assms(1) by (auto simp: clauses_ok_def)
  then show ?thesis using c(2) Clause_ok_bytes(2) [of c] by (simp add: word_le_nat_alt)
qed

lemma agrees_key:
  assumes "clauses_ok L" "a \<in> set fs"
  shows "agrees fs (Fact_create \<lparr>ref_id = a_id a, ref_type = a_type a, ref_clause = Clause_fromKey (a_key a)\<rparr> 1)"
proof -
  let ?r = "\<lparr>ref_id = a_id a, ref_type = a_type a, ref_clause = Clause_fromKey (a_key a)\<rparr>"
  have l: "length (a_key a) < 2 ^ 28" using key_length [OF assms] by (simp add: MAX_KEY_SIZE_def)
  then have "Clause_ok (Clause_fromKey (a_key a))" "key_size (Clause_fromKey (a_key a)) \<le> MAX_KEY_SIZE"
    by (simp_all add: Clause_ok_def Clause_fromKey_def MAX_KEY_SIZE_def word_le_nat_alt unat_of_nat)
  then have "Fact_key (Fact_create ?r 1) = Clause_key (Clause_fromKey (a_key a))"
    using Fact_create_view(1) [of ?r 1] by (simp add: Ref_key_def)
  then show ?thesis
    using assms(2) l by (auto simp: agrees_def Clause_key_def Clause_fromKey_def unat_of_nat)
qed

lemma agrees_type: "a \<in> set fs \<Longrightarrow> agrees fs (Fact_create \<lparr>ref_id = a_id a, ref_type = a_type a, ref_clause = cl\<rparr> 0)"
  by (auto simp: agrees_def)

lemma agrees_full:
  assumes "clauses_ok L" "factById L i = Some (t, cl)"
  shows "agrees fs (Fact_create \<lparr>ref_id = i, ref_type = t, ref_clause = cl\<rparr> 2)"
    "clause_view (t, Fact_clause (Fact_create \<lparr>ref_id = i, ref_type = t, ref_clause = cl\<rparr> 2)) = clause_view (t, cl)"
proof -
  let ?r = "\<lparr>ref_id = i, ref_type = t, ref_clause = cl\<rparr>"
  have c: "Clause_ok cl" "key_size cl \<le> MAX_KEY_SIZE" using assms by (auto simp: clauses_ok_def)
  obtain a where a: "facts_by_id fs i = Some a" "clause_view (t, cl) = afact_view a"
    using factById [of i] assms(2) by (cases "facts_by_id fs i") auto
  have v: "Fact_key (Fact_create ?r 2) = Clause_key cl" "Fact_value (Fact_create ?r 2) = Clause_value cl"
    using Fact_create_view(1,2) [of ?r 2] c by (simp_all add: Ref_key_def Ref_value_def)
  then show "agrees fs (Fact_create ?r 2)"
    using a facts_ok by (auto simp: agrees_def facts_by_id_Some clause_view_def afact_view_def)
  show "clause_view (t, Fact_clause (Fact_create ?r 2)) = clause_view (t, cl)"
    using v by (simp add: clause_view_def Fact_key_def Fact_value_def)
qed

lemma Anchor_idByKey_ok:
  assumes "clauses_ok L" "cache_ok opts fs c" "shrunk_ok shrunk opts" "env_ok opts env"
  shows "\<exists>c'. Anchor_idByKey shrunk L env t k c = ok (idByKey L t k, c') \<and> cache_ok opts fs c'"
proof (cases "ix_keys (lc_index c) (t, k)")
  case (Some a)
  have inv: "cache_inv opts fs {} c" using assms(2) by (simp add: cache_ok_def)
  let ?f = "the (lc_heap c a)"
  have a: "a \<in> set (st_facts (lc_storage c))" "fact_tag ?f \<noteq> 0" "fact_type ?f = t" "Fact_key ?f = k"
    using cache_invD(4) [OF inv] Some by (simp_all add: keys_ok_def)
  have d: "a \<in> dom (lc_heap c)" using a(1) cache_invD(2) [OF inv] by blast
  obtain x where x: "x \<in> set fs" "a_id x = fact_id ?f" "a_type x = t" "a_key x = k"
    using inv a by (auto simp: cache_inv_def agrees_def)
  then have "facts_by_key fs t k = Some x" using facts_ok by (simp add: facts_by_key_Some)
  then have i: "idByKey L t k = fact_id ?f" "WordId_bool (fact_id ?f)" using x(2) id_valid [OF x(1)] by (simp_all add: idByKey)
  obtain c1 where "touch env a c = ok c1" "cache_ok opts fs c1" by (rule touch_ok [OF assms(2) a(1) assms(4)])
  then show ?thesis using Some d i by (simp add: Anchor_idByKey_def bump_ok)
next
  case None
  show ?thesis
  proof (cases "facts_by_key fs t k")
    case absent: None
    then have "idByKey L t k = WordId_invalid" by (simp add: idByKey)
    then show ?thesis using None assms(2) by (simp add: Anchor_idByKey_def bump_ok WordId_bool_iff)
  next
    case (Some x)
    then have x: "x \<in> set fs" "a_type x = t" "a_key x = k" using facts_ok by (simp_all add: facts_by_key_Some)
    have i: "idByKey L t k = a_id x" using Some by (simp add: idByKey)
    note m = miss_ok [OF facts_ok assms(2,3) agrees_key [OF assms(1) x(1)], of IdByKey_misses]
    obtain a c1 c2 where "create \<lparr>ref_id = a_id x, ref_type = a_type x, ref_clause = Clause_fromKey (a_key x)\<rparr> 1
        (bump IdByKey_misses c) = (a, c1)" "cache_insert shrunk a c1 = ok c2" "cache_ok opts fs c2"
      by (rule m) simp_all
    then show ?thesis using None x i id_valid [OF x(1)] by (simp add: Anchor_idByKey_def WordId_bool_iff Let_def)
  qed
qed

lemma cached_fact:
  assumes "cache_inv opts fs X c" "ix_ids (lc_index c) i = Some a"
  obtains x where "a \<in> set (st_facts (lc_storage c))" "a \<in> dom (lc_heap c)" "facts_by_id fs i = Some x"
    "a_type x = fact_type (the (lc_heap c a))"
    "fact_tag (the (lc_heap c a)) = 2 \<longrightarrow> afact_view x = clause_view (fact_type (the (lc_heap c a)), Fact_clause (the (lc_heap c a)))"
proof -
  have a: "a \<in> set (st_facts (lc_storage c))" "fact_id (the (lc_heap c a)) = i"
    using cache_invD(3) [OF assms(1)] assms(2) by (simp_all add: ids_ok_def)
  then have "agrees fs (the (lc_heap c a))" using assms(1) by (simp add: cache_inv_def)
  then obtain x where "x \<in> set fs" "a_id x = i" "a_type x = fact_type (the (lc_heap c a))"
    "fact_tag (the (lc_heap c a)) = 2 \<longrightarrow> a_key x = Fact_key (the (lc_heap c a)) \<and> a_value x = Fact_value (the (lc_heap c a))"
    using a(2) by (force simp: agrees_def)
  then show ?thesis
    using that [of x] a(1) cache_invD(2) [OF assms(1)] facts_ok
    by (auto simp: facts_by_id_Some clause_view_def afact_view_def Fact_key_def Fact_value_def)
qed

lemma Anchor_typeById_ok:
  assumes "cache_ok opts fs c" "shrunk_ok shrunk opts" "env_ok opts env"
  shows "\<exists>c'. Anchor_typeById shrunk L env i c = ok (typeById L i, c') \<and> cache_ok opts fs c'"
proof -
  have inv: "cache_inv opts fs {} c" using assms(1) by (simp add: cache_ok_def)
  obtain p c1 where first: "(case ix_ids (lc_index c) i of None \<Rightarrow> ok (WordId_invalid, c)
      | Some a \<Rightarrow> rbind (deref (lc_heap c) a) (\<lambda>f. rbind (touch env a c) (\<lambda>c. ok (fact_type f, c)))) = ok (p, c1)"
      "cache_ok opts fs c1" "p = WordId_invalid \<or> p = typeById L i"
  proof (cases "ix_ids (lc_index c) i")
    case (Some a)
    obtain x where x: "a \<in> set (st_facts (lc_storage c))" "a \<in> dom (lc_heap c)" "facts_by_id fs i = Some x"
      "a_type x = fact_type (the (lc_heap c a))" by (rule cached_fact [OF inv Some])
    obtain c1 where "touch env a c = ok c1" "cache_ok opts fs c1" by (rule touch_ok [OF assms(1) x(1) assms(3)])
    then show ?thesis using that [of "a_type x" c1] Some x typeById [of i] by simp
  qed (use assms(1) that in simp)
  show ?thesis
  proof (cases "WordId_bool p \<or> \<not> WordId_bool (typeById L i)")
    case True
    then show ?thesis using first by (auto simp: Anchor_typeById_def bump_ok WordId_bool_iff Let_def)
  next
    case False
    then obtain x where x: "facts_by_id fs i = Some x" "typeById L i = a_type x"
      using typeById [of i] by (cases "facts_by_id fs i") (auto simp: WordId_bool_iff)
    then have m: "x \<in> set fs" "a_id x = i" using facts_ok by (simp_all add: facts_by_id_Some)
    note m' = miss_ok [OF facts_ok first(2) assms(2) agrees_type [OF m(1)], of TypeById_misses empty_clause]
    obtain a c2 c3 where "create \<lparr>ref_id = a_id x, ref_type = a_type x, ref_clause = empty_clause\<rparr> 0
        (bump TypeById_misses c1) = (a, c2)" "cache_insert shrunk a c2 = ok c3" "cache_ok opts fs c3"
      by (rule m') simp_all
    then show ?thesis using False x m first(1) by (auto simp: Anchor_typeById_def Let_def)
  qed
qed

lemma Anchor_factById_ok:
  assumes "clauses_ok L" "cache_ok opts fs c" "shrunk_ok shrunk opts" "env_ok opts env"
  shows "\<exists>x c'. Anchor_factById shrunk L env i c = ok (x, c') \<and> cache_ok opts fs c' \<and>
    map_option clause_view x = map_option clause_view (factById L i)"
proof -
  have inv: "cache_inv opts fs {} c" using assms(2) by (simp add: cache_ok_def)
  obtain p c1 where first: "(case ix_ids (lc_index c) i of None \<Rightarrow> ok (None, c)
      | Some a \<Rightarrow> rbind (deref (lc_heap c) a) (\<lambda>f. if fact_tag f = 2 then
          rbind (touch env a c) (\<lambda>c. rbind (deref (lc_heap c) a) (\<lambda>f. ok (Some (fact_type f, Fact_clause f), c)))
          else ok (None, c))) = ok (p, c1)"
      "cache_ok opts fs c1" "p \<noteq> None \<Longrightarrow> map_option clause_view p = map_option clause_view (factById L i)"
  proof (cases "ix_ids (lc_index c) i")
    case (Some a)
    obtain x where x: "a \<in> set (st_facts (lc_storage c))" "a \<in> dom (lc_heap c)" "facts_by_id fs i = Some x"
      "fact_tag (the (lc_heap c a)) = 2 \<longrightarrow> afact_view x = clause_view (fact_type (the (lc_heap c a)), Fact_clause (the (lc_heap c a)))"
      by (rule cached_fact [OF inv Some])
    obtain c1 where "touch env a c = ok c1" "cache_ok opts fs c1" "lc_heap c1 = lc_heap c"
      by (rule touch_ok [OF assms(2) x(1) assms(4)])
    then show ?thesis
      using that [of "Some (fact_type (the (lc_heap c a)), Fact_clause (the (lc_heap c a)))" c1] that [of None c]
        Some x factById [of i] assms(2)
      by (cases "fact_tag (the (lc_heap c a)) = 2") simp_all
  qed (use assms(2) that in simp)
  show ?thesis
  proof (cases p)
    case (Some q)
    then show ?thesis using first by (simp add: Anchor_factById_def bump_ok)
  next
    case None
    show ?thesis
    proof (cases "factById L i")
      case absent: None
      then show ?thesis using None first by (simp add: Anchor_factById_def bump_ok)
    next
      case (Some q)
      then obtain t cl where q: "factById L i = Some (t, cl)" by (cases q) simp
      let ?r = "\<lparr>ref_id = i, ref_type = t, ref_clause = cl\<rparr>"
      note ag = agrees_full [OF assms(1) q]
      obtain a c2 c3 where m: "create ?r 2 (bump FactById_misses c1) = (a, c2)" "lc_heap c2 a = Some (Fact_create ?r 2)"
          "cache_insert shrunk a c2 = ok c3" "cache_ok opts fs c3"
        by (rule miss_ok [OF facts_ok first(2) assms(3) ag(1), of FactById_misses]) simp_all
      then obtain c2' where "create ?r 2 c1 = (a, c2')" "bump FactById_misses c2' = c2"
        "lc_heap c2' a = Some (Fact_create ?r 2)"
        by (auto simp: create_def bump_def)
      then show ?thesis
        using m None first(1) q ag(2) by (simp add: Anchor_factById_def deref_def)
    qed
  qed
qed

end

section \<open>Properties\<close>

text \<open>The states a cache can be in, anchored to a base with the facts \<open>fs\<close>.\<close>

inductive cache_reach :: "(u64 \<Rightarrow> u64 \<Rightarrow> u64) \<Rightarrow> Lookup \<Rightarrow> CacheOptions \<Rightarrow> LookupCache \<Rightarrow> bool"
  for shrunk L opts where
  new: "v FactBytes = 0 \<Longrightarrow> v FactCount = 0 \<Longrightarrow> cache_reach shrunk L opts (LookupCache_new opts v)"
| idByKey: "cache_reach shrunk L opts c \<Longrightarrow> env_ok opts env \<Longrightarrow>
    Anchor_idByKey shrunk L env t k c = ok (i, c') \<Longrightarrow> cache_reach shrunk L opts c'"
| typeById: "cache_reach shrunk L opts c \<Longrightarrow> env_ok opts env \<Longrightarrow>
    Anchor_typeById shrunk L env i c = ok (t, c') \<Longrightarrow> cache_reach shrunk L opts c'"
| factById: "cache_reach shrunk L opts c \<Longrightarrow> env_ok opts env \<Longrightarrow>
    Anchor_factById shrunk L env i c = ok (x, c') \<Longrightarrow> cache_reach shrunk L opts c'"
| bulk: "cache_reach shrunk L opts c \<Longrightarrow>
    \<forall>r\<in>set rs. factById L (ref_id r) = Some (ref_type r, ref_clause r) \<Longrightarrow>
    withBulkStore shrunk rs c = ok c' \<Longrightarrow> cache_reach shrunk L opts c'"

lemma cache_reach_ok:
  assumes "lookup_points L fs" "clauses_ok L" "shrunk_ok shrunk opts" "cache_reach shrunk L opts c"
  shows "cache_ok opts fs c"
  using assms(4)
proof induction
  case (bulk c rs c')
  have "\<forall>r\<in>set rs. agrees fs (Fact_create r 2)"
  proof
    fix r assume "r \<in> set rs"
    moreover have "r = \<lparr>ref_id = ref_id r, ref_type = ref_type r, ref_clause = ref_clause r\<rparr>" by simp
    ultimately show "agrees fs (Fact_create r 2)"
      using bulk.hyps(2) lookup_points.agrees_full(1) [OF assms(1,2)] by metis
  qed
  then show ?case
    using withBulkStore_ok [OF lookup_points.facts_ok [OF assms(1)] bulk.IH assms(3), of rs] bulk.hyps(3) by auto
next
  case (new v)
  then show ?case by (rule LookupCache_new_ok)
next
  case (idByKey c env t k i c')
  then show ?case
    using lookup_points.Anchor_idByKey_ok [OF assms(1,2) idByKey.IH assms(3) idByKey.hyps(2), of t k] by auto
next
  case (typeById c env i t c')
  then show ?case
    using lookup_points.Anchor_typeById_ok [OF assms(1) typeById.IH assms(3) typeById.hyps(2), of i] by auto
next
  case (factById c env i x c')
  then show ?case
    using lookup_points.Anchor_factById_ok [OF assms(1,2) factById.IH assms(3) factById.hyps(2), of i] by auto
qed

text \<open>A small cache in front of the sample set, after one lookup.\<close>

definition sample_shrunk :: "u64 \<Rightarrow> u64 \<Rightarrow> u64" where
  "sample_shrunk cap sz = (let w = cap div 10 * 9 in if sz < w then w - sz else 0)"

definition sample_opts :: CacheOptions where
  "sample_opts = \<lparr>opt_capacity = 100, opt_shards = 1, opt_touched_buffer_size = 1\<rparr>"

definition sample_env :: TouchEnv where
  "sample_env = \<lparr>te_shard = 0, te_trylock = True\<rparr>"

definition sample_cache :: LookupCache where
  "sample_cache = (case Anchor_idByKey sample_shrunk (FactSet_lookup sample_set) sample_env 7 [1, 2]
     (LookupCache_new sample_opts (\<lambda>_. 0)) of Inr (i, c) \<Rightarrow> c | Inl _ \<Rightarrow> LookupCache_new sample_opts (\<lambda>_. 0))"

lemma sample_points: "lookup_points (FactSet_lookup sample_set) (FactSet_facts sample_set)"
  using FactSet_points [OF FactSet_reach_ok [OF sample_set_reach]] .

lemma sample_fact_list: "list_all (\<lambda>f. key_size (Fact_clause f) \<le> MAX_KEY_SIZE \<and> value_size (Fact_clause f) \<le> 9 \<and>
    unat (key_size (Fact_clause f)) + unat (value_size (Fact_clause f)) \<le> length (cdata (Fact_clause f))) (fs_facts sample_set)"
  by code_simp

lemma sample_clauses_ok: "clauses_ok (FactSet_lookup sample_set)"
proof -
  have "Clause_ok (Fact_clause f)" "key_size (Fact_clause f) \<le> MAX_KEY_SIZE" if "f \<in> set (fs_facts sample_set)" for f
    using sample_fact_list that by (auto simp: list_all_iff Clause_ok_def MAX_KEY_SIZE_def word_le_nat_alt)
  then show ?thesis
    by (auto simp: clauses_ok_def FactSet_lookup_def FactSet_factById_def Let_def split: if_splits)
qed

lemma sample_shrunk_ok: "shrunk_ok sample_shrunk sample_opts"
  by (auto simp: shrunk_ok_def sample_opts_def sample_shrunk_def word_le_nat_alt word_less_nat_alt unat_sub_le)

lemma sample_env_ok: "env_ok sample_opts sample_env"
  by (simp add: env_ok_def sample_opts_def sample_env_def)

lemma sample_cache_reach: "cache_reach sample_shrunk (FactSet_lookup sample_set) sample_opts sample_cache"
proof -
  have n: "cache_reach sample_shrunk (FactSet_lookup sample_set) sample_opts (LookupCache_new sample_opts (\<lambda>_. 0))"
    by (rule cache_reach.new) simp_all
  obtain i c where "Anchor_idByKey sample_shrunk (FactSet_lookup sample_set) sample_env 7 [1, 2]
      (LookupCache_new sample_opts (\<lambda>_. 0)) = ok (i, c)"
    using lookup_points.Anchor_idByKey_ok [OF sample_points sample_clauses_ok
        LookupCache_new_ok sample_shrunk_ok sample_env_ok, of "\<lambda>_. 0" 7 "[1, 2]"] by auto
  then show ?thesis using cache_reach.idByKey [OF n sample_env_ok] by (simp add: sample_cache_def ok_def)
qed

lemma sample_cache_state: "st_facts (lc_storage sample_cache) = [0]" "st_bytes (lc_storage sample_cache) = 42"
  by code_simp+

lemma sample_base: "idByKey (FactSet_lookup sample_set) 7 [1, 2] = 1024" "typeById (FactSet_lookup sample_set) 1025 = 5"
  by code_simp+

text \<open>
  C13. The cache is transparent: whatever lookups and bulk loads it has served, a lookup through it
  succeeds, without ever using a freed fact, and gives what the base gives.
\<close>

theorem Cache_transparent:
  assumes "lookup_points L fs" "clauses_ok L" "shrunk_ok shrunk opts" "cache_reach shrunk L opts c" "env_ok opts env"
  shows "\<exists>c1 c2 c3 x. Anchor_idByKey shrunk L env t k c = ok (idByKey L t k, c1) \<and>
    Anchor_typeById shrunk L env i c = ok (typeById L i, c2) \<and>
    Anchor_factById shrunk L env i c = ok (x, c3) \<and>
    map_option clause_view x = map_option clause_view (factById L i)"
proof -
  have c: "cache_ok opts fs c" by (rule cache_reach_ok [OF assms(1-4)])
  obtain c1 c2 where "Anchor_idByKey shrunk L env t k c = ok (idByKey L t k, c1)"
      "Anchor_typeById shrunk L env i c = ok (typeById L i, c2)"
    using lookup_points.Anchor_idByKey_ok [OF assms(1,2) c assms(3,5)]
      lookup_points.Anchor_typeById_ok [OF assms(1) c assms(3,5)] by blast
  moreover obtain x c3 where "Anchor_factById shrunk L env i c = ok (x, c3)"
      "map_option clause_view x = map_option clause_view (factById L i)"
    using lookup_points.Anchor_factById_ok [OF assms(1,2) c assms(3,5)] by blast
  ultimately show ?thesis by blast
qed

theorem Cache_transparent_witness:
  "\<exists>c1 c2. Anchor_idByKey sample_shrunk (FactSet_lookup sample_set) sample_env 7 [1, 2] sample_cache = ok (1024, c1) \<and>
    Anchor_typeById sample_shrunk (FactSet_lookup sample_set) sample_env 1025 sample_cache = ok (5, c2)"
  using Cache_transparent [OF sample_points sample_clauses_ok sample_shrunk_ok sample_cache_reach sample_env_ok,
      of 7 "[1, 2]" 1025] by (auto simp: sample_base)



end
