(* ===== verification/Elias_Fano.thy ===== *)
theory Elias_Fano
  imports Set_U32_Correct
begin

text \<open>
  Owner sets are stored as Elias-Fano lists, which come from folly
  (\<^verbatim>\<open>folly/experimental/EliasFanoCoding.h\<close>) and are a parameter here: a record of the operations the
  code calls, and the locale \<open>elias_fano\<close> of what their documentation promises. The conversions of
  \<^verbatim>\<open>SetU32\<close> to and from such lists are modelled on top of it.
\<close>

section \<open>The interface of the library\<close>

text \<open>
  \<open>ef_encode n upper xs\<close> makes an encoder for \<open>n\<close> values up to \<open>upper\<close>, adds the values \<open>xs\<close> and
  finishes; a reader is made from a list and moved by \<open>ef_next\<close> and \<open>ef_skipTo\<close>, which say whether
  there is a value at the new position.
\<close>

record ('e, 'r) EliasFano =
  ef_encode :: "nat \<Rightarrow> u32 \<Rightarrow> u32 list \<Rightarrow> 'e result"
  ef_reader :: "'e \<Rightarrow> 'r"
  ef_next :: "'r \<Rightarrow> bool \<times> 'r"
  ef_skipTo :: "'r \<Rightarrow> u32 \<Rightarrow> bool \<times> 'r"
  ef_value :: "'r \<Rightarrow> u32"
  ef_valid :: "'r \<Rightarrow> bool"

text \<open>
  The encoder takes an ascending list of values other than \<open>2 ^ 32 - 1\<close>. A reader starts before the
  first value; \<open>view\<close> gives the value at its position, if there is one, and the values after it.
\<close>

definition moved :: "u32 list \<Rightarrow> bool \<times> u32 option \<times> u32 list" where
  "moved vs = (case vs of [] \<Rightarrow> (False, None, []) | v # ws \<Rightarrow> (True, Some v, ws))"

locale elias_fano =
  fixes F :: "('e, 'r) EliasFano" and content :: "'e \<Rightarrow> u32 list"
    and view :: "'r \<Rightarrow> u32 option \<times> u32 list"
  assumes encode: "sorted xs \<Longrightarrow> xs \<noteq> [] \<Longrightarrow> last xs \<noteq> - 1 \<Longrightarrow>
      \<exists>e. ef_encode F (length xs) (last xs) xs = ok e \<and> content e = xs"
    and reader: "view (ef_reader F e) = (None, content e)"
    and valid: "ef_valid F r \<longleftrightarrow> fst (view r) \<noteq> None"
    and value_at: "fst (view r) = Some v \<Longrightarrow> ef_value F r = v"
    and nxt: "ef_next F r = (b, r') \<Longrightarrow> (b, view r') = moved (snd (view r))"
    and skipTo: "(\<And>v. fst (view r) = Some v \<Longrightarrow> v \<le> u) \<Longrightarrow> ef_skipTo F r u = (b, r') \<Longrightarrow>
      (b, view r') = moved (dropWhile (\<lambda>v. v < u) (case view r of (None, vs) \<Rightarrow> vs | (Some v, vs) \<Rightarrow> v # vs))"

section \<open>Conversions of sets\<close>

definition toEliasFano :: "('e, 'r) EliasFano \<Rightarrow> SetU32 \<Rightarrow> 'e result" where
  "toEliasFano F s =
     rbind (guard (su_hdrs s \<noteq> []) Undefined) (\<lambda>_.
     let upperBound = SetU32_upper s; n = SetU32_size s in ef_encode F n upperBound (SetU32_foreach s))"

partial_function (option) fromEliasFano_loop :: "('e, 'r) EliasFano \<Rightarrow> 'r \<Rightarrow> SetU32 \<Rightarrow> SetU32 option" where
  "fromEliasFano_loop F r s =
     (case ef_next F r of (b, r') \<Rightarrow>
        if b then fromEliasFano_loop F r' (SetU32_append s (ef_value F r')) else Some s)"

declare fromEliasFano_loop.simps [code]

definition fromEliasFano :: "('e, 'r) EliasFano \<Rightarrow> 'e \<Rightarrow> SetU32 option" where
  "fromEliasFano F e = fromEliasFano_loop F (ef_reader F e) SetU32_new"

section \<open>Reading a list\<close>

lemma moved_simps [simp]: "moved [] = (False, None, [])" "moved (v # vs) = (True, Some v, vs)"
  by (simp_all add: moved_def)

context elias_fano
begin

lemma next_Nil: "snd (view r) = [] \<Longrightarrow> \<exists>r'. ef_next F r = (False, r') \<and> view r' = (None, [])"
  using nxt [of r "fst (ef_next F r)" "snd (ef_next F r)"] by (cases "ef_next F r") auto

lemma next_Cons:
  "snd (view r) = v # vs \<Longrightarrow> \<exists>r'. ef_next F r = (True, r') \<and> view r' = (Some v, vs) \<and> ef_value F r' = v"
  using nxt [of r "fst (ef_next F r)" "snd (ef_next F r)"] value_at [of "snd (ef_next F r)" v]
  by (cases "ef_next F r") auto

text \<open>The values a reader has not passed.\<close>

definition upcoming :: "'r \<Rightarrow> u32 list" where
  "upcoming r = (case view r of (None, vs) \<Rightarrow> [] | (Some v, vs) \<Rightarrow> v # vs)"

lemma valid_upcoming: "ef_valid F r \<longleftrightarrow> upcoming r \<noteq> []"
  by (auto simp: valid upcoming_def split: prod.split option.split)

lemma value_upcoming: "upcoming r = v # vs \<Longrightarrow> ef_value F r = v \<and> snd (view r) = vs"
  using value_at [of r v] by (auto simp: upcoming_def split: prod.splits option.splits)

lemma next_upcoming:
  "\<exists>r'. ef_next F r = (snd (view r) \<noteq> [], r') \<and> upcoming r' = snd (view r)"
  using next_Nil [of r] next_Cons [of r] by (cases "snd (view r)") (auto simp: upcoming_def)

lemma skipTo_upcoming:
  assumes "upcoming r = v # vs" "v \<le> u"
  shows "\<exists>r'. ef_skipTo F r u = (dropWhile (\<lambda>v. v < u) (upcoming r) \<noteq> [], r') \<and>
    upcoming r' = dropWhile (\<lambda>v. v < u) (upcoming r)"
proof -
  have w: "view r = (Some v, vs)" using assms(1) by (auto simp: upcoming_def split: prod.splits option.splits)
  obtain b r' where r': "ef_skipTo F r u = (b, r')" by fastforce
  have "(b, view r') = moved (dropWhile (\<lambda>v. v < u) (v # vs))"
    using skipTo [OF _ r'] w assms(2) by simp
  then show ?thesis by (cases "dropWhile (\<lambda>v. v < u) (v # vs)") (auto simp: r' w upcoming_def)
qed

lemma skipTo_reader:
  "\<exists>r'. ef_skipTo F (ef_reader F e) u = (dropWhile (\<lambda>v. v < u) (content e) \<noteq> [], r') \<and>
    upcoming r' = dropWhile (\<lambda>v. v < u) (content e)"
proof -
  obtain b r' where r': "ef_skipTo F (ef_reader F e) u = (b, r')" by fastforce
  have "(b, view r') = moved (dropWhile (\<lambda>v. v < u) (content e))"
    using skipTo [OF _ r'] by (simp add: reader)
  then show ?thesis by (cases "dropWhile (\<lambda>v. v < u) (content e)") (auto simp: r' upcoming_def simp del: dropWhile_eq_Nil_conv)
qed

lemma fromEliasFano_loop_append:
  "fromEliasFano_loop F r s = Some (foldl SetU32_append s (snd (view r)))"
proof (induction "snd (view r)" arbitrary: r s)
  case Nil
  then show ?case using next_Nil [of r] by (subst fromEliasFano_loop.simps) auto
next
  case (Cons v vs)
  obtain r' where r': "ef_next F r = (True, r')" "view r' = (Some v, vs)" "ef_value F r' = v"
    using next_Cons [of r v vs] Cons.hyps(2) by auto
  show ?case
    by (subst fromEliasFano_loop.simps) (simp add: r' Cons.hyps(1) Cons.hyps(2) [symmetric])
qed

lemma fromEliasFano_content: "fromEliasFano F e = Some (SetU32_from (content e))"
  by (simp add: fromEliasFano_def fromEliasFano_loop_append reader SetU32_from_def)

lemma toEliasFano_rep:
  assumes "A \<noteq> {}" "- 1 \<notin> A"
  shows "\<exists>e. toEliasFano F (rep A) = ok e \<and> content e = sorted_list_of_set A"
proof -
  have A: "sorted_list_of_set A \<noteq> []" using assms(1) by simp
  have l: "last (sorted_list_of_set A) = Max A"
    by (rule last_sorted [OF assms(1)])
  have "last (sorted_list_of_set A) \<in> A" using last_in_set [OF A] by simp
  then have m: "last (sorted_list_of_set A) \<noteq> - 1" using assms(2) by auto
  have h: "su_hdrs (rep A) \<noteq> []"
    using assms(1) rep_size [of A] by (auto simp: SetU32_size_def)
  show ?thesis
    using encode [OF sorted_sorted_list_of_set A m] rep_upper [OF assms(1)] l h
    by (simp add: toEliasFano_def rep_size rep_foreach)
qed

end

section \<open>An instance\<close>

text \<open>
  The interface can be implemented: a list is the list of its values, a reader the value at its
  position and the values after it.
\<close>

definition list_ef :: "(u32 list, u32 option \<times> u32 list) EliasFano" where
  "list_ef =
     \<lparr>ef_encode = (\<lambda>n u xs. ok xs), ef_reader = (\<lambda>e. (None, e)), ef_next = (\<lambda>r. moved (snd r)),
      ef_skipTo = (\<lambda>r u. moved (dropWhile (\<lambda>v. v < u) (case r of (None, vs) \<Rightarrow> vs | (Some v, vs) \<Rightarrow> v # vs))),
      ef_value = (\<lambda>r. case fst r of None \<Rightarrow> - 1 | Some v \<Rightarrow> v), ef_valid = (\<lambda>r. \<not> Option.is_none (fst r))\<rparr>"

interpretation list_ef: elias_fano list_ef "\<lambda>e. e" "\<lambda>r. r"
  by unfold_locales
    (auto simp: list_ef_def Option.is_none_def)

text \<open>
  C23. Storing a set as an Elias-Fano list and reading it back gives the same representation, for every
  implementation of the lists that does what is documented, and reading always ends.
\<close>

theorem EliasFano_roundtrip:
  assumes "elias_fano F content view" "A \<noteq> {}" "- 1 \<notin> A"
  shows "\<exists>e. toEliasFano F (SetU32_from (sorted_list_of_set A)) = ok e \<and>
    content e = sorted_list_of_set A \<and> fromEliasFano F e = Some (SetU32_from (sorted_list_of_set A))"
  using elias_fano.toEliasFano_rep [OF assms] elias_fano.fromEliasFano_content [OF assms(1)]
  by (auto simp: rep_def)

theorem EliasFano_roundtrip_witness:
  "\<exists>e. toEliasFano list_ef (SetU32_from (sorted_list_of_set {3, 700})) = ok e \<and>
    fromEliasFano list_ef e = Some (SetU32_from (sorted_list_of_set {3, 700}))"
  using EliasFano_roundtrip [OF list_ef.elias_fano_axioms, of "{3, 700}"] by auto

end
