(* ===== verification/Usets.thy ===== *)
theory Usets
  imports Elias_Fano
begin

text \<open>
  Unique ownership sets, \<^verbatim>\<open>ownership/uset.h\<close> and \<^verbatim>\<open>uset.cpp\<close>: set expressions with a reference
  count on an explicit heap, and the container that stores each of them once. The memoized hash is
  left out: the container is only consulted with hashes that have just been computed, so a lookup
  finds an equal entry if there is one. Assertions are modelled as checks.
\<close>

type_synonym UsetId = u32

definition INVALID_USET :: UsetId where
  "INVALID_USET = 0xffffffff"

datatype SetOp = Or | And

record 's SetExpr =
  se_op :: SetOp
  se_set :: 's

definition SetExpr_eq :: "SetU32 SetExpr \<Rightarrow> SetU32 SetExpr \<Rightarrow> bool" where
  "SetExpr_eq x y \<longleftrightarrow> se_op x = se_op y \<and> SetU32_eq (se_set x) (se_set y)"

section \<open>Sets on the heap\<close>

text \<open>
  The generic pointer of a set refers to another set or to a tree of the trie, which is named by
  its path.
\<close>

type_synonym uaddr = nat

datatype Ptr = PNull | PUset uaddr | PTree "nat list"

record Uset =
  us_exp :: "SetU32 SetExpr"
  us_refs :: u32
  us_id :: UsetId
  us_ptr :: Ptr

definition Uset_new :: "SetU32 \<Rightarrow> SetOp \<Rightarrow> u32 \<Rightarrow> Uset" where
  "Uset_new s op r = \<lparr>us_exp = \<lparr>se_op = op, se_set = s\<rparr>, us_refs = r, us_id = INVALID_USET, us_ptr = PNull\<rparr>"

definition Uset_promoted :: "Uset \<Rightarrow> bool" where
  "Uset_promoted u \<longleftrightarrow> us_id u \<noteq> INVALID_USET"

text \<open>The memory that holds the sets; a deleted set is no longer there, and reading it is an error.\<close>

record UsetMem =
  um_heap :: "uaddr \<rightharpoonup> Uset"
  um_fresh :: uaddr

definition Mem_empty :: UsetMem where
  "Mem_empty = \<lparr>um_heap = (\<lambda>_. None), um_fresh = 0\<rparr>"

definition Mem_get :: "uaddr \<Rightarrow> UsetMem \<Rightarrow> Uset result" where
  "Mem_get a m = (case um_heap m a of None \<Rightarrow> raise Undefined | Some u \<Rightarrow> ok u)"

definition Mem_put :: "uaddr \<Rightarrow> Uset \<Rightarrow> UsetMem \<Rightarrow> UsetMem" where
  "Mem_put a u m = m\<lparr>um_heap := (um_heap m)(a \<mapsto> u)\<rparr>"

definition Mem_modify :: "uaddr \<Rightarrow> (Uset \<Rightarrow> Uset) \<Rightarrow> UsetMem \<Rightarrow> UsetMem result" where
  "Mem_modify a f m = rbind (Mem_get a m) (\<lambda>u. ok (Mem_put a (f u) m))"

definition Mem_alloc :: "Uset \<Rightarrow> UsetMem \<Rightarrow> uaddr \<times> UsetMem" where
  "Mem_alloc u m = (um_fresh m, \<lparr>um_heap = (um_heap m)(um_fresh m \<mapsto> u), um_fresh = Suc (um_fresh m)\<rparr>)"

definition Mem_delete :: "uaddr \<Rightarrow> UsetMem \<Rightarrow> UsetMem result" where
  "Mem_delete a m = rbind (Mem_get a m) (\<lambda>_. ok (m\<lparr>um_heap := (um_heap m)(a := None)\<rparr>))"

definition Uset_use :: "uaddr \<Rightarrow> u32 \<Rightarrow> UsetMem \<Rightarrow> UsetMem result" where
  "Uset_use a n m = Mem_modify a (\<lambda>u. u\<lparr>us_refs := us_refs u + n\<rparr>) m"

definition Uset_drop :: "uaddr \<Rightarrow> UsetMem \<Rightarrow> UsetMem result" where
  "Uset_drop a m =
     rbind (Mem_get a m) (\<lambda>u.
     if us_refs u - 1 = 0 then Mem_delete a m else ok (Mem_put a (u\<lparr>us_refs := us_refs u - 1\<rparr>) m))"

definition Uset_link :: "uaddr \<Rightarrow> Ptr \<Rightarrow> UsetMem \<Rightarrow> UsetMem result" where
  "Uset_link a p m = Mem_modify a (\<lambda>u. u\<lparr>us_ptr := p\<rparr>) m"

definition Uset_toEliasFano :: "('e, 'r) EliasFano \<Rightarrow> Uset \<Rightarrow> 'e SetExpr result" where
  "Uset_toEliasFano F u =
     rbind (toEliasFano F (se_set (us_exp u))) (\<lambda>e. ok \<lparr>se_op = se_op (us_exp u), se_set = e\<rparr>)"

section \<open>The container\<close>

record UsetsStats =
  uss_bytes :: u64
  uss_promoted :: u64
  uss_adds :: u64
  uss_dups :: u64

record Usets =
  ut_usets :: "uaddr list"
  ut_stats :: UsetsStats
  ut_firstId :: UsetId
  ut_nextId :: UsetId

definition Usets_new :: "u32 \<Rightarrow> Usets" where
  "Usets_new firstId =
     \<lparr>ut_usets = [], ut_stats = \<lparr>uss_bytes = 0, uss_promoted = 0, uss_adds = 0, uss_dups = 0\<rparr>,
      ut_firstId = firstId, ut_nextId = firstId\<rparr>"

definition SetU32_bytes :: "SetU32 \<Rightarrow> u64" where
  "SetU32_bytes s = of_nat (4 * length (su_hdrs s) + 32 * length (su_dense s) + length (su_sparse s))"

text \<open>The hash table: an entry equal to a given set.\<close>

definition Usets_find :: "Usets \<Rightarrow> UsetMem \<Rightarrow> Uset \<Rightarrow> uaddr option" where
  "Usets_find s m u =
     find (\<lambda>p. case um_heap m p of None \<Rightarrow> False | Some v \<Rightarrow> SetExpr_eq (us_exp v) (us_exp u)) (ut_usets s)"

definition Usets_add :: "uaddr \<Rightarrow> UsetMem \<Rightarrow> Usets \<Rightarrow> (uaddr \<times> UsetMem \<times> Usets) result" where
  "Usets_add entry m s =
     rbind (Mem_get entry m) (\<lambda>u.
     case Usets_find s m u of
       None \<Rightarrow>
         ok (entry, m, s\<lparr>ut_usets := ut_usets s @ [entry],
           ut_stats := (ut_stats s)\<lparr>uss_adds := uss_adds (ut_stats s) + 1,
             uss_bytes := uss_bytes (ut_stats s) + SetU32_bytes (se_set (us_exp u))\<rparr>\<rparr>)
     | Some p \<Rightarrow>
         rbind (Uset_use p (us_refs u) m) (\<lambda>m.
         ok (p, m, s\<lparr>ut_stats := (ut_stats s)\<lparr>uss_dups := uss_dups (ut_stats s) + 1\<rparr>\<rparr>)))"

text \<open>The overload that owns its argument deletes it when it was not added.\<close>

definition Usets_add_owned :: "Uset \<Rightarrow> UsetMem \<Rightarrow> Usets \<Rightarrow> (uaddr \<times> UsetMem \<times> Usets) result" where
  "Usets_add_owned u m s =
     (case Mem_alloc u m of (entry, m) \<Rightarrow>
        rbind (Usets_add entry m s) (\<lambda>(p, m, s).
        if p = entry then ok (p, m, s) else rbind (Mem_delete entry m) (\<lambda>m. ok (p, m, s))))"

definition Usets_add_set :: "SetU32 \<Rightarrow> u32 \<Rightarrow> UsetMem \<Rightarrow> Usets \<Rightarrow> (uaddr \<times> UsetMem \<times> Usets) result" where
  "Usets_add_set st refs m s = Usets_add_owned (Uset_new st Or refs) m s"

definition Usets_lookup :: "Uset \<Rightarrow> UsetMem \<Rightarrow> Usets \<Rightarrow> uaddr option" where
  "Usets_lookup u m s = Usets_find s m u"

definition Usets_merge :: "uaddr \<Rightarrow> uaddr \<Rightarrow> UsetMem \<Rightarrow> Usets \<Rightarrow> (uaddr \<times> UsetMem \<times> Usets) result" where
  "Usets_merge left right m s =
     rbind (Mem_get left m) (\<lambda>l.
     rbind (Mem_get right m) (\<lambda>r.
     rbind (guard (se_op (us_exp l) = se_op (us_exp r)) CheckFailed) (\<lambda>_.
     case merge SetU32_new (left = right) (se_set (us_exp l)) (se_set (us_exp r)) of
       Merge_result st \<Rightarrow> Usets_add_set st 1 m s
     | Merge_left \<Rightarrow> rbind (Uset_use left 1 m) (\<lambda>m. ok (left, m, s))
     | Merge_right \<Rightarrow> rbind (Uset_use right 1 m) (\<lambda>m. ok (right, m, s)))))"

definition Usets_drop :: "uaddr \<Rightarrow> UsetMem \<Rightarrow> Usets \<Rightarrow> (UsetMem \<times> Usets) result" where
  "Usets_drop a m s =
     rbind (Mem_get a m) (\<lambda>u.
     rbind (guard (us_refs u \<noteq> 0) CheckFailed) (\<lambda>_.
     if us_refs u - 1 = 0 then
       rbind (guard (\<not> Uset_promoted u) CheckFailed) (\<lambda>_.
       rbind (Mem_delete a m) (\<lambda>m'.
       ok (m', s\<lparr>ut_usets := (case Usets_find s m u of None \<Rightarrow> ut_usets s | Some p \<Rightarrow> removeAll p (ut_usets s)),
         ut_stats := (ut_stats s)\<lparr>uss_bytes := uss_bytes (ut_stats s) - SetU32_bytes (se_set (us_exp u))\<rparr>\<rparr>)))
     else ok (Mem_put a (u\<lparr>us_refs := us_refs u - 1\<rparr>) m, s)))"

definition Usets_promote :: "uaddr \<Rightarrow> UsetMem \<Rightarrow> Usets \<Rightarrow> (UsetMem \<times> Usets) result" where
  "Usets_promote a m s =
     rbind (Mem_get a m) (\<lambda>u.
     if Uset_promoted u then ok (m, s)
     else ok (Mem_put a (u\<lparr>us_id := ut_nextId s, us_refs := us_refs u + 1\<rparr>) m,
       s\<lparr>ut_nextId := ut_nextId s + 1,
         ut_stats := (ut_stats s)\<lparr>uss_promoted := uss_promoted (ut_stats s) + 1\<rparr>\<rparr>))"

text \<open>
  The vector of exported sets starts with default entries, here \<open>None\<close>; each promoted set is
  written at its index.
\<close>

fun export_loop :: "('e, 'r) EliasFano \<Rightarrow> UsetId \<Rightarrow> UsetMem \<Rightarrow> uaddr list \<Rightarrow> 'e SetExpr option list \<Rightarrow>
    'e SetExpr option list result" where
  "export_loop F firstId m [] sets = ok sets"
| "export_loop F firstId m (a # as) sets =
     rbind (Mem_get a m) (\<lambda>u.
     if Uset_promoted u then
       rbind (Uset_toEliasFano F u) (\<lambda>e.
       let i = unat (us_id u - firstId) in
       if i < length sets then export_loop F firstId m as (sets[i := Some e]) else raise Undefined)
     else export_loop F firstId m as sets)"

definition Usets_toEliasFano :: "('e, 'r) EliasFano \<Rightarrow> UsetMem \<Rightarrow> Usets \<Rightarrow> 'e SetExpr option list result" where
  "Usets_toEliasFano F m s =
     export_loop F (ut_firstId s) m (ut_usets s) (replicate (unat (uss_promoted (ut_stats s))) None)"

section \<open>The invariant of the container\<close>

text \<open>
  \<open>rc\<close> counts the references that clients hold; a promoted set has one more. The container holds
  exactly the sets that are allocated, each represents a set of numbers canonically, no two are
  equal, and the promoted ones are numbered consecutively from \<open>firstId\<close>.
\<close>

definition canonical :: "SetU32 SetExpr \<Rightarrow> bool" where
  "canonical e \<longleftrightarrow> (\<exists>A. se_set e = rep A)"

definition ids_ok :: "UsetMem \<Rightarrow> Usets \<Rightarrow> bool" where
  "ids_ok m s \<longleftrightarrow>
     ut_firstId s \<le> ut_nextId s \<and> uss_promoted (ut_stats s) = ucast (ut_nextId s - ut_firstId s) \<and>
     (\<forall>a u. um_heap m a = Some u \<longrightarrow> Uset_promoted u \<longrightarrow> ut_firstId s \<le> us_id u \<and> us_id u < ut_nextId s) \<and>
     (\<forall>k. ut_firstId s \<le> k \<and> k < ut_nextId s \<longrightarrow> (\<exists>a u. um_heap m a = Some u \<and> us_id u = k)) \<and>
     (\<forall>a b u v. um_heap m a = Some u \<longrightarrow> um_heap m b = Some v \<longrightarrow> Uset_promoted u \<longrightarrow> us_id u = us_id v \<longrightarrow> a = b)"

definition Usets_inv :: "UsetMem \<Rightarrow> Usets \<Rightarrow> (uaddr \<Rightarrow> nat) \<Rightarrow> bool" where
  "Usets_inv m s rc \<longleftrightarrow>
     distinct (ut_usets s) \<and> set (ut_usets s) = dom (um_heap m) \<and> (\<forall>a\<in>dom (um_heap m). a < um_fresh m) \<and>
     (\<forall>a. a \<notin> dom (um_heap m) \<longrightarrow> rc a = 0) \<and>
     (\<forall>a u. um_heap m a = Some u \<longrightarrow> canonical (us_exp u) \<and>
        unat (us_refs u) = rc a + (if Uset_promoted u then 1 else 0) \<and> us_refs u \<noteq> 0) \<and>
     (\<forall>a b u v. um_heap m a = Some u \<longrightarrow> um_heap m b = Some v \<longrightarrow> us_exp u = us_exp v \<longrightarrow> a = b) \<and>
     ids_ok m s"

text \<open>What an operation leaves alone: the expression, id and link of a set.\<close>

definition same_uset :: "UsetMem \<Rightarrow> UsetMem \<Rightarrow> uaddr \<Rightarrow> bool" where
  "same_uset m m' a \<longleftrightarrow>
     map_option us_exp (um_heap m' a) = map_option us_exp (um_heap m a) \<and>
     map_option us_id (um_heap m' a) = map_option us_id (um_heap m a) \<and>
     map_option us_ptr (um_heap m' a) = map_option us_ptr (um_heap m a)"

lemma find_only:
  assumes "\<And>x y. P x \<Longrightarrow> P y \<Longrightarrow> x = y"
  shows "find P xs = Some x \<longleftrightarrow> x \<in> set xs \<and> P x"
  using assms by (induction xs) auto

lemma SetExpr_eq_canonical: "canonical x \<Longrightarrow> canonical y \<Longrightarrow> SetExpr_eq x y \<longleftrightarrow> x = y"
  using rep_inj by (cases x; cases y) (auto simp: canonical_def SetExpr_eq_def)

lemma Usets_find_iff:
  assumes "Usets_inv m s rc" "canonical (us_exp u)"
  shows "Usets_find s m u = Some p \<longleftrightarrow> (\<exists>v. um_heap m p = Some v \<and> us_exp v = us_exp u)"
proof -
  let ?P = "\<lambda>p. case um_heap m p of None \<Rightarrow> False | Some v \<Rightarrow> SetExpr_eq (us_exp v) (us_exp u)"
  have P: "?P p \<longleftrightarrow> (\<exists>v. um_heap m p = Some v \<and> us_exp v = us_exp u)" for p
    using assms SetExpr_eq_canonical by (auto simp: Usets_inv_def split: option.split)
  have "find ?P (ut_usets s) = Some p \<longleftrightarrow> p \<in> set (ut_usets s) \<and> ?P p"
  proof (rule find_only)
    fix x y
    assume "?P x" "?P y"
    then show "x = y" using assms(1) unfolding P Usets_inv_def by metis
  qed
  moreover have "p \<in> set (ut_usets s) \<longleftrightarrow> um_heap m p \<noteq> None" using assms(1) by (auto simp: Usets_inv_def)
  ultimately show ?thesis by (auto simp: Usets_find_def P)
qed

lemma Usets_invD:
  assumes "Usets_inv m s rc" "um_heap m a = Some u"
  shows "canonical (us_exp u)" "unat (us_refs u) = rc a + (if Uset_promoted u then 1 else 0)" "us_refs u \<noteq> 0"
    "a \<in> set (ut_usets s)" "a < um_fresh m"
  using assms by (auto simp: Usets_inv_def)

lemma Usets_unique:
  assumes "Usets_inv m s rc" "um_heap m a = Some u" "um_heap m b = Some v" "us_exp u = us_exp v"
  shows "a = b"
  using assms unfolding Usets_inv_def by blast

lemma ids_ok_update:
  assumes "ids_ok m s" "um_heap m a = Some u" "us_id u' = us_id u" "ut_firstId s' = ut_firstId s"
    "ut_nextId s' = ut_nextId s" "uss_promoted (ut_stats s') = uss_promoted (ut_stats s)"
  shows "ids_ok (Mem_put a u' m) s'"
proof -
  have bk: "\<exists>v. um_heap m b = Some v \<and> us_id v = us_id w" if "um_heap (Mem_put a u' m) b = Some w" for b w
    using that assms(2,3) by (auto simp: Mem_put_def split: if_splits)
  have pr: "Uset_promoted v" if "Uset_promoted w" "us_id v = us_id w" for v w
    using that by (simp add: Uset_promoted_def)
  show ?thesis
    unfolding ids_ok_def assms(4-6)
  proof (intro conjI allI impI)
    show "ut_firstId s \<le> ut_nextId s" "uss_promoted (ut_stats s) = ucast (ut_nextId s - ut_firstId s)"
      using assms(1) by (simp_all add: ids_ok_def)
    fix b w
    assume b: "um_heap (Mem_put a u' m) b = Some w" "Uset_promoted w"
    obtain v where v: "um_heap m b = Some v" "us_id v = us_id w" using bk [OF b(1)] by blast
    then show "ut_firstId s \<le> us_id w" "us_id w < ut_nextId s"
      using assms(1) pr [OF b(2) v(2)] unfolding ids_ok_def by metis+
    fix c x
    assume c: "um_heap (Mem_put a u' m) c = Some x" "us_id w = us_id x"
    obtain y where "um_heap m c = Some y" "us_id y = us_id x" using bk [OF c(1)] by blast
    then show "b = c" using assms(1) v pr [OF b(2) v(2)] c(2) unfolding ids_ok_def by metis
  next
    fix k
    assume "ut_firstId s \<le> k \<and> k < ut_nextId s"
    then obtain b v where "um_heap m b = Some v" "us_id v = k" using assms(1) unfolding ids_ok_def by metis
    then show "\<exists>b v. um_heap (Mem_put a u' m) b = Some v \<and> us_id v = k"
      using assms(2,3) by (intro exI [of _ b]) (auto simp: Mem_put_def)
  qed
qed

lemma put_exp:
  assumes "um_heap m a = Some u" "us_exp u' = us_exp u" "um_heap (Mem_put a u' m) b = Some v"
  shows "\<exists>x. um_heap m b = Some x \<and> us_exp x = us_exp v"
  using assms by (auto simp: Mem_put_def split: if_splits)

lemma inv_update:
  assumes "Usets_inv m s rc" "um_heap m a = Some u" "us_exp u' = us_exp u" "us_id u' = us_id u"
    "unat (us_refs u') = r + (if Uset_promoted u' then 1 else 0)" "us_refs u' \<noteq> 0"
    "ut_usets s' = ut_usets s" "ut_firstId s' = ut_firstId s" "ut_nextId s' = ut_nextId s"
    "uss_promoted (ut_stats s') = uss_promoted (ut_stats s)"
  shows "Usets_inv (Mem_put a u' m) s' (rc(a := r))"
proof -
  have c: "canonical (us_exp u')" using Usets_invD(1) [OF assms(1,2)] assms(3) by simp
  have i: "ids_ok (Mem_put a u' m) s'"
    using assms(1) by (intro ids_ok_update [OF _ assms(2,4,8-10)]) (simp add: Usets_inv_def)
  have d: "dom (um_heap (Mem_put a u' m)) = dom (um_heap m)" using assms(2) by (auto simp: Mem_put_def)
  note e = put_exp [OF assms(2,3)]
  show ?thesis
    unfolding Usets_inv_def d assms(7)
  proof (intro conjI allI impI)
    fix b v
    assume b: "um_heap (Mem_put a u' m) b = Some v"
    show "canonical (us_exp v)" "unat (us_refs v) = (rc(a := r)) b + (if Uset_promoted v then 1 else 0)" "us_refs v \<noteq> 0"
      using b c assms(5,6) Usets_invD [OF assms(1), of b v] by (auto simp: Mem_put_def split: if_splits)
  next
    fix b b' v v'
    assume "um_heap (Mem_put a u' m) b = Some v" "um_heap (Mem_put a u' m) b' = Some v'" "us_exp v = us_exp v'"
    then show "b = b'" using e [of b v] e [of b' v'] assms(1) unfolding Usets_inv_def by metis
  qed (use assms(1,2) i in \<open>auto simp: Usets_inv_def Mem_put_def\<close>)
qed

lemma ids_ok_promoted:
  assumes "ids_ok m s" "\<And>b v. Uset_promoted v \<Longrightarrow> um_heap m' b = Some v \<longleftrightarrow> um_heap m b = Some v"
    "ut_firstId s' = ut_firstId s" "ut_nextId s' = ut_nextId s" "uss_promoted (ut_stats s') = uss_promoted (ut_stats s)"
  shows "ids_ok m' s'"
proof -
  have p: "Uset_promoted v" if "us_id v < ut_nextId s" for v
    using that unat_lt_32 [of "ut_nextId s"] by (auto simp: Uset_promoted_def INVALID_USET_def word_less_nat_alt)
  have q: "Uset_promoted v" if "Uset_promoted u" "us_id u = us_id v" for u v
    using that by (simp add: Uset_promoted_def)
  show ?thesis
    unfolding ids_ok_def assms(3-5)
  proof (intro conjI allI impI)
    show "ut_firstId s \<le> ut_nextId s" "uss_promoted (ut_stats s) = ucast (ut_nextId s - ut_firstId s)"
      using assms(1) by (simp_all add: ids_ok_def)
    show "ut_firstId s \<le> us_id u" "us_id u < ut_nextId s" if "um_heap m' a = Some u" "Uset_promoted u" for a u
      using assms(1,2) that unfolding ids_ok_def by blast+
    show "\<exists>a u. um_heap m' a = Some u \<and> us_id u = k" if "ut_firstId s \<le> k \<and> k < ut_nextId s" for k
      using assms(1,2) that p unfolding ids_ok_def by metis
    show "a = b" if "um_heap m' a = Some u" "um_heap m' b = Some v" "Uset_promoted u" "us_id u = us_id v" for a b u v
      using assms(1) that q [OF that(3,4)] unfolding ids_ok_def by (metis assms(2))
  qed
qed

lemma inv_remove:
  assumes "Usets_inv m s rc" "um_heap m a = Some u" "\<not> Uset_promoted u"
    "ut_usets s' = removeAll a (ut_usets s)" "ut_firstId s' = ut_firstId s" "ut_nextId s' = ut_nextId s"
    "uss_promoted (ut_stats s') = uss_promoted (ut_stats s)"
  shows "Usets_inv (m\<lparr>um_heap := (um_heap m)(a := None)\<rparr>) s' (rc(a := 0))"
proof -
  have "ids_ok (m\<lparr>um_heap := (um_heap m)(a := None)\<rparr>) s'"
    using assms(1) by (intro ids_ok_promoted [OF _ _ assms(5-7)]) (use assms(2,3) in \<open>auto simp: Usets_inv_def\<close>)
  moreover have "set (removeAll a (ut_usets s)) = dom ((um_heap m)(a := None))" "distinct (removeAll a (ut_usets s))"
    using assms(1) by (auto simp: Usets_inv_def distinct_removeAll)
  ultimately show ?thesis
    using assms(1) unfolding Usets_inv_def assms(4) by (simp split: if_splits)
qed

lemma inv_insert:
  assumes "Usets_inv m s rc" "a = um_fresh m" "canonical (us_exp u)" "\<not> Uset_promoted u" "unat (us_refs u) = r" "r \<noteq> 0"
    "\<And>b v. um_heap m b = Some v \<Longrightarrow> us_exp v \<noteq> us_exp u"
    "ut_usets s' = ut_usets s @ [a]" "ut_firstId s' = ut_firstId s" "ut_nextId s' = ut_nextId s"
    "uss_promoted (ut_stats s') = uss_promoted (ut_stats s)"
  shows "Usets_inv \<lparr>um_heap = (um_heap m)(a \<mapsto> u), um_fresh = Suc a\<rparr> s' (rc(a := r))"
proof -
  have n: "um_heap m a = None" using assms(1,2) by (auto simp: Usets_inv_def)
  have i: "ids_ok \<lparr>um_heap = (um_heap m)(a \<mapsto> u), um_fresh = Suc a\<rparr> s'"
    using assms(1) by (intro ids_ok_promoted [OF _ _ assms(9-11)]) (use assms(4) n in \<open>auto simp: Usets_inv_def\<close>)
  have z: "us_refs u \<noteq> 0" using assms(5,6) by auto
  have e: "b = c" if "((um_heap m)(a \<mapsto> u)) b = Some v" "((um_heap m)(a \<mapsto> u)) c = Some w" "us_exp v = us_exp w" for b c v w
    using that assms(7) [of b v] assms(7) [of c w] Usets_unique [OF assms(1), of b v c w]
    by (cases "b = a"; cases "c = a") auto
  have f: "\<forall>b\<in>dom ((um_heap m)(a \<mapsto> u)). b < Suc a" using assms(1,2) by (auto simp: Usets_inv_def less_Suc_eq)
  have d: "distinct (ut_usets s')" "set (ut_usets s') = dom ((um_heap m)(a \<mapsto> u))"
    using assms(1,8) n by (auto simp: Usets_inv_def)
  have c: "canonical (us_exp v) \<and> unat (us_refs v) = (rc(a := r)) b + (if Uset_promoted v then 1 else 0) \<and> us_refs v \<noteq> 0"
    if "((um_heap m)(a \<mapsto> u)) b = Some v" for b v
    using that Usets_invD [OF assms(1), of b v] assms(3-5) z by (cases "b = a") auto
  show ?thesis
    unfolding Usets_inv_def UsetMem.simps
  proof (intro conjI allI)
    show "b \<notin> dom ((um_heap m)(a \<mapsto> u)) \<longrightarrow> (rc(a := r)) b = 0" for b
      using assms(1) by (auto simp: Usets_inv_def)
    show "((um_heap m)(a \<mapsto> u)) b = Some v \<longrightarrow> canonical (us_exp v) \<and>
        unat (us_refs v) = (rc(a := r)) b + (if Uset_promoted v then 1 else 0) \<and> us_refs v \<noteq> 0" for b v
      using c by blast
    show "((um_heap m)(a \<mapsto> u)) b = Some v \<longrightarrow> ((um_heap m)(a \<mapsto> u)) b' = Some w \<longrightarrow> us_exp v = us_exp w \<longrightarrow> b = b'"
      for b b' v w using e by blast
  qed (rule d f i)+
qed

section \<open>The operations keep the invariant\<close>

lemma Mem_get_Some [simp]: "um_heap m a = Some u \<Longrightarrow> Mem_get a m = ok u"
  by (simp add: Mem_get_def)

lemma Mem_delete_Some [simp]: "um_heap m a = Some u \<Longrightarrow> Mem_delete a m = ok (m\<lparr>um_heap := (um_heap m)(a := None)\<rparr>)"
  by (simp add: Mem_delete_def)

lemma same_uset_refl [simp]: "same_uset m m a"
  by (simp add: same_uset_def)

lemma same_uset_trans: "same_uset m m' a \<Longrightarrow> same_uset m' m'' a \<Longrightarrow> same_uset m m'' a"
  by (simp add: same_uset_def)

lemma same_uset_put:
  "um_heap m a = Some u \<Longrightarrow> us_exp u' = us_exp u \<Longrightarrow> us_id u' = us_id u \<Longrightarrow> us_ptr u' = us_ptr u \<or> b \<noteq> a \<Longrightarrow>
    same_uset m (Mem_put a u' m) b"
  by (auto simp: same_uset_def Mem_put_def)

lemma Uset_use_inv:
  assumes "Usets_inv m s rc" "um_heap m a = Some u" "rc a + unat n + 1 < 2 ^ 32"
  shows "\<exists>m'. Uset_use a n m = ok m' \<and> Usets_inv m' s (rc(a := rc a + unat n)) \<and> (\<forall>b. same_uset m m' b) \<and>
    um_fresh m' = um_fresh m"
proof -
  let ?u = "u\<lparr>us_refs := us_refs u + n\<rparr>"
  note r = Usets_invD(2,3) [OF assms(1,2)]
  have s: "unat (us_refs u + n) = unat (us_refs u) + unat n"
    using r(1) assms(3) by (intro unat_add_lem [THEN iffD1]) (simp split: if_splits)
  moreover have "us_refs u + n \<noteq> 0" using s r(2) by (metis add_is_0 unat_eq_zero)
  ultimately have "Usets_inv (Mem_put a ?u m) s (rc(a := rc a + unat n))"
    using r(1) by (intro inv_update [OF assms(1,2)]) (simp_all add: Uset_promoted_def)
  moreover have "Uset_use a n m = ok (Mem_put a ?u m)" using assms(2) by (simp add: Uset_use_def Mem_modify_def)
  moreover have "same_uset m (Mem_put a ?u m) b" for b by (rule same_uset_put [OF assms(2)]) simp_all
  ultimately show ?thesis by (intro exI [of _ "Mem_put a ?u m"]) (simp add: Mem_put_def)
qed

lemma Uset_link_inv:
  assumes "Usets_inv m s rc" "um_heap m a = Some u"
  shows "Uset_link a p m = ok (Mem_put a (u\<lparr>us_ptr := p\<rparr>) m)" "Usets_inv (Mem_put a (u\<lparr>us_ptr := p\<rparr>) m) s rc"
    "b \<noteq> a \<Longrightarrow> same_uset m (Mem_put a (u\<lparr>us_ptr := p\<rparr>) m) b"
proof -
  show "Uset_link a p m = ok (Mem_put a (u\<lparr>us_ptr := p\<rparr>) m)" using assms(2) by (simp add: Uset_link_def Mem_modify_def)
  have "Usets_inv (Mem_put a (u\<lparr>us_ptr := p\<rparr>) m) s (rc(a := rc a))"
    using Usets_invD(2,3) [OF assms] by (intro inv_update [OF assms]) (simp_all add: Uset_promoted_def)
  then show "Usets_inv (Mem_put a (u\<lparr>us_ptr := p\<rparr>) m) s rc" by simp
  show "b \<noteq> a \<Longrightarrow> same_uset m (Mem_put a (u\<lparr>us_ptr := p\<rparr>) m) b" by (rule same_uset_put [OF assms(2)]) simp_all
qed

lemma Usets_drop_inv:
  assumes "Usets_inv m s rc" "um_heap m a = Some u" "0 < rc a"
  shows "\<exists>m' s'. Usets_drop a m s = ok (m', s') \<and> Usets_inv m' s' (rc(a := rc a - 1)) \<and>
    (\<forall>b. b \<noteq> a \<or> 1 < rc a \<or> Uset_promoted u \<or> b \<in> dom (um_heap m') \<longrightarrow> same_uset m m' b) \<and> ut_firstId s' = ut_firstId s \<and> ut_nextId s' = ut_nextId s \<and>
    um_fresh m' = um_fresh m"
proof -
  note r = Usets_invD [OF assms(1,2)]
  have m1: "unat (us_refs u - 1) = unat (us_refs u) - 1" using r(3) by (simp add: unat_minus_one)
  have z: "us_refs u - 1 = 0 \<longleftrightarrow> unat (us_refs u) = 1" by (simp add: word_unat_eq_iff [of _ 1])
  show ?thesis
  proof (cases "unat (us_refs u) = 1")
    case True
    then have np: "\<not> Uset_promoted u" "rc a = 1" using r(2) assms(3) by (auto split: if_splits)
    have f: "Usets_find s m u = Some a" using assms(2) by (simp add: Usets_find_iff [OF assms(1) r(1)])
    let ?m = "m\<lparr>um_heap := (um_heap m)(a := None)\<rparr>"
    let ?s = "s\<lparr>ut_usets := removeAll a (ut_usets s),
         ut_stats := (ut_stats s)\<lparr>uss_bytes := uss_bytes (ut_stats s) - SetU32_bytes (se_set (us_exp u))\<rparr>\<rparr>"
    have "Usets_drop a m s = ok (?m, ?s)"
      using assms(2) r(3) True z np(1) f by (simp add: Usets_drop_def)
    moreover have "Usets_inv ?m ?s (rc(a := 0))" by (rule inv_remove [OF assms(1,2) np(1)]) simp_all
    ultimately show ?thesis using np by (simp add: same_uset_def)
  next
    case False
    let ?m = "Mem_put a (u\<lparr>us_refs := us_refs u - 1\<rparr>) m"
    have "Usets_inv ?m s (rc(a := rc a - 1))"
      using r(2,3) m1 False assms(3) z by (intro inv_update [OF assms(1,2)]) (simp_all add: Uset_promoted_def)
    moreover have "Usets_drop a m s = ok (?m, s)"
      using assms(2) r(3) False z by (simp add: Usets_drop_def)
    moreover have "same_uset m ?m b" for b by (rule same_uset_put [OF assms(2)]) simp_all
    ultimately show ?thesis by (intro exI [of _ ?m] exI [of _ s]) (simp add: Mem_put_def)
  qed
qed

lemma fresh_free: "Usets_inv m s rc \<Longrightarrow> um_heap m (um_fresh m) = None \<and> rc (um_fresh m) = 0"
  unfolding Usets_inv_def by (metis domIff less_irrefl)

lemma inv_fresh: "Usets_inv m s rc \<Longrightarrow> Usets_inv (m\<lparr>um_fresh := Suc (um_fresh m)\<rparr>) s rc"
  by (auto simp: Usets_inv_def ids_ok_def less_Suc_eq)

lemma inv_stats:
  "Usets_inv m s rc \<Longrightarrow> Usets_inv m (s\<lparr>ut_stats := (ut_stats s)\<lparr>uss_dups := n\<rparr>\<rparr>) rc"
  by (simp add: Usets_inv_def ids_ok_def)

text \<open>Adding a set that holds one reference: what is returned holds an equal set and one reference more.\<close>

lemma Usets_add_owned_inv:
  assumes "Usets_inv m s rc" "canonical (us_exp u)" "\<not> Uset_promoted u" "us_refs u \<noteq> 0"
    "\<And>a. rc a + unat (us_refs u) + 1 < 2 ^ 32"
  shows "\<exists>p m' s' v. Usets_add_owned u m s = ok (p, m', s') \<and> Usets_inv m' s' (rc(p := rc p + unat (us_refs u))) \<and>
    um_heap m' p = Some v \<and> us_exp v = us_exp u \<and> (\<forall>b\<in>dom (um_heap m). same_uset m m' b) \<and>
    (p \<in> dom (um_heap m) \<or> (us_ptr v = us_ptr u \<and> \<not> Uset_promoted v)) \<and> dom (um_heap m') = insert p (dom (um_heap m)) \<and>
    ut_firstId s' = ut_firstId s \<and> ut_nextId s' = ut_nextId s"
proof -
  let ?f = "um_fresh m"
  let ?m = "\<lparr>um_heap = (um_heap m)(?f \<mapsto> u), um_fresh = Suc ?f\<rparr>"
  have n: "um_heap m ?f = None" "rc ?f = 0" using fresh_free [OF assms(1)] by auto
  have al: "Mem_alloc u m = (?f, ?m)" by (simp add: Mem_alloc_def)
  have "?f \<notin> set (ut_usets s)" using assms(1) n by (auto simp: Usets_inv_def)
  then have fd: "Usets_find s ?m u = Usets_find s m u" by (auto simp: Usets_find_def intro!: find_cong)
  show ?thesis
  proof (cases "Usets_find s m u")
    case None
    then have "us_exp v \<noteq> us_exp u" if "um_heap m b = Some v" for b v
      using that Usets_find_iff [OF assms(1,2), of b] by auto
    then show ?thesis
      using inv_insert [OF assms(1) refl assms(2,3) refl, of "s\<lparr>ut_usets := ut_usets s @ [?f],
           ut_stats := (ut_stats s)\<lparr>uss_adds := uss_adds (ut_stats s) + 1,
             uss_bytes := uss_bytes (ut_stats s) + SetU32_bytes (se_set (us_exp u))\<rparr>\<rparr>"] assms(3,4) n None
      by (auto simp: Usets_add_owned_def al Usets_add_def fd same_uset_def domIff unat_eq_zero)
  next
    case (Some p)
    then obtain v where v: "um_heap m p = Some v" "us_exp v = us_exp u"
      using Usets_find_iff [OF assms(1,2)] by auto
    obtain m' where m': "Uset_use p (us_refs u) m = ok m'" "Usets_inv m' s (rc(p := rc p + unat (us_refs u)))"
        "\<And>b. same_uset m m' b" "um_fresh m' = ?f"
      using Uset_use_inv [OF assms(1) v(1) assms(5)] by blast
    define v' where "v' = v\<lparr>us_refs := us_refs v + us_refs u\<rparr>"
    have p: "p \<noteq> ?f" using v(1) n(1) by auto
    have m: "m' = Mem_put p v' m" using m'(1) v(1) by (simp add: Uset_use_def Mem_modify_def v'_def)
    let ?s = "s\<lparr>ut_stats := (ut_stats s)\<lparr>uss_dups := uss_dups (ut_stats s) + 1\<rparr>\<rparr>"
    let ?m' = "m'\<lparr>um_fresh := Suc ?f\<rparr>"
    have "((um_heap m)(?f := Some u, p := Some v'))(?f := None) = (um_heap m)(p := Some v')" using p n(1) by auto
    then have "Usets_add_owned u m s = ok (p, ?m', ?s)"
      using v(1) p by (simp add: Usets_add_owned_def al Usets_add_def fd Some Uset_use_def Mem_modify_def
          Mem_put_def m v'_def)
    moreover have "Usets_inv ?m' ?s (rc(p := rc p + unat (us_refs u)))"
      using inv_stats [OF inv_fresh [OF m'(2)]] m'(4) by simp
    moreover have "same_uset m ?m' b" for b using m'(3) [of b] by (simp add: same_uset_def)
    moreover have "um_heap ?m' p = Some v'" "us_exp v' = us_exp u" "dom (um_heap ?m') = insert p (dom (um_heap m))"
      using v by (auto simp: m Mem_put_def v'_def)
    ultimately show ?thesis using v(1)
      by (intro exI [of _ p] exI [of _ ?m'] exI [of _ ?s] exI [of _ v']) auto
  qed
qed

lemma unat_Suc_32: "unat w < 2 ^ 32 - 1 \<Longrightarrow> unat (w + 1) = Suc (unat w)" for w :: u32
  by (simp add: unat_word_ariths)

lemma ids_ok_promote:
  assumes "ids_ok m s" "um_heap m a = Some u" "\<not> Uset_promoted u" "unat (ut_nextId s) < 2 ^ 32 - 1"
    "us_id u' = ut_nextId s" "ut_firstId s' = ut_firstId s" "ut_nextId s' = ut_nextId s + 1"
    "uss_promoted (ut_stats s') = uss_promoted (ut_stats s) + 1"
  shows "ids_ok (Mem_put a u' m) s'"
proof -
  note n = unat_Suc_32 [OF assms(4)]
  have fn: "ut_firstId s \<le> ut_nextId s" using assms(1) by (simp add: ids_ok_def)
  have b: "ut_firstId s \<le> us_id v \<and> us_id v < ut_nextId s" if "um_heap m c = Some v" "Uset_promoted v" for c v
    using assms(1) that unfolding ids_ok_def by metis
  have uq: "c = e" if "um_heap m c = Some v" "um_heap m e = Some w" "Uset_promoted v" "us_id v = us_id w" for c e v w
    using assms(1) that unfolding ids_ok_def by blast
  have l: "k < ut_nextId s + 1 \<longleftrightarrow> k < ut_nextId s \<or> k = ut_nextId s" for k
    using n by (auto simp: word_less_nat_alt word_unat_eq_iff)
  have d: "ut_nextId s + 1 - ut_firstId s = (ut_nextId s - ut_firstId s) + 1" by simp
  have "unat (ut_nextId s - ut_firstId s) < 2 ^ 32 - 1" using assms(4) fn by (simp add: unat_sub word_le_nat_alt)
  then have u: "ucast (ut_nextId s + 1 - ut_firstId s) = ucast (ut_nextId s - ut_firstId s) + (1 :: u64)"
    unfolding d using unat_lt_32 [of "ut_nextId s - ut_firstId s"]
    by (simp add: word_unat_eq_iff unat_ucast_mod unat_word_ariths)
  show ?thesis
    unfolding ids_ok_def assms(6-8)
  proof (intro conjI allI impI)
    show "ut_firstId s \<le> ut_nextId s + 1" using fn n by (simp add: word_le_nat_alt)
    show "uss_promoted (ut_stats s) + 1 = ucast (ut_nextId s + 1 - ut_firstId s)"
      using assms(1) unfolding u by (simp add: ids_ok_def)
    show "ut_firstId s \<le> us_id v" "us_id v < ut_nextId s + 1"
      if "um_heap (Mem_put a u' m) c = Some v" "Uset_promoted v" for c v
      using that b [of c v] fn assms(5) by (auto simp: Mem_put_def l split: if_splits)
    show "\<exists>c v. um_heap (Mem_put a u' m) c = Some v \<and> us_id v = k" if k: "ut_firstId s \<le> k \<and> k < ut_nextId s + 1" for k
    proof (cases "k = ut_nextId s")
      case True
      then show ?thesis using assms(5) by (intro exI [of _ a]) (simp add: Mem_put_def)
    next
      case False
      then obtain c v where c: "um_heap m c = Some v" "us_id v = k" using assms(1) k l unfolding ids_ok_def by metis
      moreover have "us_id v < ut_nextId s" using c(2) k False l by blast
      then have "us_id v \<noteq> INVALID_USET" using unat_lt_32 [of "ut_nextId s"] by (auto simp: INVALID_USET_def word_less_nat_alt)
      ultimately have "c \<noteq> a" using assms(2,3) by (auto simp: Uset_promoted_def)
      then show ?thesis using c by (intro exI [of _ c]) (simp add: Mem_put_def)
    qed
    show "c = e" if "um_heap (Mem_put a u' m) c = Some v" "um_heap (Mem_put a u' m) e = Some w" "Uset_promoted v"
      "us_id v = us_id w" for c e v w
    proof -
      have pw: "Uset_promoted w" using that(3,4) by (simp add: Uset_promoted_def)
      have "us_id x \<noteq> ut_nextId s" if "um_heap m y = Some x" "Uset_promoted x" for x y
        using b [OF that] by auto
      then show ?thesis using that pw assms(5) uq [of c v e w]
        by (cases "c = a"; cases "e = a") (auto simp: Mem_put_def)
    qed
  qed
qed

lemma Usets_promote_inv:
  assumes "Usets_inv m s rc" "um_heap m a = Some u" "rc a + 1 < 2 ^ 32" "unat (ut_nextId s) < 2 ^ 32 - 1"
  shows "\<exists>m' s' u'. Usets_promote a m s = ok (m', s') \<and> Usets_inv m' s' rc \<and> (\<forall>b. b \<noteq> a \<longrightarrow> same_uset m m' b) \<and>
    um_heap m' a = Some u' \<and> us_exp u' = us_exp u \<and> us_ptr u' = us_ptr u \<and> Uset_promoted u' \<and>
    (Uset_promoted u \<longrightarrow> us_id u' = us_id u) \<and>
    ut_firstId s' = ut_firstId s \<and> unat (ut_nextId s') \<le> Suc (unat (ut_nextId s)) \<and> um_fresh m' = um_fresh m"
proof (cases "Uset_promoted u")
  case True
  then show ?thesis using assms by (auto simp: Usets_promote_def)
next
  case False
  let ?u = "u\<lparr>us_id := ut_nextId s, us_refs := us_refs u + 1\<rparr>" and ?s = "s\<lparr>ut_nextId := ut_nextId s + 1,
         ut_stats := (ut_stats s)\<lparr>uss_promoted := uss_promoted (ut_stats s) + 1\<rparr>\<rparr>"
  note r = Usets_invD [OF assms(1,2)]
  have i: "ids_ok (Mem_put a ?u m) ?s"
    by (rule ids_ok_promote [OF _ assms(2) False assms(4)]) (use assms(1) in \<open>simp_all add: Usets_inv_def\<close>)
  have p: "Uset_promoted ?u" using assms(4) by (auto simp: Uset_promoted_def INVALID_USET_def)
  have u: "unat (us_refs u + 1) = rc a + 1" using r(2) False assms(3) by (simp add: unat_word_ariths)
  have "Usets_inv (Mem_put a ?u m) ?s rc"
    unfolding Usets_inv_def
  proof (intro conjI allI)
    show "um_heap (Mem_put a ?u m) b = Some v \<longrightarrow> canonical (us_exp v) \<and>
        unat (us_refs v) = rc b + (if Uset_promoted v then 1 else 0) \<and> us_refs v \<noteq> 0" for b v
      using Usets_invD [OF assms(1), of b v] r(1) p u by (cases "b = a") (auto simp: Mem_put_def)
    show "um_heap (Mem_put a ?u m) b = Some v \<longrightarrow> um_heap (Mem_put a ?u m) c = Some w \<longrightarrow> us_exp v = us_exp w \<longrightarrow> b = c" for b c v w
    proof (intro impI)
      assume h: "um_heap (Mem_put a ?u m) b = Some v" "um_heap (Mem_put a ?u m) c = Some w" "us_exp v = us_exp w"
      have "us_exp ?u = us_exp u" by simp
      from put_exp [OF assms(2) this h(1)] put_exp [OF assms(2) this h(2)] h(3) show "b = c"
        using Usets_unique [OF assms(1)] by metis
    qed
    show "distinct (ut_usets ?s)" "set (ut_usets ?s) = dom (um_heap (Mem_put a ?u m))"
      "\<forall>b\<in>dom (um_heap (Mem_put a ?u m)). b < um_fresh (Mem_put a ?u m)"
      "b \<notin> dom (um_heap (Mem_put a ?u m)) \<longrightarrow> rc b = 0" for b
      using assms(1) r(4,5) unfolding Usets_inv_def by (auto simp: Mem_put_def)
  qed (rule i)
  moreover have "same_uset m (Mem_put a ?u m) b" if "b \<noteq> a" for b using that by (simp add: same_uset_def Mem_put_def)
  moreover have "Usets_promote a m s = ok (Mem_put a ?u m, ?s)" using False assms(2) by (simp add: Usets_promote_def)
  ultimately show ?thesis using False p unat_Suc_32 [OF assms(4)]
    by (intro exI [of _ "Mem_put a ?u m"] exI [of _ ?s] exI [of _ ?u]) (simp add: Mem_put_def)
qed

text \<open>Merging two sets gives one that holds their union and has one reference more.\<close>

lemma Usets_merge_inv:
  assumes "Usets_inv m s rc" "um_heap m a = Some u" "us_exp u = \<lparr>se_op = Or, se_set = rep A\<rparr>"
    "um_heap m b = Some v" "us_exp v = \<lparr>se_op = Or, se_set = rep B\<rparr>" "\<And>c. rc c + 2 < 2 ^ 32"
  shows "\<exists>p m' s' w. Usets_merge a b m s = ok (p, m', s') \<and> Usets_inv m' s' (rc(p := rc p + 1)) \<and>
    um_heap m' p = Some w \<and> us_exp w = \<lparr>se_op = Or, se_set = rep (A \<union> B)\<rparr> \<and> (\<forall>c\<in>dom (um_heap m). same_uset m m' c) \<and>
    (p \<in> dom (um_heap m) \<or> (us_ptr w = PNull \<and> \<not> Uset_promoted w)) \<and> dom (um_heap m') = insert p (dom (um_heap m)) \<and>
    ut_firstId s' = ut_firstId s \<and> ut_nextId s' = ut_nextId s"
proof -
  have same: "a = b \<longrightarrow> rep A = rep B" using assms(2-5) by auto
  have mg: "merged (rep A) (rep B) (merge SetU32_new (a = b) (rep A) (rep B)) = rep (A \<union> B)"
  proof (cases "a = b")
    case True
    then have "A = B" using same rep_inj [of A B] by (simp add: SetU32_eq_def)
    then show ?thesis using True by (simp add: merge_def merged_def)
  qed (use rep_merge [of A B False] in simp)
  have one: "rc c + unat (1 :: u32) + 1 < 2 ^ 32" for c using assms(6) [of c] by simp
  have used: "\<exists>m' w. Uset_use c 1 m = ok m' \<and> Usets_inv m' s (rc(c := rc c + 1)) \<and> um_heap m' c = Some w \<and>
      us_exp w = us_exp x \<and> (\<forall>c. same_uset m m' c) \<and> dom (um_heap m') = insert c (dom (um_heap m))" if c: "um_heap m c = Some x" for c x
  proof -
    obtain m' where m': "Uset_use c 1 m = ok m'" "Usets_inv m' s (rc(c := rc c + 1))" "\<And>c. same_uset m m' c"
      using Uset_use_inv [OF assms(1) c one] by auto
    have "um_heap m' c = None \<longleftrightarrow> um_heap m c = None" for c using m'(3) [of c] by (auto simp: same_uset_def)
    then have "dom (um_heap m') = dom (um_heap m)" by (auto simp: dom_def)
    moreover obtain w where "um_heap m' c = Some w" "us_exp w = us_exp x" using m'(3) [of c] c by (auto simp: same_uset_def)
    ultimately show ?thesis using m' c by (intro exI [of _ m'] exI [of _ w]) auto
  qed
  show ?thesis
  proof (cases "merge SetU32_new (a = b) (rep A) (rep B)")
    case Merge_left
    then have eq: "rep A = rep (A \<union> B)" using mg by (simp add: merged_def)
    obtain m' w where "Uset_use a 1 m = ok m'" "Usets_inv m' s (rc(a := rc a + 1))" "um_heap m' a = Some w"
        "us_exp w = us_exp u" "\<forall>c. same_uset m m' c" "dom (um_heap m') = insert a (dom (um_heap m))"
      using used [OF assms(2)] by blast
    then show ?thesis using assms(2-5) Merge_left eq
      by (intro exI [of _ a] exI [of _ m'] exI [of _ s] exI [of _ w]) (auto simp: Usets_merge_def)
  next
    case Merge_right
    then have eq: "rep B = rep (A \<union> B)" using mg by (simp add: merged_def)
    obtain m' w where "Uset_use b 1 m = ok m'" "Usets_inv m' s (rc(b := rc b + 1))" "um_heap m' b = Some w"
        "us_exp w = us_exp v" "\<forall>c. same_uset m m' c" "dom (um_heap m') = insert b (dom (um_heap m))"
      using used [OF assms(4)] by blast
    then show ?thesis using assms(2-5) Merge_right eq
      by (intro exI [of _ b] exI [of _ m'] exI [of _ s] exI [of _ w]) (auto simp: Usets_merge_def)
  next
    case (Merge_result st)
    then have st: "st = rep (A \<union> B)" using mg by (simp add: merged_def)
    let ?u = "Uset_new st Or 1"
    have "canonical (us_exp ?u)" "\<not> Uset_promoted ?u" "us_refs ?u \<noteq> 0" "rc c + unat (us_refs ?u) + 1 < 2 ^ 32" for c
      using one [of c] st by (auto simp: canonical_def Uset_new_def Uset_promoted_def)
    from Usets_add_owned_inv [OF assms(1) this] show ?thesis
      using assms(2-5) Merge_result st by (auto simp: Usets_merge_def Usets_add_set_def Uset_new_def)
  qed
qed

end
