(* ===== verification/Slices.thy ===== *)
theory Slices
  imports Usets Fact_Set
begin

text \<open>
  \<^verbatim>\<open>ownership/slice.h\<close> and \<^verbatim>\<open>slice.cpp\<close>: which ownership sets are visible when some units are
  included or excluded, and the lookup restricted to the facts whose owner is visible. The interface
  \<^verbatim>\<open>Ownership\<close> of \<^verbatim>\<open>ownership.h\<close>, implemented by the database, is a record.
\<close>

type_synonym UnitId = u32

text \<open>A set iterator is the list of what its \<^verbatim>\<open>get\<close> returns.\<close>

record 'e Ownership =
  getOwner :: "Id \<Rightarrow> UsetId"
  set_sizes :: "u64 \<times> u64"
  getSetIterator :: "(UsetId \<times> 'e SetExpr) list"
  nextSetId :: UsetId
  lookupSet :: "SetU32 SetExpr \<Rightarrow> UsetId"

section \<open>Slices\<close>

record Slice =
  sl_first :: UsetId
  sl_set :: "bool list"

definition Slice_visible :: "Slice \<Rightarrow> UsetId \<Rightarrow> bool result" where
  "Slice_visible s uset =
     (if uset = INVALID_USET then ok False
      else if uset \<ge> sl_first s \<and> unat (uset - sl_first s) < length (sl_set s)
        then ok (sl_set s ! unat (uset - sl_first s))
      else raise Undefined)"

text \<open>
  The local functions of \<^verbatim>\<open>slice\<close>, over the reader of one set. A vector of bits is indexed with
  64-bit numbers; the loops end when the reader is exhausted.
\<close>

partial_function (option) isSubset_loop ::
    "('e, 'r) EliasFano \<Rightarrow> u64 \<Rightarrow> UnitId list \<Rightarrow> 'r \<Rightarrow> (bool \<times> 'r) option" where
  "isSubset_loop F first it r =
     (case dropWhile (\<lambda>u. u < ef_value F r) it of
        [] \<Rightarrow> Some (False, r)
      | u # it' \<Rightarrow>
          if ef_value F r < u then Some (False, r)
          else case ef_next F r of (b, r') \<Rightarrow>
            if b \<and> ucast (ef_value F r') < first then isSubset_loop F first it' r' else Some (True, r'))"

definition isSubset :: "('e, 'r) EliasFano \<Rightarrow> u64 \<Rightarrow> UnitId list \<Rightarrow> 'r \<Rightarrow> (bool \<times> 'r) option" where
  "isSubset F first units r =
     (case ef_next F r of (b, r') \<Rightarrow>
        if \<not> b \<or> ucast (ef_value F r') \<ge> first then Some (True, r')
        else isSubset_loop F first units r')"

fun emptyIntersection_loop :: "('e, 'r) EliasFano \<Rightarrow> UnitId list \<Rightarrow> 'r \<Rightarrow> bool \<times> 'r" where
  "emptyIntersection_loop F [] r = (True, r)"
| "emptyIntersection_loop F (u # us) r =
     (case if ef_value F r < u then ef_skipTo F r u else (True, r) of (b, r') \<Rightarrow>
        if \<not> b then (True, r')
        else if ef_value F r' = u then (False, r')
        else emptyIntersection_loop F us r')"

definition emptyIntersection :: "('e, 'r) EliasFano \<Rightarrow> UnitId list \<Rightarrow> 'r \<Rightarrow> bool \<times> 'r" where
  "emptyIntersection F units r =
     (case ef_skipTo F r (hd units) of (b, r') \<Rightarrow>
        if \<not> b then (True, r') else emptyIntersection_loop F units r')"

partial_function (option) orVisible_loop ::
    "('e, 'r) EliasFano \<Rightarrow> u64 \<Rightarrow> bool list \<Rightarrow> 'r \<Rightarrow> bool result option" where
  "orVisible_loop F first members r =
     (let i = unat (ucast (ef_value F r) - first) in
      if \<not> i < length members then Some (raise Undefined)
      else if members ! i then Some (ok True)
      else case ef_next F r of (b, r') \<Rightarrow>
        if b then orVisible_loop F first members r' else Some (ok False))"

definition orVisible :: "('e, 'r) EliasFano \<Rightarrow> u64 \<Rightarrow> bool list \<Rightarrow> 'r \<Rightarrow> bool result option" where
  "orVisible F first members r =
     (if \<not> ef_valid F r then Some (ok False)
      else case if ucast (ef_value F r) < first then ef_skipTo F r (ucast first) else (True, r) of (b, r') \<Rightarrow>
        if \<not> b then Some (ok False) else orVisible_loop F first members r')"

partial_function (option) andVisible_loop ::
    "('e, 'r) EliasFano \<Rightarrow> u64 \<Rightarrow> bool list \<Rightarrow> 'r \<Rightarrow> bool result option" where
  "andVisible_loop F first members r =
     (let i = unat (ucast (ef_value F r) - first) in
      if \<not> i < length members then Some (raise Undefined)
      else if \<not> members ! i then Some (ok False)
      else case ef_next F r of (b, r') \<Rightarrow>
        if b then andVisible_loop F first members r' else Some (ok True))"

definition andVisible :: "('e, 'r) EliasFano \<Rightarrow> u64 \<Rightarrow> bool list \<Rightarrow> 'r \<Rightarrow> bool result option" where
  "andVisible F first members r =
     (if \<not> ef_valid F r then Some (ok True)
      else case if ucast (ef_value F r) < first then ef_skipTo F r (ucast first) else (True, r) of (b, r') \<Rightarrow>
        if \<not> b then Some (ok True) else andVisible_loop F first members r')"

declare isSubset_loop.simps [code] orVisible_loop.simps [code] andVisible_loop.simps [code]

definition expr_visible ::
    "('e, 'r) EliasFano \<Rightarrow> u64 \<Rightarrow> UnitId list \<Rightarrow> bool \<Rightarrow> bool list \<Rightarrow> 'e SetExpr \<Rightarrow> bool result option" where
  "expr_visible F first units exclude members e =
     (let reader = ef_reader F (se_set e) in
      case se_op e of
        Or \<Rightarrow>
          (case if exclude then isSubset F first units reader else Some (emptyIntersection F units reader) of
             None \<Rightarrow> None
           | Some (b, r) \<Rightarrow> if \<not> b then Some (ok True) else orVisible F first members r)
      | And \<Rightarrow>
          (case if exclude then Some (emptyIntersection F units reader) else isSubset F first units reader of
             None \<Rightarrow> None
           | Some (b, r) \<Rightarrow> if b then andVisible F first members r else Some (ok False)))"

fun slice_loop ::
    "('e, 'r) EliasFano \<Rightarrow> u64 \<Rightarrow> UnitId list \<Rightarrow> bool \<Rightarrow> (UsetId \<times> 'e SetExpr) list \<Rightarrow> bool list \<Rightarrow>
     bool list result option" where
  "slice_loop F first units exclude [] members = Some (ok members)"
| "slice_loop F first units exclude ((i, e) # sets) members =
     (case expr_visible F first units exclude members e of
        None \<Rightarrow> None
      | Some (Inl x) \<Rightarrow> Some (Inl x)
      | Some (Inr visible) \<Rightarrow>
          let k = unat (ucast i - first) in
          if k < length members then slice_loop F first units exclude sets (members[k := visible])
          else Some (raise Undefined))"

definition make_slice ::
    "('e, 'r) EliasFano \<Rightarrow> 'e Ownership \<Rightarrow> UnitId list \<Rightarrow> bool \<Rightarrow> Slice result option" where
  "make_slice F ownership units exclude =
     (case set_sizes ownership of (first, n) \<Rightarrow>
        let members = replicate (unat n) False in
        map_option (\<lambda>x. rbind x (\<lambda>ms. ok \<lparr>sl_first = ucast first, sl_set = ms\<rparr>))
          (if units = [] then Some (ok (if exclude then replicate (unat n) True else members))
           else slice_loop F first units exclude (getSetIterator ownership) members))"

section \<open>The lookup restricted to a slice\<close>

text \<open>
  \<^verbatim>\<open>Sliced\<close>, member by member; as in the source, \<open>factById\<close> and \<open>count\<close> are those of the base and
  \<open>enumerateBack\<close> enumerates the base forwards.
\<close>

definition owner_visible :: "'e Ownership \<Rightarrow> Slice \<Rightarrow> Id \<Rightarrow> bool" where
  "owner_visible ownership s i = (Slice_visible s (getOwner ownership i) = ok True)"

definition Sliced :: "Lookup \<Rightarrow> 'e Ownership \<Rightarrow> Slice \<Rightarrow> Lookup" where
  "Sliced base ownership s =
     \<lparr>idByKey = (\<lambda>type key. let i = idByKey base type key in
        if WordId_bool i \<and> owner_visible ownership s i then i else WordId_invalid),
      typeById = (\<lambda>i. if owner_visible ownership s i then typeById base i else WordId_invalid),
      factById = factById base,
      startingId = startingId base,
      firstFreeId = firstFreeId base,
      count = count base,
      enumerate = (\<lambda>a b. FactIterator_filter (enumerate base a b) (owner_visible ownership s)),
      enumerateBack = (\<lambda>a b. FactIterator_filter (enumerate base a b) (owner_visible ownership s)),
      seek = (\<lambda>type start n. FactIterator_filter (seek base type start n) (owner_visible ownership s))\<rparr>"

section \<open>The readers of one set\<close>

lemma dropWhile_sorted:
  "sorted vs \<Longrightarrow> dropWhile (\<lambda>v. v < u) vs = filter (\<lambda>v. u \<le> v) vs" for vs :: "'a :: linorder list"
  by (induction vs) (auto intro!: filter_True [symmetric])

lemma strict_sorted: "sorted_wrt (<) vs \<Longrightarrow> sorted vs" for vs :: "'a :: linorder list"
  by (rule sorted_wrt_mono_rel [of _ "(<)"]) auto

lemma ucast_64_less [simp]: "(ucast v :: u64) < ucast w \<longleftrightarrow> v < w" "(ucast v :: u64) \<le> ucast w \<longleftrightarrow> v \<le> w"
  for v w :: u32
  using unat_lt_32 [of v] unat_lt_32 [of w]
  by (simp_all add: word_less_nat_alt word_le_nat_alt unat_ucast_mod)

lemma ucast_up_down [simp]: "ucast (ucast v :: u64) = v" for v :: u32
  using unat_lt_32 [of v] by (simp add: word_unat_eq_iff unat_ucast_mod)

lemma split_at:
  assumes "sorted (it :: u32 list)" "dropWhile (\<lambda>u. u < v) it = u # it'"
  shows "v \<le> u" "v < x \<Longrightarrow> \<not> v < u \<Longrightarrow> x \<in> set it \<longleftrightarrow> x \<in> set it'" "v < u \<Longrightarrow> v \<notin> set it" "\<not> v < u \<Longrightarrow> v \<in> set it"
    "sorted it'"
proof -
  have d: "u # it' = filter (\<lambda>u. v \<le> u) it" using assms by (simp add: dropWhile_sorted)
  then have s: "sorted (u # it')" using assms(1) by (metis sorted_filter map_ident)
  have m: "x \<in> set (u # it') \<longleftrightarrow> x \<in> set it \<and> v \<le> x" for x by (simp add: d)
  show "v \<le> u" using m [of u] by simp
  then show "v < x \<Longrightarrow> \<not> v < u \<Longrightarrow> x \<in> set it \<longleftrightarrow> x \<in> set it'" "\<not> v < u \<Longrightarrow> v \<in> set it"
    using m [of x] m [of v] by auto
  show "v < u \<Longrightarrow> v \<notin> set it" using m [of v] s by auto
  show "sorted it'" using s by simp
qed

text \<open>
  What a set expression means: a unit is visible if it is included, or not excluded, a set if its bit
  is set.
\<close>

definition item_visible :: "u32 \<Rightarrow> UnitId list \<Rightarrow> bool \<Rightarrow> bool list \<Rightarrow> u32 \<Rightarrow> bool" where
  "item_visible f units exclude members x =
     (if x < f then (x \<in> set units) \<noteq> exclude else members ! unat (x - f))"

definition set_visible :: "u32 \<Rightarrow> UnitId list \<Rightarrow> bool \<Rightarrow> bool list \<Rightarrow> SetOp \<Rightarrow> u32 list \<Rightarrow> bool" where
  "set_visible f units exclude members op vs =
     (case op of
        Or \<Rightarrow> (\<exists>x\<in>set vs. item_visible f units exclude members x)
      | And \<Rightarrow> (\<forall>x\<in>set vs. item_visible f units exclude members x))"

lemma set_visible_split:
  "set_visible f units exclude members Or vs \<longleftrightarrow>
     (\<exists>x\<in>set vs. x < f \<and> (x \<in> set units) \<noteq> exclude) \<or> (\<exists>x\<in>set vs. f \<le> x \<and> members ! unat (x - f))"
  "set_visible f units exclude members And vs \<longleftrightarrow>
     \<not> (\<exists>x\<in>set vs. x < f \<and> (x \<in> set units) = exclude) \<and> (\<forall>x\<in>set vs. f \<le> x \<longrightarrow> members ! unat (x - f))"
proof -
  let ?P = "\<lambda>x. (x \<in> set units) \<noteq> exclude" and ?Q = "\<lambda>x. members ! unat (x - f)"
  have i: "item_visible f units exclude members x \<longleftrightarrow> x < f \<and> ?P x \<or> f \<le> x \<and> ?Q x" for x
    using leD [of f x] by (auto simp: item_visible_def)
  have j: "item_visible f units exclude members x \<longleftrightarrow> \<not> (x < f \<and> \<not> ?P x) \<and> (f \<le> x \<longrightarrow> ?Q x)" for x
    using leD [of f x] by (auto simp: item_visible_def)
  show "set_visible f units exclude members Or vs \<longleftrightarrow> (\<exists>x\<in>set vs. x < f \<and> ?P x) \<or> (\<exists>x\<in>set vs. f \<le> x \<and> ?Q x)"
    by (simp only: set_visible_def SetOp.case i bex_disj_distrib)
  show "set_visible f units exclude members And vs \<longleftrightarrow>
      \<not> (\<exists>x\<in>set vs. x < f \<and> (x \<in> set units) = exclude) \<and> (\<forall>x\<in>set vs. f \<le> x \<longrightarrow> ?Q x)"
    by (simp only: set_visible_def SetOp.case j ball_conj_distrib not_not bex_simps(8) [symmetric])
qed

lemma index_64: "f \<le> x \<Longrightarrow> unat (ucast x - ucast f :: u64) = unat (x - f)" for f x :: u32
  using unat_lt_32 [of x]
  by (simp add: unat_sub word_le_nat_alt unat_ucast_mod ucast_64_less)

context elias_fano
begin

lemma isSubset_loop_spec:
  assumes "upcoming r = v # vs" "sorted_wrt (<) (v # vs)" "sorted it" "v < f"
  shows "\<exists>b r'. isSubset_loop F (ucast f) it r = Some (b, r') \<and>
    (b \<longleftrightarrow> (\<forall>x\<in>set (v # vs). x < f \<longrightarrow> x \<in> set it)) \<and> (b \<longrightarrow> upcoming r' = filter (\<lambda>x. f \<le> x) vs)"
  using assms
proof (induction vs arbitrary: v r it)
  case Nil
  obtain r' where r': "ef_next F r = (False, r')" "upcoming r' = []"
    using next_upcoming [of r] value_upcoming [OF Nil(1)] by auto
  show ?case using value_upcoming [OF Nil(1)] Nil split_at [OF Nil(3)]
    by (subst isSubset_loop.simps) (force simp: r' split: list.split)
next
  case (Cons w vs)
  obtain r' where r': "ef_next F r = (True, r')" "upcoming r' = w # vs"
    using next_upcoming [of r] value_upcoming [OF Cons.prems(1)] by auto
  have v: "ef_value F r = v" "ef_value F r' = w" using value_upcoming [OF Cons.prems(1)] value_upcoming [OF r'(2)] by auto
  show ?case
  proof (cases "dropWhile (\<lambda>u. u < v) it")
    case Nil
    then have "isSubset_loop F (ucast f) it r = Some (False, r)" by (subst isSubset_loop.simps) (simp only: v list.case)
    moreover have "v \<notin> set it" using Nil by auto
    ultimately show ?thesis using Cons.prems(4) by auto
  next
    case d: (Cons u it')
    note s = split_at [OF Cons.prems(3) d]
    have above: "w \<le> x" if "x \<in> set (w # vs)" for x using Cons.prems(2) that by auto
    consider "v < u" | "\<not> v < u" "f \<le> w" | "\<not> v < u" "w < f" by fastforce
    then show ?thesis
    proof cases
      case 1
      then have "isSubset_loop F (ucast f) it r = Some (False, r)" by (subst isSubset_loop.simps) (simp add: v d)
      then show ?thesis using s(3) [OF 1] Cons.prems(4) by auto
    next
      case 2
      then have "isSubset_loop F (ucast f) it r = Some (True, r')" by (subst isSubset_loop.simps) (simp add: v d r' leD)
      moreover have all: "\<forall>x\<in>set (w # vs). f \<le> x" using above 2(2) order_trans by blast
      moreover have "filter (\<lambda>x. f \<le> x) (w # vs) = w # vs" using all by (simp add: filter_id_conv)
      ultimately show ?thesis using s(4) [OF 2(1)] r'(2) by (auto simp: not_less [symmetric])
    next
      case 3
      have eq: "isSubset_loop F (ucast f) it r = isSubset_loop F (ucast f) it' r'"
        by (subst isSubset_loop.simps) (simp add: v d r' 3)
      have same: "x \<in> set it \<longleftrightarrow> x \<in> set it'" if "x \<in> set (w # vs)" for x
        using s(2) [of x] 3(1) Cons.prems(2) that by auto
      have "sorted_wrt (<) (w # vs)" using Cons.prems(2) by simp
      from Cons.IH [OF r'(2) this s(5) 3(2)] show ?thesis
        using s(4) [OF 3(1)] same 3(2) leD [of f w] by (auto simp: eq)
    qed
  qed
qed

lemma isSubset_spec:
  assumes "sorted_wrt (<) (content e)" "sorted units"
  shows "\<exists>b r'. isSubset F (ucast f) units (ef_reader F e) = Some (b, r') \<and>
    (b \<longleftrightarrow> (\<forall>x\<in>set (content e). x < f \<longrightarrow> x \<in> set units)) \<and>
    (b \<longrightarrow> upcoming r' = filter (\<lambda>x. f \<le> x) (content e))"
proof -
  obtain r' where r': "ef_next F (ef_reader F e) = (content e \<noteq> [], r')" "upcoming r' = content e"
    using next_upcoming [of "ef_reader F e"] by (auto simp: reader)
  show ?thesis
  proof (cases "content e")
    case Nil
    then show ?thesis by (intro exI [of _ True] exI [of _ r']) (simp add: isSubset_def r')
  next
    case (Cons v vs)
    note v = value_upcoming [OF r'(2) [unfolded Cons]]
    show ?thesis
    proof (cases "v < f")
      case True
      then show ?thesis
        using isSubset_loop_spec [OF r'(2) [unfolded Cons] _ assms(2) True] assms(1)
        by (simp add: isSubset_def r' v Cons not_le [symmetric])
    next
      case False
      then have "f \<le> x" if "x \<in> set (content e)" for x using assms(1) that by (auto simp: Cons)
      then show ?thesis using False by (fastforce simp: isSubset_def r' v Cons intro!: filter_True [symmetric])
    qed
  qed
qed

lemma emptyIntersection_loop_spec:
  assumes "upcoming r = v # vs" "sorted_wrt (<) (v # vs)" "sorted us" "\<forall>u\<in>set us. u < f"
  shows "\<exists>b r'. emptyIntersection_loop F us r = (b, r') \<and> (b \<longleftrightarrow> (\<forall>x\<in>set (v # vs). x \<notin> set us)) \<and>
    (b \<longrightarrow> filter (\<lambda>x. f \<le> x) (upcoming r') = filter (\<lambda>x. f \<le> x) (v # vs) \<and> sorted_wrt (<) (upcoming r'))"
  using assms
proof (induction us arbitrary: r v vs)
  case Nil
  then show ?case by auto
next
  case (Cons u us)
  have vr: "ef_value F r = v" using value_upcoming [OF Cons.prems(1)] by simp
  let ?d = "dropWhile (\<lambda>v. v < u) (v # vs)"
  have d: "?d = filter (\<lambda>x. u \<le> x) (v # vs)" by (rule dropWhile_sorted) (rule strict_sorted [OF Cons.prems(2)])
  have keep: "filter (\<lambda>x. f \<le> x) ?d = filter (\<lambda>x. f \<le> x) (v # vs)"
    using Cons.prems(4) unfolding d by (auto intro: filter_cong)
  have below: "x \<notin> set us" if "x < u" for x using Cons.prems(3) that by auto
  obtain r' where r': "(if v < u then ef_skipTo F r u else (True, r)) = (?d \<noteq> [], r')" "upcoming r' = ?d"
    using skipTo_upcoming [OF Cons.prems(1), of u] Cons.prems(1)
    by (cases "v < u") (auto simp del: dropWhile_eq_Nil_conv dest!: order_less_imp_le)
  show ?case
  proof (cases ?d)
    case Nil
    then have "x < u" if "x \<in> set (v # vs)" for x using that by (simp only: dropWhile_eq_Nil_conv)
    then have "x \<notin> set (u # us)" if "x \<in> set (v # vs)" for x using that below [of x] by auto
    moreover have "emptyIntersection_loop F (u # us) r = (True, r')" using r'(1) Nil by (simp add: vr)
    ultimately show ?thesis using keep r'(2) Nil by auto
  next
    case d': (Cons w ws)
    have mem: "x \<in> set (w # ws) \<longleftrightarrow> x \<in> set (v # vs) \<and> u \<le> x" for x unfolding d' [symmetric] d by auto
    have s: "sorted_wrt (<) (w # ws)" using Cons.prems(2) unfolding d' [symmetric] d by (rule sorted_wrt_filter)
    have w: "ef_value F r' = w" using value_upcoming r'(2) d' by simp
    show ?thesis
    proof (cases "w = u")
      case True
      then have "emptyIntersection_loop F (u # us) r = (False, r')" using r'(1) unfolding d' by (simp add: vr w)
      then show ?thesis using mem [of u] True by auto
    next
      case False
      have eq: "emptyIntersection_loop F (u # us) r = emptyIntersection_loop F us r'"
        using r'(1) False unfolding d' by (simp add: vr w)
      have "u \<notin> set (w # ws)" using s mem [of w] False by auto
      then have set_eq: "(\<forall>x\<in>set (v # vs). x \<notin> set (u # us)) \<longleftrightarrow> (\<forall>x\<in>set (w # ws). x \<notin> set us)"
        using mem below not_less by (metis list.set_intros(2) order_refl set_ConsD)
      show ?thesis
        using Cons.IH [OF r'(2) [unfolded d'] s] Cons.prems(3,4) keep unfolding eq set_eq d' by simp
    qed
  qed
qed

lemma emptyIntersection_spec:
  assumes "sorted_wrt (<) (content e)" "sorted units" "units \<noteq> []" "\<forall>u\<in>set units. u < f"
  shows "\<exists>b r'. emptyIntersection F units (ef_reader F e) = (b, r') \<and>
    (b \<longleftrightarrow> (\<forall>x\<in>set (content e). x \<notin> set units)) \<and>
    (b \<longrightarrow> filter (\<lambda>x. f \<le> x) (upcoming r') = filter (\<lambda>x. f \<le> x) (content e) \<and> sorted_wrt (<) (upcoming r'))"
proof -
  obtain u us where us: "units = u # us" using assms(3) by (cases units) auto
  let ?d = "dropWhile (\<lambda>v. v < u) (content e)"
  obtain r' where r': "ef_skipTo F (ef_reader F e) u = (?d \<noteq> [], r')" "upcoming r' = ?d"
    using skipTo_reader by blast
  have d: "?d = filter (\<lambda>x. u \<le> x) (content e)" by (rule dropWhile_sorted) (rule strict_sorted [OF assms(1)])
  have keep: "filter (\<lambda>x. f \<le> x) ?d = filter (\<lambda>x. f \<le> x) (content e)"
    using assms(4) unfolding d us by (auto intro: filter_cong)
  have above: "u \<le> x" if "x \<in> set units" for x using assms(2) that by (auto simp: us)
  then have mem: "(\<forall>x\<in>set ?d. x \<notin> set units) \<longleftrightarrow> (\<forall>x\<in>set (content e). x \<notin> set units)" unfolding d by auto
  show ?thesis
  proof (cases ?d)
    case Nil
    show ?thesis using mem keep r' unfolding Nil
      by (intro exI [of _ True] exI [of _ r']) (auto simp: emptyIntersection_def us)
  next
    case (Cons w ws)
    have s: "sorted_wrt (<) (w # ws)" using assms(1) unfolding Cons [symmetric] d by (rule sorted_wrt_filter)
    have "emptyIntersection F units (ef_reader F e) = emptyIntersection_loop F units r'"
      using r'(1) unfolding Cons by (simp add: emptyIntersection_def us)
    then show ?thesis
      using emptyIntersection_loop_spec [OF r'(2) [unfolded Cons] s assms(2,4)] mem keep unfolding Cons by simp
  qed
qed

lemma orVisible_loop_spec:
  assumes "upcoming r = v # vs" "\<forall>x\<in>set (v # vs). unat (ucast x - first) < length members"
  shows "orVisible_loop F first members r = Some (ok (\<exists>x\<in>set (v # vs). members ! unat (ucast x - first)))"
  using assms
proof (induction vs arbitrary: v r)
  case Nil
  then show ?case using value_upcoming [OF Nil(1)] next_upcoming [of r] by (subst orVisible_loop.simps) auto
next
  case (Cons w vs)
  obtain r' where r': "ef_next F r = (True, r')" "upcoming r' = w # vs"
    using next_upcoming [of r] value_upcoming [OF Cons.prems(1)] by auto
  show ?case using value_upcoming [OF Cons.prems(1)] Cons.IH [OF r'(2)] Cons.prems(2)
    by (subst orVisible_loop.simps) (auto simp: r')
qed

lemma andVisible_loop_spec:
  assumes "upcoming r = v # vs" "\<forall>x\<in>set (v # vs). unat (ucast x - first) < length members"
  shows "andVisible_loop F first members r = Some (ok (\<forall>x\<in>set (v # vs). members ! unat (ucast x - first)))"
  using assms
proof (induction vs arbitrary: v r)
  case Nil
  then show ?case using value_upcoming [OF Nil(1)] next_upcoming [of r] by (subst andVisible_loop.simps) auto
next
  case (Cons w vs)
  obtain r' where r': "ef_next F r = (True, r')" "upcoming r' = w # vs"
    using next_upcoming [of r] value_upcoming [OF Cons.prems(1)] by auto
  show ?case using value_upcoming [OF Cons.prems(1)] Cons.IH [OF r'(2)] Cons.prems(2)
    by (subst andVisible_loop.simps) (auto simp: r')
qed

text \<open>Where the reader stands before the loop: at the first member that is a set.\<close>

lemma skip_to_sets:
  assumes "upcoming r = v # vs" "sorted_wrt (<) (v # vs)"
  shows "\<exists>r'. (if v < f then ef_skipTo F r f else (True, r)) = (filter (\<lambda>x. f \<le> x) (v # vs) \<noteq> [], r') \<and>
    upcoming r' = filter (\<lambda>x. f \<le> x) (v # vs)"
proof (cases "v < f")
  case True
  then show ?thesis
    using skipTo_upcoming [OF assms(1) less_imp_le [OF True]]
    unfolding assms(1) dropWhile_sorted [OF strict_sorted [OF assms(2)]] by (simp only: if_True)
next
  case False
  then have "\<forall>x\<in>set (v # vs). f \<le> x" using assms(2) by auto
  then have "filter (\<lambda>x. f \<le> x) (v # vs) = v # vs" by (rule filter_True)
  then show ?thesis using False assms(1) by simp
qed

lemma orVisible_spec:
  assumes "sorted_wrt (<) (upcoming r)"
    and "\<forall>x\<in>set (upcoming r). f \<le> x \<longrightarrow> unat (ucast x - ucast f :: u64) < length members"
  shows "orVisible F (ucast f) members r =
    Some (ok (\<exists>x\<in>set (filter (\<lambda>x. f \<le> x) (upcoming r)). members ! unat (ucast x - ucast f :: u64)))"
proof (cases "upcoming r")
  case Nil
  then show ?thesis by (simp add: orVisible_def valid_upcoming)
next
  case (Cons v vs)
  obtain r' where r': "(if v < f then ef_skipTo F r f else (True, r)) = (filter (\<lambda>x. f \<le> x) (v # vs) \<noteq> [], r')"
      "upcoming r' = filter (\<lambda>x. f \<le> x) (v # vs)"
    using skip_to_sets [OF Cons] assms(1) Cons by auto
  show ?thesis
  proof (cases "filter (\<lambda>x. f \<le> x) (v # vs)")
    case Nil
    show ?thesis using r'(1) value_upcoming [OF Cons] unfolding Cons Nil
      by (cases "v < f") (simp_all add: orVisible_def valid_upcoming Cons)
  next
    case fl: (Cons w ws)
    have vr: "ef_valid F r" using Cons by (simp add: valid_upcoming)
    have "\<forall>x\<in>set (w # ws). unat (ucast x - ucast f :: u64) < length members"
      using assms(2) unfolding fl [symmetric] Cons by auto
    from orVisible_loop_spec [OF r'(2) [unfolded fl] this] show ?thesis
      using r'(1) value_upcoming [OF Cons] vr unfolding Cons fl
      by (cases "v < f") (simp_all add: orVisible_def)
  qed
qed

lemma andVisible_spec:
  assumes "sorted_wrt (<) (upcoming r)"
    and "\<forall>x\<in>set (upcoming r). f \<le> x \<longrightarrow> unat (ucast x - ucast f :: u64) < length members"
  shows "andVisible F (ucast f) members r =
    Some (ok (\<forall>x\<in>set (filter (\<lambda>x. f \<le> x) (upcoming r)). members ! unat (ucast x - ucast f :: u64)))"
proof (cases "upcoming r")
  case Nil
  then show ?thesis by (simp add: andVisible_def valid_upcoming)
next
  case (Cons v vs)
  obtain r' where r': "(if v < f then ef_skipTo F r f else (True, r)) = (filter (\<lambda>x. f \<le> x) (v # vs) \<noteq> [], r')"
      "upcoming r' = filter (\<lambda>x. f \<le> x) (v # vs)"
    using skip_to_sets [OF Cons] assms(1) Cons by auto
  show ?thesis
  proof (cases "filter (\<lambda>x. f \<le> x) (v # vs)")
    case Nil
    show ?thesis using r'(1) value_upcoming [OF Cons] unfolding Cons Nil
      by (cases "v < f") (simp_all add: andVisible_def valid_upcoming Cons)
  next
    case fl: (Cons w ws)
    have vr: "ef_valid F r" using Cons by (simp add: valid_upcoming)
    have "\<forall>x\<in>set (w # ws). unat (ucast x - ucast f :: u64) < length members"
      using assms(2) unfolding fl [symmetric] Cons by auto
    from andVisible_loop_spec [OF r'(2) [unfolded fl] this] show ?thesis
      using r'(1) value_upcoming [OF Cons] vr unfolding Cons fl
      by (cases "v < f") (simp_all add: andVisible_def)
  qed
qed

lemma visible_sets:
  assumes "sorted_wrt (<) (upcoming r)" "filter (\<lambda>x. f \<le> x) (upcoming r) = filter (\<lambda>x. f \<le> x) vs"
    and "\<forall>x\<in>set vs. f \<le> x \<longrightarrow> unat (x - f) < length members"
  shows "orVisible F (ucast f) members r = Some (ok (\<exists>x\<in>set vs. f \<le> x \<and> members ! unat (x - f)))"
    "andVisible F (ucast f) members r = Some (ok (\<forall>x\<in>set vs. f \<le> x \<longrightarrow> members ! unat (x - f)))"
proof -
  have "set (filter (\<lambda>x. f \<le> x) (upcoming r)) = set (filter (\<lambda>x. f \<le> x) vs)" using assms(2) by simp
  then have h: "\<forall>x\<in>set (upcoming r). f \<le> x \<longrightarrow> unat (ucast x - ucast f :: u64) < length members"
    using assms(3) by (auto simp: index_64)
  show "orVisible F (ucast f) members r = Some (ok (\<exists>x\<in>set vs. f \<le> x \<and> members ! unat (x - f)))"
    "andVisible F (ucast f) members r = Some (ok (\<forall>x\<in>set vs. f \<le> x \<longrightarrow> members ! unat (x - f)))"
    unfolding orVisible_spec [OF assms(1) h] andVisible_spec [OF assms(1) h] unfolding assms(2)
    by (auto simp: index_64)
qed

lemma expr_visible_spec:
  assumes "sorted_wrt (<) (content (se_set e))" "sorted units" "units \<noteq> []" "\<forall>u\<in>set units. u < f"
    and "\<forall>x\<in>set (content (se_set e)). f \<le> x \<longrightarrow> unat (x - f) < length members"
  shows "expr_visible F (ucast f) units exclude members e =
    Some (ok (set_visible f units exclude members (se_op e) (content (se_set e))))"
proof -
  let ?vs = "content (se_set e)" and ?r = "ef_reader F (se_set e)"
  obtain b r where s: "isSubset F (ucast f) units ?r = Some (b, r)" "b \<longleftrightarrow> (\<forall>x\<in>set ?vs. x < f \<longrightarrow> x \<in> set units)"
      "b \<Longrightarrow> upcoming r = filter (\<lambda>x. f \<le> x) ?vs"
    using isSubset_spec [OF assms(1,2), of f] by blast
  obtain c q where t: "emptyIntersection F units ?r = (c, q)" "c \<longleftrightarrow> (\<forall>x\<in>set ?vs. x \<notin> set units)"
      "c \<Longrightarrow> filter (\<lambda>x. f \<le> x) (upcoming q) = filter (\<lambda>x. f \<le> x) ?vs" "c \<Longrightarrow> sorted_wrt (<) (upcoming q)"
    using emptyIntersection_spec [OF assms(1-4)] by blast
  define P Q where "P \<longleftrightarrow> (\<exists>x\<in>set ?vs. x < f \<and> x \<notin> set units)" and "Q \<longleftrightarrow> (\<exists>x\<in>set ?vs. x < f \<and> x \<in> set units)"
  note PQ = this
  have b: "b \<longleftrightarrow> \<not> P" and c: "c \<longleftrightarrow> \<not> Q" using assms(4) by (auto simp: s(2) t(2) PQ)
  note v = visible_sets [OF _ _ assms(5)]
  have r: "orVisible F (ucast f) members r = Some (ok (\<exists>x\<in>set ?vs. f \<le> x \<and> members ! unat (x - f)))"
      "andVisible F (ucast f) members r = Some (ok (\<forall>x\<in>set ?vs. f \<le> x \<longrightarrow> members ! unat (x - f)))" if b
    by (rule v; simp add: s(3) [OF that] assms(1) sorted_wrt_filter)+
  have q: "orVisible F (ucast f) members q = Some (ok (\<exists>x\<in>set ?vs. f \<le> x \<and> members ! unat (x - f)))"
      "andVisible F (ucast f) members q = Some (ok (\<forall>x\<in>set ?vs. f \<le> x \<longrightarrow> members ! unat (x - f)))" if c
    using v [OF t(4) [OF that] t(3) [OF that]] by auto
  show ?thesis
    using r q b c
    by (cases "se_op e"; cases exclude; cases b; cases c)
      (simp_all add: expr_visible_def set_visible_split PQ [symmetric] s(1) t(1))
qed

lemma slice_loop_spec:
  assumes "sorted units" "units \<noteq> []" "\<forall>u\<in>set units. u < f"
    and "sorted_wrt (<) (map fst sets)"
    and "\<And>i e. (i, e) \<in> set sets \<Longrightarrow> f \<le> i \<and> unat (i - f) < length members \<and>
      sorted_wrt (<) (content (se_set e)) \<and> (\<forall>x\<in>set (content (se_set e)). x < i)"
  shows "\<exists>ms. slice_loop F (ucast f) units exclude sets members = Some (ok ms) \<and> length ms = length members \<and>
    (\<forall>k. k \<notin> (\<lambda>(i, e). unat (i - f)) ` set sets \<longrightarrow> ms ! k = members ! k) \<and>
    (\<forall>(i, e)\<in>set sets. ms ! unat (i - f) = set_visible f units exclude ms (se_op e) (content (se_set e)))"
  using assms(4,5)
proof (induction sets arbitrary: members)
  case Nil
  then show ?case by simp
next
  case (Cons ie sets)
  obtain i e where ie: "ie = (i, e)" by (cases ie)
  have i: "f \<le> i" "unat (i - f) < length members" "sorted_wrt (<) (content (se_set e))"
      "\<And>x. x \<in> set (content (se_set e)) \<Longrightarrow> x < i"
    using Cons.prems(2) [of i e] by (auto simp: ie)
  have idx: "unat (x - f) < unat (i - f)" if "f \<le> x" "x < i" for x i
    using that by (simp add: unat_sub word_less_nat_alt word_le_nat_alt)
  have inr: "\<forall>x\<in>set (content (se_set e)). f \<le> x \<longrightarrow> unat (x - f) < length members"
    using i(2,4) idx [of _ i] by fastforce
  let ?v = "set_visible f units exclude members (se_op e) (content (se_set e))"
  obtain ms where ms: "slice_loop F (ucast f) units exclude sets (members[unat (i - f) := ?v]) = Some (ok ms)"
      "length ms = length members"
      "\<And>k. k \<notin> (\<lambda>(i, e). unat (i - f)) ` set sets \<Longrightarrow> ms ! k = members[unat (i - f) := ?v] ! k"
      "\<forall>(i, e)\<in>set sets. ms ! unat (i - f) = set_visible f units exclude ms (se_op e) (content (se_set e))"
    using Cons.IH [of "members[unat (i - f) := ?v]"] Cons.prems by fastforce
  have later: "i < j" if "(j, d) \<in> set sets" for j d using Cons.prems(1) that by (force simp: ie)
  have keep: "ms ! unat (x - f) = members[unat (i - f) := ?v] ! unat (x - f)" if "f \<le> x" "x \<le> i" for x
    using ms(3) [of "unat (x - f)"] idx [OF that(1)] later that(2) by (force dest: order.strict_trans1)
  have "item_visible f units exclude ms x = item_visible f units exclude members x" if "x \<in> set (content (se_set e))" for x
    using keep [of x] i(4) [OF that] idx [of x i] by (auto simp: item_visible_def not_less)
  then have "set_visible f units exclude ms (se_op e) (content (se_set e)) = ?v"
    by (simp add: set_visible_def split: SetOp.split)
  moreover have "ms ! unat (i - f) = ?v" using keep [of i] i(1,2) by simp
  moreover have "slice_loop F (ucast f) units exclude (ie # sets) members = Some (ok ms)"
    using expr_visible_spec [OF i(3) assms(1-3) inr, of exclude] i(1,2) ms(1)
    by (simp add: ie index_64 ok_def)
  ultimately show ?case using ms(2-4) by (auto simp: ie)
qed

end

section \<open>The facts of a sliced lookup\<close>

lemma find_filter_unique:
  assumes "\<And>x y. x \<in> set xs \<Longrightarrow> y \<in> set xs \<Longrightarrow> P x \<Longrightarrow> P y \<Longrightarrow> x = y"
  shows "find P (filter V xs) = (case find P xs of None \<Rightarrow> None | Some x \<Rightarrow> if V x then Some x else None)"
  using assms
proof (induction xs)
  case (Cons x xs)
  then have IH: "find P (filter V xs) = (case find P xs of None \<Rightarrow> None | Some x \<Rightarrow> if V x then Some x else None)"
    by (meson list.set_intros(2))
  have "find P xs = None" if "P x" "x \<notin> set xs" using Cons.prems [of x] that by (auto simp: find_None_iff)
  moreover have "find P xs = Some x" if "P x" "x \<in> set xs"
    using find_unique [of xs P x] Cons.prems that by auto
  ultimately show ?case using IH by (cases "x \<in> set xs") auto
qed simp

context lookup_contract
begin

lemma Sliced_idByKey:
  "idByKey (Sliced L ow s) t k = (case facts_by_key (filter (\<lambda>a. owner_visible ow s (a_id a)) fs) t k of
     None \<Rightarrow> WordId_invalid | Some a \<Rightarrow> a_id a)"
proof -
  have "facts_by_key (filter (\<lambda>a. owner_visible ow s (a_id a)) fs) t k =
      (case facts_by_key fs t k of None \<Rightarrow> None | Some a \<Rightarrow> if owner_visible ow s (a_id a) then Some a else None)"
    unfolding facts_by_key_def using facts_ok_key_inj [OF facts_ok] by (intro find_filter_unique) auto
  moreover have "WordId_bool (a_id a)" if "facts_by_key fs t k = Some a" for a
    using fact_valid [of a] facts_by_key_Some [OF facts_ok] that by (auto simp: WordId_bool_def)
  ultimately show ?thesis
    by (auto simp: Sliced_def idByKey Let_def WordId_bool_def split: option.split)
qed

lemma Sliced_typeById:
  "typeById (Sliced L ow s) i = (case facts_by_id (filter (\<lambda>a. owner_visible ow s (a_id a)) fs) i of
     None \<Rightarrow> WordId_invalid | Some a \<Rightarrow> a_type a)"
proof -
  have "facts_by_id (filter (\<lambda>a. owner_visible ow s (a_id a)) fs) i =
      (if owner_visible ow s i then facts_by_id fs i else None)"
    unfolding facts_by_id_def by (induction fs) auto
  then show ?thesis by (simp add: Sliced_def typeById)
qed

lemma Sliced_enumerate:
  "map Ref_view (enumerate (Sliced L ow s) a b) = facts_between (filter (\<lambda>a. owner_visible ow s (a_id a)) fs) a b"
proof -
  have "map Ref_view (enumerate (Sliced L ow s) a b) =
      filter (\<lambda>a. owner_visible ow s (a_id a)) (map Ref_view (enumerate L a b))"
    by (simp add: Sliced_def FactIterator_filter_eq filter_map o_def)
  then show ?thesis by (simp add: enumerate facts_between_def) (rule filter_cong, auto)
qed

lemma Sliced_seek:
  assumes "n \<le> length start"
  shows "map Ref_view (seek (Sliced L ow s) t start n) = facts_prefix (filter (\<lambda>a. owner_visible ow s (a_id a)) fs) t start n"
proof -
  have "map Ref_view (seek (Sliced L ow s) t start n) =
      filter (\<lambda>a. owner_visible ow s (a_id a)) (map Ref_view (seek L t start n))"
    by (simp add: Sliced_def FactIterator_filter_eq filter_map o_def)
  then show ?thesis by (simp add: seek [OF assms] facts_prefix_def filter_sort conj_commute)
qed

end

section \<open>Properties\<close>

text \<open>
  What a database guarantees of its ownership sets: they are iterated in ascending order of id, the
  ids lie in the given range, and the members of a set, at least one, are units or earlier sets.
\<close>

definition ownership_ok :: "('e \<Rightarrow> u32 list) \<Rightarrow> u32 \<Rightarrow> 'e Ownership \<Rightarrow> bool" where
  "ownership_ok content f ow \<longleftrightarrow>
     fst (set_sizes ow) = ucast f \<and> sorted_wrt (<) (map fst (getSetIterator ow)) \<and>
     (\<forall>(i, e)\<in>set (getSetIterator ow). f \<le> i \<and> i \<noteq> INVALID_USET \<and> unat (i - f) < unat (snd (set_sizes ow)) \<and>
        sorted_wrt (<) (content (se_set e)) \<and> content (se_set e) \<noteq> [] \<and> (\<forall>x\<in>set (content (se_set e)). x < i))"

text \<open>The meaning of a member of a set in a slice.\<close>

definition member_visible :: "u32 \<Rightarrow> UnitId list \<Rightarrow> bool \<Rightarrow> Slice \<Rightarrow> u32 \<Rightarrow> bool" where
  "member_visible f units exclude s x =
     (if x < f then (x \<in> set units) \<noteq> exclude else Slice_visible s x = ok True)"

lemma item_member_visible:
  assumes "x < i" "i \<noteq> INVALID_USET" "f \<le> i" "unat (i - f) < length ms"
  shows "member_visible f units exclude \<lparr>sl_first = f, sl_set = ms\<rparr> x = item_visible f units exclude ms x"
proof -
  have "x \<noteq> INVALID_USET" using assms(1) unat_lt_32 [of i] by (auto simp: INVALID_USET_def word_less_nat_alt)
  moreover have "unat (x - f) < length ms" if "f \<le> x"
    using that assms by (simp add: unat_sub word_less_nat_alt word_le_nat_alt)
  ultimately show ?thesis
    using leD [of f x] leI [of x f] by (auto simp: member_visible_def item_visible_def Slice_visible_def)
qed

lemma slice_members:
  assumes "elias_fano F content view" "ownership_ok content f ow" "sorted units" "\<forall>u\<in>set units. u < f"
  shows "\<exists>ms. make_slice F ow units exclude = Some (ok \<lparr>sl_first = f, sl_set = ms\<rparr>) \<and> length ms = unat (snd (set_sizes ow)) \<and>
    (\<forall>(i, e)\<in>set (getSetIterator ow).
       ms ! unat (i - f) = set_visible f units exclude ms (se_op e) (content (se_set e)))"
proof (cases "units = []")
  case False
  let ?n = "unat (snd (set_sizes ow))"
  have "\<exists>ms. slice_loop F (ucast f) units exclude (getSetIterator ow) (replicate ?n False) = Some (ok ms) \<and>
      length ms = length (replicate ?n False) \<and>
      (\<forall>k. k \<notin> (\<lambda>(i, e). unat (i - f)) ` set (getSetIterator ow) \<longrightarrow> ms ! k = replicate ?n False ! k) \<and>
      (\<forall>(i, e)\<in>set (getSetIterator ow). ms ! unat (i - f) = set_visible f units exclude ms (se_op e) (content (se_set e)))"
    using assms(2) by (intro elias_fano.slice_loop_spec [OF assms(1,3) False assms(4)]) (auto simp: ownership_ok_def)
  then show ?thesis using False assms(2)
    by (auto simp: make_slice_def ownership_ok_def split: prod.split)
next
  case True
  let ?n = "unat (snd (set_sizes ow))" and ?ms = "replicate (unat (snd (set_sizes ow))) exclude"
  have "?ms ! unat (i - f) = set_visible f units exclude ?ms (se_op e) (content (se_set e))"
    if ie: "(i, e) \<in> set (getSetIterator ow)" for i e
  proof -
    have h: "f \<le> i" "unat (i - f) < ?n" "content (se_set e) \<noteq> []" "\<And>x. x \<in> set (content (se_set e)) \<Longrightarrow> x < i"
      using assms(2) ie by (auto simp: ownership_ok_def)
    have "unat (x - f) < ?n" if "x \<in> set (content (se_set e))" "f \<le> x" for x
      using h(2) h(4) [OF that(1)] that(2) h(1) by (simp add: unat_sub word_less_nat_alt word_le_nat_alt)
    then have "item_visible f units exclude ?ms x = exclude" if "x \<in> set (content (se_set e))" for x
      using that True by (simp add: item_visible_def not_less)
    then show ?thesis using h(2,3) by (auto simp: set_visible_def neq_Nil_conv split: SetOp.split)
  qed
  then show ?thesis using True assms(2)
    by (intro exI [of _ ?ms]) (auto simp: make_slice_def ownership_ok_def split: prod.split)
qed

text \<open>
  C15. Computing a slice always ends, with a slice in which an ownership set is visible exactly if
  some member of it (for an \<open>Or\<close> set) or every member (for an \<open>And\<close> set) is visible, where a unit is
  visible if it is among the included units or not among the excluded ones. Members precede their
  set, so this determines the slice.
\<close>

theorem slice_visibility:
  assumes "elias_fano F content view" "ownership_ok content f ow" "sorted units" "\<forall>u\<in>set units. u < f"
  shows "\<exists>s. make_slice F ow units exclude = Some (ok s) \<and>
    (\<forall>(i, e)\<in>set (getSetIterator ow). Slice_visible s i = ok (case se_op e of
       Or \<Rightarrow> \<exists>x\<in>set (content (se_set e)). member_visible f units exclude s x
     | And \<Rightarrow> \<forall>x\<in>set (content (se_set e)). member_visible f units exclude s x))"
proof -
  obtain ms where ms: "make_slice F ow units exclude = Some (ok \<lparr>sl_first = f, sl_set = ms\<rparr>)"
      "length ms = unat (snd (set_sizes ow))"
      "\<And>i e. (i, e) \<in> set (getSetIterator ow) \<Longrightarrow>
        ms ! unat (i - f) = set_visible f units exclude ms (se_op e) (content (se_set e))"
    using slice_members [OF assms] by blast
  have "Slice_visible \<lparr>sl_first = f, sl_set = ms\<rparr> i = ok (case se_op e of
      Or \<Rightarrow> \<exists>x\<in>set (content (se_set e)). member_visible f units exclude \<lparr>sl_first = f, sl_set = ms\<rparr> x
    | And \<Rightarrow> \<forall>x\<in>set (content (se_set e)). member_visible f units exclude \<lparr>sl_first = f, sl_set = ms\<rparr> x)"
    if ie: "(i, e) \<in> set (getSetIterator ow)" for i e
  proof -
    have h: "f \<le> i" "i \<noteq> INVALID_USET" "unat (i - f) < length ms" "\<And>x. x \<in> set (content (se_set e)) \<Longrightarrow> x < i"
      using assms(2) ie ms(2) by (auto simp: ownership_ok_def)
    then show ?thesis using ms(3) [OF ie] item_member_visible [OF _ h(2,1,3)]
      by (auto simp: set_visible_def Slice_visible_def split: SetOp.split)
  qed
  then show ?thesis using ms(1) by blast
qed

text \<open>Two units, a set \<open>{0} \<or> {1}\<close>, and the conjunction of that set with unit 1.\<close>

definition sample_ownership :: "u32 list Ownership" where
  "sample_ownership =
     \<lparr>getOwner = (\<lambda>i. if i = 1024 then 2 else if i = 1025 then 3 else INVALID_USET), set_sizes = (2, 2),
      getSetIterator = [(2, \<lparr>se_op = Or, se_set = [0, 1]\<rparr>), (3, \<lparr>se_op = And, se_set = [1, 2]\<rparr>)],
      nextSetId = 4, lookupSet = (\<lambda>_. INVALID_USET)\<rparr>"

lemma sample_ownership_ok: "ownership_ok (\<lambda>e. e) 2 sample_ownership"
  by (simp add: ownership_ok_def sample_ownership_def INVALID_USET_def)

theorem slice_visibility_witness:
  "\<exists>s. make_slice list_ef sample_ownership [1] True = Some (ok s) \<and> Slice_visible s 2 = ok True \<and>
     Slice_visible s 3 = ok False"
  using slice_visibility [OF list_ef.elias_fano_axioms sample_ownership_ok, of "[1]" True]
  by (auto simp: sample_ownership_def member_visible_def)



text \<open>The two members that do not restrict their answers to the slice.\<close>

lemma Sliced_factById_unrestricted: "factById (Sliced L ow s) i = factById L i"
  by (simp add: Sliced_def)

lemma Sliced_enumerateBack_is_forward:
  "map (a_id \<circ> Ref_view) (enumerateBack (Sliced (FactSet_lookup sample_set) sample_ownership
     \<lparr>sl_first = 2, sl_set = [True, True]\<rparr>) 1024 WordId_invalid) = [1024, 1025]"
  by code_simp

end
