(* ===== verification/Ownerships.thy ===== *)
theory Ownerships
  imports Usets Inventories Lookups
begin

text \<open>
  The second half of \<^verbatim>\<open>ownership.cpp\<close>: completing the ownership of facts along references
  (\<^verbatim>\<open>completeOwnership\<close>) and packing the result (\<^verbatim>\<open>computeOwnership\<close>). The counters that are only
  logged are left out.
\<close>

section \<open>Completing ownership\<close>

record OwnState =
  os_facts :: "uaddr option list"
  os_mem :: UsetMem
  os_usets :: Usets
  os_touched :: "uaddr list"

text \<open>One referenced fact.\<close>

definition complete_ref :: "uaddr \<Rightarrow> Id \<Rightarrow> OwnState \<Rightarrow> OwnState result" where
  "complete_ref owner i st =
     (let k = unat i; m = os_mem st; s = os_usets st in
      if \<not> k < length (os_facts st) then raise Undefined
      else case os_facts st ! k of
        None \<Rightarrow> rbind (Uset_use owner 1 m) (\<lambda>m. ok (st\<lparr>os_facts := (os_facts st)[k := Some owner], os_mem := m\<rparr>))
      | Some me \<Rightarrow>
          rbind (Mem_get me m) (\<lambda>u.
          case us_ptr u of
            PUset added \<Rightarrow>
              rbind (Uset_use added 1 m) (\<lambda>m.
              rbind (Usets_drop me m s) (\<lambda>(m, s).
              ok (st\<lparr>os_facts := (os_facts st)[k := Some added], os_mem := m, os_usets := s\<rparr>)))
          | PNull \<Rightarrow>
              rbind (Usets_merge me owner m s) (\<lambda>(p, m, s).
              rbind (Uset_link me (PUset p) m) (\<lambda>m.
              ok (st\<lparr>os_facts := (os_facts st)[k := Some p], os_mem := m, os_usets := s,
                os_touched := os_touched st @ [me]\<rparr>)))
          | PTree _ \<Rightarrow> raise Undefined))"

definition reset_link :: "uaddr \<Rightarrow> OwnState \<Rightarrow> OwnState result" where
  "reset_link p st =
     rbind (Uset_link p PNull (os_mem st)) (\<lambda>m.
     rbind (Usets_drop p m (os_usets st)) (\<lambda>(m, s). ok (st\<lparr>os_mem := m, os_usets := s\<rparr>)))"

definition complete_fact :: "Inventory \<Rightarrow> Ref \<Rightarrow> OwnState \<Rightarrow> OwnState result" where
  "complete_fact inventory f st =
     (let k = unat (ref_id f) in
      if \<not> k < length (os_facts st) then raise Undefined
      else case os_facts st ! k of
        None \<Rightarrow> ok st
      | Some owner \<Rightarrow>
          rbind (Usets_promote owner (os_mem st) (os_usets st)) (\<lambda>(m, s).
          case lookupPredicate inventory (ref_type f) of
            None \<Rightarrow> raise Undefined
          | Some predicate \<Rightarrow>
              let refs = Predicate_traverse predicate (\<lambda>i _ refs. refs @ [i]) (ref_clause f) [] in
              rbind (rfold (complete_ref owner) refs (st\<lparr>os_mem := m, os_usets := s, os_touched := []\<rparr>)) (\<lambda>st.
              rfold reset_link (os_touched st) st)))"

definition completeOwnership :: "Inventory \<Rightarrow> Lookup \<Rightarrow> OwnState \<Rightarrow> OwnState result" where
  "completeOwnership inventory lookup st =
     (if os_facts st = [] then ok st
      else rfold (complete_fact inventory)
        (enumerateBack lookup (of_nat (length (os_facts st))) WordId_invalid) st)"

section \<open>Packing the result\<close>

record 'e ComputedOwnership =
  co_firstId :: UsetId
  co_sets :: "'e SetExpr option list"
  co_facts :: "(Id \<times> UsetId) list"

definition fact_usetid :: "UsetMem \<Rightarrow> uaddr option \<Rightarrow> UsetId result" where
  "fact_usetid m f = (case f of None \<Rightarrow> ok INVALID_USET | Some a \<Rightarrow> rbind (Mem_get a m) (\<lambda>u. ok (us_id u)))"

text \<open>The loop counter has 32 bits: with \<open>2 ^ 32\<close> facts the loop would not end.\<close>

partial_function (option) pack_loop ::
    "UsetMem \<Rightarrow> uaddr option list \<Rightarrow> u32 \<Rightarrow> UsetId \<Rightarrow> (Id \<times> UsetId) list \<Rightarrow> (Id \<times> UsetId) list result option" where
  "pack_loop m fs i current out =
     (if unat i < length fs then
        (case fact_usetid m (fs ! unat i) of
           Inl e \<Rightarrow> Some (raise e)
         | Inr usetid \<Rightarrow>
             if usetid \<noteq> current then pack_loop m fs (i + 1) usetid (out @ [(ucast i, usetid)])
             else pack_loop m fs (i + 1) current out)
      else Some (ok out))"

declare pack_loop.simps [code]

text \<open>The end of \<^verbatim>\<open>computeOwnership\<close>, after the trie has been flattened.\<close>

definition finish_ownership ::
    "('e, 'r) EliasFano \<Rightarrow> Inventory \<Rightarrow> Lookup \<Rightarrow> OwnState \<Rightarrow> 'e ComputedOwnership result option" where
  "finish_ownership F inventory lookup st =
     (case completeOwnership inventory lookup st of
        Inl e \<Rightarrow> Some (raise e)
      | Inr st \<Rightarrow>
          map_option (\<lambda>x. rbind x (\<lambda>factOwners.
            rbind (Usets_toEliasFano F (os_mem st) (os_usets st)) (\<lambda>sets.
            ok \<lparr>co_firstId = ut_firstId (os_usets st), co_sets = sets, co_facts = factOwners\<rparr>)))
            (pack_loop (os_mem st) (os_facts st) (ucast WordId_lowest) INVALID_USET []))"

end
