(* ===== verification/Trie_Array.thy ===== *)
theory Trie_Array
  imports Ownerships
begin

text \<open>
  \<^verbatim>\<open>ownership/triearray.h\<close>, the map from ranges of ids to ownership sets, and its clients in
  \<^verbatim>\<open>ownership.cpp\<close>: \<^verbatim>\<open>fillOwnership\<close>, \<^verbatim>\<open>collectUsets\<close> and \<^verbatim>\<open>computeOwnership\<close>. The forests that a
  \<^verbatim>\<open>Pool\<close> (\<^verbatim>\<open>ownership/pool.h\<close>) holds are part of the tree here.
\<close>

section \<open>Trees\<close>

text \<open>
  A tree is a tagged pointer: nothing, a value, a forest, or, while an insertion is under way, a link
  to another tree. A link and a value look the same in memory, so reading one as the other is an
  error; a null link is the empty tree. A pointer to a tree is the path to it: the index in the top
  level array and then those in the forests.
\<close>

type_synonym path = "nat list"

datatype Tree = TNull | TValue uaddr | TLink path | TForest "Tree list"

definition Tree_of_link :: "path option \<Rightarrow> Tree" where
  "Tree_of_link p = (case p of None \<Rightarrow> TNull | Some q \<Rightarrow> TLink q)"

definition Tree_value :: "Tree \<Rightarrow> uaddr option result" where
  "Tree_value t =
     (case t of TNull \<Rightarrow> ok None | TValue a \<Rightarrow> ok (Some a) | TForest _ \<Rightarrow> ok None | TLink _ \<Rightarrow> raise Undefined)"

definition Tree_link :: "Tree \<Rightarrow> path option result" where
  "Tree_link t = (case t of TNull \<Rightarrow> ok None | TLink p \<Rightarrow> ok (Some p) | _ \<Rightarrow> raise Undefined)"

definition Tree_isForest :: "Tree \<Rightarrow> bool" where
  "Tree_isForest t = (case t of TForest _ \<Rightarrow> True | _ \<Rightarrow> False)"

fun Tree_at :: "Tree \<Rightarrow> path \<Rightarrow> Tree option" where
  "Tree_at t [] = Some t"
| "Tree_at (TForest ts) (i # p) = (if i < length ts then Tree_at (ts ! i) p else None)"
| "Tree_at t (i # p) = None"

fun Tree_put :: "Tree \<Rightarrow> path \<Rightarrow> Tree \<Rightarrow> Tree" where
  "Tree_put t [] x = x"
| "Tree_put (TForest ts) (i # p) x = (if i < length ts then TForest (ts[i := Tree_put (ts ! i) p x]) else TForest ts)"
| "Tree_put t (i # p) x = t"

definition FANOUT_TOP :: nat where
  "FANOUT_TOP = 65536"

definition FANOUT :: nat where
  "FANOUT = 16"

definition BLOCK :: nat where
  "BLOCK = 65536"

primrec blockSize :: "nat \<Rightarrow> nat" where
  "blockSize 0 = BLOCK"
| "blockSize (Suc level) = blockSize level div FANOUT"

section \<open>Traversal\<close>

text \<open>
  The function applied to a leaf gets the pointer to it, the tree, the first key, the number of keys
  and the size of the block; it returns the tree to store there. The loop over a forest ends because
  it moves on by at least one key.
\<close>

type_synonym 's leaf_fun = "path \<Rightarrow> Tree \<Rightarrow> nat \<Rightarrow> nat \<Rightarrow> nat \<Rightarrow> 's \<Rightarrow> (Tree \<times> 's) result"

lemma blockSize_div: "blockSize level = BLOCK div 16 ^ level"
  by (induction level) (simp_all add: FANOUT_def div_mult2_eq [symmetric] mult.commute)

lemma blockSize_zero: "5 \<le> level \<Longrightarrow> blockSize level = 0"
  using power_increasing [of 5 level "16 :: nat"] by (simp add: blockSize_div BLOCK_def)

function traverse_tree :: "'s leaf_fun \<Rightarrow> nat \<Rightarrow> path \<Rightarrow> Tree \<Rightarrow> nat \<Rightarrow> nat \<Rightarrow> nat \<Rightarrow> 's \<Rightarrow> (Tree \<times> 's) result"
  and traverse_forest :: "'s leaf_fun \<Rightarrow> nat \<Rightarrow> path \<Rightarrow> Tree list \<Rightarrow> nat \<Rightarrow> nat \<Rightarrow> nat \<Rightarrow> nat \<Rightarrow> 's \<Rightarrow> (Tree list \<times> 's) result" where
  "traverse_tree f level p tree key start sz st =
     rbind (if Tree_isForest tree then ok (tree, st) else f p tree key sz (blockSize level) st) (\<lambda>(tree, st).
     case tree of
       TForest ts \<Rightarrow>
         let block = blockSize (level + 1) in
         if block \<noteq> 0 then
           rbind (traverse_forest f level p ts (start div block) key (start mod block) sz st) (\<lambda>(ts, st).
           ok (TForest ts, st))
         else ok (tree, st)
     | _ \<Rightarrow> ok (tree, st))"
| "traverse_forest f level p ts t key i sz st =
     (if sz = 0 then ok (ts, st)
      else if \<not> t < length ts \<or> \<not> i < blockSize (level + 1) then raise Undefined
      else
        let n = min sz (blockSize (level + 1) - i) in
        rbind (traverse_tree f (level + 1) (p @ [t]) (ts ! t) key i n st) (\<lambda>(tree, st).
        traverse_forest f level p (ts[t := tree]) (t + 1) (key + n) 0 (sz - n) st))"
  by pat_completeness auto
termination
proof (relation "measures [\<lambda>x. case x of Inl (f, level, _) \<Rightarrow> 12 - 2 * level | Inr (f, level, _) \<Rightarrow> 11 - 2 * level,
      \<lambda>x. case x of Inl _ \<Rightarrow> 0 | Inr (f, level, p, ts, t, key, i, sz, st) \<Rightarrow> sz]", goal_cases)
  case (2 f level)
  then have "level + 1 < 5" using blockSize_zero [of "level + 1"] by (metis leI)
  then show ?case by simp
next
  case (3 f level)
  then have "level + 1 < 5" using blockSize_zero [of "level + 1"] by (metis leI not_less_zero)
  then have "10 - 2 * level < 11 - 2 * level" by simp
  then show ?case by simp
qed auto

declare traverse_tree.simps [simp del] traverse_forest.simps [simp del]

record Trie =
  tr_trees :: "nat \<Rightarrow> Tree"
  tr_minkey :: u64
  tr_maxkey :: u64

definition Trie_new :: Trie where
  "Trie_new = \<lparr>tr_trees = (\<lambda>_. TNull), tr_minkey = - 1, tr_maxkey = 0\<rparr>"

definition location :: "u64 \<Rightarrow> nat \<times> nat" where
  "location key = (unat key div BLOCK, unat key mod BLOCK)"

text \<open>The loop over the blocks of a range; the last block is traversed after it.\<close>

function traverse_blocks ::
    "'s leaf_fun \<Rightarrow> (nat \<Rightarrow> Tree) \<Rightarrow> nat \<Rightarrow> nat \<Rightarrow> nat \<Rightarrow> nat \<Rightarrow> nat \<Rightarrow> 's \<Rightarrow> ((nat \<Rightarrow> Tree) \<times> 's) result" where
  "traverse_blocks f trees key first_block first_index last_block last_index st =
     (if \<not> first_block < FANOUT_TOP then raise Undefined
      else if first_block < last_block then
        let n = BLOCK - first_index in
        rbind (traverse_tree f 0 [first_block] (trees first_block) key first_index n st) (\<lambda>(tree, st).
        traverse_blocks f (trees(first_block := tree)) (key + n) (first_block + 1) 0 last_block last_index st)
      else
        rbind (traverse_tree f 0 [first_block] (trees first_block) key first_index (last_index + 1 - first_index) st)
          (\<lambda>(tree, st). ok (trees(first_block := tree), st)))"
  by pat_completeness auto
termination
  by (relation "measure (\<lambda>(f, trees, key, first_block, first_index, last_block, last_index, st). last_block - first_block)") auto

declare traverse_blocks.simps [simp del]

definition traverse_range :: "'s leaf_fun \<Rightarrow> u64 \<Rightarrow> u64 \<Rightarrow> Trie \<Rightarrow> 's \<Rightarrow> (Trie \<times> 's) result" where
  "traverse_range f start n trie st =
     (case location start of (first_block, first_index) \<Rightarrow>
      case location (start + (n - 1)) of (last_block, last_index) \<Rightarrow>
        rbind (traverse_blocks f (tr_trees trie) (unat start) first_block first_index last_block last_index st)
          (\<lambda>(trees, st). ok (trie\<lparr>tr_trees := trees\<rparr>, st)))"

definition traverse_all :: "'s leaf_fun \<Rightarrow> Trie \<Rightarrow> 's \<Rightarrow> (Trie \<times> 's) result" where
  "traverse_all f trie st =
     (if tr_minkey trie \<le> tr_maxkey trie
      then traverse_range f (tr_minkey trie) (tr_maxkey trie - tr_minkey trie + 1) trie st
      else ok (trie, st))"

section \<open>Insertion\<close>

record Ids =
  ids_start :: Id
  ids_finish :: Id

record InsState =
  is_mem :: UsetMem
  is_values :: "uaddr list"
  is_null_link :: "path option"

definition Ptr_tree :: "Ptr \<Rightarrow> path option result" where
  "Ptr_tree p = (case p of PNull \<Rightarrow> ok None | PTree q \<Rightarrow> ok (Some q) | PUset _ \<Rightarrow> raise Undefined)"

text \<open>The leaf function of \<^verbatim>\<open>insert\<close>.\<close>

definition insert_leaf :: "InsState leaf_fun" where
  "insert_leaf p tree key sz block st =
     rbind (Tree_value tree) (\<lambda>v.
     if sz = block then
       (case v of
          Some value \<Rightarrow>
            rbind (Mem_get value (is_mem st)) (\<lambda>u.
            rbind (Ptr_tree (us_ptr u)) (\<lambda>prev.
            rbind (Uset_link value (PTree p) (is_mem st)) (\<lambda>m.
            if prev = None then ok (Tree_of_link prev, st\<lparr>is_mem := m, is_values := is_values st @ [value]\<rparr>)
            else rbind (Uset_use value (- 1) m) (\<lambda>m. ok (Tree_of_link prev, st\<lparr>is_mem := m\<rparr>)))))
        | None \<Rightarrow> ok (Tree_of_link (is_null_link st), st\<lparr>is_null_link := Some p\<rparr>))
     else
       rbind (case v of
          Some value \<Rightarrow> Uset_use value (of_nat (FANOUT - 1)) (is_mem st)
        | None \<Rightarrow> ok (is_mem st)) (\<lambda>m.
       ok (TForest (replicate FANOUT tree), st\<lparr>is_mem := m\<rparr>)))"

text \<open>
  Following the links from a tree and storing the new value in each tree on the way; the loop would
  not end on a cycle of links.
\<close>

definition trees_at :: "(nat \<Rightarrow> Tree) \<Rightarrow> path \<Rightarrow> Tree option" where
  "trees_at trees p = (case p of [] \<Rightarrow> None | b # q \<Rightarrow> Tree_at (trees b) q)"

definition trees_put :: "(nat \<Rightarrow> Tree) \<Rightarrow> path \<Rightarrow> Tree \<Rightarrow> nat \<Rightarrow> Tree" where
  "trees_put trees p x = (case p of [] \<Rightarrow> trees | b # q \<Rightarrow> trees(b := Tree_put (trees b) q x))"

partial_function (option) unlink_loop ::
    "path option \<Rightarrow> uaddr \<Rightarrow> (nat \<Rightarrow> Tree) \<Rightarrow> u32 \<Rightarrow> ((nat \<Rightarrow> Tree) \<times> u32) result option" where
  "unlink_loop p upd trees refs =
     (case p of
        None \<Rightarrow> Some (ok (trees, refs))
      | Some q \<Rightarrow>
          (case trees_at trees q of
             None \<Rightarrow> Some (raise Undefined)
           | Some tree \<Rightarrow>
               (case Tree_link tree of
                  Inl e \<Rightarrow> Some (raise e)
                | Inr nxt \<Rightarrow> unlink_loop nxt upd (trees_put trees q (TValue upd)) (refs + 1))))"

declare unlink_loop.simps [code]

type_synonym get_fun = "uaddr option \<Rightarrow> u32 \<Rightarrow> UsetMem \<Rightarrow> (uaddr \<times> UsetMem) result"

definition unlink ::
    "get_fun \<Rightarrow> path option \<Rightarrow> uaddr option \<Rightarrow> (nat \<Rightarrow> Tree) \<times> UsetMem \<Rightarrow> ((nat \<Rightarrow> Tree) \<times> UsetMem) result option" where
  "unlink get p v = (\<lambda>(trees, m).
     (case get v 1 m of
        Inl e \<Rightarrow> Some (raise e)
      | Inr (upd, m) \<Rightarrow>
          map_option (\<lambda>x. rbind x (\<lambda>(trees, refs). rbind (Uset_use upd (refs - 1) m) (\<lambda>m. ok (trees, m))))
            (unlink_loop p upd trees 0)))"

definition then_do :: "'a result option \<Rightarrow> ('a \<Rightarrow> 'b result option) \<Rightarrow> 'b result option" where
  "then_do x f = (case x of None \<Rightarrow> None | Some (Inl e) \<Rightarrow> Some (raise e) | Some (Inr y) \<Rightarrow> f y)"

fun unlink_values ::
    "get_fun \<Rightarrow> uaddr list \<Rightarrow> (nat \<Rightarrow> Tree) \<times> UsetMem \<Rightarrow> ((nat \<Rightarrow> Tree) \<times> UsetMem) result option" where
  "unlink_values get [] = (\<lambda>x. Some (ok x))"
| "unlink_values get (value # vs) = (\<lambda>(trees, m).
     then_do (Some (rbind (Mem_get value m) (\<lambda>u. rbind (Ptr_tree (us_ptr u)) (\<lambda>p.
       rbind (Uset_link value PNull m) (\<lambda>m. ok (p, m)))))) (\<lambda>(p, m).
     then_do (unlink get p (Some value) (trees, m)) (unlink_values get vs)))"

fun insert_ranges :: "Ids list \<Rightarrow> Trie \<times> InsState \<Rightarrow> (Trie \<times> InsState) result" where
  "insert_ranges [] = ok"
| "insert_ranges (r # rs) = (\<lambda>(trie, st).
     rbind (if ids_start r \<le> ids_finish r
            then traverse_range insert_leaf (ids_start r) (ids_finish r - ids_start r + 1) trie st
            else ok (trie, st)) (insert_ranges rs))"

definition Trie_insert :: "Ids list \<Rightarrow> get_fun \<Rightarrow> Trie \<times> UsetMem \<Rightarrow> (Trie \<times> UsetMem) result option" where
  "Trie_insert ranges get = (\<lambda>(trie, m).
     if ranges = [] then Some (ok (trie, m))
     else
       let trie = trie\<lparr>tr_minkey := min (tr_minkey trie) (ids_start (hd ranges)),
                       tr_maxkey := max (tr_maxkey trie) (ids_finish (last ranges))\<rparr> in
       if \<not> tr_maxkey trie \<le> 0xffffffff then Some (raise CheckFailed)
       else
         then_do (Some (insert_ranges ranges (trie, \<lparr>is_mem = m, is_values = [], is_null_link = None\<rparr>)))
           (\<lambda>(trie, st).
         then_do (case is_null_link st of
             None \<Rightarrow> Some (ok (tr_trees trie, is_mem st))
           | Some p \<Rightarrow> unlink get (Some p) None (tr_trees trie, is_mem st)) (\<lambda>(trees, m).
         then_do (unlink_values get (is_values st) (trees, m)) (\<lambda>(trees, m).
         Some (ok (trie\<lparr>tr_trees := trees\<rparr>, m))))))"

section \<open>Reading\<close>

definition foreach_leaf :: "(uaddr \<Rightarrow> 's \<Rightarrow> (uaddr option \<times> 's) result) \<Rightarrow> 's leaf_fun" where
  "foreach_leaf f p tree key sz block st =
     rbind (Tree_value tree) (\<lambda>v.
     case v of
       None \<Rightarrow> ok (tree, st)
     | Some value \<Rightarrow>
         rbind (f value st) (\<lambda>(new_value, st).
         ok (case new_value of None \<Rightarrow> tree | Some a \<Rightarrow> TValue a, st)))"

definition Trie_foreach :: "(uaddr \<Rightarrow> 's \<Rightarrow> (uaddr option \<times> 's) result) \<Rightarrow> Trie \<Rightarrow> 's \<Rightarrow> (Trie \<times> 's) result" where
  "Trie_foreach f = traverse_all (foreach_leaf f)"

definition flatten_leaf :: "(uaddr option list \<times> UsetMem) leaf_fun" where
  "flatten_leaf p tree key sz block = (\<lambda>(vec, m).
     rbind (Tree_value tree) (\<lambda>v.
     if \<not> key + sz \<le> length vec then raise Undefined
     else
       rbind (case v of None \<Rightarrow> ok m | Some value \<Rightarrow> Uset_use value (of_nat sz - 1) m) (\<lambda>m.
       ok (tree, (take key vec @ replicate sz v @ drop (key + sz) vec, m)))))"

definition Trie_flatten :: "Trie \<Rightarrow> UsetMem \<Rightarrow> (uaddr option list \<times> UsetMem) result" where
  "Trie_flatten trie m =
     (if tr_maxkey trie < tr_minkey trie then ok ([], m)
      else rbind (traverse_all flatten_leaf trie (replicate (unat (tr_maxkey trie) + 1) None, m)) (\<lambda>(_, st). ok st))"

section \<open>Filling and collecting\<close>

record OwnershipUnit =
  ou_unit :: u32
  ou_ids :: "Ids list"

text \<open>The function that \<^verbatim>\<open>fillOwnership\<close> hands to \<^verbatim>\<open>insert\<close>: the set with one more unit.\<close>

definition add_unit :: "u32 \<Rightarrow> get_fun" where
  "add_unit unit prev refs m =
     (case prev of
        Some p \<Rightarrow>
          rbind (Mem_get p m) (\<lambda>u.
          let st = SetU32_append (se_set (us_exp u)) unit in
          if us_refs u = refs then ok (p, Mem_put p (u\<lparr>us_exp := (us_exp u)\<lparr>se_set := st\<rparr>\<rparr>) m)
          else
            (case Mem_alloc (Uset_new st Or refs) m of (entry, m) \<Rightarrow>
               rbind (Mem_modify p (\<lambda>u. u\<lparr>us_refs := us_refs u - refs\<rparr>) m) (\<lambda>m. ok (entry, m))))
      | None \<Rightarrow> ok (Mem_alloc (Uset_new (SetU32_append SetU32_new unit) Or refs) m))"

fun fill_loop :: "OwnershipUnit list \<Rightarrow> u32 \<Rightarrow> u32 \<Rightarrow> Trie \<times> UsetMem \<Rightarrow> ((Trie \<times> UsetMem) \<times> u32) result option" where
  "fill_loop [] last_unit max_unit utrie = Some (ok (utrie, max_unit))"
| "fill_loop (data # ds) last_unit max_unit utrie =
     (if \<not> last_unit \<le> ou_unit data then Some (raise CheckFailed)
      else then_do (Trie_insert (ou_ids data) (add_unit (ou_unit data)) utrie)
        (fill_loop ds (ou_unit data) (max (ou_unit data) max_unit)))"

definition fillOwnership :: "OwnershipUnit list \<Rightarrow> ((Trie \<times> UsetMem) \<times> u32) result option" where
  "fillOwnership iter =
     then_do (fill_loop iter 0 0 (Trie_new, Mem_empty)) (\<lambda>(utrie, max_unit). Some (ok (utrie, max_unit + 1)))"

definition collect_value :: "uaddr \<Rightarrow> UsetMem \<times> Usets \<Rightarrow> (uaddr option \<times> UsetMem \<times> Usets) result" where
  "collect_value entry = (\<lambda>(m, s).
     rbind (Mem_get entry m) (\<lambda>u.
     rbind (case us_ptr u of
         PNull \<Rightarrow> rbind (Usets_add entry m s) (\<lambda>(p, m, s). rbind (Uset_link entry (PUset p) m) (\<lambda>m. ok (p, m, s)))
       | PUset p \<Rightarrow> ok (p, m, s)
       | PTree _ \<Rightarrow> raise Undefined) (\<lambda>(p, m, s).
     if p \<noteq> entry then rbind (Uset_drop entry m) (\<lambda>m. ok (Some p, m, s)) else ok (None, m, s))))"

definition collectUsets :: "u32 \<Rightarrow> Trie \<Rightarrow> UsetMem \<Rightarrow> (Trie \<times> UsetMem \<times> Usets) result" where
  "collectUsets numUnits utrie m =
     rbind (Trie_foreach collect_value utrie (m, Usets_new numUnits)) (\<lambda>(utrie, m, s).
     rbind (rfold (\<lambda>a. Uset_link a PNull) (ut_usets s) m) (\<lambda>m. ok (utrie, m, s)))"

definition computeOwnership ::
    "('e, 'r) EliasFano \<Rightarrow> Inventory \<Rightarrow> Lookup \<Rightarrow> OwnershipUnit list \<Rightarrow> 'e ComputedOwnership result option" where
  "computeOwnership F inventory lookup iter =
     then_do (fillOwnership iter) (\<lambda>((utrie, m), numUnits).
     then_do (Some (collectUsets numUnits utrie m)) (\<lambda>(utrie, m, usets).
     then_do (Some (Trie_flatten utrie m)) (\<lambda>(facts, m).
     finish_ownership F inventory lookup \<lparr>os_facts = facts, os_mem = m, os_usets = usets, os_touched = []\<rparr>)))"

end
