(* ===== verification/Trie_Visit.thy ===== *)
theory Trie_Visit
  imports Trie_Array
begin

text \<open>
  The leaves of a trie as a map from paths, and what a traversal does to them: the locale
  \<open>trie_visitor\<close> states what the function applied to the leaves promises, and its lemmas carry this
  through the loops of \<^verbatim>\<open>traverse\<close>. It is interpreted for insertion, collection and flattening.
\<close>

declare blockSize.simps [simp del]

section \<open>Leaves and their keys\<close>

fun leaf_at :: "Tree \<Rightarrow> path \<Rightarrow> Tree option" where
  "leaf_at (TForest ts) [] = None"
| "leaf_at (TForest ts) (i # q) = (if i < length ts then leaf_at (ts ! i) q else None)"
| "leaf_at t [] = Some t"
| "leaf_at t (i # q) = None"

definition leaves :: "(nat \<Rightarrow> Tree) \<Rightarrow> path \<Rightarrow> Tree option" where
  "leaves trees p = (case p of [] \<Rightarrow> None | b # q \<Rightarrow> if b < FANOUT_TOP then leaf_at (trees b) q else None)"

text \<open>The first key and the number of keys of the tree at a path.\<close>

fun offset :: "nat \<Rightarrow> path \<Rightarrow> nat" where
  "offset level [] = 0"
| "offset level (i # q) = i * blockSize (Suc level) + offset (Suc level) q"

definition slot_base :: "path \<Rightarrow> nat" where
  "slot_base p = hd p * BLOCK + offset 0 (tl p)"

definition slot_size :: "path \<Rightarrow> nat" where
  "slot_size p = blockSize (length p - 1)"

definition slot_keys :: "path \<Rightarrow> nat set" where
  "slot_keys p = {slot_base p ..< slot_base p + slot_size p}"

fun tree_ok :: "nat \<Rightarrow> Tree \<Rightarrow> bool" where
  "tree_ok level (TForest ts) \<longleftrightarrow> level < 4 \<and> length ts = FANOUT \<and> (\<forall>t\<in>set ts. tree_ok (Suc level) t)"
| "tree_ok level t \<longleftrightarrow> True"

definition split_leaf :: "path \<Rightarrow> Tree \<Rightarrow> (path \<Rightarrow> Tree option) \<Rightarrow> path \<Rightarrow> Tree option" where
  "split_leaf p t M q = (if q = p then None else if \<exists>i<FANOUT. q = p @ [i] then Some t else M q)"

lemma blockSize_simps:
  "blockSize 0 = 65536" "blockSize 1 = 4096" "blockSize 2 = 256" "blockSize 3 = 16" "blockSize 4 = 1"
  by (simp_all add: blockSize_div BLOCK_def)

lemma blockSize_Suc: "level < 4 \<Longrightarrow> blockSize level = FANOUT * blockSize (Suc level) \<and> 0 < blockSize (Suc level)"
proof -
  assume "level < 4"
  then consider "level = 0" | "level = 1" | "level = 2" | "level = 3" by linarith
  then show ?thesis by cases (simp_all add: FANOUT_def blockSize_div BLOCK_def)
qed

lemma offset_snoc: "offset level (q @ [i]) = offset level q + i * blockSize (Suc (level + length q))"
  by (induction q arbitrary: level) simp_all

lemma slot_base_snoc: "p \<noteq> [] \<Longrightarrow> slot_base (p @ [i]) = slot_base p + i * blockSize (length p)"
  by (cases p) (simp_all add: slot_base_def offset_snoc)

lemma slot_size_snoc: "slot_size (p @ [i]) = blockSize (length p)"
  by (simp add: slot_size_def)

lemma leaf_at_leaf: "\<not> Tree_isForest t \<Longrightarrow> leaf_at t q = (if q = [] then Some t else None)"
  by (cases t; cases q) (simp_all add: Tree_isForest_def)

lemma leaf_at_not_forest: "leaf_at t q = Some x \<Longrightarrow> \<not> Tree_isForest x"
  by (induction t q rule: leaf_at.induct) (auto simp: Tree_isForest_def split: if_splits)

text \<open>The number of keys of a range, which the code computes with 64 bits.\<close>

lemma range_length:
  fixes start fin :: u64
  assumes "start \<le> fin" "unat fin < 2 ^ 32"
  shows "0 < fin - start + 1" "unat start + unat (fin - start + 1) = unat fin + 1"
proof -
  have d: "unat (fin - start) = unat fin - unat start" using assms(1) by (rule unat_sub)
  have "unat (fin - start) + 1 < 2 ^ 64" using assms(2) d by simp
  then have n: "unat (fin - start + 1) = unat fin - unat start + 1" using d by (subst unat_word_ariths) simp
  then have "fin - start + 1 \<noteq> 0" by auto
  then show "0 < fin - start + 1" by (simp add: word_neq_0_conv)
  show "unat start + unat (fin - start + 1) = unat fin + 1" unfolding n using assms(1) by (simp add: word_le_nat_alt)
qed

section \<open>Visitors\<close>

locale trie_visitor =
  fixes f :: "'s leaf_fun" and I :: "(path \<Rightarrow> Tree option) \<Rightarrow> 's \<Rightarrow> nat set \<Rightarrow> bool" and D0 :: "nat set"
  assumes visit: "I M st D \<Longrightarrow> M p = Some t \<Longrightarrow> p \<noteq> [] \<Longrightarrow> length p \<le> 5 \<Longrightarrow> (\<And>q. q \<noteq> [] \<Longrightarrow> M (p @ q) = None) \<Longrightarrow>
      0 < n \<Longrightarrow> {k ..< k + n} \<subseteq> slot_keys p \<Longrightarrow> {k ..< k + n} \<inter> D = {} \<Longrightarrow> slot_keys p \<inter> D \<subseteq> D0 \<Longrightarrow>
      \<exists>t' st'. f p t k n (slot_size p) st = ok (t', st') \<and>
        (\<not> Tree_isForest t' \<and> I (M(p \<mapsto> t')) st' (D \<union> {k ..< k + n}) \<or>
         t' = TForest (replicate FANOUT t) \<and> n \<noteq> slot_size p \<and> I (split_leaf p t M) st' D)"
begin

definition visits_tree :: "nat \<Rightarrow> bool" where
  "visits_tree level \<longleftrightarrow> (\<forall>p t key start sz M st D.
     I M st D \<longrightarrow> (\<forall>q. M (p @ q) = leaf_at t q) \<longrightarrow> length p = Suc level \<longrightarrow> tree_ok level t \<longrightarrow>
     key = slot_base p + start \<longrightarrow> 0 < sz \<longrightarrow> start + sz \<le> blockSize level \<longrightarrow> {key ..< key + sz} \<inter> D = {} \<longrightarrow> slot_keys p \<inter> D \<subseteq> D0 \<longrightarrow>
     (\<exists>t' st' M'. traverse_tree f level p t key start sz st = ok (t', st') \<and> I M' st' (D \<union> {key ..< key + sz}) \<and>
        (\<forall>q. M' (p @ q) = leaf_at t' q) \<and> tree_ok level t' \<and> (\<forall>r. take (Suc level) r \<noteq> p \<longrightarrow> M' r = M r)))"

definition visits_forest :: "nat \<Rightarrow> bool" where
  "visits_forest level \<longleftrightarrow> (\<forall>p ts t key i sz M st D.
     I M st D \<longrightarrow> M p = None \<longrightarrow> (\<forall>j q. M (p @ j # q) = (if j < FANOUT then leaf_at (ts ! j) q else None)) \<longrightarrow>
     length p = Suc level \<longrightarrow> length ts = FANOUT \<longrightarrow> (\<forall>x\<in>set ts. tree_ok (Suc level) x) \<longrightarrow>
     key = slot_base p + t * blockSize (Suc level) + i \<longrightarrow> i < blockSize (Suc level) \<longrightarrow>
     t * blockSize (Suc level) + i + sz \<le> blockSize level \<longrightarrow> {key ..< key + sz} \<inter> D = {} \<longrightarrow>
     {slot_base p + t * blockSize (Suc level) ..< slot_base p + blockSize level} \<inter> D \<subseteq> D0 \<longrightarrow>
     (\<exists>ts' st' M'. traverse_forest f level p ts t key i sz st = ok (ts', st') \<and> I M' st' (D \<union> {key ..< key + sz}) \<and>
        M' p = None \<and> (\<forall>j q. M' (p @ j # q) = (if j < FANOUT then leaf_at (ts' ! j) q else None)) \<and>
        length ts' = FANOUT \<and> (\<forall>x\<in>set ts'. tree_ok (Suc level) x) \<and> (\<forall>r. take (Suc level) r \<noteq> p \<longrightarrow> M' r = M r)))"

lemma visits_treeD:
  assumes "visits_tree level" "I M st D" "\<And>q. M (p @ q) = leaf_at t q" "length p = Suc level" "tree_ok level t"
    "key = slot_base p + start" "0 < sz" "start + sz \<le> blockSize level" "{key ..< key + sz} \<inter> D = {}"
    "slot_keys p \<inter> D \<subseteq> D0"
  obtains t' st' M' where "traverse_tree f level p t key start sz st = ok (t', st')" "I M' st' (D \<union> {key ..< key + sz})"
    "\<And>q. M' (p @ q) = leaf_at t' q" "tree_ok level t'" "\<And>r. take (Suc level) r \<noteq> p \<Longrightarrow> M' r = M r"
proof -
  from assms(1) [unfolded visits_tree_def, rule_format, OF assms(2-10)] that show thesis by auto
qed

lemma forest_step:
  assumes "visits_tree (Suc level)" "level < 4"
  shows "visits_forest level"
  unfolding visits_forest_def
proof (intro allI impI)
  fix p ts t key i sz M st D
  let ?B = "blockSize (Suc level)"
  assume a: "I M st D" "M p = None" "\<forall>j q. M (p @ j # q) = (if j < FANOUT then leaf_at (ts ! j) q else None)"
    "length p = Suc level" "length ts = FANOUT" "\<forall>x\<in>set ts. tree_ok (Suc level) x"
    "key = slot_base p + t * ?B + i" "i < ?B" "t * ?B + i + sz \<le> blockSize level" "{key ..< key + sz} \<inter> D = {}"
    "{slot_base p + t * ?B ..< slot_base p + blockSize level} \<inter> D \<subseteq> D0"
  then show "\<exists>ts' st' M'. traverse_forest f level p ts t key i sz st = ok (ts', st') \<and> I M' st' (D \<union> {key ..< key + sz}) \<and>
        M' p = None \<and> (\<forall>j q. M' (p @ j # q) = (if j < FANOUT then leaf_at (ts' ! j) q else None)) \<and>
        length ts' = FANOUT \<and> (\<forall>x\<in>set ts'. tree_ok (Suc level) x) \<and> (\<forall>r. take (Suc level) r \<noteq> p \<longrightarrow> M' r = M r)"
  proof (induction sz arbitrary: ts t key i M st D rule: less_induct)
    case (less sz)
    note a = less.prems
    show ?case
    proof (cases "sz = 0")
      case True
      then show ?thesis using a by (subst traverse_forest.simps) auto
    next
      case False
      let ?n = "min sz (?B - i)"
      have n: "0 < ?n" "?n \<le> sz" "i + ?n \<le> ?B" using False a(8) by auto
      have bs: "blockSize level = FANOUT * ?B" "0 < ?B" using blockSize_Suc [OF assms(2)] by auto
      have "t * ?B < FANOUT * ?B" using a(9) bs(1) False by linarith
      then have t: "t < FANOUT" by simp
      have key: "key = slot_base (p @ [t]) + i" using a(4,7) by (subst slot_base_snoc) auto
      have d1: "{key ..< key + ?n} \<inter> D = {}" using a(10) n(2) by (auto simp: set_eq_iff)
      have "(t + 1) * ?B \<le> FANOUT * ?B" using t by (intro mult_le_mono1) simp
      then have tb: "t * ?B + ?B \<le> blockSize level" using bs(1) by simp
      have sk: "slot_keys (p @ [t]) = {slot_base p + t * ?B ..< slot_base p + t * ?B + ?B}"
        using a(4) slot_base_snoc [of p t] by (cases "p = []") (simp_all add: slot_keys_def slot_size_snoc)
      have d0: "slot_keys (p @ [t]) \<inter> D \<subseteq> D0" using a(11) tb unfolding sk by (auto simp: subset_iff)
      have l1: "M ((p @ [t]) @ q) = leaf_at (ts ! t) q" for q using a(3) t by simp
      have ok1: "tree_ok (Suc level) (ts ! t)" using a(5,6) t by simp
      obtain x st1 M1 where v: "traverse_tree f (Suc level) (p @ [t]) (ts ! t) key i ?n st = ok (x, st1)"
          "I M1 st1 (D \<union> {key ..< key + ?n})" "\<And>q. M1 ((p @ [t]) @ q) = leaf_at x q" "tree_ok (Suc level) x"
          "\<And>r. take (Suc (Suc level)) r \<noteq> p @ [t] \<Longrightarrow> M1 r = M r"
        using visits_treeD [OF assms(1) a(1) l1 _ ok1 key n(1,3) d1 d0] a(4) by auto
      let ?ts = "ts[t := x]"
      have M1p: "M1 p = None" using v(5) [of p] a(2,4) by simp
      have step: "traverse_forest f level p ts t key i sz st =
          traverse_forest f level p ?ts (t + 1) (key + ?n) 0 (sz - ?n) st1"
        using False t a(5,8) v(1) by (subst traverse_forest.simps) (simp add: Let_def)
      have l2: "M1 (p @ j # q) = (if j < FANOUT then leaf_at (?ts ! j) q else None)" for j q
        using v(3) [of q] v(5) [of "p @ j # q"] a(3,4,5) t by (cases "j = t") auto
      have fr: "M1 r = M r" if "take (Suc level) r \<noteq> p" for r
      proof -
        have "take (Suc level) (take (Suc (Suc level)) r) = take (Suc level) r" by (simp add: min_def)
        then have "take (Suc (Suc level)) r \<noteq> p @ [t]" using that a(4) by (metis append_eq_conv_conj)
        then show ?thesis by (rule v(5))
      qed
      have un: "D \<union> {key ..< key + ?n} \<union> {key + ?n ..< key + ?n + (sz - ?n)} = D \<union> {key ..< key + sz}"
        using n(2) by auto
      have ts: "length ?ts = FANOUT" "\<forall>y\<in>set ?ts. tree_ok (Suc level) y"
        using a(5,6) v(4) by (auto dest: set_update_subset_insert [THEN subsetD])
      show ?thesis
      proof (cases "?n = sz")
        case True
        have "traverse_forest f level p ?ts (t + 1) (key + ?n) 0 (sz - ?n) st1 = ok (?ts, st1)"
          using True by (subst traverse_forest.simps) simp
        then show ?thesis using step M1p l2 fr ts v(2) True by (intro exI [of _ ?ts] exI [of _ st1] exI [of _ M1]) simp
      next
        case False
        then have i: "i + ?n = ?B" using a(8) by auto
        have key': "key + ?n = slot_base p + (t + 1) * ?B + 0" using a(7) i by simp
        have sz': "(t + 1) * ?B + 0 + (sz - ?n) \<le> blockSize level" using a(9) i n(2) by simp
        have d2: "{key + ?n ..< key + ?n + (sz - ?n)} \<inter> (D \<union> {key ..< key + ?n}) = {}"
          using a(10) n(2) by (auto simp: disjoint_iff)
        have lt: "sz - ?n < sz" using n by simp
        have d3: "{slot_base p + (t + 1) * ?B ..< slot_base p + blockSize level} \<inter> (D \<union> {key ..< key + ?n}) \<subseteq> D0"
          using a(11) key' by (auto simp: subset_iff)
        show ?thesis
          using less.IH [OF lt v(2) M1p _ a(4) ts key' bs(2) sz' d2 d3] l2 fr unfolding step un by (metis (no_types))
      qed
    qed
  qed
qed

lemma leaf_visit:
  assumes "I M st D" "\<And>q. M (p @ q) = leaf_at t q" "\<not> Tree_isForest t" "length p = Suc level" "level \<le> 4"
    "key = slot_base p + start" "0 < sz" "start + sz \<le> blockSize level" "{key ..< key + sz} \<inter> D = {}"
    "slot_keys p \<inter> D \<subseteq> D0"
  obtains t' st' where "f p t key sz (blockSize level) st = ok (t', st')"
    "\<not> Tree_isForest t'" "I (M(p \<mapsto> t')) st' (D \<union> {key ..< key + sz})"
  | st' where "f p t key sz (blockSize level) st = ok (TForest (replicate FANOUT t), st')" "level < 4"
    "I (split_leaf p t M) st' D"
proof -
  have Mp: "M p = Some t" "\<And>q. q \<noteq> [] \<Longrightarrow> M (p @ q) = None"
    using assms(2) [of "[]"] assms(2) leaf_at_leaf [OF assms(3)] by auto
  have p: "p \<noteq> []" "length p \<le> 5" "slot_size p = blockSize level" using assms(4,5) by (auto simp: slot_size_def)
  have k: "{key ..< key + sz} \<subseteq> slot_keys p" using assms(6,8) p(3) by (auto simp: slot_keys_def)
  have four: "level < 4" if "sz \<noteq> blockSize level"
  proof (rule ccontr)
    assume "\<not> level < 4"
    then have "blockSize level = 1" using assms(5) blockSize_simps(5) by (metis le_neq_implies_less)
    then show False using that assms(7,8) by simp
  qed
  from visit [OF assms(1) Mp(1) p(1,2) Mp(2) assms(7) k assms(9,10)] four show thesis
    unfolding p(3) using that by auto
qed

lemma tree_step:
  assumes "level < 4 \<Longrightarrow> visits_forest level" "level \<le> 4"
  shows "visits_tree level"
  unfolding visits_tree_def
proof (intro allI impI)
  fix p t key start sz M st D
  let ?B = "blockSize (Suc level)"
  assume a: "I M st D" "\<forall>q. M (p @ q) = leaf_at t q" "length p = Suc level" "tree_ok level t"
    "key = slot_base p + start" "0 < sz" "start + sz \<le> blockSize level" "{key ..< key + sz} \<inter> D = {}"
    "slot_keys p \<inter> D \<subseteq> D0"
  have fo: "\<exists>t' st' M'. rbind (traverse_forest f level p ts (start div ?B) key (start mod ?B) sz st1)
        (\<lambda>(ts, st). ok (TForest ts, st)) = ok (t', st') \<and> I M' st' (D \<union> {key ..< key + sz}) \<and>
        (\<forall>q. M' (p @ q) = leaf_at t' q) \<and> tree_ok level t' \<and> (\<forall>r. take (Suc level) r \<noteq> p \<longrightarrow> M' r = M1 r)"
    if m: "I M1 st1 D" "\<And>q. M1 (p @ q) = leaf_at (TForest ts) q" "tree_ok level (TForest ts)" for ts st1 M1
  proof -
    have l: "level < 4" "length ts = FANOUT" "\<forall>x\<in>set ts. tree_ok (Suc level) x" using m(3) by auto
    have B: "0 < ?B" using blockSize_Suc [OF l(1)] by simp
    have kk: "key = slot_base p + (start div ?B) * ?B + start mod ?B" using a(5) by simp
    have ss: "(start div ?B) * ?B + start mod ?B + sz \<le> blockSize level" using a(7) by simp
    have md: "start mod ?B < ?B" using B by simp
    have d0: "{slot_base p + (start div ?B) * ?B ..< slot_base p + blockSize level} \<inter> D \<subseteq> D0"
      using a(3,9) by (auto simp: slot_keys_def slot_size_def subset_iff)
    have M1: "M1 p = None" "\<forall>j q. M1 (p @ j # q) = (if j < FANOUT then leaf_at (ts ! j) q else None)"
      using m(2) [of "[]"] m(2) l(2) by auto
    obtain ts' st' M' where r: "traverse_forest f level p ts (start div ?B) key (start mod ?B) sz st1 = ok (ts', st')"
        "I M' st' (D \<union> {key ..< key + sz})" "M' p = None"
        "\<forall>j q. M' (p @ j # q) = (if j < FANOUT then leaf_at (ts' ! j) q else None)" "length ts' = FANOUT"
        "\<forall>x\<in>set ts'. tree_ok (Suc level) x" "\<forall>r. take (Suc level) r \<noteq> p \<longrightarrow> M' r = M1 r"
      using assms(1) [OF l(1), unfolded visits_forest_def, rule_format, OF m(1) M1(1) M1(2) [rule_format] a(3) l(2)
          l(3) [rule_format] kk md ss a(8) d0] by auto
    have "M' (p @ q) = leaf_at (TForest ts') q" for q using r(3,4,5) by (cases q) auto
    then show ?thesis using r l(1) by auto
  qed
  show "\<exists>t' st' M'. traverse_tree f level p t key start sz st = ok (t', st') \<and> I M' st' (D \<union> {key ..< key + sz}) \<and>
        (\<forall>q. M' (p @ q) = leaf_at t' q) \<and> tree_ok level t' \<and> (\<forall>r. take (Suc level) r \<noteq> p \<longrightarrow> M' r = M r)"
  proof (cases "Tree_isForest t")
    case True
    then obtain ts where t: "t = TForest ts" by (auto simp: Tree_isForest_def split: Tree.splits)
    have "0 < ?B" using a(4) blockSize_Suc [of level] by (simp add: t)
    then have "traverse_tree f level p t key start sz st =
        rbind (traverse_forest f level p ts (start div ?B) key (start mod ?B) sz st) (\<lambda>(ts, st). ok (TForest ts, st))"
      using True by (subst traverse_tree.simps) (simp add: t Let_def)
    then show ?thesis using fo [of M st ts] a(1,2,4) by (simp add: t)
  next
    case False
    show ?thesis
    proof (rule leaf_visit [OF a(1) _ False a(3) assms(2) a(5-9)])
      show "M (p @ q) = leaf_at t q" for q using a(2) by blast
    next
      fix t' st'
      assume r: "f p t key sz (blockSize level) st = ok (t', st')" "\<not> Tree_isForest t'" "I (M(p \<mapsto> t')) st' (D \<union> {key ..< key + sz})"
      then have "traverse_tree f level p t key start sz st = ok (t', st')"
        using False by (subst traverse_tree.simps) (auto simp: Tree_isForest_def split: Tree.splits)
      moreover have "(M(p \<mapsto> t')) (p @ q) = leaf_at t' q" for q
        using a(2) leaf_at_leaf [OF False] leaf_at_leaf [OF r(2)] by auto
      moreover have "tree_ok level t'" using r(2) by (cases t') (auto simp: Tree_isForest_def)
      moreover have "(M(p \<mapsto> t')) r = M r" if "take (Suc level) r \<noteq> p" for r using that a(3) by auto
      ultimately show ?thesis using r(3) by blast
    next
      fix st'
      let ?t = "TForest (replicate FANOUT t)"
      assume r: "f p t key sz (blockSize level) st = ok (?t, st')" "level < 4" "I (split_leaf p t M) st' D"
      have "0 < ?B" using blockSize_Suc [OF r(2)] by simp
      then have eq: "traverse_tree f level p t key start sz st =
          rbind (traverse_forest f level p (replicate FANOUT t) (start div ?B) key (start mod ?B) sz st') (\<lambda>(ts, st). ok (TForest ts, st))"
        using False r(1) by (subst traverse_tree.simps) (simp add: Let_def)
      have "split_leaf p t M (p @ q) = leaf_at ?t q" for q
        using a(2) leaf_at_leaf [OF False] by (cases q) (auto simp: split_leaf_def)
      moreover have "tree_ok level ?t" using r(2) False by (cases t) (auto simp: Tree_isForest_def)
      moreover have "split_leaf p t M r = M r" if "take (Suc level) r \<noteq> p" for r
        using that a(3) by (auto simp: split_leaf_def)
      ultimately show ?thesis using fo [OF r(3), of "replicate FANOUT t"] unfolding eq by auto
    qed
  qed
qed

lemma visits_all: "level \<le> 4 \<Longrightarrow> visits_tree level"
proof (induction "4 - level" arbitrary: level)
  case 0
  show ?case by (rule tree_step) (use 0 in auto)
next
  case (Suc n)
  have l: "level < 4" using Suc.hyps(2) by simp
  have "visits_tree (Suc level)" by (rule Suc.hyps(1)) (use Suc.hyps(2) in auto)
  from forest_step [OF this l] have "visits_forest level" .
  then show ?case by (rule tree_step) (use l in auto)
qed

lemma visit_block:
  assumes "I (leaves trees) st D" "b < FANOUT_TOP" "\<forall>b. tree_ok 0 (trees b)" "key = b * BLOCK + start" "0 < n"
    "start + n \<le> BLOCK" "{key ..< key + n} \<inter> D = {}" "{b * BLOCK ..< b * BLOCK + BLOCK} \<inter> D \<subseteq> D0"
  obtains t' st' where "traverse_tree f 0 [b] (trees b) key start n st = ok (t', st')"
    "I (leaves (trees(b := t'))) st' (D \<union> {key ..< key + n})" "\<forall>c. tree_ok 0 ((trees(b := t')) c)"
proof -
  have l: "leaves trees ([b] @ q) = leaf_at (trees b) q" for q using assms(2) by (simp add: leaves_def)
  have k: "key = slot_base [b] + start" using assms(4) by (simp add: slot_base_def)
  have s: "start + n \<le> blockSize 0" using assms(6) by (simp add: blockSize.simps)
  have d0: "slot_keys [b] \<inter> D \<subseteq> D0" using assms(8) by (simp add: slot_keys_def slot_size_def slot_base_def blockSize.simps)
  obtain t' st' M' where r: "traverse_tree f 0 [b] (trees b) key start n st = ok (t', st')" "I M' st' (D \<union> {key ..< key + n})"
      "\<And>q. M' ([b] @ q) = leaf_at t' q" "tree_ok 0 t'" "\<And>r. take (Suc 0) r \<noteq> [b] \<Longrightarrow> M' r = leaves trees r"
    using visits_treeD [OF visits_all [of 0] assms(1) l _ assms(3) [rule_format] k assms(5) s assms(7) d0] by auto
  have "M' = leaves (trees(b := t'))"
  proof
    fix r
    show "M' r = leaves (trees(b := t')) r"
      using r(3) [of "tl r"] r(5) [of r] assms(2) by (cases r) (auto simp: leaves_def)
  qed
  then show thesis using that r(1,2,4) assms(3) by simp
qed

lemma visit_blocks:
  assumes "I (leaves trees) st D" "\<forall>b. tree_ok 0 (trees b)" "first_index < BLOCK" "last_index < BLOCK" "last_block < FANOUT_TOP"
    "first_block < last_block \<or> first_block = last_block \<and> first_index \<le> last_index"
    "key = first_block * BLOCK + first_index" "fin = last_block * BLOCK + last_index + 1" "{key ..< fin} \<inter> D = {}"
    "{first_block * BLOCK ..< (last_block + 1) * BLOCK} \<inter> D \<subseteq> D0"
  shows "\<exists>trees' st'. traverse_blocks f trees key first_block first_index last_block last_index st = ok (trees', st') \<and>
    I (leaves trees') st' (D \<union> {key ..< fin}) \<and> (\<forall>b. tree_ok 0 (trees' b))"
  using assms
proof (induction "last_block - first_block" arbitrary: trees st D first_index first_block key)
  case 0
  then have b: "first_block = last_block" "first_index \<le> last_index" by auto
  let ?n = "last_index + 1 - first_index"
  have fin: "key + ?n = fin" using 0(8,9) b by simp
  have d: "{key ..< key + ?n} \<inter> D = {}" using 0(10) unfolding fin .
  have fb: "first_block < FANOUT_TOP" using b(1) 0(6) by simp
  obtain t' st' where "traverse_tree f 0 [first_block] (trees first_block) key first_index ?n st = ok (t', st')"
      "I (leaves (trees(first_block := t'))) st' (D \<union> {key ..< key + ?n})" "\<forall>c. tree_ok 0 ((trees(first_block := t')) c)"
    by (rule visit_block [OF 0(2) fb 0(3) 0(8) _ _ d]) (use b 0(5,11) in auto)
  then show ?case using fb b(1) unfolding fin by (subst traverse_blocks.simps) auto
next
  case (Suc k)
  then have b: "first_block < last_block" by auto
  let ?n = "BLOCK - first_index"
  have nx: "key + ?n = (first_block + 1) * BLOCK + 0" using Suc(5,9) by simp
  have "(first_block + 1) * BLOCK \<le> last_block * BLOCK" using b by (intro mult_le_mono1) simp
  then have le: "key + ?n < fin" using nx Suc(10) by simp
  have d: "{key ..< key + ?n} \<inter> D = {}" using Suc(11) le by (auto simp: disjoint_iff)
  have fb: "first_block < FANOUT_TOP" using b Suc(7) by simp
  have "first_block * BLOCK + BLOCK \<le> (last_block + 1) * BLOCK"
    using mult_le_mono1 [of "first_block + 1" "last_block + 1" BLOCK] b by simp
  then have d0: "{first_block * BLOCK ..< first_block * BLOCK + BLOCK} \<inter> D \<subseteq> D0"
    using Suc(12) by (meson Int_mono atLeastLessThan_subset_iff dual_order.trans ivl_subset order_refl)
  have d3: "{(first_block + 1) * BLOCK ..< (last_block + 1) * BLOCK} \<inter> (D \<union> {key ..< key + ?n}) \<subseteq> D0"
    using Suc(12) nx by (auto simp: subset_iff)
  obtain t' st' where t': "traverse_tree f 0 [first_block] (trees first_block) key first_index ?n st = ok (t', st')"
      "I (leaves (trees(first_block := t'))) st' (D \<union> {key ..< key + ?n})" "\<forall>c. tree_ok 0 ((trees(first_block := t')) c)"
    by (rule visit_block [OF Suc(3) fb Suc(4,9) _ _ d d0]) (use Suc(5) in auto)
  have d2: "{key + ?n ..< fin} \<inter> (D \<union> {key ..< key + ?n}) = {}" using Suc(11) by (auto simp: disjoint_iff)
  have un: "D \<union> {key ..< key + ?n} \<union> {key + ?n ..< fin} = D \<union> {key ..< fin}" using le by auto
  have "\<exists>trees' st''. traverse_blocks f (trees(first_block := t')) (key + ?n) (first_block + 1) 0 last_block last_index st' =
      ok (trees', st'') \<and> I (leaves trees') st'' (D \<union> {key ..< key + ?n} \<union> {key + ?n ..< fin}) \<and> (\<forall>b. tree_ok 0 (trees' b))"
    by (rule Suc.hyps(1) [OF _ t'(2,3) _ Suc(6,7) _ nx Suc(10) d2 d3]) (use Suc.hyps(2) b in \<open>auto simp: BLOCK_def\<close>)
  then show ?case using fb b t'(1) unfolding un by (subst traverse_blocks.simps) (simp add: Let_def)
qed

lemma visit_range:
  assumes "I (leaves (tr_trees trie)) st D" "\<forall>b. tree_ok 0 (tr_trees trie b)" "0 < n" "unat start + unat n \<le> 2 ^ 32"
    "{unat start ..< unat start + unat n} \<inter> D = {}" "D \<subseteq> D0"
  shows "\<exists>trees' st'. traverse_range f start n trie st = ok (trie\<lparr>tr_trees := trees'\<rparr>, st') \<and>
    I (leaves trees') st' (D \<union> {unat start ..< unat start + unat n}) \<and> (\<forall>b. tree_ok 0 (trees' b))"
proof -
  have n: "unat (n - 1) = unat n - 1" using assms(3) by (simp add: unat_minus_one word_neq_0_conv)
  have pos: "0 < unat n" using assms(3) by (simp add: unat_gt_0 word_neq_0_conv)
  have "unat start + (unat n - 1) < 2 ^ 64" using assms(4) pos by simp
  then have e: "unat (start + (n - 1)) = unat start + unat n - 1"
    using pos by (subst unat_word_ariths) (simp add: n)
  let ?a = "unat start" and ?e = "unat start + unat n - 1"
  have le: "?a \<le> ?e" "?e < 2 ^ 32" using pos assms(4) by auto
  have "?a div BLOCK \<le> ?e div BLOCK" using le(1) by (rule div_le_mono)
  then have o: "?a div BLOCK < ?e div BLOCK \<or> ?a div BLOCK = ?e div BLOCK \<and> ?a mod BLOCK \<le> ?e mod BLOCK"
    using le(1) by (metis div_mult_mod_eq le_neq_implies_less nat_add_left_cancel_le)
  have top: "?e div BLOCK < FANOUT_TOP" using le(2) by (simp add: BLOCK_def FANOUT_TOP_def div_less_iff_less_mult)
  have b: "0 < BLOCK" by (simp add: BLOCK_def)
  have fin: "?e div BLOCK * BLOCK + ?e mod BLOCK + 1 = ?a + unat n" using pos by simp
  have "\<exists>trees' st'. traverse_blocks f (tr_trees trie) ?a (?a div BLOCK) (?a mod BLOCK) (?e div BLOCK) (?e mod BLOCK) st = ok (trees', st') \<and>
    I (leaves trees') st' (D \<union> {?a ..< ?a + unat n}) \<and> (\<forall>b. tree_ok 0 (trees' b))"
    by (rule visit_blocks [OF assms(1,2) _ _ top o _ fin [symmetric] assms(5)]) (use assms(6) in \<open>auto simp: b\<close>)
  then show ?thesis by (auto simp: traverse_range_def location_def e)
qed

lemma visit_keys:
  assumes "I (leaves (tr_trees trie)) st D" "\<forall>b. tree_ok 0 (tr_trees trie b)" "start \<le> fin" "unat fin < 2 ^ 32"
    "{unat start .. unat fin} \<inter> D = {}" "D \<subseteq> D0"
  shows "\<exists>trees' st'. traverse_range f start (fin - start + 1) trie st = ok (trie\<lparr>tr_trees := trees'\<rparr>, st') \<and>
    I (leaves trees') st' (D \<union> {unat start .. unat fin}) \<and> (\<forall>b. tree_ok 0 (trees' b))"
proof -
  note n = range_length [OF assms(3,4)]
  have K: "{unat start ..< unat start + unat (fin - start + 1)} = {unat start .. unat fin}" unfolding n by auto
  have "unat start + unat (fin - start + 1) \<le> 2 ^ 32" unfolding n using assms(4) by simp
  from visit_range [OF assms(1,2) n(1) this _ assms(6), unfolded K, OF assms(5)] show ?thesis .
qed

lemma visit_all:
  assumes "I (leaves (tr_trees trie)) st D" "\<forall>b. tree_ok 0 (tr_trees trie b)" "unat (tr_maxkey trie) < 2 ^ 32"
    "{unat (tr_minkey trie) .. unat (tr_maxkey trie)} \<inter> D = {}" "D \<subseteq> D0"
  shows "\<exists>trees' st'. traverse_all f trie st = ok (trie\<lparr>tr_trees := trees'\<rparr>, st') \<and>
    I (leaves trees') st' (D \<union> {unat (tr_minkey trie) .. unat (tr_maxkey trie)}) \<and> (\<forall>b. tree_ok 0 (trees' b))"
proof (cases "tr_minkey trie \<le> tr_maxkey trie")
  case True
  from visit_keys [OF assms(1,2) True assms(3-5)] True show ?thesis by (simp add: traverse_all_def)
next
  case False
  then have "{unat (tr_minkey trie) .. unat (tr_maxkey trie)} = {}" by (auto simp: word_le_nat_alt)
  then show ?thesis using assms(1,2) False
    by (intro exI [of _ "tr_trees trie"] exI [of _ st]) (simp add: traverse_all_def)
qed

end

end
