(* ===== verification/Ownerships_Correct.thy ===== *)
theory Ownerships_Correct
  imports Ownerships
begin

text \<open>
  What completing and packing ownership does: every fact ends up owned by the units of all the facts
  that reach it by references, reference counts and promotion ids stay exact, no set is used after it
  has been deleted, and the packed intervals and sets give each fact its units.
\<close>

section \<open>What the loop keeps\<close>

text \<open>The numbers in a set, and the units that own a fact.\<close>

definition units_of :: "UsetMem \<Rightarrow> uaddr \<Rightarrow> u32 set" where
  "units_of m a = (case um_heap m a of None \<Rightarrow> {} | Some u \<Rightarrow> set (SetU32_foreach (se_set (us_exp u))))"

definition owners :: "OwnState \<Rightarrow> nat \<Rightarrow> u32 set" where
  "owners st k = (if k < length (os_facts st) then
     (case os_facts st ! k of None \<Rightarrow> {} | Some a \<Rightarrow> units_of (os_mem st) a) else {})"

text \<open>The references to a set: those of the facts it owns and one while it is in \<open>touched\<close>.\<close>

definition fact_refs :: "uaddr option list \<Rightarrow> uaddr list \<Rightarrow> uaddr \<Rightarrow> nat" where
  "fact_refs fs T a = count_list fs (Some a) + (if a \<in> set T then 1 else 0)"

definition own_sets_ok :: "UsetMem \<Rightarrow> bool" where
  "own_sets_ok m \<longleftrightarrow> (\<forall>a u. um_heap m a = Some u \<longrightarrow> (\<exists>A. A \<noteq> {} \<and> us_exp u = \<lparr>se_op = Or, se_set = rep A\<rparr>))"

definition links_null :: "UsetMem \<Rightarrow> uaddr list \<Rightarrow> bool" where
  "links_null m T \<longleftrightarrow> (\<forall>a u. um_heap m a = Some u \<longrightarrow> a \<notin> set T \<longrightarrow> us_ptr u = PNull)"

definition own_inv :: "OwnState \<Rightarrow> uaddr list \<Rightarrow> bool" where
  "own_inv st T \<longleftrightarrow>
     Usets_inv (os_mem st) (os_usets st) (fact_refs (os_facts st) T) \<and> own_sets_ok (os_mem st) \<and>
     links_null (os_mem st) T \<and> distinct T \<and> set T \<subseteq> dom (um_heap (os_mem st)) \<and> length (os_facts st) + 4 < 2 ^ 32"

lemma set_foreach_rep [simp]: "set (SetU32_foreach (rep A)) = A"
  by (simp add: rep_foreach)

lemma units_of_exp: "um_heap m a = Some u \<Longrightarrow> us_exp u = \<lparr>se_op = Or, se_set = rep A\<rparr> \<Longrightarrow> units_of m a = A"
  by (simp add: units_of_def)

lemma own_sets_exp:
  "own_sets_ok m \<Longrightarrow> um_heap m a = Some u \<Longrightarrow> us_exp u = \<lparr>se_op = Or, se_set = rep (units_of m a)\<rparr> \<and> units_of m a \<noteq> {}"
  unfolding own_sets_ok_def using units_of_exp by metis

lemma same_uset_units: "same_uset m m' a \<Longrightarrow> units_of m' a = units_of m a"
  by (auto simp: same_uset_def units_of_def split: option.splits)

lemma same_uset_dom: "same_uset m m' a \<Longrightarrow> a \<in> dom (um_heap m') \<longleftrightarrow> a \<in> dom (um_heap m)"
  by (cases "um_heap m a"; cases "um_heap m' a") (auto simp: same_uset_def)

lemma same_uset_back:
  "same_uset m m' a \<Longrightarrow> um_heap m' a = Some v \<Longrightarrow>
    \<exists>u. um_heap m a = Some u \<and> us_exp u = us_exp v \<and> us_id u = us_id v \<and> us_ptr u = us_ptr v"
  by (cases "um_heap m a") (auto simp: same_uset_def)

lemma fact_refs_bound: "fact_refs fs T a \<le> length fs + 1"
  using count_le_length [of fs "Some a"] by (simp add: fact_refs_def)

lemma count_list_update:
  "k < length xs \<Longrightarrow> count_list (xs[k := y]) x + (if xs ! k = x then 1 else 0) = count_list xs x + (if y = x then 1 else 0)"
proof (induction xs arbitrary: k)
  case (Cons z xs)
  show ?case
  proof (cases k)
    case (Suc j)
    then show ?thesis using Cons.IH [of j] Cons.prems by (cases "y = x") simp_all
  qed simp
qed simp

lemma fact_refs_update:
  assumes "k < length fs" "fs ! k = None"
  shows "fact_refs (fs[k := Some p]) T = (fact_refs fs T)(p := fact_refs fs T p + 1)"
proof
  fix x
  show "fact_refs (fs[k := Some p]) T x = ((fact_refs fs T)(p := fact_refs fs T p + 1)) x"
    using count_list_update [OF assms(1), of "Some p" "Some x"] assms(2) by (auto simp: fact_refs_def)
qed

lemma fact_refs_move:
  assumes "k < length fs" "fs ! k = Some a"
  shows "fact_refs (fs[k := Some p]) T = (let f = (fact_refs fs T)(p := fact_refs fs T p + 1) in f(a := f a - 1))"
proof
  fix x
  show "fact_refs (fs[k := Some p]) T x = (let f = (fact_refs fs T)(p := fact_refs fs T p + 1) in f(a := f a - 1)) x"
    using count_list_update [OF assms(1), of "Some p" "Some x"] assms(2) by (auto simp: fact_refs_def)
qed

lemma fact_refs_touch:
  assumes "k < length fs" "fs ! k = Some a" "a \<notin> set T"
  shows "fact_refs (fs[k := Some p]) (T @ [a]) = (fact_refs fs T)(p := fact_refs fs T p + 1)"
proof
  fix x
  show "fact_refs (fs[k := Some p]) (T @ [a]) x = ((fact_refs fs T)(p := fact_refs fs T p + 1)) x"
    using count_list_update [OF assms(1), of "Some p" "Some x"] assms(2,3) by (auto simp: fact_refs_def)
qed

lemma own_inv_alive:
  assumes "own_inv st T" "k < length (os_facts st)" "os_facts st ! k = Some a"
  shows "\<exists>u. um_heap (os_mem st) a = Some u"
proof -
  have "0 < count_list (os_facts st) (Some a)" using assms(2,3) by (metis count_list_0_iff nth_mem not_gr_zero)
  then have "fact_refs (os_facts st) T a \<noteq> 0" by (simp add: fact_refs_def)
  then show ?thesis using assms(1) by (auto simp: own_inv_def Usets_inv_def)
qed

text \<open>
  During the loop over the references of a fact with owner set \<open>S\<close>: the link of a touched set
  leads to its union with \<open>S\<close>.
\<close>

definition links_union :: "UsetMem \<Rightarrow> uaddr list \<Rightarrow> u32 set \<Rightarrow> bool" where
  "links_union m T S \<longleftrightarrow> (\<forall>a\<in>set T. \<exists>u p. um_heap m a = Some u \<and> us_ptr u = PUset p \<and> p \<in> dom (um_heap m) \<and>
     units_of m p = units_of m a \<union> S)"

definition ref_inv :: "OwnState \<Rightarrow> uaddr \<Rightarrow> u32 set \<Rightarrow> bool" where
  "ref_inv st owner S \<longleftrightarrow> own_inv st (os_touched st) \<and> links_union (os_mem st) (os_touched st) S \<and>
     (\<exists>u. um_heap (os_mem st) owner = Some u \<and> Uset_promoted u) \<and> units_of (os_mem st) owner = S"

text \<open>A change of the memory that only adds sets and reference counts keeps everything else.\<close>

lemma grow_sets_ok:
  assumes "own_sets_ok m" "\<And>a. a \<in> dom (um_heap m) \<Longrightarrow> same_uset m m' a"
    and "\<And>a u. um_heap m' a = Some u \<Longrightarrow> a \<notin> dom (um_heap m) \<Longrightarrow> \<exists>A. A \<noteq> {} \<and> us_exp u = \<lparr>se_op = Or, se_set = rep A\<rparr>"
  shows "own_sets_ok m'"
  unfolding own_sets_ok_def
proof (intro allI impI)
  fix a u
  assume u: "um_heap m' a = Some u"
  show "\<exists>A. A \<noteq> {} \<and> us_exp u = \<lparr>se_op = Or, se_set = rep A\<rparr>"
  proof (cases "a \<in> dom (um_heap m)")
    case True
    then obtain v where "um_heap m a = Some v" "us_exp u = us_exp v"
      using assms(2) [OF True] u by (auto simp: same_uset_def)
    then show ?thesis using assms(1) by (auto simp: own_sets_ok_def)
  qed (use assms(3) u in blast)
qed

lemma grow_links:
  assumes "links_null m T" "\<And>a. a \<in> dom (um_heap m) \<Longrightarrow> same_uset m m' a"
    and "\<And>a u. um_heap m' a = Some u \<Longrightarrow> a \<notin> dom (um_heap m) \<Longrightarrow> us_ptr u = PNull"
  shows "links_null m' T"
  unfolding links_null_def
proof (intro allI impI)
  fix a u
  assume u: "um_heap m' a = Some u" "a \<notin> set T"
  show "us_ptr u = PNull"
  proof (cases "a \<in> dom (um_heap m)")
    case True
    then obtain v where "um_heap m a = Some v" "us_ptr u = us_ptr v"
      using assms(2) [OF True] u by (auto simp: same_uset_def)
    then show ?thesis using assms(1) u(2) by (auto simp: links_null_def)
  qed (use assms(3) u in blast)
qed

lemma grow_links_union:
  assumes "links_union m T S" "\<And>a. a \<in> dom (um_heap m) \<Longrightarrow> same_uset m m' a"
  shows "links_union m' T S"
  unfolding links_union_def
proof
  fix a
  assume "a \<in> set T"
  then obtain u p where u: "um_heap m a = Some u" "us_ptr u = PUset p" "p \<in> dom (um_heap m)" "units_of m p = units_of m a \<union> S"
    using assms(1) unfolding links_union_def by blast
  have a: "a \<in> dom (um_heap m)" using u(1) by auto
  obtain v where "um_heap m' a = Some v" "us_ptr v = us_ptr u" using assms(2) [OF a] u(1) by (auto simp: same_uset_def)
  moreover have "p \<in> dom (um_heap m')" using same_uset_dom [OF assms(2) [OF u(3)]] u(3) by simp
  moreover have "units_of m' p = units_of m' a \<union> S"
    using u(4) same_uset_units [OF assms(2) [OF u(3)]] same_uset_units [OF assms(2) [OF a]] by simp
  ultimately show "\<exists>u p. um_heap m' a = Some u \<and> us_ptr u = PUset p \<and> p \<in> dom (um_heap m') \<and>
      units_of m' p = units_of m' a \<union> S" using u(2) by auto
qed

definition kept :: "UsetMem \<Rightarrow> UsetMem \<Rightarrow> bool" where
  "kept m m' \<longleftrightarrow> (\<forall>a u. um_heap m a = Some u \<longrightarrow> (\<exists>v. um_heap m' a = Some v \<and> us_exp v = us_exp u \<and> us_id v = us_id u))"

lemma kept_same: "(\<And>a. a \<in> dom (um_heap m) \<Longrightarrow> same_uset m m' a) \<Longrightarrow> kept m m'"
  unfolding kept_def
proof (intro allI impI)
  fix a u
  assume same: "\<And>a. a \<in> dom (um_heap m) \<Longrightarrow> same_uset m m' a" and u: "um_heap m a = Some u"
  from same [of a] u show "\<exists>v. um_heap m' a = Some v \<and> us_exp v = us_exp u \<and> us_id v = us_id u"
    by (auto simp: same_uset_def domI)
qed

lemma kept_refl: "kept m m"
  by (simp add: kept_def)

lemma kept_trans: "kept m m' \<Longrightarrow> kept m' m'' \<Longrightarrow> kept m m''"
  unfolding kept_def by metis

lemma kept_units: "kept m m' \<Longrightarrow> a \<in> dom (um_heap m) \<Longrightarrow> units_of m' a = units_of m a"
  unfolding kept_def units_of_def by fastforce

lemma kept_promoted:
  "kept m m' \<Longrightarrow> \<exists>u. um_heap m a = Some u \<and> Uset_promoted u \<Longrightarrow> \<exists>u. um_heap m' a = Some u \<and> Uset_promoted u"
  unfolding kept_def Uset_promoted_def by metis

text \<open>The owners of the facts after one of them has been given the set \<open>p\<close>.\<close>

lemma owners_update:
  assumes "own_inv st T" "kept (os_mem st) (os_mem st')" "os_facts st' = (os_facts st)[k := Some p]"
    "k < length (os_facts st)" "units_of (os_mem st') p = owners st k \<union> S"
  shows "owners st' j = (if j = k then owners st j \<union> S else owners st j)"
proof -
  have "units_of (os_mem st') a = units_of (os_mem st) a" if "j < length (os_facts st)" "os_facts st ! j = Some a" for a
    using own_inv_alive [OF assms(1) that] kept_units [OF assms(2), of a] by auto
  then show ?thesis
    using assms(3-5) by (cases "j = k"; cases "os_facts st ! j") (auto simp: owners_def)
qed

lemma own_invD:
  assumes "own_inv st T"
  shows "Usets_inv (os_mem st) (os_usets st) (fact_refs (os_facts st) T)" "own_sets_ok (os_mem st)" "links_null (os_mem st) T"
    "distinct T" "set T \<subseteq> dom (um_heap (os_mem st))" "fact_refs (os_facts st) T a + 3 < 2 ^ 32"
  using assms fact_refs_bound [of "os_facts st" T a] by (auto simp: own_inv_def)

lemma ref_inv_grow:
  assumes "ref_inv st owner S" "\<And>a. a \<in> dom (um_heap (os_mem st)) \<Longrightarrow> same_uset (os_mem st) m' a"
    "dom (um_heap m') = dom (um_heap (os_mem st))" "Usets_inv m' s' (fact_refs fs' (os_touched st))"
    "length fs' = length (os_facts st)"
  shows "ref_inv (st\<lparr>os_facts := fs', os_mem := m', os_usets := s'\<rparr>) owner S"
proof -
  have inv: "own_inv st (os_touched st)" using assms(1) by (simp add: ref_inv_def)
  note k = kept_same [OF assms(2)]
  have "own_sets_ok m'" by (rule grow_sets_ok [OF own_invD(2) [OF inv] assms(2)]) (use assms(3) in auto)
  moreover have "links_null m' (os_touched st)" by (rule grow_links [OF own_invD(3) [OF inv] assms(2)]) (use assms(3) in auto)
  moreover have "links_union m' (os_touched st) S" using assms(1) by (intro grow_links_union [OF _ assms(2)]) (simp add: ref_inv_def)
  moreover have "units_of m' owner = S" using assms(1) kept_units [OF k, of owner] by (auto simp: ref_inv_def)
  ultimately show ?thesis
    using inv assms(1,3-5) kept_promoted [OF k, of owner] by (simp add: ref_inv_def own_inv_def)
qed

lemma complete_ref_none:
  assumes "ref_inv st owner S" "unat i < length (os_facts st)" "os_facts st ! unat i = None"
  shows "\<exists>m'. complete_ref owner i st = ok (st\<lparr>os_facts := (os_facts st)[unat i := Some owner], os_mem := m'\<rparr>) \<and>
    ref_inv (st\<lparr>os_facts := (os_facts st)[unat i := Some owner], os_mem := m'\<rparr>) owner S \<and>
    kept (os_mem st) m' \<and> units_of m' owner = owners st (unat i) \<union> S"
proof -
  have inv: "own_inv st (os_touched st)" using assms(1) by (simp add: ref_inv_def)
  obtain u where u: "um_heap (os_mem st) owner = Some u" using assms(1) by (auto simp: ref_inv_def)
  have b: "fact_refs (os_facts st) (os_touched st) owner + unat (1 :: u32) + 1 < 2 ^ 32"
    using own_invD(6) [OF inv, of owner] by simp
  obtain m' where m': "Uset_use owner 1 (os_mem st) = ok m'" "\<And>a. same_uset (os_mem st) m' a"
      "Usets_inv m' (os_usets st) (fact_refs ((os_facts st)[unat i := Some owner]) (os_touched st))"
    using Uset_use_inv [OF own_invD(1) [OF inv] u b] fact_refs_update [OF assms(2,3), of owner "os_touched st"] by auto
  have d: "dom (um_heap m') = dom (um_heap (os_mem st))" using same_uset_dom [OF m'(2)] by blast
  have "ref_inv (st\<lparr>os_facts := (os_facts st)[unat i := Some owner], os_mem := m'\<rparr>) owner S"
    using ref_inv_grow [OF assms(1) m'(2) d m'(3)] by simp
  moreover have "units_of m' owner = S" using assms(1) same_uset_units [OF m'(2)] by (simp add: ref_inv_def)
  ultimately show ?thesis
    using m' assms(2,3) kept_same [of "os_mem st" m'] by (auto simp: complete_ref_def owners_def)
qed

lemma complete_ref_linked:
  assumes "ref_inv st owner S" "unat i < length (os_facts st)" "os_facts st ! unat i = Some me"
    "um_heap (os_mem st) me = Some u" "us_ptr u = PUset p"
  shows "\<exists>m' s'. complete_ref owner i st = ok (st\<lparr>os_facts := (os_facts st)[unat i := Some p], os_mem := m', os_usets := s'\<rparr>) \<and>
    ref_inv (st\<lparr>os_facts := (os_facts st)[unat i := Some p], os_mem := m', os_usets := s'\<rparr>) owner S \<and>
    kept (os_mem st) m' \<and> units_of m' p = owners st (unat i) \<union> S \<and> ut_firstId s' = ut_firstId (os_usets st) \<and>
    ut_nextId s' = ut_nextId (os_usets st)"
proof -
  let ?T = "os_touched st" and ?fs = "os_facts st" and ?m = "os_mem st" and ?s = "os_usets st"
  have inv: "own_inv st ?T" and lu: "links_union ?m ?T S" using assms(1) by (simp_all add: ref_inv_def)
  have T: "me \<in> set ?T" using own_invD(3) [OF inv] assms(4,5) unfolding links_null_def by fastforce
  obtain v where p: "um_heap ?m p = Some v" "units_of ?m p = units_of ?m me \<union> S"
    using lu T assms(4,5) unfolding links_union_def by force
  have b: "fact_refs ?fs ?T p + unat (1 :: u32) + 1 < 2 ^ 32" using own_invD(6) [OF inv, of p] by simp
  let ?r = "(fact_refs ?fs ?T)(p := fact_refs ?fs ?T p + 1)"
  obtain m1 where m1: "Uset_use p 1 ?m = ok m1" "Usets_inv m1 ?s ?r" "\<And>a. same_uset ?m m1 a"
    using Uset_use_inv [OF own_invD(1) [OF inv] p(1) b] by auto
  obtain u1 where u1: "um_heap m1 me = Some u1" using same_uset_dom [OF m1(3), of me] assms(4) by auto
  have "0 < count_list ?fs (Some me)" using assms(2,3) by (metis count_list_0_iff nth_mem not_gr_zero)
  then have two: "1 < ?r me" using T by (auto simp: fact_refs_def)
  obtain m2 s2 where m2: "Usets_drop me m1 ?s = ok (m2, s2)" "Usets_inv m2 s2 (?r(me := ?r me - 1))"
      "\<And>a. same_uset m1 m2 a" "ut_firstId s2 = ut_firstId ?s" "ut_nextId s2 = ut_nextId ?s"
    using Usets_drop_inv [OF m1(2) u1] two by auto
  have same: "same_uset ?m m2 a" for a by (rule same_uset_trans [OF m1(3) m2(3)])
  have d: "dom (um_heap m2) = dom (um_heap ?m)" using same_uset_dom [OF same] by blast
  have i2: "Usets_inv m2 s2 (fact_refs (?fs[unat i := Some p]) ?T)"
    using m2(2) fact_refs_move [OF assms(2,3), of p ?T] by (simp add: Let_def)
  have "units_of m2 p = owners st (unat i) \<union> S"
    using p(2) same_uset_units [OF same] assms(2,3) by (simp add: owners_def)
  then show ?thesis
    using ref_inv_grow [OF assms(1) same d i2] kept_same [OF same] m1(1) m2(1,4,5) assms(2-5)
    by (auto simp: complete_ref_def)
qed

lemma same_uset_link:
  assumes "um_heap m a = Some u"
  shows "units_of (Mem_put a (u\<lparr>us_ptr := p\<rparr>) m) b = units_of m b" "kept m (Mem_put a (u\<lparr>us_ptr := p\<rparr>) m)"
    "dom (um_heap (Mem_put a (u\<lparr>us_ptr := p\<rparr>) m)) = dom (um_heap m)"
  using assms by (auto simp: units_of_def Mem_put_def kept_def)

lemma own_sets_ok_link:
  "own_sets_ok m \<Longrightarrow> um_heap m a = Some u \<Longrightarrow> own_sets_ok (Mem_put a (u\<lparr>us_ptr := p\<rparr>) m)"
  by (auto simp: own_sets_ok_def Mem_put_def)

text \<open>Linking the set \<open>me\<close> to its union \<open>p\<close> with \<open>S\<close>.\<close>

lemma links_union_link:
  assumes "links_union m T S" "um_heap m a = Some u" "a \<notin> set T" "p \<in> dom (um_heap m)" "units_of m p = units_of m a \<union> S"
  shows "links_union (Mem_put a (u\<lparr>us_ptr := PUset p\<rparr>) m) (T @ [a]) S"
  unfolding links_union_def
proof
  let ?m = "Mem_put a (u\<lparr>us_ptr := PUset p\<rparr>) m"
  note sl = same_uset_link [OF assms(2)]
  fix b
  assume b: "b \<in> set (T @ [a])"
  show "\<exists>u p. um_heap ?m b = Some u \<and> us_ptr u = PUset p \<and> p \<in> dom (um_heap ?m) \<and> units_of ?m p = units_of ?m b \<union> S"
  proof (cases "b = a")
    case True
    then show ?thesis using assms(4,5) by (simp only: sl) (simp add: Mem_put_def)
  next
    case False
    then have "b \<in> set T" using b by simp
    then obtain v q where "um_heap m b = Some v" "us_ptr v = PUset q" "q \<in> dom (um_heap m)" "units_of m q = units_of m b \<union> S"
      using assms(1) unfolding links_union_def by blast
    then show ?thesis using False by (simp only: sl) (simp add: Mem_put_def)
  qed
qed

lemma complete_ref_merge:
  assumes "ref_inv st owner S" "unat i < length (os_facts st)" "os_facts st ! unat i = Some me"
    "um_heap (os_mem st) me = Some u" "us_ptr u = PNull"
  shows "\<exists>p m' s'. complete_ref owner i st = ok (st\<lparr>os_facts := (os_facts st)[unat i := Some p], os_mem := m', os_usets := s',
      os_touched := os_touched st @ [me]\<rparr>) \<and>
    ref_inv (st\<lparr>os_facts := (os_facts st)[unat i := Some p], os_mem := m', os_usets := s', os_touched := os_touched st @ [me]\<rparr>) owner S \<and>
    kept (os_mem st) m' \<and> units_of m' p = owners st (unat i) \<union> S \<and> ut_firstId s' = ut_firstId (os_usets st) \<and>
    ut_nextId s' = ut_nextId (os_usets st)"
proof -
  let ?T = "os_touched st" and ?fs = "os_facts st" and ?m = "os_mem st" and ?s = "os_usets st"
  have inv: "own_inv st ?T" and lu: "links_union ?m ?T S" using assms(1) by (simp_all add: ref_inv_def)
  have T: "me \<notin> set ?T" using lu assms(4,5) unfolding links_union_def by force
  obtain w where w: "um_heap ?m owner = Some w" "units_of ?m owner = S" using assms(1) by (auto simp: ref_inv_def)
  note e = own_sets_exp [OF own_invD(2) [OF inv]]
  have b: "fact_refs ?fs ?T c + 2 < 2 ^ 32" for c using own_invD(6) [OF inv, of c] by simp
  let ?A = "units_of ?m me"
  obtain p m1 s1 x where m1: "Usets_merge me owner ?m ?s = ok (p, m1, s1)"
      "Usets_inv m1 s1 ((fact_refs ?fs ?T)(p := fact_refs ?fs ?T p + 1))"
      "um_heap m1 p = Some x" "us_exp x = \<lparr>se_op = Or, se_set = rep (?A \<union> S)\<rparr>" "\<forall>c\<in>dom (um_heap ?m). same_uset ?m m1 c"
      "p \<in> dom (um_heap ?m) \<or> us_ptr x = PNull" "dom (um_heap m1) = insert p (dom (um_heap ?m))"
      "ut_firstId s1 = ut_firstId ?s" "ut_nextId s1 = ut_nextId ?s"
    using Usets_merge_inv [OF own_invD(1) [OF inv] assms(4) e [OF assms(4), THEN conjunct1] w(1)
        e [OF w(1), THEN conjunct1] b] unfolding w(2) by blast
  have same: "same_uset ?m m1 c" if "c \<in> dom (um_heap ?m)" for c using m1(5) that by blast
  have new: "us_exp y = \<lparr>se_op = Or, se_set = rep (?A \<union> S)\<rparr>" "us_ptr y = PNull"
    if "um_heap m1 a = Some y" "a \<notin> dom (um_heap ?m)" for a y
  proof -
    have "a = p" using m1(7) that by auto
    then show "us_exp y = \<lparr>se_op = Or, se_set = rep (?A \<union> S)\<rparr>" "us_ptr y = PNull" using m1(3,4,6) that by auto
  qed
  have A: "?A \<union> S \<noteq> {}" using e [OF assms(4)] by auto
  have up: "units_of m1 p = ?A \<union> S" by (rule units_of_exp [OF m1(3,4)])
  have sets1: "own_sets_ok m1" using new(1) A by (intro grow_sets_ok [OF own_invD(2) [OF inv] same]) blast+
  have null1: "links_null m1 ?T" using new(2) by (intro grow_links [OF own_invD(3) [OF inv] same]) blast+
  have lu1: "links_union m1 ?T S" by (rule grow_links_union [OF lu same])
  obtain u1 where u1: "um_heap m1 me = Some u1" using same_uset_dom [OF same, of me] assms(4) by auto
  have ume: "units_of m1 me = ?A" using same_uset_units [OF same, of me] assms(4) by auto
  let ?m2 = "Mem_put me (u1\<lparr>us_ptr := PUset p\<rparr>) m1"
  note l = Uset_link_inv [OF m1(2) u1, where p = "PUset p"] and sl = same_uset_link [OF u1, where p = "PUset p"]
  have k: "kept ?m ?m2" by (rule kept_trans [OF kept_same [OF same] sl(2)])
  have i2: "Usets_inv ?m2 s1 (fact_refs (?fs[unat i := Some p]) (?T @ [me]))"
    using l(2) fact_refs_touch [OF assms(2,3) T, of p] by simp
  have "links_null ?m2 (?T @ [me])" using null1 by (auto simp: links_null_def Mem_put_def)
  moreover have "links_union ?m2 (?T @ [me]) S"
    using lu1 u1 T m1(3) up by (intro links_union_link) (auto simp: ume)
  moreover have "units_of ?m2 owner = S" using w sl(1) same_uset_units [OF same, of owner] by auto
  moreover have "me \<in> dom (um_heap ?m2)" "set ?T \<subseteq> dom (um_heap ?m2)"
    using u1 m1(7) own_invD(5) [OF inv] unfolding sl(3) by auto
  ultimately have "ref_inv (st\<lparr>os_facts := ?fs[unat i := Some p], os_mem := ?m2, os_usets := s1, os_touched := ?T @ [me]\<rparr>) owner S"
    using inv assms(1) i2 own_sets_ok_link [OF sets1 u1] T kept_promoted [OF k, of owner]
    by (simp add: ref_inv_def own_inv_def)
  moreover have "units_of ?m2 p = owners st (unat i) \<union> S" using sl(1) up assms(2,3) by (simp add: owners_def)
  ultimately show ?thesis
    using m1(1,8,9) l(1) k assms(2-5) by (auto simp: complete_ref_def)
qed

lemma complete_ref_step:
  assumes "ref_inv st owner S" "unat i < length (os_facts st)"
  shows "\<exists>st'. complete_ref owner i st = ok st' \<and> ref_inv st' owner S \<and> length (os_facts st') = length (os_facts st) \<and>
    (\<forall>j. j \<noteq> unat i \<longrightarrow> os_facts st' ! j = os_facts st ! j) \<and>
    kept (os_mem st) (os_mem st') \<and> (\<forall>j. owners st' j = (if j = unat i then owners st j \<union> S else owners st j)) \<and>
    ut_firstId (os_usets st') = ut_firstId (os_usets st) \<and> ut_nextId (os_usets st') = ut_nextId (os_usets st)"
proof -
  have inv: "own_inv st (os_touched st)" using assms(1) by (simp add: ref_inv_def)
  note up = owners_update [OF inv _ _ assms(2)]
  show ?thesis
  proof (cases "os_facts st ! unat i")
    case None
    obtain m' where m': "complete_ref owner i st = ok (st\<lparr>os_facts := (os_facts st)[unat i := Some owner], os_mem := m'\<rparr>)"
        "ref_inv (st\<lparr>os_facts := (os_facts st)[unat i := Some owner], os_mem := m'\<rparr>) owner S"
        "kept (os_mem st) m'" "units_of m' owner = owners st (unat i) \<union> S"
      using complete_ref_none [OF assms None] by blast
    show ?thesis using m' up [of "st\<lparr>os_facts := (os_facts st)[unat i := Some owner], os_mem := m'\<rparr>" owner S]
      by (intro exI [of _ "st\<lparr>os_facts := (os_facts st)[unat i := Some owner], os_mem := m'\<rparr>"]) simp
  next
    case (Some me)
    obtain u where u: "um_heap (os_mem st) me = Some u" using own_inv_alive [OF inv assms(2) Some] by blast
    have ptr: "us_ptr u = PNull \<or> (\<exists>p. us_ptr u = PUset p)"
    proof (cases "me \<in> set (os_touched st)")
      case True
      then show ?thesis using assms(1) u unfolding ref_inv_def links_union_def by force
    next
      case False
      then show ?thesis using own_invD(3) [OF inv] u unfolding links_null_def by blast
    qed
    then obtain p m' s' T' where r: "complete_ref owner i st = ok (st\<lparr>os_facts := (os_facts st)[unat i := Some p], os_mem := m',
          os_usets := s', os_touched := T'\<rparr>)"
        "ref_inv (st\<lparr>os_facts := (os_facts st)[unat i := Some p], os_mem := m', os_usets := s', os_touched := T'\<rparr>) owner S"
        "kept (os_mem st) m'" "units_of m' p = owners st (unat i) \<union> S" "ut_firstId s' = ut_firstId (os_usets st)"
        "ut_nextId s' = ut_nextId (os_usets st)"
    proof (elim disjE exE)
      assume "us_ptr u = PNull"
      from complete_ref_merge [OF assms Some u this] that show thesis by blast
    next
      fix p
      assume "us_ptr u = PUset p"
      from complete_ref_linked [OF assms Some u this] obtain m' s' where
        "complete_ref owner i st = ok (st\<lparr>os_facts := (os_facts st)[unat i := Some p], os_mem := m', os_usets := s'\<rparr>)"
        "ref_inv (st\<lparr>os_facts := (os_facts st)[unat i := Some p], os_mem := m', os_usets := s'\<rparr>) owner S"
        "kept (os_mem st) m'" "units_of m' p = owners st (unat i) \<union> S" "ut_firstId s' = ut_firstId (os_usets st)"
        "ut_nextId s' = ut_nextId (os_usets st)" by blast
      then show thesis using that [where p = p and m' = m' and s' = s' and T' = "os_touched st"] by simp
    qed
    let ?st = "st\<lparr>os_facts := (os_facts st)[unat i := Some p], os_mem := m', os_usets := s', os_touched := T'\<rparr>"
    show ?thesis using r up [of ?st p S] by (intro exI [of _ ?st]) simp
  qed
qed

lemma complete_refs_fold:
  assumes "ref_inv st owner S" "\<forall>i\<in>set is. unat i < length (os_facts st)"
  shows "\<exists>st'. rfold (complete_ref owner) is st = ok st' \<and> ref_inv st' owner S \<and> length (os_facts st') = length (os_facts st) \<and>
    (\<forall>j. j \<notin> unat ` set is \<longrightarrow> os_facts st' ! j = os_facts st ! j) \<and>
    kept (os_mem st) (os_mem st') \<and> (\<forall>j. owners st' j = (if j \<in> unat ` set is then owners st j \<union> S else owners st j)) \<and>
    ut_firstId (os_usets st') = ut_firstId (os_usets st) \<and> ut_nextId (os_usets st') = ut_nextId (os_usets st)"
  using assms
proof (induction "is" arbitrary: st)
  case Nil
  then show ?case by (simp add: kept_refl)
next
  case (Cons i "is")
  obtain st1 where s1: "complete_ref owner i st = ok st1" "ref_inv st1 owner S" "length (os_facts st1) = length (os_facts st)"
      "\<And>j. j \<noteq> unat i \<Longrightarrow> os_facts st1 ! j = os_facts st ! j" "kept (os_mem st) (os_mem st1)"
      "\<And>j. owners st1 j = (if j = unat i then owners st j \<union> S else owners st j)"
      "ut_firstId (os_usets st1) = ut_firstId (os_usets st)" "ut_nextId (os_usets st1) = ut_nextId (os_usets st)"
    using complete_ref_step [OF Cons.prems(1), of i] Cons.prems(2) by auto
  obtain st2 where s2: "rfold (complete_ref owner) is st1 = ok st2" "ref_inv st2 owner S" "length (os_facts st2) = length (os_facts st1)"
      "\<And>j. j \<notin> unat ` set is \<Longrightarrow> os_facts st2 ! j = os_facts st1 ! j" "kept (os_mem st1) (os_mem st2)"
      "\<And>j. owners st2 j = (if j \<in> unat ` set is then owners st1 j \<union> S else owners st1 j)"
      "ut_firstId (os_usets st2) = ut_firstId (os_usets st1)" "ut_nextId (os_usets st2) = ut_nextId (os_usets st1)"
    using Cons.IH [OF s1(2)] Cons.prems(2) s1(3) by auto
  have "owners st2 j = (if j \<in> unat ` set (i # is) then owners st j \<union> S else owners st j)" for j
    using s1(6) [of j] s2(6) [of j] by auto
  then show ?case
    using s1(1,3,4,7,8) s2(1-4,7,8) kept_trans [OF s1(5) s2(5)] by (intro exI [of _ st2]) auto
qed

text \<open>Resetting the links: a set that no fact refers to any more is deleted, a promoted one stays.\<close>

definition promoted_kept :: "UsetMem \<Rightarrow> UsetMem \<Rightarrow> bool" where
  "promoted_kept m m' \<longleftrightarrow> (\<forall>a u. um_heap m a = Some u \<longrightarrow> Uset_promoted u \<longrightarrow>
     (\<exists>v. um_heap m' a = Some v \<and> us_exp v = us_exp u \<and> us_id v = us_id u)) \<and>
     (\<forall>a v. um_heap m' a = Some v \<longrightarrow> Uset_promoted v \<longrightarrow> (\<exists>u. um_heap m a = Some u \<and> us_id u = us_id v))"

lemma promoted_kept_refl: "promoted_kept m m"
  by (simp add: promoted_kept_def)

lemma promoted_kept_trans:
  assumes "promoted_kept m m'" "promoted_kept m' m''"
  shows "promoted_kept m m''"
proof -
  have pr: "Uset_promoted v" if "Uset_promoted u" "us_id v = us_id u" for u v using that by (simp add: Uset_promoted_def)
  show ?thesis
    using assms pr unfolding promoted_kept_def by metis
qed

lemma own_inv_shrink:
  assumes "own_sets_ok m" "\<And>b v. um_heap m' b = Some v \<Longrightarrow> same_uset m m' b"
  shows "own_sets_ok m'"
  unfolding own_sets_ok_def
proof (intro allI impI)
  fix b v
  assume v: "um_heap m' b = Some v"
  then obtain u where "um_heap m b = Some u" "us_exp v = us_exp u" using same_uset_back [OF assms(2) [OF v] v] by auto
  then show "\<exists>A. A \<noteq> {} \<and> us_exp v = \<lparr>se_op = Or, se_set = rep A\<rparr>" using assms(1) by (auto simp: own_sets_ok_def)
qed

lemma reset_link_step:
  assumes "own_inv st (a # T)"
  shows "\<exists>m' s'. reset_link a st = ok (st\<lparr>os_mem := m', os_usets := s'\<rparr>) \<and> own_inv (st\<lparr>os_mem := m', os_usets := s'\<rparr>) T \<and>
    promoted_kept (os_mem st) m' \<and> (\<forall>j. owners (st\<lparr>os_mem := m', os_usets := s'\<rparr>) j = owners st j) \<and>
    ut_firstId s' = ut_firstId (os_usets st) \<and> ut_nextId s' = ut_nextId (os_usets st)"
proof -
  let ?m = "os_mem st" and ?fs = "os_facts st" and ?s = "os_usets st"
  note inv = own_invD [OF assms]
  have aT: "a \<notin> set T" "distinct T" using inv(4) by auto
  obtain u where u: "um_heap ?m a = Some u" using inv(5) by auto
  let ?m1 = "Mem_put a (u\<lparr>us_ptr := PNull\<rparr>) ?m"
  note l = Uset_link_inv [OF inv(1) u, where p = PNull] and sl = same_uset_link [OF u, where p = PNull]
  have u1: "um_heap ?m1 a = Some (u\<lparr>us_ptr := PNull\<rparr>)" by (simp add: Mem_put_def)
  have rc: "(fact_refs ?fs (a # T))(a := fact_refs ?fs (a # T) a - 1) = fact_refs ?fs T"
    using aT by (auto simp: fact_refs_def fun_eq_iff)
  have pos: "0 < fact_refs ?fs (a # T) a" by (simp add: fact_refs_def)
  obtain m' s' where d: "Usets_drop a ?m1 ?s = ok (m', s')" "Usets_inv m' s' (fact_refs ?fs T)"
      "\<And>b. b \<noteq> a \<or> 1 < fact_refs ?fs (a # T) a \<or> Uset_promoted u \<or> b \<in> dom (um_heap m') \<Longrightarrow> same_uset ?m1 m' b"
      "ut_firstId s' = ut_firstId ?s" "ut_nextId s' = ut_nextId ?s"
    using Usets_drop_inv [OF l(2) u1 pos] unfolding rc by (auto simp: Uset_promoted_def)
  let ?st = "st\<lparr>os_mem := m', os_usets := s'\<rparr>"
  have alive: "same_uset ?m1 m' b" if "um_heap m' b = Some v" for b v using d(3) [of b] that by auto
  have "links_null ?m1 T" using inv(3) by (auto simp: links_null_def Mem_put_def)
  then have "links_null m' T" unfolding links_null_def using alive
    by (metis same_uset_back)
  moreover have "own_sets_ok m'" by (rule own_inv_shrink [OF own_sets_ok_link [OF inv(2) u] alive])
  moreover have "set T \<subseteq> dom (um_heap m')"
  proof
    fix b
    assume b: "b \<in> set T"
    then have "same_uset ?m1 m' b" using d(3) [of b] aT by auto
    then show "b \<in> dom (um_heap m')" using same_uset_dom sl(3) inv(5) b by fastforce
  qed
  ultimately have "own_inv ?st T" using assms d(2) aT(2) by (simp add: own_inv_def)
  moreover have "promoted_kept ?m m'"
    unfolding promoted_kept_def
  proof (intro conjI allI impI)
    fix b v
    assume b: "um_heap ?m b = Some v" "Uset_promoted v"
    then have "b \<noteq> a \<or> Uset_promoted u" using u by auto
    then have "same_uset ?m1 m' b" using d(3) [of b] by blast
    then show "\<exists>w. um_heap m' b = Some w \<and> us_exp w = us_exp v \<and> us_id w = us_id v"
      using b u by (auto simp: same_uset_def Mem_put_def split: if_splits)
  next
    fix b w
    assume b: "um_heap m' b = Some w" "Uset_promoted w"
    then show "\<exists>v. um_heap ?m b = Some v \<and> us_id v = us_id w"
      using same_uset_back [OF alive [OF b(1)] b(1)] u by (auto simp: Mem_put_def split: if_splits)
  qed
  moreover have "owners ?st j = owners st j" for j
  proof -
    have "units_of m' b = units_of ?m b" if "j < length ?fs" "?fs ! j = Some b" for b
    proof -
      have "0 < count_list ?fs (Some b)" using that by (metis count_list_0_iff nth_mem not_gr_zero)
      then have "b \<noteq> a \<or> 1 < fact_refs ?fs (a # T) a" by (auto simp: fact_refs_def)
      then show ?thesis using same_uset_units [of ?m1 m' b] d(3) [of b] sl(1) by auto
    qed
    then show ?thesis by (auto simp: owners_def split: option.split)
  qed
  ultimately show ?thesis using d(1,4,5) l(1) by (auto simp: reset_link_def)
qed

lemma reset_links:
  assumes "own_inv st T"
  shows "\<exists>st'. rfold reset_link T st = ok st' \<and> own_inv st' [] \<and> os_facts st' = os_facts st \<and>
    promoted_kept (os_mem st) (os_mem st') \<and> owners st' = owners st \<and>
    ut_firstId (os_usets st') = ut_firstId (os_usets st) \<and> ut_nextId (os_usets st') = ut_nextId (os_usets st)"
  using assms
proof (induction T arbitrary: st)
  case Nil
  then show ?case by (simp add: promoted_kept_refl)
next
  case (Cons a T)
  obtain m' s' where r: "reset_link a st = ok (st\<lparr>os_mem := m', os_usets := s'\<rparr>)" "own_inv (st\<lparr>os_mem := m', os_usets := s'\<rparr>) T"
      "promoted_kept (os_mem st) m'" "owners (st\<lparr>os_mem := m', os_usets := s'\<rparr>) = owners st"
      "ut_firstId s' = ut_firstId (os_usets st)" "ut_nextId s' = ut_nextId (os_usets st)"
    using reset_link_step [OF Cons.prems] by (auto simp: fun_eq_iff)
  obtain st' where "rfold reset_link T (st\<lparr>os_mem := m', os_usets := s'\<rparr>) = ok st'" "own_inv st' []" "os_facts st' = os_facts st"
      "promoted_kept m' (os_mem st')" "owners st' = owners st" "ut_firstId (os_usets st') = ut_firstId (os_usets st)"
      "ut_nextId (os_usets st') = ut_nextId (os_usets st)"
    using Cons.IH [OF r(2)] r(4-6) by auto
  then show ?case using r(1,3) promoted_kept_trans by (intro exI [of _ st']) auto
qed

text \<open>The facts a fact refers to.\<close>

definition refs_of :: "Inventory \<Rightarrow> Ref \<Rightarrow> Id list" where
  "refs_of inventory f =
     (case lookupPredicate inventory (ref_type f) of None \<Rightarrow> [] | Some p \<Rightarrow> map fst (traverser p (ref_clause f)))"

lemma Predicate_traverse_ids: "Predicate_traverse p (\<lambda>i _ refs. refs @ [i]) c [] = map fst (traverser p c)"
proof -
  have "fold (\<lambda>(i, t) refs. refs @ [i]) xs acc = acc @ map fst xs" for xs :: "(Id \<times> Pid) list" and acc
    by (induction xs arbitrary: acc) auto
  then show ?thesis by (simp add: Predicate_traverse_def)
qed

text \<open>No set is promoted when the ids in use do not change.\<close>

lemma kept_promoted_kept:
  assumes "kept m m'" "ids_ok m s" "ids_ok m' s'" "ut_firstId s' = ut_firstId s" "ut_nextId s' = ut_nextId s"
  shows "promoted_kept m m'"
proof -
  have "\<exists>u. um_heap m a = Some u \<and> us_id u = us_id v" if v: "um_heap m' a = Some v" "Uset_promoted v" for a v
  proof -
    have "ut_firstId s \<le> us_id v \<and> us_id v < ut_nextId s" using assms(3-5) v unfolding ids_ok_def by metis
    then obtain b u where u: "um_heap m b = Some u" "us_id u = us_id v" using assms(2) unfolding ids_ok_def by blast
    then obtain w where w: "um_heap m' b = Some w" "us_id w = us_id v" using assms(1) unfolding kept_def by metis
    have "a = b" using assms(3) v w unfolding ids_ok_def by metis
    then show ?thesis using u by blast
  qed
  then show ?thesis using assms(1) unfolding kept_def promoted_kept_def by blast
qed

definition is_promoted :: "UsetMem \<Rightarrow> uaddr \<Rightarrow> bool" where
  "is_promoted m a \<longleftrightarrow> (\<exists>u. um_heap m a = Some u \<and> Uset_promoted u)"

lemma promoted_kept_is: "promoted_kept m m' \<Longrightarrow> is_promoted m' a = is_promoted m a"
  unfolding promoted_kept_def is_promoted_def Uset_promoted_def by metis

lemma own_inv_ids: "own_inv st T \<Longrightarrow> ids_ok (os_mem st) (os_usets st)"
  by (simp add: own_inv_def Usets_inv_def)

text \<open>Promoting the owner of a fact starts the loop over its references.\<close>

lemma promote_step:
  assumes "own_inv st []" "k < length (os_facts st)" "os_facts st ! k = Some a" "unat (ut_nextId (os_usets st)) < 2 ^ 32 - 1"
  shows "\<exists>m' s'. Usets_promote a (os_mem st) (os_usets st) = ok (m', s') \<and>
    ref_inv (st\<lparr>os_mem := m', os_usets := s', os_touched := []\<rparr>) a (owners st k) \<and>
    owners (st\<lparr>os_mem := m', os_usets := s', os_touched := []\<rparr>) = owners st \<and>
    (\<forall>b. is_promoted m' b \<longleftrightarrow> is_promoted (os_mem st) b \<or> b = a) \<and>
    ut_firstId s' = ut_firstId (os_usets st) \<and> unat (ut_nextId s') \<le> Suc (unat (ut_nextId (os_usets st)))"
proof -
  let ?m = "os_mem st" and ?s = "os_usets st"
  note inv = own_invD [OF assms(1)]
  obtain u where u: "um_heap ?m a = Some u" using own_inv_alive [OF assms(1-3)] by blast
  have b: "fact_refs (os_facts st) [] a + 1 < 2 ^ 32" using inv(6) [of a] by simp
  obtain m' s' u' where p: "Usets_promote a ?m ?s = ok (m', s')" "Usets_inv m' s' (fact_refs (os_facts st) [])"
      "\<And>b. b \<noteq> a \<Longrightarrow> same_uset ?m m' b" "um_heap m' a = Some u'" "us_exp u' = us_exp u" "us_ptr u' = us_ptr u" "Uset_promoted u'"
      "ut_firstId s' = ut_firstId ?s" "unat (ut_nextId s') \<le> Suc (unat (ut_nextId ?s))"
    using Usets_promote_inv [OF inv(1) u b assms(4)] by blast
  have bk: "\<exists>w. um_heap ?m b = Some w \<and> us_exp w = us_exp v \<and> us_ptr w = us_ptr v \<and> (b = a \<or> us_id w = us_id v)"
    if "um_heap m' b = Some v" for b v
    using same_uset_back [OF p(3) that] p(4-6) u that by (cases "b = a") auto
  have un: "units_of m' b = units_of ?m b" for b
    using same_uset_units [OF p(3)] p(4,5) u by (cases "b = a") (auto simp: units_of_def)
  have "own_sets_ok m'" using inv(2) bk unfolding own_sets_ok_def by metis
  moreover have "links_null m' []" using inv(3) bk unfolding links_null_def by metis
  moreover have "units_of m' a = owners st k" using assms(2,3) un by (simp add: owners_def)
  ultimately have "ref_inv (st\<lparr>os_mem := m', os_usets := s', os_touched := []\<rparr>) a (owners st k)"
    using assms(1) p(2,4,7) by (auto simp: ref_inv_def own_inv_def links_union_def)
  moreover have "is_promoted m' b \<longleftrightarrow> is_promoted ?m b \<or> b = a" for b
  proof (cases "b = a")
    case False
    then show ?thesis using p(3) [OF False] by (cases "um_heap ?m b"; cases "um_heap m' b")
      (auto simp: is_promoted_def same_uset_def Uset_promoted_def)
  qed (use p(4,7) in \<open>auto simp: is_promoted_def\<close>)
  moreover have "owners (st\<lparr>os_mem := m', os_usets := s', os_touched := []\<rparr>) = owners st"
    using un by (auto simp: owners_def fun_eq_iff split: option.split)
  ultimately show ?thesis using p(1,8,9) by blast
qed

lemma complete_fact_step:
  assumes "own_inv st []" "unat (ref_id f) < length (os_facts st)" "unat (ut_nextId (os_usets st)) < 2 ^ 32 - 1"
    "lookupPredicate inventory (ref_type f) \<noteq> None" "\<forall>i\<in>set (refs_of inventory f). i < ref_id f"
  shows "\<exists>st'. complete_fact inventory f st = ok st' \<and> own_inv st' [] \<and> length (os_facts st') = length (os_facts st) \<and>
    (\<forall>j \<ge> unat (ref_id f). os_facts st' ! j = os_facts st ! j) \<and>
    owners st' = (\<lambda>j. if j \<in> unat ` set (refs_of inventory f) then owners st j \<union> owners st (unat (ref_id f)) else owners st j) \<and>
    (\<forall>b. is_promoted (os_mem st') b \<longleftrightarrow> is_promoted (os_mem st) b \<or> os_facts st ! unat (ref_id f) = Some b) \<and>
    ut_firstId (os_usets st') = ut_firstId (os_usets st) \<and>
    unat (ut_nextId (os_usets st')) \<le> Suc (unat (ut_nextId (os_usets st)))"
proof (cases "os_facts st ! unat (ref_id f)")
  case None
  then have "owners st (unat (ref_id f)) = {}" using assms(2) by (simp add: owners_def)
  then show ?thesis using None assms(1,2) by (intro exI [of _ st]) (auto simp: complete_fact_def fun_eq_iff)
next
  case (Some a)
  let ?k = "unat (ref_id f)" and ?rs = "refs_of inventory f"
  obtain p where p: "lookupPredicate inventory (ref_type f) = Some p" using assms(4) by blast
  have rs: "Predicate_traverse p (\<lambda>i _ refs. refs @ [i]) (ref_clause f) [] = ?rs"
    by (simp add: Predicate_traverse_ids refs_of_def p)
  have below: "unat i < ?k" if "i \<in> set ?rs" for i using assms(5) that by (simp add: word_less_nat_alt)
  obtain m1 s1 where m1: "Usets_promote a (os_mem st) (os_usets st) = ok (m1, s1)"
      "ref_inv (st\<lparr>os_mem := m1, os_usets := s1, os_touched := []\<rparr>) a (owners st ?k)"
      "owners (st\<lparr>os_mem := m1, os_usets := s1, os_touched := []\<rparr>) = owners st"
      "\<forall>b. is_promoted m1 b \<longleftrightarrow> is_promoted (os_mem st) b \<or> b = a"
      "ut_firstId s1 = ut_firstId (os_usets st)" "unat (ut_nextId s1) \<le> Suc (unat (ut_nextId (os_usets st)))"
    using promote_step [OF assms(1,2) Some assms(3)] by blast
  let ?st1 = "st\<lparr>os_mem := m1, os_usets := s1, os_touched := []\<rparr>"
  have lt: "\<forall>i\<in>set ?rs. unat i < length (os_facts ?st1)" using below assms(2) by fastforce
  obtain st2 where s2: "rfold (complete_ref a) ?rs ?st1 = ok st2" "ref_inv st2 a (owners st ?k)"
      "length (os_facts st2) = length (os_facts st)" "\<forall>j. j \<notin> unat ` set ?rs \<longrightarrow> os_facts st2 ! j = os_facts st ! j"
      "kept m1 (os_mem st2)" "\<forall>j. owners st2 j = (if j \<in> unat ` set ?rs then owners st j \<union> owners st ?k else owners st j)"
      "ut_firstId (os_usets st2) = ut_firstId s1" "ut_nextId (os_usets st2) = ut_nextId s1"
    using complete_refs_fold [OF m1(2) lt] m1(3) by auto
  have i2: "own_inv st2 (os_touched st2)" and i1: "own_inv ?st1 []" using s2(2) m1(2) by (simp_all add: ref_inv_def)
  have pk: "promoted_kept m1 (os_mem st2)"
    using kept_promoted_kept [OF s2(5) _ own_inv_ids [OF i2]] own_inv_ids [OF i1] s2(7,8) by simp
  obtain st3 where s3: "rfold reset_link (os_touched st2) st2 = ok st3" "own_inv st3 []" "os_facts st3 = os_facts st2"
      "promoted_kept (os_mem st2) (os_mem st3)" "owners st3 = owners st2"
      "ut_firstId (os_usets st3) = ut_firstId (os_usets st2)" "ut_nextId (os_usets st3) = ut_nextId (os_usets st2)"
    using reset_links [OF i2] by blast
  have "complete_fact inventory f st = ok st3"
    using assms(2) Some m1(1) s2(1) s3(1) by (simp add: complete_fact_def p rs)
  moreover have "os_facts st3 ! j = os_facts st ! j" if "?k \<le> j" for j
    using s2(4) s3(3) below that by (metis imageE leD)
  moreover have "is_promoted (os_mem st3) b \<longleftrightarrow> is_promoted (os_mem st) b \<or> os_facts st ! ?k = Some b" for b
    using promoted_kept_is [OF s3(4)] promoted_kept_is [OF pk] m1(4) Some by auto
  ultimately show ?thesis
    using s2(3,6,7,8) s3(2,3,5-7) m1(5,6) by (intro exI [of _ st3]) (auto simp: fun_eq_iff)
qed

section \<open>Ownership along references\<close>

text \<open>What the loop computes, one fact after the other, and the closure it amounts to.\<close>

fun spread :: "(nat \<times> nat set) list \<Rightarrow> (nat \<Rightarrow> 'a set) \<Rightarrow> nat \<Rightarrow> 'a set" where
  "spread [] ow = ow"
| "spread ((k, rs) # xs) ow = spread xs (\<lambda>j. if j \<in> rs then ow j \<union> ow k else ow j)"

definition edges :: "(nat \<times> nat set) list \<Rightarrow> (nat \<times> nat) set" where
  "edges xs = {(k, j). \<exists>rs. (k, rs) \<in> set xs \<and> j \<in> rs}"

lemma edges_Cons:
  assumes "\<And>k' rs'. (k', rs') \<in> set xs \<Longrightarrow> k' < k \<and> (\<forall>j\<in>rs'. j < k')" "\<forall>j\<in>rs. j < k"
  shows "(i, j) \<in> (edges ((k, rs) # xs))\<^sup>* \<longleftrightarrow> (i, j) \<in> (edges xs)\<^sup>* \<or> (i = k \<and> (\<exists>r\<in>rs. (r, j) \<in> (edges xs)\<^sup>*))"
proof
  have target: "y < k" if "(x, y) \<in> edges ((k, rs) # xs)" for x y
    using that assms by (fastforce simp: edges_def)
  assume "(i, j) \<in> (edges ((k, rs) # xs))\<^sup>*"
  then show "(i, j) \<in> (edges xs)\<^sup>* \<or> (i = k \<and> (\<exists>r\<in>rs. (r, j) \<in> (edges xs)\<^sup>*))"
  proof (induction rule: converse_rtrancl_induct)
    case (step x y)
    have "y \<noteq> k" using target [OF step(1)] by simp
    then have y: "(y, j) \<in> (edges xs)\<^sup>*" using step.IH by blast
    have "(x, y) \<in> edges xs \<or> (x = k \<and> y \<in> rs)" using step(1) by (auto simp: edges_def)
    then show ?case using y by (auto intro: converse_rtrancl_into_rtrancl)
  qed simp
next
  have sub: "(edges xs)\<^sup>* \<subseteq> (edges ((k, rs) # xs))\<^sup>*" by (rule rtrancl_mono) (auto simp: edges_def)
  assume "(i, j) \<in> (edges xs)\<^sup>* \<or> (i = k \<and> (\<exists>r\<in>rs. (r, j) \<in> (edges xs)\<^sup>*))"
  then show "(i, j) \<in> (edges ((k, rs) # xs))\<^sup>*"
  proof
    assume "i = k \<and> (\<exists>r\<in>rs. (r, j) \<in> (edges xs)\<^sup>*)"
    then obtain r where "i = k" "r \<in> rs" "(r, j) \<in> (edges ((k, rs) # xs))\<^sup>*" using sub by blast
    moreover have "(k, r) \<in> edges ((k, rs) # xs)" using \<open>r \<in> rs\<close> by (auto simp: edges_def)
    ultimately show ?thesis by (auto intro: converse_rtrancl_into_rtrancl)
  qed (use sub in blast)
qed

lemma spread_closure:
  assumes "sorted_wrt (>) (map fst xs)" "\<And>k rs. (k, rs) \<in> set xs \<Longrightarrow> \<forall>j\<in>rs. j < k"
  shows "spread xs ow j = (\<Union>i\<in>{i. (i, j) \<in> (edges xs)\<^sup>*}. ow i)"
  using assms
proof (induction xs arbitrary: ow)
  case Nil
  then show ?case by (simp add: edges_def)
next
  case (Cons x xs)
  obtain k rs where x: "x = (k, rs)" by (cases x)
  have k: "k' < k \<and> (\<forall>j\<in>rs'. j < k')" if "(k', rs') \<in> set xs" for k' rs'
    using Cons.prems that by (force simp: x)
  have r: "\<forall>j\<in>rs. j < k" using Cons.prems(2) [of k rs] by (simp add: x)
  have e: "(i, j) \<in> (edges (x # xs))\<^sup>* \<longleftrightarrow> (i, j) \<in> (edges xs)\<^sup>* \<or> (i = k \<and> (\<exists>r\<in>rs. (r, j) \<in> (edges xs)\<^sup>*))" for i
    unfolding x using k r by (intro edges_Cons) auto
  let ?ow = "\<lambda>j. if j \<in> rs then ow j \<union> ow k else ow j"
  have "spread (x # xs) ow j = (\<Union>i\<in>{i. (i, j) \<in> (edges xs)\<^sup>*}. ?ow i)"
    unfolding x spread.simps using Cons.prems(1) k by (intro Cons.IH) (auto simp: x)
  also have "\<dots> = (\<Union>i\<in>{i. (i, j) \<in> (edges (x # xs))\<^sup>*}. ow i)"
    unfolding e by (auto split: if_splits)
  finally show ?case .
qed

definition fact_edges :: "Inventory \<Rightarrow> Ref list \<Rightarrow> (nat \<times> nat set) list" where
  "fact_edges inventory fs = map (\<lambda>f. (unat (ref_id f), unat ` set (refs_of inventory f))) fs"

text \<open>The facts that completing ownership goes through: ids descend, and references point downwards.\<close>

definition back_ok :: "Inventory \<Rightarrow> nat \<Rightarrow> Ref list \<Rightarrow> bool" where
  "back_ok inventory n fs \<longleftrightarrow> sorted_wrt (>) (map (unat \<circ> ref_id) fs) \<and>
     (\<forall>f\<in>set fs. unat (ref_id f) < n \<and> lookupPredicate inventory (ref_type f) \<noteq> None \<and>
        (\<forall>i\<in>set (refs_of inventory f). i < ref_id f))"

lemma complete_facts:
  assumes "own_inv st []" "back_ok inventory (length (os_facts st)) fs"
    "unat (ut_nextId (os_usets st)) + length fs < 2 ^ 32 - 1"
  shows "\<exists>st'. rfold (complete_fact inventory) fs st = ok st' \<and> own_inv st' [] \<and> length (os_facts st') = length (os_facts st) \<and>
    (\<forall>j. (\<forall>f\<in>set fs. unat (ref_id f) \<le> j) \<longrightarrow> os_facts st' ! j = os_facts st ! j) \<and>
    owners st' = spread (fact_edges inventory fs) (owners st) \<and>
    (\<forall>b. is_promoted (os_mem st') b \<longleftrightarrow> is_promoted (os_mem st) b \<or> (\<exists>f\<in>set fs. os_facts st' ! unat (ref_id f) = Some b)) \<and>
    ut_firstId (os_usets st') = ut_firstId (os_usets st)"
  using assms
proof (induction fs arbitrary: st)
  case Nil
  then show ?case by (simp add: fact_edges_def)
next
  case (Cons f fs)
  let ?k = "unat (ref_id f)"
  obtain st1 where s1: "complete_fact inventory f st = ok st1" "own_inv st1 []" "length (os_facts st1) = length (os_facts st)"
      "\<forall>j \<ge> ?k. os_facts st1 ! j = os_facts st ! j"
      "owners st1 = (\<lambda>j. if j \<in> unat ` set (refs_of inventory f) then owners st j \<union> owners st ?k else owners st j)"
      "\<forall>b. is_promoted (os_mem st1) b \<longleftrightarrow> is_promoted (os_mem st) b \<or> os_facts st ! ?k = Some b"
      "ut_firstId (os_usets st1) = ut_firstId (os_usets st)" "unat (ut_nextId (os_usets st1)) \<le> Suc (unat (ut_nextId (os_usets st)))"
    using complete_fact_step [OF Cons.prems(1), of f inventory] Cons.prems(2,3) by (auto simp: back_ok_def)
  have b1: "back_ok inventory (length (os_facts st1)) fs" "unat (ut_nextId (os_usets st1)) + length fs < 2 ^ 32 - 1"
    using Cons.prems(2,3) s1(3,8) by (auto simp: back_ok_def)
  obtain st2 where s2: "rfold (complete_fact inventory) fs st1 = ok st2" "own_inv st2 []" "length (os_facts st2) = length (os_facts st1)"
      "\<forall>j. (\<forall>f\<in>set fs. unat (ref_id f) \<le> j) \<longrightarrow> os_facts st2 ! j = os_facts st1 ! j"
      "owners st2 = spread (fact_edges inventory fs) (owners st1)"
      "\<forall>b. is_promoted (os_mem st2) b \<longleftrightarrow> is_promoted (os_mem st1) b \<or> (\<exists>f\<in>set fs. os_facts st2 ! unat (ref_id f) = Some b)"
      "ut_firstId (os_usets st2) = ut_firstId (os_usets st1)"
    using Cons.IH [OF s1(2) b1] by blast
  have "\<forall>g\<in>set fs. unat (ref_id g) \<le> ?k" using Cons.prems(2) by (auto simp: back_ok_def intro: less_imp_le)
  then have "os_facts st2 ! ?k = os_facts st ! ?k" using s1(4) s2(4) by auto
  moreover have "owners st2 = spread (fact_edges inventory (f # fs)) (owners st)"
    using s2(5) s1(5) by (simp add: fact_edges_def)
  ultimately show ?case
    using s1(1,3,4,6,7) s2(1-4,6,7) by (intro exI [of _ st2]) auto
qed

section \<open>The packed result\<close>

text \<open>The owner of a fact in a list of intervals.\<close>

definition interval_owner :: "(Id \<times> UsetId) list \<Rightarrow> Id \<Rightarrow> UsetId" where
  "interval_owner ivs i = fold (\<lambda>(j, u) v. if j \<le> i then u else v) ivs INVALID_USET"

lemma interval_owner_snoc: "interval_owner (ivs @ [(j, u)]) i = (if j \<le> i then u else interval_owner ivs i)"
  by (simp add: interval_owner_def)

lemma pack_loop_spec:
  assumes "\<And>k. k < length fs \<Longrightarrow> fact_usetid m (fs ! k) = ok (g k)" "length fs < 2 ^ 32"
    and "unat i \<le> length fs" "low \<le> unat i"
    and "\<And>k. low \<le> k \<Longrightarrow> k < unat i \<Longrightarrow> interval_owner out (of_nat k) = g k"
    and "\<And>k. unat i \<le> k \<Longrightarrow> k < length fs \<Longrightarrow> interval_owner out (of_nat k) = current"
  shows "\<exists>out'. pack_loop m fs i current out = Some (ok out') \<and>
    (\<forall>k. low \<le> k \<longrightarrow> k < length fs \<longrightarrow> interval_owner out' (of_nat k) = g k)"
  using assms(3-)
proof (induction "length fs - unat i" arbitrary: i current out)
  case 0
  then have "\<not> unat i < length fs" by simp
  then show ?case using 0 by (subst pack_loop.simps) auto
next
  case (Suc n)
  then have i: "unat i < length fs" by simp
  have i1: "unat (i + 1) = Suc (unat i)" using i assms(2) by (simp add: unat_word_ariths)
  have le: "(ucast i :: u64) \<le> of_nat k \<longleftrightarrow> unat i \<le> k" if "k < length fs" for k
    using that assms(2) unat_lt_32 [of i] by (simp add: word_le_nat_alt unat_ucast_mod unat_of_nat)
  let ?u = "g (unat i)"
  let ?out = "if ?u \<noteq> current then out @ [(ucast i, ?u)] else out"
  have eq: "pack_loop m fs i current out = pack_loop m fs (i + 1) ?u ?out"
    using assms(1) [OF i] i by (subst pack_loop.simps) (auto simp: ok_def)
  have same: "interval_owner ?out (of_nat k) = (if unat i \<le> k then ?u else interval_owner out (of_nat k))" if "k < length fs" for k
    using Suc.prems(4) [of k] that by (auto simp: interval_owner_snoc le [OF that])
  show ?case
    unfolding eq
  proof (rule Suc.hyps(1))
    show "n = length fs - unat (i + 1)" "unat (i + 1) \<le> length fs" "low \<le> unat (i + 1)"
      using Suc.hyps(2) Suc.prems(1,2) i i1 by simp_all
    show "interval_owner ?out (of_nat k) = g k" if "low \<le> k" "k < unat (i + 1)" for k
      using same [of k] Suc.prems(3) [OF that(1)] that(2) i i1 by (cases "k = unat i") auto
    show "interval_owner ?out (of_nat k) = ?u" if "unat (i + 1) \<le> k" "k < length fs" for k
      using same [OF that(2)] that(1) i1 by simp
  qed
qed

lemma pack_loop_sorted:
  assumes "length fs < 2 ^ 32" "pack_loop m fs i current out = Some (ok out')"
    "sorted_wrt (<) (map fst out)" "\<forall>j\<in>fst ` set out. unat j < unat i"
  shows "sorted_wrt (<) (map fst out')"
  using assms(2-)
proof (induction "length fs - unat i" arbitrary: i current out)
  case 0
  then show ?case by (subst (asm) pack_loop.simps) (simp add: ok_def)
next
  case (Suc n)
  then have i: "unat i < length fs" by simp
  have i1: "unat (i + 1) = Suc (unat i)" using i assms(1) by (simp add: unat_word_ariths)
  have c: "unat (ucast i :: Id) = unat i" using unat_lt_32 [of i] by (simp add: unat_ucast_mod)
  obtain u where u: "fact_usetid m (fs ! unat i) = Inr u"
    using Suc.prems(1) i by (subst (asm) pack_loop.simps) (auto simp: ok_def raise_def split: sum.splits)
  let ?out = "if u \<noteq> current then out @ [(ucast i, u)] else out"
  have "pack_loop m fs (i + 1) u ?out = Some (ok out')"
    using Suc.prems(1) i u by (subst (asm) pack_loop.simps) (simp split: if_splits)
  then show ?case
  proof (rule Suc.hyps(1) [rotated])
    show "n = length fs - unat (i + 1)" using Suc.hyps(2) i1 by simp
    show "sorted_wrt (<) (map fst ?out)"
      using Suc.prems(2,3) by (auto simp: sorted_wrt_append word_less_nat_alt c)
    show "\<forall>j\<in>fst ` set ?out. unat j < unat (i + 1)" using Suc.prems(3) by (auto simp: i1 c)
  qed
qed

text \<open>Exporting the promoted sets: each is found at its id.\<close>

context elias_fano
begin

lemma Uset_toEliasFano_ok:
  assumes "us_exp u = \<lparr>se_op = op, se_set = rep A\<rparr>" "A \<noteq> {}" "- 1 \<notin> A"
  shows "\<exists>e. Uset_toEliasFano F u = ok \<lparr>se_op = op, se_set = e\<rparr> \<and> content e = sorted_list_of_set A"
  using toEliasFano_rep [OF assms(2,3)] assms(1) by (auto simp: Uset_toEliasFano_def)

definition exported :: "UsetMem \<Rightarrow> UsetId \<Rightarrow> 'e SetExpr option list \<Rightarrow> uaddr \<Rightarrow> bool" where
  "exported m firstId sets a \<longleftrightarrow> (\<forall>u. um_heap m a = Some u \<longrightarrow> Uset_promoted u \<longrightarrow>
     (\<exists>e. sets ! unat (us_id u - firstId) = Some \<lparr>se_op = se_op (us_exp u), se_set = e\<rparr> \<and>
       content e = SetU32_foreach (se_set (us_exp u))))"

lemma export_loop_ok:
  assumes "\<And>a. a \<in> set as \<Longrightarrow> \<exists>u op A. um_heap m a = Some u \<and> us_exp u = \<lparr>se_op = op, se_set = rep A\<rparr> \<and> A \<noteq> {} \<and> - 1 \<notin> A"
    and "\<And>a u. a \<in> set as \<Longrightarrow> um_heap m a = Some u \<Longrightarrow> Uset_promoted u \<Longrightarrow> unat (us_id u - firstId) < length sets"
    and "\<And>a b u v. a \<in> set as \<union> D \<Longrightarrow> b \<in> set as \<union> D \<Longrightarrow> um_heap m a = Some u \<Longrightarrow> um_heap m b = Some v \<Longrightarrow>
      Uset_promoted u \<Longrightarrow> Uset_promoted v \<Longrightarrow> us_id u - firstId = us_id v - firstId \<Longrightarrow> a = b"
    and "\<And>a. a \<in> D \<Longrightarrow> exported m firstId sets a" "distinct as" "set as \<inter> D = {}"
  shows "\<exists>sets'. export_loop F firstId m as sets = ok sets' \<and> length sets' = length sets \<and>
    (\<forall>a\<in>set as \<union> D. exported m firstId sets' a)"
  using assms
proof (induction as arbitrary: sets D)
  case Nil
  then show ?case by auto
next
  case (Cons a as)
  obtain u op A where u: "um_heap m a = Some u" "us_exp u = \<lparr>se_op = op, se_set = rep A\<rparr>" "A \<noteq> {}" "- 1 \<notin> A"
    using Cons.prems(1) [of a] by auto
  obtain e where e: "Uset_toEliasFano F u = ok \<lparr>se_op = op, se_set = e\<rparr>" "content e = sorted_list_of_set A"
    using Uset_toEliasFano_ok [OF u(2-4)] by blast
  let ?i = "unat (us_id u - firstId)"
  let ?sets = "if Uset_promoted u then sets[?i := Some \<lparr>se_op = op, se_set = e\<rparr>] else sets"
  have i: "?i < length sets" if "Uset_promoted u" using Cons.prems(2) [of a u] u(1) that by simp
  have eq: "export_loop F firstId m (a # as) sets = export_loop F firstId m as ?sets"
    using u(1) e(1) i by (simp add: Let_def)
  have ex: "exported m firstId ?sets b" if "b \<in> insert a D" for b
  proof (cases "b = a")
    case True
    then show ?thesis using i e(2) u by (auto simp: exported_def rep_foreach)
  next
    case False
    then have b: "b \<in> D" using that by simp
    have "unat (us_id v - firstId) \<noteq> ?i" if "um_heap m b = Some v" "Uset_promoted v" "Uset_promoted u" for v
      using Cons.prems(3) [of a b u v] False b u(1) that by (auto simp: word_unat_eq_iff)
    then show ?thesis using Cons.prems(4) [OF b] by (auto simp: exported_def)
  qed
  have "\<exists>sets'. export_loop F firstId m as ?sets = ok sets' \<and> length sets' = length ?sets \<and>
      (\<forall>b\<in>set as \<union> insert a D. exported m firstId sets' b)"
  proof (rule Cons.IH)
    show "exported m firstId ?sets b" if "b \<in> insert a D" for b using ex that .
    show "b = c" if "b \<in> set as \<union> insert a D" "c \<in> set as \<union> insert a D" "um_heap m b = Some v" "um_heap m c = Some w"
      "Uset_promoted v" "Uset_promoted w" "us_id v - firstId = us_id w - firstId" for b c v w
      using Cons.prems(3) [of b c v w] that by auto
  qed (use Cons.prems(1,2,5,6) in auto)
  then show ?case unfolding eq by (cases "Uset_promoted u") simp_all
qed

end

section \<open>Completing and packing\<close>

text \<open>The relation between the facts of a list and the facts they refer to.\<close>

definition ref_rel :: "Inventory \<Rightarrow> Ref list \<Rightarrow> (nat \<times> nat) set" where
  "ref_rel inventory fs = {(unat (ref_id f), unat i) |f i. f \<in> set fs \<and> i \<in> set (refs_of inventory f)}"

lemma edges_ref_rel: "edges (fact_edges inventory fs) = ref_rel inventory fs"
  by (auto simp: edges_def fact_edges_def ref_rel_def)

definition closure :: "(nat \<times> nat) set \<Rightarrow> (nat \<Rightarrow> 'a set) \<Rightarrow> nat \<Rightarrow> 'a set" where
  "closure r ow k = (\<Union>j\<in>{j. (j, k) \<in> r\<^sup>*}. ow j)"

lemma complete_closure:
  assumes "own_inv st []" "back_ok inventory (length (os_facts st)) fs" "unat (ut_nextId (os_usets st)) + length fs < 2 ^ 32 - 1"
    "fs = enumerateBack lookup (of_nat (length (os_facts st))) WordId_invalid"
  shows "\<exists>st'. completeOwnership inventory lookup st = ok st' \<and> own_inv st' [] \<and> length (os_facts st') = length (os_facts st) \<and>
    owners st' = closure (ref_rel inventory fs) (owners st) \<and>
    (\<forall>b. is_promoted (os_mem st') b \<longleftrightarrow> is_promoted (os_mem st) b \<or> (\<exists>f\<in>set fs. os_facts st' ! unat (ref_id f) = Some b)) \<and>
    ut_firstId (os_usets st') = ut_firstId (os_usets st)"
proof -
  have fs: "fs = []" if "os_facts st = []" using assms(2) that by (cases fs) (auto simp: back_ok_def)
  have eq: "completeOwnership inventory lookup st = rfold (complete_fact inventory) fs st"
    using fs by (auto simp: completeOwnership_def assms(4))
  have s: "sorted_wrt (>) (map fst (fact_edges inventory fs))"
    using assms(2) by (simp add: back_ok_def fact_edges_def o_def)
  have l: "\<forall>j\<in>rs. j < k" if "(k, rs) \<in> set (fact_edges inventory fs)" for k rs
    using assms(2) that by (auto simp: back_ok_def fact_edges_def word_less_nat_alt)
  have "spread (fact_edges inventory fs) (owners st) = closure (ref_rel inventory fs) (owners st)"
    by (rule ext) (simp only: spread_closure [OF s l] edges_ref_rel closure_def)
  then show ?thesis using complete_facts [OF assms(1-3)] unfolding eq by auto
qed

lemma owners_Some:
  assumes "own_inv st T" "k < length (os_facts st)" "os_facts st ! k = Some a"
  shows "\<exists>u. um_heap (os_mem st) a = Some u \<and> us_exp u = \<lparr>se_op = Or, se_set = rep (owners st k)\<rparr> \<and> owners st k \<noteq> {}"
  using own_inv_alive [OF assms] own_sets_exp [OF own_invD(2) [OF assms(1)]] assms(2,3) by (auto simp: owners_def)

lemma own_inv_owned:
  assumes "own_inv st []" "um_heap (os_mem st) a = Some u"
  shows "is_promoted (os_mem st) a \<or> (\<exists>k. k < length (os_facts st) \<and> os_facts st ! k = Some a)"
proof (cases "Uset_promoted u")
  case False
  then have "0 < fact_refs (os_facts st) [] a"
    using Usets_invD(2,3) [OF own_invD(1) [OF assms(1)] assms(2)] unat_gt_0 [of "us_refs u"] by simp
  then have "count_list (os_facts st) (Some a) \<noteq> 0" by (simp add: fact_refs_def)
  then have "Some a \<in> set (os_facts st)" by (simp only: count_list_0_iff not_not)
  then show ?thesis by (metis in_set_conv_nth)
qed (use assms(2) in \<open>auto simp: is_promoted_def\<close>)

lemma pack_loop_all:
  assumes "\<And>k. k < length fs \<Longrightarrow> fact_usetid m (fs ! k) = ok (g k)" "length fs < 2 ^ 32"
  shows "\<exists>out. pack_loop m fs (ucast WordId_lowest) INVALID_USET [] = Some (ok out) \<and>
    (\<forall>k. unat WordId_lowest \<le> k \<longrightarrow> k < length fs \<longrightarrow> interval_owner out (of_nat k) = g k)"
proof -
  have u: "unat (ucast WordId_lowest :: u32) = unat WordId_lowest"
    by (simp add: WordId_lowest_def FIRST_FREE_ID_def)
  show ?thesis
  proof (cases "unat WordId_lowest \<le> length fs")
    case True
    show ?thesis by (rule pack_loop_spec [OF assms]) (use True u in \<open>auto simp: interval_owner_def\<close>)
  next
    case False
    then show ?thesis by (subst pack_loop.simps) (simp add: u)
  qed
qed

text \<open>What the packed result says of a fact owned by the units \<open>A\<close>.\<close>

definition packed_owner :: "('e \<Rightarrow> u32 list) \<Rightarrow> 'e ComputedOwnership \<Rightarrow> nat \<Rightarrow> u32 set \<Rightarrow> bool" where
  "packed_owner content c k A \<longleftrightarrow>
     (let i = interval_owner (co_facts c) (of_nat k) in
      if A = {} then i = INVALID_USET
      else i \<noteq> INVALID_USET \<and> co_firstId c \<le> i \<and> unat (i - co_firstId c) < length (co_sets c) \<and>
        (\<exists>e. co_sets c ! unat (i - co_firstId c) = Some \<lparr>se_op = Or, se_set = e\<rparr> \<and> content e = sorted_list_of_set A))"

text \<open>
  The shape of a result: the intervals are in order, every slot holds a set of units, and no set
  occurs twice.
\<close>

definition full_sets :: "('e \<Rightarrow> u32 list) \<Rightarrow> 'e SetExpr option list \<Rightarrow> bool" where
  "full_sets content sets \<longleftrightarrow>
     (\<forall>k < length sets. \<exists>e A. sets ! k = Some \<lparr>se_op = Or, se_set = e\<rparr> \<and> content e = sorted_list_of_set A \<and> A \<noteq> {}) \<and>
     (\<forall>j < length sets. \<forall>k < length sets. \<forall>x y. sets ! j = Some x \<longrightarrow> sets ! k = Some y \<longrightarrow>
        content (se_set x) = content (se_set y) \<longrightarrow> j = k)"

definition computed_ok :: "('e \<Rightarrow> u32 list) \<Rightarrow> 'e ComputedOwnership \<Rightarrow> bool" where
  "computed_ok content c \<longleftrightarrow> sorted_wrt (<) (map fst (co_facts c)) \<and>
     unat (co_firstId c) + length (co_sets c) < 2 ^ 32 \<and> full_sets content (co_sets c)"

context elias_fano
begin

lemma export_full:
  assumes "own_inv st []" "length sets = unat (ut_nextId (os_usets st) - ut_firstId (os_usets st))"
    "\<And>a. exported (os_mem st) (ut_firstId (os_usets st)) sets a"
  shows "full_sets content sets" "unat (ut_firstId (os_usets st)) + length sets < 2 ^ 32"
proof -
  let ?m = "os_mem st" and ?s = "os_usets st"
  have ids: "ids_ok ?m ?s" by (rule own_inv_ids [OF assms(1)])
  have le: "ut_firstId ?s \<le> ut_nextId ?s" using ids by (simp add: ids_ok_def)
  then have len: "unat (ut_firstId ?s) + length sets = unat (ut_nextId ?s)"
    using assms(2) by (simp add: unat_sub word_le_nat_alt)
  then show "unat (ut_firstId ?s) + length sets < 2 ^ 32" using unat_lt_32 [of "ut_nextId ?s"] by simp
  have cell: "\<exists>a u e A. um_heap ?m a = Some u \<and> us_exp u = \<lparr>se_op = Or, se_set = rep A\<rparr> \<and> A \<noteq> {} \<and>
      unat (us_id u - ut_firstId ?s) = k \<and> sets ! k = Some \<lparr>se_op = Or, se_set = e\<rparr> \<and> content e = sorted_list_of_set A"
    if k: "k < length sets" for k
  proof -
    let ?i = "ut_firstId ?s + of_nat k"
    have i: "unat ?i = unat (ut_firstId ?s) + k"
      using len k unat_lt_32 [of "ut_nextId ?s"] by (simp add: unat_word_ariths unat_of_nat)
    then have "ut_firstId ?s \<le> ?i" "?i < ut_nextId ?s" using len k by (simp_all add: word_le_nat_alt word_less_nat_alt)
    then obtain a u where u: "um_heap ?m a = Some u" "us_id u = ?i" using ids unfolding ids_ok_def by blast
    have "unat INVALID_USET = 2 ^ 32 - 1" by (simp add: INVALID_USET_def)
    then have "Uset_promoted u"
      using u(2) i len k unat_lt_32 [of "ut_nextId ?s"] by (auto simp: Uset_promoted_def)
    then obtain e where e: "sets ! unat (us_id u - ut_firstId ?s) = Some \<lparr>se_op = se_op (us_exp u), se_set = e\<rparr>"
        "content e = SetU32_foreach (se_set (us_exp u))"
      using assms(3) [of a] u(1) unfolding exported_def by blast
    obtain A where A: "A \<noteq> {}" "us_exp u = \<lparr>se_op = Or, se_set = rep A\<rparr>"
      using own_invD(2) [OF assms(1)] u(1) unfolding own_sets_ok_def by blast
    have "unat (us_id u - ut_firstId ?s) = k" using u(2) k len unat_lt_32 [of "ut_nextId ?s"] by (simp add: unat_of_nat)
    then show ?thesis using u(1) A e by (auto simp: rep_foreach)
  qed
  have "j = k" if jk: "j < length sets" "k < length sets" "sets ! j = Some x" "sets ! k = Some y"
    "content (se_set x) = content (se_set y)" for j k x y
  proof -
    obtain a u e A where u: "um_heap ?m a = Some u" "us_exp u = \<lparr>se_op = Or, se_set = rep A\<rparr>"
        "unat (us_id u - ut_firstId ?s) = j" "sets ! j = Some \<lparr>se_op = Or, se_set = e\<rparr>" "content e = sorted_list_of_set A"
      using cell [OF jk(1)] by blast
    obtain b v f B where v: "um_heap ?m b = Some v" "us_exp v = \<lparr>se_op = Or, se_set = rep B\<rparr>"
        "unat (us_id v - ut_firstId ?s) = k" "sets ! k = Some \<lparr>se_op = Or, se_set = f\<rparr>" "content f = sorted_list_of_set B"
      using cell [OF jk(2)] by blast
    have "sorted_list_of_set A = sorted_list_of_set B" using jk(3-5) u(4,5) v(4,5) by auto
    then have "A = B" by (metis finite set_sorted_list_of_set)
    then have "a = b" using Usets_unique [OF own_invD(1) [OF assms(1)] u(1) v(1)] u(2) v(2) by simp
    then show ?thesis using u(1,3) v(1,3) by auto
  qed
  then show "full_sets content sets" unfolding full_sets_def using cell by blast
qed

lemma export_ok:
  assumes "own_inv st []" "\<And>a u. um_heap (os_mem st) a = Some u \<Longrightarrow> - 1 \<notin> units_of (os_mem st) a"
  shows "\<exists>sets. Usets_toEliasFano F (os_mem st) (os_usets st) = ok sets \<and>
    length sets = unat (ut_nextId (os_usets st) - ut_firstId (os_usets st)) \<and>
    (\<forall>a. exported (os_mem st) (ut_firstId (os_usets st)) sets a)"
proof -
  let ?m = "os_mem st" and ?s = "os_usets st"
  note inv = own_invD [OF assms(1)]
  have ids: "ids_ok ?m ?s" by (rule own_inv_ids [OF assms(1)])
  have tab: "set (ut_usets ?s) = dom (um_heap ?m)" "distinct (ut_usets ?s)" using inv(1) by (auto simp: Usets_inv_def)
  have idb: "ut_firstId ?s \<le> us_id u \<and> us_id u < ut_nextId ?s" if "um_heap ?m a = Some u" "Uset_promoted u" for a u
    using ids that unfolding ids_ok_def by blast
  have len: "unat (uss_promoted (ut_stats ?s)) = unat (ut_nextId ?s - ut_firstId ?s)"
    using ids unat_lt_32 [of "ut_nextId ?s - ut_firstId ?s"] by (simp add: ids_ok_def unat_ucast_mod)
  have cells: "\<exists>u op A. um_heap ?m a = Some u \<and> us_exp u = \<lparr>se_op = op, se_set = rep A\<rparr> \<and> A \<noteq> {} \<and> - 1 \<notin> A"
    if a: "a \<in> set (ut_usets ?s)" for a
  proof -
    obtain u where u: "um_heap ?m a = Some u" using a tab by auto
    then show ?thesis using own_sets_exp [OF inv(2) u] assms(2) [OF u] by blast
  qed
  have range: "unat (us_id u - ut_firstId ?s) < length (replicate (unat (uss_promoted (ut_stats ?s))) None)"
    if "um_heap ?m a = Some u" "Uset_promoted u" for a u
    using idb [OF that] len by (auto simp: unat_sub word_le_nat_alt word_less_nat_alt intro!: diff_less_mono)
  have uniq: "a = b" if "um_heap ?m a = Some u" "um_heap ?m b = Some v" "Uset_promoted u" "us_id u - ut_firstId ?s = us_id v - ut_firstId ?s"
    for a b u v
    using ids that unfolding ids_ok_def by auto
  have "\<exists>sets'. export_loop F (ut_firstId ?s) ?m (ut_usets ?s) (replicate (unat (uss_promoted (ut_stats ?s))) None) = ok sets' \<and>
      length sets' = length (replicate (unat (uss_promoted (ut_stats ?s))) (None :: 'e SetExpr option)) \<and>
      (\<forall>a\<in>set (ut_usets ?s) \<union> {}. exported ?m (ut_firstId ?s) sets' a)"
    by (rule export_loop_ok) (use cells range uniq tab(2) in auto)
  then obtain sets where sets: "Usets_toEliasFano F ?m ?s = ok sets" "length sets = unat (ut_nextId ?s - ut_firstId ?s)"
      "\<And>a. a \<in> dom (um_heap ?m) \<Longrightarrow> exported ?m (ut_firstId ?s) sets a"
    using len tab(1) by (auto simp: Usets_toEliasFano_def)
  have "exported ?m (ut_firstId ?s) sets a" for a
    using sets(3) [of a] by (cases "a \<in> dom (um_heap ?m)") (auto simp: exported_def)
  then show ?thesis using sets(1,2) by blast
qed

lemma finish_ownership_ok:
  assumes "own_inv st []" "\<And>a. \<not> is_promoted (os_mem st) a" "\<And>k. - 1 \<notin> owners st k"
    "fs = enumerateBack lookup (of_nat (length (os_facts st))) WordId_invalid"
    "back_ok inventory (length (os_facts st)) fs" "unat (ut_nextId (os_usets st)) + length fs < 2 ^ 32 - 1"
  shows "\<exists>c. finish_ownership F inventory lookup st = Some (ok c) \<and> co_firstId c = ut_firstId (os_usets st) \<and> computed_ok content c \<and>
    (\<forall>f\<in>set fs. unat WordId_lowest \<le> unat (ref_id f) \<longrightarrow>
      packed_owner content c (unat (ref_id f)) (closure (ref_rel inventory fs) (owners st) (unat (ref_id f))))"
proof -
  let ?r = "ref_rel inventory fs"
  obtain st' where st': "completeOwnership inventory lookup st = ok st'" "own_inv st' []" "length (os_facts st') = length (os_facts st)"
      "owners st' = closure ?r (owners st)"
      "\<forall>b. is_promoted (os_mem st') b \<longleftrightarrow> (\<exists>f\<in>set fs. os_facts st' ! unat (ref_id f) = Some b)"
      "ut_firstId (os_usets st') = ut_firstId (os_usets st)"
    using complete_closure [OF assms(1,5,6,4)] assms(2) by blast
  let ?m = "os_mem st'" and ?s = "os_usets st'" and ?fs = "os_facts st'"
  have below: "unat (ref_id f) < length ?fs" if "f \<in> set fs" for f using assms(5) that st'(3) by (simp add: back_ok_def)
  have no_max: "- 1 \<notin> owners st' k" for k using assms(3) by (auto simp: st'(4) closure_def)
  have "- 1 \<notin> units_of ?m a" if u: "um_heap ?m a = Some u" for a u
  proof -
    obtain k where "k < length ?fs" "?fs ! k = Some a" using own_inv_owned [OF st'(2) u] st'(5) below by metis
    then show ?thesis using no_max [of k] by (simp add: owners_def)
  qed
  then obtain sets where sets: "Usets_toEliasFano F ?m ?s = ok sets" "length sets = unat (ut_nextId ?s - ut_firstId ?s)"
      "\<And>a. exported ?m (ut_firstId ?s) sets a"
    using export_ok [OF st'(2)] by blast
  define g where "g k = (case ?fs ! k of None \<Rightarrow> INVALID_USET | Some a \<Rightarrow> us_id (the (um_heap ?m a)))" for k
  have g: "fact_usetid ?m (?fs ! k) = ok (g k)" if "k < length ?fs" for k
    using own_inv_alive [OF st'(2) that] by (auto simp: g_def fact_usetid_def split: option.split)
  obtain out where out: "pack_loop ?m ?fs (ucast WordId_lowest) INVALID_USET [] = Some (ok out)"
      "\<And>k. unat WordId_lowest \<le> k \<Longrightarrow> k < length ?fs \<Longrightarrow> interval_owner out (of_nat k) = g k"
    using pack_loop_all [OF g] st'(2) by (auto simp: own_inv_def)
  let ?c = "\<lparr>co_firstId = ut_firstId ?s, co_sets = sets, co_facts = out\<rparr>"
  have "packed_owner content ?c (unat (ref_id f)) (owners st' (unat (ref_id f)))"
    if f: "f \<in> set fs" "unat WordId_lowest \<le> unat (ref_id f)" for f
  proof (cases "?fs ! unat (ref_id f)")
    case None
    then show ?thesis using out(2) [OF f(2) below [OF f(1)]] below [OF f(1)] by (simp add: packed_owner_def owners_def g_def)
  next
    case (Some a)
    obtain u where u: "um_heap ?m a = Some u" "us_exp u = \<lparr>se_op = Or, se_set = rep (owners st' (unat (ref_id f)))\<rparr>"
        "owners st' (unat (ref_id f)) \<noteq> {}"
      using owners_Some [OF st'(2) below [OF f(1)] Some] by blast
    have p: "Uset_promoted u" using st'(5) f(1) Some u(1) unfolding is_promoted_def by force
    then have "ut_firstId ?s \<le> us_id u \<and> us_id u < ut_nextId ?s"
      using own_inv_ids [OF st'(2)] u(1) unfolding ids_ok_def by blast
    moreover from this have "unat (us_id u - ut_firstId ?s) < length sets"
      unfolding sets(2) by (auto simp: unat_sub word_le_nat_alt word_less_nat_alt intro!: diff_less_mono)
    moreover have "interval_owner out (of_nat (unat (ref_id f))) = us_id u"
      using out(2) [OF f(2) below [OF f(1)]] by (simp add: g_def Some u(1))
    ultimately show ?thesis using sets(3) [of a] u p
      by (auto simp: packed_owner_def exported_def Uset_promoted_def rep_foreach)
  qed
  moreover have "computed_ok content ?c"
    using export_full [OF st'(2) sets(2,3)] pack_loop_sorted [OF _ out(1)] st'(2) by (simp add: computed_ok_def own_inv_def)
  ultimately show ?thesis
    using st'(1,4,6) sets(1) out(1) by (intro exI [of _ ?c]) (simp add: finish_ownership_def ok_def rbind_def)
qed

end

end
