(* ===== verification/Trie_Insert.thy ===== *)
theory Trie_Insert
  imports Trie_Visit Ownerships_Correct
begin

text \<open>
  Insertion into the trie: while it is under way the trees that will get a new value are chained to
  the old one, and the reference counts cover the leaves and the chains. At the end the keys of the
  inserted ranges are owned by one more unit and all the others by the same units as before.
\<close>

section \<open>Tilings\<close>

text \<open>The slots of the leaves partition the keys.\<close>

definition tiling :: "path set \<Rightarrow> bool" where
  "tiling P \<longleftrightarrow> (\<forall>p\<in>P. p \<noteq> [] \<and> length p \<le> 5) \<and>
     (\<forall>p\<in>P. \<forall>q\<in>P. p \<noteq> q \<longrightarrow> slot_keys p \<inter> slot_keys q = {}) \<and> (\<Union>p\<in>P. slot_keys p) = {..<2 ^ 32}"

lemma slot_size_pos: "p \<noteq> [] \<Longrightarrow> length p \<le> 5 \<Longrightarrow> 0 < slot_size p"
proof -
  assume "p \<noteq> []" "length p \<le> 5"
  then have "length p - 1 = 0 \<or> length p - 1 = 1 \<or> length p - 1 = 2 \<or> length p - 1 = 3 \<or> length p - 1 = 4" by linarith
  then show ?thesis unfolding slot_size_def using blockSize_simps by auto
qed

lemma slot_keys_snoc:
  "p \<noteq> [] \<Longrightarrow> slot_keys (p @ [i]) = {slot_base p + i * blockSize (length p) ..< slot_base p + i * blockSize (length p) + blockSize (length p)}"
  by (simp add: slot_keys_def slot_base_snoc slot_size_snoc)

lemma slot_keys_all: "p \<noteq> [] \<Longrightarrow> length p < 5 \<Longrightarrow>
   slot_keys p = {slot_base p ..< slot_base p + FANOUT * blockSize (length p)} \<and> 0 < blockSize (length p)"
  using blockSize_Suc [of "length p - 1"] by (auto simp: slot_keys_def slot_size_def)

lemma slot_split:
  assumes "p \<noteq> []" "length p < 5"
  shows "(\<Union>i<FANOUT. slot_keys (p @ [i])) = slot_keys p"
    "i \<noteq> j \<Longrightarrow> slot_keys (p @ [i]) \<inter> slot_keys (p @ [j]) = {}"
proof -
  let ?B = "blockSize (length p)" and ?b = "slot_base p"
  have pos: "0 < ?B" and all: "slot_keys p = {?b ..< ?b + FANOUT * ?B}" using slot_keys_all [OF assms] by auto
  have mem: "k \<in> slot_keys (p @ [i]) \<longleftrightarrow> ?b \<le> k \<and> (k - ?b) div ?B = i" for k i
  proof (cases "?b \<le> k")
    case True
    then obtain x where x: "k = ?b + x" using le_Suc_ex by blast
    have "x div ?B = i \<longleftrightarrow> i * ?B \<le> x \<and> x < i * ?B + ?B"
    proof
      assume i: "x div ?B = i"
      show "i * ?B \<le> x \<and> x < i * ?B + ?B"
        using div_times_less_eq_dividend [of x ?B] dividend_less_div_times [OF pos, of x] unfolding i by simp
    next
      assume "i * ?B \<le> x \<and> x < i * ?B + ?B"
      then show "x div ?B = i" by (intro div_nat_eqI) (simp_all add: mult.commute)
    qed
    then show ?thesis unfolding slot_keys_snoc [OF assms(1)] x by simp
  qed (auto simp: slot_keys_snoc [OF assms(1)])
  have top: "k \<in> slot_keys p \<longleftrightarrow> ?b \<le> k \<and> (k - ?b) div ?B < FANOUT" for k
    unfolding all using div_less_iff_less_mult [OF pos, of "k - ?b" FANOUT] by auto
  show "(\<Union>i<FANOUT. slot_keys (p @ [i])) = slot_keys p"
    unfolding set_eq_iff UN_iff Bex_def lessThan_iff mem top by metis
  show "i \<noteq> j \<Longrightarrow> slot_keys (p @ [i]) \<inter> slot_keys (p @ [j]) = {}" unfolding disjoint_iff mem by blast
qed

lemma slot_keys_nonempty: "tiling P \<Longrightarrow> p \<in> P \<Longrightarrow> slot_keys p \<noteq> {}"
  using slot_size_pos [of p] by (auto simp: tiling_def slot_keys_def)

lemma slot_keys_below: "tiling P \<Longrightarrow> p \<in> P \<Longrightarrow> slot_keys p \<subseteq> {..<2 ^ 32}"
  unfolding tiling_def by blast

lemma tiling_disjoint: "tiling P \<Longrightarrow> p \<in> P \<Longrightarrow> q \<in> P \<Longrightarrow> p \<noteq> q \<Longrightarrow> slot_keys p \<inter> slot_keys q = {}"
  unfolding tiling_def by blast

text \<open>Every slot has a key, so there are no more slots than keys.\<close>

lemma tiling_card:
  assumes "tiling P" "Q \<subseteq> P" "(\<Union>p\<in>Q. slot_keys p) \<subseteq> K" "finite K"
  shows "finite Q \<and> card Q \<le> card K"
proof -
  have ne: "slot_base p \<in> slot_keys p" if "p \<in> Q" for p
    using that assms(1,2) slot_size_pos [of p] by (auto simp: tiling_def slot_keys_def)
  have "inj_on slot_base Q"
  proof (rule inj_onI, rule ccontr)
    fix p q
    assume pq: "p \<in> Q" "q \<in> Q" "slot_base p = slot_base q" "p \<noteq> q"
    then have "slot_keys p \<inter> slot_keys q = {}" using tiling_disjoint [OF assms(1)] assms(2) by blast
    then show False using ne [OF pq(1)] ne [OF pq(2)] pq(3) by auto
  qed
  moreover have "slot_base ` Q \<subseteq> K" using ne assms(3) by blast
  ultimately show ?thesis using assms(4) by (metis card_inj_on_le inj_on_finite)
qed

lemma tiling_finite: "tiling P \<Longrightarrow> finite P"
  using tiling_card [of P P "{..<2 ^ 32}"] by (auto simp: tiling_def)

lemma tiling_split:
  assumes "tiling P" "p \<in> P" "length p < 5"
  shows "tiling (P - {p} \<union> (\<lambda>i. p @ [i]) ` {..<FANOUT})" (is "tiling (?A \<union> ?N)")
proof -
  have p: "p \<noteq> []" using assms(1,2) by (auto simp: tiling_def)
  note sp = slot_split [OF p assms(3)]
  have N: "(\<Union>q\<in>?N. slot_keys q) = slot_keys p" using sp(1) by simp
  have sub: "slot_keys q \<subseteq> slot_keys p" if "q \<in> ?N" for q using N that by blast
  have A: "slot_keys q \<inter> slot_keys p = {}" if "q \<in> ?A" for q using tiling_disjoint [OF assms(1)] assms(2) that by blast
  have "slot_keys q \<inter> slot_keys r = {}" if qr: "q \<in> ?A \<union> ?N" "r \<in> ?A \<union> ?N" "q \<noteq> r" for q r
  proof (cases "q \<in> ?A"; cases "r \<in> ?A")
    assume "q \<in> ?A" "r \<in> ?A"
    then show ?thesis using tiling_disjoint [OF assms(1)] qr(3) by blast
  next
    assume "q \<in> ?A" "r \<notin> ?A"
    then show ?thesis using qr(2) A [of q] sub [of r] by blast
  next
    assume "q \<notin> ?A" "r \<in> ?A"
    then show ?thesis using qr(1) A [of r] sub [of q] by blast
  next
    assume "q \<notin> ?A" "r \<notin> ?A"
    then obtain i j where "q = p @ [i]" "r = p @ [j]" using qr(1,2) by blast
    then show ?thesis using sp(2) [of i j] qr(3) by simp
  qed
  moreover have "(\<Union>q\<in>?A \<union> ?N. slot_keys q) = {..<2 ^ 32}"
  proof -
    have "(\<Union>q\<in>?A \<union> ?N. slot_keys q) = (\<Union>q\<in>?A. slot_keys q) \<union> slot_keys p" using N by (simp only: UN_Un)
    also have "\<dots> = (\<Union>q\<in>P. slot_keys q)" using assms(2) by blast
    finally show ?thesis using assms(1) by (simp add: tiling_def)
  qed
  ultimately show ?thesis using assms(1,3) unfolding tiling_def by auto
qed

section \<open>The state of an insertion\<close>

text \<open>
  \<open>C v\<close> is the chain of the trees whose old value is \<open>v\<close>, the last visited first, and \<open>S k\<close> the units
  that own the key \<open>k\<close>.
\<close>

type_synonym chains = "uaddr option \<Rightarrow> path list"

definition link_of :: "path list \<Rightarrow> path option" where
  "link_of ps = (case ps of [] \<Rightarrow> None | p # _ \<Rightarrow> Some p)"

definition ptr_of :: "path list \<Rightarrow> Ptr" where
  "ptr_of ps = (case ps of [] \<Rightarrow> PNull | p # _ \<Rightarrow> PTree p)"

fun chained :: "(path \<Rightarrow> Tree option) \<Rightarrow> path list \<Rightarrow> bool" where
  "chained M [] \<longleftrightarrow> True"
| "chained M (p # ps) \<longleftrightarrow> M p = Some (Tree_of_link (link_of ps)) \<and> chained M ps"

definition Tree_of_value :: "uaddr option \<Rightarrow> Tree" where
  "Tree_of_value v = (case v of None \<Rightarrow> TNull | Some a \<Rightarrow> TValue a)"

definition alive :: "UsetMem \<Rightarrow> uaddr option \<Rightarrow> bool" where
  "alive m v = (case v of None \<Rightarrow> True | Some a \<Rightarrow> a \<in> dom (um_heap m))"

definition units_opt :: "UsetMem \<Rightarrow> uaddr option \<Rightarrow> u32 set" where
  "units_opt m v = (case v of None \<Rightarrow> {} | Some a \<Rightarrow> units_of m a)"

definition vals :: "(path \<Rightarrow> Tree option) \<Rightarrow> uaddr \<Rightarrow> path set" where
  "vals M a = {p. M p = Some (TValue a)}"

definition held :: "(path \<Rightarrow> Tree option) \<Rightarrow> chains \<Rightarrow> uaddr \<Rightarrow> nat" where
  "held M C a = card (vals M a) + (if C (Some a) = [] then 0 else 1)"

definition cell_ok :: "(path \<Rightarrow> Tree option) \<Rightarrow> chains \<Rightarrow> uaddr \<Rightarrow> Uset \<Rightarrow> bool" where
  "cell_ok M C a u \<longleftrightarrow> (\<exists>A. A \<noteq> {} \<and> us_exp u = \<lparr>se_op = Or, se_set = rep A\<rparr>) \<and> us_id u = INVALID_USET \<and>
     us_ptr u = ptr_of (C (Some a)) \<and> us_refs u = of_nat (held M C a) \<and> held M C a \<noteq> 0"

definition chains_ok :: "(path \<Rightarrow> Tree option) \<Rightarrow> UsetMem \<Rightarrow> chains \<Rightarrow> bool" where
  "chains_ok M m C \<longleftrightarrow> (\<forall>v. distinct (C v) \<and> chained M (C v) \<and> (C v \<noteq> [] \<longrightarrow> alive m v)) \<and>
     (\<forall>v w. v \<noteq> w \<longrightarrow> set (C v) \<inter> set (C w) = {})"

definition leaf_ok :: "UsetMem \<Rightarrow> chains \<Rightarrow> (nat \<Rightarrow> u32 set) \<Rightarrow> path \<Rightarrow> Tree \<Rightarrow> bool" where
  "leaf_ok m C S p t \<longleftrightarrow> (\<exists>v. (\<forall>k\<in>slot_keys p. S k = units_opt m v) \<and> alive m v \<and>
     (p \<in> set (C v) \<or> (\<forall>w. p \<notin> set (C w)) \<and> t = Tree_of_value v))"

definition trie_inv :: "(path \<Rightarrow> Tree option) \<Rightarrow> UsetMem \<Rightarrow> chains \<Rightarrow> (nat \<Rightarrow> u32 set) \<Rightarrow> bool" where
  "trie_inv M m C S \<longleftrightarrow> tiling (dom M) \<and> chains_ok M m C \<and> S 0 = {} \<and>
     (\<forall>a u. um_heap m a = Some u \<longrightarrow> a < um_fresh m \<and> cell_ok M C a u) \<and>
     (\<forall>p t. M p = Some t \<longrightarrow> leaf_ok m C S p t)"

lemma link_simps [simp]:
  "link_of [] = None" "link_of (p # ps) = Some p" "ptr_of [] = PNull" "ptr_of (p # ps) = PTree p"
  "Tree_of_link None = TNull" "Tree_of_link (Some p) = TLink p" "Tree_of_value None = TNull" "Tree_of_value (Some a) = TValue a"
  "units_opt m None = {}" "units_opt m (Some a) = units_of m a" "alive m None" "alive m (Some a) \<longleftrightarrow> a \<in> dom (um_heap m)"
  by (simp_all add: link_of_def ptr_of_def Tree_of_link_def Tree_of_value_def units_opt_def alive_def)

lemma Tree_of_link_not_value [simp]: "Tree_of_link l \<noteq> TValue a" "TValue a \<noteq> Tree_of_link l" "\<not> Tree_isForest (Tree_of_link l)"
  "Tree_of_link l \<noteq> TForest ts"
  by (cases l; simp add: Tree_isForest_def)+

lemma Tree_of_value_not_forest [simp]: "\<not> Tree_isForest (Tree_of_value v)"
  by (cases v) (simp_all add: Tree_isForest_def)

lemma chained_mono: "chained M ps \<Longrightarrow> (\<And>p. p \<in> set ps \<Longrightarrow> M' p = M p) \<Longrightarrow> chained M' ps"
  by (induction ps) auto

lemma chained_dom: "chained M ps \<Longrightarrow> set ps \<subseteq> dom M"
  by (induction ps) auto

lemma chained_not_value: "chained M ps \<Longrightarrow> p \<in> set ps \<Longrightarrow> M p \<noteq> Some (TValue a)"
  by (induction ps) auto

lemma trie_invD:
  assumes "trie_inv M m C S"
  shows "tiling (dom M)" "chains_ok M m C" "S 0 = {}" "\<And>a u. um_heap m a = Some u \<Longrightarrow> a < um_fresh m \<and> cell_ok M C a u"
    "\<And>p t. M p = Some t \<Longrightarrow> leaf_ok m C S p t" "\<And>a. finite (vals M a)"
proof -
  note inv = assms [unfolded trie_inv_def]
  show "tiling (dom M)" "chains_ok M m C" "S 0 = {}" using inv by simp_all
  then have "finite (dom M)" using tiling_finite by blast
  then show "finite (vals M a)" for a by (rule finite_subset [rotated]) (auto simp: vals_def)
  show "a < um_fresh m \<and> cell_ok M C a u" if "um_heap m a = Some u" for a u using inv that by blast
  show "leaf_ok m C S p t" if "M p = Some t" for p t using inv that by blast
qed

lemma chains_okD:
  assumes "chains_ok M m C"
  shows "distinct (C v)" "chained M (C v)" "C v \<noteq> [] \<Longrightarrow> alive m v" "v \<noteq> w \<Longrightarrow> p \<in> set (C v) \<Longrightarrow> p \<notin> set (C w)"
  using assms by (auto simp: chains_ok_def)

text \<open>No value is in every slot, since key 0 has no owner: the reference counts do not wrap around.\<close>

lemma vals_bound:
  assumes "trie_inv M m C S"
  shows "card (vals M a) < 2 ^ 32"
proof (cases "a \<in> dom (um_heap m)")
  case True
  then obtain u where u: "um_heap m a = Some u" by auto
  then obtain A where A: "A \<noteq> {}" "us_exp u = \<lparr>se_op = Or, se_set = rep A\<rparr>"
    using trie_invD(4) [OF assms u] by (auto simp: cell_ok_def)
  have S: "S k = A" if p: "p \<in> vals M a" "k \<in> slot_keys p" for p k
  proof -
    have t: "M p = Some (TValue a)" using p(1) by (simp add: vals_def)
    have "p \<notin> set (C v)" for v using chained_not_value chains_okD(2) [OF trie_invD(2) [OF assms]] t by metis
    then obtain v where "S k = units_opt m v" "TValue a = Tree_of_value v"
      using trie_invD(5) [OF assms t] p(2) by (auto simp: leaf_ok_def)
    then show ?thesis using units_of_exp [OF u A(2)] by (cases v) auto
  qed
  have t: "tiling (dom M)" by (rule trie_invD(1) [OF assms])
  have "(\<Union>p\<in>vals M a. slot_keys p) \<subseteq> {1 ..< 2 ^ 32}"
  proof
    fix k
    assume "k \<in> (\<Union>p\<in>vals M a. slot_keys p)"
    then obtain p where p: "p \<in> vals M a" "k \<in> slot_keys p" by blast
    then have "k \<noteq> 0" using S [OF p] A(1) trie_invD(3) [OF assms] by metis
    moreover have "k < 2 ^ 32" using slot_keys_below [OF t, of p] p by (auto simp: vals_def)
    ultimately show "k \<in> {1 ..< 2 ^ 32}" by simp
  qed
  moreover have "vals M a \<subseteq> dom M" by (auto simp: vals_def)
  ultimately have "card (vals M a) \<le> card {1 ..< 2 ^ 32 :: nat}" using tiling_card [OF t] finite_atLeastLessThan by blast
  then show ?thesis by simp
next
  case False
  have "vals M a = {}"
  proof (rule ccontr)
    assume "vals M a \<noteq> {}"
    then obtain p where t: "M p = Some (TValue a)" by (auto simp: vals_def)
    have "p \<notin> set (C v)" for v using chained_not_value chains_okD(2) [OF trie_invD(2) [OF assms]] t by metis
    then obtain v where "alive m v" "TValue a = Tree_of_value v" using trie_invD(5) [OF assms t] by (auto simp: leaf_ok_def)
    then show False using False by (cases v) auto
  qed
  then show ?thesis by simp
qed

text \<open>A change of the set that is a value, if there is one.\<close>

definition on_value :: "uaddr option \<Rightarrow> (Uset \<Rightarrow> Uset) \<Rightarrow> UsetMem \<Rightarrow> UsetMem" where
  "on_value v f m = (case v of None \<Rightarrow> m | Some a \<Rightarrow> Mem_put a (f (the (um_heap m a))) m)"

lemma on_value_same:
  assumes "alive m v" "\<And>u. us_exp (f u) = us_exp u"
  shows "units_opt (on_value v f m) = units_opt m" "alive (on_value v f m) = alive m" "um_fresh (on_value v f m) = um_fresh m"
proof -
  have *: "units_of (on_value v f m) b = units_of m b" "dom (um_heap (on_value v f m)) = dom (um_heap m)" for b
  proof -
    show "units_of (on_value v f m) b = units_of m b"
      using assms by (cases v) (auto simp: on_value_def units_of_def Mem_put_def)
    show "dom (um_heap (on_value v f m)) = dom (um_heap m)"
      using assms by (cases v) (simp_all add: on_value_def Mem_put_def insert_absorb)
  qed
  show "units_opt (on_value v f m) = units_opt m" "alive (on_value v f m) = alive m"
    by (auto simp: fun_eq_iff units_opt_def alive_def * split: option.split)
  show "um_fresh (on_value v f m) = um_fresh m" by (cases v) (auto simp: on_value_def Mem_put_def)
qed

lemma on_value_get:
  "alive m v \<Longrightarrow> um_heap (on_value v f m) a = Some u \<Longrightarrow>
    (if v = Some a then \<exists>u0. um_heap m a = Some u0 \<and> u = f u0 else um_heap m a = Some u)"
  by (cases v) (auto simp: on_value_def Mem_put_def split: if_splits)

lemma free_leaf:
  assumes "trie_inv M m C S" "M p = Some (Tree_of_value v)" "\<And>w. p \<notin> set (C w)"
  shows "alive m v" "k \<in> slot_keys p \<Longrightarrow> S k = units_opt m v"
  using trie_invD(5) [OF assms(1,2)] assms(3) by (auto simp: leaf_ok_def Tree_of_value_def split: option.splits)

text \<open>A visited leaf joins the chain of its value.\<close>

definition chain_set :: "path \<Rightarrow> path list \<Rightarrow> Uset \<Rightarrow> Uset" where
  "chain_set p ps u = u\<lparr>us_ptr := PTree p, us_refs := us_refs u - (if ps = [] then 0 else 1)\<rparr>"

lemma visit_leaf:
  assumes inv: "trie_inv M m C S" and Mp: "M p = Some (Tree_of_value v)" and free: "\<And>w. p \<notin> set (C w)"
  shows "trie_inv (M(p \<mapsto> Tree_of_link (link_of (C v)))) (on_value v (chain_set p (C v)) m) (C(v := p # C v)) S"
proof -
  let ?M = "M(p \<mapsto> Tree_of_link (link_of (C v)))" and ?m = "on_value v (chain_set p (C v)) m" and ?C = "C(v := p # C v)"
  note c = chains_okD [OF trie_invD(2) [OF inv]]
  have av: "alive m v" by (rule free_leaf [OF inv Mp free])
  have same: "units_opt ?m = units_opt m" "alive ?m = alive m" "um_fresh ?m = um_fresh m"
    by (rule on_value_same [OF av]; simp add: chain_set_def)+
  have ch: "chained ?M (C w)" for w by (rule chained_mono [OF c(2) [of w]]) (use free [of w] in auto)
  have "dom ?M = dom M" using Mp by auto
  then have t: "tiling (dom ?M)" using trie_invD(1) [OF inv] by simp
  have ok: "chains_ok ?M ?m ?C"
    unfolding chains_ok_def same using c free ch av by auto
  have vals: "vals ?M b = (if v = Some b then vals M b - {p} else vals M b)" for b
    using Mp by (cases v) (auto simp: vals_def)
  have cells: "a < um_fresh ?m \<and> cell_ok ?M ?C a u" if u: "um_heap ?m a = Some u" for a u
  proof (cases "v = Some a")
    case True
    obtain u0 where u0: "um_heap m a = Some u0" "u = chain_set p (C v) u0" using on_value_get [OF av u] True by auto
    have "p \<in> vals M a" using Mp True by (simp add: vals_def)
    then have "card (vals M a) = Suc (card (vals M a - {p}))" by (rule card.remove [OF trie_invD(6) [OF inv]])
    then have h: "held ?M ?C a = card (vals M a)" using vals [of a] True by (simp add: held_def)
    have "0 < card (vals M a)" using \<open>card (vals M a) = Suc _\<close> by simp
    then show ?thesis using trie_invD(4) [OF inv u0(1)] True unfolding cell_ok_def u0(2) same(3) h
      by (simp add: held_def chain_set_def)
  next
    case False
    then have "um_heap m a = Some u" using on_value_get [OF av u] by simp
    then show ?thesis using trie_invD(4) [OF inv, of a u] False vals [of a] unfolding same(3) by (simp add: cell_ok_def held_def)
  qed
  have leaf: "leaf_ok ?m ?C S q t" if q: "?M q = Some t" for q t
  proof (cases "q = p")
    case True
    then show ?thesis using av free_leaf(2) [OF inv Mp free] unfolding leaf_ok_def same by (intro exI [of _ v]) simp
  next
    case False
    then have "leaf_ok m C S q t" using trie_invD(5) [OF inv] q by simp
    then show ?thesis using False unfolding leaf_ok_def same by auto
  qed
  show ?thesis unfolding trie_inv_def using t ok trie_invD(3) [OF inv] cells leaf by blast
qed

text \<open>A leaf that is visited in part is split.\<close>

lemma split_dom: "M p = Some t \<Longrightarrow> dom (split_leaf p t M) = dom M - {p} \<union> (\<lambda>i. p @ [i]) ` {..<FANOUT}"
  by (auto simp: split_leaf_def split: if_splits)

lemma split_visit:
  assumes inv: "trie_inv M m C S" and Mp: "M p = Some (Tree_of_value v)" and free: "\<And>w. p \<notin> set (C w)"
    and p: "length p < 5" "\<And>q. q \<noteq> [] \<Longrightarrow> M (p @ q) = None"
  shows "trie_inv (split_leaf p (Tree_of_value v) M) (on_value v (\<lambda>u. u\<lparr>us_refs := us_refs u + of_nat (FANOUT - 1)\<rparr>) m) C S"
proof -
  let ?M = "split_leaf p (Tree_of_value v) M" and ?m = "on_value v (\<lambda>u. u\<lparr>us_refs := us_refs u + of_nat (FANOUT - 1)\<rparr>) m"
  let ?N = "(\<lambda>i. p @ [i]) ` {..<FANOUT}"
  note c = chains_okD [OF trie_invD(2) [OF inv]]
  have av: "alive m v" by (rule free_leaf [OF inv Mp free])
  have same: "units_opt ?m = units_opt m" "alive ?m = alive m" "um_fresh ?m = um_fresh m"
    by (rule on_value_same [OF av]; simp)+
  have pne: "p \<noteq> []" using trie_invD(1) [OF inv] Mp by (auto simp: tiling_def)
  have t: "tiling (dom ?M)" unfolding split_dom [of M p, OF Mp] by (rule tiling_split [OF trie_invD(1) [OF inv] _ p(1)]) (use Mp in auto)
  have old: "p @ [i] \<notin> set (C w)" for i w using chained_dom [OF c(2) [of w]] p(2) [of "[i]"] by auto
  have "chained ?M (C w)" for w by (rule chained_mono [OF c(2) [of w]]) (use free [of w] old [of _ w] in \<open>auto simp: split_leaf_def\<close>)
  then have ok: "chains_ok ?M ?m C" using trie_invD(2) [OF inv] unfolding chains_ok_def same by simp
  have vals: "vals ?M b = (if v = Some b then vals M b - {p} \<union> ?N else vals M b)" for b
    using Mp p(2) by (cases v) (auto simp: vals_def split_leaf_def split: if_splits)
  have cells: "a < um_fresh ?m \<and> cell_ok ?M C a u" if u: "um_heap ?m a = Some u" for a u
  proof (cases "v = Some a")
    case True
    obtain u0 where u0: "um_heap m a = Some u0" "u = u0\<lparr>us_refs := us_refs u0 + of_nat (FANOUT - 1)\<rparr>"
      using on_value_get [OF av u] True by auto
    have fin: "finite (vals M a)" by (rule trie_invD(6) [OF inv])
    have "p \<in> vals M a" using Mp True by (simp add: vals_def)
    then have "card (vals M a) = Suc (card (vals M a - {p}))" by (rule card.remove [OF fin])
    moreover have "card (vals M a - {p} \<union> ?N) = card (vals M a - {p}) + card ?N"
      using fin p(2) by (intro card_Un_disjoint) (auto simp: vals_def)
    moreover have "card ?N = FANOUT" by (subst card_image) (auto intro: inj_onI)
    ultimately have "held ?M C a = held M C a + (FANOUT - 1)" using vals [of a] True by (simp add: held_def FANOUT_def)
    then show ?thesis using trie_invD(4) [OF inv u0(1)] unfolding same(3) by (simp add: cell_ok_def u0(2))
  next
    case False
    then have "um_heap m a = Some u" using on_value_get [OF av u] by simp
    then show ?thesis using trie_invD(4) [OF inv, of a u] False vals [of a] unfolding same(3) by (simp add: cell_ok_def held_def)
  qed
  have leaf: "leaf_ok ?m C S q t" if q: "?M q = Some t" for q t
  proof (cases "q \<in> ?N")
    case True
    then obtain i where i: "q = p @ [i]" "i < FANOUT" by auto
    then have "t = Tree_of_value v" using q by (simp add: split_leaf_def)
    moreover have "slot_keys q \<subseteq> slot_keys p" using slot_split(1) [OF pne p(1)] i by blast
    ultimately show ?thesis using av old [of i] i free_leaf(2) [OF inv Mp free] unfolding leaf_ok_def same
      by (intro exI [of _ v]) auto
  next
    case False
    then have "M q = Some t" using q by (auto simp: split_leaf_def split: if_splits)
    then show ?thesis using trie_invD(5) [OF inv] unfolding leaf_ok_def same by blast
  qed
  show ?thesis unfolding trie_inv_def using t ok trie_invD(3) [OF inv] cells leaf by blast
qed

section \<open>The traversals of an insertion\<close>

definition covered :: "chains \<Rightarrow> nat set" where
  "covered C = (\<Union>v. \<Union>p\<in>set (C v). slot_keys p)"

definition ins_ok :: "chains \<Rightarrow> InsState \<Rightarrow> bool" where
  "ins_ok C st \<longleftrightarrow> is_null_link st = link_of (C None) \<and> distinct (is_values st) \<and> set (is_values st) = {a. C (Some a) \<noteq> []}"

definition insert_inv :: "(nat \<Rightarrow> u32 set) \<Rightarrow> (path \<Rightarrow> Tree option) \<Rightarrow> InsState \<Rightarrow> nat set \<Rightarrow> bool" where
  "insert_inv S M st D \<longleftrightarrow> (\<exists>C. trie_inv M (is_mem st) C S \<and> ins_ok C st \<and> D = covered C)"

lemma covered_cons: "covered (C(v := p # C v)) = covered C \<union> slot_keys p"
proof (rule set_eqI)
  fix k
  have *: "k \<in> covered C \<longleftrightarrow> (\<exists>w q. q \<in> set (C w) \<and> k \<in> slot_keys q)" for C by (auto simp: covered_def)
  have "(\<exists>w q. q \<in> set ((C(v := p # C v)) w) \<and> k \<in> slot_keys q) \<longleftrightarrow> (\<exists>w q. q \<in> set (C w) \<and> k \<in> slot_keys q) \<or> k \<in> slot_keys p"
    by (metis fun_upd_apply list.set_intros set_ConsD)
  then show "k \<in> covered (C(v := p # C v)) \<longleftrightarrow> k \<in> covered C \<union> slot_keys p" unfolding Un_iff * .
qed

lemma Tree_value_of [simp]: "Tree_value (Tree_of_value v) = ok v"
  by (cases v) (simp_all add: Tree_value_def)

lemma Ptr_tree_of [simp]: "Ptr_tree (ptr_of ps) = ok (link_of ps)"
  by (cases ps) (simp_all add: Ptr_tree_def)

lemma link_of_None [simp]: "link_of ps = None \<longleftrightarrow> ps = []"
  by (cases ps) simp_all

lemma insert_leaf_whole:
  assumes "trie_inv M (is_mem st) C S" "alive (is_mem st) v" "ins_ok C st"
  shows "\<exists>st'. insert_leaf p (Tree_of_value v) k n n st = ok (Tree_of_link (link_of (C v)), st') \<and>
    is_mem st' = on_value v (chain_set p (C v)) (is_mem st) \<and> ins_ok (C(v := p # C v)) st'"
proof (cases v)
  case None
  then show ?thesis using assms(3)
    by (intro exI [of _ "st\<lparr>is_null_link := Some p\<rparr>"]) (simp add: insert_leaf_def on_value_def ins_ok_def Tree_value_def)
next
  case (Some a)
  obtain u where u: "um_heap (is_mem st) a = Some u" using assms(2) Some by auto
  have ptr: "us_ptr u = ptr_of (C (Some a))" using trie_invD(4) [OF assms(1) u] by (simp add: cell_ok_def)
  let ?m = "on_value v (chain_set p (C v)) (is_mem st)"
  let ?st = "st\<lparr>is_mem := ?m, is_values := is_values st @ (if C v = [] then [a] else [])\<rparr>"
  have "insert_leaf p (Tree_of_value v) k n n st = ok (Tree_of_link (link_of (C v)), ?st)"
    using u ptr by (simp add: Some insert_leaf_def Tree_value_def Uset_link_def Uset_use_def Mem_modify_def
        on_value_def chain_set_def Mem_put_def)
  moreover have "ins_ok (C(v := p # C v)) ?st" using assms(3) by (auto simp: ins_ok_def Some)
  ultimately show ?thesis by (intro exI [of _ ?st]) simp
qed

lemma insert_leaf_part:
  assumes "alive (is_mem st) v" "ins_ok C st" "n \<noteq> b"
  shows "\<exists>st'. insert_leaf p (Tree_of_value v) k n b st = ok (TForest (replicate FANOUT (Tree_of_value v)), st') \<and>
    is_mem st' = on_value v (\<lambda>u. u\<lparr>us_refs := us_refs u + of_nat (FANOUT - 1)\<rparr>) (is_mem st) \<and> ins_ok C st'"
  using assms by (cases v) (auto simp: insert_leaf_def on_value_def ins_ok_def Tree_value_def Uset_use_def Mem_modify_def)

interpretation ins: trie_visitor insert_leaf "insert_inv S" UNIV for S
proof
  fix M st D p t n k
  assume a: "insert_inv S M st D" "M p = Some t" "p \<noteq> []" "length p \<le> 5" "\<And>q. q \<noteq> [] \<Longrightarrow> M (p @ q) = None"
    "0 < n" "{k ..< k + n} \<subseteq> slot_keys p" "{k ..< k + n} \<inter> D = {}"
  obtain C where C: "trie_inv M (is_mem st) C S" "ins_ok C st" "D = covered C" using a(1) by (auto simp: insert_inv_def)
  have k: "k \<in> slot_keys p" "k \<notin> D" using a(6-8) by (auto simp: disjoint_iff)
  have free: "p \<notin> set (C w)" for w using k unfolding C(3) covered_def by blast
  obtain v where v: "t = Tree_of_value v" using trie_invD(5) [OF C(1) a(2)] free by (auto simp: leaf_ok_def)
  note Mp = a(2) [unfolded v]
  have av: "alive (is_mem st) v" by (rule free_leaf [OF C(1) Mp free])
  show "\<exists>t' st'. insert_leaf p t k n (slot_size p) st = ok (t', st') \<and>
        (\<not> Tree_isForest t' \<and> insert_inv S (M(p \<mapsto> t')) st' (D \<union> {k ..< k + n}) \<or>
         t' = TForest (replicate FANOUT t) \<and> n \<noteq> slot_size p \<and> insert_inv S (split_leaf p t M) st' D)"
  proof (cases "n = slot_size p")
    case True
    have "{k ..< k + n} = slot_keys p" using a(6,7) True by (auto simp: slot_keys_def)
    then have D: "D \<union> {k ..< k + n} = covered (C(v := p # C v))" using C(3) by (simp add: covered_cons)
    obtain st' where st': "insert_leaf p t k n n st = ok (Tree_of_link (link_of (C v)), st')"
        "is_mem st' = on_value v (chain_set p (C v)) (is_mem st)" "ins_ok (C(v := p # C v)) st'"
      using insert_leaf_whole [OF C(1) av C(2)] unfolding v by blast
    have "insert_inv S (M(p \<mapsto> Tree_of_link (link_of (C v)))) st' (D \<union> {k ..< k + n})"
      using visit_leaf [OF C(1) Mp free] st'(2,3) D unfolding insert_inv_def by metis
    then show ?thesis using st'(1) True by auto
  next
    case False
    have "slot_size p \<noteq> 1" using False a(6,7) by (auto simp: slot_keys_def)
    then have "length p < 5" using a(4) blockSize_simps(5) by (cases "length p = 5") (auto simp: slot_size_def)
    note sp = split_visit [OF C(1) Mp free this a(5)]
    obtain st' where st': "insert_leaf p t k n (slot_size p) st = ok (TForest (replicate FANOUT t), st')"
        "is_mem st' = on_value v (\<lambda>u. u\<lparr>us_refs := us_refs u + of_nat (FANOUT - 1)\<rparr>) (is_mem st)" "ins_ok C st'"
      using insert_leaf_part [OF av C(2) False] unfolding v by blast
    have "insert_inv S (split_leaf p t M) st' D" using sp st'(2,3) C(3) unfolding insert_inv_def v by metis
    then show ?thesis using st'(1) False by auto
  qed
qed

section \<open>Replacing a value along its chain\<close>

lemma leaf_at_Tree_at: "leaf_at t q = Some x \<Longrightarrow> Tree_at t q = Some x"
  by (induction t q rule: leaf_at.induct) (auto split: if_splits)

lemma leaf_at_put:
  "leaf_at t q = Some y \<Longrightarrow> \<not> Tree_isForest x \<Longrightarrow> leaf_at (Tree_put t q x) r = (if r = q then Some x else leaf_at t r)"
proof (induction t q arbitrary: r rule: leaf_at.induct)
  case (2 ts i q)
  then show ?case by (cases r) (auto simp: nth_list_update split: if_splits)
qed (auto simp: leaf_at_leaf Tree_isForest_def)

lemma tree_ok_put: "leaf_at t q = Some y \<Longrightarrow> \<not> Tree_isForest x \<Longrightarrow> tree_ok level t \<Longrightarrow> tree_ok level (Tree_put t q x)"
proof (induction t q arbitrary: level rule: leaf_at.induct)
  case (2 ts i q)
  then show ?case by (auto simp: set_conv_nth nth_list_update split: if_splits)
qed (cases x; auto simp: Tree_isForest_def)+

lemma trees_put_leaves:
  assumes "leaves trees p = Some t" "\<not> Tree_isForest x" "\<forall>b. tree_ok 0 (trees b)"
  shows "trees_at trees p = Some t" "leaves (trees_put trees p x) = (leaves trees)(p \<mapsto> x)"
    "\<forall>b. tree_ok 0 (trees_put trees p x b)"
proof -
  obtain b q where p: "p = b # q" "b < FANOUT_TOP" "leaf_at (trees b) q = Some t"
    using assms(1) by (auto simp: leaves_def split: list.splits if_splits)
  show "trees_at trees p = Some t" using leaf_at_Tree_at [OF p(3)] by (simp add: trees_at_def p(1))
  show "leaves (trees_put trees p x) = (leaves trees)(p \<mapsto> x)"
    using leaf_at_put [OF p(3) assms(2)] p(2) by (auto simp: fun_eq_iff leaves_def trees_put_def p(1) split: list.split)
  show "\<forall>b. tree_ok 0 (trees_put trees p x b)"
    using tree_ok_put [OF p(3) assms(2)] assms(3) by (simp add: trees_put_def p(1))
qed

lemma Tree_link_of [simp]: "Tree_link (Tree_of_link l) = ok l"
  by (cases l) (simp_all add: Tree_link_def)

lemma unlink_loop_chain:
  assumes "chained (leaves trees) ps" "distinct ps" "\<forall>b. tree_ok 0 (trees b)"
  shows "\<exists>trees'. unlink_loop (link_of ps) upd trees refs = Some (ok (trees', refs + of_nat (length ps))) \<and>
    leaves trees' = (\<lambda>p. if p \<in> set ps then Some (TValue upd) else leaves trees p) \<and> (\<forall>b. tree_ok 0 (trees' b))"
  using assms
proof (induction ps arbitrary: trees refs)
  case Nil
  then show ?case by (subst unlink_loop.simps) auto
next
  case (Cons p ps)
  let ?t = "trees_put trees p (TValue upd)"
  have Mp: "leaves trees p = Some (Tree_of_link (link_of ps))" using Cons.prems(1) by simp
  note put = trees_put_leaves [OF Mp, of "TValue upd", OF _ Cons.prems(3)]
  have nf: "\<not> Tree_isForest (TValue upd)" by (simp add: Tree_isForest_def)
  have "chained (leaves ?t) ps"
    unfolding put(2) [OF nf] by (rule chained_mono [of "leaves trees"]) (use Cons.prems(1,2) in auto)
  then obtain trees' where t': "unlink_loop (link_of ps) upd ?t (refs + 1) = Some (ok (trees', refs + 1 + of_nat (length ps)))"
      "leaves trees' = (\<lambda>q. if q \<in> set ps then Some (TValue upd) else leaves ?t q)" "\<forall>b. tree_ok 0 (trees' b)"
    using Cons.IH [of ?t "refs + 1"] Cons.prems(2) put(3) [OF nf] by auto
  have "leaves trees' = (\<lambda>q. if q \<in> set (p # ps) then Some (TValue upd) else leaves trees q)"
    unfolding t'(2) put(2) [OF nf] by auto
  moreover have "unlink_loop (link_of (p # ps)) upd trees refs = unlink_loop (link_of ps) upd ?t (refs + 1)"
    using put(1) [OF nf] by (subst unlink_loop.simps) (simp add: ok_def)
  ultimately show ?case using t'(1,3) by (simp add: algebra_simps)
qed

text \<open>What the function given to \<open>unlink\<close> does to the memory.\<close>

definition replaced ::
    "(path \<Rightarrow> Tree option) \<Rightarrow> UsetMem \<Rightarrow> uaddr option \<Rightarrow> u32 set \<Rightarrow> nat \<Rightarrow> uaddr \<Rightarrow> UsetMem \<Rightarrow> bool" where
  "replaced M m v A n upd m2 \<longleftrightarrow>
     um_heap m2 upd = Some \<lparr>us_exp = \<lparr>se_op = Or, se_set = rep A\<rparr>, us_refs = of_nat n, us_id = INVALID_USET, us_ptr = PNull\<rparr> \<and>
     (\<forall>b. b \<noteq> upd \<longrightarrow> v \<noteq> Some b \<longrightarrow> um_heap m2 b = um_heap m b) \<and>
     (\<forall>a u. v = Some a \<longrightarrow> a \<noteq> upd \<longrightarrow> um_heap m a = Some u \<longrightarrow>
        um_heap m2 a = Some (u\<lparr>us_refs := us_refs u - 1, us_ptr := PNull\<rparr>) \<and> vals M a \<noteq> {}) \<and>
     (upd = um_fresh m \<and> um_fresh m2 = Suc upd \<or> v = Some upd \<and> vals M upd = {} \<and> um_fresh m2 = um_fresh m)"

lemma append_rep: "\<forall>x\<in>A. x \<le> unit \<Longrightarrow> SetU32_append (rep A) unit = rep (insert unit A)"
  using append_encode [OF good_blocks_of [of A]] by (simp add: rep_encode elems_blocks_of)

lemma new_rep: "SetU32_append SetU32_new unit = rep {unit}"
  using append_rep [of "{}" unit] by (simp add: rep_def SetU32_from_def)

lemma get_chain:
  assumes "trie_inv M m C S" "C v \<noteq> []" "\<forall>x\<in>units_opt m v. x \<le> unit"
  shows "\<exists>upd m1 m2. add_unit unit v 1 (on_value v (\<lambda>u. u\<lparr>us_ptr := PNull\<rparr>) m) = ok (upd, m1) \<and>
    Uset_use upd (of_nat n - 1) m1 = ok m2 \<and> replaced M m v (insert unit (units_opt m v)) n upd m2"
proof (cases v)
  case None
  then show ?thesis
    by (simp add: add_unit_def on_value_def Mem_alloc_def Uset_use_def Mem_modify_def Mem_put_def Uset_new_def new_rep replaced_def)
next
  case (Some a)
  obtain u where u: "um_heap m a = Some u" using chains_okD(3) [OF trie_invD(2) [OF assms(1)] assms(2)] Some by auto
  have c: "a < um_fresh m" "cell_ok M C a u" using trie_invD(4) [OF assms(1) u] by auto
  then obtain A where A: "A \<noteq> {}" "us_exp u = \<lparr>se_op = Or, se_set = rep A\<rparr>" by (auto simp: cell_ok_def)
  have un: "units_opt m v = A" using units_of_exp [OF u A(2)] Some by simp
  have ap: "SetU32_append (rep A) unit = rep (insert unit A)" by (rule append_rep) (use assms(3) un in simp)
  have r: "us_refs u = 1 + of_nat (card (vals M a))" "us_id u = INVALID_USET" using c(2) assms(2) Some by (auto simp: cell_ok_def held_def)
  have fin: "finite (vals M a)" by (rule trie_invD(6) [OF assms(1)])
  have "of_nat (card (vals M a)) = (0 :: u32) \<longleftrightarrow> card (vals M a) = 0"
    using vals_bound [OF assms(1), of a] by (auto simp: word_of_nat_eq_0_iff dest: dvd_imp_le)
  then have one: "us_refs u = 1 \<longleftrightarrow> vals M a = {}" unfolding r using fin by simp
  show ?thesis
  proof (cases "vals M a = {}")
    case True
    then show ?thesis using one un u ap A(2) r(2) c(1)
      by (simp add: Some add_unit_def on_value_def Uset_use_def Mem_modify_def Mem_put_def Let_def replaced_def)
  next
    case False
    then show ?thesis using one un u ap A(2) c(1)
      by (simp add: Some add_unit_def on_value_def Mem_alloc_def Uset_use_def Mem_modify_def Mem_put_def Let_def Uset_new_def replaced_def)
  qed
qed

lemma replaced_fresh:
  assumes "trie_inv M m C S" "C v \<noteq> []" "replaced M m v A n upd m2"
  shows "vals M upd = {}" "v \<noteq> Some upd \<Longrightarrow> C (Some upd) = []" "alive m w \<Longrightarrow> alive m2 w"
    "alive m (Some b) \<Longrightarrow> b \<noteq> upd \<Longrightarrow> units_of m2 b = units_of m b"
    "um_heap m2 b = Some u \<Longrightarrow> b \<noteq> upd \<Longrightarrow> alive m (Some b)"
    "um_heap m2 b = Some u \<Longrightarrow> b < um_fresh m2"
proof -
  note r = assms(3) [unfolded replaced_def]
  have av: "alive m v" using chains_okD(3) [OF trie_invD(2) [OF assms(1)] assms(2)] .
  have new: "\<not> alive m (Some upd)" if "v \<noteq> Some upd" using r that trie_invD(4) [OF assms(1)] by auto
  have a: "\<exists>u'. um_heap m2 b = Some u' \<and> us_exp u' = us_exp u" if "um_heap m b = Some u" "b \<noteq> upd" for b u
    using r that by (cases "v = Some b") auto
  show 1: "vals M upd = {}"
  proof (cases "v = Some upd")
    case True
    then show ?thesis using r trie_invD(4) [OF assms(1)] av by auto
  next
    case False
    show ?thesis
    proof (rule ccontr)
      assume "vals M upd \<noteq> {}"
      then obtain p where t: "M p = Some (TValue upd)" by (auto simp: vals_def)
      then have "M p = Some (Tree_of_value (Some upd))" "p \<notin> set (C w)" for w
        using chained_not_value chains_okD(2) [OF trie_invD(2) [OF assms(1)]] by (auto, metis)
      then show False using free_leaf(1) [OF assms(1)] new [OF False] by blast
    qed
  qed
  show "C (Some upd) = []" if "v \<noteq> Some upd" using new [OF that] chains_okD(3) [OF trie_invD(2) [OF assms(1)]] by blast
  show "alive m2 w" if "alive m w"
  proof (cases w)
    case (Some b)
    then show ?thesis using that a [of b] r by (cases "b = upd") auto
  qed simp
  show "units_of m2 b = units_of m b" if "alive m (Some b)" "b \<noteq> upd" using that a [of b] by (auto simp: units_of_def)
  show *: "alive m (Some b)" if "um_heap m2 b = Some u" "b \<noteq> upd" using that r av by (cases "v = Some b") auto
  show "b < um_fresh m2" if "um_heap m2 b = Some u"
  proof (cases "b = upd")
    case True
    then show ?thesis using r av trie_invD(4) [OF assms(1), of upd] by auto
  next
    case False
    then show ?thesis using * [OF that False] r trie_invD(4) [OF assms(1), of b] by fastforce
  qed
qed

lemma replaced_inv:
  assumes inv: "trie_inv M m C S" and v: "C v \<noteq> []" and r: "replaced M m v A (length (C v)) upd m2" and A: "A \<noteq> {}"
    and zero: "0 \<notin> (\<Union>p\<in>set (C v). slot_keys p)"
  shows "trie_inv (\<lambda>p. if p \<in> set (C v) then Some (TValue upd) else M p) m2 (C(v := []))
    (\<lambda>k. if k \<in> (\<Union>p\<in>set (C v). slot_keys p) then A else S k)"
proof -
  let ?M = "\<lambda>p. if p \<in> set (C v) then Some (TValue upd) else M p" and ?C = "C(v := [])"
  let ?S = "\<lambda>k. if k \<in> (\<Union>p\<in>set (C v). slot_keys p) then A else S k"
  note c = chains_okD [OF trie_invD(2) [OF inv]]
  note fr = replaced_fresh [OF inv v r]
  have d: "dom ?M = dom M" using chained_dom [OF c(2) [of v]] by (auto simp: dom_def split: if_splits)
  have ok: "chains_ok ?M m2 ?C"
  proof -
    have "chained ?M (C w)" if "w \<noteq> v" for w by (rule chained_mono [OF c(2) [of w]]) (use c(4) [OF that] in auto)
    then show ?thesis unfolding chains_ok_def using c fr(3) by auto
  qed
  have vals: "vals ?M b = (if b = upd then set (C v) else vals M b)" for b
    using fr(1) chained_not_value [OF c(2) [of v]] by (auto simp: vals_def)
  have cells: "cell_ok ?M ?C b u" if u: "um_heap m2 b = Some u" for b u
  proof -
    consider "b = upd" | "b \<noteq> upd" "v = Some b" | "b \<noteq> upd" "v \<noteq> Some b" by blast
    then show ?thesis
    proof cases
      case 1
      have "?C (Some upd) = []" using fr(2) by simp
      then have "held ?M ?C b = length (C v)" using vals [of upd] 1 distinct_card [OF c(1) [of v]] by (simp add: held_def)
      then show ?thesis using u r v A \<open>?C (Some upd) = []\<close> 1 by (auto simp: cell_ok_def replaced_def)
    next
      case 2
      obtain u0 where u0: "um_heap m b = Some u0" using fr(5) [OF u 2(1)] by auto
      then have u': "u = u0\<lparr>us_refs := us_refs u0 - 1, us_ptr := PNull\<rparr>" "vals M b \<noteq> {}" using r 2 u by (auto simp: replaced_def)
      have "held ?M ?C b = card (vals M b)" "held M C b = Suc (card (vals M b))" using vals [of b] 2 v by (auto simp: held_def)
      moreover have "card (vals M b) \<noteq> 0" using u'(2) trie_invD(6) [OF inv, of b] by simp
      ultimately show ?thesis using trie_invD(4) [OF inv u0] 2 by (simp add: cell_ok_def u'(1))
    next
      case 3
      then have "um_heap m b = Some u" using r u by (simp add: replaced_def)
      then show ?thesis using trie_invD(4) [OF inv, of b u] 3 vals [of b] by (simp add: cell_ok_def held_def)
    qed
  qed
  have leaf: "leaf_ok m2 ?C ?S p t" if p: "?M p = Some t" for p t
  proof (cases "p \<in> set (C v)")
    case True
    have "um_heap m2 upd = Some \<lparr>us_exp = \<lparr>se_op = Or, se_set = rep A\<rparr>, us_refs = of_nat (length (C v)), us_id = INVALID_USET, us_ptr = PNull\<rparr>"
      using r by (simp add: replaced_def)
    then have "units_of m2 upd = A" "alive m2 (Some upd)" by (auto simp: units_of_def)
    then show ?thesis using True p c(4) [of v _ p] unfolding leaf_ok_def by (intro exI [of _ "Some upd"]) auto
  next
    case False
    then have Mp: "M p = Some t" using p by simp
    obtain w where w: "\<forall>k\<in>slot_keys p. S k = units_opt m w" "alive m w" "p \<in> set (C w) \<or> (\<forall>w. p \<notin> set (C w)) \<and> t = Tree_of_value w"
      using trie_invD(5) [OF inv Mp] unfolding leaf_ok_def by blast
    have dj: "k \<notin> slot_keys q" if "k \<in> slot_keys p" "q \<in> set (C v)" for k q
    proof -
      have "q \<in> dom M" "p \<in> dom M" "p \<noteq> q" using that(2) chained_dom [OF c(2) [of v]] Mp False by auto
      then show ?thesis using tiling_disjoint [OF trie_invD(1) [OF inv]] that(1) by blast
    qed
    have "w \<noteq> Some upd"
    proof
      assume w': "w = Some upd"
      then have "C w = [] \<or> v = w" using fr(2) by blast
      then have "t = TValue upd" using w(3) w' False by auto
      then show False using fr(1) Mp by (auto simp: vals_def)
    qed
    then have "units_opt m2 w = units_opt m w" using fr(4) w(2) by (cases w) auto
    then show ?thesis using w fr(3) [OF w(2)] False dj unfolding leaf_ok_def by (intro exI [of _ w]) auto
  qed
  show ?thesis unfolding trie_inv_def d using trie_invD(1,3) [OF inv] ok zero cells fr(6) leaf by auto
qed

section \<open>Unlinking\<close>

definition slots :: "path list \<Rightarrow> nat set" where
  "slots ps = (\<Union>p\<in>set ps. slot_keys p)"

definition grow :: "nat set \<Rightarrow> u32 \<Rightarrow> (nat \<Rightarrow> u32 set) \<Rightarrow> nat \<Rightarrow> u32 set" where
  "grow K unit S k = (if k \<in> K then insert unit (S k) else S k)"

definition trees_inv :: "(nat \<Rightarrow> Tree) \<Rightarrow> UsetMem \<Rightarrow> chains \<Rightarrow> (nat \<Rightarrow> u32 set) \<Rightarrow> bool" where
  "trees_inv trees m C S \<longleftrightarrow> trie_inv (leaves trees) m C S \<and> (\<forall>b. tree_ok 0 (trees b))"

lemma chain_units:
  assumes "trie_inv M m C S" "k \<in> slots (C v)"
  shows "S k = units_opt m v"
proof -
  note c = chains_okD [OF trie_invD(2) [OF assms(1)]]
  obtain p where p: "p \<in> set (C v)" "k \<in> slot_keys p" using assms(2) by (auto simp: slots_def)
  obtain t where t: "M p = Some t" using chained_dom [OF c(2) [of v]] p(1) by auto
  obtain w where w: "S k = units_opt m w" "p \<in> set (C w) \<or> (\<forall>w. p \<notin> set (C w))"
    using trie_invD(5) [OF assms(1) t] p(2) by (auto simp: leaf_ok_def)
  then have "w = v" using p(1) c(4) by metis
  then show ?thesis using w(1) by simp
qed

lemma slots_nonempty:
  assumes "trie_inv M m C S" "C v \<noteq> []"
  shows "slots (C v) \<noteq> {}"
proof -
  obtain p ps where p: "C v = p # ps" using assms(2) by (cases "C v") auto
  then have "p \<in> dom M" using chained_dom [OF chains_okD(2) [OF trie_invD(2) [OF assms(1)], of v]] by auto
  then show ?thesis using slot_keys_nonempty [OF trie_invD(1) [OF assms(1)]] by (simp add: slots_def p)
qed

lemma unlink_chain:
  assumes "trees_inv trees m C S" "C v \<noteq> []" "\<forall>k. \<forall>x\<in>S k. x \<le> unit" "0 \<notin> slots (C v)"
  shows "\<exists>trees' m'. unlink (add_unit unit) (link_of (C v)) v (trees, on_value v (\<lambda>u. u\<lparr>us_ptr := PNull\<rparr>) m) = Some (ok (trees', m')) \<and>
    trees_inv trees' m' (C(v := [])) (grow (slots (C v)) unit S)"
proof -
  have inv: "trie_inv (leaves trees) m C S" and ok: "\<forall>b. tree_ok 0 (trees b)" using assms(1) by (auto simp: trees_inv_def)
  note c = chains_okD [OF trie_invD(2) [OF inv]]
  obtain k where "k \<in> slots (C v)" using slots_nonempty [OF inv assms(2)] by blast
  then have le: "\<forall>x\<in>units_opt m v. x \<le> unit" using chain_units [OF inv] assms(3) by metis
  obtain upd m1 m2 where g: "add_unit unit v 1 (on_value v (\<lambda>u. u\<lparr>us_ptr := PNull\<rparr>) m) = ok (upd, m1)"
      "Uset_use upd (of_nat (length (C v)) - 1) m1 = ok m2"
      "replaced (leaves trees) m v (insert unit (units_opt m v)) (length (C v)) upd m2"
    using get_chain [OF inv assms(2) le] by blast
  obtain trees' where t: "unlink_loop (link_of (C v)) upd trees 0 = Some (ok (trees', 0 + of_nat (length (C v))))"
      "leaves trees' = (\<lambda>p. if p \<in> set (C v) then Some (TValue upd) else leaves trees p)" "\<forall>b. tree_ok 0 (trees' b)"
    using unlink_loop_chain [OF c(2,1) ok] by blast
  have "(\<lambda>k. if k \<in> slots (C v) then insert unit (units_opt m v) else S k) = grow (slots (C v)) unit S"
    using chain_units [OF inv] by (auto simp: grow_def fun_eq_iff)
  then have "trie_inv (leaves trees') m2 (C(v := [])) (grow (slots (C v)) unit S)"
    using replaced_inv [OF inv assms(2) g(3)] assms(4) t(2) by (simp add: slots_def)
  moreover have "unlink (add_unit unit) (link_of (C v)) v (trees, on_value v (\<lambda>u. u\<lparr>us_ptr := PNull\<rparr>) m) = Some (ok (trees', m2))"
    using g(1,2) t(1) by (simp add: unlink_def ok_def rbind_def)
  ultimately show ?thesis using t(3) unfolding trees_inv_def by blast
qed

lemma then_do_simps [simp]: "then_do (Some (ok x)) f = f x" "then_do (Some (raise e)) f = Some (raise e)"
  by (simp_all add: then_do_def ok_def raise_def)

lemma then_do_assoc: "then_do x (\<lambda>(a, b). then_do (f (a, b)) g) = then_do (then_do x f) g"
  by (auto simp: then_do_def raise_def split: option.split sum.split)

lemma unlink_values_chains:
  assumes "trees_inv trees m C S" "\<forall>a\<in>set vs. C (Some a) \<noteq> []" "distinct vs" "\<forall>k. \<forall>x\<in>S k. x \<le> unit"
    "\<forall>a\<in>set vs. 0 \<notin> slots (C (Some a))"
  shows "\<exists>trees' m'. unlink_values (add_unit unit) vs (trees, m) = Some (ok (trees', m')) \<and>
    trees_inv trees' m' (\<lambda>v. if v \<in> Some ` set vs then [] else C v) (grow (\<Union>a\<in>set vs. slots (C (Some a))) unit S)"
  using assms
proof (induction vs arbitrary: trees m C S)
  case Nil
  then show ?case by (simp add: grow_def [abs_def])
next
  case (Cons a vs)
  let ?C = "C(Some a := [])" and ?S = "grow (slots (C (Some a))) unit S"
  have inv: "trie_inv (leaves trees) m C S" using Cons.prems(1) by (simp add: trees_inv_def)
  have "alive m (Some a)" using chains_okD(3) [OF trie_invD(2) [OF inv], of "Some a"] Cons.prems(2) by simp
  then obtain u where u: "um_heap m a = Some u" by auto
  have ptr: "us_ptr u = ptr_of (C (Some a))" using trie_invD(4) [OF inv u] by (simp add: cell_ok_def)
  obtain trees1 m1 where s1: "unlink (add_unit unit) (link_of (C (Some a))) (Some a) (trees, on_value (Some a) (\<lambda>u. u\<lparr>us_ptr := PNull\<rparr>) m) = Some (ok (trees1, m1))"
      "trees_inv trees1 m1 ?C ?S"
    using unlink_chain [OF Cons.prems(1), of "Some a" unit] Cons.prems(2,4,5) by auto
  have st: "unlink_values (add_unit unit) (a # vs) (trees, m) = unlink_values (add_unit unit) vs (trees1, m1)"
    using u ptr s1(1) by (simp add: Uset_link_def Mem_modify_def on_value_def)
  have b: "\<forall>k. \<forall>x\<in>?S k. x \<le> unit" using Cons.prems(4) by (auto simp: grow_def split: if_splits)
  have ne: "\<forall>b\<in>set vs. ?C (Some b) \<noteq> []" and zero: "\<forall>b\<in>set vs. 0 \<notin> slots (?C (Some b))"
    using Cons.prems(2,3,5) by auto
  obtain trees' m' where s2: "unlink_values (add_unit unit) vs (trees1, m1) = Some (ok (trees', m'))"
      "trees_inv trees' m' (\<lambda>v. if v \<in> Some ` set vs then [] else ?C v) (grow (\<Union>a\<in>set vs. slots (?C (Some a))) unit ?S)"
    using Cons.IH [OF s1(2) ne _ b zero] Cons.prems(3) by auto
  have "(\<lambda>v. if v \<in> Some ` set vs then [] else ?C v) = (\<lambda>v. if v \<in> Some ` set (a # vs) then [] else C v)" by auto
  moreover have "(\<Union>b\<in>set vs. slots (?C (Some b))) = (\<Union>b\<in>set vs. slots (C (Some b)))"
    using Cons.prems(3) by (intro SUP_cong) auto
  then have "grow (\<Union>a\<in>set vs. slots (?C (Some a))) unit ?S = grow (\<Union>a\<in>set (a # vs). slots (C (Some a))) unit S"
    by (auto simp: grow_def fun_eq_iff)
  ultimately show ?case using s2 unfolding st by (intro exI [of _ trees'] exI [of _ m']) (simp only: simp_thms)
qed

section \<open>Insertion\<close>

definition keys :: "Ids list \<Rightarrow> nat set" where
  "keys rs = (\<Union>r\<in>set rs. {unat (ids_start r) .. unat (ids_finish r)})"

text \<open>A sorted sequence of non-overlapping ranges.\<close>

definition ranges_ok :: "Ids list \<Rightarrow> bool" where
  "ranges_ok rs \<longleftrightarrow> sorted_wrt (\<lambda>r s. ids_finish r < ids_start s) rs \<and>
     (\<forall>r\<in>set rs. 0 < ids_start r \<and> ids_start r \<le> ids_finish r \<and> unat (ids_finish r) + 5 < 2 ^ 32)"

lemma ranges_bounds:
  assumes "ranges_ok rs" "r \<in> set rs"
  shows "ids_start (hd rs) \<le> ids_start r \<and> ids_finish r \<le> ids_finish (last rs)"
proof
  have ne: "\<forall>r\<in>set rs. ids_start r \<le> ids_finish r" and st: "sorted_wrt (\<lambda>r s. ids_finish r < ids_start s) rs" and "rs \<noteq> []"
    using assms by (auto simp: ranges_ok_def)
  then have l: "rs = butlast rs @ [last rs]" and h: "rs = hd rs # tl rs" by simp_all
  have "r = last rs \<or> r \<in> set (butlast rs)" using assms(2) by (subst (asm) l) auto
  moreover have "\<forall>x\<in>set (butlast rs). ids_finish x < ids_start (last rs)" using st by (subst (asm) l) (simp add: sorted_wrt_append)
  moreover have "ids_start (last rs) \<le> ids_finish (last rs)" using ne \<open>rs \<noteq> []\<close> by simp
  ultimately show "ids_finish r \<le> ids_finish (last rs)" by fastforce
  have "r = hd rs \<or> r \<in> set (tl rs)" using assms(2) by (subst (asm) h) auto
  moreover have "\<forall>x\<in>set (tl rs). ids_finish (hd rs) < ids_start x" using st by (subst (asm) h) simp
  moreover have "ids_start (hd rs) \<le> ids_finish (hd rs)" using ne \<open>rs \<noteq> []\<close> by simp
  ultimately show "ids_start (hd rs) \<le> ids_start r" by fastforce
qed

lemma insert_ranges_ok:
  assumes "insert_inv S (leaves (tr_trees trie)) st D" "\<forall>b. tree_ok 0 (tr_trees trie b)" "ranges_ok rs" "keys rs \<inter> D = {}"
  shows "\<exists>trees' st'. insert_ranges rs (trie, st) = ok (trie\<lparr>tr_trees := trees'\<rparr>, st') \<and>
    insert_inv S (leaves trees') st' (D \<union> keys rs) \<and> (\<forall>b. tree_ok 0 (trees' b))"
  using assms
proof (induction rs arbitrary: trie st D)
  case Nil
  then show ?case by (intro exI [of _ "tr_trees trie"] exI [of _ st]) (simp add: keys_def)
next
  case (Cons r rs)
  let ?K = "{unat (ids_start r) .. unat (ids_finish r)}"
  have r: "ids_start r \<le> ids_finish r" "unat (ids_finish r) < 2 ^ 32" and rs: "ranges_ok rs"
    using Cons.prems(3) by (auto simp: ranges_ok_def)
  have dj: "?K \<inter> D = {}" using Cons.prems(4) unfolding keys_def by auto
  obtain trees1 st1 where t1: "traverse_range insert_leaf (ids_start r) (ids_finish r - ids_start r + 1) trie st = ok (trie\<lparr>tr_trees := trees1\<rparr>, st1)"
      "insert_inv S (leaves trees1) st1 (D \<union> ?K)" "\<forall>b. tree_ok 0 (trees1 b)"
    using ins.visit_keys [OF Cons.prems(1,2) r dj] by auto
  have "keys rs \<inter> ?K = {}" using Cons.prems(3) unfolding keys_def ranges_ok_def by (fastforce simp: word_less_nat_alt)
  then have dj2: "keys rs \<inter> (D \<union> ?K) = {}" using Cons.prems(4) by (auto simp: keys_def)
  obtain trees2 st2 where t2: "insert_ranges rs (trie\<lparr>tr_trees := trees1\<rparr>, st1) = ok (trie\<lparr>tr_trees := trees2\<rparr>, st2)"
      "insert_inv S (leaves trees2) st2 (D \<union> ?K \<union> keys rs)" "\<forall>b. tree_ok 0 (trees2 b)"
    using Cons.IH [of "trie\<lparr>tr_trees := trees1\<rparr>" st1 "D \<union> ?K"] t1(2,3) rs dj2 by auto
  have "D \<union> ?K \<union> keys rs = D \<union> keys (r # rs)" by (auto simp: keys_def)
  then show ?case using t1(1) t2 r(1) by (intro exI [of _ trees2] exI [of _ st2]) simp
qed

text \<open>Between insertions: no chains, and the owned keys are between the smallest and the largest.\<close>

definition trie_ok :: "Trie \<Rightarrow> UsetMem \<Rightarrow> (nat \<Rightarrow> u32 set) \<Rightarrow> bool" where
  "trie_ok trie m S \<longleftrightarrow> trees_inv (tr_trees trie) m (\<lambda>_. []) S \<and>
     (\<forall>k. S k \<noteq> {} \<longrightarrow> unat (tr_minkey trie) \<le> k \<and> k \<le> unat (tr_maxkey trie)) \<and> unat (tr_maxkey trie) + 5 < 2 ^ 32"

lemma unlink_all:
  assumes "trees_inv trees (is_mem st) C S" "ins_ok C st" "\<forall>k. \<forall>x\<in>S k. x \<le> unit" "0 \<notin> covered C"
  shows "\<exists>trees' m'. then_do (case is_null_link st of None \<Rightarrow> Some (ok (trees, is_mem st))
      | Some p \<Rightarrow> unlink (add_unit unit) (Some p) None (trees, is_mem st)) (unlink_values (add_unit unit) (is_values st)) =
        Some (ok (trees', m')) \<and>
    trees_inv trees' m' (\<lambda>_. []) (grow (covered C) unit S)"
proof -
  let ?C = "C(None := [])" and ?S = "grow (slots (C None)) unit S"
  note st = assms(2) [unfolded ins_ok_def]
  have zero: "0 \<notin> slots (C v)" for v using assms(4) by (auto simp: covered_def slots_def)
  have "\<exists>trees1 m1. (case is_null_link st of None \<Rightarrow> Some (ok (trees, is_mem st))
      | Some p \<Rightarrow> unlink (add_unit unit) (Some p) None (trees, is_mem st)) = Some (ok (trees1, m1)) \<and> trees_inv trees1 m1 ?C ?S"
  proof (cases "C None")
    case Nil
    then have "?C = C" "?S = S" by (auto simp: slots_def grow_def fun_eq_iff)
    then show ?thesis using assms(1) st Nil by auto
  next
    case (Cons p ps)
    have "C None \<noteq> []" using Cons by simp
    then show ?thesis using unlink_chain [OF assms(1) _ assms(3) zero, of None] st Cons by (simp add: on_value_def)
  qed
  then obtain trees1 m1 where s1: "(case is_null_link st of None \<Rightarrow> Some (ok (trees, is_mem st))
      | Some p \<Rightarrow> unlink (add_unit unit) (Some p) None (trees, is_mem st)) = Some (ok (trees1, m1))" "trees_inv trees1 m1 ?C ?S"
    by blast
  have b: "\<forall>k. \<forall>x\<in>?S k. x \<le> unit" using assms(3) by (auto simp: grow_def split: if_splits)
  obtain trees' m' where s2: "unlink_values (add_unit unit) (is_values st) (trees1, m1) = Some (ok (trees', m'))"
      "trees_inv trees' m' (\<lambda>v. if v \<in> Some ` set (is_values st) then [] else ?C v)
        (grow (\<Union>a\<in>set (is_values st). slots (?C (Some a))) unit ?S)"
    using unlink_values_chains [OF s1(2) _ _ b, of "is_values st"] st zero by auto
  have "(\<lambda>v. if v \<in> Some ` set (is_values st) then [] else ?C v) = (\<lambda>_. [])"
  proof
    fix v
    show "(if v \<in> Some ` set (is_values st) then [] else ?C v) = []" using st by (cases v) auto
  qed
  moreover have "covered C = slots (C None) \<union> (\<Union>a\<in>set (is_values st). slots (C (Some a)))"
  proof (rule set_eqI)
    fix k
    have ne: "ps \<noteq> []" if "k \<in> slots ps" for ps using that by (auto simp: slots_def)
    have "k \<in> covered C \<longleftrightarrow> (\<exists>v. k \<in> slots (C v))" by (auto simp: covered_def slots_def)
    also have "\<dots> \<longleftrightarrow> k \<in> slots (C None) \<or> (\<exists>a. k \<in> slots (C (Some a)))" by (metis option.exhaust)
    also have "(\<exists>a. k \<in> slots (C (Some a))) \<longleftrightarrow> (\<exists>a\<in>set (is_values st). k \<in> slots (C (Some a)))"
      using st ne by blast
    finally show "k \<in> covered C \<longleftrightarrow> k \<in> slots (C None) \<union> (\<Union>a\<in>set (is_values st). slots (C (Some a)))" by simp
  qed
  then have "grow (\<Union>a\<in>set (is_values st). slots (?C (Some a))) unit ?S = grow (covered C) unit S"
    by (auto simp: grow_def fun_eq_iff)
  ultimately show ?thesis using s1(1) s2 by (intro exI [of _ trees'] exI [of _ m']) simp
qed

lemma Trie_insert_ok:
  assumes "trie_ok trie m S" "ranges_ok rs" "\<forall>k. \<forall>x\<in>S k. x \<le> unit"
  shows "\<exists>trie' m'. Trie_insert rs (add_unit unit) (trie, m) = Some (ok (trie', m')) \<and> trie_ok trie' m' (grow (keys rs) unit S) \<and>
    tr_minkey trie' = (if rs = [] then tr_minkey trie else min (tr_minkey trie) (ids_start (hd rs))) \<and>
    tr_maxkey trie' = (if rs = [] then tr_maxkey trie else max (tr_maxkey trie) (ids_finish (last rs)))"
proof (cases "rs = []")
  case True
  then show ?thesis using assms(1) by (simp add: Trie_insert_def keys_def grow_def [abs_def])
next
  case False
  let ?trie = "trie\<lparr>tr_minkey := min (tr_minkey trie) (ids_start (hd rs)), tr_maxkey := max (tr_maxkey trie) (ids_finish (last rs))\<rparr>"
  let ?st = "\<lparr>is_mem = m, is_values = [], is_null_link = None\<rparr>"
  note ok = assms(1) [unfolded trie_ok_def trees_inv_def]
  have "last rs \<in> set rs" using False by simp
  then have "unat (ids_finish (last rs)) + 5 < 2 ^ 32" using assms(2) by (auto simp: ranges_ok_def)
  then have mx: "unat (tr_maxkey ?trie) + 5 < 2 ^ 32" using ok by (simp add: max_def)
  then have top: "tr_maxkey ?trie \<le> 0xffffffff" by (simp add: word_le_nat_alt)
  have i0: "insert_inv S (leaves (tr_trees ?trie)) ?st {}"
    unfolding insert_inv_def using ok by (intro exI [of _ "\<lambda>_. []"]) (auto simp: ins_ok_def covered_def)
  obtain trees1 st1 where t1: "insert_ranges rs (?trie, ?st) = ok (?trie\<lparr>tr_trees := trees1\<rparr>, st1)"
      "insert_inv S (leaves trees1) st1 ({} \<union> keys rs)" "\<forall>b. tree_ok 0 (trees1 b)"
    using insert_ranges_ok [OF i0 _ assms(2)] ok by auto
  obtain C where C: "trie_inv (leaves trees1) (is_mem st1) C S" "ins_ok C st1" "keys rs = covered C"
    using t1(2) by (auto simp: insert_inv_def)
  have zero: "0 \<notin> covered C" using assms(2) by (auto simp: C(3) [symmetric] keys_def ranges_ok_def word_less_nat_alt)
  obtain trees' m' where u: "then_do (case is_null_link st1 of None \<Rightarrow> Some (ok (trees1, is_mem st1))
        | Some p \<Rightarrow> unlink (add_unit unit) (Some p) None (trees1, is_mem st1)) (unlink_values (add_unit unit) (is_values st1)) =
          Some (ok (trees', m'))"
      "trees_inv trees' m' (\<lambda>_. []) (grow (keys rs) unit S)"
    using unlink_all [of trees1 st1 C S unit] C t1(3) zero assms(3) by (auto simp: trees_inv_def)
  have "Trie_insert rs (add_unit unit) (trie, m) = Some (ok (?trie\<lparr>tr_trees := trees'\<rparr>, m'))"
    using u(1) t1(1) top False by (cases "is_null_link st1") (simp_all add: Trie_insert_def Let_def then_do_assoc)
  moreover have "unat (tr_minkey ?trie) \<le> k \<and> k \<le> unat (tr_maxkey ?trie)" if "grow (keys rs) unit S k \<noteq> {}" for k
  proof (cases "k \<in> keys rs")
    case True
    then obtain r where r: "r \<in> set rs" "unat (ids_start r) \<le> k" "k \<le> unat (ids_finish r)" by (auto simp: keys_def)
    have "ids_start (hd rs) \<le> ids_start r \<and> ids_finish r \<le> ids_finish (last rs)"
      by (rule ranges_bounds [OF assms(2) r(1)])
    then show ?thesis using r(2,3) by (auto simp: min_def max_def word_le_nat_alt)
  next
    case False
    then show ?thesis using that ok by (auto simp: grow_def min_def max_def word_le_nat_alt)
  qed
  ultimately show ?thesis using u(2) mx \<open>rs \<noteq> []\<close> unfolding trie_ok_def by (intro exI [of _ "?trie\<lparr>tr_trees := trees'\<rparr>"] exI [of _ m']) simp
qed

end
