(* ===== verification/Trie_Array_Correct.thy ===== *)
theory Trie_Array_Correct
  imports Trie_Insert Fact_Set
begin

text \<open>
  Filling, collecting and flattening the trie, and the correctness of \<^verbatim>\<open>computeOwnership\<close>: the packed
  result gives each fact the units whose ranges contain a fact that refers to it, directly or not.
\<close>

section \<open>Filling\<close>

lemma slot_keys_top: "slot_keys [b] = {b * 65536 ..< b * 65536 + 65536}"
  by (simp add: slot_keys_def slot_base_def slot_size_def blockSize_simps BLOCK_def)

lemma slot_top_iff: "k \<in> slot_keys [b] \<longleftrightarrow> k div 65536 = b"
proof
  assume "k \<in> slot_keys [b]"
  then show "k div 65536 = b" unfolding slot_keys_top by (intro div_nat_eqI) simp_all
next
  assume b: "k div 65536 = b"
  show "k \<in> slot_keys [b]"
    using div_times_less_eq_dividend [of k 65536] dividend_less_div_times [of 65536 k] unfolding b slot_keys_top by simp
qed

lemma tiling_top: "tiling ((\<lambda>b. [b]) ` {..<FANOUT_TOP})"
proof -
  have "k div 65536 < FANOUT_TOP \<longleftrightarrow> k < 2 ^ 32" for k :: nat by (simp add: FANOUT_TOP_def div_less_iff_less_mult)
  then have "(\<Union>b\<in>{..<FANOUT_TOP}. slot_keys [b]) = {..<2 ^ 32}" unfolding set_eq_iff UN_iff Bex_def lessThan_iff slot_top_iff by metis
  moreover have "slot_keys [b] \<inter> slot_keys [c] = {}" if "b \<noteq> c" for b c using that unfolding disjoint_iff slot_top_iff by blast
  ultimately show ?thesis unfolding tiling_def by (simp add: ball_simps)
qed

lemma leaves_new: "leaves (\<lambda>_. TNull) p = (if p \<in> (\<lambda>b. [b]) ` {..<FANOUT_TOP} then Some TNull else None)"
proof (cases p)
  case (Cons b q)
  then show ?thesis by (cases q) (auto simp: leaves_def)
qed (auto simp: leaves_def)

lemma trie_ok_new: "trie_ok Trie_new Mem_empty (\<lambda>_. {})"
proof -
  have "dom (leaves (\<lambda>_. TNull)) = (\<lambda>b. [b]) ` {..<FANOUT_TOP}" unfolding dom_def leaves_new by simp
  moreover have "leaf_ok Mem_empty (\<lambda>_. []) (\<lambda>_. {}) p t" if "leaves (\<lambda>_. TNull) p = Some t" for p t
    using that unfolding leaves_new leaf_ok_def by (intro exI [of _ None]) (simp split: if_splits)
  moreover have "chains_ok M Mem_empty (\<lambda>_. [])" for M by (simp add: chains_ok_def)
  ultimately have "trie_inv (leaves (\<lambda>_. TNull)) Mem_empty (\<lambda>_. []) (\<lambda>_. {})"
    unfolding trie_inv_def using tiling_top by (simp add: Mem_empty_def)
  then show ?thesis by (simp add: trie_ok_def trees_inv_def Trie_new_def)
qed

text \<open>The units whose ranges contain a key.\<close>

definition unit_owners :: "OwnershipUnit list \<Rightarrow> nat \<Rightarrow> u32 set" where
  "unit_owners ds k = {ou_unit d |d. d \<in> set ds \<and> k \<in> keys (ou_ids d)}"

text \<open>One more than the largest key, and how the trie records it.\<close>

definition owned_bound :: "OwnershipUnit list \<Rightarrow> nat" where
  "owned_bound ds = fold max (map (\<lambda>r. unat (ids_finish r) + 1) (concat (map ou_ids ds))) 0"

definition trie_bound :: "Trie \<Rightarrow> nat \<Rightarrow> bool" where
  "trie_bound trie n \<longleftrightarrow> n = 0 \<and> tr_minkey trie = - 1 \<and> tr_maxkey trie = 0 \<or>
     n = unat (tr_maxkey trie) + 1 \<and> tr_minkey trie \<le> tr_maxkey trie"

lemma fold_max_le:
  fixes n :: nat
  shows "(\<And>x. x \<in> set xs \<Longrightarrow> x \<le> y) \<Longrightarrow> y \<in> set xs \<Longrightarrow> fold max xs n = max n y"
  unfolding Max.set_eq_fold [symmetric] by (rule Max_eqI) (auto simp: le_max_iff_disj, auto simp: max_def)

lemma ranges_bound_fold:
  assumes "ranges_ok rs" "rs \<noteq> []"
  shows "fold max (map (\<lambda>r. unat (ids_finish r) + 1) rs) n = max n (unat (ids_finish (last rs)) + 1)"
proof (rule fold_max_le)
  show "x \<le> unat (ids_finish (last rs)) + 1" if "x \<in> set (map (\<lambda>r. unat (ids_finish r) + 1) rs)" for x
    using that ranges_bounds [OF assms(1)] by (auto simp: word_le_nat_alt)
  show "unat (ids_finish (last rs)) + 1 \<in> set (map (\<lambda>r. unat (ids_finish r) + 1) rs)" using assms(2) by auto
qed

lemma trie_bound_step:
  assumes "trie_bound trie n" "ranges_ok rs"
    "tr_minkey trie' = (if rs = [] then tr_minkey trie else min (tr_minkey trie) (ids_start (hd rs)))"
    "tr_maxkey trie' = (if rs = [] then tr_maxkey trie else max (tr_maxkey trie) (ids_finish (last rs)))"
  shows "trie_bound trie' (fold max (map (\<lambda>r. unat (ids_finish r) + 1) rs) n)"
proof (cases "rs = []")
  case False
  have "hd rs \<in> set rs" using False by simp
  then have "ids_start (hd rs) \<le> ids_finish (last rs)"
    using ranges_bounds [OF assms(2), of "hd rs"] assms(2) unfolding ranges_ok_def by (meson order_trans)
  then show ?thesis using assms(1,3,4) False unfolding ranges_bound_fold [OF assms(2) False] trie_bound_def
    by (auto simp: word_le_nat_alt max_def min_def)
qed (use assms in \<open>simp add: trie_bound_def\<close>)

lemma fill_loop_ok:
  assumes "trie_ok trie m S" "\<forall>k. \<forall>x\<in>S k. x \<le> last_unit" "sorted (last_unit # map ou_unit ds)" "\<forall>d\<in>set ds. ranges_ok (ou_ids d)"
    "trie_bound trie n"
  shows "\<exists>trie' m'. fill_loop ds last_unit mx (trie, m) = Some (ok ((trie', m'), fold max (map ou_unit ds) mx)) \<and>
    trie_ok trie' m' (\<lambda>k. S k \<union> unit_owners ds k) \<and>
    trie_bound trie' (fold max (map (\<lambda>r. unat (ids_finish r) + 1) (concat (map ou_ids ds))) n)"
  using assms
proof (induction ds arbitrary: trie m S last_unit mx n)
  case Nil
  then show ?case by (simp add: unit_owners_def)
next
  case (Cons d ds)
  have le: "last_unit \<le> ou_unit d" using Cons.prems(3) by simp
  then have b: "\<forall>k. \<forall>x\<in>S k. x \<le> ou_unit d" using Cons.prems(2) by (meson order_trans)
  let ?S = "grow (keys (ou_ids d)) (ou_unit d) S"
  have r: "ranges_ok (ou_ids d)" using Cons.prems(4) by simp
  obtain trie1 m1 where t1: "Trie_insert (ou_ids d) (add_unit (ou_unit d)) (trie, m) = Some (ok (trie1, m1))" "trie_ok trie1 m1 ?S"
      "tr_minkey trie1 = (if ou_ids d = [] then tr_minkey trie else min (tr_minkey trie) (ids_start (hd (ou_ids d))))"
      "tr_maxkey trie1 = (if ou_ids d = [] then tr_maxkey trie else max (tr_maxkey trie) (ids_finish (last (ou_ids d))))"
    using Trie_insert_ok [OF Cons.prems(1) r b] by blast
  note b1 = trie_bound_step [OF Cons.prems(5) r t1(3,4)]
  have le1: "\<forall>k. \<forall>x\<in>?S k. x \<le> ou_unit d" using b by (simp add: grow_def)
  have st: "sorted (ou_unit d # map ou_unit ds)" "\<forall>d\<in>set ds. ranges_ok (ou_ids d)" using Cons.prems(3,4) by auto
  obtain trie' m' where t2: "fill_loop ds (ou_unit d) (max (ou_unit d) mx) (trie1, m1) =
        Some (ok ((trie', m'), fold max (map ou_unit ds) (max (ou_unit d) mx)))"
      "trie_ok trie' m' (\<lambda>k. ?S k \<union> unit_owners ds k)"
      "trie_bound trie' (fold max (map (\<lambda>r. unat (ids_finish r) + 1) (concat (map ou_ids ds)))
        (fold max (map (\<lambda>r. unat (ids_finish r) + 1) (ou_ids d)) n))"
    using Cons.IH [OF t1(2) le1 st b1] by blast
  have "(\<lambda>k. ?S k \<union> unit_owners ds k) = (\<lambda>k. S k \<union> unit_owners (d # ds) k)"
    by (auto simp: grow_def unit_owners_def fun_eq_iff)
  then show ?case using t1(1) t2 le by auto
qed

lemma fillOwnership_ok:
  assumes "sorted (map ou_unit ds)" "\<forall>d\<in>set ds. ranges_ok (ou_ids d)"
  shows "\<exists>trie m. fillOwnership ds = Some (ok ((trie, m), fold max (map ou_unit ds) 0 + 1)) \<and> trie_ok trie m (unit_owners ds) \<and>
    trie_bound trie (owned_bound ds)"
  using fill_loop_ok [OF trie_ok_new, of 0 ds 0 0] assms by (auto simp: fillOwnership_def owned_bound_def trie_bound_def Trie_new_def)

section \<open>Collecting\<close>

text \<open>
  Sets that are equal are merged: a set points to the one that represents it, itself or another one.
  The reference count of a representative covers the leaves of all the sets it represents.
\<close>

definition points :: "UsetMem \<Rightarrow> uaddr \<Rightarrow> uaddr \<Rightarrow> bool" where
  "points m b a \<longleftrightarrow> (case um_heap m b of None \<Rightarrow> False | Some u \<Rightarrow> us_ptr u = PUset a)"

definition rep_leaves :: "(path \<Rightarrow> Tree option) \<Rightarrow> UsetMem \<Rightarrow> uaddr \<Rightarrow> path set" where
  "rep_leaves M m a = {p. \<exists>b. M p = Some (TValue b) \<and> points m b a}"

definition col_cell :: "(path \<Rightarrow> Tree option) \<Rightarrow> UsetMem \<Rightarrow> Usets \<Rightarrow> uaddr \<Rightarrow> Uset \<Rightarrow> bool" where
  "col_cell M m s a u \<longleftrightarrow> a < um_fresh m \<and> (\<exists>A. A \<noteq> {} \<and> us_exp u = \<lparr>se_op = Or, se_set = rep A\<rparr>) \<and> us_id u = INVALID_USET \<and>
     (if a \<in> set (ut_usets s)
      then us_ptr u = PUset a \<and> us_refs u = of_nat (card (rep_leaves M m a)) \<and> rep_leaves M m a \<noteq> {}
      else (us_ptr u = PNull \<or> (\<exists>b v. us_ptr u = PUset b \<and> b \<in> set (ut_usets s) \<and> um_heap m b = Some v \<and> us_exp v = us_exp u)) \<and>
        us_refs u = of_nat (card (vals M a)) \<and> vals M a \<noteq> {})"

definition col_leaf :: "UsetMem \<Rightarrow> Usets \<Rightarrow> (nat \<Rightarrow> u32 set) \<Rightarrow> nat set \<Rightarrow> path \<Rightarrow> Tree \<Rightarrow> bool" where
  "col_leaf m s S D p t \<longleftrightarrow> (\<exists>v. t = Tree_of_value v \<and> alive m v \<and> (\<forall>k\<in>slot_keys p. S k = units_opt m v) \<and>
     (\<forall>a. v = Some a \<longrightarrow> slot_keys p \<inter> D \<noteq> {} \<longrightarrow> a \<in> set (ut_usets s)))"

definition uniq_sets :: "UsetMem \<Rightarrow> uaddr set \<Rightarrow> bool" where
  "uniq_sets m U \<longleftrightarrow> (\<forall>a\<in>U. \<forall>b\<in>U. \<forall>u v. um_heap m a = Some u \<longrightarrow> um_heap m b = Some v \<longrightarrow> us_exp u = us_exp v \<longrightarrow> a = b)"

definition table_ok :: "u32 \<Rightarrow> UsetMem \<Rightarrow> Usets \<Rightarrow> bool" where
  "table_ok n m s \<longleftrightarrow> distinct (ut_usets s) \<and> set (ut_usets s) \<subseteq> dom (um_heap m) \<and> uniq_sets m (set (ut_usets s)) \<and>
     ut_firstId s = n \<and> ut_nextId s = n \<and> uss_promoted (ut_stats s) = 0"

definition col_inv :: "u32 \<Rightarrow> (nat \<Rightarrow> u32 set) \<Rightarrow> (path \<Rightarrow> Tree option) \<Rightarrow> UsetMem \<times> Usets \<Rightarrow> nat set \<Rightarrow> bool" where
  "col_inv n S M st D \<longleftrightarrow> (case st of (m, s) \<Rightarrow> tiling (dom M) \<and> S 0 = {} \<and> table_ok n m s \<and>
     (\<forall>a u. um_heap m a = Some u \<longrightarrow> col_cell M m s a u) \<and> (\<forall>p t. M p = Some t \<longrightarrow> col_leaf m s S D p t))"

lemma col_invD:
  assumes "col_inv n S M (m, s) D"
  shows "tiling (dom M)" "S 0 = {}" "table_ok n m s" "um_heap m a = Some u \<Longrightarrow> col_cell M m s a u"
    "M p = Some t \<Longrightarrow> col_leaf m s S D p t" "finite (vals M a)" "finite (rep_leaves M m a)"
proof -
  note inv = assms [unfolded col_inv_def, simplified]
  show t: "tiling (dom M)" and "S 0 = {}" "table_ok n m s" using inv by simp_all
  show "um_heap m a = Some u \<Longrightarrow> col_cell M m s a u" "M p = Some t \<Longrightarrow> col_leaf m s S D p t" using inv by blast+
  show "finite (vals M a)" "finite (rep_leaves M m a)"
    by (rule finite_subset [OF _ tiling_finite [OF t]]; auto simp: vals_def rep_leaves_def)+
qed

lemma col_start:
  assumes "trie_inv M m (\<lambda>_. []) S"
  shows "col_inv n S M (m, Usets_new n) {}"
proof -
  have "col_cell M m (Usets_new n) a u" if u: "um_heap m a = Some u" for a u
  proof -
    have "a < um_fresh m" "cell_ok M (\<lambda>_. []) a u" using trie_invD(4) [OF assms u] by auto
    then show ?thesis by (auto simp: col_cell_def cell_ok_def held_def Usets_new_def)
  qed
  moreover have "col_leaf m (Usets_new n) S {} p t" if "M p = Some t" for p t
    using trie_invD(5) [OF assms that] by (auto simp: col_leaf_def leaf_ok_def)
  ultimately show ?thesis using trie_invD(1,3) [OF assms] by (auto simp: col_inv_def table_ok_def uniq_sets_def Usets_new_def)
qed

lemma col_bound:
  assumes "col_inv n S M (m, s) D" "Q \<subseteq> {p. \<exists>b. M p = Some (TValue b)}"
  shows "card Q < 2 ^ 32"
proof -
  note inv = col_invD [OF assms(1)]
  have "(\<Union>p\<in>Q. slot_keys p) \<subseteq> {1 ..< 2 ^ 32}"
  proof
    fix k
    assume "k \<in> (\<Union>p\<in>Q. slot_keys p)"
    then obtain p b where p: "p \<in> Q" "k \<in> slot_keys p" "M p = Some (TValue b)" using assms(2) by blast
    have "b \<in> dom (um_heap m) \<and> S k = units_of m b"
      using inv(5) [OF p(3)] p(2) by (auto simp: col_leaf_def Tree_of_value_def split: option.splits)
    moreover have "units_of m b \<noteq> {}" if "um_heap m b = Some u" for u
      using inv(4) [OF that] units_of_exp [OF that] by (auto simp: col_cell_def)
    ultimately have "k \<noteq> 0" using inv(2) by auto
    moreover have "k < 2 ^ 32" using slot_keys_below [OF inv(1), of p] p(2,3) by auto
    ultimately show "k \<in> {1 ..< 2 ^ 32}" by simp
  qed
  moreover have "Q \<subseteq> dom M" using assms(2) by auto
  ultimately have "card Q \<le> card {1 ..< 2 ^ 32 :: nat}" using tiling_card [OF inv(1)] finite_atLeastLessThan by blast
  then show ?thesis by simp
qed

lemma table_okD:
  assumes "table_ok n m s"
  shows "distinct (ut_usets s)" "set (ut_usets s) \<subseteq> dom (um_heap m)" "uniq_sets m (set (ut_usets s))"
    "ut_firstId s = n" "ut_nextId s = n" "uss_promoted (ut_stats s) = 0"
  using assms by (auto simp: table_ok_def)

lemma col_ptr:
  assumes "col_cell M m s a u" "us_ptr u = PUset b"
  shows "b \<in> set (ut_usets s)"
  using assms by (auto simp: col_cell_def split: if_splits)

lemma points_table: "col_inv n S M (m, s) D \<Longrightarrow> points m b a \<Longrightarrow> a \<in> set (ut_usets s)"
  using col_invD(4) col_ptr by (fastforce simp: points_def split: option.splits)

definition same_table :: "Usets \<Rightarrow> Usets \<Rightarrow> bool" where
  "same_table s s' \<longleftrightarrow> ut_firstId s' = ut_firstId s \<and> ut_nextId s' = ut_nextId s \<and>
     uss_promoted (ut_stats s') = uss_promoted (ut_stats s)"

text \<open>The first set of its kind joins the container.\<close>

lemma col_add:
  assumes inv: "col_inv n S M (m, s) D" and e: "um_heap m e = Some u" "us_ptr u = PNull"
    and new: "\<And>r v. r \<in> set (ut_usets s) \<Longrightarrow> um_heap m r = Some v \<Longrightarrow> us_exp v \<noteq> us_exp u"
    and s': "ut_usets s' = ut_usets s @ [e]" "same_table s s'"
  shows "col_inv n S M (Mem_put e (u\<lparr>us_ptr := PUset e\<rparr>) m, s') D"
proof -
  let ?m = "Mem_put e (u\<lparr>us_ptr := PUset e\<rparr>) m"
  note i = col_invD [OF inv] and t = table_okD [OF col_invD(3) [OF inv]]
  have eu: "e \<notin> set (ut_usets s)" using i(4) [OF e(1)] e(2) by (auto simp: col_cell_def)
  have hp: "um_heap ?m b = (if b = e then Some (u\<lparr>us_ptr := PUset e\<rparr>) else um_heap m b)" for b by (simp add: Mem_put_def)
  have un: "units_opt ?m = units_opt m" "alive ?m = alive m"
    using e(1) by (auto simp: fun_eq_iff units_opt_def units_of_def alive_def hp dom_def split: option.split)
  have no: "\<not> points m b e" for b using points_table [OF inv] eu by blast
  have "points ?m b a \<longleftrightarrow> (if a = e then b = e else points m b a)" for a b using e no [of b] by (auto simp: points_def hp)
  then have re: "rep_leaves M ?m a = (if a = e then vals M e else rep_leaves M m a)" for a by (simp add: rep_leaves_def vals_def)
  have "table_ok n ?m s'"
    unfolding table_ok_def uniq_sets_def s'(1)
  proof (intro conjI ballI allI impI)
    fix a b x y
    assume ab: "a \<in> set (ut_usets s @ [e])" "b \<in> set (ut_usets s @ [e])" "um_heap ?m a = Some x" "um_heap ?m b = Some y" "us_exp x = us_exp y"
    have o: "c = e \<and> us_exp w = us_exp u \<or> c \<in> set (ut_usets s) \<and> um_heap m c = Some w"
      if "c \<in> set (ut_usets s @ [e])" "um_heap ?m c = Some w" for c w
      using that by (cases "c = e") (auto simp: hp)
    show "a = b" using o [OF ab(1,3)] o [OF ab(2,4)] ab(5) new t(3) unfolding uniq_sets_def by metis
  qed (use t eu s'(2) e(1) in \<open>auto simp: same_table_def hp dom_def Mem_put_def\<close>)
  moreover have "col_cell M ?m s' a v" if v: "um_heap ?m a = Some v" for a v
  proof (cases "a = e")
    case True
    then show ?thesis using v i(4) [OF e(1)] eu s'(1) re [of e] by (auto simp: col_cell_def hp Mem_put_def)
  next
    case False
    then have "um_heap m a = Some v" using v by (simp add: hp)
    from i(4) [OF this] False show ?thesis using re [of a] s'(1) e eu unfolding col_cell_def
      by (auto simp: hp Mem_put_def split: if_splits)
  qed
  moreover have "col_leaf ?m s' S D p t" if "M p = Some t" for p t
    using i(5) [OF that] unfolding col_leaf_def un s'(1) by fastforce
  ultimately show ?thesis using i(1,2) by (simp add: col_inv_def)
qed

text \<open>A set that is equal to one in the container hands over its references.\<close>

lemma col_link:
  assumes inv: "col_inv n S M (m, s) D" and e: "um_heap m e = Some u" "us_ptr u = PNull"
    and r: "r \<in> set (ut_usets s)" "um_heap m r = Some v" "us_exp v = us_exp u"
    and s': "ut_usets s' = ut_usets s" "same_table s s'"
  shows "col_inv n S M (Mem_put e (u\<lparr>us_ptr := PUset r\<rparr>) (Mem_put r (v\<lparr>us_refs := us_refs v + us_refs u\<rparr>) m), s') D"
proof -
  let ?u = "u\<lparr>us_ptr := PUset r\<rparr>" and ?v = "v\<lparr>us_refs := us_refs v + us_refs u\<rparr>"
  let ?m = "Mem_put e ?u (Mem_put r ?v m)"
  note i = col_invD [OF inv] and t = table_okD [OF col_invD(3) [OF inv]]
  have eu: "e \<notin> set (ut_usets s)" using i(4) [OF e(1)] e(2) by (auto simp: col_cell_def)
  then have er: "e \<noteq> r" using r(1) by blast
  have hp: "um_heap ?m b = (if b = e then Some ?u else if b = r then Some ?v else um_heap m b)" for b by (simp add: Mem_put_def)
  have fresh: "um_fresh ?m = um_fresh m" by (simp add: Mem_put_def)
  have un: "units_opt ?m = units_opt m" "alive ?m = alive m"
    using e(1) r(2) by (auto simp: fun_eq_iff units_opt_def units_of_def alive_def hp dom_def split: option.split)
  have ex: "\<exists>x'. um_heap ?m b = Some x' \<and> us_exp x' = us_exp x" if "um_heap m b = Some x" for b x
    using that e(1) r(2) by (auto simp: hp)
  have "points ?m b a \<longleftrightarrow> points m b a \<or> a = r \<and> b = e" for a b using e r(2) er by (auto simp: points_def hp)
  then have re: "rep_leaves M ?m a = (if a = r then rep_leaves M m r \<union> vals M e else rep_leaves M m a)" for a
    by (auto simp: rep_leaves_def vals_def)
  have dj: "rep_leaves M m r \<inter> vals M e = {}" using e by (auto simp: rep_leaves_def vals_def points_def)
  have "uniq_sets ?m (set (ut_usets s))"
    unfolding uniq_sets_def
  proof (intro ballI allI impI)
    fix a b x y
    assume ab: "a \<in> set (ut_usets s)" "b \<in> set (ut_usets s)" "um_heap ?m a = Some x" "um_heap ?m b = Some y" "us_exp x = us_exp y"
    have o: "\<exists>z. um_heap m c = Some z \<and> us_exp z = us_exp w" if "um_heap ?m c = Some w" for c w
      using that e(1) r(2) by (auto simp: hp split: if_splits)
    show "a = b" using t(3) ab o [OF ab(3)] o [OF ab(4)] unfolding uniq_sets_def by metis
  qed
  then have "table_ok n ?m s'" using t s' unfolding table_ok_def same_table_def by (auto simp: hp)
  moreover have "col_cell M ?m s' a w" if w: "um_heap ?m a = Some w" for a w
  proof -
    consider "a = e" | "a = r" "a \<noteq> e" | "a \<noteq> r" "a \<noteq> e" by blast
    then show ?thesis
    proof cases
      case 1
      have w': "w = ?u" using 1 w by (simp add: hp)
      have "um_heap ?m r = Some ?v" "us_exp ?v = us_exp ?u" "us_ptr ?u = PUset r" using er r(3) by (simp_all add: hp)
      then have "\<exists>b v. us_ptr ?u = PUset b \<and> b \<in> set (ut_usets s) \<and> um_heap ?m b = Some v \<and> us_exp v = us_exp ?u"
        using r(1) by blast
      then show ?thesis using i(4) [OF e(1)] eu unfolding col_cell_def fresh s'(1) 1 w' by simp
    next
      case 2
      have "card (rep_leaves M ?m r) = card (rep_leaves M m r) + card (vals M e)"
        unfolding re using card_Un_disjoint [OF i(7,6) dj] by simp
      moreover have "us_refs u = of_nat (card (vals M e))" using i(4) [OF e(1)] eu by (simp add: col_cell_def)
      moreover have "w = ?v" using 2 w by (simp add: hp)
      ultimately show ?thesis using 2 i(4) [OF r(2)] r(1) re [of r] unfolding col_cell_def fresh s'(1) by simp
    next
      case 3
      then have w0: "um_heap m a = Some w" using w by (simp add: hp)
      have "\<exists>b v. us_ptr w = PUset b \<and> b \<in> set (ut_usets s) \<and> um_heap ?m b = Some v \<and> us_exp v = us_exp w"
        if "\<exists>b v. us_ptr w = PUset b \<and> b \<in> set (ut_usets s) \<and> um_heap m b = Some v \<and> us_exp v = us_exp w"
        using that ex by metis
      then show ?thesis using 3 i(4) [OF w0] re [of a] unfolding col_cell_def fresh s'(1) by (cases "a \<in> set (ut_usets s)") auto
    qed
  qed
  moreover have "col_leaf ?m s' S D p t" if "M p = Some t" for p t
    using i(5) [OF that] unfolding col_leaf_def un s'(1) .
  ultimately show ?thesis using i(1,2) by (simp add: col_inv_def)
qed

text \<open>A leaf moves from a set to its representative.\<close>

lemma col_drop:
  assumes inv: "col_inv n S M (m, s) D" and p: "M p = Some (TValue e)" and e: "um_heap m e = Some u" "us_ptr u = PUset r" "r \<noteq> e"
  shows "\<exists>m'. Uset_drop e m = ok m' \<and> col_inv n S (M(p \<mapsto> TValue r)) (m', s) D"
proof -
  let ?M = "M(p \<mapsto> TValue r)" and ?u = "u\<lparr>us_refs := us_refs u - 1\<rparr>"
  note i = col_invD [OF inv] and t = table_okD [OF col_invD(3) [OF inv]]
  have c: "e \<notin> set (ut_usets s)" "us_refs u = of_nat (card (vals M e))" "r \<in> set (ut_usets s)"
    using i(4) [OF e(1)] e(2,3) by (auto simp: col_cell_def split: if_splits)
  obtain v where v: "um_heap m r = Some v" "us_exp v = us_exp u" using i(4) [OF e(1)] e(2) c(1) by (auto simp: col_cell_def)
  have pv: "p \<in> vals M e" using p by (simp add: vals_def)
  have cv: "card (vals M e) = Suc (card (vals M e - {p}))" by (rule card.remove [OF i(6) pv])
  have bd: "card (vals M e) < 2 ^ 32" by (rule col_bound [OF inv]) (auto simp: vals_def)
  have one: "us_refs u - 1 = of_nat (card (vals M e - {p}))" using c(2) cv by simp
  have "of_nat (card (vals M e - {p})) = (0 :: u32) \<longleftrightarrow> card (vals M e - {p}) = 0"
    using bd cv by (auto simp: word_of_nat_eq_0_iff dest: dvd_imp_le)
  then have zero: "us_refs u - 1 = 0 \<longleftrightarrow> vals M e - {p} = {}" unfolding one using i(6) [of e] by simp
  define m' where "m' = m\<lparr>um_heap := (um_heap m)(e := if vals M e - {p} = {} then None else Some ?u)\<rparr>"
  have drop: "Uset_drop e m = ok m'" using e(1) zero by (simp add: Uset_drop_def m'_def Mem_put_def)
  have hp: "um_heap m' b = (if b = e then if vals M e - {p} = {} then None else Some ?u else um_heap m b)" for b by (simp add: m'_def)
  have fresh: "um_fresh m' = um_fresh m" by (simp add: m'_def)
  have vl: "vals ?M a = (if a = e then vals M e - {p} else if a = r then insert p (vals M r) else vals M a)" for a
    using p e(3) by (auto simp: vals_def)
  have rr: "us_ptr v = PUset r" using i(4) [OF v(1)] c(3) by (simp add: col_cell_def)
  have re: "rep_leaves ?M m' a = rep_leaves M m a" if "a \<in> set (ut_usets s)" for a
  proof (rule set_eqI)
    fix q
    have pt: "points m' b a \<longleftrightarrow> points m b a" if "b \<noteq> e \<or> vals M e - {p} \<noteq> {}" for b
      using that e(1) by (auto simp: points_def hp)
    show "q \<in> rep_leaves ?M m' a \<longleftrightarrow> q \<in> rep_leaves M m a"
    proof (cases "q = p")
      case True
      then show ?thesis using p e v(1) rr by (auto simp: rep_leaves_def points_def hp)
    next
      case False
      have "points m' b a \<longleftrightarrow> points m b a" if "M q = Some (TValue b)" for b
        by (rule pt) (use that False in \<open>auto simp: vals_def\<close>)
      then show ?thesis using False by (auto simp: rep_leaves_def)
    qed
  qed
  have keep: "um_heap m' b = um_heap m b" if "b \<in> set (ut_usets s)" for b using that c(1) by (auto simp: hp)
  have "table_ok n m' s" using t keep unfolding table_ok_def uniq_sets_def by (auto simp: subset_iff dom_def)
  moreover have "col_cell ?M m' s a w" if w: "um_heap m' a = Some w" for a w
  proof (cases "a = e")
    case True
    then have ne: "vals M e - {p} \<noteq> {}" "w = ?u" using w by (auto simp: hp split: if_splits)
    show ?thesis using i(4) [OF e(1)] ne c(1,3) True one v e(2) keep [OF c(3)] vl [of e]
      unfolding col_cell_def fresh by simp
  next
    case False
    then have w0: "um_heap m a = Some w" using w by (simp add: hp)
    show ?thesis
    proof (cases "a \<in> set (ut_usets s)")
      case True
      then show ?thesis using i(4) [OF w0] re [OF True] unfolding col_cell_def fresh by simp
    next
      case a: False
      then have "vals ?M a = vals M a" using vl [of a] False c(3) by auto
      then show ?thesis using i(4) [OF w0] a keep unfolding col_cell_def fresh by auto
    qed
  qed
  moreover have "col_leaf m' s S D q t" if q: "?M q = Some t" for q t
  proof (cases "q = p")
    case True
    have "\<forall>k\<in>slot_keys p. S k = units_of m e"
      using i(5) [OF p] by (auto simp: col_leaf_def Tree_of_value_def split: option.splits)
    moreover have "units_of m' r = units_of m e" using e(1) v keep [OF c(3)] by (simp add: units_of_def)
    ultimately show ?thesis using q True c(3) keep [OF c(3)] v(1) unfolding col_leaf_def by (intro exI [of _ "Some r"]) auto
  next
    case False
    then have Mq: "M q = Some t" using q by simp
    obtain x where x: "t = Tree_of_value x" "alive m x" "\<forall>k\<in>slot_keys q. S k = units_opt m x"
        "\<forall>a. x = Some a \<longrightarrow> slot_keys q \<inter> D \<noteq> {} \<longrightarrow> a \<in> set (ut_usets s)"
      using i(5) [OF Mq] unfolding col_leaf_def by blast
    have "alive m' x \<and> units_opt m' x = units_opt m x"
    proof (cases "x = Some e")
      case True
      then have "q \<in> vals M e - {p}" using Mq x(1) False by (simp add: vals_def)
      then have "um_heap m' e = Some ?u" using hp [of e] by (metis empty_iff)
      then show ?thesis using True e(1) by (auto simp: units_of_def)
    next
      case False
      then show ?thesis using x(2) by (cases x) (auto simp: hp units_of_def)
    qed
    then show ?thesis using x unfolding col_leaf_def by auto
  qed
  moreover have "dom ?M = dom M" using p by auto
  ultimately show ?thesis using i(1,2) drop by (simp add: col_inv_def)
qed

lemma col_visited:
  assumes inv: "col_inv n S M (m, s) D" and p: "M p = Some (Tree_of_value v)" "K \<subseteq> slot_keys p"
    and v: "\<And>a. v = Some a \<Longrightarrow> a \<in> set (ut_usets s)"
  shows "col_inv n S M (m, s) (D \<union> K)"
proof -
  have "col_leaf m s S (D \<union> K) q t" if q: "M q = Some t" for q t
  proof (cases "q = p")
    case True
    then show ?thesis using col_invD(5) [OF inv q] p(1) q v unfolding col_leaf_def by (auto simp: Tree_of_value_def split: option.splits)
  next
    case False
    then have "slot_keys q \<inter> K = {}" using tiling_disjoint [OF col_invD(1) [OF inv], of q p] q p by auto
    then show ?thesis using col_invD(5) [OF inv q] unfolding col_leaf_def by (simp add: Int_Un_distrib)
  qed
  then show ?thesis using inv by (simp add: col_inv_def)
qed

lemma Usets_find_table:
  assumes "col_inv n S M (m, s) D" "um_heap m e = Some u"
  shows "Usets_find s m u = Some r \<Longrightarrow> r \<in> set (ut_usets s) \<and> (\<exists>v. um_heap m r = Some v \<and> us_exp v = us_exp u)"
    "Usets_find s m u = None \<Longrightarrow> r \<in> set (ut_usets s) \<Longrightarrow> um_heap m r = Some v \<Longrightarrow> us_exp v \<noteq> us_exp u"
proof -
  have can: "canonical (us_exp v)" if "um_heap m b = Some v" for b v
    using col_invD(4) [OF assms(1) that] by (auto simp: col_cell_def canonical_def)
  note eq = SetExpr_eq_canonical [OF can can [OF assms(2)]]
  show "Usets_find s m u = Some r \<Longrightarrow> r \<in> set (ut_usets s) \<and> (\<exists>v. um_heap m r = Some v \<and> us_exp v = us_exp u)"
    unfolding Usets_find_def by (auto simp: find_Some_iff eq split: option.splits)
  show "Usets_find s m u = None \<Longrightarrow> r \<in> set (ut_usets s) \<Longrightarrow> um_heap m r = Some v \<Longrightarrow> us_exp v \<noteq> us_exp u"
    unfolding Usets_find_def by (auto simp: find_None_iff eq split: option.splits)
qed

text \<open>The function applied to each value.\<close>

lemma collect_value_ok:
  assumes inv: "col_inv n S M (m, s) D" and p: "M p = Some (TValue e)" "K \<subseteq> slot_keys p"
  shows "\<exists>new m' s'. collect_value e (m, s) = ok (new, m', s') \<and>
    col_inv n S (M(p \<mapsto> (case new of None \<Rightarrow> TValue e | Some a \<Rightarrow> TValue a))) (m', s') (D \<union> K)"
proof -
  obtain u where u: "um_heap m e = Some u"
    using col_invD(5) [OF inv p(1)] by (auto simp: col_leaf_def Tree_of_value_def split: option.splits)
  have fin: "\<exists>m'. Uset_drop e m1 = ok m' \<and> col_inv n S (M(p \<mapsto> TValue r)) (m', s1) (D \<union> K)"
    if i1: "col_inv n S M (m1, s1) D" "um_heap m1 e = Some w" "us_ptr w = PUset r" "r \<noteq> e" for m1 s1 w r
  proof -
    have r: "r \<in> set (ut_usets s1)" using points_table [OF i1(1), of e r] i1(2,3) by (simp add: points_def)
    obtain m' where m': "Uset_drop e m1 = ok m'" "col_inv n S (M(p \<mapsto> TValue r)) (m', s1) D"
      using col_drop [OF i1(1) p(1) i1(2-4)] by blast
    moreover have "col_inv n S (M(p \<mapsto> TValue r)) (m', s1) (D \<union> K)"
      by (rule col_visited [OF m'(2), of p "Some r"]) (use p(2) r in auto)
    ultimately show ?thesis by blast
  qed
  have self: "col_inv n S (M(p \<mapsto> TValue e)) (m1, s1) (D \<union> K)" if i1: "col_inv n S M (m1, s1) D" "e \<in> set (ut_usets s1)" for m1 s1
  proof -
    have "M(p \<mapsto> TValue e) = M" using p(1) by auto
    then show ?thesis using col_visited [OF i1(1), of p "Some e" K] p i1(2) by simp
  qed
  show ?thesis
  proof (cases "us_ptr u")
    case PNull
    show ?thesis
    proof (cases "Usets_find s m u")
      case None
      let ?s = "s\<lparr>ut_usets := ut_usets s @ [e], ut_stats := (ut_stats s)\<lparr>uss_adds := uss_adds (ut_stats s) + 1,
             uss_bytes := uss_bytes (ut_stats s) + SetU32_bytes (se_set (us_exp u))\<rparr>\<rparr>"
      have i1: "col_inv n S M (Mem_put e (u\<lparr>us_ptr := PUset e\<rparr>) m, ?s) D"
        by (rule col_add [OF inv u PNull Usets_find_table(2) [OF inv u None]]) (simp_all add: same_table_def)
      have "collect_value e (m, s) = ok (None, Mem_put e (u\<lparr>us_ptr := PUset e\<rparr>) m, ?s)"
        using u PNull None by (simp add: collect_value_def Usets_add_def Uset_link_def Mem_modify_def)
      then show ?thesis using self [OF i1] by simp
    next
      case (Some r)
      obtain v where v: "um_heap m r = Some v" "us_exp v = us_exp u" and r: "r \<in> set (ut_usets s)"
        using Usets_find_table(1) [OF inv u Some] by blast
      have er: "r \<noteq> e" using col_invD(4) [OF inv u] r PNull by (auto simp: col_cell_def)
      let ?s = "s\<lparr>ut_stats := (ut_stats s)\<lparr>uss_dups := uss_dups (ut_stats s) + 1\<rparr>\<rparr>"
      let ?m = "Mem_put e (u\<lparr>us_ptr := PUset r\<rparr>) (Mem_put r (v\<lparr>us_refs := us_refs v + us_refs u\<rparr>) m)"
      have i1: "col_inv n S M (?m, ?s) D"
        by (rule col_link [OF inv u PNull r v]) (simp_all add: same_table_def)
      obtain m' where m': "Uset_drop e ?m = ok m'" "col_inv n S (M(p \<mapsto> TValue r)) (m', ?s) (D \<union> K)"
        using fin [OF i1, of "u\<lparr>us_ptr := PUset r\<rparr>" r] er by (auto simp: Mem_put_def)
      have "collect_value e (m, s) = ok (Some r, m', ?s)"
        using u v(1) PNull Some er m'(1) by (simp add: collect_value_def Usets_add_def Uset_use_def Uset_link_def Mem_modify_def Mem_get_def Mem_put_def)
      then show ?thesis using m'(2) by auto
    qed
  next
    case (PUset r)
    show ?thesis
    proof (cases "r = e")
      case True
      have "e \<in> set (ut_usets s)" using points_table [OF inv, of e e] u PUset True by (simp add: points_def)
      moreover have "collect_value e (m, s) = ok (None, m, s)" using u PUset True by (simp add: collect_value_def)
      ultimately show ?thesis using self [OF inv] by simp
    next
      case False
      obtain m' where m': "Uset_drop e m = ok m'" "col_inv n S (M(p \<mapsto> TValue r)) (m', s) (D \<union> K)"
        using fin [OF inv u PUset False] by blast
      moreover have "collect_value e (m, s) = ok (Some r, m', s)" using u PUset False m'(1) by (simp add: collect_value_def)
      ultimately show ?thesis by auto
    qed
  next
    case (PTree q)
    then show ?thesis using col_invD(4) [OF inv u] by (auto simp: col_cell_def split: if_splits)
  qed
qed

interpretation col: trie_visitor "foreach_leaf collect_value" "col_inv n S" UNIV for n S
proof
  fix M st D p t c k
  assume a: "col_inv n S M st D" "M p = Some t" "{k ..< k + c} \<subseteq> slot_keys p"
  obtain m s where st: "st = (m, s)" by (cases st)
  note inv = a(1) [unfolded st]
  obtain v where v: "t = Tree_of_value v" using col_invD(5) [OF inv a(2)] by (auto simp: col_leaf_def)
  have "\<exists>t' st'. foreach_leaf collect_value p t k c (slot_size p) st = ok (t', st') \<and>
      \<not> Tree_isForest t' \<and> col_inv n S (M(p \<mapsto> t')) st' (D \<union> {k ..< k + c})"
  proof (cases v)
    case None
    have "M(p \<mapsto> TNull) = M" using a(2) v None by auto
    then show ?thesis using col_visited [OF inv, of p None, OF _ a(3)] a(2) v None
      by (simp add: foreach_leaf_def Tree_value_def Tree_isForest_def st)
  next
    case (Some e)
    have "M p = Some (TValue e)" using a(2) v Some by simp
    then obtain new m' s' where r: "collect_value e (m, s) = ok (new, m', s')"
        "col_inv n S (M(p \<mapsto> (case new of None \<Rightarrow> TValue e | Some a \<Rightarrow> TValue a))) (m', s') (D \<union> {k ..< k + c})"
      using collect_value_ok [OF inv _ a(3)] by blast
    then show ?thesis using v Some
      by (auto simp: foreach_leaf_def Tree_value_def Tree_isForest_def st split: option.split)
  qed
  then show "\<exists>t' st'. foreach_leaf collect_value p t k c (slot_size p) st = ok (t', st') \<and>
        (\<not> Tree_isForest t' \<and> col_inv n S (M(p \<mapsto> t')) st' (D \<union> {k ..< k + c}) \<or>
         t' = TForest (replicate FANOUT t) \<and> c \<noteq> slot_size p \<and> col_inv n S (split_leaf p t M) st' D)" by blast
qed

text \<open>At the end every set represents itself, and the links are removed.\<close>

lemma col_end:
  assumes inv: "col_inv n S M (m, s) D" and all: "\<forall>k. S k \<noteq> {} \<longrightarrow> k \<in> D"
  shows "dom (um_heap m) = set (ut_usets s)" "a \<in> set (ut_usets s) \<Longrightarrow> rep_leaves M m a = vals M a"
proof -
  note i = col_invD [OF inv]
  have used: "b \<in> set (ut_usets s)" if b: "M p = Some (TValue b)" for p b
  proof -
    have "b \<in> dom (um_heap m) \<and> (\<forall>k\<in>slot_keys p. S k = units_of m b) \<and> (slot_keys p \<inter> D \<noteq> {} \<longrightarrow> b \<in> set (ut_usets s))"
      using i(5) [OF b] by (auto simp: col_leaf_def Tree_of_value_def split: option.splits)
    moreover have "units_of m b \<noteq> {}" if "um_heap m b = Some u" for u
      using i(4) [OF that] units_of_exp [OF that] by (auto simp: col_cell_def)
    moreover obtain k where "k \<in> slot_keys p" using slot_keys_nonempty [OF i(1), of p] b by blast
    ultimately show ?thesis using all by auto
  qed
  have tab: "set (ut_usets s) \<subseteq> dom (um_heap m)" by (rule table_okD(2) [OF i(3)])
  have "b \<in> set (ut_usets s)" if "um_heap m b = Some u" for b u
  proof (rule ccontr)
    assume "b \<notin> set (ut_usets s)"
    then have "vals M b \<noteq> {}" using i(4) [OF that] by (simp add: col_cell_def)
    then show False using used \<open>b \<notin> set (ut_usets s)\<close> by (auto simp: vals_def)
  qed
  then show "dom (um_heap m) = set (ut_usets s)" using tab by auto
  have self: "points m b a \<longleftrightarrow> a = b" if b: "b \<in> set (ut_usets s)" for a b
  proof -
    obtain u where u: "um_heap m b = Some u" using tab b by auto
    then show ?thesis using i(4) [OF u] b by (auto simp: points_def col_cell_def)
  qed
  show "rep_leaves M m a = vals M a" if "a \<in> set (ut_usets s)"
    using used self by (auto simp: rep_leaves_def vals_def)
qed

lemma unlink_sets:
  "set as \<subseteq> dom (um_heap m) \<Longrightarrow> distinct as \<Longrightarrow> \<exists>m'. rfold (\<lambda>a. Uset_link a PNull) as m = ok m' \<and> um_fresh m' = um_fresh m \<and>
    (\<forall>b. um_heap m' b = (if b \<in> set as then map_option (\<lambda>u. u\<lparr>us_ptr := PNull\<rparr>) (um_heap m b) else um_heap m b))"
proof (induction as arbitrary: m)
  case (Cons a as)
  obtain u where u: "um_heap m a = Some u" using Cons.prems(1) by auto
  let ?m = "Mem_put a (u\<lparr>us_ptr := PNull\<rparr>) m"
  have "set as \<subseteq> dom (um_heap ?m)" using Cons.prems(1) by (auto simp: Mem_put_def)
  then obtain m' where m': "rfold (\<lambda>a. Uset_link a PNull) as ?m = ok m'" "um_fresh m' = um_fresh ?m"
      "\<forall>b. um_heap m' b = (if b \<in> set as then map_option (\<lambda>u. u\<lparr>us_ptr := PNull\<rparr>) (um_heap ?m b) else um_heap ?m b)"
    using Cons.IH [of ?m] Cons.prems(2) by auto
  have link: "Uset_link a PNull m = ok ?m" using u by (simp add: Uset_link_def Mem_modify_def)
  have "um_heap m' b = (if b \<in> set (a # as) then map_option (\<lambda>u. u\<lparr>us_ptr := PNull\<rparr>) (um_heap m b) else um_heap m b)" for b
    using m'(3) u Cons.prems(2) by (auto simp: Mem_put_def)
  then show ?case using m'(1,2) link by (intro exI [of _ m']) (simp add: Mem_put_def)
qed simp

text \<open>The trie and the container after collection.\<close>

definition collected :: "u32 \<Rightarrow> (nat \<Rightarrow> u32 set) \<Rightarrow> Trie \<Rightarrow> UsetMem \<Rightarrow> Usets \<Rightarrow> bool" where
  "collected n S trie m s \<longleftrightarrow> trie_ok trie m S \<and> table_ok n m s \<and> set (ut_usets s) = dom (um_heap m)"

lemma col_unlinked:
  assumes inv: "col_inv n S M (m, s) D" and all: "\<forall>k. S k \<noteq> {} \<longrightarrow> k \<in> D"
  shows "\<exists>m'. rfold (\<lambda>a. Uset_link a PNull) (ut_usets s) m = ok m' \<and> trie_inv M m' (\<lambda>_. []) S \<and> table_ok n m' s \<and>
    set (ut_usets s) = dom (um_heap m')"
proof -
  note i = col_invD [OF inv] and t = table_okD [OF col_invD(3) [OF inv]] and en = col_end [OF inv all]
  obtain m' where m': "rfold (\<lambda>a. Uset_link a PNull) (ut_usets s) m = ok m'" "um_fresh m' = um_fresh m"
      "\<forall>b. um_heap m' b = (if b \<in> set (ut_usets s) then map_option (\<lambda>u. u\<lparr>us_ptr := PNull\<rparr>) (um_heap m b) else um_heap m b)"
    using unlink_sets [OF t(2,1)] by blast
  have hp: "um_heap m' b = map_option (\<lambda>u. u\<lparr>us_ptr := PNull\<rparr>) (um_heap m b)" for b
    using m'(3) en(1) domIff [of b "um_heap m"] by (cases "b \<in> set (ut_usets s)") auto
  have un: "units_opt m' = units_opt m" "alive m' = alive m"
    by (auto simp: fun_eq_iff units_opt_def units_of_def alive_def hp dom_def split: option.split)
  have "uniq_sets m' (set (ut_usets s))" using t(3) unfolding uniq_sets_def hp by fastforce
  then have "table_ok n m' s" using t by (auto simp: table_ok_def hp)
  moreover have "cell_ok M (\<lambda>_. []) a u'" if u': "um_heap m' a = Some u'" for a u'
  proof -
    obtain u where u: "um_heap m a = Some u" "u' = u\<lparr>us_ptr := PNull\<rparr>" using u' by (auto simp: hp)
    have a: "a \<in> set (ut_usets s)" using en(1) u(1) by blast
    then show ?thesis using i(4) [OF u(1)] en(2) [OF a] i(6) [of a] by (simp add: cell_ok_def col_cell_def held_def u(2))
  qed
  moreover have "a < um_fresh m'" if "um_heap m' a = Some u'" for a u'
    using that i(4) [of a] by (auto simp: hp m'(2) col_cell_def)
  moreover have "leaf_ok m' (\<lambda>_. []) S p t" if "M p = Some t" for p t
    using i(5) [OF that] unfolding leaf_ok_def col_leaf_def un by auto
  moreover have "dom (um_heap m') = dom (um_heap m)" by (auto simp: hp)
  ultimately show ?thesis using m'(1) i(1,2) en(1) by (auto simp: trie_inv_def chains_ok_def)
qed

lemma collectUsets_ok:
  assumes "trie_ok trie m S"
  shows "\<exists>trie' m' s. collectUsets n trie m = ok (trie', m', s) \<and> collected n S trie' m' s \<and>
    tr_minkey trie' = tr_minkey trie \<and> tr_maxkey trie' = tr_maxkey trie"
proof -
  note ok = assms [unfolded trie_ok_def trees_inv_def]
  have "col_inv n S (leaves (tr_trees trie)) (m, Usets_new n) {}" using col_start ok by blast
  then obtain trees' st where v: "Trie_foreach collect_value trie (m, Usets_new n) = ok (trie\<lparr>tr_trees := trees'\<rparr>, st)"
      "col_inv n S (leaves trees') st {unat (tr_minkey trie) .. unat (tr_maxkey trie)}" "\<forall>b. tree_ok 0 (trees' b)"
    using col.visit_all [of n S trie "(m, Usets_new n)" "{}"] ok by (auto simp: Trie_foreach_def)
  obtain m1 s where st: "st = (m1, s)" by (cases st)
  have all: "\<forall>k. S k \<noteq> {} \<longrightarrow> k \<in> {unat (tr_minkey trie) .. unat (tr_maxkey trie)}" using ok by simp
  obtain m' where m': "rfold (\<lambda>a. Uset_link a PNull) (ut_usets s) m1 = ok m'" "trie_inv (leaves trees') m' (\<lambda>_. []) S" "table_ok n m' s"
      "set (ut_usets s) = dom (um_heap m')"
    using col_unlinked [OF v(2) [unfolded st] all] by blast
  have "collected n S (trie\<lparr>tr_trees := trees'\<rparr>) m' s"
    using m' v(3) ok by (simp add: collected_def trie_ok_def trees_inv_def)
  moreover have "collectUsets n trie m = ok (trie\<lparr>tr_trees := trees'\<rparr>, m', s)"
    using v(1) m'(1) by (simp add: collectUsets_def st)
  ultimately show ?thesis by auto
qed

section \<open>Flattening\<close>

text \<open>
  While the trie is flattened a leaf that has been visited holds one reference for each of its keys.
  Keys from \<open>L\<close> on are never visited.
\<close>

definition unvisited :: "(path \<Rightarrow> Tree option) \<Rightarrow> nat \<Rightarrow> nat set \<Rightarrow> uaddr \<Rightarrow> path set" where
  "unvisited M L D a = {p \<in> vals M a. slot_keys p \<inter> (D - {L..}) = {}}"

definition flat_refs :: "(path \<Rightarrow> Tree option) \<Rightarrow> nat \<Rightarrow> nat set \<Rightarrow> uaddr option list \<Rightarrow> uaddr \<Rightarrow> nat" where
  "flat_refs M L D vec a = card (unvisited M L D a) + count_list vec (Some a)"

definition flat_inv :: "(nat \<Rightarrow> u32 set) \<Rightarrow> (path \<Rightarrow> Tree option) \<Rightarrow> UsetMem \<Rightarrow> nat \<Rightarrow> (path \<Rightarrow> Tree option) \<Rightarrow>
    uaddr option list \<times> UsetMem \<Rightarrow> nat set \<Rightarrow> bool" where
  "flat_inv S M0 m0 L M st D \<longleftrightarrow> (case st of (vec, m) \<Rightarrow>
     M = M0 \<and> trie_inv M0 m0 (\<lambda>_. []) S \<and> {L..} \<subseteq> D \<and> length vec = L \<and> um_fresh m = um_fresh m0 \<and>
     (\<forall>a. um_heap m a = map_option (\<lambda>u. u\<lparr>us_refs := of_nat (flat_refs M0 L D vec a)\<rparr>) (um_heap m0 a)) \<and>
     (\<forall>k<L. k \<notin> D \<longrightarrow> vec ! k = None) \<and>
     (\<forall>k<L. \<forall>p v. k \<in> D \<longrightarrow> M0 p = Some (Tree_of_value v) \<longrightarrow> k \<in> slot_keys p \<longrightarrow> vec ! k = v))"

lemma idle_leaf:
  assumes "trie_inv M m (\<lambda>_. []) S" "M p = Some t"
  obtains v where "t = Tree_of_value v" "alive m v" "\<And>k. k \<in> slot_keys p \<Longrightarrow> S k = units_opt m v"
  using trie_invD(5) [OF assms] by (auto simp: leaf_ok_def)

lemma count_fill:
  assumes "k + n \<le> length vec" "\<And>i. k \<le> i \<Longrightarrow> i < k + n \<Longrightarrow> vec ! i = None"
  shows "count_list (take k vec @ replicate n v @ drop (k + n) vec) (Some b) = count_list vec (Some b) + (if v = Some b then n else 0)"
proof -
  have mid: "take n (drop k vec) = replicate n None" using assms by (intro nth_equalityI) auto
  have "vec = take k vec @ take n (drop k vec) @ drop (k + n) vec" by (metis append_take_drop_id drop_drop add.commute)
  then have "count_list vec (Some b) = count_list (take k vec @ replicate n None @ drop (k + n) vec) (Some b)" unfolding mid by simp
  moreover have "count_list (replicate n x) (Some b) = (if x = Some b then n else 0)" for x by (induction n) auto
  ultimately show ?thesis by simp
qed

lemma nth_fill:
  assumes "k + n \<le> length vec" "i < length vec"
  shows "(take k vec @ replicate n v @ drop (k + n) vec) ! i = (if k \<le> i \<and> i < k + n then v else vec ! i)"
  using assms by (auto simp: nth_append min_def)

lemma unvisited_step:
  assumes "trie_inv M m (\<lambda>_. []) S" "M p = Some (Tree_of_value v)" "0 < n" "{k ..< k + n} \<subseteq> slot_keys p" "k + n \<le> L"
    "slot_keys p \<inter> D \<subseteq> {L..}"
  shows "card (unvisited M L D a) = card (unvisited M L (D \<union> {k ..< k + n}) a) + (if v = Some a then 1 else 0)"
proof -
  let ?D = "D \<union> {k ..< k + n}"
  have kk: "k \<in> slot_keys p" "k \<in> ?D - {L..}" using assms(3-5) by auto
  have q: "slot_keys q \<inter> {k ..< k + n} = {}" if "q \<in> vals M a" "q \<noteq> p" for q
    using tiling_disjoint [OF trie_invD(1) [OF assms(1)], of q p] that assms(2,4) by (auto simp: vals_def)
  have same: "q \<in> unvisited M L ?D a \<longleftrightarrow> q \<in> unvisited M L D a" if "q \<noteq> p" for q
    using q [of q] that by (auto simp: unvisited_def)
  have p1: "p \<notin> unvisited M L ?D a" using kk by (auto simp: unvisited_def)
  have p2: "p \<in> unvisited M L D a \<longleftrightarrow> v = Some a" using assms(2,6) by (cases v) (auto simp: unvisited_def vals_def)
  have fin: "finite (unvisited M L D a)" using trie_invD(6) [OF assms(1), of a] by (simp add: unvisited_def)
  show ?thesis
  proof (cases "v = Some a")
    case True
    have "unvisited M L D a = insert p (unvisited M L ?D a)" unfolding set_eq_iff insert_iff using same p2 True by metis
    moreover have "finite (unvisited M L ?D a)" using fin calculation by simp
    ultimately show ?thesis using p1 True by simp
  next
    case False
    have "unvisited M L D a = unvisited M L ?D a" unfolding set_eq_iff using same p1 p2 False by metis
    then show ?thesis using False by simp
  qed
qed

lemma flatten_leaf_ok:
  assumes inv: "flat_inv S M0 m0 L M (vec, m) D" and p: "M p = Some t"
    and k: "0 < n" "{k ..< k + n} \<subseteq> slot_keys p" "{k ..< k + n} \<inter> D = {}" "slot_keys p \<inter> D \<subseteq> {L..}"
  shows "\<exists>vec' m'. flatten_leaf p t k n b (vec, m) = ok (t, (vec', m')) \<and> flat_inv S M0 m0 L M (vec', m') (D \<union> {k ..< k + n})"
proof -
  note i = inv [unfolded flat_inv_def, simplified]
  have M: "M = M0" and tr: "trie_inv M0 m0 (\<lambda>_. []) S" and len: "length vec = L" using i by auto
  have hp: "um_heap m a = map_option (\<lambda>u. u\<lparr>us_refs := of_nat (flat_refs M0 L D vec a)\<rparr>) (um_heap m0 a)" for a using i by blast
  obtain v where v: "t = Tree_of_value v" "alive m0 v" using idle_leaf [OF tr p [unfolded M]] by blast
  have Mp: "M0 p = Some (Tree_of_value v)" using p v(1) M by simp
  have "k + n - 1 \<notin> D" using k(1,3) by (auto simp: disjoint_iff)
  then have "k + n - 1 \<notin> {L..}" using i by blast
  then have kn: "k + n \<le> L" using k(1) by simp
  let ?vec = "take k vec @ replicate n v @ drop (k + n) vec" and ?D = "D \<union> {k ..< k + n}"
  have none: "vec ! j = None" if "k \<le> j" "j < k + n" for j
  proof -
    have "j < L" "j \<notin> D" using that kn k(3) by (auto simp: disjoint_iff)
    then show ?thesis using i by blast
  qed
  have cnt: "count_list ?vec (Some a) = count_list vec (Some a) + (if v = Some a then n else 0)" for a
    by (rule count_fill) (use kn len none in auto)
  have unv: "card (unvisited M0 L D a) = card (unvisited M0 L ?D a) + (if v = Some a then 1 else 0)" for a
    by (rule unvisited_step [OF tr Mp k(1,2) kn k(4)])
  have refs: "of_nat (flat_refs M0 L ?D ?vec a) = (of_nat (flat_refs M0 L D vec a) + (if v = Some a then of_nat n - 1 else 0) :: u32)" for a
    using cnt [of a] unv [of a] by (simp add: flat_refs_def)
  define m' where "m' = on_value v (\<lambda>u. u\<lparr>us_refs := us_refs u + (of_nat n - 1)\<rparr>) m"
  have hp': "um_heap m' a = map_option (\<lambda>u. u\<lparr>us_refs := of_nat (flat_refs M0 L ?D ?vec a)\<rparr>) (um_heap m0 a)" for a
  proof (cases "v = Some a")
    case True
    then show ?thesis using v(2) hp [of a] refs [of a] by (auto simp: m'_def on_value_def Mem_put_def)
  next
    case False
    then have "um_heap m' a = um_heap m a" by (cases v) (auto simp: m'_def on_value_def Mem_put_def)
    then show ?thesis using hp [of a] False by (simp add: refs)
  qed
  have use: "(case v of None \<Rightarrow> ok m | Some a \<Rightarrow> Uset_use a (of_nat n - 1) m) = ok m'"
  proof (cases v)
    case (Some a)
    then obtain u0 where "um_heap m0 a = Some u0" using v(2) by auto
    then show ?thesis using Some hp [of a] by (simp add: m'_def on_value_def Uset_use_def Mem_modify_def)
  qed (simp add: m'_def on_value_def)
  have fr: "um_fresh m' = um_fresh m0" using i by (cases v) (auto simp: m'_def on_value_def Mem_put_def)
  have nth: "?vec ! j = (if k \<le> j \<and> j < k + n then v else vec ! j)" if "j < L" for j
    by (rule nth_fill) (use that kn len in auto)
  have "?vec ! j = w" if j: "j < L" "j \<in> ?D" "M0 q = Some (Tree_of_value w)" "j \<in> slot_keys q" for j q w
  proof (cases "k \<le> j \<and> j < k + n")
    case True
    then have "j \<in> slot_keys p" using k(2) by auto
    then have "q = p" using tiling_disjoint [OF trie_invD(1) [OF tr], of q p] j(3,4) Mp by blast
    then show ?thesis using nth [OF j(1)] True Mp j(3) by (cases v; cases w) auto
  next
    case False
    then have "j \<in> D" using j(2) by auto
    then show ?thesis using nth [OF j(1)] False i j(1,3,4) by auto
  qed
  then have "flat_inv S M0 m0 L M (?vec, m') ?D"
    unfolding flat_inv_def prod.case using M tr i hp' fr nth kn len by auto
  moreover have "flatten_leaf p t k n b (vec, m) = ok (t, (?vec, m'))"
    using kn len use v(1) by (simp add: flatten_leaf_def)
  ultimately show ?thesis by blast
qed

interpretation flat: trie_visitor flatten_leaf "flat_inv S M0 m0 L" "{L..}" for S M0 m0 L
proof
  fix M st D p t n k
  assume a: "flat_inv S M0 m0 L M st D" "M p = Some t" "0 < n" "{k ..< k + n} \<subseteq> slot_keys p" "{k ..< k + n} \<inter> D = {}"
    "slot_keys p \<inter> D \<subseteq> {L..}"
  obtain vec m where st: "st = (vec, m)" by (cases st)
  obtain vec' m' where r: "flatten_leaf p t k n (slot_size p) st = ok (t, (vec', m'))" "flat_inv S M0 m0 L M (vec', m') (D \<union> {k ..< k + n})"
    using flatten_leaf_ok [OF a(1) [unfolded st] a(2-6)] unfolding st by blast
  have tr: "trie_inv M m0 (\<lambda>_. []) S" using a(1) by (auto simp: flat_inv_def)
  obtain v where "t = Tree_of_value v" using idle_leaf [OF tr a(2)] by blast
  moreover have "M(p \<mapsto> t) = M" using a(2) by auto
  ultimately show "\<exists>t' st'. flatten_leaf p t k n (slot_size p) st = ok (t', st') \<and>
        (\<not> Tree_isForest t' \<and> flat_inv S M0 m0 L (M(p \<mapsto> t')) st' (D \<union> {k ..< k + n}) \<or>
         t' = TForest (replicate FANOUT t) \<and> n \<noteq> slot_size p \<and> flat_inv S M0 m0 L (split_leaf p t M) st' D)"
    using r by (intro exI [of _ t] exI [of _ "(vec', m')"]) simp
qed

text \<open>The state that \<open>computeOwnership\<close> hands to the completion of ownership.\<close>

lemma flat_facts:
  assumes inv: "flat_inv S M0 m0 L M (vec, m) D" and all: "\<forall>k. S k \<noteq> {} \<longrightarrow> k \<in> D \<and> k < L" and top: "L \<le> 2 ^ 32"
  shows "length vec = L" "k < L \<Longrightarrow> \<exists>v. vec ! k = v \<and> alive m0 v \<and> S k = units_opt m0 v"
    "um_heap m a = map_option (\<lambda>u. u\<lparr>us_refs := of_nat (count_list vec (Some a))\<rparr>) (um_heap m0 a)"
    "um_heap m0 a = Some u \<Longrightarrow> Some a \<in> set vec"
proof -
  note i = inv [unfolded flat_inv_def, simplified]
  have tr: "trie_inv M0 m0 (\<lambda>_. []) S" and len: "length vec = L" using i by auto
  have at: "vec ! j = v" if "j < L" "j \<in> D" "M0 p = Some (Tree_of_value v)" "j \<in> slot_keys p" for j p v
    using i that by blast
  show "length vec = L" by (rule len)
  show "\<exists>v. vec ! k = v \<and> alive m0 v \<and> S k = units_opt m0 v" if k: "k < L"
  proof (cases "k \<in> D")
    case True
    have "k \<in> (\<Union>p\<in>dom M0. slot_keys p)" using trie_invD(1) [OF tr] k top by (simp add: tiling_def)
    then obtain p where "p \<in> dom M0" "k \<in> slot_keys p" by blast
    then obtain t where p: "M0 p = Some t" "k \<in> slot_keys p" by blast
    obtain v where v: "t = Tree_of_value v" "alive m0 v" "S k = units_opt m0 v" using idle_leaf [OF tr p(1)] p(2) by metis
    then show ?thesis using at [OF k _ _ p(2), of v] True p(1) by auto
  next
    case False
    then have "vec ! k = None" "S k = {}" using i k all by auto
    then show ?thesis by simp
  qed
  have slot: "\<exists>k. k \<in> slot_keys p \<and> k \<in> D \<and> k < L" if p: "p \<in> vals M0 a" for p a
  proof -
    have Mp: "M0 p = Some (Tree_of_value (Some a))" using p by (simp add: vals_def)
    obtain k where k: "k \<in> slot_keys p" using slot_keys_nonempty [OF trie_invD(1) [OF tr], of p] Mp by blast
    have a: "alive m0 (Some a)" "S k = units_of m0 a" using free_leaf [OF tr Mp] k by auto
    then obtain u where u: "um_heap m0 a = Some u" by auto
    have "units_of m0 a \<noteq> {}" using trie_invD(4) [OF tr u] units_of_exp [OF u] by (auto simp: cell_ok_def)
    then show ?thesis using a(2) all k by auto
  qed
  have "unvisited M0 L D a = {}" using slot by (fastforce simp: unvisited_def)
  then show "um_heap m a = map_option (\<lambda>u. u\<lparr>us_refs := of_nat (count_list vec (Some a))\<rparr>) (um_heap m0 a)"
    using i by (simp add: flat_refs_def)
  show "Some a \<in> set vec" if u: "um_heap m0 a = Some u"
  proof -
    have "card (vals M0 a) \<noteq> 0" using trie_invD(4) [OF tr u] by (simp add: cell_ok_def held_def)
    then obtain p where p: "p \<in> vals M0 a" by (metis card.empty ex_in_conv)
    obtain k where k: "k \<in> slot_keys p" "k \<in> D" "k < L" using slot [OF p] by blast
    have "vec ! k = Some a" using at [OF k(3,2) _ k(1)] p by (simp add: vals_def)
    then show ?thesis using k(3) len by (metis nth_mem)
  qed
qed

lemma flat_own:
  assumes inv: "flat_inv S M0 m0 L M (vec, m) D" and all: "\<forall>k. S k \<noteq> {} \<longrightarrow> k \<in> D \<and> k < L" and top: "L + 4 < 2 ^ 32"
    and tab: "table_ok n m0 s" "set (ut_usets s) = dom (um_heap m0)"
  defines "st \<equiv> \<lparr>os_facts = vec, os_mem = m, os_usets = s, os_touched = []\<rparr>"
  shows "own_inv st []" "owners st = S" "\<not> is_promoted m a"
proof -
  have "L \<le> 2 ^ 32" using top by simp
  note f = flat_facts [OF inv all this] and t = table_okD [OF tab(1)]
  have tr: "trie_inv M0 m0 (\<lambda>_. []) S" and fr: "um_fresh m = um_fresh m0" using inv by (auto simp: flat_inv_def)
  have cell: "\<exists>u0. um_heap m0 b = Some u0 \<and> u = u0\<lparr>us_refs := of_nat (count_list vec (Some b))\<rparr> \<and> b < um_fresh m \<and> cell_ok M0 (\<lambda>_. []) b u0"
    if "um_heap m b = Some u" for b u
    using that f(3) [of b] trie_invD(4) [OF tr, of b] fr by auto
  have np: "\<not> Uset_promoted u" if "um_heap m b = Some u" for b u
    using cell [OF that] by (auto simp: Uset_promoted_def cell_ok_def)
  then show "\<not> is_promoted m a" by (auto simp: is_promoted_def)
  have dom: "dom (um_heap m) = dom (um_heap m0)" using f(3) by (auto simp: dom_def)
  have cnt: "unat (of_nat (count_list vec x) :: u32) = count_list vec x" for x
    using count_le_length [of vec x] f(1) top by (simp add: unat_of_nat take_bit_nat_eq_self)
  have "Usets_inv m s (fact_refs vec [])"
    unfolding Usets_inv_def
  proof (intro conjI allI ballI impI)
    show "distinct (ut_usets s)" "set (ut_usets s) = dom (um_heap m)" using t(1) tab(2) dom by auto
    show "b < um_fresh m" if "b \<in> dom (um_heap m)" for b using that cell by auto
    show "fact_refs vec [] b = 0" if "b \<notin> dom (um_heap m)" for b
    proof -
      have "Some b \<notin> set vec"
      proof
        assume "Some b \<in> set vec"
        then obtain k where "k < L" "vec ! k = Some b" using f(1) by (metis in_set_conv_nth)
        then show False using f(2) [of k] that dom by auto
      qed
      then show ?thesis by (simp add: fact_refs_def count_list_0_iff)
    qed
  next
    fix b u
    assume u: "um_heap m b = Some u"
    obtain u0 where u0: "um_heap m0 b = Some u0" "u = u0\<lparr>us_refs := of_nat (count_list vec (Some b))\<rparr>" "cell_ok M0 (\<lambda>_. []) b u0"
      using cell [OF u] by blast
    show "canonical (us_exp u)" using u0 by (auto simp: canonical_def cell_ok_def)
    show "unat (us_refs u) = fact_refs vec [] b + (if Uset_promoted u then 1 else 0)"
      using np [OF u] cnt u0(2) by (simp add: fact_refs_def)
    have "count_list vec (Some b) \<noteq> 0" using f(4) [OF u0(1)] by (simp add: count_list_0_iff)
    then have "(of_nat (count_list vec (Some b)) :: u32) \<noteq> 0" using cnt [of "Some b"] by (metis unat_0)
    then show "us_refs u \<noteq> 0" by (simp add: u0(2))
    fix c v
    assume v: "um_heap m c = Some v" "us_exp u = us_exp v"
    obtain v0 where v0: "um_heap m0 c = Some v0" "us_exp v0 = us_exp v" using cell [OF v(1)] by auto
    have "us_exp u0 = us_exp v0" using u0(2) v(2) v0(2) by simp
    then show "b = c" using t(3) u0(1) v0(1) tab(2) unfolding uniq_sets_def by blast
  next
    show "ids_ok m s" using t(4-6) np by (auto simp: ids_ok_def)
  qed
  moreover have "(\<exists>A. A \<noteq> {} \<and> us_exp u = \<lparr>se_op = Or, se_set = rep A\<rparr>) \<and> us_ptr u = PNull" if "um_heap m b = Some u" for b u
    using cell [OF that] by (auto simp: cell_ok_def)
  then have "own_sets_ok m" "links_null m []" by (simp_all add: own_sets_ok_def links_null_def)
  ultimately show "own_inv st []" using f(1) top by (simp add: own_inv_def st_def)
  have un: "units_of m b = units_of m0 b" for b using f(3) [of b] by (auto simp: units_of_def split: option.splits)
  show "owners st = S"
  proof
    fix k
    show "owners st k = S k"
    proof (cases "k < L")
      case True
      obtain v where "vec ! k = v" "S k = units_opt m0 v" using f(2) [OF True] by blast
      then show ?thesis using True f(1) un by (cases v) (simp_all add: owners_def st_def)
    next
      case False
      then show ?thesis using all f(1) by (auto simp: owners_def st_def)
    qed
  qed
qed

lemma Trie_flatten_ok:
  assumes "collected n S trie m s"
  shows "\<exists>vec m'. Trie_flatten trie m = ok (vec, m') \<and>
    own_inv \<lparr>os_facts = vec, os_mem = m', os_usets = s, os_touched = []\<rparr> [] \<and>
    owners \<lparr>os_facts = vec, os_mem = m', os_usets = s, os_touched = []\<rparr> = S \<and> (\<forall>a. \<not> is_promoted m' a) \<and>
    length vec = (if tr_maxkey trie < tr_minkey trie then 0 else unat (tr_maxkey trie) + 1)"
proof -
  let ?M = "leaves (tr_trees trie)" and ?K = "{unat (tr_minkey trie) .. unat (tr_maxkey trie)}"
  define L where "L = (if tr_maxkey trie < tr_minkey trie then 0 else unat (tr_maxkey trie) + 1)"
  note c = assms [unfolded collected_def trie_ok_def trees_inv_def]
  have tr: "trie_inv ?M m (\<lambda>_. []) S" using c by blast
  have all: "\<forall>k. S k \<noteq> {} \<longrightarrow> k \<in> {L..} \<union> ?K \<and> k < L" using c by (auto simp: L_def word_less_nat_alt)
  have top: "L + 4 < 2 ^ 32" using c by (simp add: L_def)
  have "unvisited ?M L {L..} a = vals ?M a" for a by (auto simp: unvisited_def)
  moreover have "count_list (replicate L None) (Some a) = 0" for a :: uaddr by (simp add: count_list_0_iff)
  moreover have "u\<lparr>us_refs := of_nat (card (vals ?M a))\<rparr> = u" if "um_heap m a = Some u" for a u
    using trie_invD(4) [OF tr that] by (cases u) (simp add: cell_ok_def held_def)
  ultimately have start: "flat_inv S ?M m L ?M (replicate L None, m) {L..}"
    unfolding flat_inv_def using tr by (auto simp: flat_refs_def intro!: option.expand option.map_ident_strong [symmetric])
  have "\<exists>vec m'. Trie_flatten trie m = ok (vec, m') \<and> flat_inv S ?M m L ?M (vec, m') ({L..} \<union> ?K)"
  proof (cases "tr_maxkey trie < tr_minkey trie")
    case True
    then have "?K = {}" "L = 0" by (auto simp: L_def word_less_nat_alt)
    then show ?thesis using start True by (simp add: Trie_flatten_def)
  next
    case False
    then have L: "L = unat (tr_maxkey trie) + 1" by (simp add: L_def)
    obtain trees' st' where v: "traverse_all flatten_leaf trie (replicate L None, m) = ok (trie\<lparr>tr_trees := trees'\<rparr>, st')"
        "flat_inv S ?M m L (leaves trees') st' ({L..} \<union> ?K)"
      using flat.visit_all [OF start] c L by auto
    obtain vec m' where "st' = (vec, m')" by (cases st')
    then have "flat_inv S ?M m L ?M (vec, m') ({L..} \<union> ?K)" using v(2) by (simp add: flat_inv_def)
    then show ?thesis using v(1) False L \<open>st' = (vec, m')\<close> by (simp add: Trie_flatten_def)
  qed
  then obtain vec m' where r: "Trie_flatten trie m = ok (vec, m')" "flat_inv S ?M m L ?M (vec, m') ({L..} \<union> ?K)" by blast
  have tab: "table_ok n m s" "set (ut_usets s) = dom (um_heap m)" using c by auto
  have "L \<le> 2 ^ 32" using top by simp
  then show ?thesis using flat_own [OF r(2) all top tab] r(1) flat_facts(1) [OF r(2) all] unfolding L_def by auto
qed

section \<open>The whole computation\<close>

lemma fold_max_word: "x \<in> set xs \<Longrightarrow> x \<le> fold max xs (n :: u32)"
  unfolding Max.set_eq_fold [symmetric] by (rule Max_ge) auto

context elias_fano
begin

lemma computeOwnership_ok:
  assumes units: "sorted (map ou_unit iter)" "\<forall>d\<in>set iter. ranges_ok (ou_ids d)"
    and fs: "fs = enumerateBack lookup (of_nat (owned_bound iter)) WordId_invalid" "back_ok inventory (owned_bound iter) fs"
    and room: "unat (fold max (map ou_unit iter) 0) + length fs + 2 < 2 ^ 32"
  shows "\<exists>c. computeOwnership F inventory lookup iter = Some (ok c) \<and> computed_ok content c \<and>
    (\<forall>f\<in>set fs. unat WordId_lowest \<le> unat (ref_id f) \<longrightarrow>
      packed_owner content c (unat (ref_id f)) (closure (ref_rel inventory fs) (unit_owners iter) (unat (ref_id f))))"
proof -
  let ?n = "fold max (map ou_unit iter) 0"
  obtain trie m where f: "fillOwnership iter = Some (ok ((trie, m), ?n + 1))" "trie_ok trie m (unit_owners iter)" "trie_bound trie (owned_bound iter)"
    using fillOwnership_ok [OF units] by blast
  obtain trie' m' s where c: "collectUsets (?n + 1) trie m = ok (trie', m', s)" "collected (?n + 1) (unit_owners iter) trie' m' s"
      "tr_minkey trie' = tr_minkey trie" "tr_maxkey trie' = tr_maxkey trie"
    using collectUsets_ok [OF f(2)] by blast
  obtain vec m2 where v: "Trie_flatten trie' m' = ok (vec, m2)"
      "own_inv \<lparr>os_facts = vec, os_mem = m2, os_usets = s, os_touched = []\<rparr> []"
      "owners \<lparr>os_facts = vec, os_mem = m2, os_usets = s, os_touched = []\<rparr> = unit_owners iter" "\<forall>a. \<not> is_promoted m2 a"
      "length vec = (if tr_maxkey trie' < tr_minkey trie' then 0 else unat (tr_maxkey trie') + 1)"
    using Trie_flatten_ok [OF c(2)] by blast
  let ?st = "\<lparr>os_facts = vec, os_mem = m2, os_usets = s, os_touched = []\<rparr>"
  have "(0 :: u64) < - 1" by (simp add: word_neq_0_conv [symmetric])
  then have len: "length vec = owned_bound iter" using v(5) f(3) c(3,4) by (auto simp: trie_bound_def)
  have "unat ?n + 1 < 2 ^ 32" using room by simp
  then have n1: "unat (?n + 1) = unat ?n + 1" by (subst unat_word_ariths) simp
  have nx: "ut_nextId s = ?n + 1" using c(2) by (simp add: collected_def table_ok_def)
  have "- 1 \<notin> unit_owners iter k" for k
  proof
    assume "- 1 \<in> unit_owners iter k"
    then have "- 1 \<le> ?n" using fold_max_word [of "- 1" "map ou_unit iter" 0] by (auto simp: unit_owners_def)
    then have "unat (- 1 :: u32) \<le> unat ?n" by (simp only: word_le_nat_alt)
    moreover have "unat (- 1 :: u32) = 2 ^ 32 - 1" by (simp add: unsigned_minus_1_eq_mask mask_eq_exp_minus_1)
    ultimately show False using room by simp
  qed
  then obtain co where co: "finish_ownership F inventory lookup ?st = Some (ok co)" "computed_ok content co"
      "\<forall>f\<in>set fs. unat WordId_lowest \<le> unat (ref_id f) \<longrightarrow>
        packed_owner content co (unat (ref_id f)) (closure (ref_rel inventory fs) (owners ?st) (unat (ref_id f)))"
    using finish_ownership_ok [OF v(2), of fs lookup inventory] v(3,4) fs len nx n1 room by auto
  have "computeOwnership F inventory lookup iter = Some (ok co)"
    using f(1) c(1) v(1) co(1) by (simp add: computeOwnership_def)
  then show ?thesis using co(2,3) v(3) by auto
qed

end

section \<open>Properties\<close>

definition own_inventory :: Inventory where
  "own_inventory = Inventory_of
     [no_predicate\<lparr>pred_id := 5, traverser := (\<lambda>c. [])\<rparr>,
      no_predicate\<lparr>pred_id := 7, traverser := (\<lambda>c. if Clause_key c = [1, 1] then [(1024, 7), (1025, 5)] else [])\<rparr>]"

definition own_units :: "OwnershipUnit list" where
  "own_units =
     [\<lparr>ou_unit = 1, ou_ids = [\<lparr>ids_start = 1026, ids_finish = 1026\<rparr>]\<rparr>,
      \<lparr>ou_unit = 4, ou_ids = [\<lparr>ids_start = 1025, ids_finish = 1026\<rparr>]\<rparr>]"

lemma own_units_ok: "sorted (map ou_unit own_units)" "\<forall>d\<in>set own_units. ranges_ok (ou_ids d)" "owned_bound own_units = 1027"
  "fold max (map ou_unit own_units) 0 = 4"
  by (simp_all add: own_units_def ranges_ok_def owned_bound_def)

lemma own_predicates:
  "lookupPredicate own_inventory 5 = Some (no_predicate\<lparr>pred_id := 5, traverser := (\<lambda>c. [])\<rparr>)"
  "lookupPredicate own_inventory 7 =
     Some (no_predicate\<lparr>pred_id := 7, traverser := (\<lambda>c. if Clause_key c = [1, 1] then [(1024, 7), (1025, 5)] else [])\<rparr>)"
  unfolding own_inventory_def by (subst lookup_Inventory_of; auto simp: WordId_invalid_def)+

lemma own_facts:
  assumes "lookup_contract L (FactSet_facts sample_set)"
  obtains r3 r2 r1 where "enumerateBack L 1027 WordId_invalid = [r3, r2, r1]"
    "ref_id r3 = 1026" "ref_id r2 = 1025" "ref_id r1 = 1024"
    "refs_of own_inventory r3 = [1024, 1025]" "refs_of own_inventory r2 = []" "refs_of own_inventory r1 = []"
    "\<forall>r\<in>{r1, r2, r3}. lookupPredicate own_inventory (ref_type r) \<noteq> None"
proof -
  let ?e = "enumerateBack L 1027 WordId_invalid"
  have "map Ref_view ?e = rev (facts_between (FactSet_facts sample_set) WordId_invalid 1027)"
    by (rule lookup_contract.enumerateBack [OF assms])
  also have "\<dots> = rev (FactSet_facts sample_set)"
    by (simp add: facts_between_def sample_set_facts WordId_invalid_def WordId_bool_def)
  finally have "map Ref_view ?e = rev (FactSet_facts sample_set)" .
  then obtain r3 r2 r1 where e: "?e = [r3, r2, r1]" "Ref_view r3 = \<lparr>a_id = 1026, a_type = 7, a_key = [1, 1], a_value = []\<rparr>"
      "Ref_view r2 = \<lparr>a_id = 1025, a_type = 5, a_key = [1], a_value = []\<rparr>"
      "Ref_view r1 = \<lparr>a_id = 1024, a_type = 7, a_key = [1, 2], a_value = [9]\<rparr>"
    by (auto simp: sample_set_facts map_eq_Cons_conv)
  show thesis
    by (rule that [OF e(1)]) (use e(2-4) in \<open>auto simp: Ref_view_def Ref_key_def refs_of_def own_predicates\<close>)
qed

lemma own_case:
  assumes "lookup_contract L (FactSet_facts sample_set)"
  obtains fs f where "fs = enumerateBack L (of_nat (owned_bound own_units)) WordId_invalid"
    "back_ok own_inventory (owned_bound own_units) fs" "unat (fold max (map ou_unit own_units) 0) + length fs + 2 < 2 ^ 32"
    "f \<in> set fs" "ref_id f = 1024"
    "{ou_unit d |d j. d \<in> set own_units \<and> j \<in> keys (ou_ids d) \<and> (j, 1024) \<in> (ref_rel own_inventory fs)\<^sup>*} = {1, 4}"
proof -
  obtain r3 r2 r1 where r: "enumerateBack L 1027 WordId_invalid = [r3, r2, r1]"
    "ref_id r3 = 1026" "ref_id r2 = 1025" "ref_id r1 = 1024"
    "refs_of own_inventory r3 = [1024, 1025]" "refs_of own_inventory r2 = []" "refs_of own_inventory r1 = []"
    "\<forall>r\<in>{r1, r2, r3}. lookupPredicate own_inventory (ref_type r) \<noteq> None"
    by (rule own_facts [OF assms])
  have "(unat (ref_id r3), unat (1024 :: Id)) \<in> ref_rel own_inventory [r3, r2, r1]"
    unfolding ref_rel_def using r(5) by force
  then have "(1026, 1024) \<in> ref_rel own_inventory [r3, r2, r1]" using r(2) by simp
  then have reach: "(1026, 1024) \<in> (ref_rel own_inventory [r3, r2, r1])\<^sup>*" by blast
  have k: "\<forall>d\<in>set own_units. 1026 \<in> keys (ou_ids d)" by (simp add: own_units_def keys_def)
  have "{ou_unit d |d j. d \<in> set own_units \<and> j \<in> keys (ou_ids d) \<and> (j, 1024) \<in> (ref_rel own_inventory [r3, r2, r1])\<^sup>*} =
      ou_unit ` set own_units" using reach k by blast
  also have "\<dots> = {1, 4}" by (auto simp: own_units_def)
  finally show thesis
    by (intro that [of "[r3, r2, r1]" r1]) (use r(1-4) r(5-8) in \<open>auto simp: back_ok_def own_units_ok\<close>)
qed



end
