(* ===== verification/Rocks_Store.thy ===== *)
theory Rocks_Store
  imports Fact_Set
begin

text \<open>
  RocksDB as \<^verbatim>\<open>rocksdb/rocksdb.cpp\<close> uses it. The library is not part of the repository: \<open>Rocks\<close> holds
  its operations and \<open>rocks_store\<close> states what its documentation promises of them. A column family maps
  keys to values; a batch of puts is written as a whole; an iterator goes through the entries of the
  family at the time it was made, in the order of the keys, inside its bounds. A status other than
  ok or not-found makes every operation raise an error at once; this is left out.
\<close>

section \<open>The interface\<close>

datatype Family = F_admin | F_entities | F_keys | F_stats | F_meta | F_ownershipUnits | F_ownershipRaw
  | F_ownershipDerivedRaw | F_ownershipSets | F_factOwners

type_synonym puts = "(Family \<times> bytes \<times> bytes) list"

text \<open>
  An iterator is the list of the entries it yields: from the first one, from the first key that is not
  less than a target up to a bound, or backwards from the last key that is not greater than a target.
  Clearing a family drops it and creates it again.
\<close>

record 's Rocks =
  rk_clear :: "Family \<Rightarrow> 's \<Rightarrow> 's"
  rk_get :: "'s \<Rightarrow> Family \<Rightarrow> bytes \<Rightarrow> bytes option"
  rk_write :: "puts \<Rightarrow> 's \<Rightarrow> 's"
  rk_first :: "'s \<Rightarrow> Family \<Rightarrow> (bytes \<times> bytes) list"
  rk_seek :: "'s \<Rightarrow> Family \<Rightarrow> bytes option \<Rightarrow> bytes \<Rightarrow> (bytes \<times> bytes) list"
  rk_seekForPrev :: "'s \<Rightarrow> Family \<Rightarrow> bytes option \<Rightarrow> bytes \<Rightarrow> (bytes \<times> bytes) list"

definition put_all :: "puts \<Rightarrow> Family \<Rightarrow> (bytes \<rightharpoonup> bytes) \<Rightarrow> bytes \<rightharpoonup> bytes" where
  "put_all ps f m = fold (\<lambda>(g, k, v) m. if g = f then m(k \<mapsto> v) else m) ps m"

locale rocks_store =
  fixes K :: "'s Rocks" and content :: "'s \<Rightarrow> Family \<Rightarrow> bytes \<rightharpoonup> bytes"
  assumes get: "rk_get K s f k = content s f k"
    and written: "content (rk_write K ps s) f = put_all ps f (content s f)"
    and cleared: "content (rk_clear K f s) g = (if g = f then Map.empty else content s g)"
    and first_sorted: "sorted_wrt (<) (map fst (rk_first K s f))"
    and first_content: "map_of (rk_first K s f) = content s f"
    and seek: "rk_seek K s f ub start =
      filter (\<lambda>(k, v). start \<le> k \<and> (case ub of None \<Rightarrow> True | Some u \<Rightarrow> k < u)) (rk_first K s f)"
    and seekForPrev: "rk_seekForPrev K s f lb start =
      rev (filter (\<lambda>(k, v). k \<le> start \<and> (case lb of None \<Rightarrow> True | Some l \<Rightarrow> l \<le> k)) (rk_first K s f))"
begin

text \<open>The entries of a family are determined by its content.\<close>

lemma first_unique:
  assumes "sorted_wrt (<) (map fst xs)" "content s f = map_of xs"
  shows "rk_first K s f = xs"
proof -
  have d: "distinct (map fst (rk_first K s f))" "distinct (map fst xs)"
    using first_sorted [of s f] assms(1) by (auto simp: strict_sorted_iff)
  have "set (rk_first K s f) = set xs"
    using map_of_eq_Some_iff [OF d(1)] map_of_eq_Some_iff [OF d(2)] first_content [of s f] assms(2)
    by (auto simp: set_eq_iff)
  moreover have "inj_on fst (set (rk_first K s f) \<union> set xs)" using d(2) calculation by (simp add: distinct_map)
  ultimately show ?thesis
    using map_sorted_distinct_set_unique [of fst "rk_first K s f" xs] d first_sorted [of s f] assms(1)
    by (simp add: strict_sorted_iff)
qed

end

section \<open>An implementation\<close>

text \<open>The store as the log of all puts.\<close>

definition insert_entry :: "bytes \<Rightarrow> bytes \<Rightarrow> (bytes \<times> bytes) list \<Rightarrow> (bytes \<times> bytes) list" where
  "insert_entry k v xs = filter (\<lambda>(j, w). j < k) xs @ (k, v) # filter (\<lambda>(j, w). k < j) xs"

definition log_entries :: "puts \<Rightarrow> Family \<Rightarrow> (bytes \<times> bytes) list" where
  "log_entries s f = fold (\<lambda>(g, k, v) xs. if g = f then insert_entry k v xs else xs) s []"

definition log_rocks :: "puts Rocks" where
  "log_rocks = \<lparr>rk_clear = (\<lambda>f. filter (\<lambda>(g, k, v). g \<noteq> f)), rk_get = (\<lambda>s f. map_of (log_entries s f)), rk_write = (\<lambda>ps s. s @ ps), rk_first = log_entries,
     rk_seek = (\<lambda>s f ub start. filter (\<lambda>(k, v). start \<le> k \<and> (case ub of None \<Rightarrow> True | Some u \<Rightarrow> k < u)) (log_entries s f)),
     rk_seekForPrev = (\<lambda>s f lb start.
       rev (filter (\<lambda>(k, v). k \<le> start \<and> (case lb of None \<Rightarrow> True | Some l \<Rightarrow> l \<le> k)) (log_entries s f)))\<rparr>"

lemma insert_entry_sorted: "sorted_wrt (<) (map fst xs) \<Longrightarrow> sorted_wrt (<) (map fst (insert_entry k v xs))"
  by (auto simp: insert_entry_def sorted_wrt_append sorted_wrt_map sorted_wrt_filter)

lemma map_of_insert_entry: "sorted_wrt (<) (map fst xs) \<Longrightarrow> map_of (insert_entry k v xs) = (map_of xs)(k \<mapsto> v)"
proof -
  assume s: "sorted_wrt (<) (map fst xs)"
  have d: "distinct (map fst xs)" "distinct (map fst (insert_entry k v xs))"
    using s insert_entry_sorted [OF s] by (auto simp: strict_sorted_iff)
  show ?thesis
  proof
    fix j
    show "map_of (insert_entry k v xs) j = ((map_of xs)(k \<mapsto> v)) j"
    proof (cases "j = k")
      case True
      then show ?thesis using map_of_is_SomeI [OF d(2), of k v] by (simp add: insert_entry_def)
    next
      case False
      have "(j, w) \<in> set (insert_entry k v xs) \<longleftrightarrow> (j, w) \<in> set xs" for w
        using False by (auto simp: insert_entry_def)
      then have "map_of (insert_entry k v xs) j = Some w \<longleftrightarrow> map_of xs j = Some w" for w
        using map_of_eq_Some_iff [OF d(1)] map_of_eq_Some_iff [OF d(2)] by simp
      then show ?thesis using False by (metis fun_upd_other not_None_eq)
    qed
  qed
qed

lemma log_entries_sorted: "sorted_wrt (<) (map fst (log_entries s f))"
proof -
  have "sorted_wrt (<) (map fst xs) \<Longrightarrow>
      sorted_wrt (<) (map fst (fold (\<lambda>(g, k, v) xs. if g = f then insert_entry k v xs else xs) s xs))" for xs
    by (induction s arbitrary: xs) (auto simp: insert_entry_sorted)
  then show ?thesis by (simp add: log_entries_def)
qed

lemma log_entries_append: "map_of (log_entries (s @ ps) f) = put_all ps f (map_of (log_entries s f))"
proof -
  have "sorted_wrt (<) (map fst xs) \<Longrightarrow>
      map_of (fold (\<lambda>(g, k, v) xs. if g = f then insert_entry k v xs else xs) ps xs) = put_all ps f (map_of xs)" for xs
    by (induction ps arbitrary: xs) (auto simp: put_all_def insert_entry_sorted map_of_insert_entry)
  from this [OF log_entries_sorted, of s] show ?thesis by (simp add: log_entries_def)
qed

lemma log_entries_clear: "log_entries (filter (\<lambda>(g, k, v). g \<noteq> f) s) h = (if h = f then [] else log_entries s h)"
proof -
  have "fold (\<lambda>(g, k, v) xs. if g = h then insert_entry k v xs else xs) (filter (\<lambda>(g, k, v). g \<noteq> f) s) xs =
      (if h = f then xs else fold (\<lambda>(g, k, v) xs. if g = h then insert_entry k v xs else xs) s xs)" for xs
    by (induction s arbitrary: xs) auto
  then show ?thesis by (simp add: log_entries_def)
qed

interpretation log_store: rocks_store log_rocks "\<lambda>s f. map_of (log_entries s f)"
  by unfold_locales (simp_all add: log_rocks_def log_entries_sorted log_entries_append log_entries_clear)

end
