(* ===== verification/Rocks_Database.thy ===== *)
theory Rocks_Database
  imports Rocks_Store Usets
begin

text \<open>
  The fact database of \<^verbatim>\<open>rocksdb/rocksdb.cpp\<close>: \<^verbatim>\<open>DatabaseImpl\<close> as a \<^verbatim>\<open>Lookup\<close>, the iterators over it and
  \<^verbatim>\<open>commit\<close>. Assertions are modelled as checks. Statistics are read through hazard pointers
  (\<^verbatim>\<open>rocksdb/stats.cpp\<close>); readers see a whole map, so they are a plain field here.
\<close>

section \<open>State\<close>

type_synonym PredicateStats = "MemoryStats DenseMap"

record 's Database =
  db_version :: u64
  db_open :: bool
  db_store :: 's
  db_starting_id :: Id
  db_next_id :: Id
  db_stats :: PredicateStats
  db_unit_counters :: "u64 list"
  db_derived_counters :: "u64 \<rightharpoonup> u64"
  db_mem :: UsetMem
  db_usets :: Usets

definition requireOpen :: "'s Database \<Rightarrow> unit result" where
  "requireOpen db = guard (db_open db) (RtsError ''rocksdb: database is closed'')"

definition Database_close :: "'s Database \<Rightarrow> 's Database" where
  "Database_close db = db\<lparr>db_open := False\<rparr>"

definition writeData :: "'s Rocks \<Rightarrow> bytes \<Rightarrow> bytes \<Rightarrow> 's Database \<Rightarrow> 's Database result" where
  "writeData K key value db =
     rbind (requireOpen db) (\<lambda>_. ok (db\<lparr>db_store := rk_write K [(F_meta, key, value)] (db_store db)\<rparr>))"

definition readData :: "'s Rocks \<Rightarrow> bytes \<Rightarrow> 's Database \<Rightarrow> bytes option result" where
  "readData K key db = rbind (requireOpen db) (\<lambda>_. ok (rk_get K (db_store db) F_meta key))"

text \<open>
  \<^verbatim>\<open>optimize\<close> empties the families that are only needed while the database is written. Compaction does
  not change what a family holds.
\<close>

definition families :: "Family list" where
  "families = [F_admin, F_entities, F_keys, F_stats, F_meta, F_ownershipUnits, F_ownershipRaw, F_ownershipDerivedRaw,
     F_ownershipSets, F_factOwners]"

definition Family_keep :: "Family \<Rightarrow> bool" where
  "Family_keep f \<longleftrightarrow> f \<noteq> F_ownershipRaw \<and> f \<noteq> F_ownershipDerivedRaw"

definition optimize :: "'s Rocks \<Rightarrow> 's Database \<Rightarrow> 's Database" where
  "optimize K db = db\<lparr>db_store := fold (\<lambda>f s. if Family_keep f then s else rk_clear K f s) families (db_store db)\<rparr>"

section \<open>Administrative values and statistics\<close>

datatype AdminId = NEXT_ID | VERSION | STARTING_ID

definition AdminId_code :: "AdminId \<Rightarrow> u32" where
  "AdminId_code i = (case i of NEXT_ID \<Rightarrow> 0 | VERSION \<Rightarrow> 1 | STARTING_ID \<Rightarrow> 2)"

definition admin_names :: "AdminId \<Rightarrow> string" where
  "admin_names i = (case i of NEXT_ID \<Rightarrow> ''NEXT_ID'' | VERSION \<Rightarrow> ''VERSION'' | STARTING_ID \<Rightarrow> ''STARTING_ID'')"

definition getAdminValue :: "'s Rocks \<Rightarrow> AdminId \<Rightarrow> u64 \<Rightarrow> bool \<Rightarrow> unit result \<Rightarrow> 's \<Rightarrow> (u64 \<times> 's) result" where
  "getAdminValue K i def write notFound s =
     (let key = storeLE (AdminId_code i) in
      case rk_get K s F_admin key of
        Some val \<Rightarrow>
          rbind (Input_fixed val) (\<lambda>(r, rest).
          if rest \<noteq> [] then raise (RtsError (''corrupt database - invalid '' @ admin_names i)) else ok (r, s))
      | None \<Rightarrow> rbind notFound (\<lambda>_. ok (def, if write then rk_write K [(F_admin, key, storeLE def)] s else s)))"

text \<open>The two counters as they lie in memory.\<close>

definition MemoryStats_bytes :: "MemoryStats \<Rightarrow> bytes" where
  "MemoryStats_bytes m = storeLE (ms_count m) @ storeLE (ms_memory m)"

definition MemoryStats_from :: "bytes \<Rightarrow> MemoryStats result" where
  "MemoryStats_from bs =
     rbind (guard (length bs = 16) CheckFailed) (\<lambda>_. ok \<lparr>ms_count = loadLE (take 8 bs), ms_memory = loadLE (drop 8 bs)\<rparr>)"

definition load_stat :: "bytes \<times> bytes \<Rightarrow> PredicateStats \<Rightarrow> PredicateStats result" where
  "load_stat = (\<lambda>(k, v) stats.
     rbind (Input_fixed k) (\<lambda>(pid, rest).
     rbind (MemoryStats_from v) (\<lambda>m.
     rbind (guard (rest = []) CheckFailed) (\<lambda>_.
     ok (DenseMap_assign (DenseMap_at MemoryStats_zero stats pid) pid m)))))"

definition loadStats :: "'s Rocks \<Rightarrow> 's \<Rightarrow> PredicateStats result" where
  "loadStats K s = rfold load_stat (rk_first K s F_stats) DenseMap_new"

definition stats_count :: "PredicateStats \<Rightarrow> Pid \<Rightarrow> u64" where
  "stats_count stats pid = (case DenseMap_lookup stats pid of Some m \<Rightarrow> ms_count m | None \<Rightarrow> 0)"

definition Database_count :: "'s Database \<Rightarrow> Pid \<Rightarrow> Interval" where
  "Database_count db pid = Interval_of (stats_count (db_stats db) pid)"

section \<open>Point queries\<close>

text \<open>Databases up to version 2 have the bytes of the id itself as keys.\<close>

definition legacy :: "'s Database \<Rightarrow> bool" where
  "legacy db \<longleftrightarrow> sint (db_version db) \<le> 2"

definition entity_key :: "'s Database \<Rightarrow> Id \<Rightarrow> bytes" where
  "entity_key db i = (if legacy db then storeLE i else storeNat i)"

definition Database_idByKey :: "'s Rocks \<Rightarrow> 's Database \<Rightarrow> Pid \<Rightarrow> bytes \<Rightarrow> Id result" where
  "Database_idByKey K db type key =
     (if hi (Database_count db type) = 0 then ok WordId_invalid
      else
        rbind (requireOpen db) (\<lambda>_.
        case rk_get K (db_store db) F_keys (storeLE type @ key) of
          None \<Rightarrow> ok WordId_invalid
        | Some out \<Rightarrow> rbind (Input_fixed out) (\<lambda>(i, rest). rbind (guard (rest = []) CheckFailed) (\<lambda>_. ok i))))"

definition lookupById :: "'s Rocks \<Rightarrow> 's Database \<Rightarrow> Id \<Rightarrow> bytes option" where
  "lookupById K db i =
     (if i < db_starting_id db \<or> i \<ge> db_next_id db then None
      else rk_get K (db_store db) F_entities (entity_key db i))"

definition decomposeFact :: "varint_dec \<Rightarrow> Id \<Rightarrow> bytes \<Rightarrow> Ref result" where
  "decomposeFact dec i data =
     rbind (Input_packed dec data) (\<lambda>(ty, inp).
     rbind (Input_packed dec inp) (\<lambda>(ks :: u32, inp).
     rbind (Input_rest inp) (\<lambda>(bs, _).
     ok \<lparr>ref_id = i, ref_type = ty, ref_clause = Clause_from bs (ucast ks)\<rparr>)))"

definition Database_typeById :: "'s Rocks \<Rightarrow> varint_dec \<Rightarrow> 's Database \<Rightarrow> Id \<Rightarrow> Pid result" where
  "Database_typeById K dec db i =
     rbind (requireOpen db) (\<lambda>_.
     case lookupById K db i of
       Some val \<Rightarrow> rbind (Input_packed dec val) (\<lambda>(ty, _). ok ty)
     | None \<Rightarrow> ok WordId_invalid)"

definition Database_factById :: "'s Rocks \<Rightarrow> varint_dec \<Rightarrow> 's Database \<Rightarrow> Id \<Rightarrow> (Pid \<times> Clause) option result" where
  "Database_factById K dec db i =
     rbind (requireOpen db) (\<lambda>_.
     case lookupById K db i of
       Some val \<Rightarrow> rbind (decomposeFact dec i val) (\<lambda>r. ok (Some (ref_type r, ref_clause r)))
     | None \<Rightarrow> ok None)"

section \<open>Iterators\<close>

fun rmap :: "('a \<Rightarrow> 'b result) \<Rightarrow> 'a list \<Rightarrow> 'b list result" where
  "rmap f [] = ok []"
| "rmap f (x # xs) = rbind (f x) (\<lambda>y. rbind (rmap f xs) (\<lambda>ys. ok (y # ys)))"

definition SeekIterator_get :: "'s Rocks \<Rightarrow> varint_dec \<Rightarrow> 's Database \<Rightarrow> Pid \<Rightarrow> Demand \<Rightarrow> bytes \<times> bytes \<Rightarrow> Ref result" where
  "SeekIterator_get K dec db type demand = (\<lambda>(k, v).
     rbind (Input_fixed k) (\<lambda>(ty, key).
     rbind (guard (ty = type) CheckFailed) (\<lambda>_.
     rbind (Input_fixed v) (\<lambda>(i, rest).
     rbind (guard (rest = []) CheckFailed) (\<lambda>_.
     if demand = KeyOnly then
       rbind (Input_rest key) (\<lambda>(bs, _). ok \<lparr>ref_id = i, ref_type = type, ref_clause = Clause_fromKey bs\<rparr>)
     else
       case lookupById K db i of
         None \<Rightarrow> raise CheckFailed
       | Some data \<Rightarrow> decomposeFact dec i data)))))"

definition Database_seek :: "'s Rocks \<Rightarrow> varint_dec \<Rightarrow> 's Database \<Rightarrow> Demand \<Rightarrow> Pid \<Rightarrow> bytes \<Rightarrow> nat \<Rightarrow> Ref list result" where
  "Database_seek K dec db demand type start n =
     rbind (guard (n \<le> length start) CheckFailed) (\<lambda>_.
     if hi (Database_count db type) = 0 then ok EmptyIterator
     else
       rbind (requireOpen db) (\<lambda>_.
       let out = storeLE type @ start;
           upper_bound = lexicographicallyNext (take (length (storeLE type) + n) out) in
       rmap (SeekIterator_get K dec db type demand) (rk_seek K (db_store db) F_keys (Some upper_bound) out)))"

datatype Direction = Forward | Backward

text \<open>The start and the end of an enumeration; an invalid start stands for an empty one.\<close>

definition Direction_bounds :: "Direction \<Rightarrow> Id \<Rightarrow> Id \<Rightarrow> Id \<Rightarrow> Id \<Rightarrow> Id \<times> Id" where
  "Direction_bounds d a b starting next =
     (case d of
        Forward \<Rightarrow>
          if a \<ge> next \<or> (WordId_bool b \<and> b \<le> starting) then (WordId_invalid, WordId_invalid)
          else (max a starting, if WordId_bool b \<and> b \<le> next then b else next)
      | Backward \<Rightarrow>
          if b \<ge> next \<or> (WordId_bool a \<and> a \<le> starting) then (WordId_invalid, WordId_invalid)
          else (WordId_minus (if WordId_bool a \<and> a \<le> next then a else next) 1, max b starting))"

definition Direction_advance :: "Direction \<Rightarrow> Id \<Rightarrow> Id" where
  "Direction_advance d i = (case d of Forward \<Rightarrow> WordId_plus i 1 | Backward \<Rightarrow> WordId_minus i 1)"

definition Direction_more :: "Direction \<Rightarrow> Id \<Rightarrow> Id \<Rightarrow> bool" where
  "Direction_more d current stop = (case d of Forward \<Rightarrow> current < stop | Backward \<Rightarrow> current \<ge> stop)"

text \<open>
  The loop over a \<^verbatim>\<open>LegacyEnumerateIterator\<close>, which looks up one id after the other: \<^verbatim>\<open>find\<close> skips the
  ids without a fact. Going backwards to 0 it would not end.
\<close>

partial_function (option) LegacyEnumerateIterator_loop ::
    "'s Rocks \<Rightarrow> varint_dec \<Rightarrow> 's Database \<Rightarrow> Direction \<Rightarrow> Id \<Rightarrow> Id \<Rightarrow> Ref list \<Rightarrow> Ref list result option" where
  "LegacyEnumerateIterator_loop K dec db d i stop rs =
     (if \<not> Direction_more d i stop then Some (ok rs)
      else case lookupById K db i of
        None \<Rightarrow> LegacyEnumerateIterator_loop K dec db d (Direction_advance d i) stop rs
      | Some data \<Rightarrow>
          (case decomposeFact dec i data of
             Inl e \<Rightarrow> Some (raise e)
           | Inr r \<Rightarrow> LegacyEnumerateIterator_loop K dec db d (Direction_advance d i) stop (rs @ [r])))"

declare LegacyEnumerateIterator_loop.simps [code]

definition EnumerateIterator_get :: "varint_dec \<Rightarrow> bytes \<times> bytes \<Rightarrow> Ref result" where
  "EnumerateIterator_get dec = (\<lambda>(k, v). rbind (loadTrustedNat k) (\<lambda>(i, _). decomposeFact dec i v))"

definition EnumerateIterator_items :: "'s Rocks \<Rightarrow> varint_dec \<Rightarrow> 's Database \<Rightarrow> Direction \<Rightarrow> Id \<Rightarrow> Id \<Rightarrow> Ref list result" where
  "EnumerateIterator_items K dec db d start bound =
     rmap (EnumerateIterator_get dec)
       ((case d of Forward \<Rightarrow> rk_seek K | Backward \<Rightarrow> rk_seekForPrev K) (db_store db) F_entities
         (Some (storeNat bound)) (storeNat start))"

definition makeEnumerateIterator :: "'s Rocks \<Rightarrow> varint_dec \<Rightarrow> 's Database \<Rightarrow> Direction \<Rightarrow> Id \<Rightarrow> Id \<Rightarrow> Ref list result option" where
  "makeEnumerateIterator K dec db d a b =
     (case requireOpen db of
        Inl e \<Rightarrow> Some (raise e)
      | Inr _ \<Rightarrow>
          (case Direction_bounds d a b (db_starting_id db) (db_next_id db) of (start, bound) \<Rightarrow>
             if \<not> WordId_bool start then Some (ok EmptyIterator)
             else if legacy db then LegacyEnumerateIterator_loop K dec db d start bound []
             else Some (EnumerateIterator_items K dec db d start bound)))"

section \<open>Committing\<close>

text \<open>The two entries of a fact and its contribution to the statistics.\<close>

definition commit_fact :: "varint_enc \<Rightarrow> 's Database \<Rightarrow> Ref \<Rightarrow> puts \<times> PredicateStats \<Rightarrow> (puts \<times> PredicateStats) result" where
  "commit_fact enc db fct = (\<lambda>(batch, stats).
     rbind (guard (ref_id fct \<ge> db_next_id db) CheckFailed) (\<lambda>_.
     let k1 = entity_key db (ref_id fct);
         v1 = enc (ref_type fct) @ enc (ucast (key_size (ref_clause fct))) @ Clause_bytes (ref_clause fct);
         k2 = storeLE (ref_type fct) @ Ref_key fct;
         v2 = storeLE (ref_id fct);
         mem = of_nat (length k1 + length v1 + length k2 + length v2);
         stats = DenseMap_at MemoryStats_zero stats (ref_type fct) in
     ok (batch @ [(F_entities, k1, v1), (F_keys, k2, v2)],
       DenseMap_assign stats (ref_type fct) (MemoryStats_plus (DenseMap_ref stats (ref_type fct)) (MemoryStats_one mem)))))"

definition Database_commit :: "'s Rocks \<Rightarrow> varint_enc \<Rightarrow> FactSet \<Rightarrow> 's Database \<Rightarrow> 's Database result" where
  "Database_commit K enc facts db =
     rbind (requireOpen db) (\<lambda>_.
     if FactSet_empty facts then ok db
     else if FactSet.starting_id facts < db_next_id db then raise (RtsError ''batch inserted out of sequence'')
     else
       rbind (rfold (commit_fact enc db) (FactSet_enumerate facts WordId_invalid WordId_invalid) ([], db_stats db))
         (\<lambda>(batch, new_stats).
       let first_free_id = FactSet_firstFreeId facts;
           batch = batch @ [(F_admin, storeLE (AdminId_code NEXT_ID), storeLE first_free_id)] in
       rbind (DenseMap_items new_stats) (\<lambda>items.
       let batch = batch @ map (\<lambda>(pid, m). (F_stats, storeLE pid, MemoryStats_bytes m))
             (filter (\<lambda>(pid, m). Some m \<noteq> DenseMap_lookup (db_stats db) pid) items) in
       ok (db\<lparr>db_store := rk_write K batch (db_store db), db_next_id := first_free_id, db_stats := new_stats\<rparr>))))"

end
