(* ===== verification/Rocks_Database_Correct.thy ===== *)
theory Rocks_Database_Correct
  imports Rocks_Database Stacked_Lookup
begin

text \<open>
  The database as a \<^verbatim>\<open>Lookup\<close>: what its column families hold for a list of facts, that every query
  then answers from that list, and that \<^verbatim>\<open>commit\<close> adds the facts of a batch to it.
\<close>

section \<open>The contents of the column families\<close>

definition entity_value :: "varint_enc \<Rightarrow> afact \<Rightarrow> bytes" where
  "entity_value enc a = enc (a_type a) @ enc (of_nat (length (a_key a))) @ a_key a @ a_value a"

definition index_key :: "afact \<Rightarrow> bytes" where
  "index_key a = storeLE (a_type a) @ a_key a"

definition fits :: "afact \<Rightarrow> bool" where
  "fits a \<longleftrightarrow> length (a_key a) + length (a_value a) < 2 ^ 32 \<and> DenseMap_key_ok (a_type a)"

definition of_type :: "Pid \<Rightarrow> afact list \<Rightarrow> nat" where
  "of_type t fs = length (filter (\<lambda>a. a_type a = t) fs)"

definition stats_ok :: "PredicateStats \<Rightarrow> afact list \<Rightarrow> bool" where
  "stats_ok stats fs \<longleftrightarrow> DenseMap_ok stats \<and> (\<forall>t. unat (stats_count stats t) = of_type t fs)"

definition db_inv :: "('s \<Rightarrow> Family \<Rightarrow> bytes \<rightharpoonup> bytes) \<Rightarrow> varint_enc \<Rightarrow> 's Database \<Rightarrow> afact list \<Rightarrow> bool" where
  "db_inv content enc db fs \<longleftrightarrow> db_open db \<and> facts_ok fs \<and> WordId_invalid < db_starting_id db \<and>
     db_starting_id db \<le> db_next_id db \<and>
     (\<forall>a\<in>set fs. db_starting_id db \<le> a_id a \<and> a_id a < db_next_id db \<and> fits a) \<and>
     content (db_store db) F_entities = map_of (map (\<lambda>a. (entity_key db (a_id a), entity_value enc a)) fs) \<and>
     content (db_store db) F_keys = map_of (map (\<lambda>a. (index_key a, storeLE (a_id a))) fs) \<and>
     stats_ok (db_stats db) fs"

lemma loadLE_store64 [simp]: "loadLE (storeLE (x :: u64)) = x" "loadLE (storeLE (x :: u64) @ r) = x"
  using loadLE_storeLE [where w = x and bs = "[]"] loadLE_storeLE [where w = x and bs = r] by simp_all

lemma storeLE_inject [simp]: "storeLE (x :: u64) = storeLE y \<longleftrightarrow> x = y"
  by (metis loadLE_store64(1))

lemma loadLE_store32 [simp]: "loadLE (storeLE (x :: u32)) = x" "loadLE (storeLE (x :: u32) @ r) = x"
  using loadLE_storeLE [where w = x and bs = "[]"] loadLE_storeLE [where w = x and bs = r] by simp_all

lemma storeLE_inject32 [simp]: "storeLE (x :: u32) = storeLE y \<longleftrightarrow> x = y"
  by (metis loadLE_store32(1))

lemma entity_key_inject [simp]: "entity_key db i = entity_key db j \<longleftrightarrow> i = j"
  by (simp add: entity_key_def)

lemma index_key_inject: "index_key a = index_key b \<longleftrightarrow> a_type a = a_type b \<and> a_key a = a_key b"
  by (simp add: index_key_def)

lemma map_of_find: "map_of (map (\<lambda>a. (f a, g a)) fs) k = map_option g (find (\<lambda>a. f a = k) fs)"
  by (induction fs) auto

lemma Input_fixed_store: "Input_fixed (storeLE (x :: u64) @ r) = ok (x, r)"
  by (simp add: Input_fixed_def Input_want_def)

lemma Input_fixed_store_Nil: "Input_fixed (storeLE (x :: u64)) = ok (x, [])"
  using Input_fixed_store [of x "[]"] by simp

lemma Input_rest_all [simp]: "Input_rest bs = ok (bs, [])"
  by (simp add: Input_rest_def Input_bytes_def Input_want_def)

lemma db_invD:
  assumes "db_inv content enc db fs"
  shows "db_open db" "facts_ok fs" "WordId_invalid < db_starting_id db" "db_starting_id db \<le> db_next_id db"
    "\<And>a. a \<in> set fs \<Longrightarrow> db_starting_id db \<le> a_id a \<and> a_id a < db_next_id db \<and> fits a"
    "content (db_store db) F_entities = map_of (map (\<lambda>a. (entity_key db (a_id a), entity_value enc a)) fs)"
    "content (db_store db) F_keys = map_of (map (\<lambda>a. (index_key a, storeLE (a_id a))) fs)"
    "stats_ok (db_stats db) fs"
  using assms by (simp_all add: db_inv_def)

text \<open>Enumerating one id at a time.\<close>

lemma facts_from:
  assumes "facts_ok fs" "i < stop"
  shows "filter (\<lambda>a. i \<le> a_id a \<and> a_id a < stop) fs =
    (case facts_by_id fs i of None \<Rightarrow> [] | Some a \<Rightarrow> [a]) @ filter (\<lambda>a. i < a_id a \<and> a_id a < stop) fs"
  using assms
proof (induction fs)
  case (Cons x xs)
  have ok: "facts_ok xs" and gt: "\<forall>y\<in>set xs. a_id x < a_id y" using Cons.prems(1) by (auto simp: facts_ok_def)
  note IH = Cons.IH [OF ok Cons.prems(2)]
  consider "a_id x = i" | "i < a_id x" | "a_id x < i" by fastforce
  then show ?case
  proof cases
    case 1
    then have "facts_by_id xs i = None" using gt by (auto simp: facts_by_id_None)
    then show ?thesis using 1 IH Cons.prems(2) by (simp add: facts_by_id_def)
  next
    case 2
    then have "facts_by_id (x # xs) i = None" using gt by (fastforce simp: facts_by_id_None)
    moreover have "i \<le> a_id y \<longleftrightarrow> i < a_id y" if "y \<in> set (x # xs)" for y using 2 gt that by fastforce
    ultimately show ?thesis by (auto intro!: filter_cong)
  next
    case 3
    then show ?thesis using IH by (auto simp: facts_by_id_def)
  qed
qed (simp add: facts_by_id_def)

lemma facts_upto:
  assumes "facts_ok fs" "stop \<le> i"
  shows "filter (\<lambda>a. a_id a \<le> i \<and> stop \<le> a_id a) fs =
    filter (\<lambda>a. a_id a < i \<and> stop \<le> a_id a) fs @ (case facts_by_id fs i of None \<Rightarrow> [] | Some a \<Rightarrow> [a])"
  using assms
proof (induction fs)
  case (Cons x xs)
  have ok: "facts_ok xs" and gt: "\<forall>y\<in>set xs. a_id x < a_id y" using Cons.prems(1) by (auto simp: facts_ok_def)
  note IH = Cons.IH [OF ok Cons.prems(2)]
  consider "a_id x = i" | "i < a_id x" | "a_id x < i" by fastforce
  then show ?case
  proof cases
    case 1
    then have "filter (\<lambda>a. a_id a \<le> i \<and> stop \<le> a_id a) xs = []" "filter (\<lambda>a. a_id a < i \<and> stop \<le> a_id a) xs = []"
      using gt by (fastforce simp: filter_empty_conv)+
    then show ?thesis using 1 Cons.prems(2) by (simp add: facts_by_id_def)
  next
    case 2
    then have "facts_by_id xs i = None" "filter (\<lambda>a. a_id a \<le> i \<and> stop \<le> a_id a) xs = []" "filter (\<lambda>a. a_id a < i \<and> stop \<le> a_id a) xs = []"
      using gt by (fastforce simp: filter_empty_conv facts_by_id_None)+
    then show ?thesis using 2 by (auto simp: facts_by_id_def)
  next
    case 3
    then show ?thesis using IH by (auto simp: facts_by_id_def)
  qed
qed (simp add: facts_by_id_def)

lemma le_minus_one: "0 < x \<Longrightarrow> y \<le> x - 1 \<longleftrightarrow> y < (x :: u64)"
proof -
  assume "0 < x"
  moreover from this have "unat (x - 1) = unat x - 1" by (simp only: unat_minus_one word_neq_0_conv)
  ultimately show ?thesis by (auto simp: word_le_nat_alt word_less_nat_alt)
qed

lemma lexicographicallyNext_NilD: "lexicographicallyNext p = [] \<Longrightarrow> b \<in> set p \<Longrightarrow> b = 0xFF"
  by (induction p) (auto simp: lexicographicallyNext_Cons split: if_splits)

lemma loadLE_ones: "loadLE (replicate 8 0xFF) = (- 1 :: u64)"
proof -
  have "replicate 8 (0xFF :: u8) = [0xFF, 0xFF, 0xFF, 0xFF, 0xFF, 0xFF, 0xFF, 0xFF]" by (simp add: numeral_eq_Suc)
  then show ?thesis by (simp add: loadLE_def be_nat_def)
qed

lemma prefix_storeLE: "prefix (storeLE (t :: u64) @ p) (storeLE u @ k) \<longleftrightarrow> t = u \<and> prefix p k"
proof
  assume "prefix (storeLE t @ p) (storeLE u @ k)"
  then obtain r where r: "storeLE u @ k = storeLE t @ p @ r" by (auto simp: prefix_def)
  then have "u = t" by (metis loadLE_store64(2))
  then show "t = u \<and> prefix p k" using r by simp
qed simp

lemma map_of_perm: "distinct (map fst xs) \<Longrightarrow> distinct (map fst ys) \<Longrightarrow> set xs = set ys \<Longrightarrow> map_of xs = map_of ys"
  by (rule ext) (metis map_of_eq_Some_iff not_None_eq)

lemma rmap_ok: "(\<And>x. x \<in> set xs \<Longrightarrow> f x = ok (g x)) \<Longrightarrow> rmap f xs = ok (map g xs)"
  by (induction xs) auto

lemma storeNat_le: "storeNat a \<le> storeNat b \<longleftrightarrow> a \<le> b"
  using storeNat_less_iff [of b a] by (simp add: not_less [symmetric])

locale rocks_db = rocks_store K content + varint_codec enc dec
  for K :: "'s Rocks" and content :: "'s \<Rightarrow> Family \<Rightarrow> bytes \<rightharpoonup> bytes" and enc dec
begin

abbreviation inv :: "'s Database \<Rightarrow> afact list \<Rightarrow> bool" where
  "inv \<equiv> db_inv content enc"

text \<open>The fact that is read back.\<close>

definition stored_ref :: "afact \<Rightarrow> Ref" where
  "stored_ref a = \<lparr>ref_id = a_id a, ref_type = a_type a, ref_clause = Clause_from (a_key a @ a_value a) (of_nat (length (a_key a)))\<rparr>"

lemma stored_ref_view:
  assumes "fits a"
  shows "Ref_view (stored_ref a) = a"
proof -
  have l: "length (a_key a) < 2 ^ 32" "length (a_key a @ a_value a) < 2 ^ 32" using assms by (auto simp: fits_def)
  then have "unat (of_nat (length (a_key a)) :: u64) = length (a_key a)" by (simp add: unat_of_nat_64)
  then show ?thesis using Clause_from_ok(2,3) [of "of_nat (length (a_key a))" "a_key a @ a_value a"] l
    by (simp add: Ref_view_def stored_ref_def Ref_key_def Ref_value_def)
qed

lemma decompose_stored:
  assumes "fits a"
  shows "decomposeFact dec (a_id a) (entity_value enc a) = ok (stored_ref a)"
proof -
  have "length (a_key a) < 2 ^ 32" using assms by (simp add: fits_def)
  then have "ucast (ucast (of_nat (length (a_key a)) :: u64) :: u32) = (of_nat (length (a_key a)) :: u64)"
    by (simp add: word_unat_eq_iff unat_ucast_mod unat_of_nat_64)
  then show ?thesis
    by (simp add: decomposeFact_def entity_value_def packed_enc stored_ref_def)
qed

lemma lookupById_facts:
  assumes "inv db fs"
  shows "lookupById K db i = map_option (entity_value enc) (facts_by_id fs i)"
proof (cases "i < db_starting_id db \<or> i \<ge> db_next_id db")
  case True
  then have "facts_by_id fs i = None" unfolding facts_by_id_None using db_invD(5) [OF assms] by fastforce
  then show ?thesis using True by (simp add: lookupById_def)
next
  case False
  then show ?thesis
    by (simp add: lookupById_def get db_invD(6) [OF assms] map_of_find facts_by_id_def)
qed

lemma Database_factById_facts:
  assumes "inv db fs"
  shows "Database_factById K dec db i = ok (map_option (\<lambda>a. (a_type a, ref_clause (stored_ref a))) (facts_by_id fs i))"
proof (cases "facts_by_id fs i")
  case (Some a)
  then have a: "a \<in> set fs" "a_id a = i" using facts_by_id_Some [OF db_invD(2) [OF assms]] by auto
  then show ?thesis using Some decompose_stored [of a] db_invD(1,5) [OF assms]
    by (simp add: Database_factById_def requireOpen_def lookupById_facts [OF assms] stored_ref_def)
qed (use db_invD(1) [OF assms] in \<open>simp add: Database_factById_def requireOpen_def lookupById_facts [OF assms]\<close>)

lemma Database_typeById_facts:
  assumes "inv db fs"
  shows "Database_typeById K dec db i = ok (case facts_by_id fs i of None \<Rightarrow> WordId_invalid | Some a \<Rightarrow> a_type a)"
  using db_invD(1) [OF assms]
  by (auto simp: Database_typeById_def requireOpen_def lookupById_facts [OF assms] entity_value_def packed_enc split: option.split)

lemma count_zero:
  assumes "inv db fs"
  shows "hi (Database_count db t) = 0 \<longleftrightarrow> (\<forall>a\<in>set fs. a_type a \<noteq> t)"
proof -
  have "unat (hi (Database_count db t)) = of_type t fs"
    using db_invD(8) [OF assms] by (simp add: stats_ok_def Database_count_def Interval_of_def)
  then show ?thesis by (auto simp: of_type_def unat_eq_0 filter_empty_conv)
qed

lemma Database_idByKey_facts:
  assumes "inv db fs"
  shows "Database_idByKey K db t k = ok (case facts_by_key fs t k of None \<Rightarrow> WordId_invalid | Some a \<Rightarrow> a_id a)"
proof (cases "hi (Database_count db t) = 0")
  case True
  then have "facts_by_key fs t k = None" unfolding facts_by_key_None using count_zero [OF assms] by blast
  then show ?thesis using True by (simp add: Database_idByKey_def)
next
  case False
  have "index_key a = storeLE t @ k \<longleftrightarrow> a_type a = t \<and> a_key a = k" for a by (simp add: index_key_def)
  then have "rk_get K (db_store db) F_keys (storeLE t @ k) = map_option (\<lambda>a. storeLE (a_id a)) (facts_by_key fs t k)"
    by (simp add: get db_invD(7) [OF assms] map_of_find facts_by_key_def)
  then show ?thesis using False db_invD(1) [OF assms]
    by (auto simp: Database_idByKey_def requireOpen_def Input_fixed_store_Nil split: option.split)
qed

section \<open>Enumerations\<close>

lemma entity_entries:
  assumes "inv db fs" "\<not> legacy db"
  shows "rk_first K (db_store db) F_entities = map (\<lambda>a. (storeNat (a_id a), entity_value enc a)) fs"
proof (rule first_unique)
  show "sorted_wrt (<) (map fst (map (\<lambda>a. (storeNat (a_id a), entity_value enc a)) fs))"
    using db_invD(2) [OF assms(1)] by (simp add: facts_ok_def sorted_wrt_map storeNat_less_iff comp_def)
  show "content (db_store db) F_entities = map_of (map (\<lambda>a. (storeNat (a_id a), entity_value enc a)) fs)"
    using db_invD(6) [OF assms(1)] assms(2) by (simp add: entity_key_def)
qed

lemma enumerate_items:
  assumes "inv db fs" "\<not> legacy db"
  shows "EnumerateIterator_items K dec db Forward start bound =
      ok (map stored_ref (filter (\<lambda>a. start \<le> a_id a \<and> a_id a < bound) fs))"
    "EnumerateIterator_items K dec db Backward start bound =
      ok (map stored_ref (rev (filter (\<lambda>a. a_id a \<le> start \<and> bound \<le> a_id a) fs)))"
proof -
  let ?e = "\<lambda>a. (storeNat (a_id a), entity_value enc a)"
  have get1: "EnumerateIterator_get dec (?e a) = ok (stored_ref a)" if "a \<in> set fs" for a
    using load_store [of "a_id a" "[]"] decompose_stored db_invD(5) [OF assms(1) that]
    by (simp add: EnumerateIterator_get_def)
  have run: "rmap (EnumerateIterator_get dec) (map ?e xs) = ok (map stored_ref xs)" if "set xs \<subseteq> set fs" for xs
    using that by (induction xs) (simp_all add: get1)
  have f: "filter (\<lambda>(k, v). P k) (map ?e xs) = map ?e (filter (\<lambda>a. P (storeNat (a_id a))) xs)" for P xs
    by (simp add: filter_map comp_def)
  show "EnumerateIterator_items K dec db Forward start bound =
      ok (map stored_ref (filter (\<lambda>a. start \<le> a_id a \<and> a_id a < bound) fs))"
    by (simp add: EnumerateIterator_items_def seek entity_entries [OF assms] f run storeNat_le storeNat_less_iff)
  show "EnumerateIterator_items K dec db Backward start bound =
      ok (map stored_ref (rev (filter (\<lambda>a. a_id a \<le> start \<and> bound \<le> a_id a) fs)))"
    by (simp add: EnumerateIterator_items_def seekForPrev entity_entries [OF assms] f rev_map run storeNat_le)
qed

text \<open>Databases with the old keys are searched id by id.\<close>

lemma loop_fact:
  assumes "inv db fs" "Direction_more d i stop"
  shows "LegacyEnumerateIterator_loop K dec db d i stop rs =
    LegacyEnumerateIterator_loop K dec db d (Direction_advance d i) stop
      (rs @ (case facts_by_id fs i of None \<Rightarrow> [] | Some a \<Rightarrow> [stored_ref a]))"
proof (cases "facts_by_id fs i")
  case None
  then show ?thesis using assms by (subst LegacyEnumerateIterator_loop.simps) (simp add: lookupById_facts [OF assms(1)])
next
  case (Some a)
  then have a: "a \<in> set fs" "a_id a = i" using facts_by_id_Some [OF db_invD(2) [OF assms(1)]] by auto
  then have "decomposeFact dec i (entity_value enc a) = Inr (stored_ref a)"
    using decompose_stored [of a] db_invD(5) [OF assms(1)] by (simp add: ok_def)
  then show ?thesis using assms Some by (subst LegacyEnumerateIterator_loop.simps) (simp add: lookupById_facts [OF assms(1)])
qed

lemma legacy_forward:
  assumes "inv db fs"
  shows "LegacyEnumerateIterator_loop K dec db Forward i stop rs =
    Some (ok (rs @ map stored_ref (filter (\<lambda>a. i \<le> a_id a \<and> a_id a < stop) fs)))"
proof (induction "unat stop - unat i" arbitrary: i rs)
  case 0
  then have n: "stop \<le> i" by (simp add: word_le_nat_alt)
  then have "filter (\<lambda>a. i \<le> a_id a \<and> a_id a < stop) fs = []" by (auto simp: filter_empty_conv)
  then show ?case using n by (subst LegacyEnumerateIterator_loop.simps) (auto simp: Direction_more_def)
next
  case (Suc n)
  then have less: "i < stop" by (simp add: word_less_nat_alt)
  then have i1: "unat (i + 1) = unat i + 1"
    using unat_lt_64 [of stop] by (simp add: unat_add_mod word_less_nat_alt)
  let ?one = "case facts_by_id fs i of None \<Rightarrow> [] | Some a \<Rightarrow> [a]"
  have le: "i + 1 \<le> a_id a \<longleftrightarrow> i < a_id a" for a by (simp add: word_le_nat_alt word_less_nat_alt i1 Suc_le_eq)
  have split: "filter (\<lambda>a. i \<le> a_id a \<and> a_id a < stop) fs = ?one @ filter (\<lambda>a. i + 1 \<le> a_id a \<and> a_id a < stop) fs"
    using facts_from [OF db_invD(2) [OF assms] less] unfolding le .
  have "LegacyEnumerateIterator_loop K dec db Forward i stop rs =
      LegacyEnumerateIterator_loop K dec db Forward (i + 1) stop (rs @ map stored_ref ?one)"
    using loop_fact [OF assms, of Forward i stop rs] less
    by (simp add: Direction_more_def Direction_advance_def WordId_plus_def split: option.splits)
  also have "\<dots> = Some (ok ((rs @ map stored_ref ?one) @ map stored_ref (filter (\<lambda>a. i + 1 \<le> a_id a \<and> a_id a < stop) fs)))"
    by (rule Suc.hyps(1)) (use Suc.hyps(2) i1 in simp)
  finally show ?case unfolding split by (simp del: append_assoc add: append_assoc [symmetric])
qed

lemma legacy_backward:
  assumes "inv db fs" "0 < stop"
  shows "LegacyEnumerateIterator_loop K dec db Backward i stop rs =
    Some (ok (rs @ map stored_ref (rev (filter (\<lambda>a. a_id a \<le> i \<and> stop \<le> a_id a) fs))))"
proof (induction "unat i + 1 - unat stop" arbitrary: i rs)
  case 0
  then have n: "i < stop" by (simp add: word_less_nat_alt)
  then have "filter (\<lambda>a. a_id a \<le> i \<and> stop \<le> a_id a) fs = []" by (auto simp: filter_empty_conv)
  then show ?case using n by (subst LegacyEnumerateIterator_loop.simps) (auto simp: Direction_more_def)
next
  case (Suc n)
  then have le: "stop \<le> i" by (simp add: word_le_nat_alt)
  then have pos: "0 < i" using assms(2) by auto
  then have i1: "unat (i - 1) = unat i - 1" by (simp add: unat_minus_one word_neq_0_conv)
  let ?one = "case facts_by_id fs i of None \<Rightarrow> [] | Some a \<Rightarrow> [a]"
  have lt: "a_id a \<le> i - 1 \<longleftrightarrow> a_id a < i" for a by (rule le_minus_one [OF pos])
  have split: "filter (\<lambda>a. a_id a \<le> i \<and> stop \<le> a_id a) fs = filter (\<lambda>a. a_id a \<le> i - 1 \<and> stop \<le> a_id a) fs @ ?one"
    using facts_upto [OF db_invD(2) [OF assms(1)] le] unfolding lt .
  have "LegacyEnumerateIterator_loop K dec db Backward i stop rs =
      LegacyEnumerateIterator_loop K dec db Backward (i - 1) stop (rs @ map stored_ref ?one)"
    using loop_fact [OF assms(1), of Backward i stop rs] le
    by (simp add: Direction_more_def Direction_advance_def WordId_minus_def split: option.splits)
  also have "\<dots> = Some (ok ((rs @ map stored_ref ?one) @ map stored_ref (rev (filter (\<lambda>a. a_id a \<le> i - 1 \<and> stop \<le> a_id a) fs))))"
    by (rule Suc.hyps(1)) (use Suc.hyps(2) i1 le pos in \<open>simp add: word_le_nat_alt word_less_nat_alt\<close>)
  finally show ?case unfolding split by (simp split: option.split)
qed

lemma enumerate_bounds:
  assumes "inv db fs" "Direction_bounds Forward a b (db_starting_id db) (db_next_id db) = (start, bound)"
  shows "if start = WordId_invalid then facts_between fs a b = []
    else filter (\<lambda>x. start \<le> a_id x \<and> a_id x < bound) fs = facts_between fs a b"
proof -
  note i = db_invD [OF assms(1)]
  have "start = WordId_invalid \<Longrightarrow> a \<ge> db_next_id db \<or> (b \<noteq> WordId_invalid \<and> b \<le> db_starting_id db)"
    using assms(2) i(3) by (auto simp: Direction_bounds_def max_def WordId_invalid_def split: if_splits)
  moreover have "facts_between fs a b = []" if "a \<ge> db_next_id db \<or> (b \<noteq> WordId_invalid \<and> b \<le> db_starting_id db)"
    using that i(5) by (fastforce simp: facts_between_def filter_empty_conv)
  moreover have "filter (\<lambda>x. start \<le> a_id x \<and> a_id x < bound) fs = facts_between fs a b" if "start \<noteq> WordId_invalid"
    unfolding facts_between_def
  proof (rule filter_cong [OF refl])
    fix x
    assume "x \<in> set fs"
    then have "db_starting_id db \<le> a_id x" "a_id x < db_next_id db" using i(5) by auto
    then show "(start \<le> a_id x \<and> a_id x < bound) = (a \<le> a_id x \<and> (WordId_bool b \<longrightarrow> a_id x < b))"
      using assms(2) that by (auto simp: Direction_bounds_def split: if_splits)
  qed
  ultimately show ?thesis by auto
qed

lemma enumerateBack_bounds:
  assumes "inv db fs" "Direction_bounds Backward a b (db_starting_id db) (db_next_id db) = (start, bound)"
  shows "if start = WordId_invalid then facts_between fs b a = []
    else filter (\<lambda>x. a_id x \<le> start \<and> bound \<le> a_id x) fs = facts_between fs b a \<and> 0 < bound"
proof -
  note i = db_invD [OF assms(1)]
  let ?x = "if a \<noteq> WordId_invalid \<and> a \<le> db_next_id db then a else db_next_id db"
  have none: "facts_between fs b a = []" if "b \<ge> db_next_id db \<or> (a \<noteq> WordId_invalid \<and> a \<le> db_starting_id db)"
    using that i(5) by (fastforce simp: facts_between_def filter_empty_conv)
  show ?thesis
  proof (cases "b \<ge> db_next_id db \<or> (a \<noteq> WordId_invalid \<and> a \<le> db_starting_id db)")
    case True
    then have "start = WordId_invalid" using assms(2) by (auto simp: Direction_bounds_def)
    then show ?thesis using none [OF True] by simp
  next
    case False
    then have sb: "start = ?x - 1" "bound = max b (db_starting_id db)"
      using assms(2) by (auto simp: Direction_bounds_def WordId_minus_def)
    have "0 < ?x" using i(3,4) by (auto simp: WordId_invalid_def word_neq_0_conv)
    then have lt: "a_id y \<le> start \<longleftrightarrow> a_id y < ?x" for y unfolding sb(1) by (rule le_minus_one)
    have eq: "filter (\<lambda>y. a_id y \<le> start \<and> bound \<le> a_id y) fs = facts_between fs b a"
      unfolding facts_between_def
    proof (rule filter_cong [OF refl])
      fix y
      assume "y \<in> set fs"
      then have "db_starting_id db \<le> a_id y" "a_id y < db_next_id db" using i(5) by auto
      then show "(a_id y \<le> start \<and> bound \<le> a_id y) = (b \<le> a_id y \<and> (WordId_bool a \<longrightarrow> a_id y < a))"
        unfolding lt sb(2) by auto
    qed
    have "0 < bound" using i(3) sb(2) by (auto simp: WordId_invalid_def less_max_iff_disj)
    moreover have "facts_between fs b a = []" if "start = WordId_invalid"
      using that \<open>0 < bound\<close> unfolding eq [symmetric] by (auto simp: filter_empty_conv WordId_invalid_def)
    ultimately show ?thesis using eq by simp
  qed
qed

lemma enumerate_facts:
  assumes "inv db fs"
  shows "makeEnumerateIterator K dec db Forward a b = Some (ok (map stored_ref (facts_between fs a b)))"
    "makeEnumerateIterator K dec db Backward a b = Some (ok (map stored_ref (rev (facts_between fs b a))))"
proof -
  note i = db_invD [OF assms]
  have o: "requireOpen db = Inr ()" using i(1) by (simp add: requireOpen_def ok_def guard_def)
  obtain s1 b1 where fw: "Direction_bounds Forward a b (db_starting_id db) (db_next_id db) = (s1, b1)" by fastforce
  show "makeEnumerateIterator K dec db Forward a b = Some (ok (map stored_ref (facts_between fs a b)))"
    using enumerate_bounds [OF assms fw] legacy_forward [OF assms, of s1 b1 "[]"] enumerate_items(1) [OF assms, of s1 b1]
    by (auto simp: makeEnumerateIterator_def o fw EmptyIterator_def)
  obtain s2 b2 where bw: "Direction_bounds Backward a b (db_starting_id db) (db_next_id db) = (s2, b2)" by fastforce
  show "makeEnumerateIterator K dec db Backward a b = Some (ok (map stored_ref (rev (facts_between fs b a))))"
    using enumerateBack_bounds [OF assms bw] legacy_backward [OF assms, of b2 s2 "[]"] enumerate_items(2) [OF assms, of s2 b2]
    by (auto simp: makeEnumerateIterator_def o bw EmptyIterator_def)
qed

section \<open>Prefix seeks\<close>

lemma index_entries:
  assumes "inv db fs"
  shows "rk_first K (db_store db) F_keys = map (\<lambda>a. (index_key a, storeLE (a_id a))) (sort_key index_key fs)"
proof (rule first_unique)
  have inj: "inj_on index_key (set fs)"
    using db_invD(2) [OF assms] facts_ok_key_inj by (auto simp: inj_on_def index_key_inject)
  have "distinct fs" using db_invD(2) [OF assms] by (auto simp: facts_ok_def distinct_map)
  then have d: "distinct (map index_key (sort_key index_key fs))" using inj by (simp add: distinct_map)
  then show "sorted_wrt (<) (map fst (map (\<lambda>a. (index_key a, storeLE (a_id a))) (sort_key index_key fs)))"
    by (simp add: strict_sorted_iff comp_def)
  have "map_of (map (\<lambda>a. (index_key a, storeLE (a_id a))) (sort_key index_key fs)) =
      map_of (map (\<lambda>a. (index_key a, storeLE (a_id a))) fs)"
    by (rule map_of_perm) (use d inj \<open>distinct fs\<close> in \<open>simp_all add: distinct_map comp_def\<close>)
  then show "content (db_store db) F_keys = map_of (map (\<lambda>a. (index_key a, storeLE (a_id a))) (sort_key index_key fs))"
    using db_invD(7) [OF assms] by simp
qed

lemma seek_range_iff:
  assumes "DenseMap_key_ok t" "n \<le> length start"
  shows "storeLE t @ start \<le> index_key a \<and> index_key a < lexicographicallyNext (take (length (storeLE t) + n) (storeLE t @ start)) \<longleftrightarrow>
    a_type a = t \<and> start \<le> a_key a \<and> take n (a_key a) = take n start"
proof -
  let ?p = "storeLE t @ take n start"
  have p: "take (length (storeLE t) + n) (storeLE t @ start) = ?p" by simp
  have "lexicographicallyNext ?p \<noteq> []"
  proof
    assume "lexicographicallyNext ?p = []"
    then have "\<forall>b\<in>set ?p. b = 0xFF" using lexicographicallyNext_NilD by blast
    then have "storeLE t = replicate 8 0xFF" by (intro replicate_eqI) auto
    then have "t = loadLE (replicate 8 0xFF)" using loadLE_store64(1) [of t] by simp
    also have "\<dots> = - 1" by (rule loadLE_ones)
    finally have "t = - 1" .
    moreover have "unat (- 1 :: u64) = 2 ^ 64 - 1" by (simp add: unsigned_minus_1_eq_mask mask_eq_exp_minus_1)
    ultimately show False using assms(1) by (simp add: DenseMap_key_ok_def)
  qed
  then have pre: "?p \<le> k \<and> k < lexicographicallyNext ?p \<longleftrightarrow> prefix ?p k" for k using prefix_range [of ?p k] by blast
  have le: "?p \<le> storeLE t @ start" using pre [of "storeLE t @ start"] take_is_prefix [of n start] by (simp add: prefix_storeLE)
  have "storeLE t @ start \<le> index_key a \<and> index_key a < lexicographicallyNext ?p \<longleftrightarrow> storeLE t @ start \<le> index_key a \<and> prefix ?p (index_key a)"
    using pre [of "index_key a"] le by (meson order_trans)
  also have "\<dots> \<longleftrightarrow> a_type a = t \<and> start \<le> a_key a \<and> take n (a_key a) = take n start"
    using append_le_append [of "storeLE t" start "a_key a"] prefix_take [OF assms(2)]
    by (auto simp: index_key_def prefix_storeLE)
  finally show ?thesis unfolding p .
qed

lemma SeekIterator_stored:
  assumes "inv db fs" "a \<in> set fs"
  shows "SeekIterator_get K dec db (a_type a) d (index_key a, storeLE (a_id a)) =
    ok (if d = KeyOnly then \<lparr>ref_id = a_id a, ref_type = a_type a, ref_clause = Clause_fromKey (a_key a)\<rparr> else stored_ref a)"
proof -
  have "facts_by_id fs (a_id a) = Some a" using facts_by_id_Some [OF db_invD(2) [OF assms(1)]] assms(2) by auto
  then show ?thesis using decompose_stored [of a] db_invD(5) [OF assms]
    by (simp add: SeekIterator_get_def index_key_def Input_fixed_store Input_fixed_store_Nil lookupById_facts [OF assms(1)])
qed

lemma Database_seek_facts:
  assumes "inv db fs" "n \<le> length start"
  shows "Database_seek K dec db d t start n =
    ok (map (\<lambda>a. if d = KeyOnly then \<lparr>ref_id = a_id a, ref_type = t, ref_clause = Clause_fromKey (a_key a)\<rparr> else stored_ref a)
      (facts_prefix fs t start n))"
proof (cases "hi (Database_count db t) = 0")
  case True
  then have "facts_prefix fs t start n = []"
    using count_zero [OF assms(1)] by (simp add: facts_prefix_def filter_empty_conv)
  then show ?thesis using True assms(2) by (simp add: Database_seek_def EmptyIterator_def)
next
  case False
  then obtain b where "b \<in> set fs" "a_type b = t" using count_zero [OF assms(1)] by auto
  then have tk: "DenseMap_key_ok t" using db_invD(5) [OF assms(1)] by (auto simp: fits_def)
  let ?P = "\<lambda>a. a_type a = t \<and> start \<le> a_key a \<and> take n (a_key a) = take n start"
  let ?xs = "filter ?P (sort_key index_key fs)"
  let ?u = "lexicographicallyNext (take (length (storeLE t) + n) (storeLE t @ start))"
  have entries: "rk_seek K (db_store db) F_keys (Some ?u) (storeLE t @ start) = map (\<lambda>a. (index_key a, storeLE (a_id a))) ?xs"
    using seek_range_iff [OF tk assms(2)] by (simp add: seek index_entries [OF assms(1)] filter_map comp_def)
  have eq: "?xs = facts_prefix fs t start n"
    unfolding facts_prefix_def
  proof (rule sort_key_unique [symmetric])
    have "sorted_wrt (<) (map index_key (sort_key index_key fs))"
      using first_sorted [of "db_store db" F_keys] unfolding index_entries [OF assms(1)] by (simp add: comp_def)
    then have "sorted_wrt (\<lambda>a b. index_key a < index_key b) ?xs" unfolding sorted_wrt_map by (rule sorted_wrt_filter)
    then have "sorted_wrt (\<lambda>a b. a_key a < a_key b) ?xs"
      by (rule sorted_wrt_mono_rel [rotated]) (auto simp: index_key_def append_le_append less_le)
    then show "sorted_wrt (<) (map a_key ?xs)" by (simp add: sorted_wrt_map)
    show "distinct (map a_key (filter ?P fs))"
      by (rule facts_ok_distinct_keys [OF db_invD(2) [OF assms(1)]]) simp
  qed auto
  have get: "SeekIterator_get K dec db t d (index_key a, storeLE (a_id a)) =
      ok (if d = KeyOnly then \<lparr>ref_id = a_id a, ref_type = t, ref_clause = Clause_fromKey (a_key a)\<rparr> else stored_ref a)"
    if "a \<in> set ?xs" for a using SeekIterator_stored [OF assms(1), of a d] that by auto
  have "rmap (SeekIterator_get K dec db t d) (map (\<lambda>a. (index_key a, storeLE (a_id a))) ys) =
      ok (map (\<lambda>a. if d = KeyOnly then \<lparr>ref_id = a_id a, ref_type = t, ref_clause = Clause_fromKey (a_key a)\<rparr> else stored_ref a) ys)"
    if "set ys \<subseteq> set ?xs" for ys using that by (induction ys) (simp_all add: get)
  from this [of ?xs] show ?thesis using False db_invD(1) [OF assms(1)] assms(2) entries
    by (simp add: Database_seek_def Let_def requireOpen_def eq)
qed

end

end
