(* ===== verification/Rocks_Commit.thy ===== *)
theory Rocks_Commit
  imports Rocks_Database_Correct
begin

text \<open>
  The database is a \<^verbatim>\<open>Lookup\<close> over the facts that were committed to it, \<^verbatim>\<open>commit\<close> adds a batch to them,
  and what it writes is what a database opened later starts from.
\<close>

section \<open>The database as a lookup\<close>

definition result_or :: "'a \<Rightarrow> 'a result \<Rightarrow> 'a" where
  "result_or d x = (case x of Inl _ \<Rightarrow> d | Inr y \<Rightarrow> y)"

lemma result_or_ok [simp]: "result_or d (ok y) = y"
  by (simp add: result_or_def ok_def)

definition Database_lookup :: "'s Rocks \<Rightarrow> varint_dec \<Rightarrow> 's Database \<Rightarrow> Lookup" where
  "Database_lookup K dec db =
     \<lparr>idByKey = (\<lambda>t k. result_or WordId_invalid (Database_idByKey K db t k)),
      typeById = (\<lambda>i. result_or WordId_invalid (Database_typeById K dec db i)),
      factById = (\<lambda>i. result_or None (Database_factById K dec db i)),
      startingId = db_starting_id db, firstFreeId = db_next_id db, count = Database_count db,
      enumerate = (\<lambda>a b. case makeEnumerateIterator K dec db Forward a b of None \<Rightarrow> [] | Some r \<Rightarrow> result_or [] r),
      enumerateBack = (\<lambda>a b. case makeEnumerateIterator K dec db Backward a b of None \<Rightarrow> [] | Some r \<Rightarrow> result_or [] r),
      seek = (\<lambda>t start n. result_or [] (Database_seek K dec db KeyValue t start n))\<rparr>"

text \<open>Every query returns, without an error.\<close>

definition Database_total :: "'s Rocks \<Rightarrow> varint_dec \<Rightarrow> 's Database \<Rightarrow> bool" where
  "Database_total K dec db \<longleftrightarrow>
     (let L = Database_lookup K dec db in
      (\<forall>t k. Database_idByKey K db t k = ok (idByKey L t k)) \<and> (\<forall>i. Database_typeById K dec db i = ok (typeById L i)) \<and>
      (\<forall>i. Database_factById K dec db i = ok (factById L i)) \<and>
      (\<forall>a b. makeEnumerateIterator K dec db Forward a b = Some (ok (enumerate L a b))) \<and>
      (\<forall>a b. makeEnumerateIterator K dec db Backward a b = Some (ok (enumerateBack L a b))) \<and>
      (\<forall>t start n. n \<le> length start \<longrightarrow> Database_seek K dec db KeyValue t start n = ok (seek L t start n)))"

section \<open>What a batch of puts does\<close>

definition family_puts :: "Family \<Rightarrow> puts \<Rightarrow> (bytes \<times> bytes) list" where
  "family_puts f ps = map snd (filter (\<lambda>p. fst p = f) ps)"

lemma family_puts_simps [simp]:
  "family_puts f [] = []" "family_puts f ((g, kv) # ps) = (if g = f then kv # family_puts f ps else family_puts f ps)"
  "family_puts f (ps @ qs) = family_puts f ps @ family_puts f qs"
  by (simp_all add: family_puts_def)

lemma put_all_family: "put_all ps f m = m ++ map_of (rev (family_puts f ps))"
  unfolding put_all_def
proof (induction ps arbitrary: m)
  case (Cons p ps)
  obtain g k v where p: "p = (g, k, v)" by (cases p)
  show ?case by (cases "g = f") (simp_all add: p Cons.IH, simp add: fun_upd_def)
qed simp

lemma put_all_fresh:
  assumes "distinct (map fst (xs @ family_puts f ps))" "m = map_of xs"
  shows "put_all ps f m = map_of (xs @ family_puts f ps)"
proof -
  have "put_all ps f m = map_of (rev (family_puts f ps) @ xs)" by (simp add: put_all_family assms(2))
  also have "\<dots> = map_of (xs @ family_puts f ps)"
    by (rule map_of_perm) (use assms(1) in \<open>auto simp: rev_map [symmetric]\<close>)
  finally show ?thesis .
qed

section \<open>The facts of a batch\<close>

lemma FactSet_reach_clauses: "FactSet_reach s \<Longrightarrow> f \<in> set (fs_facts s) \<Longrightarrow> Clause_ok (Fact_clause f)"
proof (induction arbitrary: f rule: FactSet_reach.induct)
  case (new start)
  then show ?case by (simp add: FactSet_new_def)
next
  case (defined s t c m i s')
  let ?n = "Fact_create \<lparr>ref_id = FactSet_firstFreeId s, ref_type = t, ref_clause = c\<rparr> 0"
  have "fs_facts s' = fs_facts s \<or> fs_facts s' = fs_facts s @ [?n]"
    using defined.hyps(3) by (auto simp: FactSet_define_def Let_def split: if_splits prod.splits bool.splits)
  moreover have "Clause_ok (Fact_clause ?n)"
    using Fact_create_view(3) defined.hyps(2) by (simp add: FactSet_args_ok_def)
  ultimately show ?case using defined.IH defined.prems by auto
next
  case (sought s n start t)
  then show ?case by (auto simp: FactSet_seek_def FactSet_refresh_def Let_def split: option.splits)
next
  case (appended s other r)
  then have "fs_facts r = fs_facts s @ fs_facts other \<or> fs_facts r = fs_facts s"
    by (auto simp: FactSet_append_def rbind_def ok_def split: sum.splits if_splits)
  then show ?case using appended by auto
qed

lemma FactSet_enumerate_all: "FactSet_ok s \<Longrightarrow> FactSet_enumerate s WordId_invalid WordId_invalid = map Fact_ref (fs_facts s)"
proof -
  assume "FactSet_ok s"
  then have "FactSet_lower_bound s WordId_invalid = 0"
    using lower_bound_iff [of s] by (simp add: FactSet_lower_bound_def WordId_invalid_def)
  then show ?thesis by (simp add: FactSet_enumerate_def RangeIterator_items_map map_nth)
qed

definition fact_puts :: "varint_enc \<Rightarrow> 's Database \<Rightarrow> afact \<Rightarrow> puts" where
  "fact_puts enc db a = [(F_entities, entity_key db (a_id a), entity_value enc a), (F_keys, index_key a, storeLE (a_id a))]"

lemma family_fact_puts:
  "family_puts F_entities (concat (map (fact_puts enc db) fs)) = map (\<lambda>a. (entity_key db (a_id a), entity_value enc a)) fs"
  "family_puts F_keys (concat (map (fact_puts enc db) fs)) = map (\<lambda>a. (index_key a, storeLE (a_id a))) fs"
  "family_puts F_admin (concat (map (fact_puts enc db) fs)) = []"
  "family_puts F_stats (concat (map (fact_puts enc db) fs)) = []"
  by (induction fs) (simp_all add: fact_puts_def)

lemma commit_fact_puts:
  assumes "Clause_ok (ref_clause r)" "ref_id r \<ge> db_next_id db"
  shows "\<exists>mem. commit_fact enc db r (batch, stats) = ok (batch @ fact_puts enc db (Ref_view r),
    let stats = DenseMap_at MemoryStats_zero stats (ref_type r) in
    DenseMap_assign stats (ref_type r) (MemoryStats_plus (DenseMap_ref stats (ref_type r)) (MemoryStats_one mem)))"
proof -
  have "(of_nat (length (Clause_key (ref_clause r))) :: u64) = ucast (key_size (ref_clause r))"
    using Clause_ok_bytes(2) [OF assms(1)] by (simp add: word_unat_eq_iff unat_ucast_mod)
  then have "enc (ref_type r) @ enc (ucast (key_size (ref_clause r))) @ Clause_bytes (ref_clause r) = entity_value enc (Ref_view r)"
    using Clause_ok_bytes(1) [OF assms(1)] by (simp add: entity_value_def Ref_view_def Ref_key_def Ref_value_def)
  then show ?thesis using assms(2)
    by (auto simp: commit_fact_def fact_puts_def index_key_def Let_def Ref_view_def)
qed

lemma stats_ok_add:
  assumes "stats_ok stats fs" "DenseMap_key_ok (a_type a)" "length fs < 2 ^ 64 - 1"
  shows "stats_ok (let stats = DenseMap_at MemoryStats_zero stats (a_type a) in
    DenseMap_assign stats (a_type a) (MemoryStats_plus (DenseMap_ref stats (a_type a)) (MemoryStats_one mem))) (fs @ [a])"
proof -
  let ?t = "a_type a"
  let ?at = "DenseMap_at MemoryStats_zero stats ?t"
  have ok: "DenseMap_ok stats" and cnt: "\<And>t. unat (stats_count stats t) = of_type t fs" using assms(1) by (auto simp: stats_ok_def)
  have at: "DenseMap_ok ?at" "\<And>j. DenseMap_lookup ?at j = (if j = ?t \<and> DenseMap_lookup stats ?t = None then Some MemoryStats_zero else DenseMap_lookup stats j)"
    using DenseMap_at_ok [OF ok assms(2)] DenseMap_at_lookup [OF ok assms(2)] by auto
  then obtain w where w: "DenseMap_lookup ?at ?t = Some w" by (cases "DenseMap_lookup stats ?t") auto
  have ref: "DenseMap_ref ?at ?t = w" by (rule dense.ref_lookup [OF at(1) w])
  have same: "stats_count ?at t = stats_count stats t" for t
    using at(2) [of t] by (auto simp: stats_count_def MemoryStats_zero_def split: option.splits)
  let ?new = "DenseMap_assign ?at ?t (MemoryStats_plus w (MemoryStats_one mem))"
  have "DenseMap_ok ?new" by (rule DenseMap_assign_ok [OF at(1)]) (simp add: w)
  moreover have "unat (stats_count ?new t) = of_type t (fs @ [a])" for t
  proof (cases "t = ?t")
    case True
    have c: "unat (ms_count w) = of_type ?t fs" using same [of ?t] cnt [of ?t] w by (simp add: stats_count_def)
    have "of_type ?t fs \<le> length fs" by (simp add: of_type_def)
    then have "unat (ms_count w + 1) = of_type ?t fs + 1" using c assms(3) by (simp add: unat_add_mod)
    then show ?thesis using True w
      by (simp add: stats_count_def DenseMap_assign_lookup MemoryStats_plus_def MemoryStats_one_def of_type_def)
  next
    case False
    then have "DenseMap_lookup ?new t = DenseMap_lookup ?at t" using w by (simp add: DenseMap_assign_lookup)
    then show ?thesis using False same [of t] cnt [of t] by (simp add: stats_count_def of_type_def)
  qed
  ultimately show ?thesis by (simp add: stats_ok_def Let_def ref)
qed


text \<open>The state on disk that a database opened later reads.\<close>

definition stats_entry :: "PredicateStats \<Rightarrow> bytes \<Rightarrow> bytes option" where
  "stats_entry stats k =
     (if length k = 8 then map_option MemoryStats_bytes (DenseMap_lookup stats (loadLE k)) else None)"

definition db_saved :: "('s \<Rightarrow> Family \<Rightarrow> bytes \<rightharpoonup> bytes) \<Rightarrow> 's Database \<Rightarrow> bool" where
  "db_saved content db \<longleftrightarrow>
     content (db_store db) F_admin (storeLE (AdminId_code NEXT_ID)) = Some (storeLE (db_next_id db)) \<and>
     content (db_store db) F_admin (storeLE (AdminId_code STARTING_ID)) = Some (storeLE (db_starting_id db)) \<and>
     content (db_store db) F_admin (storeLE (AdminId_code VERSION)) = Some (storeLE (db_version db)) \<and>
     content (db_store db) F_stats = stats_entry (db_stats db)"

lemma admin_keys:
  "storeLE (AdminId_code NEXT_ID) \<noteq> storeLE (AdminId_code STARTING_ID)"
  "storeLE (AdminId_code NEXT_ID) \<noteq> storeLE (AdminId_code VERSION)"
  "storeLE (AdminId_code STARTING_ID) \<noteq> storeLE (AdminId_code VERSION)"
  by (simp_all add: AdminId_code_def)

lemma storeLE_loadLE: "length k = 8 \<Longrightarrow> storeLE (loadLE k :: u64) = k"
proof -
  assume l: "length k = 8"
  have "be_nat (rev k) < 2 ^ 64" using be_nat_less [of "rev k"] l by simp
  then show ?thesis using be_bytes_be_nat [of "rev k"] l
    by (simp add: storeLE_def storeBE_def loadLE_def unat_of_nat_64)
qed

lemma stats_saved:
  assumes "DenseMap_ok old" "DenseMap_ok new" "set items = {(k, v). DenseMap_lookup new k = Some v}"
    "sorted_wrt (<) (map fst items)" "\<And>k. DenseMap_lookup old k \<noteq> None \<Longrightarrow> DenseMap_lookup new k \<noteq> None"
  shows "stats_entry old ++ map_of (rev (map (\<lambda>(pid, m). (storeLE pid, MemoryStats_bytes m))
    (filter (\<lambda>(pid, m). Some m \<noteq> DenseMap_lookup old pid) items))) = stats_entry new"
proof
  let ?f = "filter (\<lambda>(pid, m). Some m \<noteq> DenseMap_lookup old pid) items"
  let ?ps = "rev (map (\<lambda>(pid, m). (storeLE pid, MemoryStats_bytes m)) ?f)"
  fix k
  have "distinct (map fst items)" using assms(4) by (simp add: strict_sorted_iff)
  then have "distinct (map fst ?f)" by (metis distinct_map_filter)
  moreover have "map fst ?ps = map storeLE (rev (map fst ?f))" by (simp add: rev_map case_prod_beta comp_def)
  ultimately have "distinct (map fst ?ps)"
    by (simp only: distinct_map [of storeLE] distinct_rev) (simp add: inj_on_def)
  then have some: "map_of ?ps k = Some v \<longleftrightarrow> (k, v) \<in> set ?ps" for v by (rule map_of_eq_Some_iff)
  have mem: "(k, v) \<in> set ?ps \<longleftrightarrow> (\<exists>pid m. k = storeLE pid \<and> v = MemoryStats_bytes m \<and>
      DenseMap_lookup new pid = Some m \<and> DenseMap_lookup old pid \<noteq> Some m)" for v
    using assms(3) by (auto simp: image_iff Bex_def)
  show "(stats_entry old ++ map_of ?ps) k = stats_entry new k"
  proof (cases "map_of ?ps k")
    case (Some v)
    then obtain pid m where "k = storeLE pid" "v = MemoryStats_bytes m" "DenseMap_lookup new pid = Some m"
      using some mem by blast
    then show ?thesis using Some by (simp add: stats_entry_def map_add_def)
  next
    case None
    then have no: "(k, v) \<notin> set ?ps" for v using some by (metis option.distinct(1))
    have "DenseMap_lookup old (loadLE k) = DenseMap_lookup new (loadLE k)" if "length k = 8"
    proof -
      have k: "k = storeLE (loadLE k :: u64)" using storeLE_loadLE [OF that] by simp
      show ?thesis
      proof (cases "DenseMap_lookup new (loadLE k)")
        case None
        then show ?thesis using assms(5) by (metis not_None_eq)
      next
        case (Some m)
        then show ?thesis using no mem k by metis
      qed
    qed
    then show ?thesis using None by (simp add: stats_entry_def map_add_def)
  qed
qed

context rocks_db
begin

lemma clause_view_stored: "fits a \<Longrightarrow> clause_view (a_type a, ref_clause (stored_ref a)) = afact_view a"
  using stored_ref_view [of a]
  by (simp add: clause_view_def afact_view_def Ref_view_def Ref_key_def Ref_value_def afact.simps stored_ref_def)
    (metis afact.select_convs)

lemma map_stored_view: "inv db fs \<Longrightarrow> set xs \<subseteq> set fs \<Longrightarrow> map Ref_view (map stored_ref xs) = xs"
  by (induction xs) (simp_all add: stored_ref_view db_invD(5))

lemma Database_lookup_facts:
  assumes "inv db fs"
  shows "idByKey (Database_lookup K dec db) t k = (case facts_by_key fs t k of None \<Rightarrow> WordId_invalid | Some a \<Rightarrow> a_id a)"
    "typeById (Database_lookup K dec db) i = (case facts_by_id fs i of None \<Rightarrow> WordId_invalid | Some a \<Rightarrow> a_type a)"
    "factById (Database_lookup K dec db) i = map_option (\<lambda>a. (a_type a, ref_clause (stored_ref a))) (facts_by_id fs i)"
    "enumerate (Database_lookup K dec db) a b = map stored_ref (facts_between fs a b)"
    "enumerateBack (Database_lookup K dec db) a b = map stored_ref (rev (facts_between fs b a))"
    "n \<le> length start \<Longrightarrow> seek (Database_lookup K dec db) t start n = map stored_ref (facts_prefix fs t start n)"
  by (simp_all add: Database_lookup_def Database_idByKey_facts [OF assms] Database_typeById_facts [OF assms]
      Database_factById_facts [OF assms] enumerate_facts [OF assms] Database_seek_facts [OF assms])

lemma Database_contract:
  assumes "inv db fs"
  shows "lookup_contract (Database_lookup K dec db) fs"
proof -
  note i = db_invD [OF assms] and l = Database_lookup_facts [OF assms]
  let ?L = "Database_lookup K dec db"
  have p: "startingId ?L = db_starting_id db" "firstFreeId ?L = db_next_id db" "count ?L = Database_count db"
    by (simp_all add: Database_lookup_def)
  show ?thesis
  proof (intro lookup_contract.intro lookup_forward.intro lookup_points.intro lookup_forward_axioms.intro lookup_contract_axioms.intro)
    show "map_option clause_view (factById ?L j) = map_option afact_view (facts_by_id fs j)" for j
    proof (cases "facts_by_id fs j")
      case (Some a)
      then have "fits a" using facts_by_id_Some [OF i(2), of j a] i(5) by simp
      then show ?thesis using Some by (simp add: l clause_view_stored)
    qed (simp add: l)
    show "in_interval (length (filter (\<lambda>a. a_type a = t) fs)) (count ?L t)" for t
      using i(8) by (simp add: p stats_ok_def of_type_def Database_count_def Interval_of_def in_interval_def)
    show "map Ref_view (enumerate ?L a b) = facts_between fs a b" for a b
      unfolding l by (rule map_stored_view [OF assms]) (auto simp: facts_between_def)
    show "map Ref_view (enumerateBack ?L a b) = rev (facts_between fs b a)" for a b
      unfolding l by (rule map_stored_view [OF assms]) (auto simp: facts_between_def)
    show "map Ref_view (seek ?L t start n) = facts_prefix fs t start n" if "n \<le> length start" for t start n
      unfolding l(6) [OF that] by (rule map_stored_view [OF assms]) (auto simp: facts_prefix_def)
  qed (use i in \<open>simp_all add: p l\<close>)
qed

lemma Database_total:
  assumes "inv db fs"
  shows "Database_total K dec db"
  using Database_lookup_facts [OF assms]
  by (simp add: Database_total_def Database_idByKey_facts [OF assms] Database_typeById_facts [OF assms]
      Database_factById_facts [OF assms] enumerate_facts [OF assms] Database_seek_facts [OF assms])

end

section \<open>Committing a batch\<close>

definition keys_disjoint :: "afact list \<Rightarrow> afact list \<Rightarrow> bool" where
  "keys_disjoint fs gs \<longleftrightarrow> (\<forall>a\<in>set fs. \<forall>b\<in>set gs. a_type a \<noteq> a_type b \<or> a_key a \<noteq> a_key b)"

lemma facts_ok_extend:
  assumes "facts_ok fs" "facts_ok gs" "keys_disjoint fs gs" "\<And>a b. a \<in> set fs \<Longrightarrow> b \<in> set gs \<Longrightarrow> a_id a < a_id b"
  shows "facts_ok (fs @ gs)"
  using assms by (auto simp: facts_ok_def keys_disjoint_def sorted_wrt_append)

lemma facts_ok_length:
  assumes "facts_ok fs" "\<And>a. a \<in> set fs \<Longrightarrow> WordId_invalid < a_id a"
  shows "length fs < 2 ^ 64"
proof -
  have "distinct (map a_id fs)" using assms(1) by (simp add: facts_ok_def strict_sorted_iff)
  then have "length fs = card (a_id ` set fs)" by (metis distinct_card length_map set_map)
  also have "\<dots> < card (UNIV :: Id set)"
  proof (rule psubset_card_mono)
    have "WordId_invalid \<notin> a_id ` set fs" using assms(2) by force
    then show "a_id ` set fs \<subset> UNIV" by blast
  qed simp
  finally show ?thesis by (simp add: card_word)
qed

lemma facts_ok_distinct:
  assumes "facts_ok fs"
  shows "distinct (map (\<lambda>a. entity_key db (a_id a)) fs)" "distinct (map index_key fs)"
proof -
  have d: "distinct fs" using assms by (auto simp: facts_ok_def distinct_map)
  have "inj_on (\<lambda>a. entity_key db (a_id a)) (set fs)" "inj_on index_key (set fs)"
    using facts_ok_id_inj [OF assms] facts_ok_key_inj [OF assms] by (simp_all add: inj_on_def index_key_inject)
  then show "distinct (map (\<lambda>a. entity_key db (a_id a)) fs)" "distinct (map index_key fs)"
    using d by (simp_all add: distinct_map)
qed

lemma stat_keeps:
  assumes "DenseMap_ok stats" "DenseMap_key_ok t" "DenseMap_lookup stats k \<noteq> None"
  shows "DenseMap_lookup (let stats = DenseMap_at MemoryStats_zero stats t in
    DenseMap_assign stats t (MemoryStats_plus (DenseMap_ref stats t) m)) k \<noteq> None"
proof -
  have "DenseMap_lookup (DenseMap_at MemoryStats_zero stats t) t \<noteq> None" using DenseMap_at_lookup [OF assms(1,2)] by auto
  then show ?thesis using assms(3) DenseMap_at_lookup [OF assms(1,2)] by (auto simp: Let_def DenseMap_assign_lookup)
qed

lemma commit_facts:
  assumes "\<forall>r\<in>set rs. Clause_ok (ref_clause r) \<and> ref_id r \<ge> db_next_id db \<and> DenseMap_key_ok (ref_type r)"
    "stats_ok stats fs" "length fs + length rs < 2 ^ 64"
  shows "\<exists>stats'. rfold (commit_fact enc db) rs (batch, stats) = ok (batch @ concat (map (fact_puts enc db) (map Ref_view rs)), stats') \<and>
    stats_ok stats' (fs @ map Ref_view rs) \<and> (\<forall>k. DenseMap_lookup stats k \<noteq> None \<longrightarrow> DenseMap_lookup stats' k \<noteq> None)"
  using assms
proof (induction rs arbitrary: batch stats fs)
  case (Cons r rs)
  have t: "a_type (Ref_view r) = ref_type r" by (simp add: Ref_view_def)
  obtain s1 where 1: "commit_fact enc db r (batch, stats) = ok (batch @ fact_puts enc db (Ref_view r), s1)"
      "stats_ok s1 (fs @ [Ref_view r])" "\<forall>k. DenseMap_lookup stats k \<noteq> None \<longrightarrow> DenseMap_lookup s1 k \<noteq> None"
    using commit_fact_puts [of r db enc batch stats] stats_ok_add [OF Cons.prems(2), of "Ref_view r"]
      stat_keeps [of stats "ref_type r"] Cons.prems by (auto simp: t stats_ok_def)
  have "\<forall>r\<in>set rs. Clause_ok (ref_clause r) \<and> ref_id r \<ge> db_next_id db \<and> DenseMap_key_ok (ref_type r)"
    "length (fs @ [Ref_view r]) + length rs < 2 ^ 64" using Cons.prems(1,3) by auto
  note IH = Cons.IH [OF this(1) 1(2) this(2), of "batch @ fact_puts enc db (Ref_view r)"]
  show ?case using IH 1 by auto
qed simp

context rocks_db
begin

lemma commit_ok:
  assumes i: "inv db fs" and s: "FactSet_ok s" and c: "\<forall>f\<in>set (fs_facts s). Clause_ok (Fact_clause f)"
    and nx: "db_next_id db \<le> FactSet.starting_id s" and d: "keys_disjoint fs (FactSet_facts s)"
  shows "\<exists>db'. Database_commit K enc s db = ok db' \<and> inv db' (fs @ FactSet_facts s) \<and>
    (db_saved content db \<longrightarrow> db_saved content db') \<and> db_starting_id db' = db_starting_id db \<and> db_version db' = db_version db \<and>
    db_next_id db' = (if FactSet_facts s = [] then db_next_id db else FactSet_firstFreeId s) \<and>
    (\<forall>f. f \<notin> {F_entities, F_keys, F_admin, F_stats} \<longrightarrow> content (db_store db') f = content (db_store db) f)"
proof (cases "fs_facts s = []")
  case True
  then show ?thesis using db_invD(1) [OF i] i
    by (auto simp: Database_commit_def requireOpen_def FactSet_empty_def FactSet_facts_def)
next
  case False
  note inv = db_invD [OF i]
  let ?gs = "FactSet_facts s"
  have lt: "a_id a < a_id b" if "a \<in> set fs" "b \<in> set ?gs" for a b
    using inv(5) [OF that(1)] that(2) FactSet_fact_bounds(1) [OF s] nx by (fastforce simp: FactSet_facts_def)
  have ok: "facts_ok (fs @ ?gs)" by (rule facts_ok_extend [OF inv(2) FactSet_facts_ok [OF s] d lt])
  have fit: "fits (Fact_view f)" if "f \<in> set (fs_facts s)" for f
    using Clause_ok_bytes(2,3) [of "Fact_clause f"] c that FactSet_okD(4) [OF s that]
    by (auto simp: fits_def Fact_key_def Fact_value_def Clause_ok_def)
  have bounds: "db_starting_id db \<le> a_id b \<and> a_id b < FactSet_firstFreeId s \<and> fits b" if "b \<in> set ?gs" for b
    using that FactSet_fact_bounds(1,2) [OF s] fit inv(4) nx by (fastforce simp: FactSet_facts_def)
  have free: "db_next_id db \<le> FactSet_firstFreeId s"
    using FactSet_unat_firstFree [OF s] nx by (simp add: word_le_nat_alt)
  have len: "length (fs @ ?gs) < 2 ^ 64"
    by (rule facts_ok_length [OF ok]) (use inv(3,5) bounds in \<open>fastforce\<close>)
  let ?rs = "map Fact_ref (fs_facts s)"
  have vs: "map Ref_view ?rs = ?gs" by (simp add: FactSet_facts_def Fact_view_def)
  have rs: "\<forall>r\<in>set ?rs. Clause_ok (ref_clause r) \<and> ref_id r \<ge> db_next_id db \<and> DenseMap_key_ok (ref_type r)"
    using c FactSet_okD(4) [OF s] FactSet_fact_bounds(1) [OF s] nx by (fastforce simp: Fact_ref_def)
  obtain stats where st: "rfold (commit_fact enc db) ?rs ([], db_stats db) = ok (concat (map (fact_puts enc db) ?gs), stats)"
    "stats_ok stats (fs @ ?gs)" "\<And>k. DenseMap_lookup (db_stats db) k \<noteq> None \<Longrightarrow> DenseMap_lookup stats k \<noteq> None"
    using commit_facts [OF rs inv(8), of enc "[]"] len unfolding vs by (auto simp: FactSet_facts_def)
  obtain items where it: "DenseMap_items stats = ok items" "sorted_wrt (<) (map fst items)"
    "set items = {(k, v). DenseMap_lookup stats k = Some v}"
    using DenseMap_items_spec [of stats] st(2) by (auto simp: stats_ok_def)
  let ?ss = "map (\<lambda>(pid, m). (F_stats, storeLE pid, MemoryStats_bytes m))
    (filter (\<lambda>(pid, m). Some m \<noteq> DenseMap_lookup (db_stats db) pid) items)"
  let ?batch = "concat (map (fact_puts enc db) ?gs) @ (F_admin, storeLE (AdminId_code NEXT_ID), storeLE (FactSet_firstFreeId s)) # ?ss"
  let ?db = "db\<lparr>db_store := rk_write K ?batch (db_store db), db_next_id := FactSet_firstFreeId s, db_stats := stats\<rparr>"
  have "\<not> FactSet.starting_id s < db_next_id db" using nx by simp
  then have run: "Database_commit K enc s db = ok ?db"
    using inv(1) False st(1) it(1)
    by (simp add: Database_commit_def requireOpen_def FactSet_empty_def FactSet_enumerate_all [OF s] Let_def)
  have ssf: "family_puts f ?ss = (if f = F_stats then map snd ?ss else [])" for f
    by (auto simp: family_puts_def filter_empty_conv)
  have sss: "map snd ?ss = map (\<lambda>(pid, m). (storeLE pid, MemoryStats_bytes m))
      (filter (\<lambda>(pid, m). Some m \<noteq> DenseMap_lookup (db_stats db) pid) items)" by simp
  have ek: "entity_key ?db = entity_key db" by (rule ext) (simp add: entity_key_def legacy_def)
  note dist = facts_ok_distinct(1) [OF ok, of db] facts_ok_distinct(2) [OF ok]
  have E: "content (db_store ?db) F_entities = map_of (map (\<lambda>a. (entity_key ?db (a_id a), entity_value enc a)) (fs @ ?gs))"
    unfolding ek using dist(1) put_all_fresh [of "map (\<lambda>a. (entity_key db (a_id a), entity_value enc a)) fs" F_entities ?batch]
    by (simp add: written family_fact_puts ssf inv(6) comp_def)
  have X: "content (db_store ?db) F_keys = map_of (map (\<lambda>a. (index_key a, storeLE (a_id a))) (fs @ ?gs))"
    using dist(2) put_all_fresh [of "map (\<lambda>a. (index_key a, storeLE (a_id a))) fs" F_keys ?batch]
    by (simp add: written family_fact_puts ssf inv(7) comp_def)
  have "inv ?db (fs @ ?gs)"
    unfolding db_inv_def using inv(1,3,4,5) ok free bounds E X st(2) by (auto intro: less_le_trans order_trans)
  moreover have "db_saved content ?db" if "db_saved content db"
  proof -
    have "content (db_store ?db) F_stats = stats_entry (db_stats db) ++ map_of (rev (map (\<lambda>(pid, m). (storeLE pid, MemoryStats_bytes m))
        (filter (\<lambda>(pid, m). Some m \<noteq> DenseMap_lookup (db_stats db) pid) items)))"
      using that unfolding db_saved_def by (simp add: written put_all_family family_fact_puts ssf sss del: map_map)
    also have "\<dots> = stats_entry stats"
      by (rule stats_saved) (use inv(8) st(2,3) it(2,3) in \<open>auto simp: stats_ok_def\<close>)
    finally have "content (db_store ?db) F_stats = stats_entry (db_stats ?db)" by simp
    then show ?thesis using that admin_keys
      unfolding db_saved_def by (simp add: written put_all_family family_fact_puts ssf)
  qed
  moreover have "content (db_store ?db) f = content (db_store db) f" if "f \<notin> {F_entities, F_keys, F_admin, F_stats}" for f
  proof -
    have "family_puts f (concat (map (fact_puts enc db) gs)) = []" for gs using that by (induction gs) (auto simp: fact_puts_def)
    then show ?thesis using that by (auto simp: written put_all_family ssf)
  qed
  ultimately show ?thesis using run False by (auto simp: FactSet_facts_def)
qed

lemma optimize_content:
  "content (db_store (optimize K db)) f = (if Family_keep f then content (db_store db) f else Map.empty)"
  by (cases f) (simp_all add: optimize_def families_def Family_keep_def cleared)

lemma optimize_facts: "inv db fs \<Longrightarrow> inv (optimize K db) fs"
  using optimize_content [of db F_entities] optimize_content [of db F_keys]
  by (simp add: db_inv_def Family_keep_def optimize_def entity_key_def legacy_def cong: map_cong)

lemma commit_out_of_sequence:
  assumes "inv db fs" "fs_facts s \<noteq> []" "FactSet.starting_id s < db_next_id db"
  shows "Database_commit K enc s db = raise (RtsError ''batch inserted out of sequence'')"
  using assms db_invD(1) [OF assms(1)] by (simp add: Database_commit_def requireOpen_def FactSet_empty_def)

end

section \<open>A database in memory\<close>

abbreviation log_content :: "puts \<Rightarrow> Family \<Rightarrow> bytes \<rightharpoonup> bytes" where
  "log_content s f \<equiv> map_of (log_entries s f)"

interpretation log_db: rocks_db log_rocks log_content leb128_enc leb128_dec
  by unfold_locales

definition sample_db :: "puts Database" where
  "sample_db = \<lparr>db_version = 3, db_open = True, db_store = [], db_starting_id = 1024, db_next_id = 1024,
     db_stats = DenseMap_new, db_unit_counters = [], db_derived_counters = Map.empty,
     db_mem = Mem_empty, db_usets = Usets_new 0\<rparr>"

lemma sample_db_inv: "db_inv log_content leb128_enc sample_db []"
  by (simp add: db_inv_def sample_db_def facts_ok_def log_entries_def stats_ok_def stats_count_def of_type_def WordId_invalid_def)

lemma sample_commit:
  "\<exists>db'. Database_commit log_rocks leb128_enc sample_set sample_db = ok db' \<and>
    db_inv log_content leb128_enc db' (FactSet_facts sample_set) \<and> db_next_id db' = 1027"
proof -
  have "FactSet.starting_id sample_set = 1024" by code_simp
  then have "db_next_id sample_db \<le> FactSet.starting_id sample_set" by (simp add: sample_db_def)
  from log_db.commit_ok [OF sample_db_inv FactSet_reach_ok [OF sample_set_reach] _ this]
  show ?thesis using FactSet_reach_clauses [OF sample_set_reach]
    by (auto simp: keys_disjoint_def sample_set_facts sample_set_free)
qed

section \<open>Properties\<close>

text \<open>
  C11. A database whose column families hold the entries of a list of facts is a \<^verbatim>\<open>Lookup\<close> over that list:
  every query returns without an error, also the enumeration of a database with the old keys, which goes
  from id to id, and the answers of \<^verbatim>\<open>idByKey\<close>, \<^verbatim>\<open>typeById\<close>, \<^verbatim>\<open>factById\<close>, \<^verbatim>\<open>count\<close>, both enumerations and
  the prefix seeks are those of the contract that the in-memory fact sets satisfy. RocksDB and the
  variable-length integers of folly are only assumed to do what their documentation says.
\<close>

theorem Database_refines_lookup:
  assumes "rocks_db K content enc dec" "db_inv content enc db fs"
  shows "Database_total K dec db \<and> lookup_contract (Database_lookup K dec db) fs"
  using rocks_db.Database_total [OF assms] rocks_db.Database_contract [OF assms] by simp

theorem Database_refines_lookup_witness:
  "\<exists>db. Database_total log_rocks leb128_dec db \<and>
    lookup_contract (Database_lookup log_rocks leb128_dec db)
      [\<lparr>a_id = 1024, a_type = 7, a_key = [1, 2], a_value = [9]\<rparr>,
       \<lparr>a_id = 1025, a_type = 5, a_key = [1], a_value = []\<rparr>,
       \<lparr>a_id = 1026, a_type = 7, a_key = [1, 1], a_value = []\<rparr>]"
proof -
  obtain db where "db_inv log_content leb128_enc db (FactSet_facts sample_set)" using sample_commit by blast
  from Database_refines_lookup [OF log_db.rocks_db_axioms this] show ?thesis unfolding sample_set_facts by blast
qed

text \<open>
  C12. \<^verbatim>\<open>commit\<close> of any fact set that the operations of \<^verbatim>\<open>FactSet\<close> can produce and whose keys are new to the
  database: it succeeds exactly if the set is empty or its ids start at or after the first free id of the
  database, and otherwise reports that the batch is out of sequence. When it succeeds, the database holds
  the old facts followed by the new ones, with statistics that count them, its first free id is that of
  the batch, and the state kept for reopening it (the next id and the changed statistics) is up to date.
\<close>

theorem commit_extends_facts:
  assumes "rocks_db K content enc dec" "db_inv content enc db fs" "FactSet_reach s" "keys_disjoint fs (FactSet_facts s)"
  shows "if FactSet_facts s = [] \<or> db_next_id db \<le> FactSet.starting_id s
    then \<exists>db'. Database_commit K enc s db = ok db' \<and> db_inv content enc db' (fs @ FactSet_facts s) \<and>
      (db_saved content db \<longrightarrow> db_saved content db') \<and> db_starting_id db' = db_starting_id db \<and> db_version db' = db_version db \<and>
      db_next_id db' = (if FactSet_facts s = [] then db_next_id db else FactSet_firstFreeId s)
    else Database_commit K enc s db = raise (RtsError ''batch inserted out of sequence'')"
proof -
  have r: "FactSet_ok s" "\<forall>f\<in>set (fs_facts s). Clause_ok (Fact_clause f)"
    using FactSet_reach_ok FactSet_reach_clauses assms(3) by auto
  have e: "FactSet_facts s = [] \<longleftrightarrow> fs_facts s = []" by (simp add: FactSet_facts_def)
  consider "FactSet_facts s = []" | "db_next_id db \<le> FactSet.starting_id s"
    | "fs_facts s \<noteq> []" "FactSet.starting_id s < db_next_id db" using e not_le by blast
  then show ?thesis
  proof cases
    case 1
    moreover have "requireOpen db = ok ()" using db_invD(1) [OF assms(2)] by (simp add: requireOpen_def guard_def)
    ultimately show ?thesis using assms(2) e by (simp add: Database_commit_def FactSet_empty_def)
  next
    case 2
    then show ?thesis using rocks_db.commit_ok [OF assms(1,2) r 2 assms(4)] by auto
  next
    case 3
    then show ?thesis using rocks_db.commit_out_of_sequence [OF assms(1,2) 3] e by auto
  qed
qed

theorem commit_extends_facts_witness:
  "\<exists>db'. Database_commit log_rocks leb128_enc sample_set sample_db = ok db' \<and>
    db_inv log_content leb128_enc db' (FactSet_facts sample_set)"
proof -
  have "FactSet.starting_id sample_set = 1024" by code_simp
  then have "db_next_id sample_db \<le> FactSet.starting_id sample_set" by (simp add: sample_db_def)
  then show ?thesis
    using commit_extends_facts [OF log_db.rocks_db_axioms sample_db_inv sample_set_reach]
    by (auto simp: keys_disjoint_def)
qed

end
