(* ===== verification/Rocks_Ownership.thy ===== *)
theory Rocks_Ownership
  imports Rocks_Commit Trie_Array Slices
begin

text \<open>
  Ownership in \<^verbatim>\<open>rocksdb/rocksdb.cpp\<close>: the log of ownership units, the stored sets and fact owners, and the
  constructor of \<^verbatim>\<open>DatabaseImpl\<close>, which reads them back. What is only logged is left out.
\<close>

section \<open>Elias-Fano lists on disk\<close>

text \<open>The fields of folly's compressed list; the four pointers are offsets into its data.\<close>

record OwnerSet =
  own_size :: u64
  own_numLowerBits :: u8
  own_upperSizeBytes :: u64
  own_skipPointers :: u64
  own_forwardPointers :: u64
  own_lower :: u64
  own_upper :: u64
  own_data :: bytes

definition serializeEliasFano :: "OwnerSet \<Rightarrow> bytes" where
  "serializeEliasFano e =
     storeNat (own_size e) @ storeNat (ucast (own_numLowerBits e)) @ storeNat (own_upperSizeBytes e) @
     storeNat (own_skipPointers e) @ storeNat (own_forwardPointers e) @ storeNat (own_lower e) @ storeNat (own_upper e) @
     own_data e"

definition deserializeEliasFano :: "bytes \<Rightarrow> OwnerSet result" where
  "deserializeEliasFano inp =
     rbind (Input_trustedNat inp) (\<lambda>(sz, inp).
     rbind (Input_trustedNat inp) (\<lambda>(nlb, inp).
     rbind (Input_trustedNat inp) (\<lambda>(usb, inp).
     rbind (Input_trustedNat inp) (\<lambda>(skipPointers, inp).
     rbind (Input_trustedNat inp) (\<lambda>(forwardPointers, inp).
     rbind (Input_trustedNat inp) (\<lambda>(lower, inp).
     rbind (Input_trustedNat inp) (\<lambda>(upper, inp).
     rbind (Input_rest inp) (\<lambda>(bs, _).
     ok \<lparr>own_size = sz, own_numLowerBits = ucast nlb, own_upperSizeBytes = usb, own_skipPointers = skipPointers,
       own_forwardPointers = forwardPointers, own_lower = lower, own_upper = upper, own_data = bs\<rparr>))))))))"

definition SetOp_nat :: "SetOp \<Rightarrow> u64" where
  "SetOp_nat op = (case op of Or \<Rightarrow> 0 | And \<Rightarrow> 1)"

definition SetOp_from :: "u64 \<Rightarrow> SetOp result" where
  "SetOp_from n = (if n = 0 then ok Or else if n = 1 then ok And else raise Undefined)"

section \<open>Stored sets\<close>

definition putOwnerSet :: "UsetId \<Rightarrow> OwnerSet SetExpr \<Rightarrow> Family \<times> bytes \<times> bytes" where
  "putOwnerSet i e = (F_ownershipSets, storeNat (ucast i), storeNat (SetOp_nat (se_op e)) @ serializeEliasFano (se_set e))"

definition SetIterator_get :: "bytes \<times> bytes \<Rightarrow> (UsetId \<times> OwnerSet SetExpr) result" where
  "SetIterator_get = (\<lambda>(k, v).
     rbind (Input_trustedNat k) (\<lambda>(usetid, _).
     rbind (Input_trustedNat v) (\<lambda>(n, v).
     rbind (SetOp_from n) (\<lambda>op.
     rbind (deserializeEliasFano v) (\<lambda>e.
     ok (ucast usetid, \<lparr>se_op = op, se_set = e\<rparr>))))))"

text \<open>The first id with the number of ids, and the sets.\<close>

definition Database_sizes :: "'s Rocks \<Rightarrow> 's \<Rightarrow> (u64 \<times> u64) result" where
  "Database_sizes K s =
     (case rk_first K s F_ownershipSets of
        [] \<Rightarrow> ok (0, 0)
      | es \<Rightarrow>
          rbind (Input_trustedNat (fst (last es))) (\<lambda>(last, _).
          rbind (Input_trustedNat (fst (hd es))) (\<lambda>(first, _). ok (first, last - first + 1))))"

definition Database_getSetIterator :: "'s Rocks \<Rightarrow> 's \<Rightarrow> ((u64 \<times> u64) \<times> (UsetId \<times> OwnerSet SetExpr) list) result" where
  "Database_getSetIterator K s =
     rbind (Database_sizes K s) (\<lambda>sizes.
     rbind (rmap SetIterator_get (rk_first K s F_ownershipSets)) (\<lambda>es. ok (sizes, es)))"

definition load_set :: "(OwnerSet, 'r) EliasFano \<Rightarrow> UsetId \<times> OwnerSet SetExpr \<Rightarrow> UsetMem \<times> Usets \<Rightarrow> (UsetMem \<times> Usets) result option" where
  "load_set F = (\<lambda>(i, e) (m, s).
     map_option (\<lambda>st.
       rbind (Usets_add_set st 0 m s) (\<lambda>(p, m, s).
       rbind (Mem_modify p (\<lambda>u. u\<lparr>us_id := i\<rparr>) m) (\<lambda>m. ok (m, s))))
     (fromEliasFano F (se_set e)))"

fun load_sets :: "(OwnerSet, 'r) EliasFano \<Rightarrow> (UsetId \<times> OwnerSet SetExpr) list \<Rightarrow> UsetMem \<times> Usets \<Rightarrow> (UsetMem \<times> Usets) result option" where
  "load_sets F [] ms = Some (ok ms)"
| "load_sets F (e # es) ms = then_do (load_set F e ms) (load_sets F es)"

definition loadOwnershipSets :: "'s Rocks \<Rightarrow> (OwnerSet, 'r) EliasFano \<Rightarrow> 's \<Rightarrow> (UsetMem \<times> Usets) result option" where
  "loadOwnershipSets K F s =
     then_do (Some (Database_getSetIterator K s)) (\<lambda>((first, sz), es).
     load_sets F es (Mem_empty, Usets_new (ucast (first + sz))))"

section \<open>The log of ownership units\<close>

definition load_unit_counter :: "bytes \<times> bytes \<Rightarrow> u64 list \<Rightarrow> u64 list result" where
  "load_unit_counter = (\<lambda>(k, v) r.
     rbind (Input_trustedNat k) (\<lambda>(i, _).
     if i = of_nat (length r) then ok (r @ [0])
     else if i + 1 = of_nat (length r) then (if r = [] then raise Undefined else ok (butlast r @ [last r + 1]))
     else raise (RtsError ''rocksdb: invalid ownershipUnits'')))"

definition loadOwnershipUnitCounters :: "'s Rocks \<Rightarrow> 's \<Rightarrow> u64 list result" where
  "loadOwnershipUnitCounters K s = rfold load_unit_counter (rk_first K s F_ownershipRaw) []"

definition load_derived_counter :: "bytes \<times> bytes \<Rightarrow> (u64 \<rightharpoonup> u64) \<Rightarrow> (u64 \<rightharpoonup> u64) result" where
  "load_derived_counter = (\<lambda>(k, v) r.
     rbind (Input_trustedNat k) (\<lambda>(pid, _).
     ok (r(pid \<mapsto> (case r pid of None \<Rightarrow> 0 | Some n \<Rightarrow> n) + 1))))"

definition loadOwnershipDerivedCounters :: "'s Rocks \<Rightarrow> 's \<Rightarrow> (u64 \<rightharpoonup> u64) result" where
  "loadOwnershipDerivedCounters K s = rfold load_derived_counter (rk_first K s F_ownershipDerivedRaw) Map.empty"

definition getUnitId :: "'s Rocks \<Rightarrow> 's Database \<Rightarrow> bytes \<Rightarrow> u32 option result" where
  "getUnitId K db unit =
     rbind (guard (db_open db) Undefined) (\<lambda>_.
     case rk_get K (db_store db) F_ownershipUnits unit of
       None \<Rightarrow> ok None
     | Some val \<Rightarrow> rbind (guard (length val = 4) CheckFailed) (\<lambda>_. ok (Some (loadLE val))))"

record OwnershipSet =
  oset_unit :: bytes
  oset_ids :: "u64 list"

record AddState =
  as_batch :: puts
  as_touched :: "nat list"
  as_new_count :: nat

definition add_ownership_set :: "'s Rocks \<Rightarrow> 's Database \<Rightarrow> OwnershipSet \<Rightarrow> AddState \<Rightarrow> AddState result" where
  "add_ownership_set K db st a =
     (let counters = db_unit_counters db in
      rbind (getUnitId K db (oset_unit st)) (\<lambda>res.
      rbind (case res of
          Some unit_id \<Rightarrow>
            if unat unit_id \<ge> length counters then raise (RtsError ''inconsistent unit id'')
            else ok (unit_id, a\<lparr>as_touched := as_touched a @ [unat unit_id]\<rparr>)
        | None \<Rightarrow>
            let unit_id = of_nat (length counters + as_new_count a) :: u32 in
            ok (unit_id, a\<lparr>as_batch := as_batch a @ [(F_ownershipUnits, oset_unit st, storeLE unit_id)],
              as_new_count := as_new_count a + 1\<rparr>)) (\<lambda>(unit_id, a).
      let key = storeNat (ucast unit_id) @ storeNat (if unat unit_id < length counters then counters ! unat unit_id else 0) in
      ok (a\<lparr>as_batch := as_batch a @ [(F_ownershipRaw, key, concat (map storeLE (oset_ids st)))]\<rparr>))))"

definition addOwnership :: "'s Rocks \<Rightarrow> OwnershipSet list \<Rightarrow> 's Database \<Rightarrow> 's Database result" where
  "addOwnership K ownership db =
     rbind (requireOpen db) (\<lambda>_.
     if ownership = [] then ok db
     else
       rbind (rfold (add_ownership_set K db) ownership \<lparr>as_batch = [], as_touched = [], as_new_count = 0\<rparr>) (\<lambda>a.
       ok (db\<lparr>db_store := rk_write K (as_batch a) (db_store db),
         db_unit_counters := fold (\<lambda>i cs. cs[i := cs ! i + 1]) (as_touched a) (db_unit_counters db) @
           replicate (as_new_count a) 1\<rparr>)))"

text \<open>Arrays of 64-bit numbers in a value; what is left at the end is ignored.\<close>

fun words_of :: "nat \<Rightarrow> bytes \<Rightarrow> u64 list" where
  "words_of 0 bs = []"
| "words_of (Suc n) bs = loadLE bs # words_of n (drop 8 bs)"

fun pair_ids :: "u64 list \<Rightarrow> Ids list" where
  "pair_ids (x # y # xs) = \<lparr>ids_start = x, ids_finish = y\<rparr> # pair_ids xs"
| "pair_ids xs = []"

definition UnitIterator_get :: "bytes \<times> bytes \<Rightarrow> OwnershipUnit result" where
  "UnitIterator_get = (\<lambda>(k, v).
     rbind (Input_trustedNat k) (\<lambda>(unit, _).
     ok \<lparr>ou_unit = ucast unit, ou_ids = pair_ids (words_of (2 * (length v div 16)) v)\<rparr>))"

definition getOwnershipUnitIterator :: "'s Rocks \<Rightarrow> 's Database \<Rightarrow> OwnershipUnit list result" where
  "getOwnershipUnitIterator K db = rmap UnitIterator_get (rk_first K (db_store db) F_ownershipRaw)"

section \<open>Storing and reading computed ownership\<close>

fun store_sets :: "UsetId \<Rightarrow> OwnerSet SetExpr option list \<Rightarrow> puts result" where
  "store_sets i [] = ok []"
| "store_sets i (None # es) = raise Undefined"
| "store_sets i (Some e # es) = rbind (store_sets (i + 1) es) (\<lambda>ps. ok (putOwnerSet i e # ps))"

definition store_fact :: "Id \<times> UsetId \<Rightarrow> Family \<times> bytes \<times> bytes" where
  "store_fact = (\<lambda>(i, usetid). (F_factOwners, storeNat i, storeNat (ucast usetid)))"

definition storeOwnership ::
    "'s Rocks \<Rightarrow> (OwnerSet, 'r) EliasFano \<Rightarrow> OwnerSet ComputedOwnership \<Rightarrow> 's Database \<Rightarrow> 's Database result option" where
  "storeOwnership K F ownership db =
     then_do (Some (requireOpen db)) (\<lambda>_.
     then_do (Some (if co_sets ownership = [] then ok (db_store db)
       else rbind (store_sets (co_firstId ownership) (co_sets ownership)) (\<lambda>batch. ok (rk_write K batch (db_store db))))) (\<lambda>s.
     then_do (loadOwnershipSets K F s) (\<lambda>(m, us).
     Some (ok (db\<lparr>db_store := (if co_facts ownership = [] then s else rk_write K (map store_fact (co_facts ownership)) s),
       db_mem := m, db_usets := us\<rparr>)))))"

definition StoredOwnership_getOwner :: "'s Rocks \<Rightarrow> 's Database \<Rightarrow> Id \<Rightarrow> UsetId result" where
  "StoredOwnership_getOwner K db i =
     rbind (guard (db_open db) Undefined) (\<lambda>_.
     case rk_seekForPrev K (db_store db) F_factOwners None (storeNat i) of
       [] \<Rightarrow> ok INVALID_USET
     | (k, v) # _ \<Rightarrow> rbind (Input_trustedNat v) (\<lambda>(n, _). ok (ucast n)))"

definition StoredOwnership_nextSetId :: "'s Database \<Rightarrow> UsetId" where
  "StoredOwnership_nextSetId db = ut_nextId (db_usets db)"

definition StoredOwnership_lookupSet :: "'s Database \<Rightarrow> SetU32 SetExpr \<Rightarrow> UsetId result" where
  "StoredOwnership_lookupSet db e =
     (case Usets_lookup \<lparr>us_exp = e, us_refs = 0, us_id = INVALID_USET, us_ptr = PNull\<rparr> (db_mem db) (db_usets db) of
        Some p \<Rightarrow> rbind (Mem_get p (db_mem db)) (\<lambda>u. ok (us_id u))
      | None \<Rightarrow> ok INVALID_USET)"

section \<open>Opening a database\<close>

datatype Mode = ReadOnly | ReadWrite | Create

definition DatabaseImpl_new ::
    "'s Rocks \<Rightarrow> (OwnerSet, 'r) EliasFano \<Rightarrow> Mode \<Rightarrow> Id \<Rightarrow> u64 \<Rightarrow> 's \<Rightarrow> 's Database result option" where
  "DatabaseImpl_new K F mode start version s =
     then_do (Some (getAdminValue K STARTING_ID start (mode = Create) (ok ()) s)) (\<lambda>(starting_id, s).
     then_do (Some (getAdminValue K NEXT_ID start (mode = Create)
       (if mode \<noteq> Create then raise (RtsError ''corrupt database - missing NEXT_ID'') else ok ()) s)) (\<lambda>(next_id, s).
     then_do (Some (getAdminValue K VERSION version (mode = Create) (ok ()) s)) (\<lambda>(db_version, s).
     then_do (Some (if db_version \<noteq> version then raise (RtsError ''unexpected database version'') else ok ())) (\<lambda>_.
     then_do (Some (loadStats K s)) (\<lambda>stats.
     then_do (Some (loadOwnershipUnitCounters K s)) (\<lambda>units.
     then_do (Some (loadOwnershipDerivedCounters K s)) (\<lambda>derived.
     then_do (loadOwnershipSets K F s) (\<lambda>(m, us).
     Some (ok \<lparr>db_version = db_version, db_open = True, db_store = s, db_starting_id = starting_id, db_next_id = next_id,
       db_stats = stats, db_unit_counters = units, db_derived_counters = derived, db_mem = m, db_usets = us\<rparr>)))))))))"

end
