(* ===== verification/Rocks_Ownership_Correct.thy ===== *)
theory Rocks_Ownership_Correct
  imports Rocks_Ownership Trie_Array_Correct
begin

text \<open>
  What the ownership operations of the database store and what is read back: the lists of the owner
  sets, the table of sets that is kept in memory, the intervals of fact owners, and a whole database
  when it is opened again.
\<close>

section \<open>Lists of values\<close>

lemma trusted_store [simp]: "Input_trustedNat (storeNat v @ r) = ok (v, r)" "Input_trustedNat (storeNat v) = ok (v, [])"
  using load_store [of v r] load_store [of v "[]"] by (simp_all add: Input_trustedNat_def)

lemma ucast_back [simp]: "ucast (ucast (i :: u32) :: u64) = i" "ucast (ucast (b :: u8) :: u64) = b"
  using unat_lt_32 [of i] unsigned_less [of b, where 'a = nat] by (simp_all add: word_unat_eq_iff unat_ucast_mod)

lemma deserializeEliasFano_serialize [simp]: "deserializeEliasFano (serializeEliasFano e) = ok e"
  by (simp add: deserializeEliasFano_def serializeEliasFano_def)

lemma SetOp_roundtrip [simp]: "SetOp_from (SetOp_nat op) = ok op"
  by (cases op) (simp_all add: SetOp_from_def SetOp_nat_def)

definition set_entry :: "UsetId \<times> OwnerSet SetExpr \<Rightarrow> bytes \<times> bytes" where
  "set_entry x = snd (putOwnerSet (fst x) (snd x))"

lemma SetIterator_entry [simp]: "SetIterator_get (set_entry x) = ok x"
  by (cases x) (simp add: SetIterator_get_def set_entry_def putOwnerSet_def)

lemma fst_set_entry: "fst (set_entry x) = storeNat (ucast (fst x))"
  by (simp add: set_entry_def putOwnerSet_def)

lemma ucast_less: "(ucast (i :: u32) :: u64) < ucast j \<longleftrightarrow> i < j"
  using unat_lt_32 [of i] unat_lt_32 [of j] by (simp add: word_less_nat_alt unat_ucast_mod)

lemma ucast_inject: "(ucast (i :: u32) :: u64) = ucast j \<longleftrightarrow> i = j"
  by (metis ucast_less linorder_neqE order_less_irrefl)

definition sizes_of :: "(UsetId \<times> 'e) list \<Rightarrow> u64 \<times> u64" where
  "sizes_of xs = (if xs = [] then (0, 0) else (ucast (fst (hd xs)), ucast (fst (last xs)) - ucast (fst (hd xs)) + 1))"

context rocks_store
begin

lemma sets_first:
  assumes "content s F_ownershipSets = map_of (map set_entry xs)" "sorted_wrt (<) (map fst xs)"
  shows "rk_first K s F_ownershipSets = map set_entry xs"
  by (rule first_unique [OF _ assms(1)]) (use assms(2) in \<open>simp add: sorted_wrt_map fst_set_entry storeNat_less_iff ucast_less\<close>)

lemma getSetIterator_ok:
  assumes "content s F_ownershipSets = map_of (map set_entry xs)" "sorted_wrt (<) (map fst xs)"
  shows "Database_getSetIterator K s = ok (sizes_of xs, xs)"
proof -
  have "rmap SetIterator_get (map set_entry xs) = ok xs" by (induction xs) simp_all
  moreover have "Database_sizes K s = ok (sizes_of xs)"
  proof (cases xs)
    case (Cons y ys)
    have "fst (last (map set_entry xs)) = storeNat (ucast (fst (last xs)))" by (subst last_map) (use Cons in \<open>simp_all add: fst_set_entry\<close>)
    then show ?thesis using Cons by (simp add: Database_sizes_def sets_first [OF assms] sizes_of_def fst_set_entry del: last.simps)
  qed (simp add: Database_sizes_def sets_first [OF assms] sizes_of_def)
  ultimately show ?thesis by (simp add: Database_getSetIterator_def sets_first [OF assms])
qed

end

section \<open>The sets in memory\<close>

definition uset_cell :: "UsetMem \<Rightarrow> uaddr \<Rightarrow> SetU32 SetExpr \<times> UsetId" where
  "uset_cell m a = (us_exp (the (um_heap m a)), us_id (the (um_heap m a)))"

definition uset_table :: "UsetMem \<Rightarrow> Usets \<Rightarrow> (SetU32 SetExpr \<times> UsetId) list \<Rightarrow> bool" where
  "uset_table m s T \<longleftrightarrow> distinct (ut_usets s) \<and> (\<forall>a\<in>set (ut_usets s). a < um_fresh m \<and> um_heap m a \<noteq> None) \<and>
     T = map (uset_cell m) (ut_usets s) \<and> distinct (map fst T) \<and> (\<forall>x\<in>set T. canonical (fst x))"

definition table_put :: "'a \<Rightarrow> 'b \<Rightarrow> ('a \<times> 'b) list \<Rightarrow> ('a \<times> 'b) list" where
  "table_put e i T = (if e \<in> fst ` set T then map (\<lambda>(f, j). (f, if f = e then i else j)) T else T @ [(e, i)])"

lemma uset_tableD:
  assumes "uset_table m s T"
  shows "distinct (ut_usets s)" "\<And>a. a \<in> set (ut_usets s) \<Longrightarrow> a < um_fresh m \<and> um_heap m a \<noteq> None"
    "T = map (uset_cell m) (ut_usets s)" "distinct (map fst T)" "\<And>x. x \<in> set T \<Longrightarrow> canonical (fst x)"
  using assms unfolding uset_table_def by blast+

lemma table_find:
  assumes "uset_table m s T" "canonical (us_exp u)"
  shows "Usets_find s m u = Some p \<longleftrightarrow> p \<in> set (ut_usets s) \<and> fst (uset_cell m p) = us_exp u"
    "Usets_find s m u = None \<longleftrightarrow> us_exp u \<notin> fst ` set T"
proof -
  let ?P = "\<lambda>p. case um_heap m p of None \<Rightarrow> False | Some v \<Rightarrow> SetExpr_eq (us_exp v) (us_exp u)"
  have P: "?P p \<longleftrightarrow> fst (uset_cell m p) = us_exp u" if p: "p \<in> set (ut_usets s)" for p
  proof -
    obtain v where "um_heap m p = Some v" using uset_tableD(2) [OF assms(1) p] by auto
    moreover have "canonical (fst (uset_cell m p))"
      by (rule uset_tableD(5) [OF assms(1)]) (use uset_tableD(3) [OF assms(1)] p in simp)
    ultimately show ?thesis using SetExpr_eq_canonical assms(2) by (simp add: uset_cell_def)
  qed
  have "find ?P (ut_usets s) = find (\<lambda>p. fst (uset_cell m p) = us_exp u) (ut_usets s)"
    using P by (auto intro: find_cong)
  moreover have "inj_on (\<lambda>p. fst (uset_cell m p)) (set (ut_usets s))"
    using uset_tableD(4) [OF assms(1)] unfolding uset_tableD(3) [OF assms(1)] by (simp add: distinct_map comp_def)
  then have "find (\<lambda>p. fst (uset_cell m p) = us_exp u) (ut_usets s) = Some p \<longleftrightarrow> p \<in> set (ut_usets s) \<and> fst (uset_cell m p) = us_exp u"
    by (intro find_unique) (auto simp: inj_on_def)
  ultimately show "Usets_find s m u = Some p \<longleftrightarrow> p \<in> set (ut_usets s) \<and> fst (uset_cell m p) = us_exp u"
    by (simp add: Usets_find_def)
  show "Usets_find s m u = None \<longleftrightarrow> us_exp u \<notin> fst ` set T"
    using assms(1) by (auto simp: Usets_find_def find_None_iff uset_table_def P image_iff)
qed

lemma table_lookup:
  assumes "uset_table m s T" "canonical (us_exp u)"
  shows "(case Usets_lookup u m s of Some p \<Rightarrow> rbind (Mem_get p m) (\<lambda>v. ok (us_id v)) | None \<Rightarrow> ok INVALID_USET) =
    ok (case map_of T (us_exp u) of Some i \<Rightarrow> i | None \<Rightarrow> INVALID_USET)"
proof (cases "Usets_find s m u")
  case None
  then have "map_of T (us_exp u) = None" using table_find(2) [OF assms] by (simp add: map_of_eq_None_iff)
  then show ?thesis using None by (simp add: Usets_lookup_def)
next
  case (Some p)
  then have p: "p \<in> set (ut_usets s)" "fst (uset_cell m p) = us_exp u" using table_find(1) [OF assms] by auto
  then obtain v where v: "um_heap m p = Some v" using assms(1) by (auto simp: uset_table_def)
  have "(us_exp u, us_id v) \<in> set T" using assms(1) p v by (force simp: uset_table_def uset_cell_def)
  then have "map_of T (us_exp u) = Some (us_id v)" using map_of_eq_Some_iff [OF uset_tableD(4) [OF assms(1)]] by blast
  then show ?thesis using Some v by (simp add: Usets_lookup_def Mem_get_def)
qed


text \<open>Loading a set: it is entered into the table, or it gives its id to an equal one.\<close>

lemma table_put_set:
  assumes "uset_table m s T" "canonical e"
  shows "\<exists>m' s'. rbind (Usets_add_owned \<lparr>us_exp = e, us_refs = 0, us_id = INVALID_USET, us_ptr = PNull\<rparr> m s) (\<lambda>(p, m, s).
      rbind (Mem_modify p (\<lambda>u. u\<lparr>us_id := i\<rparr>) m) (\<lambda>m. ok (m, s))) = ok (m', s') \<and>
    uset_table m' s' (table_put e i T) \<and> ut_firstId s' = ut_firstId s \<and> ut_nextId s' = ut_nextId s"
proof -
  note tab = uset_tableD [OF assms(1)]
  let ?u = "\<lparr>us_exp = e, us_refs = 0, us_id = INVALID_USET, us_ptr = PNull\<rparr>"
  let ?a = "um_fresh m"
  let ?m = "\<lparr>um_heap = (um_heap m)(?a \<mapsto> ?u), um_fresh = Suc ?a\<rparr>"
  have fresh: "?a \<notin> set (ut_usets s)" using tab(2) [of ?a] by auto
  have cells: "uset_cell ?m b = uset_cell m b" if "b \<in> set (ut_usets s)" for b using that fresh by (auto simp: uset_cell_def)
  have T': "uset_table ?m s T"
    unfolding uset_table_def using tab cells fresh by (auto simp: less_Suc_eq intro!: map_cong)
  show ?thesis
  proof (cases "e \<in> fst ` set T")
    case False
    then have none: "Usets_find s ?m ?u = None" using table_find(2) [OF T', of ?u] assms(2) by simp
    let ?s = "s\<lparr>ut_usets := ut_usets s @ [?a], ut_stats := (ut_stats s)\<lparr>uss_adds := uss_adds (ut_stats s) + 1,
      uss_bytes := uss_bytes (ut_stats s) + SetU32_bytes (se_set e)\<rparr>\<rparr>"
    let ?m' = "Mem_put ?a (?u\<lparr>us_id := i\<rparr>) ?m"
    have old: "map (uset_cell ?m') (ut_usets s) = T" unfolding tab(3) using fresh by (auto simp: Mem_put_def uset_cell_def)
    have "uset_table ?m' ?s (T @ [(e, i)])"
      unfolding uset_table_def
    proof (intro conjI)
      show "\<forall>a\<in>set (ut_usets ?s). a < um_fresh ?m' \<and> um_heap ?m' a \<noteq> None" using tab(2) fresh by (auto simp: Mem_put_def less_Suc_eq)
      show "T @ [(e, i)] = map (uset_cell ?m') (ut_usets ?s)" using old by (simp add: Mem_put_def uset_cell_def)
      show "distinct (map fst (T @ [(e, i)]))" using tab(4) False by simp
      show "\<forall>x\<in>set (T @ [(e, i)]). canonical (fst x)" using tab(5) assms(2) by auto
    qed (use tab(1) fresh in simp)
    then show ?thesis using none False
      by (simp add: Usets_add_owned_def Mem_alloc_def Usets_add_def Mem_get_def Mem_modify_def table_put_def)
  next
    case True
    then have "Usets_find s ?m ?u \<noteq> None" using table_find(2) [OF T', of ?u] assms(2) by simp
    then obtain p where p: "Usets_find s ?m ?u = Some p" by blast
    then have ps: "p \<in> set (ut_usets s)" "fst (uset_cell m p) = e" using table_find(1) [OF T', of ?u p] assms(2) cells by auto
    then obtain v where v: "um_heap m p = Some v" using tab(2) by auto
    have pa: "p \<noteq> ?a" using ps(1) fresh by auto
    let ?s = "s\<lparr>ut_stats := (ut_stats s)\<lparr>uss_dups := uss_dups (ut_stats s) + 1\<rparr>\<rparr>"
    let ?m' = "\<lparr>um_heap = ((um_heap m)(p \<mapsto> v\<lparr>us_id := i\<rparr>))(?a := None), um_fresh = Suc ?a\<rparr>"
    have run: "rbind (Usets_add_owned ?u m s) (\<lambda>(p, m, s). rbind (Mem_modify p (\<lambda>u. u\<lparr>us_id := i\<rparr>) m) (\<lambda>m. ok (m, s))) = ok (?m', ?s)"
      using p v pa by (simp add: Usets_add_owned_def Mem_alloc_def Usets_add_def Mem_get_def Mem_modify_def Mem_put_def Mem_delete_def
          Uset_use_def fun_upd_twist)
    have inj: "a = p" if "a \<in> set (ut_usets s)" "fst (uset_cell m a) = e" for a
      using tab(1,3,4) that ps by (auto simp: distinct_map inj_on_def comp_def)
    have new: "uset_cell ?m' a = (\<lambda>(f, j). (f, if f = e then i else j)) (uset_cell m a)" if "a \<in> set (ut_usets s)" for a
      using inj [OF that] that fresh v ps(2) by (cases "a = p") (auto simp: uset_cell_def)
    have "uset_table ?m' ?s (map (\<lambda>(f, j). (f, if f = e then i else j)) T)"
      unfolding uset_table_def
    proof (intro conjI)
      show "\<forall>a\<in>set (ut_usets ?s). a < um_fresh ?m' \<and> um_heap ?m' a \<noteq> None" using tab(2) fresh by (auto simp: less_Suc_eq)
      show "map (\<lambda>(f, j). (f, if f = e then i else j)) T = map (uset_cell ?m') (ut_usets ?s)" unfolding tab(3) using new by simp
      have "map fst (map (\<lambda>(f, j). (f, if f = e then i else j)) T) = map fst T" by (simp add: case_prod_beta comp_def)
      then show "distinct (map fst (map (\<lambda>(f, j). (f, if f = e then i else j)) T))" using tab(4) by (simp only:)
      show "\<forall>x\<in>set (map (\<lambda>(f, j). (f, if f = e then i else j)) T). canonical (fst x)" using tab(5) by fastforce
    qed (simp add: tab(1))
    then show ?thesis using run True by (auto simp: table_put_def)
  qed
qed


lemma uset_table_empty: "uset_table Mem_empty (Usets_new n) []"
  by (simp add: uset_table_def Usets_new_def)

text \<open>The table after a list of stored sets has been loaded; every set is entered as a disjunction.\<close>

definition units :: "('e \<Rightarrow> u32 list) \<Rightarrow> 'e \<Rightarrow> bool" where
  "units content e \<longleftrightarrow> content e = sorted_list_of_set (set (content e))"

definition loaded_table :: "('e \<Rightarrow> u32 list) \<Rightarrow> (UsetId \<times> 'e SetExpr) list \<Rightarrow> (SetU32 SetExpr \<times> UsetId) list" where
  "loaded_table content xs =
     fold (\<lambda>(i, e). table_put \<lparr>se_op = Or, se_set = SetU32_from (content (se_set e))\<rparr> i) xs []"

lemma then_do_ok [simp]: "then_do (Some (ok x)) f = f x"
  by (simp add: then_do_def ok_def)

locale owner_sets = elias_fano F efc view
  for F :: "(OwnerSet, 'r) EliasFano" and efc view
begin

lemma load_sets_table:
  assumes "uset_table m s T" "\<forall>(i, e)\<in>set xs. units efc (se_set e)"
  shows "\<exists>m' s'. load_sets F xs (m, s) = Some (ok (m', s')) \<and>
    uset_table m' s' (fold (\<lambda>(i, e). table_put \<lparr>se_op = Or, se_set = SetU32_from (efc (se_set e))\<rparr> i) xs T) \<and>
    ut_firstId s' = ut_firstId s \<and> ut_nextId s' = ut_nextId s"
  using assms
proof (induction xs arbitrary: m s T)
  case (Cons x xs)
  obtain i e where x: "x = (i, e)" by fastforce
  let ?e = "\<lparr>se_op = Or, se_set = SetU32_from (efc (se_set e))\<rparr>"
  have "SetU32_from (efc (se_set e)) = rep (set (efc (se_set e)))"
    using Cons.prems(2) by (simp add: x units_def rep_def)
  then have "canonical ?e" by (auto simp: canonical_def)
  then obtain m1 s1 where 1: "load_set F x (m, s) = Some (ok (m1, s1))" "uset_table m1 s1 (table_put ?e i T)"
      "ut_firstId s1 = ut_firstId s" "ut_nextId s1 = ut_nextId s"
    using table_put_set [OF Cons.prems(1), of ?e i]
    by (auto simp: load_set_def x fromEliasFano_content Usets_add_set_def Uset_new_def)
  from Cons.IH [OF 1(2)] Cons.prems(2) 1 show ?case by (auto simp: x)
qed auto

lemma loadOwnershipSets_ok:
  assumes "rocks_store K content" "content s F_ownershipSets = map_of (map set_entry xs)" "sorted_wrt (<) (map fst xs)"
    "\<forall>(i, e)\<in>set xs. units efc (se_set e)"
  shows "\<exists>m us. loadOwnershipSets K F s = Some (ok (m, us)) \<and> uset_table m us (loaded_table efc xs) \<and>
    ut_nextId us = ucast (fst (sizes_of xs) + snd (sizes_of xs))"
proof -
  obtain f z where fz: "sizes_of xs = (f, z)" by fastforce
  obtain m us where "load_sets F xs (Mem_empty, Usets_new (ucast (f + z))) = Some (ok (m, us))"
      "uset_table m us (loaded_table efc xs)" "ut_nextId us = ucast (f + z)"
    using load_sets_table [OF uset_table_empty assms(4), of "ucast (f + z)"] by (auto simp: loaded_table_def Usets_new_def)
  then show ?thesis
    by (simp add: loadOwnershipSets_def rocks_store.getSetIterator_ok [OF assms(1-3)] fz)
qed

end

section \<open>Storing computed ownership\<close>

lemma table_put_fresh: "e \<notin> fst ` set T \<Longrightarrow> table_put e i T = T @ [(e, i)]"
  by (simp add: table_put_def)

lemma loaded_table_distinct:
  assumes "distinct (map (\<lambda>(i, e). efc (se_set e)) xs)" "\<forall>(i, e)\<in>set xs. units efc (se_set e)"
  shows "loaded_table efc xs = map (\<lambda>(i, e). (\<lparr>se_op = Or, se_set = SetU32_from (efc (se_set e))\<rparr>, i)) xs"
  using assms
proof (induction xs rule: rev_induct)
  case (snoc x xs)
  obtain i e where x: "x = (i, e)" by fastforce
  have inj: "c = efc (se_set e)" if "SetU32_from c = SetU32_from (efc (se_set e))" "c = sorted_list_of_set (set c)" for c
  proof -
    have "rep (set c) = rep (set (efc (se_set e)))" using that snoc.prems(2) by (simp add: x rep_def units_def)
    then have "set c = set (efc (se_set e))" by (metis rep_inj SetU32_eq_def)
    then show ?thesis using that(2) snoc.prems(2) by (simp add: x units_def)
  qed
  have "\<lparr>se_op = Or, se_set = SetU32_from (efc (se_set e))\<rparr> \<notin>
      fst ` set (map (\<lambda>(i, e). (\<lparr>se_op = Or, se_set = SetU32_from (efc (se_set e))\<rparr>, i)) xs)"
  proof
    assume "\<lparr>se_op = Or, se_set = SetU32_from (efc (se_set e))\<rparr> \<in>
      fst ` set (map (\<lambda>(i, e). (\<lparr>se_op = Or, se_set = SetU32_from (efc (se_set e))\<rparr>, i)) xs)"
    then obtain j f where f: "(j, f) \<in> set xs" "SetU32_from (efc (se_set f)) = SetU32_from (efc (se_set e))" by auto
    moreover from f(1) have "units efc (se_set f)" using snoc.prems(2) by auto
    ultimately have "efc (se_set f) = efc (se_set e)" using inj unfolding units_def by blast
    then show False using snoc.prems(1) f(1) by (force simp: x)
  qed
  then show ?case using snoc by (simp add: loaded_table_def x table_put_fresh)
qed (simp add: loaded_table_def)

fun numbered :: "UsetId \<Rightarrow> 'a list \<Rightarrow> (UsetId \<times> 'a) list" where
  "numbered i [] = []"
| "numbered i (x # xs) = (i, x) # numbered (i + 1) xs"

lemma store_sets_numbered: "store_sets i (map Some ys) = ok (map (\<lambda>(j, e). putOwnerSet j e) (numbered i ys))"
  by (induction ys arbitrary: i) simp_all

lemma numbered_range:
  assumes "unat i + length ys < 2 ^ 32"
  shows "sorted_wrt (<) (map fst (numbered i ys))" "\<forall>j\<in>fst ` set (numbered i ys). i \<le> j"
proof -
  have "sorted_wrt (<) (map fst (numbered i ys)) \<and> (\<forall>j\<in>fst ` set (numbered i ys). i \<le> j)" using assms
  proof (induction ys arbitrary: i)
    case (Cons y ys)
    have i1: "unat (i + 1) = unat i + 1" using Cons.prems by (simp add: unat_word_ariths)
    then have "sorted_wrt (<) (map fst (numbered (i + 1) ys)) \<and> (\<forall>j\<in>fst ` set (numbered (i + 1) ys). i + 1 \<le> j)"
      using Cons by simp
    moreover have "i < j" if "i + 1 \<le> j" for j using that i1 by (simp add: word_le_nat_alt word_less_nat_alt)
    ultimately show ?case by (auto intro: less_imp_le)
  qed simp
  then show "sorted_wrt (<) (map fst (numbered i ys))" "\<forall>j\<in>fst ` set (numbered i ys). i \<le> j" by auto
qed

lemma numbered_nth: "k < length ys \<Longrightarrow> (i + of_nat k, ys ! k) \<in> set (numbered i ys)"
proof (induction ys arbitrary: i k)
  case (Cons y ys)
  then show ?case by (cases k) (auto simp: add.assoc dest: Cons.IH [of _ "i + 1"])
qed simp

lemma map_snd_numbered: "map (\<lambda>(i, e). f e) (numbered i ys) = map f ys"
  by (induction ys arbitrary: i) simp_all

lemma snd_numbered: "(j, y) \<in> set (numbered i ys) \<Longrightarrow> y \<in> set ys"
  by (induction ys arbitrary: i) auto

lemma interval_owner_last:
  "interval_owner ivs i = (case rev (filter (\<lambda>(j, u). j \<le> i) ivs) of [] \<Rightarrow> INVALID_USET | (j, u) # _ \<Rightarrow> u)"
proof (induction ivs rule: rev_induct)
  case (snoc x xs)
  then show ?case by (cases x) (simp add: interval_owner_snoc)
qed (simp add: interval_owner_def)

definition fact_entry :: "Id \<times> UsetId \<Rightarrow> bytes \<times> bytes" where
  "fact_entry x = snd (store_fact x)"

context rocks_store
begin

lemma getOwner_intervals:
  assumes "db_open db" "content (db_store db) F_factOwners = map_of (map fact_entry ivs)" "sorted_wrt (<) (map fst ivs)"
  shows "StoredOwnership_getOwner K db i = ok (interval_owner ivs i)"
proof -
  have k: "fst (fact_entry x) = storeNat (fst x)" for x by (cases x) (simp add: fact_entry_def store_fact_def)
  have "rk_first K (db_store db) F_factOwners = map fact_entry ivs"
    by (rule first_unique [OF _ assms(2)]) (use assms(3) in \<open>simp add: sorted_wrt_map k storeNat_less_iff\<close>)
  then have "rk_seekForPrev K (db_store db) F_factOwners None (storeNat i) = map fact_entry (rev (filter (\<lambda>(j, u). j \<le> i) ivs))"
    by (simp add: seekForPrev filter_map comp_def split_def k storeNat_le rev_map)
  then show ?thesis using assms(1)
    by (auto simp: StoredOwnership_getOwner_def interval_owner_last fact_entry_def store_fact_def split: list.split)
qed

end

text \<open>
  The stored owner of a fact is the set \<open>A\<close> of units: the id that \<open>getOwner\<close> returns is the one under
  which the set iterator has the set, and under which the set is found in memory.
\<close>

definition stored_owner :: "'s Rocks \<Rightarrow> (OwnerSet \<Rightarrow> u32 list) \<Rightarrow> 's Database \<Rightarrow> Id \<Rightarrow> u32 set \<Rightarrow> bool" where
  "stored_owner K efc db i A \<longleftrightarrow>
     (\<exists>u. StoredOwnership_getOwner K db i = ok u \<and>
       (if A = {} then u = INVALID_USET
        else u \<noteq> INVALID_USET \<and> StoredOwnership_lookupSet db \<lparr>se_op = Or, se_set = SetU32_from (sorted_list_of_set A)\<rparr> = ok u \<and>
          (\<exists>sz es e. Database_getSetIterator K (db_store db) = ok (sz, es) \<and> (u, \<lparr>se_op = Or, se_set = e\<rparr>) \<in> set es \<and>
            efc e = sorted_list_of_set A)))"

locale owner_db = rocks_db K content enc dec + owner_sets F efc view
  for K :: "'s Rocks" and content enc dec and F :: "(OwnerSet, 'r) EliasFano" and efc view
begin

lemma storeOwnership_ok:
  assumes o: "db_open db"
    and old: "content (db_store db) F_ownershipSets = map_of (map set_entry xs)" "sorted_wrt (<) (map fst xs)"
      "\<forall>(i, e)\<in>set xs. units efc (se_set e)"
    and c: "co_sets c = map Some ys" "\<forall>e\<in>set ys. units efc (se_set e)" "unat (co_firstId c) + length ys < 2 ^ 32"
      "\<forall>i\<in>fst ` set xs. i < co_firstId c"
  defines "zs \<equiv> xs @ numbered (co_firstId c) ys"
  shows "\<exists>db'. storeOwnership K F c db = Some (ok db') \<and>
    db' = db\<lparr>db_store := db_store db', db_mem := db_mem db', db_usets := db_usets db'\<rparr> \<and>
    content (db_store db') F_ownershipSets = map_of (map set_entry zs) \<and> sorted_wrt (<) (map fst zs) \<and>
    content (db_store db') F_factOwners = content (db_store db) F_factOwners ++ map_of (rev (map fact_entry (co_facts c))) \<and>
    (\<forall>f. f \<noteq> F_ownershipSets \<longrightarrow> f \<noteq> F_factOwners \<longrightarrow> content (db_store db') f = content (db_store db) f) \<and>
    uset_table (db_mem db') (db_usets db') (loaded_table efc zs) \<and>
    ut_nextId (db_usets db') = ucast (fst (sizes_of zs) + snd (sizes_of zs))"
proof -
  let ?n = "numbered (co_firstId c) ys"
  let ?ps = "map (\<lambda>(j, e). putOwnerSet j e) ?n"
  define s where "s = (if ys = [] then db_store db else rk_write K ?ps (db_store db))"
  define s' where "s' = (if co_facts c = [] then s else rk_write K (map store_fact (co_facts c)) s)"
  note n = numbered_range [OF c(3)]
  have sorted: "sorted_wrt (<) (map fst zs)"
    using old(2) n c(4) by (auto simp: zs_def sorted_wrt_append intro: less_le_trans)
  have fam: "family_puts f ?ps = (if f = F_ownershipSets then map set_entry ?n else [])" for f
    by (auto simp: family_puts_def putOwnerSet_def filter_empty_conv set_entry_def case_prod_beta comp_def filter_map intro!: map_cong)
  have famf: "family_puts f (map store_fact xs) = (if f = F_factOwners then map fact_entry xs else [])" for f xs
    by (auto simp: family_puts_def store_fact_def filter_empty_conv fact_entry_def case_prod_beta comp_def filter_map)
  have d: "distinct (map fst (map set_entry zs))"
  proof -
    have "distinct (map fst zs)" using sorted by (simp add: strict_sorted_iff)
    then have "distinct (map (\<lambda>i. storeNat (ucast i)) (map fst zs))" by (simp only: distinct_map) (simp add: inj_on_def ucast_inject)
    then show ?thesis by (simp add: comp_def fst_set_entry)
  qed
  have s1: "content s F_ownershipSets = map_of (map set_entry zs)"
  proof (cases "ys = []")
    case False
    have "put_all ?ps F_ownershipSets (content (db_store db) F_ownershipSets) = map_of (map set_entry xs @ family_puts F_ownershipSets ?ps)"
      by (rule put_all_fresh [OF _ old(1)]) (use d in \<open>simp add: fam zs_def\<close>)
    then show ?thesis using False by (simp add: s_def written fam zs_def)
  qed (simp add: s_def zs_def old(1))
  have s2: "content s f = content (db_store db) f" if "f \<noteq> F_ownershipSets" for f
    using that by (simp add: s_def written put_all_family fam)
  have s3: "content s' F_ownershipSets = content s F_ownershipSets"
    "content s' F_factOwners = content (db_store db) F_factOwners ++ map_of (rev (map fact_entry (co_facts c)))"
    "\<And>f. f \<noteq> F_ownershipSets \<Longrightarrow> f \<noteq> F_factOwners \<Longrightarrow> content s' f = content (db_store db) f"
    by (auto simp: s'_def written put_all_family famf s2)
  have units: "\<forall>(i, e)\<in>set zs. units efc (se_set e)" using old(3) c(2) snd_numbered by (fastforce simp: zs_def)
  obtain m us where load: "loadOwnershipSets K F s = Some (ok (m, us))" "uset_table m us (loaded_table efc zs)"
    "ut_nextId us = ucast (fst (sizes_of zs) + snd (sizes_of zs))"
    using loadOwnershipSets_ok [OF rocks_store_axioms s1 sorted units] by blast
  let ?db = "db\<lparr>db_store := s', db_mem := m, db_usets := us\<rparr>"
  have "storeOwnership K F c db = Some (ok ?db)"
    using o c(1) load(1) by (auto simp: storeOwnership_def requireOpen_def store_sets_numbered s_def s'_def)
  then show ?thesis using s1 s3 sorted load(2,3) by (intro exI [of _ ?db]) simp
qed

lemma computed_sets:
  assumes "computed_ok efc c"
  shows "\<exists>ys. co_sets c = map Some ys \<and> (\<forall>e\<in>set ys. units efc (se_set e)) \<and>
    distinct (map (\<lambda>e. efc (se_set e)) ys) \<and> unat (co_firstId c) + length ys < 2 ^ 32"
proof -
  let ?ys = "map the (co_sets c)"
  have full: "\<exists>e A. co_sets c ! k = Some \<lparr>se_op = Or, se_set = e\<rparr> \<and> efc e = sorted_list_of_set A" if "k < length (co_sets c)" for k
    using assms that unfolding computed_ok_def full_sets_def by blast
  have some: "co_sets c ! k = Some (the (co_sets c ! k))" if "k < length (co_sets c)" for k using full [OF that] by auto
  have "co_sets c = map Some ?ys" by (rule nth_equalityI) (use some in auto)
  moreover have "\<forall>e\<in>set ?ys. units efc (se_set e)"
  proof
    fix e
    assume "e \<in> set ?ys"
    then obtain k where "k < length (co_sets c)" "e = the (co_sets c ! k)" by (auto simp: in_set_conv_nth)
    then show "units efc (se_set e)" using full [of k] by (auto simp: units_def)
  qed
  moreover have "distinct (map (\<lambda>e. efc (se_set e)) ?ys)"
  proof -
    have inj: "\<forall>j < length (co_sets c). \<forall>k < length (co_sets c). \<forall>x y. co_sets c ! j = Some x \<longrightarrow> co_sets c ! k = Some y \<longrightarrow>
        efc (se_set x) = efc (se_set y) \<longrightarrow> j = k" using assms unfolding computed_ok_def full_sets_def by simp
    have "j = k" if "j < length ?ys" "k < length ?ys" "efc (se_set (?ys ! j)) = efc (se_set (?ys ! k))" for j k
      using inj [rule_format, OF _ _ some [of j] some [of k]] that by simp
    then show ?thesis unfolding distinct_conv_nth by auto
  qed
  moreover have "unat (co_firstId c) + length ?ys < 2 ^ 32" using assms by (simp add: computed_ok_def)
  ultimately show ?thesis by blast
qed

lemma store_read:
  assumes o: "db_open db" "content (db_store db) F_ownershipSets = Map.empty" "content (db_store db) F_factOwners = Map.empty"
    and c: "computed_ok efc c"
  shows "\<exists>db'. storeOwnership K F c db = Some (ok db') \<and>
    db' = db\<lparr>db_store := db_store db', db_mem := db_mem db', db_usets := db_usets db'\<rparr> \<and>
    (\<forall>f. f \<noteq> F_ownershipSets \<longrightarrow> f \<noteq> F_factOwners \<longrightarrow> content (db_store db') f = content (db_store db) f) \<and>
    (\<forall>k A. packed_owner efc c k A \<longrightarrow> stored_owner K efc db' (of_nat k) A)"
proof -
  obtain ys where ys: "co_sets c = map Some ys" "\<forall>e\<in>set ys. units efc (se_set e)" "distinct (map (\<lambda>e. efc (se_set e)) ys)"
    "unat (co_firstId c) + length ys < 2 ^ 32" using computed_sets [OF c] by blast
  let ?n = "numbered (co_firstId c) ys"
  obtain db' where db': "storeOwnership K F c db = Some (ok db')"
      "db' = db\<lparr>db_store := db_store db', db_mem := db_mem db', db_usets := db_usets db'\<rparr>"
      "content (db_store db') F_ownershipSets = map_of (map set_entry ?n)" "sorted_wrt (<) (map fst ?n)"
      "content (db_store db') F_factOwners = map_of (rev (map fact_entry (co_facts c)))"
      "\<forall>f. f \<noteq> F_ownershipSets \<longrightarrow> f \<noteq> F_factOwners \<longrightarrow> content (db_store db') f = content (db_store db) f"
      "uset_table (db_mem db') (db_usets db') (loaded_table efc ?n)"
    using storeOwnership_ok [OF o(1), of "[]" c ys] o(2,3) ys(1,2,4) by auto
  have so: "sorted_wrt (<) (map fst (co_facts c))" using c by (simp add: computed_ok_def)
  have k: "fst (fact_entry x) = storeNat (fst x)" for x by (cases x) (simp add: fact_entry_def store_fact_def)
  have "distinct (map fst (co_facts c))" using so by (simp add: strict_sorted_iff)
  then have "distinct (map storeNat (map fst (co_facts c)))" by (simp only: distinct_map) (simp add: inj_on_def)
  then have d: "distinct (map fst (map fact_entry (co_facts c)))" by (simp add: comp_def k)
  have "map_of (rev (map fact_entry (co_facts c))) = map_of (map fact_entry (co_facts c))"
    by (rule map_of_perm) (use d in \<open>simp_all add: rev_map [symmetric]\<close>)
  then have own: "StoredOwnership_getOwner K db' i = ok (interval_owner (co_facts c) i)" for i
    using getOwner_intervals [OF _ _ so, of db'] db'(2,5) o(1) by (metis Database.select_convs(2) Database.surjective Database.update_convs(3,9,10))
  note iter = getSetIterator_ok [OF db'(3,4)]
  have un: "\<forall>(i, e)\<in>set ?n. units efc (se_set e)" using ys(2) snd_numbered by fastforce
  have tab: "loaded_table efc ?n = map (\<lambda>(i, e). (\<lparr>se_op = Or, se_set = SetU32_from (efc (se_set e))\<rparr>, i)) ?n"
    by (rule loaded_table_distinct [OF _ un]) (use ys(3) in \<open>simp add: map_snd_numbered\<close>)
  have "stored_owner K efc db' (of_nat k) A" if p: "packed_owner efc c k A" for k A
  proof (cases "A = {}")
    case True
    then show ?thesis using p own by (simp add: stored_owner_def packed_owner_def Let_def)
  next
    case False
    define u where "u = interval_owner (co_facts c) (of_nat k)"
    obtain e where e: "u \<noteq> INVALID_USET" "co_firstId c \<le> u" "unat (u - co_firstId c) < length (co_sets c)"
        "co_sets c ! unat (u - co_firstId c) = Some \<lparr>se_op = Or, se_set = e\<rparr>" "efc e = sorted_list_of_set A"
      using p False by (auto simp: packed_owner_def Let_def u_def)
    have "(co_firstId c + of_nat (unat (u - co_firstId c)), ys ! unat (u - co_firstId c)) \<in> set ?n"
      by (rule numbered_nth) (use e(3) ys(1) in simp)
    moreover have "ys ! unat (u - co_firstId c) = \<lparr>se_op = Or, se_set = e\<rparr>" using e(3,4) ys(1) by simp
    ultimately have mem: "(u, \<lparr>se_op = Or, se_set = e\<rparr>) \<in> set ?n" by simp
    then have "(\<lparr>se_op = Or, se_set = rep A\<rparr>, u) \<in> set (loaded_table efc ?n)"
      unfolding tab using e(5) by (force simp: rep_def)
    then have "map_of (loaded_table efc ?n) \<lparr>se_op = Or, se_set = rep A\<rparr> = Some u"
      using uset_tableD(4) [OF db'(7)] by (simp add: map_of_eq_Some_iff)
    then have "StoredOwnership_lookupSet db' \<lparr>se_op = Or, se_set = rep A\<rparr> = ok u"
      using table_lookup [OF db'(7), of "\<lparr>us_exp = \<lparr>se_op = Or, se_set = rep A\<rparr>, us_refs = 0, us_id = INVALID_USET, us_ptr = PNull\<rparr>"]
      by (auto simp: StoredOwnership_lookupSet_def canonical_def)
    then show ?thesis using False own e(1,5) mem iter by (auto simp: stored_owner_def u_def rep_def)
  qed
  then show ?thesis using db'(1,2,6) by blast
qed

lemma inv_other_families:
  assumes "inv db fs" "db' = db\<lparr>db_store := db_store db', db_mem := db_mem db', db_usets := db_usets db'\<rparr>"
    "content (db_store db') F_entities = content (db_store db) F_entities"
    "content (db_store db') F_keys = content (db_store db) F_keys"
  shows "inv db' fs"
proof -
  obtain s m u where d: "db' = db\<lparr>db_store := s, db_mem := m, db_usets := u\<rparr>" using assms(2) by blast
  have e: "entity_key db' = entity_key db" by (rule ext) (simp add: d entity_key_def legacy_def)
  show ?thesis using assms(1,3,4) unfolding db_inv_def e by (simp add: d)
qed

lemma ownership_stored:
  assumes "inv db fs0" "content (db_store db) F_ownershipSets = Map.empty" "content (db_store db) F_factOwners = Map.empty"
    and "sorted (map ou_unit iter)" "\<forall>d\<in>set iter. ranges_ok (ou_ids d)"
    and "fs = enumerateBack (Database_lookup K dec db) (of_nat (owned_bound iter)) WordId_invalid"
      "back_ok inventory (owned_bound iter) fs"
    and "unat (fold max (map ou_unit iter) 0) + length fs + 2 < 2 ^ 32"
  shows "\<exists>c db'. computeOwnership F inventory (Database_lookup K dec db) iter = Some (ok c) \<and>
    storeOwnership K F c db = Some (ok db') \<and> inv db' fs0 \<and>
    (\<forall>f\<in>set fs. unat WordId_lowest \<le> unat (ref_id f) \<longrightarrow>
      stored_owner K efc db' (ref_id f) (closure (ref_rel inventory fs) (unit_owners iter) (unat (ref_id f))))"
proof -
  obtain c where c: "computeOwnership F inventory (Database_lookup K dec db) iter = Some (ok c)" "computed_ok efc c"
      "\<forall>f\<in>set fs. unat WordId_lowest \<le> unat (ref_id f) \<longrightarrow>
        packed_owner efc c (unat (ref_id f)) (closure (ref_rel inventory fs) (unit_owners iter) (unat (ref_id f)))"
    using computeOwnership_ok [OF assms(4-8)] by blast
  obtain db' where db': "storeOwnership K F c db = Some (ok db')"
      "db' = db\<lparr>db_store := db_store db', db_mem := db_mem db', db_usets := db_usets db'\<rparr>"
      "\<forall>f. f \<noteq> F_ownershipSets \<longrightarrow> f \<noteq> F_factOwners \<longrightarrow> content (db_store db') f = content (db_store db) f"
      "\<forall>k A. packed_owner efc c k A \<longrightarrow> stored_owner K efc db' (of_nat k) A"
    using store_read [OF db_invD(1) [OF assms(1)] assms(2,3) c(2)] by blast
  have "stored_owner K efc db' (ref_id f) (closure (ref_rel inventory fs) (unit_owners iter) (unat (ref_id f)))"
    if "f \<in> set fs" "unat WordId_lowest \<le> unat (ref_id f)" for f
    using db'(4) [rule_format, of "unat (ref_id f)"] c(3) that by simp
  moreover have "inv db' fs0" by (rule inv_other_families [OF assms(1) db'(2)]) (use db'(3) in auto)
  ultimately show ?thesis using c(1) db'(1) by blast
qed

end

end
