(* ===== verification/Rocks_Reopen.thy ===== *)
theory Rocks_Reopen
  imports Rocks_Ownership_Correct
begin

text \<open>
  Opening a database again: the values of the constructor are those that \<^verbatim>\<open>commit\<close> and the ownership
  operations have left on disk.
\<close>

section \<open>The log of ownership units\<close>

text \<open>Unit \<open>u\<close> has one entry for each time ownership was added for it.\<close>

definition unit_entries :: "nat \<Rightarrow> bytes list \<Rightarrow> (bytes \<times> bytes) list" where
  "unit_entries u l = map (\<lambda>n. (storeNat (of_nat u) @ storeNat (of_nat n), l ! n)) [0..<length l]"

definition raw_entries :: "bytes list list \<Rightarrow> (bytes \<times> bytes) list" where
  "raw_entries logs = concat (map (\<lambda>u. unit_entries u (logs ! u)) [0..<length logs])"

definition logs_ok :: "bytes list list \<Rightarrow> bool" where
  "logs_ok logs \<longleftrightarrow> length logs < 2 ^ 32 \<and> (\<forall>l\<in>set logs. l \<noteq> [] \<and> length l < 2 ^ 64)"

lemma less_append:
  assumes "xs < ys" "\<not> prefix xs ys"
  shows "xs @ us < ys @ (vs :: bytes)"
  using assms
proof (induction xs arbitrary: ys)
  case (Cons x xs)
  then show ?case by (cases ys) auto
qed simp

lemma storeNat_append_less: "a < b \<Longrightarrow> storeNat a @ us < storeNat b @ vs"
proof (rule less_append)
  assume "a < b"
  then show "storeNat a < storeNat b" by (simp add: storeNat_less_iff)
  show "\<not> prefix (storeNat a) (storeNat b)"
  proof
    assume "prefix (storeNat a) (storeNat b)"
    then obtain r where "storeNat b = storeNat a @ r" by (auto simp: prefix_def)
    then have "ok (b, []) = (ok (a, r) :: (u64 \<times> bytes) result)" using trusted_store(1) [of a r] trusted_store(2) [of b] by simp
    then show False using \<open>a < b\<close> by simp
  qed
qed

lemma append_less_append: "xs @ us < xs @ vs \<longleftrightarrow> us < (vs :: bytes)"
  by (induction xs) auto

lemma of_nat_less64: "m < n \<Longrightarrow> n < 2 ^ 64 \<Longrightarrow> (of_nat m :: u64) < of_nat n"
  by (simp add: word_less_nat_alt unat_of_nat)

lemma raw_entries_snoc: "raw_entries (logs @ [l]) = raw_entries logs @ unit_entries (length logs) l"
proof -
  have "map (\<lambda>u. unit_entries u ((logs @ [l]) ! u)) [0..<length logs] = map (\<lambda>u. unit_entries u (logs ! u)) [0..<length logs]"
    by (rule map_cong) (auto simp: nth_append)
  then show ?thesis by (simp add: raw_entries_def del: map_eq_conv)
qed

lemma raw_entries_keys: "(k, v) \<in> set (raw_entries logs) \<Longrightarrow> \<exists>u n. u < length logs \<and> k = storeNat (of_nat u) @ storeNat (of_nat n)"
  by (auto simp: raw_entries_def unit_entries_def)

lemma unit_entries_sorted: "length l < 2 ^ 64 \<Longrightarrow> sorted_wrt (<) (map fst (unit_entries u l))"
  by (auto simp: unit_entries_def sorted_wrt_map append_less_append storeNat_less_iff of_nat_less64 sorted_wrt_iff_nth_less)

lemma raw_entries_sorted: "logs_ok logs \<Longrightarrow> sorted_wrt (<) (map fst (raw_entries logs))"
proof (induction logs rule: rev_induct)
  case (snoc l ls)
  have "k < k'" if kv: "(k, v) \<in> set (raw_entries ls)" "(k', v') \<in> set (unit_entries (length ls) l)" for k v k' v'
  proof -
    obtain u n where k: "u < length ls" "k = storeNat (of_nat u) @ storeNat (of_nat n)" using raw_entries_keys [OF kv(1)] by blast
    obtain n' where k': "k' = storeNat (of_nat (length ls)) @ storeNat (of_nat n')" using kv(2) by (auto simp: unit_entries_def)
    show ?thesis unfolding k(2) k'
      by (rule storeNat_append_less, rule of_nat_less64 [OF k(1)]) (use snoc.prems in \<open>simp add: logs_ok_def\<close>)
  qed
  moreover have "sorted_wrt (<) (map fst (raw_entries ls))" using snoc by (simp add: logs_ok_def)
  moreover have "sorted_wrt (<) (map fst (unit_entries (length ls) l))" by (rule unit_entries_sorted) (use snoc.prems in \<open>simp add: logs_ok_def\<close>)
  ultimately show ?case by (auto simp: raw_entries_snoc sorted_wrt_append)
qed (simp add: raw_entries_def)

text \<open>
  The counters that are read back: a unit with \<open>n\<close> entries gets \<open>n - 1\<close>, since the first entry counts as 0
  (while \<^verbatim>\<open>addOwnership\<close> counts it as 1).
\<close>

lemma load_unit_entries:
  assumes "length r < 2 ^ 32" "n < length l"
  shows "rfold load_unit_counter (map (\<lambda>n. (storeNat (of_nat (length r)) @ storeNat (of_nat n), l ! n)) [0..<Suc n]) r = ok (r @ [of_nat n])"
  using assms(2)
proof (induction n)
  case 0
  then show ?case by (simp add: load_unit_counter_def)
next
  case (Suc n)
  have split: "[0..<Suc (Suc n)] = [0..<Suc n] @ [Suc n]" by simp
  have "n < length l" using Suc.prems by simp
  note IH = Suc.IH [OF this]
  have ne: "(of_nat (length r) :: u64) \<noteq> of_nat (length r) + 1" by simp
  show ?case unfolding split map_append rfold_append IH using ne by (simp add: load_unit_counter_def)
qed

lemma load_raw_entries:
  "logs_ok logs \<Longrightarrow> rfold load_unit_counter (raw_entries logs) [] = ok (map (\<lambda>l. of_nat (length l - 1)) logs)"
proof (induction logs rule: rev_induct)
  case (snoc l ls)
  have l: "l \<noteq> []" "length ls < 2 ^ 32" "logs_ok ls" using snoc.prems by (auto simp: logs_ok_def)
  let ?r = "map (\<lambda>l. of_nat (length l - 1)) ls :: u64 list"
  have "unit_entries (length ls) l = map (\<lambda>n. (storeNat (of_nat (length ?r)) @ storeNat (of_nat n), l ! n)) [0..<Suc (length l - 1)]"
    using l(1) by (simp add: unit_entries_def del: upt_Suc)
  then have "rfold load_unit_counter (unit_entries (length ls) l) ?r = ok (?r @ [of_nat (length l - 1)])"
    using load_unit_entries [of ?r "length l - 1" l] l by (simp del: upt_Suc)
  then show ?case using snoc.IH l(3) by (simp add: raw_entries_snoc rfold_append)
qed (simp add: raw_entries_def)

section \<open>Statistics\<close>

lemma storeLE_length8: "length (storeLE (x :: u64)) = 8"
  by simp

lemma MemoryStats_roundtrip [simp]: "MemoryStats_from (MemoryStats_bytes m) = ok m"
  by (simp add: MemoryStats_from_def MemoryStats_bytes_def)

lemma load_stats:
  assumes "DenseMap_ok st" "\<forall>(k, v)\<in>set es. \<exists>pid m. DenseMap_key_ok pid \<and> k = storeLE pid \<and> v = MemoryStats_bytes m" "distinct (map fst es)"
  shows "\<exists>st'. rfold load_stat es st = ok st' \<and> DenseMap_ok st' \<and>
    (\<forall>p. DenseMap_lookup st' p = (case map_of es (storeLE p) of
      None \<Rightarrow> DenseMap_lookup st p | Some v \<Rightarrow> Some (result_or MemoryStats_zero (MemoryStats_from v))))"
  using assms
proof (induction es arbitrary: st)
  case (Cons x es)
  obtain pid m where x: "x = (storeLE pid, MemoryStats_bytes m)" and k: "DenseMap_key_ok pid" using Cons.prems(2) by (cases x) auto
  let ?at = "DenseMap_at MemoryStats_zero st pid"
  let ?st = "DenseMap_assign ?at pid m"
  have at: "DenseMap_ok ?at" "DenseMap_lookup ?at pid \<noteq> None"
    using DenseMap_at_ok [OF Cons.prems(1) k] DenseMap_at_lookup [OF Cons.prems(1) k] by auto
  then have st: "DenseMap_ok ?st" by (rule DenseMap_assign_ok)
  have look: "DenseMap_lookup ?st p = (if p = pid then Some m else DenseMap_lookup st p)" for p
    using DenseMap_assign_lookup [OF at(2)] DenseMap_at_lookup [OF Cons.prems(1) k] by simp
  have "load_stat x st = ok ?st" by (simp add: load_stat_def x Input_fixed_store_Nil)
  moreover obtain st' where st': "rfold load_stat es ?st = ok st'" "DenseMap_ok st'"
      "\<And>p. DenseMap_lookup st' p = (case map_of es (storeLE p) of
        None \<Rightarrow> DenseMap_lookup ?st p | Some v \<Rightarrow> Some (result_or MemoryStats_zero (MemoryStats_from v)))"
    using Cons.IH [OF st] Cons.prems(2,3) by auto
  moreover have "map_of es (storeLE pid) = None" using Cons.prems(3) by (simp add: x map_of_eq_None_iff)
  ultimately show ?case by (auto simp: x look split: option.split)
qed auto

lemma stats_entry_key: "stats_entry st k = Some v \<Longrightarrow>
    \<exists>pid m. k = storeLE pid \<and> v = MemoryStats_bytes m \<and> DenseMap_lookup st pid = Some m"
  using storeLE_loadLE [of k] by (auto simp: stats_entry_def split: if_splits intro!: exI [of _ "loadLE k"])

text \<open>What a database has on disk: the facts, the saved values, the ownership sets and the two logs.\<close>

definition derived_keys :: "(bytes \<rightharpoonup> bytes) \<Rightarrow> bool" where
  "derived_keys m \<longleftrightarrow> (\<forall>k\<in>dom m. \<exists>pid n. k = storeNat pid @ storeNat n)"

definition on_disk :: "('s \<Rightarrow> Family \<Rightarrow> bytes \<rightharpoonup> bytes) \<Rightarrow> varint_enc \<Rightarrow> (OwnerSet \<Rightarrow> u32 list) \<Rightarrow> 's Database \<Rightarrow> afact list \<Rightarrow> (UsetId \<times> OwnerSet SetExpr) list \<Rightarrow> bytes list list \<Rightarrow> bool" where
  "on_disk content enc efc db fs xs logs \<longleftrightarrow> db_inv content enc db fs \<and> db_saved content db \<and>
     content (db_store db) F_ownershipSets = map_of (map set_entry xs) \<and> sorted_wrt (<) (map fst xs) \<and>
     (\<forall>(i, e)\<in>set xs. units efc (se_set e)) \<and>
     content (db_store db) F_ownershipRaw = map_of (raw_entries logs) \<and> logs_ok logs \<and>
     derived_keys (content (db_store db) F_ownershipDerivedRaw)"

context owner_db
begin

abbreviation disk :: "'s Database \<Rightarrow> afact list \<Rightarrow> (UsetId \<times> OwnerSet SetExpr) list \<Rightarrow> bytes list list \<Rightarrow> bool" where
  "disk \<equiv> on_disk content enc efc"

lemma loadStats_saved:
  assumes "content s F_stats = stats_entry st" "DenseMap_ok st"
  shows "\<exists>st'. loadStats K s = ok st' \<and> DenseMap_ok st' \<and> (\<forall>p. DenseMap_lookup st' p = DenseMap_lookup st p)"
proof -
  let ?es = "rk_first K s F_stats"
  have d: "distinct (map fst ?es)" using first_sorted [of s F_stats] by (simp add: strict_sorted_iff)
  have m: "map_of ?es = stats_entry st" using first_content [of s F_stats] assms(1) by simp
  have "\<forall>(k, v)\<in>set ?es. \<exists>pid m. DenseMap_key_ok pid \<and> k = storeLE pid \<and> v = MemoryStats_bytes m"
  proof safe
    fix k v
    assume "(k, v) \<in> set ?es"
    then have "stats_entry st k = Some v" using map_of_eq_Some_iff [OF d] m by simp
    from stats_entry_key [OF this] show "\<exists>pid m. DenseMap_key_ok pid \<and> k = storeLE pid \<and> v = MemoryStats_bytes m"
      using DenseMap_lookup_key_ok [OF assms(2)] by blast
  qed
  from load_stats [OF DenseMap_new_ok this d] obtain st' where st': "loadStats K s = ok st'" "DenseMap_ok st'"
      "\<And>p. DenseMap_lookup st' p = (case stats_entry st (storeLE p) of
        None \<Rightarrow> None | Some v \<Rightarrow> Some (result_or MemoryStats_zero (MemoryStats_from v)))"
    unfolding m loadStats_def DenseMap_lookup_new by blast
  have "DenseMap_lookup st' p = DenseMap_lookup st p" for p
    by (auto simp: st'(3) stats_entry_def split: option.split)
  then show ?thesis using st'(1,2) by blast
qed


lemma getAdminValue_found:
  "content s F_admin (storeLE (AdminId_code i)) = Some (storeLE v) \<Longrightarrow> getAdminValue K i d w nf s = ok (v, s)"
  by (simp add: getAdminValue_def get Input_fixed_store_Nil)

lemma load_derived:
  assumes "\<forall>(k, v)\<in>set es. \<exists>pid n. k = storeNat pid @ storeNat n"
  shows "\<exists>r'. rfold load_derived_counter es r = ok r'"
  using assms
proof (induction es arbitrary: r)
  case (Cons x es)
  then show ?case by (cases x) (auto simp: load_derived_counter_def)
qed simp

lemma reopen_ok:
  assumes "disk db fs xs logs"
  shows "\<exists>db'. DatabaseImpl_new K F mode start (db_version db) (db_store db) = Some (ok db') \<and> disk db' fs xs logs \<and>
    db_store db' = db_store db \<and> db_starting_id db' = db_starting_id db \<and> db_next_id db' = db_next_id db \<and>
    (\<forall>p. DenseMap_lookup (db_stats db') p = DenseMap_lookup (db_stats db) p) \<and>
    db_unit_counters db' = map (\<lambda>l. of_nat (length l - 1)) logs \<and>
    uset_table (db_mem db') (db_usets db') (loaded_table efc xs)"
proof -
  let ?s = "db_store db"
  have i: "inv db fs" and sv: "db_saved content db" and sets: "content ?s F_ownershipSets = map_of (map set_entry xs)"
      "sorted_wrt (<) (map fst xs)" "\<forall>(i, e)\<in>set xs. units efc (se_set e)"
    and raw: "content ?s F_ownershipRaw = map_of (raw_entries logs)" "logs_ok logs"
    and der: "derived_keys (content ?s F_ownershipDerivedRaw)" using assms by (simp_all add: on_disk_def)
  have adm: "getAdminValue K STARTING_ID d w nf ?s = ok (db_starting_id db, ?s)" "getAdminValue K NEXT_ID d w nf ?s = ok (db_next_id db, ?s)"
    "getAdminValue K VERSION d w nf ?s = ok (db_version db, ?s)" for d w nf
    using sv by (auto simp: db_saved_def intro: getAdminValue_found)
  obtain st where st: "loadStats K ?s = ok st" "DenseMap_ok st" "\<And>p. DenseMap_lookup st p = DenseMap_lookup (db_stats db) p"
    using loadStats_saved [of ?s "db_stats db"] sv db_invD(8) [OF i] by (auto simp: db_saved_def stats_ok_def)
  have "rk_first K ?s F_ownershipRaw = raw_entries logs" by (rule first_unique [OF raw_entries_sorted [OF raw(2)] raw(1)])
  then have uc: "loadOwnershipUnitCounters K ?s = ok (map (\<lambda>l. of_nat (length l - 1)) logs)"
    by (simp add: loadOwnershipUnitCounters_def load_raw_entries [OF raw(2)])
  have "\<forall>(k, v)\<in>set (rk_first K ?s F_ownershipDerivedRaw). \<exists>pid n. k = storeNat pid @ storeNat n"
  proof safe
    fix k v
    assume "(k, v) \<in> set (rk_first K ?s F_ownershipDerivedRaw)"
    then have "k \<in> dom (map_of (rk_first K ?s F_ownershipDerivedRaw))" unfolding dom_map_of_conv_image_fst by force
    then show "\<exists>pid n. k = storeNat pid @ storeNat n" using der unfolding first_content derived_keys_def by blast
  qed
  from load_derived [OF this] obtain dc where dc: "loadOwnershipDerivedCounters K ?s = ok dc"
    by (auto simp: loadOwnershipDerivedCounters_def)
  obtain m us where us: "loadOwnershipSets K F ?s = Some (ok (m, us))" "uset_table m us (loaded_table efc xs)"
    using loadOwnershipSets_ok [OF rocks_store_axioms sets] by blast
  let ?db = "\<lparr>db_version = db_version db, db_open = True, db_store = ?s, db_starting_id = db_starting_id db, db_next_id = db_next_id db,
    db_stats = st, db_unit_counters = map (\<lambda>l. of_nat (length l - 1)) logs, db_derived_counters = dc, db_mem = m, db_usets = us\<rparr>"
  have run: "DatabaseImpl_new K F mode start (db_version db) ?s = Some (ok ?db)"
    by (simp add: DatabaseImpl_new_def adm st(1) uc dc us(1))
  have ek: "entity_key ?db = entity_key db" by (rule ext) (simp add: entity_key_def legacy_def)
  have "stats_ok st fs" using db_invD(8) [OF i] st(2,3) by (simp add: stats_ok_def stats_count_def)
  then have "inv ?db fs" using i unfolding db_inv_def ek by simp
  moreover have "stats_entry st = stats_entry (db_stats db)" by (rule ext) (simp add: stats_entry_def st(3))
  then have "db_saved content ?db" using sv by (simp add: db_saved_def)
  ultimately have "disk ?db fs xs logs" using assms by (simp add: on_disk_def)
  then show ?thesis using run st(3) us(2) by auto
qed

text \<open>
  The counters that are read back make the next \<^verbatim>\<open>addOwnership\<close> for a known unit write to the key of the
  unit's last entry, which is lost.
\<close>

lemma reopen_overwrites_last_entry:
  assumes "disk db fs xs logs" "DatabaseImpl_new K F mode start (db_version db) (db_store db) = Some (ok db')"
    "u < length logs" "getUnitId K db' (oset_unit st) = ok (Some (of_nat u))"
  shows "\<exists>key a'. add_ownership_set K db' st a = ok a' \<and> last (as_batch a') = (F_ownershipRaw, key, concat (map storeLE (oset_ids st))) \<and>
    (key, last (logs ! u)) \<in> set (raw_entries logs)"
proof -
  have c: "db_unit_counters db' = map (\<lambda>l. of_nat (length l - 1)) logs" using reopen_ok [OF assms(1), of mode start] assms(2) by auto
  have u: "unat (of_nat u :: u32) = u" "logs ! u \<noteq> []"
    using assms(1,3) by (auto simp: on_disk_def logs_ok_def unat_of_nat)
  then have uc: "(ucast (of_nat u :: u32) :: u64) = of_nat u" using unat_lt_32 [of "of_nat u"] by (simp add: word_unat_eq_iff unat_ucast_mod unat_of_nat)
  let ?l = "logs ! u"
  have "(storeNat (of_nat u) @ storeNat (of_nat (length ?l - 1)), last ?l) \<in> set (unit_entries u ?l)"
    using u(2) by (auto simp: unit_entries_def last_conv_nth intro!: rev_image_eqI [of "length ?l - 1"])
  then have "(storeNat (of_nat u) @ storeNat (of_nat (length ?l - 1)), last ?l) \<in> set (raw_entries logs)"
    using assms(3) by (auto simp: raw_entries_def)
  then show ?thesis using assms(3,4) u(1) uc by (simp add: add_ownership_set_def c Let_def)
qed

lemma create_db_ok:
  assumes "\<And>f. content s f = Map.empty" "WordId_invalid < start"
  shows "\<exists>db. DatabaseImpl_new K F Create start version s = Some (ok db) \<and> disk db [] [] [] \<and>
    db_starting_id db = start \<and> db_next_id db = start \<and> db_version db = version \<and>
    (\<forall>f. f \<noteq> F_admin \<longrightarrow> content (db_store db) f = Map.empty)"
proof -
  let ?p = "\<lambda>i v. (F_admin, storeLE (AdminId_code i), storeLE (v :: u64))"
  define s1 where "s1 = rk_write K [?p STARTING_ID start] s"
  define s2 where "s2 = rk_write K [?p NEXT_ID start] s1"
  define s3 where "s3 = rk_write K [?p VERSION version] s2"
  have c: "content s3 F_admin = [storeLE (AdminId_code STARTING_ID) \<mapsto> storeLE start, storeLE (AdminId_code NEXT_ID) \<mapsto> storeLE start,
      storeLE (AdminId_code VERSION) \<mapsto> storeLE version]"
    by (simp add: s1_def s2_def s3_def written put_all_def assms(1))
  have e: "content s3 f = Map.empty" if "f \<noteq> F_admin" for f
    using that by (simp add: s1_def s2_def s3_def written put_all_def assms(1))
  have first: "rk_first K s3 f = []" if "f \<noteq> F_admin" for f using first_unique [of "[]" s3 f] e [OF that] by simp
  have a: "getAdminValue K STARTING_ID start True (ok ()) s = ok (start, s1)" "getAdminValue K NEXT_ID start True (ok ()) s1 = ok (start, s2)"
    "getAdminValue K VERSION version True (ok ()) s2 = ok (version, s3)"
    using admin_keys by (simp_all add: getAdminValue_def get s1_def s2_def s3_def written put_all_def assms(1))
  have l: "loadOwnershipSets K F s3 = Some (ok (Mem_empty, Usets_new 0))"
    by (simp add: loadOwnershipSets_def Database_getSetIterator_def Database_sizes_def first)
  let ?db = "\<lparr>db_version = version, db_open = True, db_store = s3, db_starting_id = start, db_next_id = start,
    db_stats = DenseMap_new, db_unit_counters = [], db_derived_counters = Map.empty, db_mem = Mem_empty, db_usets = Usets_new 0\<rparr>"
  have "DatabaseImpl_new K F Create start version s = Some (ok ?db)"
    by (simp add: DatabaseImpl_new_def a l loadStats_def loadOwnershipUnitCounters_def loadOwnershipDerivedCounters_def first)
  moreover have "disk ?db [] [] []"
  proof -
    have "inv ?db []" using assms(2) e by (simp add: db_inv_def facts_ok_def stats_ok_def stats_count_def of_type_def)
    moreover have "db_saved content ?db" using admin_keys c e by (auto simp: db_saved_def stats_entry_def fun_eq_iff)
    ultimately show ?thesis using e by (simp add: on_disk_def raw_entries_def logs_ok_def derived_keys_def)
  qed
  ultimately show ?thesis using e by auto
qed

lemma on_disk_commit:
  assumes "disk db fs xs logs" "FactSet_reach s" "keys_disjoint fs (FactSet_facts s)" "Database_commit K enc s db = ok db'"
  shows "disk db' (fs @ FactSet_facts s) xs logs"
proof -
  have i: "inv db fs" using assms(1) by (simp add: on_disk_def)
  have r: "FactSet_ok s" "\<forall>f\<in>set (fs_facts s). Clause_ok (Fact_clause f)"
    using FactSet_reach_ok FactSet_reach_clauses assms(2) by auto
  show ?thesis
  proof (cases "fs_facts s = []")
    case True
    then show ?thesis using assms(1,4) db_invD(1) [OF i]
      by (simp add: Database_commit_def FactSet_empty_def requireOpen_def FactSet_facts_def)
  next
    case False
    then have "db_next_id db \<le> FactSet.starting_id s"
      using commit_out_of_sequence [OF i False] assms(4) by (fastforce simp: raise_def ok_def)
    from commit_ok [OF i r this assms(3)] assms(1,4) show ?thesis by (auto simp: on_disk_def)
  qed
qed

lemma on_disk_optimize:
  assumes "disk db fs xs logs"
  shows "disk (optimize K db) fs xs []"
proof -
  have "optimize K db = db\<lparr>db_store := db_store (optimize K db)\<rparr>" by (simp add: optimize_def)
  then obtain s where s: "optimize K db = db\<lparr>db_store := s\<rparr>" by blast
  have "content s f = (if Family_keep f then content (db_store db) f else Map.empty)" for f
    using optimize_content [of db f] by (simp add: s)
  then show ?thesis using assms optimize_facts [of db fs]
    by (simp add: on_disk_def s db_saved_def Family_keep_def raw_entries_def logs_ok_def derived_keys_def)
qed

lemma on_disk_store:
  assumes "disk db fs xs logs" "computed_ok efc c" "\<forall>i\<in>fst ` set xs. i < co_firstId c" "storeOwnership K F c db = Some (ok db')"
  shows "disk db' fs (xs @ numbered (co_firstId c) (map the (co_sets c))) logs"
proof -
  have i: "inv db fs" and sv: "db_saved content db" and sets: "content (db_store db) F_ownershipSets = map_of (map set_entry xs)"
      "sorted_wrt (<) (map fst xs)" "\<forall>(i, e)\<in>set xs. units efc (se_set e)" using assms(1) by (simp_all add: on_disk_def)
  obtain ys where ys: "co_sets c = map Some ys" "\<forall>e\<in>set ys. units efc (se_set e)" "unat (co_firstId c) + length ys < 2 ^ 32"
    using computed_sets [OF assms(2)] by blast
  have the: "map the (co_sets c) = ys" by (simp add: ys(1) comp_def)
  have r: "db' = db\<lparr>db_store := db_store db', db_mem := db_mem db', db_usets := db_usets db'\<rparr>"
      "content (db_store db') F_ownershipSets = map_of (map set_entry (xs @ numbered (co_firstId c) ys))"
      "sorted_wrt (<) (map fst (xs @ numbered (co_firstId c) ys))"
      "\<forall>f. f \<noteq> F_ownershipSets \<longrightarrow> f \<noteq> F_factOwners \<longrightarrow> content (db_store db') f = content (db_store db) f"
    using storeOwnership_ok [OF db_invD(1) [OF i] sets ys assms(3)] assms(4) by auto
  have "inv db' fs" by (rule inv_other_families [OF i r(1)]) (use r(4) in auto)
  moreover have "db_saved content db'" using sv r(4) by (subst r(1)) (simp add: db_saved_def)
  moreover have "\<forall>(i, e)\<in>set (xs @ numbered (co_firstId c) ys). units efc (se_set e)"
    using sets(3) ys(2) snd_numbered by fastforce
  ultimately show ?thesis using assms(1) r(2-4) by (simp add: on_disk_def the)
qed

end

section \<open>Histories of a database\<close>

text \<open>
  Creating a database in an empty store, committing facts, storing computed ownership, optimizing it,
  writing metadata, and closing and opening it again.
\<close>

inductive Database_reach ::
    "'s Rocks \<Rightarrow> ('s \<Rightarrow> Family \<Rightarrow> bytes \<rightharpoonup> bytes) \<Rightarrow> varint_enc \<Rightarrow> (OwnerSet, 'r) EliasFano \<Rightarrow> (OwnerSet \<Rightarrow> u32 list) \<Rightarrow>
      's Database \<Rightarrow> afact list \<Rightarrow> (UsetId \<times> OwnerSet SetExpr) list \<Rightarrow> bool"
  for K :: "'s Rocks" and content enc F efc where
  created: "(\<And>f. content s f = Map.empty) \<Longrightarrow> WordId_invalid < start \<Longrightarrow> DatabaseImpl_new K F Create start version s = Some (ok db) \<Longrightarrow>
    Database_reach K content enc F efc db [] []"
| committed: "Database_reach K content enc F efc db fs xs \<Longrightarrow> FactSet_reach s \<Longrightarrow> keys_disjoint fs (FactSet_facts s) \<Longrightarrow>
    Database_commit K enc s db = ok db' \<Longrightarrow> Database_reach K content enc F efc db' (fs @ FactSet_facts s) xs"
| owned: "Database_reach K content enc F efc db fs xs \<Longrightarrow> computed_ok efc c \<Longrightarrow> (\<forall>i\<in>fst ` set xs. i < co_firstId c) \<Longrightarrow>
    storeOwnership K F c db = Some (ok db') \<Longrightarrow>
    Database_reach K content enc F efc db' fs (xs @ numbered (co_firstId c) (map the (co_sets c)))"
| noted: "Database_reach K content enc F efc db fs xs \<Longrightarrow> writeData K key val db = ok db' \<Longrightarrow> Database_reach K content enc F efc db' fs xs"
| optimized: "Database_reach K content enc F efc db fs xs \<Longrightarrow> Database_reach K content enc F efc (optimize K db) fs xs"
| reopened: "Database_reach K content enc F efc db fs xs \<Longrightarrow>
    DatabaseImpl_new K F mode start (db_version db) (db_store (Database_close db)) = Some (ok db') \<Longrightarrow>
    Database_reach K content enc F efc db' fs xs"

context owner_db
begin

lemma writeData_disk:
  assumes "disk db fs xs logs" "writeData K key val db = ok db'"
  shows "disk db' fs xs logs"
proof -
  have "db_open db" using assms(1) by (simp add: on_disk_def db_inv_def)
  then have d: "db' = db\<lparr>db_store := rk_write K [(F_meta, key, val)] (db_store db)\<rparr>"
    using assms(2) by (simp add: writeData_def requireOpen_def)
  have "entity_key db' = entity_key db" by (rule ext) (simp add: d entity_key_def legacy_def)
  then show ?thesis using assms(1) by (simp add: on_disk_def db_inv_def db_saved_def d written put_all_def)
qed

lemma reach_disk: "Database_reach K content enc F efc db fs xs \<Longrightarrow> \<exists>logs. disk db fs xs logs"
proof (induction rule: Database_reach.induct)
  case (created s start version db)
  then show ?case using create_db_ok [of s start version] by auto
next
  case (committed db fs xs s db')
  then show ?case using on_disk_commit by blast
next
  case (owned db fs xs c db')
  then show ?case using on_disk_store by blast
next
  case (noted db fs xs key val db')
  then show ?case using writeData_disk by blast
next
  case (optimized db fs xs)
  then show ?case using on_disk_optimize by blast
next
  case (reopened db fs xs mode start db')
  then obtain logs where "disk db fs xs logs" by blast
  from reopen_ok [OF this, of mode start] reopened.hyps(2) show ?case by (auto simp: Database_close_def)
qed

end

section \<open>A database in memory\<close>

text \<open>Owner sets whose data are the values themselves.\<close>

fun words32 :: "nat \<Rightarrow> bytes \<Rightarrow> u32 list" where
  "words32 0 bs = []"
| "words32 (Suc n) bs = loadLE bs # words32 n (drop 4 bs)"

definition owner_values :: "OwnerSet \<Rightarrow> u32 list" where
  "owner_values e = words32 (length (own_data e) div 4) (own_data e)"

definition owner_of :: "u32 list \<Rightarrow> OwnerSet" where
  "owner_of xs = \<lparr>own_size = of_nat (length xs), own_numLowerBits = 0, own_upperSizeBytes = 0, own_skipPointers = 0,
     own_forwardPointers = 0, own_lower = 0, own_upper = 0, own_data = concat (map storeLE xs)\<rparr>"

lemma words32_concat: "words32 (length xs) (concat (map storeLE xs)) = xs"
  by (induction xs) simp_all

lemma owner_values_of [simp]: "owner_values (owner_of xs) = xs"
proof -
  have "length (concat (map storeLE xs)) = 4 * length xs" by (induction xs) simp_all
  then show ?thesis by (simp add: owner_values_def owner_of_def words32_concat)
qed

definition owner_ef :: "(OwnerSet, u32 option \<times> u32 list) EliasFano" where
  "owner_ef =
     \<lparr>ef_encode = (\<lambda>n u xs. ok (owner_of xs)), ef_reader = (\<lambda>e. (None, owner_values e)), ef_next = ef_next list_ef,
      ef_skipTo = ef_skipTo list_ef, ef_value = ef_value list_ef, ef_valid = ef_valid list_ef\<rparr>"

interpretation owner_ef: owner_sets owner_ef owner_values "\<lambda>r. r"
  by unfold_locales (auto simp: owner_ef_def list_ef_def Option.is_none_def)

interpretation mem_db: owner_db log_rocks log_content leb128_enc leb128_dec owner_ef owner_values "\<lambda>r. r"
  by unfold_locales

abbreviation mem_reach :: "puts Database \<Rightarrow> afact list \<Rightarrow> (UsetId \<times> OwnerSet SetExpr) list \<Rightarrow> bool" where
  "mem_reach \<equiv> Database_reach log_rocks log_content leb128_enc owner_ef owner_values"

lemma sample_history:
  "\<exists>db. mem_reach db (FactSet_facts sample_set) [] \<and> db_inv log_content leb128_enc db (FactSet_facts sample_set) \<and>
    log_content (db_store db) F_ownershipSets = Map.empty \<and> log_content (db_store db) F_factOwners = Map.empty"
proof -
  have empty: "log_content [] f = Map.empty" for f by (simp add: log_entries_def)
  have st: "WordId_invalid < (1024 :: Id)" by (simp add: WordId_invalid_def)
  obtain db where db: "DatabaseImpl_new log_rocks owner_ef Create 1024 3 [] = Some (ok db)" "mem_db.disk db [] [] []"
      "db_next_id db = 1024" "\<forall>f. f \<noteq> F_admin \<longrightarrow> log_content (db_store db) f = Map.empty"
    using mem_db.create_db_ok [OF empty st, of 3] by auto
  have i: "db_inv log_content leb128_enc db []" using db(2) by (simp add: on_disk_def)
  have "FactSet.starting_id sample_set = 1024" by code_simp
  then have "db_next_id db \<le> FactSet.starting_id sample_set" by (simp add: db(3))
  then obtain db' where db': "Database_commit log_rocks leb128_enc sample_set db = ok db'"
      "db_inv log_content leb128_enc db' ([] @ FactSet_facts sample_set)"
      "\<forall>f. f \<notin> {F_entities, F_keys, F_admin, F_stats} \<longrightarrow> log_content (db_store db') f = log_content (db_store db) f"
    using log_db.commit_ok [OF i FactSet_reach_ok [OF sample_set_reach]] FactSet_reach_clauses [OF sample_set_reach]
    by (auto simp: keys_disjoint_def)
  have "mem_reach db [] []" by (rule Database_reach.created [where s = "[]", OF _ st db(1)]) (simp add: empty)
  from Database_reach.committed [OF this sample_set_reach _ db'(1)]
  have "mem_reach db' ([] @ FactSet_facts sample_set) []" by (simp add: keys_disjoint_def)
  then show ?thesis using db'(2,3) db(4) by auto
qed

section \<open>Properties\<close>





end
