(* ===== verification/Derived_Ownership.thy ===== *)
theory Derived_Ownership
  imports Rocks_Reopen
begin

text \<open>
  Ownership of derived facts: \<^verbatim>\<open>ownership/derived.h\<close> and \<^verbatim>\<open>derived.cpp\<close>, which collect the owners of facts
  while they are derived, and the part of \<^verbatim>\<open>rocksdb/rocksdb.cpp\<close> that moves them into a database and reads
  them back. A derived fact is owned by the conjunction of the owners of the facts it was derived from.
\<close>

section \<open>Collecting owners\<close>

record DefineOwnership =
  do_pid :: Pid
  do_ids :: "Id list"
  do_owners :: "UsetId list"
  do_mem :: UsetMem
  do_usets :: Usets
  do_newSets :: "uaddr list"

definition DefineOwnership_new :: "'e Ownership \<Rightarrow> Pid \<Rightarrow> DefineOwnership" where
  "DefineOwnership_new ownership pid =
     \<lparr>do_pid = pid, do_ids = [], do_owners = [], do_mem = Mem_empty, do_usets = Usets_new (nextSetId ownership), do_newSets = []\<rparr>"

text \<open>The owner of a conjunction: the id it has in the database, or one it gets in the batch.\<close>

definition DefineOwnership_conjunction :: "'e Ownership \<Rightarrow> SetU32 \<Rightarrow> DefineOwnership \<Rightarrow> (UsetId \<times> DefineOwnership) result" where
  "DefineOwnership_conjunction ownership st d =
     (let uset = Uset_new st And 0; usetid = lookupSet ownership (us_exp uset) in
      if usetid = INVALID_USET then
        let q = um_fresh (do_mem d) in
        rbind (Usets_add_owned uset (do_mem d) (do_usets d)) (\<lambda>(p, m, us).
        if p = q then
          rbind (Usets_promote p m us) (\<lambda>(m, us).
          rbind (Mem_get p m) (\<lambda>u.
          ok (us_id u, d\<lparr>do_mem := m, do_usets := us, do_newSets := do_newSets d @ [p]\<rparr>)))
        else rbind (Mem_get p m) (\<lambda>u. ok (us_id u, d\<lparr>do_mem := m, do_usets := us\<rparr>)))
      else ok (usetid, d))"

definition derivedFrom :: "'e Ownership \<Rightarrow> Id \<Rightarrow> u32 set \<Rightarrow> DefineOwnership \<Rightarrow> DefineOwnership result" where
  "derivedFrom ownership i deps d =
     (if deps = {} then ok d
      else
        let st = SetU32_from (sorted_list_of_set deps) in
        rbind (if SetU32_size st = 1 then ok (hd (sorted_list_of_set deps), d) else DefineOwnership_conjunction ownership st d)
          (\<lambda>(usetid, d). ok (d\<lparr>do_ids := do_ids d @ [i], do_owners := do_owners d @ [usetid]\<rparr>)))"

definition DefineOwnership_subst :: "Substitution \<Rightarrow> DefineOwnership \<Rightarrow> DefineOwnership" where
  "DefineOwnership_subst subst d = d\<lparr>do_ids := map (Substitution_subst subst) (do_ids d)\<rparr>"

section \<open>Owners of derived facts\<close>

text \<open>
  The batches of an iterator are pairs of ids and owners. \<^verbatim>\<open>std::map\<close> is a list sorted by the keys. The hash map
  of owner sets is a list too; \<open>order\<close> is the order in which it is traversed, which is not specified.
\<close>

type_synonym DerivedFactOwnership = "Id list \<times> UsetId list"

definition ordered_put :: "u64 \<Rightarrow> 'v \<Rightarrow> (u64 \<times> 'v) list \<Rightarrow> (u64 \<times> 'v) list" where
  "ordered_put k v xs = filter (\<lambda>(j, w). j < k) xs @ (k, v) # filter (\<lambda>(j, w). k < j) xs"

record DerivedState =
  ds_factOwners :: "(u64 \<times> UsetId) list"
  ds_factOwnerSets :: "(u64 \<times> u32 set) list"

definition derived_entry :: "u64 \<times> UsetId \<Rightarrow> DerivedState \<Rightarrow> DerivedState" where
  "derived_entry = (\<lambda>(i, owner) s.
     case map_of (ds_factOwners s) i of
       Some _ \<Rightarrow> s
     | None \<Rightarrow>
         let sets = (case map_of (ds_factOwnerSets s) i of
                       Some _ \<Rightarrow> ds_factOwnerSets s
                     | None \<Rightarrow> ds_factOwnerSets s @ [(i, {owner})])
         in s\<lparr>ds_factOwners := ordered_put i owner (ds_factOwners s),
              ds_factOwnerSets := map (\<lambda>(j, A). (j, if j = i then insert owner A else A)) sets\<rparr>)"

fun derived_sets :: "'e Ownership \<Rightarrow> (u64 \<times> u32 set) list \<Rightarrow> UsetMem \<times> Usets \<times> (u64 \<times> UsetId) list \<Rightarrow>
    (UsetMem \<times> Usets \<times> (u64 \<times> UsetId) list) result" where
  "derived_sets ownership [] r = ok r"
| "derived_sets ownership ((i, A) # ps) (m, us, fowners) =
     (if card A > 1 then
        let uset = Uset_new (SetU32_from (sorted_list_of_set A)) Or 0; usetid = lookupSet ownership (us_exp uset) in
        rbind (if usetid = INVALID_USET then
            rbind (Usets_add_owned uset m us) (\<lambda>(p, m, us).
            rbind (Usets_promote p m us) (\<lambda>(m, us).
            rbind (Mem_get p m) (\<lambda>u. ok (us_id u, m, us))))
          else ok (usetid, m, us)) (\<lambda>(usetid, m, us).
        derived_sets ownership ps (m, us, ordered_put i usetid fowners))
      else derived_sets ownership ps (m, us, fowners))"

fun derived_intervals :: "UsetId \<Rightarrow> (u64 \<times> UsetId) list \<Rightarrow> (Id \<times> UsetId) list" where
  "derived_intervals current [] = []"
| "derived_intervals current ((i, usetid) # ps) =
     (if usetid \<noteq> current then (i, usetid) # derived_intervals usetid ps else derived_intervals current ps)"

definition computeDerivedOwnership :: "((u64 \<times> u32 set) list \<Rightarrow> (u64 \<times> u32 set) list) \<Rightarrow> ('e, 'r) EliasFano \<Rightarrow>
    'e Ownership \<Rightarrow> DerivedFactOwnership list \<Rightarrow> 'e ComputedOwnership result" where
  "computeDerivedOwnership order F ownership iter =
     (let s = fold derived_entry (concat (map (\<lambda>(ids, fowners). zip ids fowners) iter)) \<lparr>ds_factOwners = [], ds_factOwnerSets = []\<rparr> in
      rbind (derived_sets ownership (order (ds_factOwnerSets s)) (Mem_empty, Usets_new (nextSetId ownership), ds_factOwners s))
        (\<lambda>(m, us, fowners).
      rbind (Usets_toEliasFano F m us) (\<lambda>sets.
      ok \<lparr>co_firstId = ut_firstId us, co_sets = sets, co_facts = derived_intervals INVALID_USET fowners\<rparr>)))"

section \<open>Derived ownership in the database\<close>

definition set_subst :: "(UsetId \<rightharpoonup> UsetId) \<Rightarrow> u32 \<Rightarrow> u32" where
  "set_subst substitution old = (case substitution old of None \<Rightarrow> old | Some n \<Rightarrow> n)"

record RebaseSets =
  rb_mem :: UsetMem
  rb_usets :: Usets
  rb_subst :: "UsetId \<rightharpoonup> UsetId"
  rb_batch :: puts

definition rebase_set :: "(OwnerSet, 'r) EliasFano \<Rightarrow> UsetMem \<Rightarrow> uaddr \<Rightarrow> RebaseSets \<Rightarrow> RebaseSets result" where
  "rebase_set F dm a r =
     rbind (Mem_get a dm) (\<lambda>uset.
     let s = set_subst (rb_subst r) ` set (SetU32_foreach (se_set (us_exp uset)));
         newUset = Uset_new (SetU32_from (sorted_list_of_set s)) (se_op (us_exp uset)) 0;
         p = um_fresh (rb_mem r) in
     rbind (Usets_add_owned newUset (rb_mem r) (rb_usets r)) (\<lambda>(q, m, us).
     rbind (if p = q then
         rbind (Usets_promote p m us) (\<lambda>(m, us).
         rbind (Mem_get p m) (\<lambda>u.
         rbind (Uset_toEliasFano F u) (\<lambda>ownerset.
         ok (m, us, rb_batch r @ [putOwnerSet (us_id u) ownerset]))))
       else ok (m, us, rb_batch r)) (\<lambda>(m, us, batch).
     rbind (Mem_get q m) (\<lambda>u.
     ok \<lparr>rb_mem = m, rb_usets = us, rb_subst = (rb_subst r)(us_id uset \<mapsto> us_id u), rb_batch = batch\<rparr>))))"

definition rebase_sets :: "'s Rocks \<Rightarrow> (OwnerSet, 'r) EliasFano \<Rightarrow> DefineOwnership \<Rightarrow> 's Database \<Rightarrow> ('s Database \<times> DefineOwnership) result" where
  "rebase_sets K F def db =
     (if do_newSets def = [] then ok (db, def)
      else
        rbind (rfold (rebase_set F (do_mem def)) (do_newSets def)
          \<lparr>rb_mem = db_mem db, rb_usets = db_usets db, rb_subst = Map.empty, rb_batch = []\<rparr>) (\<lambda>r.
        ok (db\<lparr>db_store := rk_write K (rb_batch r) (db_store db), db_mem := rb_mem r, db_usets := rb_usets r\<rparr>,
            def\<lparr>do_owners := map (set_subst (rb_subst r)) (do_owners def)\<rparr>)))"

definition derived_value :: "DerivedFactOwnership \<Rightarrow> bytes" where
  "derived_value = (\<lambda>(ids, fowners). concat (map storeLE ids) @ concat (map storeLE fowners))"

definition addDefineOwnership :: "'s Rocks \<Rightarrow> (OwnerSet, 'r) EliasFano \<Rightarrow> DefineOwnership \<Rightarrow> 's Database \<Rightarrow>
    ('s Database \<times> DefineOwnership) result" where
  "addDefineOwnership K F def db =
     rbind (requireOpen db) (\<lambda>_.
     rbind (rebase_sets K F def db) (\<lambda>(db, def).
     let pid = do_pid def; n = (case db_derived_counters db pid of None \<Rightarrow> 0 | Some n \<Rightarrow> n);
         put = (F_ownershipDerivedRaw, storeNat pid @ storeNat n, derived_value (do_ids def, do_owners def)) in
     ok (db\<lparr>db_store := rk_write K [put] (db_store db), db_derived_counters := (db_derived_counters db)(pid \<mapsto> n + 1)\<rparr>, def)))"

definition DerivedFactIterator_get :: "Pid \<Rightarrow> bytes \<times> bytes \<Rightarrow> DerivedFactOwnership option result" where
  "DerivedFactIterator_get pid = (\<lambda>(k, v).
     rbind (Input_trustedNat k) (\<lambda>(p, _).
     if p \<noteq> pid then ok None
     else let elts = length v div 12 in ok (Some (words_of elts v, words32 elts (drop (elts * 8) v)))))"

fun derived_iterator :: "Pid \<Rightarrow> (bytes \<times> bytes) list \<Rightarrow> DerivedFactOwnership list result" where
  "derived_iterator pid [] = ok []"
| "derived_iterator pid (e # es) =
     rbind (DerivedFactIterator_get pid e) (\<lambda>r.
     case r of None \<Rightarrow> ok [] | Some b \<Rightarrow> rbind (derived_iterator pid es) (\<lambda>bs. ok (b # bs)))"

definition getDerivedFactOwnershipIterator :: "'s Rocks \<Rightarrow> Pid \<Rightarrow> 's Database \<Rightarrow> DerivedFactOwnership list result" where
  "getDerivedFactOwnershipIterator K pid db =
     derived_iterator pid (rk_seek K (db_store db) F_ownershipDerivedRaw None (storeNat pid))"

end
