(* ===== verification/Queries.thy ===== *)
theory Queries
  imports Define_Batch Derived_Ownership
begin

text \<open>
  Executing queries, \<^verbatim>\<open>rts/query.h\<close> and \<^verbatim>\<open>query.cpp\<close>, with the serialisation of subroutines in
  \<^verbatim>\<open>rts/bytecode/subroutine.cpp\<close>. A query is compiled to a bytecode subroutine, which calls the functions of
  a \<^verbatim>\<open>QueryExecutor\<close>. The evaluator is generated code and a parameter: a run of the subroutine is the tree of its
  calls, where every answer decides how it goes on. The interface \<^verbatim>\<open>Define\<close> of the facts, the ownership, the
  traversal subroutines and the readings of the clock are parameters too.
\<close>

section \<open>Subroutines\<close>

record Subroutine =
  sub_code :: "u64 list"
  sub_inputs :: u64
  sub_outputs :: u64
  sub_locals :: u64
  sub_constants :: "u64 list"
  sub_literals :: "bytes list"

record ThriftSubroutine =
  th_code :: "int list"
  th_inputs :: int
  th_outputs :: int
  th_locals :: int
  th_constants :: "int list"
  th_literals :: "bytes list"

definition Subroutine_toThrift :: "Subroutine \<Rightarrow> ThriftSubroutine" where
  "Subroutine_toThrift s =
     \<lparr>th_code = map sint (sub_code s), th_inputs = sint (sub_inputs s), th_outputs = sint (sub_outputs s),
      th_locals = sint (sub_locals s), th_constants = map sint (sub_constants s), th_literals = sub_literals s\<rparr>"

definition Subroutine_fromThrift :: "ThriftSubroutine \<Rightarrow> Subroutine" where
  "Subroutine_fromThrift t =
     \<lparr>sub_code = map word_of_int (th_code t), sub_inputs = word_of_int (th_inputs t), sub_outputs = word_of_int (th_outputs t),
      sub_locals = word_of_int (th_locals t), sub_constants = map word_of_int (th_constants t), sub_literals = th_literals t\<rparr>"

definition Subroutine_size :: "Subroutine \<Rightarrow> u64" where
  "Subroutine_size s =
     fold (\<lambda>lit litsz. litsz + of_nat (length lit)) (sub_literals s) 0 + 8 +
     of_nat (length (sub_code s)) * 8 + of_nat (length (sub_constants s)) * 8"

section \<open>The state of a query\<close>

datatype Depth = ResultsOnly | ExpandRecursive | ExpandPartial

text \<open>The object \<^verbatim>\<open>EmptyIterator\<close>, whose \<^verbatim>\<open>next\<close> does nothing, is \<open>None\<close>.\<close>

record Iter =
  it_iter :: "FactIterator option"
  it_type :: Pid
  it_id :: Id
  it_prefix_size :: u64
  it_first :: bool

record Nested =
  nested_added :: "u64 list"
  nested_facts :: "(u64 \<times> u64 \<times> bytes \<times> bytes) list"
  nested_pending :: "Id list"

record KeyIterator =
  ki_type :: int
  ki_key :: bytes
  ki_prefix_size :: int
  ki_first :: bool

record SubroutineState =
  ss_code :: bytes
  ss_entry :: int
  ss_inputs :: int
  ss_locals :: "int list"
  ss_literals :: "bytes list"

record QueryCont =
  qc_iters :: "KeyIterator list"
  qc_outputs :: "bytes list"
  qc_sub :: SubroutineState
  qc_pid :: int
  qc_traverse :: "ThriftSubroutine option"

record 'd QueryExecutor =
  q_check_timeout :: u64
  q_timeout :: int
  q_start_time :: int
  q_ticks :: nat
  q_facts :: 'd
  q_ownership :: "DefineOwnership option"
  q_pid :: Pid
  q_traverse :: "Subroutine option"
  q_depth :: Depth
  q_expandPids :: "Pid list"
  q_results_added :: "u64 list"
  q_results :: "(u64 \<times> u64 \<times> bytes \<times> bytes) list"
  q_nested :: Nested
  q_queryCont :: "QueryCont option"
  q_stats :: "u64 \<rightharpoonup> u64"
  q_wantStats :: bool
  q_outputs :: "bytes list"
  q_iters :: "Iter list"

text \<open>
  What the executor is given. Time is what the clock reads, and the time of the last interrupt, at the \<open>n\<close>-th call
  of \<^verbatim>\<open>next\<close>.
\<close>

record ('d, 'e) QueryEnv =
  qe_inventory :: Inventory
  qe_view :: "'d \<Rightarrow> Lookup"
  qe_define :: "'d \<Rightarrow> Pid \<Rightarrow> Clause \<Rightarrow> Id \<Rightarrow> (Id \<times> 'd) result"
  qe_ownership :: "'e Ownership"
  qe_sub :: Subroutine
  qe_runTraverse :: "Subroutine \<Rightarrow> Clause \<Rightarrow> (Id \<times> Pid) list"
  qe_now :: "nat \<Rightarrow> int"
  qe_last_interrupt :: "nat \<Rightarrow> int"

section \<open>Iterators\<close>

definition Iter_get :: "Demand \<Rightarrow> Iter \<Rightarrow> Ref" where
  "Iter_get d it = (case it_iter it of None \<Rightarrow> Ref_invalid | Some rs \<Rightarrow> iter_get d rs)"

definition Iter_next :: "Iter \<Rightarrow> Iter result" where
  "Iter_next it =
     (case it_iter it of None \<Rightarrow> ok it | Some rs \<Rightarrow> rbind (iter_next rs) (\<lambda>rs. ok (it\<lparr>it_iter := Some rs\<rparr>)))"

definition Query_seek :: "('d, 'e) QueryEnv \<Rightarrow> Pid \<Rightarrow> bytes \<Rightarrow> 'd QueryExecutor \<Rightarrow> nat \<times> 'd QueryExecutor" where
  "Query_seek env type key q =
     (length (q_iters q),
      q\<lparr>q_iters := q_iters q @ [\<lparr>it_iter = Some (seek (qe_view env (q_facts q)) type key (length key)), it_type = type,
         it_id = WordId_invalid, it_prefix_size = of_nat (length key), it_first = True\<rparr>]\<rparr>)"

definition currentSeek :: "'d QueryExecutor \<Rightarrow> nat" where
  "currentSeek q = length (q_iters q)"

fun endSeek_loop :: "nat \<Rightarrow> Iter list \<Rightarrow> Iter list" where
  "endSeek_loop token iters = (if length iters > token then endSeek_loop token (butlast iters) else iters)"

declare endSeek_loop.simps [simp del]

definition endSeek :: "nat \<Rightarrow> 'd QueryExecutor \<Rightarrow> 'd QueryExecutor" where
  "endSeek token q = q\<lparr>q_iters := endSeek_loop token (q_iters q)\<rparr>"

definition Query_next :: "nat \<Rightarrow> Demand \<Rightarrow> 'd QueryExecutor \<Rightarrow> (Ref \<times> 'd QueryExecutor) result" where
  "Query_next token demand q =
     rbind (guard (q_iters q \<noteq> [] \<and> token = length (q_iters q) - 1) CheckFailed) (\<lambda>_.
     let it = q_iters q ! token in
     rbind (if it_first it then ok (it\<lparr>it_first := False\<rparr>) else Iter_next it) (\<lambda>it.
     let res = Iter_get demand it in
     if Ref_bool res then
       ok (res, q\<lparr>q_iters := (q_iters q)[token := it\<lparr>it_id := ref_id res\<rparr>],
         q_stats := (if q_wantStats q
           then (q_stats q)(it_type it \<mapsto> (case q_stats q (it_type it) of None \<Rightarrow> 0 | Some n \<Rightarrow> n) + 1) else q_stats q)\<rparr>)
     else ok (res, q\<lparr>q_iters := (q_iters q)[token := it]\<rparr>)))"

section \<open>Facts\<close>

text \<open>The outputs are named by their index; an absent one is a null pointer.\<close>

definition put_output :: "nat option \<Rightarrow> bytes \<Rightarrow> 'd QueryExecutor \<Rightarrow> 'd QueryExecutor" where
  "put_output out bs q = (case out of None \<Rightarrow> q | Some i \<Rightarrow> q\<lparr>q_outputs := (q_outputs q)[i := bs]\<rparr>)"

definition output_bytes :: "'d QueryExecutor \<Rightarrow> nat option \<Rightarrow> bytes option" where
  "output_bytes q out = map_option (\<lambda>i. q_outputs q ! i) out"

definition lookupKeyValue :: "('d, 'e) QueryEnv \<Rightarrow> Id \<Rightarrow> nat option \<Rightarrow> nat option \<Rightarrow> 'd QueryExecutor \<Rightarrow> Pid \<times> 'd QueryExecutor" where
  "lookupKeyValue env fid kout vout q =
     (case factById (qe_view env (q_facts q)) fid of
        None \<Rightarrow> (WordId_invalid, q)
      | Some (pid, clause) \<Rightarrow> (pid, put_output vout (Clause_value clause) (put_output kout (Clause_key clause) q)))"

definition derived_owners :: "'e Ownership \<Rightarrow> Iter list \<Rightarrow> u32 set" where
  "derived_owners ow iters =
     set (filter (\<lambda>u. u \<noteq> INVALID_USET) (map (\<lambda>it. getOwner ow (it_id it)) (filter (\<lambda>it. it_id it \<noteq> WordId_invalid) iters)))"

definition newDerivedFact :: "('d, 'e) QueryEnv \<Rightarrow> Pid \<Rightarrow> nat \<Rightarrow> u64 \<Rightarrow> 'd QueryExecutor \<Rightarrow> (Id \<times> 'd QueryExecutor) result" where
  "newDerivedFact env type key keySize q =
     rbind (qe_define env (q_facts q) type (Clause_from (q_outputs q ! key) keySize) WordId_invalid) (\<lambda>(i, facts).
     let q = q\<lparr>q_facts := facts\<rparr> in
     case q_ownership q of
       None \<Rightarrow> ok (i, q)
     | Some d \<Rightarrow>
         let fowners = derived_owners (qe_ownership env) (q_iters q) in
         if fowners \<noteq> {}
         then rbind (derivedFrom (qe_ownership env) i fowners d) (\<lambda>d. ok (i, q\<lparr>q_ownership := Some d\<rparr>))
         else ok (i, q))"

section \<open>Results\<close>

definition nestedFact :: "Depth \<Rightarrow> Pid list \<Rightarrow> Id \<Rightarrow> Pid \<Rightarrow> Nested \<Rightarrow> Nested" where
  "nestedFact depth expandPids i pid n =
     (if depth = ExpandPartial \<and> pid \<notin> set expandPids then n
      else if i \<in> set (nested_added n) then n
      else n\<lparr>nested_added := i # nested_added n, nested_pending := nested_pending n @ [i]\<rparr>)"

definition nested_traverse :: "Depth \<Rightarrow> Pid list \<Rightarrow> (Id \<times> Pid) list \<Rightarrow> Nested \<Rightarrow> Nested" where
  "nested_traverse depth expandPids refs n = fold (\<lambda>(i, t). nestedFact depth expandPids i t) refs n"

definition nested_record :: "Id \<Rightarrow> Pid \<Rightarrow> Clause \<Rightarrow> Nested \<Rightarrow> Nested" where
  "nested_record i pid clause n = n\<lparr>nested_facts := nested_facts n @ [(i, pid, Clause_key clause, Clause_value clause)]\<rparr>"

text \<open>The loop over the pending facts ends: every turn removes one, and a fact is added only once.\<close>

definition nested_measure :: "Nested \<Rightarrow> nat" where
  "nested_measure n = 2 * card (- set (nested_added n)) + length (nested_pending n)"

lemma nestedFact_measure: "nested_measure (nestedFact depth pids i t n) \<le> nested_measure n"
proof -
  have "card (- set (i # nested_added n)) = card (- set (nested_added n)) - 1" "card (- set (nested_added n)) > 0"
    if "i \<notin> set (nested_added n)"
  proof -
    have "- set (i # nested_added n) = - set (nested_added n) - {i}" by auto
    then show "card (- set (i # nested_added n)) = card (- set (nested_added n)) - 1" using that by simp
    show "card (- set (nested_added n)) > 0" using that by (auto simp: card_gt_0_iff)
  qed
  then show ?thesis by (auto simp: nestedFact_def nested_measure_def)
qed

lemma nested_traverse_measure: "nested_measure (nested_traverse depth pids refs n) \<le> nested_measure n"
proof (induction refs arbitrary: n)
  case (Cons r refs)
  then show ?case using nestedFact_measure [of depth pids "fst r" "snd r" n]
    by (auto simp: nested_traverse_def split_def intro: le_trans)
qed (simp add: nested_traverse_def)

lemma nested_pop: "nested_pending n \<noteq> [] \<Longrightarrow> nested_measure (n\<lparr>nested_pending := butlast (nested_pending n)\<rparr>) < nested_measure n"
  by (simp add: nested_measure_def)

lemma nested_turn:
  assumes "nested_pending n \<noteq> []"
  shows "nested_measure (nested_record i pid clause (nested_traverse depth pids refs (n\<lparr>nested_pending := butlast (nested_pending n)\<rparr>))) < nested_measure n"
  using nested_pop [OF assms] nested_traverse_measure [of depth pids refs "n\<lparr>nested_pending := butlast (nested_pending n)\<rparr>"]
  by (simp add: nested_measure_def nested_record_def)

function nested_loop :: "Inventory \<Rightarrow> Lookup \<Rightarrow> Depth \<Rightarrow> Pid list \<Rightarrow> Nested \<Rightarrow> Nested result" where
  "nested_loop inventory facts depth pids n =
     (if nested_pending n = [] then ok n
      else
        let i = last (nested_pending n); n' = n\<lparr>nested_pending := butlast (nested_pending n)\<rparr> in
        case factById facts i of
          None \<Rightarrow> nested_loop inventory facts depth pids n'
        | Some (pid, clause) \<Rightarrow>
            (case lookupPredicate inventory pid of
               None \<Rightarrow> raise Undefined
             | Some p \<Rightarrow> nested_loop inventory facts depth pids
                 (nested_record i pid clause (nested_traverse depth pids (traverser p clause) n'))))"
  by pat_completeness auto

termination
  by (relation "measure (\<lambda>(inventory, facts, depth, pids, n). nested_measure n)") (auto simp: nested_pop nested_turn)

declare nested_loop.simps [simp del]

definition result_clause :: "bytes option \<Rightarrow> bytes option \<Rightarrow> Clause" where
  "result_clause key val =
     Clause_from (opt_list key @ opt_list val) (of_nat (length (opt_list key)))"

definition resultWithPid :: "('d, 'e) QueryEnv \<Rightarrow> Id \<Rightarrow> bytes option \<Rightarrow> bytes option \<Rightarrow> Pid \<Rightarrow> bool \<Rightarrow> 'd QueryExecutor \<Rightarrow>
    'd QueryExecutor result" where
  "resultWithPid env i key val pid rec q =
     rbind (guard (i \<noteq> WordId_invalid) CheckFailed) (\<lambda>_.
     let q = q\<lparr>q_results := q_results q @ [(i, pid, opt_list key, opt_list val)]\<rparr> in
     if rec \<or> q_depth q \<noteq> ResultsOnly then
       let clause = result_clause key val in
       rbind (case q_traverse q of
           Some traverse \<Rightarrow> ok (qe_runTraverse env traverse clause)
         | None \<Rightarrow>
             (case lookupPredicate (qe_inventory env) pid of
                None \<Rightarrow> raise (RtsError ''unknown pid'')
              | Some predicate \<Rightarrow> ok (traverser predicate clause))) (\<lambda>refs.
       rbind (nested_loop (qe_inventory env) (qe_view env (q_facts q)) (q_depth q) (q_expandPids q)
         (nested_traverse (q_depth q) (q_expandPids q) refs (q_nested q))) (\<lambda>n. ok (q\<lparr>q_nested := n\<rparr>)))
     else ok q)"

definition Query_result :: "('d, 'e) QueryEnv \<Rightarrow> Id \<Rightarrow> bytes option \<Rightarrow> bytes option \<Rightarrow> 'd QueryExecutor \<Rightarrow> (bool \<times> 'd QueryExecutor) result" where
  "Query_result env i key val q =
     (if i \<in> set (q_results_added q) then ok (False, q)
      else rbind (resultWithPid env i key val (q_pid q) False (q\<lparr>q_results_added := i # q_results_added q\<rparr>)) (\<lambda>q. ok (True, q)))"

section \<open>Suspending and resuming a query\<close>

definition save_iter :: "Iter \<Rightarrow> KeyIterator" where
  "save_iter it =
     (let fct = Iter_get KeyOnly it in
      if Ref_bool fct then
        \<lparr>ki_type = WordId_toThrift (it_type it), ki_key = Ref_key fct, ki_prefix_size = sint (it_prefix_size it), ki_first = it_first it\<rparr>
      else \<lparr>ki_type = WordId_toThrift WordId_invalid, ki_key = [], ki_prefix_size = 0, ki_first = False\<rparr>)"

definition saveState :: "('d, 'e) QueryEnv \<Rightarrow> u64 \<Rightarrow> u64 list \<Rightarrow> 'd QueryExecutor \<Rightarrow> 'd QueryExecutor result" where
  "saveState env pc frame q =
     (let sub = qe_sub env in
      rbind (guard (unat (sub_inputs sub) + unat (sub_locals sub) \<le> length frame) Undefined) (\<lambda>_.
      ok (q\<lparr>q_queryCont := Some
        \<lparr>qc_iters = map save_iter (q_iters q), qc_outputs = q_outputs q,
         qc_sub = \<lparr>ss_code = concat (map storeLE (sub_code sub)), ss_entry = sint pc, ss_inputs = sint (sub_inputs sub),
           ss_locals = map sint (take (unat (sub_locals sub)) (drop (unat (sub_inputs sub)) frame)), ss_literals = sub_literals sub\<rparr>,
         qc_pid = WordId_toThrift (q_pid q), qc_traverse = map_option Subroutine_toThrift (q_traverse q)\<rparr>\<rparr>)))"

definition restore_iter :: "Lookup \<Rightarrow> KeyIterator \<Rightarrow> Iter result" where
  "restore_iter facts saved =
     (let type = WordId_fromThrift (ki_type saved); n = word_of_int (ki_prefix_size saved) in
      if WordId_bool type then
        let iter = seek facts type (ki_key saved) (unat n); res = iter_get KeyOnly iter in
        if \<not> Ref_bool res \<or> Ref_key res \<noteq> ki_key saved then raise (RtsError ''restart iter didn't find a key'')
        else ok \<lparr>it_iter = Some iter, it_type = type, it_id = ref_id res, it_prefix_size = n, it_first = ki_first saved\<rparr>
      else ok \<lparr>it_iter = None, it_type = type, it_id = WordId_invalid, it_prefix_size = n, it_first = ki_first saved\<rparr>)"

definition restart_sub :: "QueryCont \<Rightarrow> Subroutine" where
  "restart_sub c =
     \<lparr>sub_code = words_of (length (ss_code (qc_sub c)) div 8) (ss_code (qc_sub c)), sub_inputs = word_of_int (ss_inputs (qc_sub c)),
      sub_outputs = of_nat (length (qc_outputs c)), sub_locals = of_nat (length (ss_locals (qc_sub c))), sub_constants = [],
      sub_literals = ss_literals (qc_sub c)\<rparr>"

section \<open>Calls of the subroutine\<close>

definition CHECK_TIMEOUT_INTERVAL :: u64 where
  "CHECK_TIMEOUT_INTERVAL = 100"

definition timeExpired :: "('d, 'e) QueryEnv \<Rightarrow> 'd QueryExecutor \<Rightarrow> bool \<times> 'd QueryExecutor" where
  "timeExpired env q =
     (let q = q\<lparr>q_check_timeout := q_check_timeout q - 1\<rparr> in
      if q_check_timeout q = 0 then
        if qe_now env (q_ticks q) > q_timeout q then (True, q) else (False, q\<lparr>q_check_timeout := CHECK_TIMEOUT_INTERVAL\<rparr>)
      else (False, q))"

definition interrupted :: "('d, 'e) QueryEnv \<Rightarrow> 'd QueryExecutor \<Rightarrow> bool" where
  "interrupted env q \<longleftrightarrow> qe_last_interrupt env (q_ticks q) > q_start_time q"

datatype Call = SeekCall Pid bytes | CurrentSeekCall | EndSeekCall nat | NextCall nat Demand
  | LookupCall Id "nat option" "nat option" | ResultCall Id "nat option" "nat option"
  | ResultWithPidCall Id "nat option" "nat option" Pid bool | NewDerivedFactCall Pid nat u64 | SaveStateCall u64 "u64 list"
  | OutputCall nat bytes

datatype Answer = NoAnswer | TokenAnswer nat | PidAnswer Pid | IdAnswer Id | AddedAnswer bool
  | NextDone | NextFact Id bytes bytes | NextStop

text \<open>\<open>OutputCall\<close> is an instruction that changes an output.\<close>

definition next_call :: "('d, 'e) QueryEnv \<Rightarrow> nat \<Rightarrow> Demand \<Rightarrow> 'd QueryExecutor \<Rightarrow> (Answer \<times> 'd QueryExecutor) result" where
  "next_call env token demand q =
     (case timeExpired env q of (expired, q') \<Rightarrow>
        let q'' = q'\<lparr>q_ticks := Suc (q_ticks q)\<rparr> in
        if expired then ok (NextStop, q'')
        else if interrupted env q' then ok (NextStop, q'')
        else
          rbind (Query_next token demand q'') (\<lambda>(res, q).
          ok (if Ref_bool res then NextFact (ref_id res) (Ref_key res) (Ref_value res) else NextDone, q)))"

fun Query_call :: "('d, 'e) QueryEnv \<Rightarrow> Call \<Rightarrow> 'd QueryExecutor \<Rightarrow> (Answer \<times> 'd QueryExecutor) result" where
  "Query_call env (SeekCall type key) q = (case Query_seek env type key q of (token, q) \<Rightarrow> ok (TokenAnswer token, q))"
| "Query_call env CurrentSeekCall q = ok (TokenAnswer (currentSeek q), q)"
| "Query_call env (EndSeekCall token) q = ok (NoAnswer, endSeek token q)"
| "Query_call env (NextCall token demand) q = next_call env token demand q"
| "Query_call env (LookupCall fid kout vout) q = (case lookupKeyValue env fid kout vout q of (pid, q) \<Rightarrow> ok (PidAnswer pid, q))"
| "Query_call env (ResultCall i key val) q =
     rbind (Query_result env i (output_bytes q key) (output_bytes q val) q) (\<lambda>(added, q). ok (AddedAnswer added, q))"
| "Query_call env (ResultWithPidCall i key val pid rec) q =
     rbind (resultWithPid env i (output_bytes q key) (output_bytes q val) pid rec q) (\<lambda>q. ok (NoAnswer, q))"
| "Query_call env (NewDerivedFactCall type key keySize) q =
     rbind (newDerivedFact env type key keySize q) (\<lambda>(i, q). ok (IdAnswer i, q))"
| "Query_call env (SaveStateCall pc frame) q = rbind (saveState env pc frame q) (\<lambda>q. ok (NoAnswer, q))"
| "Query_call env (OutputCall i bs) q = ok (NoAnswer, put_output (Some i) bs q)"

section \<open>Executing a query\<close>

datatype query_run = QueryDone | QueryError err | QueryCall Call "Answer \<Rightarrow> query_run"

primrec run_query :: "('d, 'e) QueryEnv \<Rightarrow> query_run \<Rightarrow> 'd QueryExecutor \<Rightarrow> 'd QueryExecutor result" where
  "run_query env QueryDone q = ok q"
| "run_query env (QueryError e) q = raise e"
| "run_query env (QueryCall c k) q =
     (case Query_call env c q of Inl e \<Rightarrow> raise e | Inr (a, q') \<Rightarrow> run_query env (k a) q')"

record QueryResults =
  qr_facts :: "(u64 \<times> u64 \<times> bytes \<times> bytes) list"
  qr_nested_facts :: "(u64 \<times> u64 \<times> bytes \<times> bytes) list"
  qr_stats :: "u64 \<rightharpoonup> u64"
  qr_continuation :: "QueryCont option"

definition Query_finish :: "'d QueryExecutor \<Rightarrow> QueryResults" where
  "Query_finish q =
     \<lparr>qr_facts = q_results q, qr_nested_facts = nested_facts (q_nested q),
      qr_stats = (if q_wantStats q then q_stats q else Map.empty), qr_continuation = q_queryCont q\<rparr>"

definition QueryExecutor_new :: "('d, 'e) QueryEnv \<Rightarrow> 'd \<Rightarrow> DefineOwnership option \<Rightarrow> Pid \<Rightarrow> Subroutine option \<Rightarrow> u64 option \<Rightarrow> Depth \<Rightarrow>
    Pid list \<Rightarrow> bool \<Rightarrow> int \<Rightarrow> 'd QueryExecutor" where
  "QueryExecutor_new env facts ownership pid traverse maxTime depth expandPids wantStats now =
     \<lparr>q_check_timeout = (case maxTime of Some _ \<Rightarrow> CHECK_TIMEOUT_INTERVAL | None \<Rightarrow> - 1),
      q_timeout = now + (case maxTime of Some t \<Rightarrow> uint t | None \<Rightarrow> 0), q_start_time = now, q_ticks = 0,
      q_facts = facts, q_ownership = ownership, q_pid = pid, q_traverse = traverse, q_depth = depth, q_expandPids = expandPids,
      q_results_added = [], q_results = [], q_nested = \<lparr>nested_added = [], nested_facts = [], nested_pending = []\<rparr>,
      q_queryCont = None, q_stats = Map.empty, q_wantStats = wantStats,
      q_outputs = replicate (unat (sub_outputs (qe_sub env))) [], q_iters = []\<rparr>"

definition Query_restore :: "('d, 'e) QueryEnv \<Rightarrow> QueryCont \<Rightarrow> 'd QueryExecutor \<Rightarrow> 'd QueryExecutor result" where
  "Query_restore env c q =
     rbind (rmap (restore_iter (qe_view env (q_facts q))) (qc_iters c)) (\<lambda>iters.
     rbind (guard (length (q_outputs q) \<le> length (qc_outputs c)) Undefined) (\<lambda>_.
     ok (q\<lparr>q_iters := iters, q_outputs := map (\<lambda>i. q_outputs q ! i @ qc_outputs c ! i) [0..<length (q_outputs q)]\<rparr>)))"

text \<open>The runs of the subroutine from its start and from an entry, given the limits and the locals.\<close>

definition executeQuery :: "(Subroutine \<Rightarrow> u64 \<Rightarrow> u64 \<Rightarrow> query_run) \<Rightarrow> (Subroutine \<Rightarrow> u64 list \<Rightarrow> u64 \<Rightarrow> u64 \<Rightarrow> u64 \<Rightarrow> query_run) \<Rightarrow>
    ('d, 'e) QueryEnv \<Rightarrow> 'd QueryExecutor \<Rightarrow> u64 option \<Rightarrow> u64 option \<Rightarrow> QueryCont option \<Rightarrow> QueryResults result" where
  "executeQuery execute restart env q maxResults maxBytes cont =
     (let max_results = (case maxResults of Some n \<Rightarrow> n | None \<Rightarrow> - 1); max_bytes = (case maxBytes of Some n \<Rightarrow> n | None \<Rightarrow> - 1) in
      case cont of
        None \<Rightarrow> rbind (run_query env (execute (qe_sub env) max_results max_bytes) q) (\<lambda>q. ok (Query_finish q))
      | Some c \<Rightarrow>
          rbind (Query_restore env c q) (\<lambda>q.
          rbind (run_query env (restart (qe_sub env) (map word_of_int (ss_locals (qc_sub c))) (word_of_int (ss_entry (qc_sub c)))
            max_results max_bytes) q) (\<lambda>q. ok (Query_finish q))))"

definition restartQuery :: "(Subroutine \<Rightarrow> u64 \<Rightarrow> u64 \<Rightarrow> query_run) \<Rightarrow> (Subroutine \<Rightarrow> u64 list \<Rightarrow> u64 \<Rightarrow> u64 \<Rightarrow> u64 \<Rightarrow> query_run) \<Rightarrow>
    ('d, 'e) QueryEnv \<Rightarrow> 'd \<Rightarrow> DefineOwnership option \<Rightarrow> u64 option \<Rightarrow> u64 option \<Rightarrow> u64 option \<Rightarrow> Depth \<Rightarrow> Pid list \<Rightarrow> bool \<Rightarrow> int \<Rightarrow>
    QueryCont \<Rightarrow> QueryResults result" where
  "restartQuery execute restart env facts ownership maxResults maxBytes maxTime depth expandPids wantStats now c =
     (let env = env\<lparr>qe_sub := restart_sub c\<rparr>;
          q = QueryExecutor_new env facts ownership (WordId_fromThrift (qc_pid c)) (map_option Subroutine_fromThrift (qc_traverse c))
            maxTime depth expandPids wantStats now in
      executeQuery execute restart env q maxResults maxBytes (Some c))"

end
