(* ===== verification/Derived_Ownership_Correct.thy ===== *)
theory Derived_Ownership_Correct
  imports Derived_Ownership
begin

text \<open>
  What is recorded for derived facts: the ids that sets get in a batch are replaced by ids of the
  database, under which the same conjunctions are found and stored, and the log returns what was added to it.
\<close>

section \<open>Entering a set into a table\<close>

abbreviation fresh_uset :: "SetU32 SetExpr \<Rightarrow> Uset" where
  "fresh_uset e \<equiv> \<lparr>us_exp = e, us_refs = 0, us_id = INVALID_USET, us_ptr = PNull\<rparr>"

lemma Uset_new_fresh: "Uset_new st op 0 = fresh_uset \<lparr>se_op = op, se_set = st\<rparr>"
  by (simp add: Uset_new_def)

lemma table_alloc:
  assumes "uset_table m s T"
  shows "um_fresh m \<notin> set (ut_usets s)"
    "uset_table \<lparr>um_heap = (um_heap m)(um_fresh m \<mapsto> u), um_fresh = Suc (um_fresh m)\<rparr> s T"
proof -
  note tab = uset_tableD [OF assms]
  show fresh: "um_fresh m \<notin> set (ut_usets s)" using tab(2) [of "um_fresh m"] by auto
  have "uset_cell \<lparr>um_heap = (um_heap m)(um_fresh m \<mapsto> u), um_fresh = Suc (um_fresh m)\<rparr> b = uset_cell m b"
    if "b \<in> set (ut_usets s)" for b using that fresh by (auto simp: uset_cell_def)
  then show "uset_table \<lparr>um_heap = (um_heap m)(um_fresh m \<mapsto> u), um_fresh = Suc (um_fresh m)\<rparr> s T"
    unfolding uset_table_def using tab fresh by (auto simp: less_Suc_eq intro!: map_cong)
qed

text \<open>A set that is not there is added and gets the next id.\<close>

lemma table_add_new:
  assumes "uset_table m s T" "canonical e" "e \<notin> fst ` set T" "ut_nextId s \<noteq> INVALID_USET"
  shows "\<exists>m' s' m'' s'' u. Usets_add_owned (fresh_uset e) m s = ok (um_fresh m, m', s') \<and>
    Usets_promote (um_fresh m) m' s' = ok (m'', s'') \<and> Mem_get (um_fresh m) m'' = ok u \<and> us_exp u = e \<and> us_id u = ut_nextId s \<and>
    uset_table m'' s'' (T @ [(e, ut_nextId s)]) \<and> ut_nextId s'' = ut_nextId s + 1 \<and> ut_firstId s'' = ut_firstId s \<and>
    ut_usets s'' = ut_usets s @ [um_fresh m] \<and> (\<forall>a\<in>set (ut_usets s). uset_cell m'' a = uset_cell m a)"
proof -
  note tab = uset_tableD [OF assms(1)]
  let ?a = "um_fresh m"
  let ?m = "\<lparr>um_heap = (um_heap m)(?a \<mapsto> fresh_uset e), um_fresh = Suc ?a\<rparr>"
  note al = table_alloc [OF assms(1)]
  have none: "Usets_find s ?m (fresh_uset e) = None" using table_find(2) [OF al(2)] assms(2,3) by simp
  let ?s = "s\<lparr>ut_usets := ut_usets s @ [?a], ut_stats := (ut_stats s)\<lparr>uss_adds := uss_adds (ut_stats s) + 1,
      uss_bytes := uss_bytes (ut_stats s) + SetU32_bytes (se_set e)\<rparr>\<rparr>"
  let ?u = "\<lparr>us_exp = e, us_refs = 1, us_id = ut_nextId s, us_ptr = PNull\<rparr>"
  let ?m' = "Mem_put ?a ?u ?m"
  let ?s' = "?s\<lparr>ut_nextId := ut_nextId s + 1, ut_stats := (ut_stats ?s)\<lparr>uss_promoted := uss_promoted (ut_stats s) + 1\<rparr>\<rparr>"
  have add: "Usets_add_owned (fresh_uset e) m s = ok (?a, ?m, ?s)"
    using none by (simp add: Usets_add_owned_def Mem_alloc_def Usets_add_def Mem_get_def)
  have prom: "Usets_promote ?a ?m ?s = ok (?m', ?s')" by (simp add: Usets_promote_def Mem_get_def Uset_promoted_def)
  have cells: "uset_cell ?m' b = uset_cell m b" if "b \<in> set (ut_usets s)" for b
    using that al(1) by (auto simp: uset_cell_def Mem_put_def)
  have "uset_table ?m' ?s' (T @ [(e, ut_nextId s)])"
    unfolding uset_table_def
  proof (intro conjI)
    show "\<forall>a\<in>set (ut_usets ?s'). a < um_fresh ?m' \<and> um_heap ?m' a \<noteq> None" using tab(2) al(1) by (auto simp: Mem_put_def less_Suc_eq)
    show "T @ [(e, ut_nextId s)] = map (uset_cell ?m') (ut_usets ?s')" using cells tab(3) by (simp add: Mem_put_def uset_cell_def)
    show "distinct (map fst (T @ [(e, ut_nextId s)]))" using tab(4) assms(3) by simp
    show "\<forall>x\<in>set (T @ [(e, ut_nextId s)]). canonical (fst x)" using tab(5) assms(2) by auto
  qed (use tab(1) al(1) in simp)
  moreover have "Mem_get ?a ?m' = ok ?u" by (simp add: Mem_get_def Mem_put_def)
  ultimately show ?thesis using add prom cells by (intro exI [of _ ?m] exI [of _ ?s] exI [of _ ?m'] exI [of _ ?s'] exI [of _ ?u]) simp
qed

text \<open>A set that is there is found under its id.\<close>

lemma table_add_old:
  assumes "uset_table m s T" "canonical e" "map_of T e = Some i"
  shows "\<exists>p m' s' u. Usets_add_owned (fresh_uset e) m s = ok (p, m', s') \<and> p \<noteq> um_fresh m \<and> Mem_get p m' = ok u \<and> us_id u = i \<and>
    uset_table m' s' T \<and> ut_nextId s' = ut_nextId s \<and> ut_firstId s' = ut_firstId s \<and>
    ut_usets s' = ut_usets s \<and> (\<forall>a\<in>set (ut_usets s). uset_cell m' a = uset_cell m a)"
proof -
  note tab = uset_tableD [OF assms(1)]
  let ?a = "um_fresh m"
  let ?m = "\<lparr>um_heap = (um_heap m)(?a \<mapsto> fresh_uset e), um_fresh = Suc ?a\<rparr>"
  note al = table_alloc [OF assms(1)]
  have "e \<in> fst ` set T" using assms(3) by (metis domI dom_map_of_conv_image_fst)
  then obtain p where p: "Usets_find s ?m (fresh_uset e) = Some p" using table_find(2) [OF al(2), of "fresh_uset e"] assms(2) by auto
  then have ps: "p \<in> set (ut_usets s)" "fst (uset_cell ?m p) = e" using table_find(1) [OF al(2)] assms(2) by auto
  then obtain v where v: "um_heap m p = Some v" using tab(2) by auto
  have pa: "p \<noteq> ?a" using ps(1) al(1) by auto
  let ?s = "s\<lparr>ut_stats := (ut_stats s)\<lparr>uss_dups := uss_dups (ut_stats s) + 1\<rparr>\<rparr>"
  let ?m' = "\<lparr>um_heap = ((um_heap m)(p \<mapsto> v))(?a := None), um_fresh = Suc ?a\<rparr>"
  have run: "Usets_add_owned (fresh_uset e) m s = ok (p, ?m', ?s)"
    using p v pa by (simp add: Usets_add_owned_def Mem_alloc_def Usets_add_def Mem_get_def Mem_modify_def Mem_put_def Mem_delete_def
        Uset_use_def fun_upd_twist)
  have cells: "uset_cell ?m' b = uset_cell m b" if "b \<in> set (ut_usets s)" for b
    using that al(1) v by (auto simp: uset_cell_def)
  have "uset_table ?m' ?s T"
    unfolding uset_table_def using tab cells al(1) v by (auto simp: less_Suc_eq intro!: map_cong)
  moreover have "(e, us_id v) \<in> set T" using tab(3) ps pa v by (force simp: uset_cell_def)
  then have "map_of T e = Some (us_id v)" using map_of_eq_Some_iff [OF tab(4)] by blast
  then have "us_id v = i" using assms(3) by simp
  ultimately show ?thesis using run pa v cells by (intro exI [of _ p] exI [of _ ?m'] exI [of _ ?s] exI [of _ v]) (simp add: Mem_get_def)
qed

section \<open>Collecting owners\<close>

definition conjunction :: "u32 set \<Rightarrow> SetU32 SetExpr" where
  "conjunction A = \<lparr>se_op = And, se_set = rep A\<rparr>"

lemma canonical_conjunction [simp]: "canonical (conjunction A)"
  by (auto simp: canonical_def conjunction_def)

lemma conjunction_inject [simp]: "conjunction A = conjunction B \<longleftrightarrow> A = B"
  using rep_inj [of A B] by (auto simp: conjunction_def SetU32_eq_def)

text \<open>An ownership interface over a table of sets with ids below \<open>n\<close>.\<close>

definition reads_table :: "(SetU32 SetExpr \<times> UsetId) list \<Rightarrow> UsetId \<Rightarrow> 'e Ownership \<Rightarrow> bool" where
  "reads_table T n ow \<longleftrightarrow> nextSetId ow = n \<and> (\<forall>x\<in>set T. snd x < n) \<and>
     (\<forall>e. canonical e \<longrightarrow> lookupSet ow e = (case map_of T e of Some i \<Rightarrow> i | None \<Rightarrow> INVALID_USET))"

definition batch_table :: "UsetId \<Rightarrow> u32 set list \<Rightarrow> (SetU32 SetExpr \<times> UsetId) list" where
  "batch_table n Ds = map (\<lambda>k. (conjunction (Ds ! k), n + of_nat k)) [0..<length Ds]"

definition owner_id :: "(SetU32 SetExpr \<times> UsetId) list \<Rightarrow> (SetU32 SetExpr \<times> UsetId) list \<Rightarrow> u32 set \<Rightarrow> UsetId \<Rightarrow> bool" where
  "owner_id T U deps u \<longleftrightarrow>
     (if card deps = 1 then deps = {u}
      else case map_of T (conjunction deps) of Some i \<Rightarrow> u = i | None \<Rightarrow> map_of U (conjunction deps) = Some u)"

text \<open>The batch after the facts \<open>recs\<close>, with what they depend on, have been recorded.\<close>

definition batch_inv :: "(SetU32 SetExpr \<times> UsetId) list \<Rightarrow> UsetId \<Rightarrow> (Id \<times> u32 set) list \<Rightarrow> u32 set list \<Rightarrow> DefineOwnership \<Rightarrow> bool" where
  "batch_inv T n recs Ds d \<longleftrightarrow>
     uset_table (do_mem d) (do_usets d) (batch_table n Ds) \<and> do_newSets d = ut_usets (do_usets d) \<and>
     ut_nextId (do_usets d) = n + of_nat (length Ds) \<and> length Ds \<le> length recs \<and> (\<forall>D\<in>set Ds. D \<noteq> {} \<and> (\<forall>x\<in>D. x < n)) \<and>
     do_ids d = map fst recs \<and> list_all2 (\<lambda>r u. owner_id T (batch_table n Ds) (snd r) u) recs (do_owners d)"

lemma batch_table_snoc: "batch_table n (Ds @ [D]) = batch_table n Ds @ [(conjunction D, n + of_nat (length Ds))]"
  by (auto simp: batch_table_def nth_append intro!: map_cong)

lemma owner_id_snoc: "owner_id T U deps u \<Longrightarrow> owner_id T (U @ V) deps u"
  by (auto simp: owner_id_def map_add_def split: option.splits if_splits)

lemma batch_new: "reads_table T n ow \<Longrightarrow> batch_inv T n [] [] (DefineOwnership_new ow pid)"
  by (simp add: batch_inv_def DefineOwnership_new_def reads_table_def batch_table_def uset_table_empty) (simp add: Usets_new_def)

lemma batch_record:
  assumes "uset_table (do_mem d) (do_usets d) (batch_table n Ds)" "do_newSets d = ut_usets (do_usets d)"
    "ut_nextId (do_usets d) = n + of_nat (length Ds)" "length Ds \<le> Suc (length recs)" "\<forall>D\<in>set Ds. D \<noteq> {} \<and> (\<forall>x\<in>D. x < n)"
    "do_ids d = map fst recs" "list_all2 (\<lambda>r u. owner_id T (batch_table n Ds) (snd r) u) recs (do_owners d)"
    "owner_id T (batch_table n Ds) deps u"
  shows "batch_inv T n (recs @ [(i, deps)]) Ds (d\<lparr>do_ids := do_ids d @ [i], do_owners := do_owners d @ [u]\<rparr>)"
  using assms by (simp add: batch_inv_def list_all2_appendI)

lemma derivedFrom_ok:
  assumes d: "batch_inv T n recs Ds d" and ow: "reads_table T n ow" and deps: "deps \<noteq> {}" "\<And>x. x \<in> deps \<Longrightarrow> x < n"
    and room: "unat n + length recs < 2 ^ 32 - 1"
  shows "\<exists>d' Ds'. derivedFrom ow i deps d = ok d' \<and> batch_inv T n (recs @ [(i, deps)]) Ds' d' \<and> do_pid d' = do_pid d"
proof -
  note inv = d [unfolded batch_inv_def]
  have tab0: "uset_table (do_mem d) (do_usets d) (batch_table n Ds)" using inv by blast
  have rep: "SetU32_from (sorted_list_of_set deps) = rep deps" by (simp add: rep_def)
  have run: "derivedFrom ow i deps d = rbind (if card deps = 1 then ok (hd (sorted_list_of_set deps), d)
      else DefineOwnership_conjunction ow (rep deps) d)
        (\<lambda>(usetid, d). ok (d\<lparr>do_ids := do_ids d @ [i], do_owners := do_owners d @ [usetid]\<rparr>))"
    using deps(1) by (simp add: derivedFrom_def rep rep_size Let_def)
  have exp: "us_exp (Uset_new (rep deps) And 0) = conjunction deps" by (simp add: Uset_new_def conjunction_def)
  have look: "lookupSet ow (conjunction deps) = (case map_of T (conjunction deps) of Some i \<Rightarrow> i | None \<Rightarrow> INVALID_USET)"
    using ow by (simp add: reads_table_def)
  have snoc: "list_all2 (\<lambda>r u. owner_id T (batch_table n Ds @ V) (snd r) u) recs (do_owners d)" for V
    using inv owner_id_snoc by (auto elim!: list_all2_mono)
  let ?fin = "\<lambda>d' usetid. d'\<lparr>do_ids := do_ids d' @ [i], do_owners := do_owners d' @ [usetid]\<rparr>"
  consider (one) "card deps = 1" | (known) k where "card deps \<noteq> 1" "map_of T (conjunction deps) = Some k"
    | (batch) k where "card deps \<noteq> 1" "map_of T (conjunction deps) = None" "map_of (batch_table n Ds) (conjunction deps) = Some k"
    | (new) "card deps \<noteq> 1" "map_of T (conjunction deps) = None" "map_of (batch_table n Ds) (conjunction deps) = None"
    by fastforce
  then show ?thesis
  proof cases
    case one
    then obtain x where x: "deps = {x}" by (auto simp: card_1_singleton_iff)
    then have "owner_id T (batch_table n Ds) deps x" by (simp add: owner_id_def)
    then have "batch_inv T n (recs @ [(i, deps)]) Ds (?fin d x)" using inv by (intro batch_record) simp_all
    then show ?thesis using run one x by auto
  next
    case known
    then have "k < n" using ow map_of_SomeD by (fastforce simp: reads_table_def)
    then have "k \<noteq> INVALID_USET" using unat_lt_32 [of n] by (auto simp: INVALID_USET_def word_less_nat_alt)
    then have "DefineOwnership_conjunction ow (rep deps) d = ok (k, d)"
      using known look by (simp add: DefineOwnership_conjunction_def exp)
    moreover have "owner_id T (batch_table n Ds) deps k" using known by (simp add: owner_id_def)
    then have "batch_inv T n (recs @ [(i, deps)]) Ds (?fin d k)" using inv by (intro batch_record) simp_all
    ultimately show ?thesis using run known(1) by auto
  next
    case batch
    from table_add_old [OF tab0 canonical_conjunction batch(3)] obtain p m' s' u where
      add: "Usets_add_owned (fresh_uset (conjunction deps)) (do_mem d) (do_usets d) = ok (p, m', s')" "p \<noteq> um_fresh (do_mem d)"
        "Mem_get p m' = ok u" "us_id u = k" and tab: "uset_table m' s' (batch_table n Ds)" "ut_nextId s' = ut_nextId (do_usets d)"
        "ut_usets s' = ut_usets (do_usets d)" by (elim exE conjE) (rule that; assumption)
    let ?d = "d\<lparr>do_mem := m', do_usets := s'\<rparr>"
    have "DefineOwnership_conjunction ow (rep deps) d = ok (k, ?d)"
      using batch look add by (simp add: DefineOwnership_conjunction_def Uset_new_fresh flip: conjunction_def)
    moreover have "owner_id T (batch_table n Ds) deps k" using batch by (simp add: owner_id_def)
    then have "batch_inv T n (recs @ [(i, deps)]) Ds (?fin ?d k)"
      using inv tab batch_record [of ?d n Ds recs T deps k i] by simp
    ultimately show ?thesis using run batch(1) by auto
  next
    case new
    have len: "unat (of_nat (length Ds) :: u32) = length Ds" using inv room by (simp add: unat_of_nat)
    have nx: "unat (n + of_nat (length Ds)) = unat n + length Ds" using inv room len by (simp add: unat_word_ariths)
    have nid: "ut_nextId (do_usets d) = n + of_nat (length Ds)" "length Ds \<le> length recs" using inv by blast+
    have "unat (ut_nextId (do_usets d)) \<noteq> unat INVALID_USET" unfolding nid(1) nx using nid(2) room by (simp add: INVALID_USET_def)
    then have ne: "ut_nextId (do_usets d) \<noteq> INVALID_USET" by metis
    have "conjunction deps \<notin> fst ` set (batch_table n Ds)" using new(3) by (simp add: map_of_eq_None_iff)
    from table_add_new [OF tab0 canonical_conjunction this ne] obtain m' s' m'' s'' u where
      add: "Usets_add_owned (fresh_uset (conjunction deps)) (do_mem d) (do_usets d) = ok (um_fresh (do_mem d), m', s')"
        "Usets_promote (um_fresh (do_mem d)) m' s' = ok (m'', s'')" "Mem_get (um_fresh (do_mem d)) m'' = ok u" "us_id u = ut_nextId (do_usets d)"
      and tab: "uset_table m'' s'' (batch_table n Ds @ [(conjunction deps, ut_nextId (do_usets d))])"
        "ut_nextId s'' = ut_nextId (do_usets d) + 1" "ut_usets s'' = ut_usets (do_usets d) @ [um_fresh (do_mem d)]"
      by (elim exE conjE) (rule that; assumption)
    let ?d = "d\<lparr>do_mem := m'', do_usets := s'', do_newSets := do_newSets d @ [um_fresh (do_mem d)]\<rparr>"
    have "DefineOwnership_conjunction ow (rep deps) d = ok (ut_nextId (do_usets d), ?d)"
      using new look add by (simp add: DefineOwnership_conjunction_def Uset_new_fresh flip: conjunction_def)
    moreover have "owner_id T (batch_table n (Ds @ [deps])) deps (ut_nextId (do_usets d))"
      using new inv by (simp add: owner_id_def batch_table_snoc map_add_def)
    then have "batch_inv T n (recs @ [(i, deps)]) (Ds @ [deps]) (?fin ?d (ut_nextId (do_usets d)))"
      using inv tab deps snoc batch_record [of ?d n "Ds @ [deps]" recs T deps "ut_nextId (do_usets d)" i]
      by (auto simp: batch_table_snoc add.assoc)
    ultimately show ?thesis using run new(1) by auto
  qed
qed

lemma derivedFrom_all:
  assumes "reads_table T n ow" "\<forall>r\<in>set recs. snd r \<noteq> {} \<and> (\<forall>x\<in>snd r. x < n)" "unat n + length recs < 2 ^ 32"
  shows "\<exists>d Ds. rfold (\<lambda>(i, deps). derivedFrom ow i deps) recs (DefineOwnership_new ow pid) = ok d \<and> batch_inv T n recs Ds d \<and>
    do_pid d = pid"
  using assms(2,3)
proof (induction recs rule: rev_induct)
  case Nil
  then show ?case using batch_new [OF assms(1)] by (auto simp: DefineOwnership_new_def)
next
  case (snoc r recs)
  then obtain d Ds where "rfold (\<lambda>(i, deps). derivedFrom ow i deps) recs (DefineOwnership_new ow pid) = ok d" "batch_inv T n recs Ds d"
      "do_pid d = pid" by auto
  moreover from derivedFrom_ok [OF this(2) assms(1), of "snd r" "fst r"] snoc.prems
  obtain d' Ds' where "derivedFrom ow (fst r) (snd r) d = ok d'" "batch_inv T n (recs @ [r]) Ds' d'" "do_pid d' = do_pid d" by auto
  ultimately show ?case by (auto simp: rfold_append split_def)
qed

section \<open>Moving a batch into the database\<close>

text \<open>Every set of a table is stored under its id.\<close>

definition stored_set :: "(OwnerSet \<Rightarrow> u32 list) \<Rightarrow> SetU32 SetExpr \<times> UsetId \<Rightarrow> UsetId \<times> OwnerSet SetExpr \<Rightarrow> bool" where
  "stored_set efc x y \<longleftrightarrow> fst y = snd x \<and> se_op (snd y) = se_op (fst x) \<and> efc (se_set (snd y)) = SetU32_foreach (se_set (fst x))"

text \<open>The loop over the new sets: \<open>V\<close> are those that were not in the database, \<open>X\<close> what is written of them.\<close>

definition rebase_inv :: "(OwnerSet \<Rightarrow> u32 list) \<Rightarrow> (SetU32 SetExpr \<times> UsetId) list \<Rightarrow> UsetId \<Rightarrow> UsetId \<Rightarrow> u32 set list \<Rightarrow>
    (SetU32 SetExpr \<times> UsetId) list \<Rightarrow> (UsetId \<times> OwnerSet SetExpr) list \<Rightarrow> RebaseSets \<Rightarrow> bool" where
  "rebase_inv efc T2 n2 n Ds V X r \<longleftrightarrow>
     uset_table (rb_mem r) (rb_usets r) (T2 @ V) \<and> ut_nextId (rb_usets r) = n2 + of_nat (length V) \<and> length V \<le> length Ds \<and>
     map snd V = map (\<lambda>k. n2 + of_nat k) [0..<length V] \<and> list_all2 (stored_set efc) V X \<and>
     rb_batch r = map (\<lambda>(i, x). putOwnerSet i x) X \<and>
     (\<forall>u. rb_subst r u = (if n \<le> u \<and> unat u < unat n + length Ds then map_of (T2 @ V) (conjunction (Ds ! (unat u - unat n))) else None)) \<and>
     (\<forall>D\<in>set Ds. map_of (T2 @ V) (conjunction D) \<noteq> None)"

context owner_db
begin

lemma rebase_set_ok:
  assumes tab: "uset_table (rb_mem r) (rb_usets r) T" and a: "Mem_get a dm = ok uset" "us_exp uset = conjunction D"
    and D: "D \<noteq> {}" "- 1 \<notin> D" "\<forall>x\<in>D. rb_subst r x = None" and room: "ut_nextId (rb_usets r) \<noteq> INVALID_USET"
  shows "\<exists>r' i V X. rebase_set F dm a r = ok r' \<and> rb_subst r' = (rb_subst r)(us_id uset \<mapsto> i) \<and>
    uset_table (rb_mem r') (rb_usets r') (T @ V) \<and> map_of (T @ V) (conjunction D) = Some i \<and>
    rb_batch r' = rb_batch r @ map (\<lambda>(i, x). putOwnerSet i x) X \<and> list_all2 (stored_set efc) V X \<and>
    (V = [] \<and> ut_nextId (rb_usets r') = ut_nextId (rb_usets r) \<or>
     V = [(conjunction D, ut_nextId (rb_usets r))] \<and> ut_nextId (rb_usets r') = ut_nextId (rb_usets r) + 1)"
proof -
  have s: "set_subst (rb_subst r) ` set (SetU32_foreach (se_set (us_exp uset))) = D"
  proof -
    have "set_subst (rb_subst r) x = x" if "x \<in> D" for x using D(3) that by (simp add: set_subst_def)
    then show ?thesis by (simp add: a(2) conjunction_def image_cong)
  qed
  have new: "Uset_new (SetU32_from (sorted_list_of_set D)) (se_op (us_exp uset)) 0 = fresh_uset (conjunction D)"
    by (simp add: Uset_new_def a(2) conjunction_def rep_def)
  show ?thesis
  proof (cases "map_of T (conjunction D)")
    case (Some i)
    from table_add_old [OF tab canonical_conjunction Some] obtain p m' s' u where
      "Usets_add_owned (fresh_uset (conjunction D)) (rb_mem r) (rb_usets r) = ok (p, m', s')" "p \<noteq> um_fresh (rb_mem r)"
        "Mem_get p m' = ok u" "us_id u = i" "uset_table m' s' T" "ut_nextId s' = ut_nextId (rb_usets r)"
      by (elim exE conjE) (rule that; assumption)
    then show ?thesis using Some
      by (intro exI [of _ "\<lparr>rb_mem = m', rb_usets = s', rb_subst = (rb_subst r)(us_id uset \<mapsto> i), rb_batch = rb_batch r\<rparr>"]
          exI [of _ i] exI [of _ "[]"]) (simp add: rebase_set_def a(1) s new)
  next
    case None
    then have nt: "conjunction D \<notin> fst ` set T" by (simp add: map_of_eq_None_iff)
    let ?i = "ut_nextId (rb_usets r)"
    from table_add_new [OF tab canonical_conjunction nt room] obtain m' s' m'' s'' u where
      add: "Usets_add_owned (fresh_uset (conjunction D)) (rb_mem r) (rb_usets r) = ok (um_fresh (rb_mem r), m', s')"
        "Usets_promote (um_fresh (rb_mem r)) m' s' = ok (m'', s'')" "Mem_get (um_fresh (rb_mem r)) m'' = ok u" "us_exp u = conjunction D"
        "us_id u = ?i" and tab': "uset_table m'' s'' (T @ [(conjunction D, ?i)])" "ut_nextId s'' = ?i + 1"
      by (elim exE conjE) (rule that; assumption)
    obtain e where e: "Uset_toEliasFano F u = ok \<lparr>se_op = And, se_set = e\<rparr>" "efc e = sorted_list_of_set D"
      using Uset_toEliasFano_ok [OF _ D(1,2), of u And] add(4) by (auto simp: conjunction_def)
    have "stored_set efc (conjunction D, ?i) (?i, \<lparr>se_op = And, se_set = e\<rparr>)"
      by (simp add: stored_set_def conjunction_def e(2) rep_foreach)
    then show ?thesis using add e tab' None
      by (intro exI [of _ "\<lparr>rb_mem = m'', rb_usets = s'', rb_subst = (rb_subst r)(us_id uset \<mapsto> ?i),
              rb_batch = rb_batch r @ [putOwnerSet ?i \<lparr>se_op = And, se_set = e\<rparr>]\<rparr>"]
          exI [of _ ?i] exI [of _ "[(conjunction D, ?i)]"] exI [of _ "[(?i, \<lparr>se_op = And, se_set = e\<rparr>)]"])
        (simp add: rebase_set_def a(1) s new map_add_def)
  qed
qed

lemma rebase_step:
  assumes r: "rebase_inv efc T2 n2 n Ds V X r" and a: "Mem_get a dm = ok uset" "us_exp uset = conjunction D" "us_id uset = n + of_nat (length Ds)"
    and D: "D \<noteq> {}" "\<And>x. x \<in> D \<Longrightarrow> x < n" and room: "unat n2 + length Ds < 2 ^ 32 - 1" "unat n + length Ds < 2 ^ 32"
  shows "\<exists>r' V' X'. rebase_set F dm a r = ok r' \<and> rebase_inv efc T2 n2 n (Ds @ [D]) V' X' r'"
proof -
  note inv = r [unfolded rebase_inv_def]
  have tab: "uset_table (rb_mem r) (rb_usets r) (T2 @ V)" and nid: "ut_nextId (rb_usets r) = n2 + of_nat (length V)" "length V \<le> length Ds"
    and X: "list_all2 (stored_set efc) V X" and ids: "map snd V = map (\<lambda>k. n2 + of_nat k) [0..<length V]"
    and batch: "rb_batch r = map (\<lambda>(i, x). putOwnerSet i x) X"
    and sub: "\<And>u. rb_subst r u = (if n \<le> u \<and> unat u < unat n + length Ds then map_of (T2 @ V) (conjunction (Ds ! (unat u - unat n))) else None)"
    and found: "\<And>D. D \<in> set Ds \<Longrightarrow> map_of (T2 @ V) (conjunction D) \<noteq> None"
    using inv by blast+
  have "unat (of_nat (length V) :: u32) = length V" using nid(2) room by (simp add: unat_of_nat)
  then have "unat (n2 + of_nat (length V)) = unat n2 + length V" using nid(2) room by (simp add: unat_word_ariths)
  then have "unat (ut_nextId (rb_usets r)) \<noteq> unat INVALID_USET" unfolding nid(1) using nid(2) room by (simp add: INVALID_USET_def)
  then have ne: "ut_nextId (rb_usets r) \<noteq> INVALID_USET" by metis
  have m1: "- 1 \<notin> D" using D(2) [of "- 1"] by auto
  have free: "\<forall>x\<in>D. rb_subst r x = None" using D(2) sub by (auto simp: not_le [symmetric])
  from rebase_set_ok [OF tab a(1,2) D(1) m1 free ne] obtain r' i V1 X1 where
    run: "rebase_set F dm a r = ok r'" and r': "rb_subst r' = (rb_subst r)(us_id uset \<mapsto> i)"
      "uset_table (rb_mem r') (rb_usets r') ((T2 @ V) @ V1)" "map_of ((T2 @ V) @ V1) (conjunction D) = Some i"
      "rb_batch r' = rb_batch r @ map (\<lambda>(i, x). putOwnerSet i x) X1" "list_all2 (stored_set efc) V1 X1"
    and V1: "V1 = [] \<and> ut_nextId (rb_usets r') = ut_nextId (rb_usets r) \<or>
      V1 = [(conjunction D, ut_nextId (rb_usets r))] \<and> ut_nextId (rb_usets r') = ut_nextId (rb_usets r) + 1"
    by (elim exE conjE) (rule that; assumption)
  have nth: "unat (n + of_nat (length Ds)) = unat n + length Ds" using room(2) by (simp add: unat_word_ariths unat_of_nat)
  have old: "map_of ((T2 @ V) @ V1) (conjunction E) = map_of (T2 @ V) (conjunction E)" if "E \<in> set Ds" for E
    using found [OF that] by (subst map_of_append) (auto simp: map_add_def)
  have "rebase_inv efc T2 n2 n (Ds @ [D]) (V @ V1) (X @ X1) r'"
    unfolding rebase_inv_def
  proof (intro conjI allI ballI)
    show "uset_table (rb_mem r') (rb_usets r') (T2 @ V @ V1)" using r'(2) by simp
    show "ut_nextId (rb_usets r') = n2 + of_nat (length (V @ V1))" "length (V @ V1) \<le> length (Ds @ [D])"
      using V1 nid by auto
    show "map snd (V @ V1) = map (\<lambda>k. n2 + of_nat k) [0..<length (V @ V1)]" using V1 nid ids by auto
    show "list_all2 (stored_set efc) (V @ V1) (X @ X1)" by (rule list_all2_appendI [OF X r'(5)])
    show "rb_batch r' = map (\<lambda>(i, x). putOwnerSet i x) (X @ X1)" by (simp add: r'(4) batch)
    show "map_of (T2 @ V @ V1) (conjunction E) \<noteq> None" if "E \<in> set (Ds @ [D])" for E
    proof (cases "E \<in> set Ds")
      case True
      then show ?thesis using found [OF True] old [OF True] by simp
    next
      case False
      then show ?thesis using that r'(3) by simp
    qed
    fix u
    show "rb_subst r' u = (if n \<le> u \<and> unat u < unat n + length (Ds @ [D])
        then map_of (T2 @ V @ V1) (conjunction ((Ds @ [D]) ! (unat u - unat n))) else None)"
    proof (cases "u = n + of_nat (length Ds)")
      case True
      then show ?thesis using r'(1,3) a(3) nth by (simp add: word_le_nat_alt)
    next
      case False
      then have "unat u \<noteq> unat n + length Ds" using nth by (metis word_unat_eq_iff)
      moreover have "n \<le> u \<longleftrightarrow> unat n \<le> unat u" by (simp add: word_le_nat_alt)
      ultimately show ?thesis using False a(3) r'(1) sub [of u] old by (auto simp: nth_append less_Suc_eq)
    qed
  qed
  then show ?thesis using run by blast
qed

lemma rebase_loop:
  assumes "length as = length Ds" "\<And>k. k < length Ds \<Longrightarrow>
      \<exists>u. Mem_get (as ! k) dm = ok u \<and> us_exp u = conjunction (Ds ! k) \<and> us_id u = n + of_nat k"
    "\<forall>D\<in>set Ds. D \<noteq> {} \<and> (\<forall>x\<in>D. x < n)" "uset_table m2 us2 T2" "ut_nextId us2 = n2"
    "unat n2 + length Ds < 2 ^ 32" "unat n + length Ds < 2 ^ 32"
  shows "\<exists>r V X. rfold (rebase_set F dm) as \<lparr>rb_mem = m2, rb_usets = us2, rb_subst = Map.empty, rb_batch = []\<rparr> = ok r \<and>
    rebase_inv efc T2 n2 n Ds V X r"
proof -
  have "\<exists>r V X. rfold (rebase_set F dm) (take k as) \<lparr>rb_mem = m2, rb_usets = us2, rb_subst = Map.empty, rb_batch = []\<rparr> = ok r \<and>
    rebase_inv efc T2 n2 n (take k Ds) V X r" if "k \<le> length Ds" for k
    using that
  proof (induction k)
    case 0
    have "rebase_inv efc T2 n2 n [] [] [] \<lparr>rb_mem = m2, rb_usets = us2, rb_subst = Map.empty, rb_batch = []\<rparr>"
      using assms(4,5) by (auto simp: rebase_inv_def word_le_nat_alt)
    then show ?case by auto
  next
    case (Suc k)
    then obtain r V X where r: "rfold (rebase_set F dm) (take k as) \<lparr>rb_mem = m2, rb_usets = us2, rb_subst = Map.empty, rb_batch = []\<rparr> = ok r"
        "rebase_inv efc T2 n2 n (take k Ds) V X r" by auto
    have k: "k < length Ds" "length (take k Ds) = k" using Suc.prems by auto
    obtain u where u: "Mem_get (as ! k) dm = ok u" "us_exp u = conjunction (Ds ! k)" "us_id u = n + of_nat (length (take k Ds))"
      using assms(2) [OF k(1)] k(2) by auto
    have D: "Ds ! k \<noteq> {}" "\<And>x. x \<in> Ds ! k \<Longrightarrow> x < n" using assms(3) k(1) nth_mem by blast+
    from rebase_step [OF r(2) u D] assms(6,7) k obtain r' V' X' where "rebase_set F dm (as ! k) r = ok r'"
        "rebase_inv efc T2 n2 n (take k Ds @ [Ds ! k]) V' X' r'" by auto
    then show ?case using r(1) k(1) assms(1) by (auto simp: take_Suc_conv_app_nth rfold_append)
  qed
  from this [of "length Ds"] show ?thesis using assms(1) by simp
qed

end

section \<open>The log of derived facts\<close>

text \<open>The log has the batches \<open>L pid\<close>, numbered from 0, for every predicate.\<close>

definition derived_log :: "(u64 \<rightharpoonup> u64) \<Rightarrow> (bytes \<rightharpoonup> bytes) \<Rightarrow> (Pid \<Rightarrow> DerivedFactOwnership list) \<Rightarrow> bool" where
  "derived_log counters m L \<longleftrightarrow>
     (\<forall>k v. m k = Some v \<longleftrightarrow> (\<exists>p j. j < length (L p) \<and> k = storeNat p @ storeNat (of_nat j) \<and> v = derived_value (L p ! j))) \<and>
     (\<forall>p. length (L p) < 2 ^ 64 \<and> (case counters p of None \<Rightarrow> L p = [] | Some c \<Rightarrow> c = of_nat (length (L p))) \<and>
       (\<forall>b\<in>set (L p). length (fst b) = length (snd b)))"

lemma log_key_inject: "storeNat p @ storeNat j = storeNat q @ storeNat k \<longleftrightarrow> p = q \<and> j = k"
proof
  assume eq: "storeNat p @ storeNat j = storeNat q @ storeNat k"
  then have "ok (p, storeNat j) = (ok (q, storeNat k) :: (u64 \<times> bytes) result)" by (metis trusted_store(1))
  then have pq: "p = q" "storeNat j = storeNat k" by auto
  then have "ok (j, []) = (ok (k, []) :: (u64 \<times> bytes) result)" by (metis trusted_store(2))
  then show "p = q \<and> j = k" using pq by simp
qed simp

lemma log_key_le: "storeNat p \<le> storeNat q @ storeNat j \<longleftrightarrow> p \<le> q"
proof (cases p q rule: linorder_cases)
  case less
  then show ?thesis using storeNat_append_less [OF less, of "[]" "storeNat j"] by (simp add: less_imp_le)
next
  case equal
  then show ?thesis using append_less_append [of "storeNat p" "storeNat j" "[]"] by (simp add: not_less [symmetric])
next
  case greater
  then show ?thesis using storeNat_append_less [OF greater, of "storeNat j" "[]"] by (simp add: not_less [symmetric])
qed

lemma words_of_append: "words_of (length xs) (concat (map storeLE xs) @ r) = xs"
  by (induction xs) simp_all

lemma words32_append: "words32 (length xs) (concat (map storeLE xs)) = xs"
  by (induction xs) simp_all

lemma derived_value_read:
  assumes "length ids = length us"
  shows "(let elts = length (derived_value (ids, us)) div 12 in
    (words_of elts (derived_value (ids, us)), words32 elts (drop (elts * 8) (derived_value (ids, us))))) = (ids, us)"
proof -
  have l8: "length (concat (map storeLE xs)) = length xs * 8" for xs :: "u64 list" by (induction xs) simp_all
  have l4: "length (concat (map storeLE xs)) = length xs * 4" for xs :: "u32 list" by (induction xs) simp_all
  have n: "length (derived_value (ids, us)) div 12 = length ids" using assms by (simp add: derived_value_def l8 l4)
  have "words32 (length ids) (concat (map storeLE us)) = us" unfolding assms by (rule words32_append)
  then show ?thesis unfolding n Let_def by (simp add: derived_value_def words_of_append l8)
qed

lemma derived_log_add:
  assumes "derived_log counters m L" "length (L p) + 1 < 2 ^ 64" "length (fst b) = length (snd b)"
    "c = (case counters p of None \<Rightarrow> 0 | Some c \<Rightarrow> c)"
  shows "derived_log (counters(p \<mapsto> c + 1)) (m(storeNat p @ storeNat c \<mapsto> derived_value b)) (L(p := L p @ [b]))"
proof -
  have "case counters p of None \<Rightarrow> L p = [] | Some c \<Rightarrow> c = of_nat (length (L p))" using assms(1) unfolding derived_log_def by blast
  then have c: "c = of_nat (length (L p))" using assms(4) by (cases "counters p") auto
  have new: "(\<exists>q j. j < length ((L(p := L p @ [b])) q) \<and> k = storeNat q @ storeNat (of_nat j) \<and> v = derived_value ((L(p := L p @ [b])) q ! j)) \<longleftrightarrow>
      (k = storeNat p @ storeNat c \<and> v = derived_value b) \<or>
      (\<exists>q j. j < length (L q) \<and> k = storeNat q @ storeNat (of_nat j) \<and> v = derived_value (L q ! j))" for k v
    unfolding c by (force simp: less_Suc_eq nth_append)
  have free: "storeNat p @ storeNat c \<noteq> storeNat q @ storeNat (of_nat j)" if j: "j < length (L q)" for q j
  proof
    assume "storeNat p @ storeNat c = storeNat q @ storeNat (of_nat j)"
    then have pq: "p = q" "of_nat (length (L p)) = (of_nat j :: u64)" by (auto simp: log_key_inject c)
    have "length (L p) < 2 ^ 64" "j < 2 ^ 64" using j assms(2) pq(1) by simp_all
    then show False using pq j by (metis unat_of_nat_64 less_irrefl)
  qed
  show ?thesis
    unfolding derived_log_def new
  proof (intro conjI allI)
    show "(m(storeNat p @ storeNat c \<mapsto> derived_value b)) k = Some v \<longleftrightarrow>
      (k = storeNat p @ storeNat c \<and> v = derived_value b) \<or>
      (\<exists>q j. j < length (L q) \<and> k = storeNat q @ storeNat (of_nat j) \<and> v = derived_value (L q ! j))" for k v
      using assms(1) free by (cases "k = storeNat p @ storeNat c") (auto simp: derived_log_def)
    fix q
    have q: "length (L q) < 2 ^ 64" "case counters q of None \<Rightarrow> L q = [] | Some c \<Rightarrow> c = of_nat (length (L q))"
      "\<forall>b\<in>set (L q). length (fst b) = length (snd b)" using assms(1) unfolding derived_log_def by blast+
    show "length ((L(p := L p @ [b])) q) < 2 ^ 64" "\<forall>b\<in>set ((L(p := L p @ [b])) q). length (fst b) = length (snd b)"
      using q assms(2,3) by auto
    show "case (counters(p \<mapsto> c + 1)) q of None \<Rightarrow> (L(p := L p @ [b])) q = [] | Some c \<Rightarrow> c = of_nat (length ((L(p := L p @ [b])) q))"
    proof (cases "q = p")
      case True
      then show ?thesis by (simp add: c)
    next
      case False
      then have "(counters(p \<mapsto> c + 1)) q = counters q" "(L(p := L p @ [b])) q = L q" by auto
      then show ?thesis using q(2) by (simp only:)
    qed
  qed
qed

lemma filter_two:
  assumes "sorted_wrt (<) (map fst xs)" "\<And>x y. x \<in> set xs \<Longrightarrow> y \<in> set xs \<Longrightarrow> P x \<Longrightarrow> Q y \<Longrightarrow> fst x < (fst y :: bytes)"
  shows "filter (\<lambda>x. P x \<or> Q x) xs = filter P xs @ filter Q xs"
  using assms
proof (induction xs)
  case (Cons x xs)
  have IH: "filter (\<lambda>x. P x \<or> Q x) xs = filter P xs @ filter Q xs" by (rule Cons.IH) (use Cons.prems in auto)
  show ?case
  proof (cases "Q x")
    case True
    then have "\<not> P y" if "y \<in> set (x # xs)" for y
      using that Cons.prems(1) Cons.prems(2) [of y x] by (auto dest: order.strict_trans)
    then have "\<not> P x" "filter P xs = []" by (auto simp: filter_empty_conv)
    then show ?thesis using IH True by simp
  next
    case False
    then show ?thesis using IH by simp
  qed
qed simp

lemma derived_iterator_append:
  assumes "\<forall>b\<in>set bs. length (fst b) = length (snd b)" "\<forall>x\<in>set rest. \<exists>q j. q \<noteq> p \<and> fst x = storeNat q @ storeNat j"
  shows "derived_iterator p (map (\<lambda>j. (storeNat p @ storeNat (of_nat j), derived_value (bs ! j))) [n..<length bs] @ rest) = ok (drop n bs)"
proof (induction "length bs - n" arbitrary: n)
  case 0
  then show ?case using assms(2) by (cases rest) (auto simp: DerivedFactIterator_get_def)
next
  case (Suc k)
  then have n: "n < length bs" by simp
  obtain ids us where b: "bs ! n = (ids, us)" by fastforce
  have "length ids = length us" using assms(1) n b nth_mem [OF n] by auto
  from derived_value_read [OF this] have "DerivedFactIterator_get p (storeNat p @ storeNat (of_nat n), derived_value (bs ! n)) = ok (Some (bs ! n))"
    by (simp add: DerivedFactIterator_get_def b Let_def)
  moreover have "derived_iterator p (map (\<lambda>j. (storeNat p @ storeNat (of_nat j), derived_value (bs ! j))) [Suc n..<length bs] @ rest) = ok (drop (Suc n) bs)"
    using Suc by simp
  ultimately show ?case using n by (simp add: upt_conv_Cons Cons_nth_drop_Suc)
qed

context rocks_store
begin

lemma derived_log_read:
  assumes "derived_log counters (content (db_store db) F_ownershipDerivedRaw) L"
  shows "getDerivedFactOwnershipIterator K p db = ok (L p)"
proof -
  let ?xs = "rk_first K (db_store db) F_ownershipDerivedRaw"
  let ?A = "map (\<lambda>j. (storeNat p @ storeNat (of_nat j), derived_value (L p ! j))) [0..<length (L p)]"
  let ?P = "\<lambda>x. \<exists>j. fst x = storeNat p @ storeNat j" and ?Q = "\<lambda>x. \<exists>q j. p < q \<and> fst x = storeNat q @ storeNat j"
  have d: "distinct (map fst ?xs)" "sorted_wrt (<) (map fst ?xs)" using first_sorted by (auto simp: strict_sorted_iff)
  have mem: "(k, v) \<in> set ?xs \<longleftrightarrow> (\<exists>q j. j < length (L q) \<and> k = storeNat q @ storeNat (of_nat j) \<and> v = derived_value (L q ! j))" for k v
    using assms map_of_eq_Some_iff [OF d(1), of k v] first_content [of "db_store db" F_ownershipDerivedRaw] by (simp add: derived_log_def)
  have len: "length (L p) < 2 ^ 64" "\<forall>b\<in>set (L p). length (fst b) = length (snd b)" using assms by (auto simp: derived_log_def)
  have sel: "(storeNat p \<le> fst x) = (?P x \<or> ?Q x)" if xs: "x \<in> set ?xs" for x
  proof -
    obtain q j where x: "fst x = storeNat q @ storeNat j" using mem [of "fst x" "snd x"] xs by auto
    have "?P x \<longleftrightarrow> p = q" "?Q x \<longleftrightarrow> p < q" unfolding x by (auto simp: log_key_inject)
    then show ?thesis unfolding x log_key_le by (auto simp: order_le_less)
  qed
  have "rk_seek K (db_store db) F_ownershipDerivedRaw None (storeNat p) = filter (\<lambda>x. ?P x \<or> ?Q x) ?xs"
    unfolding seek by (rule filter_cong [OF refl]) (simp add: split_def sel)
  also have "\<dots> = filter ?P ?xs @ filter ?Q ?xs"
    by (rule filter_two [OF d(2)]) (auto simp: storeNat_append_less)
  also have "filter ?P ?xs = ?A"
  proof (rule map_sorted_distinct_set_unique [of fst])
    have eq: "set (filter ?P ?xs) = set ?A"
      using mem by (force simp: log_key_inject)
    then show "set (filter ?P ?xs) = set ?A" .
    have "sorted_wrt (<) (map fst (filter ?P ?xs))" using d(2) by (simp add: sorted_wrt_map sorted_wrt_filter)
    then show "sorted (map fst (filter ?P ?xs))" "distinct (map fst (filter ?P ?xs))" by (simp_all add: strict_sorted_iff)
    have "sorted_wrt (<) (map fst ?A)"
      using len(1) by (auto simp: sorted_wrt_map append_less_append storeNat_less_iff of_nat_less64 sorted_wrt_iff_nth_less)
    then show "sorted (map fst ?A)" "distinct (map fst ?A)" by (simp_all add: strict_sorted_iff)
    then show "inj_on fst (set (filter ?P ?xs) \<union> set ?A)" unfolding eq by (simp only: distinct_map Un_absorb)
  qed
  finally have "rk_seek K (db_store db) F_ownershipDerivedRaw None (storeNat p) = ?A @ filter ?Q ?xs" .
  moreover have "\<forall>x\<in>set (filter ?Q ?xs). \<exists>q j. q \<noteq> p \<and> fst x = storeNat q @ storeNat j" by auto
  ultimately show ?thesis using derived_iterator_append [OF len(2), of "filter ?Q ?xs" p 0] by (simp add: getDerivedFactOwnershipIterator_def)
qed

end

section \<open>Adding a batch\<close>

text \<open>
  A database whose sets in memory are \<open>T\<close>, all of them stored, with the stored sets \<open>xs\<close> and the log \<open>L\<close> of
  derived facts.
\<close>

definition sets_db :: "('s \<Rightarrow> Family \<Rightarrow> bytes \<rightharpoonup> bytes) \<Rightarrow> (OwnerSet \<Rightarrow> u32 list) \<Rightarrow> 's Database \<Rightarrow> (SetU32 SetExpr \<times> UsetId) list \<Rightarrow>
    (UsetId \<times> OwnerSet SetExpr) list \<Rightarrow> (Pid \<Rightarrow> DerivedFactOwnership list) \<Rightarrow> bool" where
  "sets_db content efc db T xs L \<longleftrightarrow> db_open db \<and> uset_table (db_mem db) (db_usets db) T \<and>
     (\<forall>t\<in>set T. snd t < ut_nextId (db_usets db)) \<and>
     content (db_store db) F_ownershipSets = map_of (map set_entry xs) \<and> sorted_wrt (<) (map fst xs) \<and>
     (\<forall>x\<in>set xs. fst x < ut_nextId (db_usets db)) \<and> (\<forall>t\<in>set T. \<exists>x\<in>set xs. stored_set efc t x) \<and>
     derived_log (db_derived_counters db) (content (db_store db) F_ownershipDerivedRaw) L"

text \<open>The owner of a fact in terms of the database.\<close>

definition conj_owner :: "(SetU32 SetExpr \<times> UsetId) list \<Rightarrow> u32 set \<Rightarrow> UsetId \<Rightarrow> bool" where
  "conj_owner T deps u \<longleftrightarrow> (if card deps = 1 then deps = {u} else map_of T (conjunction deps) = Some u)"

text \<open>The owner \<open>u\<close> is the conjunction of \<open>deps\<close>: it is found and stored under this id.\<close>

definition stored_conjunction :: "'s Rocks \<Rightarrow> (OwnerSet \<Rightarrow> u32 list) \<Rightarrow> 's Database \<Rightarrow> u32 set \<Rightarrow> UsetId \<Rightarrow> bool" where
  "stored_conjunction K efc db deps u \<longleftrightarrow>
     StoredOwnership_lookupSet db \<lparr>se_op = And, se_set = SetU32_from (sorted_list_of_set deps)\<rparr> = ok u \<and> u \<noteq> INVALID_USET \<and>
     (\<exists>sz es e. Database_getSetIterator K (db_store db) = ok (sz, es) \<and> (u, \<lparr>se_op = And, se_set = e\<rparr>) \<in> set es \<and>
       efc e = sorted_list_of_set deps)"

lemma owner_id_cases:
  assumes "owner_id T U deps u"
  obtains (one) "card deps = 1" "deps = {u}" | (known) "card deps \<noteq> 1" "map_of T (conjunction deps) = Some u"
    | (batch) "card deps \<noteq> 1" "map_of T (conjunction deps) = None" "map_of U (conjunction deps) = Some u"
proof (cases "card deps = 1")
  case True
  then show ?thesis using one assms unfolding owner_id_def by presburger
next
  case False
  then show ?thesis using assms known batch unfolding owner_id_def by (cases "map_of T (conjunction deps)") simp_all
qed

lemma owner_rebased:
  assumes inv: "rebase_inv efc T2 n2 n Ds V X r" and T: "map_of T \<subseteq>\<^sub>m map_of T2" "\<forall>t\<in>set T. snd t < n"
    and deps: "\<And>x. x \<in> deps \<Longrightarrow> x < n" and u: "owner_id T (batch_table n Ds) deps u" and room: "unat n + length Ds < 2 ^ 32"
  shows "conj_owner (T2 @ V) deps (set_subst (rb_subst r) u)"
proof -
  have sub: "rb_subst r v = (if n \<le> v \<and> unat v < unat n + length Ds then map_of (T2 @ V) (conjunction (Ds ! (unat v - unat n))) else None)" for v
    using inv by (auto simp: rebase_inv_def)
  have low: "set_subst (rb_subst r) v = v" if "v < n" for v using that sub [of v] by (auto simp: set_subst_def not_le [symmetric])
  from u show ?thesis
  proof (cases rule: owner_id_cases)
    case one
    then show ?thesis using low [of u] deps [of u] by (simp add: conj_owner_def)
  next
    case known
    have "u < n" using T(2) map_of_SomeD [OF known(2)] by auto
    moreover have "map_of T2 (conjunction deps) = Some u" using T(1) known(2) unfolding map_le_def by (metis domI)
    ultimately show ?thesis using known(1) low by (simp add: conj_owner_def map_add_def)
  next
    case batch
    obtain k where k: "k < length Ds" "Ds ! k = deps" "u = n + of_nat k" using map_of_SomeD [OF batch(3)] by (auto simp: batch_table_def)
    have "unat u = unat n + k" using k room by (simp add: unat_word_ariths unat_of_nat)
    then have "rb_subst r u = map_of (T2 @ V) (conjunction deps)" using sub [of u] k by (simp add: word_le_nat_alt)
    moreover have "map_of (T2 @ V) (conjunction deps) \<noteq> None" using inv k nth_mem [OF k(1)] unfolding rebase_inv_def by metis
    ultimately show ?thesis using batch(1) by (auto simp: conj_owner_def set_subst_def split: option.split)
  qed
qed

lemma batch_length:
  assumes "batch_inv T n recs Ds d"
  shows "length (do_newSets d) = length Ds"
proof -
  have tab: "uset_table (do_mem d) (do_usets d) (batch_table n Ds)" "do_newSets d = ut_usets (do_usets d)" using assms by (auto simp: batch_inv_def)
  have "length (batch_table n Ds) = length (do_newSets d)" unfolding tab(2) uset_tableD(3) [OF tab(1)] by simp
  then show ?thesis by (simp add: batch_table_def)
qed

lemma batch_newSets:
  assumes "batch_inv T n recs Ds d" "k < length Ds"
  shows "\<exists>u. Mem_get (do_newSets d ! k) (do_mem d) = ok u \<and> us_exp u = conjunction (Ds ! k) \<and> us_id u = n + of_nat k"
proof -
  have tab: "uset_table (do_mem d) (do_usets d) (batch_table n Ds)" "do_newSets d = ut_usets (do_usets d)" using assms(1) by (auto simp: batch_inv_def)
  note t = uset_tableD [OF tab(1)]
  note l = batch_length [OF assms(1)]
  have "batch_table n Ds ! k = uset_cell (do_mem d) (do_newSets d ! k)" using t(3) tab(2) assms(2) l by simp
  moreover have "batch_table n Ds ! k = (conjunction (Ds ! k), n + of_nat k)" using assms(2) by (simp add: batch_table_def)
  moreover obtain u where "um_heap (do_mem d) (do_newSets d ! k) = Some u"
    using t(2) [of "do_newSets d ! k"] tab(2) l assms(2) nth_mem by fastforce
  ultimately show "\<exists>u. Mem_get (do_newSets d ! k) (do_mem d) = ok u \<and> us_exp u = conjunction (Ds ! k) \<and> us_id u = n + of_nat k"
    by (simp add: uset_cell_def Mem_get_def)
qed

lemma rebased_puts:
  assumes X: "list_all2 (stored_set efc) V X" and ids: "map snd V = map (\<lambda>k. n2 + of_nat k) [0..<length V]" "unat n2 + length V < 2 ^ 32"
    and xs: "sorted_wrt (<) (map fst xs)" "\<forall>x\<in>set xs. fst x < n2"
  shows "sorted_wrt (<) (map fst (xs @ X))" "\<forall>x\<in>set (xs @ X). fst x < n2 + of_nat (length V)" "\<forall>v\<in>set V. snd v < n2 + of_nat (length V)"
    "n2 \<le> n2 + of_nat (length V)"
proof -
  have eq: "map fst X = map (\<lambda>k. n2 + of_nat k) [0..<length V]"
  proof (rule nth_equalityI)
    show "length (map fst X) = length (map (\<lambda>k. n2 + of_nat k) [0..<length V])" using list_all2_lengthD [OF X] by simp
    fix k
    assume "k < length (map fst X)"
    then have k: "k < length X" "k < length V" using list_all2_lengthD [OF X] by simp_all
    have "map fst X ! k = map snd V ! k" using list_all2_nthD [OF X k(2)] k by (simp add: stored_set_def)
    then show "map fst X ! k = map (\<lambda>k. n2 + of_nat k) [0..<length V] ! k" unfolding ids(1) .
  qed
  have u: "unat (n2 + of_nat k) = unat n2 + k" if "k \<le> length V" for k using that ids(2) by (simp add: unat_word_ariths unat_of_nat)
  have lt: "n2 + of_nat j < n2 + of_nat k" if "j < k" "k \<le> length V" for j k using that u [of j] u [of k] by (simp add: word_less_nat_alt)
  have le: "n2 \<le> n2 + of_nat k" if "k \<le> length V" for k using u [OF that] by (simp add: word_le_nat_alt)
  show "n2 \<le> n2 + of_nat (length V)" by (rule le) simp
  have "fst ` set X = (\<lambda>k. n2 + of_nat k) ` {0..<length V}" using arg_cong [OF eq, of set] by simp
  then have mem: "\<exists>k < length V. i = n2 + of_nat k" if "i \<in> fst ` set X" for i using that by auto
  have "sorted_wrt (<) (map fst X)" unfolding eq by (auto simp: sorted_wrt_map sorted_wrt_iff_nth_less lt)
  moreover have "fst x < fst y" if xy: "x \<in> set xs" "y \<in> set X" for x y
  proof -
    obtain k where "k < length V" "fst y = n2 + of_nat k" using mem [of "fst y"] xy(2) by auto
    then show ?thesis using xs(2) xy(1) le [of k] by (auto intro: less_le_trans)
  qed
  ultimately show "sorted_wrt (<) (map fst (xs @ X))" using xs(1) by (auto simp: sorted_wrt_append)
  show "\<forall>x\<in>set (xs @ X). fst x < n2 + of_nat (length V)"
  proof
    fix x
    assume "x \<in> set (xs @ X)"
    then consider "x \<in> set xs" | "x \<in> set X" by auto
    then show "fst x < n2 + of_nat (length V)"
    proof cases
      case 1
      then show ?thesis using xs(2) le [of "length V"] by (auto intro: less_le_trans)
    next
      case 2
      then obtain k where "k < length V" "fst x = n2 + of_nat k" using mem [of "fst x"] by auto
      then show ?thesis using lt by simp
    qed
  qed
  have "set (map snd V) = (\<lambda>k. n2 + of_nat k) ` {0..<length V}" unfolding ids(1) by simp
  then have "\<forall>i\<in>snd ` set V. i < n2 + of_nat (length V)" using lt by auto
  then show "\<forall>v\<in>set V. snd v < n2 + of_nat (length V)" by blast
qed

context owner_db
begin

lemma written_sets:
  assumes "content s F_ownershipSets = map_of (map set_entry xs)" "sorted_wrt (<) (map fst (xs @ X))"
  shows "content (rk_write K (map (\<lambda>(i, x). putOwnerSet i x) X) s) F_ownershipSets = map_of (map set_entry (xs @ X))"
    "f \<noteq> F_ownershipSets \<Longrightarrow> content (rk_write K (map (\<lambda>(i, x). putOwnerSet i x) X) s) f = content s f"
proof -
  let ?ps = "map (\<lambda>(i, x). putOwnerSet i x) X"
  have fam: "family_puts f ?ps = (if f = F_ownershipSets then map set_entry X else [])" for f
    by (auto simp: family_puts_def putOwnerSet_def filter_empty_conv set_entry_def case_prod_beta comp_def filter_map intro!: map_cong)
  have "distinct (map fst (xs @ X))" using assms(2) by (simp add: strict_sorted_iff)
  then have "distinct (map (\<lambda>i. storeNat (ucast i)) (map fst (xs @ X)))" by (simp only: distinct_map) (simp add: inj_on_def ucast_inject)
  then have d: "distinct (map fst (map set_entry xs @ family_puts F_ownershipSets ?ps))" by (simp add: comp_def fst_set_entry fam)
  show "content (rk_write K ?ps s) F_ownershipSets = map_of (map set_entry (xs @ X))"
    unfolding written using put_all_fresh [OF d assms(1)] by (simp add: fam)
  show "f \<noteq> F_ownershipSets \<Longrightarrow> content (rk_write K ?ps s) f = content s f"
    by (simp add: written put_all_family fam)
qed

lemma rebase_sets_ok:
  assumes db: "sets_db content efc db T2 xs L" and d: "batch_inv T n recs Ds d" and T: "map_of T \<subseteq>\<^sub>m map_of T2" "\<forall>t\<in>set T. snd t < n"
    and recs: "\<forall>r\<in>set recs. \<forall>x\<in>snd r. x < n" and room: "unat n + length recs < 2 ^ 32" "unat (ut_nextId (db_usets db)) + length recs < 2 ^ 32"
  shows "\<exists>db' d' V X. rebase_sets K F d db = ok (db', d') \<and> sets_db content efc db' (T2 @ V) (xs @ X) L \<and>
    do_ids d' = do_ids d \<and> do_pid d' = do_pid d \<and> list_all2 (\<lambda>r u. conj_owner (T2 @ V) (snd r) u) recs (do_owners d') \<and>
    db_derived_counters db' = db_derived_counters db"
proof -
  note D = db [unfolded sets_db_def]
  let ?n2 = "ut_nextId (db_usets db)"
  let ?r0 = "\<lparr>rb_mem = db_mem db, rb_usets = db_usets db, rb_subst = Map.empty, rb_batch = []\<rparr>"
  have len: "length Ds \<le> length recs" "\<forall>D\<in>set Ds. D \<noteq> {} \<and> (\<forall>x\<in>D. x < n)"
      "list_all2 (\<lambda>r u. owner_id T (batch_table n Ds) (snd r) u) recs (do_owners d)" using d by (auto simp: batch_inv_def)
  have tab2: "uset_table (db_mem db) (db_usets db) T2" using D by blast
  obtain r V X where r: "rfold (rebase_set F (do_mem d)) (do_newSets d) ?r0 = ok r" "rebase_inv efc T2 ?n2 n Ds V X r"
    using rebase_loop [OF batch_length [OF d] batch_newSets [OF d] len(2) tab2 refl] room len(1) by force
  note R = r(2) [unfolded rebase_inv_def]
  have V: "uset_table (rb_mem r) (rb_usets r) (T2 @ V)" "ut_nextId (rb_usets r) = ?n2 + of_nat (length V)" "length V \<le> length Ds"
    "map snd V = map (\<lambda>k. ?n2 + of_nat k) [0..<length V]" "list_all2 (stored_set efc) V X" "rb_batch r = map (\<lambda>(i, x). putOwnerSet i x) X"
    using R by blast+
  have bound: "unat ?n2 + length V < 2 ^ 32" using room(2) V(3) len(1) by simp
  have xs: "sorted_wrt (<) (map fst xs)" "\<forall>x\<in>set xs. fst x < ?n2" using D by blast+
  note P = rebased_puts [OF V(5,4) bound xs]
  let ?db = "db\<lparr>db_store := rk_write K (rb_batch r) (db_store db), db_mem := rb_mem r, db_usets := rb_usets r\<rparr>"
  let ?d = "d\<lparr>do_owners := map (set_subst (rb_subst r)) (do_owners d)\<rparr>"
  have own: "list_all2 (\<lambda>r u. conj_owner (T2 @ V) (snd r) u) recs (do_owners ?d)"
  proof -
    have "conj_owner (T2 @ V) (snd q) (set_subst (rb_subst r) u)" if "q \<in> set recs" "owner_id T (batch_table n Ds) (snd q) u" for q u
      by (rule owner_rebased [OF r(2) T _ that(2)]) (use recs that(1) room(1) len(1) in auto)
    then show ?thesis using len(3) by (auto simp: list_all2_conv_all_nth)
  qed
  have sdb: "sets_db content efc ?db (T2 @ V) (xs @ X) L"
  proof -
    have st: "\<exists>x\<in>set (xs @ X). stored_set efc t x" if t: "t \<in> set (T2 @ V)" for t
    proof (cases "t \<in> set T2")
      case True
      then show ?thesis using D by auto
    next
      case False
      then obtain k where k: "k < length V" "t = V ! k" using t by (auto simp: in_set_conv_nth)
      then have "X ! k \<in> set X" "stored_set efc t (X ! k)" using V(5) by (auto simp: list_all2_conv_all_nth)
      then show ?thesis by auto
    qed
    have c: "content (db_store db) F_ownershipSets = map_of (map set_entry xs)" using D by blast
    have "\<forall>t\<in>set T2. snd t < ?n2" using D by blast
    then have ids: "\<forall>t\<in>set (T2 @ V). snd t < ut_nextId (rb_usets r)" using P(3,4) unfolding V(2) by (auto intro: less_le_trans)
    show ?thesis
      unfolding sets_db_def using D V(1,2) P(1,2) st ids written_sets [OF c P(1)] by (simp add: V(6))
  qed
  show ?thesis
  proof (cases "do_newSets d = []")
    case True
    then have "Ds = []" using batch_length [OF d] by simp
    then have "V = []" "X = []" "r = ?r0" using V(3,5) r(1) True by auto
    moreover have "set_subst (\<lambda>x. None) = (\<lambda>u. u)" by (simp add: set_subst_def fun_eq_iff)
    ultimately show ?thesis using True own db by (intro exI [of _ db] exI [of _ d] exI [of _ "[]"]) (simp add: rebase_sets_def)
  next
    case False
    then have "rebase_sets K F d db = ok (?db, ?d)" using r(1) by (simp add: rebase_sets_def)
    then show ?thesis using sdb own by (intro exI [of _ ?db] exI [of _ ?d] exI [of _ V] exI [of _ X]) simp
  qed
qed

lemma addDefineOwnership_ok:
  assumes db: "sets_db content efc db T2 xs L" and d: "batch_inv T n recs Ds d" and T: "map_of T \<subseteq>\<^sub>m map_of T2" "\<forall>t\<in>set T. snd t < n"
    and recs: "\<forall>r\<in>set recs. \<forall>x\<in>snd r. x < n" and room: "unat n + length recs < 2 ^ 32" "unat (ut_nextId (db_usets db)) + length recs < 2 ^ 32"
      "length (L (do_pid d)) + 1 < 2 ^ 64"
  shows "\<exists>db' d' V X us. addDefineOwnership K F d db = ok (db', d') \<and> length us = length recs \<and>
    sets_db content efc db' (T2 @ V) (xs @ X) (L(do_pid d := L (do_pid d) @ [(map fst recs, us)])) \<and>
    list_all2 (\<lambda>r u. conj_owner (T2 @ V) (snd r) u) recs us"
proof -
  from rebase_sets_ok [OF db d T recs room(1,2)] obtain db1 d1 V X where
    1: "rebase_sets K F d db = ok (db1, d1)" "sets_db content efc db1 (T2 @ V) (xs @ X) L" "do_ids d1 = do_ids d" "do_pid d1 = do_pid d"
      "list_all2 (\<lambda>r u. conj_owner (T2 @ V) (snd r) u) recs (do_owners d1)" by (elim exE conjE) (rule that; assumption)
  let ?p = "do_pid d" and ?b = "(do_ids d1, do_owners d1)"
  let ?n = "case db_derived_counters db1 ?p of None \<Rightarrow> 0 | Some n \<Rightarrow> n"
  let ?put = "(F_ownershipDerivedRaw, storeNat ?p @ storeNat ?n, derived_value ?b)"
  let ?db = "db1\<lparr>db_store := rk_write K [?put] (db_store db1), db_derived_counters := (db_derived_counters db1)(?p \<mapsto> ?n + 1)\<rparr>"
  have ids: "do_ids d1 = map fst recs" using d 1(3) by (simp add: batch_inv_def)
  have len: "length (do_owners d1) = length recs" using list_all2_lengthD [OF 1(5)] by simp
  have "db_open db" using db by (simp add: sets_db_def)
  then have run: "addDefineOwnership K F d db = ok (?db, d1)"
    using 1(1,4) by (simp add: addDefineOwnership_def requireOpen_def Let_def)
  have log: "derived_log (db_derived_counters db1) (content (db_store db1) F_ownershipDerivedRaw) L" using 1(2) by (simp add: sets_db_def)
  have "derived_log (db_derived_counters ?db) (content (db_store ?db) F_ownershipDerivedRaw) (L(?p := L ?p @ [?b]))"
    using derived_log_add [OF log room(3), of ?b, OF _ refl] len ids by (simp add: written put_all_def)
  then have "sets_db content efc ?db (T2 @ V) (xs @ X) (L(?p := L ?p @ [?b]))"
    using 1(2) by (simp add: sets_db_def written put_all_def)
  then show ?thesis using run len 1(5) ids by (intro exI [of _ ?db] exI [of _ d1] exI [of _ V] exI [of _ X] exI [of _ "do_owners d1"]) simp
qed

lemma conj_owner_stored:
  assumes db: "sets_db content efc db T xs L" and u: "conj_owner T deps u" "card deps \<noteq> 1"
  shows "stored_conjunction K efc db deps u"
proof -
  note D = db [unfolded sets_db_def]
  have tab: "uset_table (db_mem db) (db_usets db) T" using D by blast
  have m: "map_of T (conjunction deps) = Some u" using u by (simp add: conj_owner_def)
  have t: "(conjunction deps, u) \<in> set T" by (rule map_of_SomeD [OF m])
  have "u < ut_nextId (db_usets db)" using D t by auto
  then have ne: "u \<noteq> INVALID_USET" using unat_lt_32 [of "ut_nextId (db_usets db)"] by (auto simp: INVALID_USET_def word_less_nat_alt)
  have "StoredOwnership_lookupSet db (conjunction deps) = ok u"
    using table_lookup [OF tab, of "fresh_uset (conjunction deps)"] m by (simp add: StoredOwnership_lookupSet_def)
  moreover have "conjunction deps = \<lparr>se_op = And, se_set = SetU32_from (sorted_list_of_set deps)\<rparr>" by (simp add: conjunction_def rep_def)
  moreover obtain x where x: "x \<in> set xs" "stored_set efc (conjunction deps, u) x" using D t by blast
  have "x = (u, \<lparr>se_op = And, se_set = se_set (snd x)\<rparr>)"
    using x(2) by (intro prod_eqI) (simp_all add: stored_set_def conjunction_def)
  then have "(u, \<lparr>se_op = And, se_set = se_set (snd x)\<rparr>) \<in> set xs \<and> efc (se_set (snd x)) = sorted_list_of_set deps"
    using x by (simp add: stored_set_def conjunction_def rep_foreach)
  moreover have "Database_getSetIterator K (db_store db) = ok (sizes_of xs, xs)" using D by (intro getSetIterator_ok) blast+
  ultimately show ?thesis using ne by (auto simp: stored_conjunction_def)
qed

end

section \<open>Owners of derived facts\<close>

lemma ordered_put_sorted: "sorted_wrt (<) (map fst xs) \<Longrightarrow> sorted_wrt (<) (map fst (ordered_put k v xs))"
  by (auto simp: ordered_put_def sorted_wrt_append sorted_wrt_map sorted_wrt_filter)

lemma map_of_ordered_put:
  assumes "sorted_wrt (<) (map fst xs)"
  shows "map_of (ordered_put k v xs) = (map_of xs)(k \<mapsto> v)"
proof -
  have d: "distinct (map fst xs)" "distinct (map fst (ordered_put k v xs))"
    using assms ordered_put_sorted [OF assms] by (auto simp: strict_sorted_iff)
  have "((j, w) \<in> set (ordered_put k v xs)) = (if j = k then w = v else (j, w) \<in> set xs)" for j w
    by (auto simp: ordered_put_def)
  then have "(map_of (ordered_put k v xs) j = Some w) = (((map_of xs)(k \<mapsto> v)) j = Some w)" for j w
    using map_of_eq_Some_iff [OF d(1), of j w] map_of_eq_Some_iff [OF d(2), of j w] by auto
  then show ?thesis by (metis not_None_eq ext)
qed

text \<open>Only the first owner of a fact is recorded, so that the sets of owners are singletons.\<close>

definition derived_inv :: "(u64 \<times> UsetId) list \<Rightarrow> DerivedState \<Rightarrow> bool" where
  "derived_inv es s \<longleftrightarrow> sorted_wrt (<) (map fst (ds_factOwners s)) \<and> map_of (ds_factOwners s) = map_of es \<and>
     (\<forall>(i, A)\<in>set (ds_factOwnerSets s). \<exists>u. A = {u}) \<and> fst ` set (ds_factOwnerSets s) = fst ` set es"

lemma derived_entries: "derived_inv es (fold derived_entry es \<lparr>ds_factOwners = [], ds_factOwnerSets = []\<rparr>)"
proof (induction es rule: rev_induct)
  case (snoc e es)
  obtain i u where e: "e = (i, u)" by fastforce
  let ?s = "fold derived_entry es \<lparr>ds_factOwners = [], ds_factOwnerSets = []\<rparr>"
  note inv = snoc.IH [unfolded derived_inv_def]
  show ?case
  proof (cases "map_of es i")
    case (Some v)
    then have i: "i \<in> fst ` set es" by (metis domI dom_map_of_conv_image_fst)
    have "map_of (es @ [e]) = map_of es" using Some by (auto simp: e map_add_def fun_eq_iff split: option.split)
    then show ?thesis using inv Some i unfolding derived_inv_def by (auto simp: e derived_entry_def insert_absorb)
  next
    case None
    then have ni: "i \<notin> fst ` set es" by (simp add: map_of_eq_None_iff)
    have n: "map_of (ds_factOwners ?s) i = None" "map_of (ds_factOwnerSets ?s) i = None" "i \<notin> fst ` set (ds_factOwnerSets ?s)"
      using inv None ni by (simp_all add: map_of_eq_None_iff)
    have "map (\<lambda>(j, A). (j, if j = i then insert u A else A)) (ds_factOwnerSets ?s) = ds_factOwnerSets ?s"
      by (rule map_idI) (use n(3) in \<open>force split: if_splits\<close>)
    then have run: "fold derived_entry (es @ [e]) \<lparr>ds_factOwners = [], ds_factOwnerSets = []\<rparr> =
        ?s\<lparr>ds_factOwners := ordered_put i u (ds_factOwners ?s), ds_factOwnerSets := ds_factOwnerSets ?s @ [(i, {u})]\<rparr>"
      using n by (simp add: e derived_entry_def)
    have "map_of (es @ [e]) = (map_of es)(i \<mapsto> u)" using None by (auto simp: e map_add_def fun_eq_iff split: option.split)
    then show ?thesis using inv unfolding run derived_inv_def
      by (simp add: ordered_put_sorted map_of_ordered_put e image_Un)
  qed
qed (simp add: derived_inv_def)

lemma derived_sets_singletons:
  assumes "\<forall>(i, A)\<in>set ps. \<exists>u. A = {u}"
  shows "derived_sets ow ps (m, us, r) = ok (m, us, r)"
  using assms by (induction ps) auto

text \<open>The intervals give every recorded id its owner.\<close>

lemma derived_intervals_ids: "fst ` set (derived_intervals c xs) \<subseteq> fst ` set xs"
  by (induction c xs rule: derived_intervals.induct) auto

lemma interval_skip: "\<forall>x\<in>set ys. i < fst x \<Longrightarrow> fold (\<lambda>(j, w) v. if j \<le> (i :: u64) then w else v) ys v = v"
  by (induction ys) auto

lemma derived_intervals_owner:
  assumes "sorted_wrt (<) (map fst xs)" "(i, u) \<in> set xs"
  shows "fold (\<lambda>(j, w) v. if j \<le> i then w else v) (derived_intervals c xs) c = u"
  using assms
proof (induction c xs rule: derived_intervals.induct)
  case (2 c j w ps)
  show ?case
  proof (cases "i = j")
    case True
    have "\<forall>k\<in>fst ` set ps. i < k" using "2.prems"(1) True by auto
    then have "\<forall>x\<in>set (derived_intervals c' ps). i < fst x" for c' using derived_intervals_ids [of c' ps] by blast
    then have skip: "fold (\<lambda>(j, w) v. if j \<le> i then w else v) (derived_intervals c' ps) v = v" for c' v by (rule interval_skip)
    have "u = w" using "2.prems" True by (force dest: bspec)
    then show ?thesis using True skip [of w w] skip [of c c] by simp
  next
    case False
    then have "(i, u) \<in> set ps" "j < i" using "2.prems" by auto
    then show ?thesis using 2 by auto
  qed
qed simp

lemma derived_loops:
  assumes "\<And>xs. set (order xs) = set xs" "es = concat (map (\<lambda>(ids, us). zip ids us) iter)"
  shows "\<exists>xs. computeDerivedOwnership order F ow iter = ok \<lparr>co_firstId = nextSetId ow, co_sets = [], co_facts = derived_intervals INVALID_USET xs\<rparr> \<and>
    sorted_wrt (<) (map fst xs) \<and> map_of xs = map_of es"
proof -
  let ?s = "fold derived_entry es \<lparr>ds_factOwners = [], ds_factOwnerSets = []\<rparr>"
  note inv = derived_entries [of es, unfolded derived_inv_def]
  have "derived_sets ow (order (ds_factOwnerSets ?s)) (m, us, r) = ok (m, us, r)" for m us r
    by (rule derived_sets_singletons) (use inv assms(1) in auto)
  then have "computeDerivedOwnership order F ow iter =
      ok \<lparr>co_firstId = nextSetId ow, co_sets = [], co_facts = derived_intervals INVALID_USET (ds_factOwners ?s)\<rparr>"
    unfolding computeDerivedOwnership_def Let_def assms(2) [symmetric] by (simp add: Usets_toEliasFano_def Usets_new_def)
  then show ?thesis using inv by blast
qed

text \<open>
  The intervals join ids with the same owner even if ids of other predicates lie between them, for which
  another call stores other owners: here 110 has the owner \<open>a\<close>, and the owner \<open>b\<close> after the second call.
\<close>

lemma derived_intervals_overlap:
  assumes "a \<noteq> b" "a \<noteq> INVALID_USET" "b \<noteq> INVALID_USET"
  shows "computeDerivedOwnership (\<lambda>xs. xs) F ow [([100, 110], [a, a])] = ok \<lparr>co_firstId = nextSetId ow, co_sets = [], co_facts = [(100, a)]\<rparr>"
    "computeDerivedOwnership (\<lambda>xs. xs) F ow [([105], [b])] = ok \<lparr>co_firstId = nextSetId ow, co_sets = [], co_facts = [(105, b)]\<rparr>"
    "interval_owner [(100, a)] 110 = a" "interval_owner [(100, a), (105, b)] 110 = b"
  using assms by (simp_all add: computeDerivedOwnership_def derived_entry_def ordered_put_def Usets_toEliasFano_def Usets_new_def
      interval_owner_def Let_def)

section \<open>Properties\<close>

text \<open>
  C17. Ownership of derived facts is recorded faithfully. Facts are derived while the database has the sets \<open>T\<close>,
  each fact from facts with the owners \<open>deps\<close>; later, when the database may have more sets, the batch is added.
  Recording and adding succeed; reading the log of the predicate gives what it had before and one more batch with
  the ids of the facts and their owners. The owner of a fact with one dependency is that owner; otherwise it is
  the id under which the database has the conjunction of \<open>deps\<close>, in memory and on disk, although the id the set
  had in the batch may be taken by another set by then.
\<close>

theorem derived_ownership_recorded:
  assumes "owner_db K content enc dec F efc view" "reads_table T n ow" "sets_db content efc db T2 xs L" "map_of T \<subseteq>\<^sub>m map_of T2"
    "\<forall>r\<in>set recs. snd r \<noteq> {} \<and> (\<forall>x\<in>snd r. x < n)" "unat n + length recs < 2 ^ 32"
    "unat (StoredOwnership_nextSetId db) + length recs < 2 ^ 32" "length (L pid) + 1 < 2 ^ 64"
  shows "\<exists>d db' d' us. rfold (\<lambda>(i, deps). derivedFrom ow i deps) recs (DefineOwnership_new ow pid) = ok d \<and>
    addDefineOwnership K F d db = ok (db', d') \<and>
    getDerivedFactOwnershipIterator K pid db = ok (L pid) \<and>
    getDerivedFactOwnershipIterator K pid db' = ok (L pid @ [(map fst recs, us)]) \<and>
    list_all2 (\<lambda>(i, deps) u. if card deps = 1 then deps = {u} else stored_conjunction K efc db' deps u) recs us"
proof -
  have st: "rocks_store K content" using assms(1) by (simp add: owner_db_def rocks_db_def)
  obtain d Ds where d: "rfold (\<lambda>(i, deps). derivedFrom ow i deps) recs (DefineOwnership_new ow pid) = ok d" "batch_inv T n recs Ds d" "do_pid d = pid"
    using derivedFrom_all [OF assms(2,5,6)] by blast
  have T: "\<forall>t\<in>set T. snd t < n" and recs: "\<forall>r\<in>set recs. \<forall>x\<in>snd r. x < n" using assms(2,5) by (auto simp: reads_table_def)
  have room: "unat (ut_nextId (db_usets db)) + length recs < 2 ^ 32" "length (L (do_pid d)) + 1 < 2 ^ 64"
    using assms(7,8) d(3) by (simp_all add: StoredOwnership_nextSetId_def)
  from owner_db.addDefineOwnership_ok [OF assms(1,3) d(2) assms(4) T recs assms(6) room]
  obtain db' d' V X us where a: "addDefineOwnership K F d db = ok (db', d')"
      "sets_db content efc db' (T2 @ V) (xs @ X) (L(do_pid d := L (do_pid d) @ [(map fst recs, us)]))"
      "list_all2 (\<lambda>r u. conj_owner (T2 @ V) (snd r) u) recs us" by (elim exE conjE) (rule that; assumption)
  have log: "derived_log (db_derived_counters db) (content (db_store db) F_ownershipDerivedRaw) L"
    "derived_log (db_derived_counters db') (content (db_store db') F_ownershipDerivedRaw) (L(pid := L pid @ [(map fst recs, us)]))"
    using assms(3) a(2) d(3) by (simp_all add: sets_db_def)
  have own: "if card deps = 1 then deps = {u} else stored_conjunction K efc db' deps u" if "conj_owner (T2 @ V) deps u" for deps u
    using that owner_db.conj_owner_stored [OF assms(1) a(2) that] by (simp add: conj_owner_def)
  have "list_all2 (\<lambda>(i, deps) u. if card deps = 1 then deps = {u} else stored_conjunction K efc db' deps u) recs us"
    by (rule list_all2_mono [OF a(3)]) (unfold split_def, rule own)
  then show ?thesis
    using d(1) a(1) rocks_store.derived_log_read [OF st log(1), of pid] rocks_store.derived_log_read [OF st log(2), of pid] by auto
qed

definition derived_db :: "puts Database" where
  "derived_db = sample_db\<lparr>db_usets := Usets_new 5\<rparr>"

definition derived_ownership :: "OwnerSet Ownership" where
  "derived_ownership = \<lparr>getOwner = (\<lambda>_. INVALID_USET), set_sizes = (0, 0), getSetIterator = [], nextSetId = 5, lookupSet = (\<lambda>_. INVALID_USET)\<rparr>"

lemma derived_db_ok: "sets_db log_content owner_values derived_db [] [] (\<lambda>_. [])" "reads_table [] 5 derived_ownership"
  by (simp_all add: sets_db_def derived_db_def sample_db_def uset_table_empty derived_log_def log_entries_def reads_table_def derived_ownership_def)

theorem derived_ownership_recorded_witness:
  "\<exists>d db' d' u. rfold (\<lambda>(i, deps). derivedFrom derived_ownership i deps) [(7, {1, 2}), (8, {3})] (DefineOwnership_new derived_ownership 4) = ok d \<and>
    addDefineOwnership log_rocks owner_ef d derived_db = ok (db', d') \<and>
    getDerivedFactOwnershipIterator log_rocks 4 db' = ok [([7, 8], [u, 3])] \<and> stored_conjunction log_rocks owner_values db' {1, 2} u"
proof -
  have r: "\<forall>r\<in>set [(7 :: Id, {1, 2}), (8, {3})]. snd r \<noteq> {} \<and> (\<forall>x\<in>snd r. x < (5 :: u32))" by simp
  have n: "StoredOwnership_nextSetId derived_db = 5" by (simp add: StoredOwnership_nextSetId_def derived_db_def Usets_new_def)
  have c: "card {1, 2 :: u32} = 2" by simp
  from derived_ownership_recorded [OF mem_db.owner_db_axioms derived_db_ok(2,1) _ r, of 4] n
  show ?thesis by (auto simp: list_all2_Cons1 c)
qed



end
