(* ===== verification/Queries_Correct.thy ===== *)
theory Queries_Correct
  imports Queries Derived_Ownership_Correct
begin

text \<open>
  What a query returns: with its results come all facts they refer to, directly or not, each once; and a query that
  was suspended goes on where it stopped.
\<close>

section \<open>Nested facts\<close>

definition allowed :: "Depth \<Rightarrow> Pid list \<Rightarrow> Pid \<Rightarrow> bool" where
  "allowed depth pids t \<longleftrightarrow> (depth = ExpandPartial \<longrightarrow> t \<in> set pids)"

definition allowed_refs :: "Depth \<Rightarrow> Pid list \<Rightarrow> (Id \<times> Pid) list \<Rightarrow> Id set" where
  "allowed_refs depth pids refs = {j. \<exists>t. (j, t) \<in> set refs \<and> allowed depth pids t}"

definition nested_rel :: "Inventory \<Rightarrow> Lookup \<Rightarrow> Depth \<Rightarrow> Pid list \<Rightarrow> (Id \<times> Id) set" where
  "nested_rel inventory L depth pids =
     {(i, j). \<exists>t c p. factById L i = Some (t, c) \<and> lookupPredicate inventory t = Some p \<and> j \<in> allowed_refs depth pids (traverser p c)}"

lemma nested_traverse_spec:
  "\<exists>new. nested_traverse depth pids refs n =
      n\<lparr>nested_added := rev new @ nested_added n, nested_pending := nested_pending n @ new\<rparr> \<and>
    distinct new \<and> set new = allowed_refs depth pids refs - set (nested_added n)"
proof (induction refs arbitrary: n)
  case Nil
  then show ?case by (intro exI [of _ "[]"]) (simp add: nested_traverse_def allowed_refs_def)
next
  case (Cons r refs)
  obtain i t where r: "r = (i, t)" by fastforce
  let ?n = "nestedFact depth pids i t n"
  obtain new where new: "nested_traverse depth pids refs ?n =
      ?n\<lparr>nested_added := rev new @ nested_added ?n, nested_pending := nested_pending ?n @ new\<rparr>"
    "distinct new" "set new = allowed_refs depth pids refs - set (nested_added ?n)" using Cons.IH by blast
  have run: "nested_traverse depth pids (r # refs) n = nested_traverse depth pids refs ?n" by (simp add: nested_traverse_def r)
  show ?case
  proof (cases "allowed depth pids t \<and> i \<notin> set (nested_added n)")
    case True
    then have n: "?n = n\<lparr>nested_added := i # nested_added n, nested_pending := nested_pending n @ [i]\<rparr>"
      by (auto simp: nestedFact_def allowed_def)
    then show ?thesis using new True unfolding run
      by (intro exI [of _ "i # new"]) (auto simp: allowed_refs_def r)
  next
    case False
    then have n: "?n = n" by (auto simp: nestedFact_def allowed_def)
    then show ?thesis using new False unfolding run by (intro exI [of _ new]) (auto simp: allowed_refs_def r)
  qed
qed

definition entry_ok :: "Lookup \<Rightarrow> u64 \<times> u64 \<times> bytes \<times> bytes \<Rightarrow> bool" where
  "entry_ok L = (\<lambda>(i, t, k, v). \<exists>c. factById L i = Some (t, c) \<and> k = Clause_key c \<and> v = Clause_value c)"

text \<open>
  \<open>roots\<close> are the facts that the results refer to. What is no longer pending has been recorded if it exists, and
  everything it refers to has been added.
\<close>

definition nested_inv :: "Lookup \<Rightarrow> (Id \<times> Id) set \<Rightarrow> Id set \<Rightarrow> Nested \<Rightarrow> bool" where
  "nested_inv L R roots n \<longleftrightarrow>
     roots \<subseteq> set (nested_added n) \<and> set (nested_added n) \<subseteq> R\<^sup>* `` roots \<and>
     distinct (nested_pending n) \<and> set (nested_pending n) \<subseteq> set (nested_added n) \<and>
     R `` (set (nested_added n) - set (nested_pending n)) \<subseteq> set (nested_added n) \<and>
     distinct (map fst (nested_facts n)) \<and>
     fst ` set (nested_facts n) = {i \<in> set (nested_added n) - set (nested_pending n). factById L i \<noteq> None} \<and>
     (\<forall>e\<in>set (nested_facts n). entry_ok L e)"

lemma nested_invD:
  assumes "nested_inv L R roots n"
  shows "roots \<subseteq> set (nested_added n)" "set (nested_added n) \<subseteq> R\<^sup>* `` roots" "distinct (nested_pending n)"
    "set (nested_pending n) \<subseteq> set (nested_added n)" "R `` (set (nested_added n) - set (nested_pending n)) \<subseteq> set (nested_added n)"
    "distinct (map fst (nested_facts n))"
    "fst ` set (nested_facts n) = {i \<in> set (nested_added n) - set (nested_pending n). factById L i \<noteq> None}"
    "\<forall>e\<in>set (nested_facts n). entry_ok L e"
  using assms by (simp_all only: nested_inv_def) blast

lemma nested_inv_new: "nested_inv L R {} \<lparr>nested_added = [], nested_facts = [], nested_pending = []\<rparr>"
  by (simp add: nested_inv_def)

lemma nested_inv_done:
  assumes "nested_inv L R roots n" "nested_pending n = []"
  shows "set (nested_added n) = R\<^sup>* `` roots"
proof
  note d = nested_invD [OF assms(1)]
  show "set (nested_added n) \<subseteq> R\<^sup>* `` roots" by (rule d(2))
  have closed: "R `` set (nested_added n) \<subseteq> set (nested_added n)" using d(5) assms(2) by simp
  have "j \<in> set (nested_added n)" if ij: "(i, j) \<in> R\<^sup>*" and i: "i \<in> set (nested_added n)" for i j
    using ij by (induction rule: rtrancl_induct) (use i closed in auto)
  then show "R\<^sup>* `` roots \<subseteq> set (nested_added n)" using d(1) by blast
qed

text \<open>Adding references: they are roots, or references of a fact that was added before.\<close>

lemma nested_inv_traverse:
  assumes inv: "nested_inv L R roots n" and "allowed_refs depth pids refs \<subseteq> R\<^sup>* `` (roots \<union> extra)" "extra \<subseteq> allowed_refs depth pids refs"
  shows "nested_inv L R (roots \<union> extra) (nested_traverse depth pids refs n)"
    "allowed_refs depth pids refs \<subseteq> set (nested_added (nested_traverse depth pids refs n))"
proof -
  obtain new where new: "nested_traverse depth pids refs n =
      n\<lparr>nested_added := rev new @ nested_added n, nested_pending := nested_pending n @ new\<rparr>"
    "distinct new" "set new = allowed_refs depth pids refs - set (nested_added n)" using nested_traverse_spec by blast
  note d = nested_invD [OF inv]
  have a: "set (nested_added (nested_traverse depth pids refs n)) = set (nested_added n) \<union> allowed_refs depth pids refs"
    using new(3) by (auto simp: new(1))
  then show "allowed_refs depth pids refs \<subseteq> set (nested_added (nested_traverse depth pids refs n))" by simp
  have rest: "set (nested_added n) \<union> set new - (set (nested_pending n) \<union> set new) = set (nested_added n) - set (nested_pending n)"
    using new(3) by auto
  show "nested_inv L R (roots \<union> extra) (nested_traverse depth pids refs n)"
    unfolding nested_inv_def a
  proof (intro conjI)
    show "set (nested_added n) \<union> allowed_refs depth pids refs \<subseteq> R\<^sup>* `` (roots \<union> extra)" using d(2) assms(2) by blast
  qed (use d new assms(3) rest in \<open>auto simp: new(1)\<close>)
qed

lemma nested_inv_pop:
  assumes inv: "nested_inv L R roots n" and i: "nested_pending n = ps @ [i]" and gone: "factById L i = None" "R `` {i} = {}"
  shows "nested_inv L R roots (n\<lparr>nested_pending := ps\<rparr>)"
proof -
  note d = nested_invD [OF inv]
  have "set (nested_added n) - set ps = insert i (set (nested_added n) - set (nested_pending n))" using d(3,4) i by auto
  then show ?thesis unfolding nested_inv_def using d i gone by auto
qed

lemma nested_inv_visit:
  assumes inv: "nested_inv L R roots n" and i: "nested_pending n = ps @ [i]" and fact: "factById L i = Some (t, c)"
    "R `` {i} = allowed_refs depth pids refs"
  shows "nested_inv L R roots (nested_record i t c (nested_traverse depth pids refs (n\<lparr>nested_pending := ps\<rparr>)))"
proof -
  note d = nested_invD [OF inv]
  obtain new where new: "nested_traverse depth pids refs (n\<lparr>nested_pending := ps\<rparr>) =
      n\<lparr>nested_added := rev new @ nested_added n, nested_pending := ps @ new\<rparr>"
    "distinct new" "set new = allowed_refs depth pids refs - set (nested_added n)"
    using nested_traverse_spec [of depth pids refs "n\<lparr>nested_pending := ps\<rparr>"] by auto
  have ia: "i \<in> set (nested_added n)" "i \<notin> set ps" using d(3,4) i by auto
  have reach: "allowed_refs depth pids refs \<subseteq> R\<^sup>* `` roots"
  proof
    fix x
    assume "x \<in> allowed_refs depth pids refs"
    then have "(i, x) \<in> R" using fact(2) by blast
    moreover obtain r where "r \<in> roots" "(r, i) \<in> R\<^sup>*" using d(2) ia(1) by blast
    ultimately show "x \<in> R\<^sup>* `` roots" by (blast intro: rtrancl_into_rtrancl)
  qed
  have rest: "set (nested_added n) \<union> set new - (set ps \<union> set new) = insert i (set (nested_added n) - set (nested_pending n))"
    using new(3) ia i by auto
  have fresh: "i \<notin> fst ` set (nested_facts n)" unfolding d(7) using i by auto
  show ?thesis
    unfolding nested_inv_def new(1)
  proof (intro conjI)
    let ?n = "nested_record i t c (n\<lparr>nested_added := rev new @ nested_added n, nested_pending := ps @ new\<rparr>)"
    show "set (nested_added ?n) \<subseteq> R\<^sup>* `` roots" using d(2) reach new(3) by (auto simp: nested_record_def)
    show "R `` (set (nested_added ?n) - set (nested_pending ?n)) \<subseteq> set (nested_added ?n)"
    proof -
      have "R `` insert i (set (nested_added n) - set (nested_pending n)) \<subseteq> set (nested_added n) \<union> set new"
        using d(5) fact(2) new(3) by blast
      then show ?thesis using rest by (simp add: nested_record_def Un_commute)
    qed
    have "fst ` set (nested_facts ?n) = insert i {j \<in> set (nested_added n) - set (nested_pending n). factById L j \<noteq> None}"
      using d(7) by (simp add: nested_record_def)
    also have "\<dots> = {j \<in> insert i (set (nested_added n) - set (nested_pending n)). factById L j \<noteq> None}" using fact(1) by auto
    finally show "fst ` set (nested_facts ?n) = {j \<in> set (nested_added ?n) - set (nested_pending ?n). factById L j \<noteq> None}"
      using rest by (simp add: nested_record_def Un_commute)
  qed (use d(1,3,4,6,8) new ia i fresh fact(1) in \<open>auto simp: nested_record_def entry_ok_def\<close>)
qed

lemma nested_loop_ok:
  assumes "\<forall>i t c. factById L i = Some (t, c) \<longrightarrow> lookupPredicate inventory t \<noteq> None"
    "nested_inv L (nested_rel inventory L depth pids) roots n"
  shows "\<exists>n'. nested_loop inventory L depth pids n = ok n' \<and> nested_inv L (nested_rel inventory L depth pids) roots n' \<and> nested_pending n' = []"
  using assms
proof (induction inventory L depth pids n rule: nested_loop.induct)
  case (1 inventory L depth pids n)
  let ?R = "nested_rel inventory L depth pids"
  show ?case
  proof (cases "nested_pending n" rule: rev_cases)
    case Nil
    then show ?thesis using "1.prems"(2) by (simp add: nested_loop.simps)
  next
    case (snoc ps i)
    then have ne: "nested_pending n \<noteq> []" and i: "last (nested_pending n) = i" "butlast (nested_pending n) = ps" by simp_all
    note step = "1.IH" [OF ne i(1) [symmetric] refl, unfolded i(2)]
    show ?thesis
    proof (cases "factById L i")
      case None
      then have "?R `` {i} = {}" by (auto simp: nested_rel_def)
      from step(1) [OF None "1.prems"(1) nested_inv_pop [OF "1.prems"(2) snoc None this]]
      show ?thesis using ne None by (subst nested_loop.simps) (simp add: i)
    next
      case (Some tc)
      then obtain t c where tc: "factById L i = Some (t, c)" by (cases tc) simp
      then obtain p where p: "lookupPredicate inventory t = Some p" using "1.prems"(1) by blast
      have R: "?R `` {i} = allowed_refs depth pids (traverser p c)" using tc p by (auto simp: nested_rel_def)
      from step(2) [OF tc refl p "1.prems"(1) nested_inv_visit [OF "1.prems"(2) snoc tc R]]
      show ?thesis using ne tc p by (subst nested_loop.simps) (simp add: i)
    qed
  qed
qed

section \<open>Results\<close>

definition result_refs :: "('d, 'e) QueryEnv \<Rightarrow> Subroutine option \<Rightarrow> Pid \<Rightarrow> bytes \<Rightarrow> bytes \<Rightarrow> (Id \<times> Pid) list" where
  "result_refs env traverse pid k v =
     (case traverse of
        Some s \<Rightarrow> qe_runTraverse env s (result_clause (Some k) (Some v))
      | None \<Rightarrow> traverser (the (lookupPredicate (qe_inventory env) pid)) (result_clause (Some k) (Some v)))"

definition result_roots :: "('d, 'e) QueryEnv \<Rightarrow> 'd QueryExecutor \<Rightarrow> Id set" where
  "result_roots env q = (\<Union>(i, t, k, v)\<in>set (q_results q). allowed_refs (q_depth q) (q_expandPids q) (result_refs env (q_traverse q) t k v))"

definition results_inv :: "('d, 'e) QueryEnv \<Rightarrow> 'd QueryExecutor \<Rightarrow> bool" where
  "results_inv env q \<longleftrightarrow>
     nested_inv (qe_view env (q_facts q)) (nested_rel (qe_inventory env) (qe_view env (q_facts q)) (q_depth q) (q_expandPids q)) (result_roots env q) (q_nested q) \<and>
     nested_pending (q_nested q) = [] \<and> distinct (map fst (q_results q)) \<and> fst ` set (q_results q) = set (q_results_added q)"

lemma result_clause_opt: "result_clause key val = result_clause (Some (opt_list key)) (Some (opt_list val))"
  by (simp add: result_clause_def opt_list_def)

lemma Query_result_ok:
  assumes inv: "results_inv env q" and depth: "q_depth q \<noteq> ResultsOnly" and i: "i \<noteq> WordId_invalid"
    and known: "\<forall>i t c. factById (qe_view env (q_facts q)) i = Some (t, c) \<longrightarrow> lookupPredicate (qe_inventory env) t \<noteq> None"
    "q_traverse q = None \<longrightarrow> lookupPredicate (qe_inventory env) (q_pid q) \<noteq> None"
  shows "\<exists>b q'. Query_result env i key val q = ok (b, q') \<and> results_inv env q' \<and> set (q_results_added q') = insert i (set (q_results_added q)) \<and>
    q' = q\<lparr>q_results_added := q_results_added q', q_results := q_results q', q_nested := q_nested q'\<rparr>"
proof (cases "i \<in> set (q_results_added q)")
  case True
  then show ?thesis using inv by (auto simp: Query_result_def)
next
  case False
  let ?L = "qe_view env (q_facts q)" and ?k = "opt_list key" and ?v = "opt_list val"
  let ?R = "nested_rel (qe_inventory env) ?L (q_depth q) (q_expandPids q)"
  let ?refs = "result_refs env (q_traverse q) (q_pid q) ?k ?v"
  let ?more = "allowed_refs (q_depth q) (q_expandPids q) ?refs"
  have "nested_inv ?L ?R (result_roots env q) (q_nested q)" using inv by (simp add: results_inv_def)
  from nested_inv_traverse(1) [OF this, of "q_depth q" "q_expandPids q" ?refs ?more]
  have "nested_inv ?L ?R (result_roots env q \<union> ?more) (nested_traverse (q_depth q) (q_expandPids q) ?refs (q_nested q))" by blast
  from nested_loop_ok [OF known(1) this] obtain n where
    n: "nested_loop (qe_inventory env) ?L (q_depth q) (q_expandPids q) (nested_traverse (q_depth q) (q_expandPids q) ?refs (q_nested q)) = ok n"
      "nested_inv ?L ?R (result_roots env q \<union> ?more) n" "nested_pending n = []" by blast
  let ?q = "q\<lparr>q_results_added := i # q_results_added q, q_results := q_results q @ [(i, q_pid q, ?k, ?v)], q_nested := n\<rparr>"
  have "(case q_traverse q of Some traverse \<Rightarrow> ok (qe_runTraverse env traverse (result_clause key val))
      | None \<Rightarrow> (case lookupPredicate (qe_inventory env) (q_pid q) of None \<Rightarrow> raise (RtsError ''unknown pid'')
          | Some predicate \<Rightarrow> ok (traverser predicate (result_clause key val)))) = ok ?refs"
    using known(2) by (auto simp: result_refs_def result_clause_opt [of key val] split: option.split)
  then have run: "Query_result env i key val q = ok (True, ?q)"
    using False i depth n(1) by (simp add: Query_result_def resultWithPid_def Let_def)
  have "result_roots env ?q = result_roots env q \<union> ?more" by (auto simp: result_roots_def)
  then have "results_inv env ?q" using n(2,3) inv False by (auto simp: results_inv_def)
  then show ?thesis using run by (intro exI [of _ True] exI [of _ ?q]) simp
qed

lemma Query_results_ok:
  assumes "results_inv env q" "q_depth q \<noteq> ResultsOnly" "\<forall>r\<in>set rs. fst r \<noteq> WordId_invalid"
    "\<forall>i t c. factById (qe_view env (q_facts q)) i = Some (t, c) \<longrightarrow> lookupPredicate (qe_inventory env) t \<noteq> None"
    "q_traverse q = None \<longrightarrow> lookupPredicate (qe_inventory env) (q_pid q) \<noteq> None"
  shows "\<exists>q'. rfold (\<lambda>(i, key, val) q. rbind (Query_result env i key val q) (\<lambda>(_, q). ok q)) rs q = ok q' \<and> results_inv env q' \<and>
    set (q_results_added q') = fst ` set rs \<union> set (q_results_added q) \<and>
    q' = q\<lparr>q_results_added := q_results_added q', q_results := q_results q', q_nested := q_nested q'\<rparr>"
  using assms
proof (induction rs arbitrary: q)
  case (Cons r rs)
  obtain i key val where r: "r = (i, key, val)" by (cases r)
  have i: "i \<noteq> WordId_invalid" using Cons.prems(3) by (simp add: r)
  from Query_result_ok [OF Cons.prems(1,2) i Cons.prems(4,5), of key val] obtain b q1 where
    1: "Query_result env i key val q = ok (b, q1)" "results_inv env q1" "set (q_results_added q1) = insert i (set (q_results_added q))"
      "q1 = q\<lparr>q_results_added := q_results_added q1, q_results := q_results q1, q_nested := q_nested q1\<rparr>" by blast
  have same: "q_depth q1 = q_depth q" "q_facts q1 = q_facts q" "q_traverse q1 = q_traverse q" "q_pid q1 = q_pid q"
    by (subst 1(4), simp)+
  have "\<exists>q'. rfold (\<lambda>(i, key, val) q. rbind (Query_result env i key val q) (\<lambda>(_, q). ok q)) rs q1 = ok q' \<and> results_inv env q' \<and>
    set (q_results_added q') = fst ` set rs \<union> set (q_results_added q1) \<and>
    q' = q1\<lparr>q_results_added := q_results_added q', q_results := q_results q', q_nested := q_nested q'\<rparr>"
    by (rule Cons.IH [OF 1(2)]) (use Cons.prems same in simp_all)
  then obtain q2 where 2: "rfold (\<lambda>(i, key, val) q. rbind (Query_result env i key val q) (\<lambda>(_, q). ok q)) rs q1 = ok q2" "results_inv env q2"
    "set (q_results_added q2) = fst ` set rs \<union> set (q_results_added q1)"
    "q2 = q1\<lparr>q_results_added := q_results_added q2, q_results := q_results q2, q_nested := q_nested q2\<rparr>" by blast
  have "q2 = q\<lparr>q_results_added := q_results_added q2, q_results := q_results q2, q_nested := q_nested q2\<rparr>"
    by (subst 2(4), subst 1(4)) simp
  then show ?case using 1 2 r by (intro exI [of _ q2]) simp
qed auto

section \<open>Iterators that are resumed\<close>

lemma drop_strict_sorted:
  assumes "sorted_wrt (\<lambda>x y. f x < f y) zs" "k < length zs"
  shows "drop k zs = filter (\<lambda>z. (f (zs ! k) :: bytes) \<le> f z) zs"
  using assms
proof (induction zs arbitrary: k)
  case (Cons z zs)
  show ?case
  proof (cases k)
    case 0
    then show ?thesis using Cons.prems(1) by (auto simp: filter_id_conv less_imp_le)
  next
    case (Suc j)
    then have "f z < f (zs ! j)" using Cons.prems by auto
    then show ?thesis using Suc Cons by (simp add: not_le)
  qed
qed simp

text \<open>Seeking from a later key with the same prefix gives the rest of the facts.\<close>

lemma facts_prefix_resume:
  assumes ok: "facts_ok fs" and k: "k < length (facts_prefix fs t key (length key))"
  defines "x \<equiv> a_key (facts_prefix fs t key (length key) ! k)"
  shows "facts_prefix fs t x (length key) = drop k (facts_prefix fs t key (length key))" "length key \<le> length x"
proof -
  let ?n = "length key"
  let ?zs = "facts_prefix fs t key ?n"
  let ?P = "\<lambda>f. a_type f = t \<and> key \<le> a_key f \<and> take ?n (a_key f) = take ?n key"
  have zs: "set ?zs = {f \<in> set fs. ?P f}" by (auto simp: facts_prefix_def)
  have x: "key \<le> x" "take ?n x = key" using nth_mem [OF k] unfolding zs x_def by auto
  then show "?n \<le> length x" by (metis length_take min.absorb_iff2 min.commute)
  have d: "distinct (map a_key ?zs)"
  proof -
    have "distinct (map a_key (filter ?P fs))"
      using ok by (auto simp: facts_ok_def distinct_map inj_on_def intro: distinct_filter)
    then show ?thesis unfolding facts_prefix_def by (simp add: distinct_map)
  qed
  have "sorted (map a_key ?zs)" by (simp add: facts_prefix_def)
  then have s: "sorted_wrt (\<lambda>x y. a_key x < a_key y) ?zs" using d by (simp add: strict_sorted_iff flip: sorted_wrt_map)
  have "drop k ?zs = filter (\<lambda>z. x \<le> a_key z) ?zs" using drop_strict_sorted [OF s k] by (simp add: x_def)
  also have "\<dots> = sort_key a_key (filter (\<lambda>z. x \<le> a_key z) (filter ?P fs))" unfolding facts_prefix_def by (rule filter_sort)
  also have "filter (\<lambda>z. x \<le> a_key z) (filter ?P fs) = filter (\<lambda>f. a_type f = t \<and> x \<le> a_key f \<and> take ?n (a_key f) = take ?n x) fs"
    using x by (auto simp: filter_filter intro!: filter_cong)
  finally show "facts_prefix fs t x ?n = drop k ?zs" by (simp add: facts_prefix_def)
qed

definition Iter_items :: "Iter \<Rightarrow> Ref list" where
  "Iter_items it = opt_list (it_iter it)"

text \<open>An iterator of the query: what is left of a seek.\<close>

definition iter_ok :: "Lookup \<Rightarrow> Iter \<Rightarrow> bool" where
  "iter_ok L it \<longleftrightarrow> it_iter it = None \<or>
     (\<exists>key k. length key < 2 ^ 64 \<and> it_type it \<noteq> WordId_invalid \<and> it_prefix_size it = of_nat (length key) \<and>
       it_iter it = Some (drop k (seek L (it_type it) key (length key))))"

text \<open>Two iterators that give the same facts; one that is finished may have been replaced by an empty one.\<close>

definition iter_sim :: "Iter \<Rightarrow> Iter \<Rightarrow> bool" where
  "iter_sim it it' \<longleftrightarrow> map Ref_view (Iter_items it) = map Ref_view (Iter_items it') \<and> refs_valid (Iter_items it) \<and>
     (it_first it = it_first it' \<and> (it_iter it = None \<longrightarrow> it_iter it' = None) \<or> it_iter it' = None)"

lemma Iter_get_items: "Iter_get d it = iter_get d (Iter_items it)"
  by (simp add: Iter_get_def Iter_items_def opt_list_def iter_get_def split: option.split)

lemma restore_save:
  assumes L: "lookup_contract L fs" and it: "iter_ok L it"
  shows "\<exists>it'. restore_iter L (save_iter it) = ok it' \<and> iter_sim it it'"
proof (cases "Iter_items it")
  case Nil
  have "iter_sim it \<lparr>it_iter = None, it_type = WordId_invalid, it_id = WordId_invalid, it_prefix_size = 0, it_first = False\<rparr>"
    by (simp add: iter_sim_def Nil) (simp add: Iter_items_def opt_list_def)
  then show ?thesis
    by (simp add: restore_iter_def save_iter_def Iter_get_items Nil WordId_fromThrift_def WordId_toThrift_def WordId_bool_def WordId_invalid_def)
next
  case (Cons r rs)
  then have "it_iter it \<noteq> None" by (auto simp: Iter_items_def opt_list_def split: option.splits)
  then obtain key k where k: "length key < 2 ^ 64" "it_type it \<noteq> WordId_invalid" "it_prefix_size it = of_nat (length key)"
      "it_iter it = Some (drop k (seek L (it_type it) key (length key)))" using it by (auto simp: iter_ok_def)
  let ?t = "it_type it" and ?n = "length key"
  have items: "Iter_items it = drop k (seek L ?t key ?n)" using k(4) by (simp add: Iter_items_def opt_list_def)
  have kl: "k < length (seek L ?t key ?n)" using Cons items by (metis drop_eq_Nil leI list.distinct(1))
  have r: "r = seek L ?t key ?n ! k" using Cons items kl by (metis Cons_nth_drop_Suc list.inject)
  have view: "map Ref_view (seek L ?t key ?n) = facts_prefix fs ?t key ?n" by (rule lookup_contract.seek [OF L]) simp
  have valid: "refs_valid (seek L ?t key ?n)" by (rule lookup_contract.seek_valid [OF L]) simp
  then have rv: "Ref_bool r" "refs_valid (Iter_items it)" using kl by (auto simp: r items list_all_iff dest: in_set_dropD)
  have kl': "k < length (facts_prefix fs ?t key ?n)" using kl view by (metis length_map)
  have key: "Ref_key r = a_key (facts_prefix fs ?t key ?n ! k)" using kl by (simp add: r Ref_view_def flip: view)
  have fok: "facts_ok fs" using L by (simp add: lookup_contract_def lookup_forward_def lookup_points_def)
  note res = facts_prefix_resume [OF fok kl', folded key]
  let ?s = "seek L ?t (Ref_key r) ?n"
  have view': "map Ref_view ?s = map Ref_view (Iter_items it)"
    using lookup_contract.seek [OF L res(2), of ?t] res(1) view by (simp add: items flip: drop_map)
  then obtain r' rs' where s: "?s = r' # rs'" "Ref_view r' = Ref_view r" using Cons by (cases ?s) auto
  have sv: "refs_valid ?s" by (rule lookup_contract.seek_valid [OF L res(2)])
  then have r': "Ref_bool r'" "Ref_key r' = Ref_key r" using s by (auto simp: Ref_view_def)
  have n: "unat (word_of_int (sint (it_prefix_size it)) :: u64) = ?n" using k(1,3) by (simp add: unat_of_nat_64)
  let ?it = "\<lparr>it_iter = Some ?s, it_type = ?t, it_id = ref_id r', it_prefix_size = word_of_int (sint (it_prefix_size it)), it_first = it_first it\<rparr>"
  have "save_iter it = \<lparr>ki_type = WordId_toThrift ?t, ki_key = Ref_key r, ki_prefix_size = sint (it_prefix_size it), ki_first = it_first it\<rparr>"
    using rv(1) Cons by (simp add: save_iter_def Iter_get_items)
  moreover have "WordId_bool ?t" using k(2) by (simp add: WordId_bool_iff)
  ultimately have "restore_iter L (save_iter it) = ok ?it"
    using n s r' by (simp add: restore_iter_def WordId_fromThrift_def WordId_toThrift_def)
  moreover have "iter_sim it ?it" using view' rv(2) k(4) by (simp add: iter_sim_def) (simp add: Iter_items_def opt_list_def)
  ultimately show ?thesis by blast
qed

text \<open>The calls that read facts, and executors that answer them in the same way.\<close>

fun read_call :: "Call \<Rightarrow> bool" where
  "read_call (ResultCall i key val) = False"
| "read_call (ResultWithPidCall i key val pid rec) = False"
| "read_call (NewDerivedFactCall type key keySize) = False"
| "read_call (SaveStateCall pc frame) = False"
| "read_call c = True"

definition exec_sim :: "'d QueryExecutor \<Rightarrow> 'd QueryExecutor \<Rightarrow> bool" where
  "exec_sim q q' \<longleftrightarrow> q_facts q = q_facts q' \<and> q_outputs q = q_outputs q' \<and> list_all2 iter_sim (q_iters q) (q_iters q')"

text \<open>The clock never passes the time limit, and there is no interrupt.\<close>

definition quiet :: "('d, 'e) QueryEnv \<Rightarrow> 'd QueryExecutor \<Rightarrow> bool" where
  "quiet env q \<longleftrightarrow> (\<forall>n. qe_now env n \<le> q_timeout q) \<and> (\<forall>n. qe_last_interrupt env n \<le> q_start_time q)"

lemma iter_sim_step:
  assumes "iter_sim it it'" "(if it_first it then ok (it\<lparr>it_first := False\<rparr>) else Iter_next it) = ok it1"
  shows "\<exists>it1'. (if it_first it' then ok (it'\<lparr>it_first := False\<rparr>) else Iter_next it') = ok it1' \<and> iter_sim it1 it1'"
proof (cases "it_iter it'")
  case None
  then have e: "Iter_items it' = []" "Iter_items it = []" using assms(1) by (auto simp: iter_sim_def Iter_items_def opt_list_def)
  then have "Iter_items it1 = []"
    using assms(2) by (auto simp: Iter_next_def Iter_items_def opt_list_def iter_next_def split: if_splits option.splits list.splits)
  then show ?thesis using None e by (auto simp: Iter_next_def iter_sim_def Iter_items_def opt_list_def)
next
  case (Some rs')
  then have f: "it_first it' = it_first it" "it_iter it \<noteq> None" using assms(1) by (auto simp: iter_sim_def)
  then obtain rs where rs: "it_iter it = Some rs" by blast
  have v: "map Ref_view rs = map Ref_view rs'" "refs_valid rs" using assms(1) Some rs by (auto simp: iter_sim_def Iter_items_def opt_list_def)
  show ?thesis
  proof (cases "it_first it")
    case True
    then show ?thesis using assms f rs Some v by (auto simp: iter_sim_def Iter_items_def opt_list_def)
  next
    case False
    then obtain r ts where r: "rs = r # ts" "it1 = it\<lparr>it_iter := Some ts\<rparr>"
      using assms(2) rs by (auto simp: Iter_next_def iter_next_def split: list.splits)
    then obtain r' ts' where r': "rs' = r' # ts'" "map Ref_view ts = map Ref_view ts'" using v(1) by (cases rs') auto
    then show ?thesis using False f rs Some r v(2) by (auto simp: Iter_next_def iter_next_def iter_sim_def Iter_items_def opt_list_def)
  qed
qed

lemma iter_sim_get:
  assumes "iter_sim it it'"
  shows "Ref_view (Iter_get d it) = Ref_view (Iter_get d it')"
proof -
  have "map Ref_view (Iter_items it) = map Ref_view (Iter_items it')" using assms by (simp add: iter_sim_def)
  then show ?thesis unfolding Iter_get_items by (cases "Iter_items it"; cases "Iter_items it'") auto
qed

lemma iter_sim_id: "iter_sim it it' \<Longrightarrow> iter_sim (it\<lparr>it_id := i\<rparr>) (it'\<lparr>it_id := j\<rparr>)"
  by (simp add: iter_sim_def Iter_items_def)

lemma Query_next_run:
  assumes "q_iters q \<noteq> []" "token = length (q_iters q) - 1"
    "(if it_first (q_iters q ! token) then ok ((q_iters q ! token)\<lparr>it_first := False\<rparr>) else Iter_next (q_iters q ! token)) = ok it1"
  shows "\<exists>q1 i. Query_next token d q = ok (Iter_get d it1, q1) \<and> q_iters q1 = (q_iters q)[token := it1\<lparr>it_id := i\<rparr>] \<and> q_facts q1 = q_facts q \<and>
    q_outputs q1 = q_outputs q \<and> q_timeout q1 = q_timeout q \<and> q_start_time q1 = q_start_time q"
proof -
  have run: "Query_next token d q =
      (if Ref_bool (Iter_get d it1) then
         ok (Iter_get d it1, q\<lparr>q_iters := (q_iters q)[token := it1\<lparr>it_id := ref_id (Iter_get d it1)\<rparr>],
           q_stats := (if q_wantStats q
             then (q_stats q)(it_type it1 \<mapsto> (case q_stats q (it_type it1) of None \<Rightarrow> 0 | Some n \<Rightarrow> n) + 1) else q_stats q)\<rparr>)
       else ok (Iter_get d it1, q\<lparr>q_iters := (q_iters q)[token := it1]\<rparr>))"
    unfolding Query_next_def Let_def assms(3) using assms(1,2) by simp
  show ?thesis
  proof (cases "Ref_bool (Iter_get d it1)")
    case False
    then show ?thesis unfolding run by (intro exI [of _ "q\<lparr>q_iters := (q_iters q)[token := it1]\<rparr>"] exI [of _ "it_id it1"]) simp
  qed (auto simp: run)
qed

lemma Query_next_inv:
  assumes "Query_next token d q = ok (res, q1)"
  shows "\<exists>it1. q_iters q \<noteq> [] \<and> token = length (q_iters q) - 1 \<and>
    (if it_first (q_iters q ! token) then ok ((q_iters q ! token)\<lparr>it_first := False\<rparr>) else Iter_next (q_iters q ! token)) = ok it1"
  using assms unfolding Query_next_def Let_def by (auto simp del: One_nat_def)

lemma Query_next_sim:
  assumes q: "exec_sim q q'" and run: "Query_next token d q = ok (res, q1)"
  shows "\<exists>res' q1'. Query_next token d q' = ok (res', q1') \<and> Ref_view res' = Ref_view res \<and> exec_sim q1 q1' \<and>
    q_timeout q1 = q_timeout q \<and> q_start_time q1 = q_start_time q \<and> q_timeout q1' = q_timeout q' \<and> q_start_time q1' = q_start_time q'"
proof -
  have sim: "list_all2 iter_sim (q_iters q) (q_iters q')" using q by (simp add: exec_sim_def)
  note l = list_all2_lengthD [OF sim]
  obtain it1 where it1: "q_iters q \<noteq> []" "token = length (q_iters q) - 1"
    "(if it_first (q_iters q ! token) then ok ((q_iters q ! token)\<lparr>it_first := False\<rparr>) else Iter_next (q_iters q ! token)) = ok it1"
    using Query_next_inv [OF run] by blast
  have t: "token < length (q_iters q)" using it1(1,2) by (simp flip: length_greater_0_conv)
  have t': "q_iters q' \<noteq> []" "token = length (q_iters q') - 1" using it1(1,2) l by auto
  obtain it1' where it1': "(if it_first (q_iters q' ! token) then ok ((q_iters q' ! token)\<lparr>it_first := False\<rparr>) else Iter_next (q_iters q' ! token)) = ok it1'"
    "iter_sim it1 it1'" using iter_sim_step [OF list_all2_nthD [OF sim t] it1(3)] by blast
  obtain q2 i where 2: "Query_next token d q = ok (Iter_get d it1, q2)" "q_iters q2 = (q_iters q)[token := it1\<lparr>it_id := i\<rparr>]" "q_facts q2 = q_facts q"
    "q_outputs q2 = q_outputs q" "q_timeout q2 = q_timeout q" "q_start_time q2 = q_start_time q" using Query_next_run [OF it1] by blast
  obtain q2' i' where qq: "Query_next token d q' = ok (Iter_get d it1', q2')" "q_iters q2' = (q_iters q')[token := it1'\<lparr>it_id := i'\<rparr>]" "q_facts q2' = q_facts q'"
    "q_outputs q2' = q_outputs q'" "q_timeout q2' = q_timeout q'" "q_start_time q2' = q_start_time q'" using Query_next_run [OF t' it1'(1)] by blast
  have "exec_sim q2 q2'"
    using q list_all2_update_cong [OF sim iter_sim_id [OF it1'(2)]] unfolding exec_sim_def 2 qq by simp
  then show ?thesis using run 2 qq iter_sim_get [OF it1'(2), of d] by simp
qed

lemma next_call_quiet:
  assumes "quiet env q"
  shows "\<exists>n. next_call env token d q = rbind (Query_next token d (q\<lparr>q_check_timeout := n, q_ticks := Suc (q_ticks q)\<rparr>)) (\<lambda>(res, q).
    ok (if Ref_bool res then NextFact (ref_id res) (Ref_key res) (Ref_value res) else NextDone, q))"
proof -
  have "\<exists>n. timeExpired env q = (False, q\<lparr>q_check_timeout := n\<rparr>)"
    using assms by (auto simp: timeExpired_def Let_def quiet_def not_less [symmetric])
  then obtain n where n: "timeExpired env q = (False, q\<lparr>q_check_timeout := n\<rparr>)" by blast
  have "\<not> interrupted env (q\<lparr>q_check_timeout := n\<rparr>)" using assms by (auto simp: interrupted_def quiet_def not_less)
  then show ?thesis using n by (intro exI [of _ n]) (simp add: next_call_def Let_def)
qed

lemma endSeek_take: "endSeek_loop token xs = take token xs"
proof (induction token xs rule: endSeek_loop.induct)
  case (1 token xs)
  then show ?case by (subst endSeek_loop.simps) (simp add: take_butlast)
qed

lemma Query_call_sim:
  assumes q: "exec_sim q q'" and quiet: "quiet env q" "quiet env' q'" and view: "qe_view env' = qe_view env"
    and L: "lookup_contract (qe_view env (q_facts q)) fs" and c: "read_call c" and run: "Query_call env c q = ok (a, q1)"
  shows "\<exists>q1'. Query_call env' c q' = ok (a, q1') \<and> exec_sim q1 q1' \<and> quiet env q1 \<and> quiet env' q1'"
proof (cases c)
  case (SeekCall type key)
  have l: "length (q_iters q') = length (q_iters q)" using q list_all2_lengthD by (fastforce simp: exec_sim_def)
  have "refs_valid (seek (qe_view env (q_facts q)) type key (length key))" by (rule lookup_contract.seek_valid [OF L]) simp
  then have "iter_sim x x" if "it_iter x = Some (seek (qe_view env (q_facts q)) type key (length key))" for x
    using that by (simp add: iter_sim_def Iter_items_def opt_list_def)
  then show ?thesis using q quiet run l
    by (auto simp: SeekCall Query_seek_def exec_sim_def view quiet_def list_all2_appendI)
next
  case CurrentSeekCall
  then show ?thesis using q quiet run list_all2_lengthD by (fastforce simp: currentSeek_def exec_sim_def)
next
  case (EndSeekCall token)
  then show ?thesis using q quiet run by (auto simp: endSeek_def endSeek_take exec_sim_def quiet_def)
next
  case (NextCall token d)
  obtain n where n: "next_call env token d q = rbind (Query_next token d (q\<lparr>q_check_timeout := n, q_ticks := Suc (q_ticks q)\<rparr>)) (\<lambda>(res, q).
    ok (if Ref_bool res then NextFact (ref_id res) (Ref_key res) (Ref_value res) else NextDone, q))" using next_call_quiet [OF quiet(1)] by blast
  obtain n' where n': "next_call env' token d q' = rbind (Query_next token d (q'\<lparr>q_check_timeout := n', q_ticks := Suc (q_ticks q')\<rparr>)) (\<lambda>(res, q).
    ok (if Ref_bool res then NextFact (ref_id res) (Ref_key res) (Ref_value res) else NextDone, q))" using next_call_quiet [OF quiet(2)] by blast
  have sim: "exec_sim (q\<lparr>q_check_timeout := n, q_ticks := Suc (q_ticks q)\<rparr>) (q'\<lparr>q_check_timeout := n', q_ticks := Suc (q_ticks q')\<rparr>)"
    using q by (simp add: exec_sim_def)
  obtain res where res: "Query_next token d (q\<lparr>q_check_timeout := n, q_ticks := Suc (q_ticks q)\<rparr>) = ok (res, q1)"
    "a = (if Ref_bool res then NextFact (ref_id res) (Ref_key res) (Ref_value res) else NextDone)"
    using run by (auto simp: NextCall n)
  from Query_next_sim [OF sim res(1)] obtain res' q1' where
    1: "Query_next token d (q'\<lparr>q_check_timeout := n', q_ticks := Suc (q_ticks q')\<rparr>) = ok (res', q1')" "Ref_view res' = Ref_view res" "exec_sim q1 q1'"
      "q_timeout q1 = q_timeout q" "q_start_time q1 = q_start_time q" "q_timeout q1' = q_timeout q'" "q_start_time q1' = q_start_time q'" by auto
  have "Ref_bool res' = Ref_bool res" "ref_id res' = ref_id res" "Ref_key res' = Ref_key res" "Ref_value res' = Ref_value res"
    using 1(2) by (simp_all add: Ref_view_def Ref_bool_def)
  then show ?thesis using 1 res(2) quiet by (simp add: NextCall n' quiet_def)
next
  case (LookupCall fid kout vout)
  then show ?thesis using q quiet run
    by (auto simp: lookupKeyValue_def exec_sim_def view quiet_def put_output_def split: option.splits)
next
  case (OutputCall i bs)
  then show ?thesis using q quiet run by (auto simp: put_output_def exec_sim_def quiet_def)
qed (use c in auto)

fun run_calls :: "('d, 'e) QueryEnv \<Rightarrow> Call list \<Rightarrow> 'd QueryExecutor \<Rightarrow> (Answer list \<times> 'd QueryExecutor) result" where
  "run_calls env [] q = ok ([], q)"
| "run_calls env (c # cs) q =
     rbind (Query_call env c q) (\<lambda>(a, q). rbind (run_calls env cs q) (\<lambda>(as, q). ok (a # as, q)))"

lemma Query_next_kept:
  assumes "Query_next token d q = ok (res, q1)"
  shows "\<exists>it1 i. q_facts q1 = q_facts q \<and> q_outputs q1 = q_outputs q \<and> token < length (q_iters q) \<and> q_iters q1 = (q_iters q)[token := it1\<lparr>it_id := i\<rparr>] \<and>
    (if it_first (q_iters q ! token) then ok ((q_iters q ! token)\<lparr>it_first := False\<rparr>) else Iter_next (q_iters q ! token)) = ok it1"
proof -
  obtain it1 where it1: "q_iters q \<noteq> []" "token = length (q_iters q) - 1"
    "(if it_first (q_iters q ! token) then ok ((q_iters q ! token)\<lparr>it_first := False\<rparr>) else Iter_next (q_iters q ! token)) = ok it1"
    using Query_next_inv [OF assms] by blast
  have "token < length (q_iters q)" using it1(1,2) by (simp flip: length_greater_0_conv)
  then show ?thesis using Query_next_run [OF it1, of d] it1(3) assms by auto
qed

lemma next_call_cases:
  assumes "next_call env token d q = ok (a, q1)"
  obtains (stop) n where "q1 = q\<lparr>q_check_timeout := n, q_ticks := Suc (q_ticks q)\<rparr>"
    | (advance) n res where "Query_next token d (q\<lparr>q_check_timeout := n, q_ticks := Suc (q_ticks q)\<rparr>) = ok (res, q1)"
proof -
  have "\<exists>n. snd (timeExpired env q) = q\<lparr>q_check_timeout := n\<rparr>" by (auto simp: timeExpired_def Let_def)
  then obtain b n where b: "timeExpired env q = (b, q\<lparr>q_check_timeout := n\<rparr>)" by (metis prod.collapse)
  show ?thesis
  proof (cases "b \<or> interrupted env (q\<lparr>q_check_timeout := n\<rparr>)")
    case True
    then show ?thesis using assms b by (intro stop [of n]) (auto simp: next_call_def Let_def split: if_splits)
  next
    case False
    then obtain res where "Query_next token d (q\<lparr>q_check_timeout := n, q_ticks := Suc (q_ticks q)\<rparr>) = ok (res, q1)"
      using assms b by (auto simp: next_call_def Let_def)
    then show ?thesis by (rule advance)
  qed
qed

lemma read_call_facts:
  assumes "read_call c" "Query_call env c q = ok (a, q1)"
  shows "q_facts q1 = q_facts q"
proof (cases c)
  case (NextCall token d)
  then have "next_call env token d q = ok (a, q1)" using assms(2) by simp
  then show ?thesis by (cases rule: next_call_cases) (auto dest: Query_next_kept)
qed (use assms in \<open>auto simp: Query_seek_def endSeek_def lookupKeyValue_def put_output_def split: option.splits\<close>)

lemma run_calls_sim:
  assumes "exec_sim q q'" "quiet env q" "quiet env' q'" "qe_view env' = qe_view env" "lookup_contract (qe_view env (q_facts q)) fs"
    "\<forall>c\<in>set cs. read_call c" "run_calls env cs q = ok (as, q1)"
  shows "\<exists>q1'. run_calls env' cs q' = ok (as, q1')"
  using assms
proof (induction cs arbitrary: q q' as)
  case (Cons c cs)
  obtain a q2 bs where 1: "Query_call env c q = ok (a, q2)" "run_calls env cs q2 = ok (bs, q1)" "as = a # bs" using Cons.prems(7) by auto
  have c: "read_call c" using Cons.prems(6) by simp
  obtain q2' where 2: "Query_call env' c q' = ok (a, q2')" "exec_sim q2 q2'" "quiet env q2" "quiet env' q2'"
    using Query_call_sim [OF Cons.prems(1-5) c 1(1)] by blast
  have "lookup_contract (qe_view env (q_facts q2)) fs" using Cons.prems(5) read_call_facts [OF c 1(1)] by simp
  from Cons.IH [OF 2(2-4) Cons.prems(4) this _ 1(2)] Cons.prems(6) obtain q1' where "run_calls env' cs q2' = ok (bs, q1')" by auto
  then show ?case using 1(3) 2(1) by auto
qed auto

section \<open>Iterators of a running query\<close>

fun call_ok :: "Call \<Rightarrow> bool" where
  "call_ok (SeekCall type key) \<longleftrightarrow> type \<noteq> WordId_invalid \<and> length key < 2 ^ 64"
| "call_ok (NewDerivedFactCall type key keySize) \<longleftrightarrow> False"
| "call_ok c \<longleftrightarrow> True"

definition iters_ok :: "('d, 'e) QueryEnv \<Rightarrow> 'd QueryExecutor \<Rightarrow> bool" where
  "iters_ok env q \<longleftrightarrow> (\<forall>it\<in>set (q_iters q). iter_ok (qe_view env (q_facts q)) it)"

lemma iter_ok_step:
  assumes "iter_ok L it" "(if it_first it then ok (it\<lparr>it_first := False\<rparr>) else Iter_next it) = ok it1"
  shows "iter_ok L (it1\<lparr>it_id := i\<rparr>)"
proof (cases "it_first it \<or> it_iter it = None")
  case True
  then have "it_iter it1 = it_iter it \<and> it_type it1 = it_type it \<and> it_prefix_size it1 = it_prefix_size it"
    using assms(2) by (auto simp: Iter_next_def split: if_splits)
  then show ?thesis using assms(1) by (simp add: iter_ok_def)
next
  case False
  then obtain key k where k: "length key < 2 ^ 64" "it_type it \<noteq> WordId_invalid" "it_prefix_size it = of_nat (length key)"
      "it_iter it = Some (drop k (seek L (it_type it) key (length key)))" using assms(1) by (auto simp: iter_ok_def)
  then obtain r where "drop k (seek L (it_type it) key (length key)) = r # tl (drop k (seek L (it_type it) key (length key)))"
      "it1 = it\<lparr>it_iter := Some (tl (drop k (seek L (it_type it) key (length key))))\<rparr>"
    using assms(2) False by (auto simp: Iter_next_def iter_next_def split: list.splits)
  then have "it_iter it1 = Some (drop (Suc k) (seek L (it_type it) key (length key)))" "it_type it1 = it_type it" "it_prefix_size it1 = it_prefix_size it"
    by (simp_all add: drop_Suc drop_tl)
  then show ?thesis using k by (auto simp: iter_ok_def)
qed

lemma result_keeps: "resultWithPid env i key val pid rec q = ok q' \<Longrightarrow> q_iters q' = q_iters q \<and> q_facts q' = q_facts q \<and> q_outputs q' = q_outputs q"
  by (auto simp: resultWithPid_def Let_def split: if_splits option.splits)

lemma Query_call_iters:
  assumes q: "iters_ok env q" and c: "call_ok c" and run: "Query_call env c q = ok (a, q1)"
  shows "iters_ok env q1 \<and> q_facts q1 = q_facts q \<and> length (q_outputs q1) = length (q_outputs q)"
proof (cases c)
  case (SeekCall type key)
  have "iter_ok (qe_view env (q_facts q)) \<lparr>it_iter = Some (seek (qe_view env (q_facts q)) type key (length key)), it_type = type,
      it_id = WordId_invalid, it_prefix_size = of_nat (length key), it_first = True\<rparr>"
    unfolding iter_ok_def using c by (intro disjI2 exI [of _ key] exI [of _ 0]) (simp add: SeekCall)
  then show ?thesis using q run by (auto simp: SeekCall Query_seek_def iters_ok_def)
next
  case (EndSeekCall token)
  then show ?thesis using q run set_take_subset [of token "q_iters q"] by (auto simp: endSeek_def endSeek_take iters_ok_def)
next
  case (NextCall token d)
  then have "next_call env token d q = ok (a, q1)" using run by simp
  then show ?thesis
  proof (cases rule: next_call_cases)
    case (stop n)
    then show ?thesis using q by (simp add: iters_ok_def)
  next
    case (advance n res)
    have eqs: "q_iters (q\<lparr>q_check_timeout := n, q_ticks := Suc (q_ticks q)\<rparr>) = q_iters q"
      "q_facts (q\<lparr>q_check_timeout := n, q_ticks := Suc (q_ticks q)\<rparr>) = q_facts q"
      "q_outputs (q\<lparr>q_check_timeout := n, q_ticks := Suc (q_ticks q)\<rparr>) = q_outputs q" by simp_all
    obtain it1 i where
      1: "q_facts q1 = q_facts q" "q_outputs q1 = q_outputs q" "token < length (q_iters q)" "q_iters q1 = (q_iters q)[token := it1\<lparr>it_id := i\<rparr>]"
      "(if it_first (q_iters q ! token) then ok ((q_iters q ! token)\<lparr>it_first := False\<rparr>) else Iter_next (q_iters q ! token)) = ok it1"
      using Query_next_kept [OF advance, unfolded eqs] by blast
    have "iter_ok (qe_view env (q_facts q)) (it1\<lparr>it_id := i\<rparr>)"
      by (rule iter_ok_step [OF _ 1(5)]) (use q 1(3) in \<open>simp add: iters_ok_def\<close>)
    then show ?thesis using q 1(1,2,4) set_update_subset_insert by (fastforce simp: iters_ok_def)
  qed
next
  case (ResultCall i key val)
  then show ?thesis using q run result_keeps by (fastforce simp: Query_result_def iters_ok_def split: if_splits)
next
  case (ResultWithPidCall i key val pid rec)
  then show ?thesis using q run result_keeps by (fastforce simp: iters_ok_def)
qed (use q c run in \<open>auto simp: iters_ok_def lookupKeyValue_def put_output_def saveState_def Let_def split: option.splits\<close>)

lemma run_calls_iters:
  assumes "iters_ok env q" "\<forall>c\<in>set cs. call_ok c" "run_calls env cs q = ok (as, q1)"
  shows "iters_ok env q1 \<and> q_facts q1 = q_facts q \<and> length (q_outputs q1) = length (q_outputs q)"
  using assms
proof (induction cs arbitrary: q as)
  case (Cons c cs)
  obtain a q2 bs where 1: "Query_call env c q = ok (a, q2)" "run_calls env cs q2 = ok (bs, q1)" using Cons.prems(3) by auto
  have c: "call_ok c" using Cons.prems(2) by simp
  note k = Query_call_iters [OF Cons.prems(1) c 1(1)]
  show ?case using Cons.IH [of q2 bs] k 1(2) Cons.prems(2) by simp
qed auto

section \<open>Saving and restoring\<close>

lemma Subroutine_roundtrip [simp]: "Subroutine_fromThrift (Subroutine_toThrift s) = s"
  by (simp add: Subroutine_fromThrift_def Subroutine_toThrift_def comp_def)

lemma saved_code: "words_of (length (concat (map storeLE (xs :: u64 list))) div 8) (concat (map storeLE xs)) = xs"
proof -
  have "length (concat (map storeLE xs)) = 8 * length xs" for xs :: "u64 list" by (induction xs) simp_all
  then show ?thesis using words_of_append [of xs "[]"] by simp
qed

lemma restore_iters:
  assumes "lookup_contract L fs" "\<forall>it\<in>set iters. iter_ok L it"
  shows "\<exists>iters'. rmap (restore_iter L) (map save_iter iters) = ok iters' \<and> list_all2 iter_sim iters iters'"
  using assms(2)
proof (induction iters)
  case (Cons it iters)
  obtain it' where "restore_iter L (save_iter it) = ok it'" "iter_sim it it'" using restore_save [OF assms(1)] Cons.prems by auto
  then show ?case using Cons by auto
qed simp

text \<open>What the continuation of a suspended query holds, and that it can be restored.\<close>

lemma restore_saved:
  assumes L: "lookup_contract (qe_view env (q_facts q)) fs" and it: "iters_ok env q" and out: "length (q_outputs q) = unat (sub_outputs (qe_sub env))"
    and save: "saveState env pc frame q = ok qs" "q_queryCont qs = Some c"
    and env': "qe_view env' = qe_view env" "qe_sub env' = restart_sub c"
    and q1: "q_facts q1 = q_facts q" "q_outputs q1 = replicate (unat (sub_outputs (qe_sub env'))) []"
  shows "restart_sub c = (qe_sub env)\<lparr>sub_constants := []\<rparr>"
    "\<exists>q'. Query_restore env' c q1 = ok q' \<and> exec_sim qs q' \<and> q_timeout q' = q_timeout q1 \<and> q_start_time q' = q_start_time q1"
    "map word_of_int (ss_locals (qc_sub c)) = take (unat (sub_locals (qe_sub env))) (drop (unat (sub_inputs (qe_sub env))) frame)"
    "word_of_int (ss_entry (qc_sub c)) = pc" "WordId_fromThrift (qc_pid c) = q_pid q" "map_option Subroutine_fromThrift (qc_traverse c) = q_traverse q"
proof -
  let ?sub = "qe_sub env"
  have len: "unat (sub_inputs ?sub) + unat (sub_locals ?sub) \<le> length frame" using save(1) by (auto simp: saveState_def Let_def)
  have c: "c = \<lparr>qc_iters = map save_iter (q_iters q), qc_outputs = q_outputs q,
         qc_sub = \<lparr>ss_code = concat (map storeLE (sub_code ?sub)), ss_entry = sint pc, ss_inputs = sint (sub_inputs ?sub),
           ss_locals = map sint (take (unat (sub_locals ?sub)) (drop (unat (sub_inputs ?sub)) frame)), ss_literals = sub_literals ?sub\<rparr>,
         qc_pid = WordId_toThrift (q_pid q), qc_traverse = map_option Subroutine_toThrift (q_traverse q)\<rparr>"
    and qs: "qs = q\<lparr>q_queryCont := Some c\<rparr>" using save by (auto simp: saveState_def Let_def)
  have locals: "length (take (unat (sub_locals ?sub)) (drop (unat (sub_inputs ?sub)) frame)) = unat (sub_locals ?sub)" using len by simp
  have "(of_nat (length (q_outputs q)) :: u64) = sub_outputs ?sub" "(of_nat (unat (sub_locals ?sub)) :: u64) = sub_locals ?sub"
    unfolding out by simp_all
  then show sub: "restart_sub c = ?sub\<lparr>sub_constants := []\<rparr>"
    using locals by (simp add: restart_sub_def c saved_code)
  show "map word_of_int (ss_locals (qc_sub c)) = take (unat (sub_locals ?sub)) (drop (unat (sub_inputs ?sub)) frame)"
    "word_of_int (ss_entry (qc_sub c)) = pc" "WordId_fromThrift (qc_pid c) = q_pid q" "map_option Subroutine_fromThrift (qc_traverse c) = q_traverse q"
    by (simp_all add: c comp_def WordId_fromThrift_def WordId_toThrift_def option.map_comp option.map_ident)
  obtain iters' where iters': "rmap (restore_iter (qe_view env (q_facts q))) (map save_iter (q_iters q)) = ok iters'" "list_all2 iter_sim (q_iters q) iters'"
    using restore_iters [OF L] it by (auto simp: iters_ok_def)
  have o1: "q_outputs q1 = replicate (length (q_outputs q)) []" using q1(2) env'(2) sub out by simp
  then have "map (\<lambda>i. q_outputs q1 ! i @ qc_outputs c ! i) [0..<length (q_outputs q1)] = q_outputs q"
    by (intro nth_equalityI) (simp_all add: c)
  then have "Query_restore env' c q1 = ok (q1\<lparr>q_iters := iters', q_outputs := q_outputs q\<rparr>)"
    using iters'(1) o1 by (simp add: Query_restore_def env'(1) q1(1)) (simp add: c)
  then show "\<exists>q'. Query_restore env' c q1 = ok q' \<and> exec_sim qs q' \<and> q_timeout q' = q_timeout q1 \<and> q_start_time q' = q_start_time q1"
    using iters'(2) q1(1) by (simp add: exec_sim_def qs)
qed

section \<open>Properties\<close>

text \<open>
  C7. A query returns with its results exactly the facts they refer to. For every sequence of calls that record a
  result with expansion, the calls return (the search for nested facts ends although facts may refer to each
  other in cycles), every result id occurs once, and the nested facts are, each once with its predicate, key and
  value, the existing facts that can be reached from the references of the results through references of facts,
  following only references to the predicates that are to be expanded.
\<close>

theorem query_results_closed:
  assumes "\<forall>i t c. factById (qe_view env facts) i = Some (t, c) \<longrightarrow> lookupPredicate (qe_inventory env) t \<noteq> None"
    "traverse = None \<longrightarrow> lookupPredicate (qe_inventory env) pid \<noteq> None" "depth \<noteq> ResultsOnly" "\<forall>r\<in>set rs. fst r \<noteq> WordId_invalid"
  shows "\<exists>q. rfold (\<lambda>(i, key, val) q. rbind (Query_result env i key val q) (\<lambda>(_, q). ok q)) rs
      (QueryExecutor_new env facts ownership pid traverse maxTime depth pids wantStats now) = ok q \<and>
    (let res = Query_finish q in
     distinct (map fst (qr_facts res)) \<and> fst ` set (qr_facts res) = fst ` set rs \<and>
     distinct (map fst (qr_nested_facts res)) \<and>
     fst ` set (qr_nested_facts res) =
       {j. factById (qe_view env facts) j \<noteq> None \<and>
         (\<exists>(i, t, k, v)\<in>set (qr_facts res). \<exists>r\<in>allowed_refs depth pids (result_refs env traverse t k v).
           (r, j) \<in> (nested_rel (qe_inventory env) (qe_view env facts) depth pids)\<^sup>*)} \<and>
     (\<forall>(i, t, k, v)\<in>set (qr_nested_facts res). \<exists>c. factById (qe_view env facts) i = Some (t, c) \<and> k = Clause_key c \<and> v = Clause_value c))"
proof -
  let ?q0 = "QueryExecutor_new env facts ownership pid traverse maxTime depth pids wantStats now"
  let ?R = "nested_rel (qe_inventory env) (qe_view env facts) depth pids"
  have inv: "results_inv env ?q0"
    by (simp add: results_inv_def QueryExecutor_new_def result_roots_def nested_inv_new)
  from Query_results_ok [OF inv, of rs] assms obtain q where
    q: "rfold (\<lambda>(i, key, val) q. rbind (Query_result env i key val q) (\<lambda>(_, q). ok q)) rs ?q0 = ok q" "results_inv env q"
      "set (q_results_added q) = fst ` set rs \<union> set (q_results_added ?q0)"
      "q = ?q0\<lparr>q_results_added := q_results_added q, q_results := q_results q, q_nested := q_nested q\<rparr>"
    by (auto simp: QueryExecutor_new_def)
  have same: "q_facts q = facts" "q_depth q = depth" "q_expandPids q = pids" "q_traverse q = traverse"
    by (subst q(4), simp add: QueryExecutor_new_def)+
  have n: "nested_inv (qe_view env facts) ?R (result_roots env q) (q_nested q)" "nested_pending (q_nested q) = []"
    using q(2) by (simp_all add: results_inv_def same)
  note d = nested_invD [OF n(1)]
  have "fst ` set (nested_facts (q_nested q)) = {j \<in> ?R\<^sup>* `` result_roots env q. factById (qe_view env facts) j \<noteq> None}"
    using d(7) n(2) nested_inv_done [OF n] by simp
  also have "\<dots> = {j. factById (qe_view env facts) j \<noteq> None \<and>
      (\<exists>(i, t, k, v)\<in>set (q_results q). \<exists>r\<in>allowed_refs depth pids (result_refs env traverse t k v). (r, j) \<in> ?R\<^sup>*)}"
    by (fastforce simp: result_roots_def same)
  finally have "fst ` set (nested_facts (q_nested q)) = {j. factById (qe_view env facts) j \<noteq> None \<and>
      (\<exists>(i, t, k, v)\<in>set (q_results q). \<exists>r\<in>allowed_refs depth pids (result_refs env traverse t k v). (r, j) \<in> ?R\<^sup>*)}" .
  moreover have "fst ` set (q_results q) = fst ` set rs" "distinct (map fst (q_results q))"
    using q(2,3) by (simp_all add: results_inv_def QueryExecutor_new_def)
  moreover have "\<forall>(i, t, k, v)\<in>set (nested_facts (q_nested q)). \<exists>c. factById (qe_view env facts) i = Some (t, c) \<and> k = Clause_key c \<and> v = Clause_value c"
    using d(8) by (auto simp: entry_ok_def)
  ultimately show ?thesis using q(1) d(6) by (simp add: Query_finish_def Let_def)
qed

definition query_env :: "(FactSet, OwnerSet) QueryEnv" where
  "query_env =
     \<lparr>qe_inventory = own_inventory, qe_view = FactSet_lookup, qe_define = FactSet_define, qe_ownership = derived_ownership,
      qe_sub = \<lparr>sub_code = [1, 2], sub_inputs = 12, sub_outputs = 1, sub_locals = 1, sub_constants = [5], sub_literals = []\<rparr>,
      qe_runTraverse = (\<lambda>_ _. []), qe_now = (\<lambda>_. 0), qe_last_interrupt = (\<lambda>_. 0)\<rparr>"

lemma sample_contract: "lookup_contract (FactSet_lookup sample_set) (FactSet_facts sample_set)"
  by (rule FactSet_contract [OF FactSet_reach_ok [OF sample_set_reach]])

lemma sample_known: "factById (FactSet_lookup sample_set) i = Some (t, c) \<Longrightarrow> lookupPredicate own_inventory t \<noteq> None"
proof -
  assume f: "factById (FactSet_lookup sample_set) i = Some (t, c)"
  have p: "lookup_points (FactSet_lookup sample_set) (FactSet_facts sample_set)"
    using sample_contract by (simp add: lookup_contract_def lookup_forward_def)
  obtain a where "facts_by_id (FactSet_facts sample_set) i = Some a" "a_type a = t"
    using lookup_points.factById [OF p, of i] f
    by (cases "facts_by_id (FactSet_facts sample_set) i") (auto simp: clause_view_def afact_view_def)
  then have "t \<in> a_type ` set (FactSet_facts sample_set)"
    using facts_by_id_Some [OF lookup_points.facts_ok [OF p]] by blast
  then show ?thesis by (auto simp: sample_set_facts own_predicates)
qed

theorem query_results_closed_witness:
  "\<exists>q. rfold (\<lambda>(i, key, val) q. rbind (Query_result query_env i key val q) (\<lambda>(_, q). ok q)) [(1026, Some [1, 1], None), (1026, Some [1, 1], None)]
      (QueryExecutor_new query_env sample_set None 7 None None ExpandRecursive [] False 0) = ok q \<and>
    fst ` set (qr_facts (Query_finish q)) = {1026} \<and> distinct (map fst (qr_nested_facts (Query_finish q)))"
proof -
  have k: "\<forall>i t c. factById (qe_view query_env sample_set) i = Some (t, c) \<longrightarrow> lookupPredicate (qe_inventory query_env) t \<noteq> None"
    using sample_known by (auto simp: query_env_def)
  have p: "None = None \<longrightarrow> lookupPredicate (qe_inventory query_env) 7 \<noteq> None" by (simp add: query_env_def own_predicates)
  from query_results_closed [OF k p, of ExpandRecursive "[(1026, Some [1, 1], None), (1026, Some [1, 1], None)]" None None "[]" False 0]
  show ?thesis unfolding Let_def by (auto simp: WordId_invalid_def)
qed

text \<open>
  C8. A suspended query goes on where it stopped. After any calls that do not define facts, saving the state
  succeeds, and the continuation holds the code, the entry, the locals, the predicate and the traversal of the query.
  Restarting from it, with other limits and another time, restores the iterators, and every later sequence of
  calls that read facts is answered as the suspended executor would have answered it, unless one of them is
  stopped by the clock or an interrupt.
\<close>

theorem query_restart_resumes:
  assumes "lookup_contract (qe_view env facts) fs" "\<forall>c\<in>set cs. call_ok c"
    "run_calls env cs (QueryExecutor_new env facts ownership pid traverse maxTime depth pids wantStats now) = ok (as, q)"
    "unat (sub_inputs (qe_sub env)) + unat (sub_locals (qe_sub env)) \<le> length frame" "qe_view env' = qe_view env"
  shows "\<exists>qs c. saveState env pc frame q = ok qs \<and> q_queryCont qs = Some c \<and>
    restart_sub c = (qe_sub env)\<lparr>sub_constants := []\<rparr> \<and> word_of_int (ss_entry (qc_sub c)) = pc \<and>
    map word_of_int (ss_locals (qc_sub c)) = take (unat (sub_locals (qe_sub env))) (drop (unat (sub_inputs (qe_sub env))) frame) \<and>
    WordId_fromThrift (qc_pid c) = q_pid q \<and> map_option Subroutine_fromThrift (qc_traverse c) = q_traverse q \<and>
    (let env2 = env'\<lparr>qe_sub := restart_sub c\<rparr> in
     \<exists>q'. Query_restore env2 c (QueryExecutor_new env2 facts ownership' (q_pid q) (q_traverse q) maxTime' depth' pids' wantStats' now') = ok q' \<and>
       (\<forall>ds bs q2. (\<forall>d\<in>set ds. read_call d) \<and> quiet env qs \<and> quiet env2 q' \<and> run_calls env ds qs = ok (bs, q2) \<longrightarrow>
         (\<exists>q2'. run_calls env2 ds q' = ok (bs, q2'))))"
proof -
  let ?q0 = "QueryExecutor_new env facts ownership pid traverse maxTime depth pids wantStats now"
  have "iters_ok env ?q0" by (simp add: iters_ok_def QueryExecutor_new_def)
  from run_calls_iters [OF this assms(2,3)] have it: "iters_ok env q" "q_facts q = facts" "length (q_outputs q) = unat (sub_outputs (qe_sub env))"
    by (simp_all add: QueryExecutor_new_def)
  obtain qs c where save: "saveState env pc frame q = ok qs" "q_queryCont qs = Some c"
    using assms(4) by (simp add: saveState_def Let_def)
  have L: "lookup_contract (qe_view env (q_facts q)) fs" using assms(1) it(2) by simp
  let ?env2 = "env'\<lparr>qe_sub := restart_sub c\<rparr>"
  let ?q1 = "QueryExecutor_new ?env2 facts ownership' (q_pid q) (q_traverse q) maxTime' depth' pids' wantStats' now'"
  have e: "qe_view ?env2 = qe_view env" "qe_sub ?env2 = restart_sub c" "q_facts ?q1 = q_facts q"
    "q_outputs ?q1 = replicate (unat (sub_outputs (qe_sub ?env2))) []" using assms(5) it(2) by (simp_all add: QueryExecutor_new_def)
  note r = restore_saved [OF L it(1,3) save e]
  obtain q' where q': "Query_restore ?env2 c ?q1 = ok q'" "exec_sim qs q'" using r(2) by blast
  have "q_facts qs = q_facts q" using save(1) by (auto simp: saveState_def Let_def)
  then have L': "lookup_contract (qe_view env (q_facts qs)) fs" using L by simp
  have "\<exists>q2'. run_calls ?env2 ds q' = ok (bs, q2')"
    if "\<forall>d\<in>set ds. read_call d" "quiet env qs" "quiet ?env2 q'" "run_calls env ds qs = ok (bs, q2)" for ds bs q2
    by (rule run_calls_sim [OF q'(2) that(2,3) e(1) L' that(1,4)])
  then show ?thesis unfolding Let_def using save r(1,3-6) q'(1) by blast
qed

lemma query_calls: "\<exists>q. run_calls query_env [SeekCall 7 [1], NextCall 0 KeyValue]
    (QueryExecutor_new query_env sample_set None 7 None None ExpandRecursive [] False 0) = ok ([TokenAnswer 0, NextFact 1026 [1, 1] []], q)"
proof -
  let ?r = "run_calls query_env [SeekCall 7 [1], NextCall 0 KeyValue] (QueryExecutor_new query_env sample_set None 7 None None ExpandRecursive [] False 0)"
  have "(case ?r of Inl e \<Rightarrow> None | Inr (as, q) \<Rightarrow> Some as) = Some [TokenAnswer 0, NextFact 1026 [1, 1] []]" by code_simp
  then obtain q where "?r = Inr ([TokenAnswer 0, NextFact 1026 [1, 1] []], q)"
    by (cases ?r) (simp_all only: sum.case split_paired_all prod.case option.simps)
  then show ?thesis unfolding ok_def by (rule exI)
qed

theorem query_restart_resumes_witness:
  "\<exists>q qs c q'. run_calls query_env [SeekCall 7 [1], NextCall 0 KeyValue]
      (QueryExecutor_new query_env sample_set None 7 None None ExpandRecursive [] False 0) = ok ([TokenAnswer 0, NextFact 1026 [1, 1] []], q) \<and>
    saveState query_env 1 (replicate 13 6) q = ok qs \<and> q_queryCont qs = Some c \<and> map word_of_int (ss_locals (qc_sub c)) = [6 :: u64] \<and>
    Query_restore (query_env\<lparr>qe_sub := restart_sub c\<rparr>) c
      (QueryExecutor_new (query_env\<lparr>qe_sub := restart_sub c\<rparr>) sample_set None (q_pid q) (q_traverse q) (Some 1) ResultsOnly [] False 10) = ok q'"
proof -
  obtain q where q: "run_calls query_env [SeekCall 7 [1], NextCall 0 KeyValue]
    (QueryExecutor_new query_env sample_set None 7 None None ExpandRecursive [] False 0) = ok ([TokenAnswer 0, NextFact 1026 [1, 1] []], q)"
    using query_calls by blast
  have L: "lookup_contract (qe_view query_env sample_set) (FactSet_facts sample_set)" using sample_contract by (simp add: query_env_def)
  have c: "\<forall>c\<in>set [SeekCall 7 [1], NextCall 0 KeyValue]. call_ok c" by (simp add: WordId_invalid_def)
  have f: "unat (sub_inputs (qe_sub query_env)) + unat (sub_locals (qe_sub query_env)) \<le> length (replicate 13 (6 :: u64))"
    "take (unat (sub_locals (qe_sub query_env))) (drop (unat (sub_inputs (qe_sub query_env))) (replicate 13 (6 :: u64))) = [6]"
    by (simp_all add: query_env_def)
  from query_restart_resumes [OF L c q f(1) refl, of 1 None "Some 1" ResultsOnly "[]" False 10] show ?thesis
    unfolding Let_def f(2) by (elim exE conjE) (intro exI conjI; (rule q | assumption))
qed

end
