(* ===== verification/Worklists.thy ===== *)
theory Worklists
  imports Glean_Prelude
begin

text \<open>
  The work lists that indexers share between processes, \<^verbatim>\<open>interprocess/cpp/worklist.h\<close> and \<^verbatim>\<open>worklist.cpp\<close>,
  and the shared counters of \<^verbatim>\<open>counters.cpp\<close>. A work list is a file of 64-bit words that every worker
  maps into memory and changes with atomic operations only. \<open>Worklist_step\<close> is one such operation of one
  worker, together with what the code does up to the next one; the processes interleave them in any order
  (the operations are sequentially consistent).
\<close>

section \<open>Counters of a work list\<close>

record Value =
  v_start :: u32
  v_end :: u32

definition Value_size :: "Value \<Rightarrow> u32" where
  "Value_size v = (if v_start v < v_end v then v_end v - v_start v else 0)"

definition Value_empty :: "Value \<Rightarrow> bool" where
  "Value_empty v \<longleftrightarrow> v_start v \<ge> v_end v"

definition unpack :: "u64 \<Rightarrow> Value" where
  "unpack n = \<lparr>v_start = ucast n, v_end = ucast (drop_bit 32 n)\<rparr>"

definition pack :: "Value \<Rightarrow> u64" where
  "pack v = or (push_bit 32 (ucast (v_end v))) (ucast (v_start v))"

text \<open>The file: the number of workers and their counters. Opening it maps that many words.\<close>

definition Worklist_create :: "Value list \<Rightarrow> u64 list" where
  "Worklist_create vs = of_nat (length vs) # map pack vs"

definition Worklist_open :: "u64 list \<Rightarrow> u64 list result" where
  "Worklist_open ws =
     (case ws of
        [] \<Rightarrow> raise (RtsError ''mapping'')
      | n # cs \<Rightarrow> if unat n \<le> length cs then ok (take (unat n) cs) else raise (RtsError ''mapping''))"

definition StealingCounter_new :: "u64 list \<Rightarrow> nat \<Rightarrow> u64 list result" where
  "StealingCounter_new ws worker_count =
     rbind (Worklist_open ws) (\<lambda>cs. rbind (guard (worker_count = length cs) CheckFailed) (\<lambda>_. ok cs))"

definition Worklist_get :: "u64 list \<Rightarrow> nat \<Rightarrow> Value" where
  "Worklist_get cs worker = unpack (cs ! worker)"

section \<open>The serial counter\<close>

definition SerialCounter_next :: "Value \<Rightarrow> Value option \<times> Value" where
  "SerialCounter_next c =
     (if v_start c < v_end c then (Some \<lparr>v_start = v_start c, v_end = v_end c\<rparr>, c\<lparr>v_start := v_start c + 1\<rparr>)
      else (None, c))"

section \<open>The stealing counter\<close>

text \<open>
  Where a worker is in \<^verbatim>\<open>next\<close>: before it, in the loop that looks for the worker with the most work (with
  the variables \<^verbatim>\<open>value\<close>, \<^verbatim>\<open>other\<close>, \<^verbatim>\<open>victim\<close> and \<^verbatim>\<open>i\<close>), before the exchange, before the final store, or done,
  when \<^verbatim>\<open>next\<close> has returned an empty value. A worker asks again until then.
\<close>

datatype Pc = Idle | Scan Value Value nat nat | Cas Value Value nat | Store u32 u32 | Finished

record World =
  w_counters :: "u64 list"
  w_pcs :: "Pc list"
  w_log :: "(nat \<times> u32) list"

definition World_new :: "u64 list \<Rightarrow> World" where
  "World_new cs = \<lparr>w_counters = cs, w_pcs = replicate (length cs) Idle, w_log = []\<rparr>"

definition goto :: "nat \<Rightarrow> Pc \<Rightarrow> World \<Rightarrow> World" where
  "goto w pc s = s\<lparr>w_pcs := (w_pcs s)[w := pc]\<rparr>"

definition assign :: "nat \<Rightarrow> u64 \<Rightarrow> World \<Rightarrow> World" where
  "assign i c s = s\<lparr>w_counters := (w_counters s)[i := c]\<rparr>"

definition emit :: "nat \<Rightarrow> u32 \<Rightarrow> World \<Rightarrow> World" where
  "emit w x s = s\<lparr>w_log := w_log s @ [(w, x)]\<rparr>"

definition steal_split :: "Value \<Rightarrow> u32" where
  "steal_split other = v_start other + Value_size other div 2"

definition Worklist_step :: "nat \<Rightarrow> World \<Rightarrow> World" where
  "Worklist_step worker s =
     (let n = length (w_counters s); cs = w_counters s in
      case w_pcs s ! worker of
        Idle \<Rightarrow>
          let value = unpack (cs ! worker); s = assign worker (cs ! worker + 1) s in
          if Value_empty value then goto worker (Scan value value worker ((worker + 1) mod n)) s
          else emit worker (v_start value) s
      | Scan value other victim i \<Rightarrow>
          if i \<noteq> worker then
            let x = Worklist_get cs i in
            if Value_size x > Value_size other then goto worker (Scan value x i ((i + 1) mod n)) s
            else goto worker (Scan value other victim ((i + 1) mod n)) s
          else if \<not> Value_empty other then goto worker (Cas value other victim) s
          else goto worker Finished s
      | Cas value other victim \<Rightarrow>
          let split = steal_split other in
          if cs ! victim = pack other
          then goto worker (Store split (v_end other)) (assign victim (pack \<lparr>v_start = v_start other, v_end = split\<rparr>) s)
          else goto worker (Scan value value victim ((worker + 1) mod n)) s
      | Store split end \<Rightarrow>
          emit worker split (goto worker Idle (assign worker (pack \<lparr>v_start = split + 1, v_end = end\<rparr>) s))
      | Finished \<Rightarrow> s)"

fun Worklist_run :: "(nat \<Rightarrow> nat) \<Rightarrow> World \<Rightarrow> nat \<Rightarrow> World" where
  "Worklist_run sched s 0 = s"
| "Worklist_run sched s (Suc k) = Worklist_run (\<lambda>j. sched (Suc j)) (Worklist_step (sched 0) s) k"

definition all_finished :: "World \<Rightarrow> bool" where
  "all_finished s \<longleftrightarrow> (\<forall>pc\<in>set (w_pcs s). pc = Finished)"

section \<open>Shared counters\<close>

definition Counters_create :: "nat \<Rightarrow> u64 list" where
  "Counters_create n = replicate n 0"

definition Counters_counter :: "u64 list \<Rightarrow> nat \<Rightarrow> nat result" where
  "Counters_counter cs i = (if i \<ge> length cs then raise (RtsError ''counter index out of range'') else ok i)"

definition Counters_set :: "nat \<Rightarrow> u64 \<Rightarrow> u64 list \<Rightarrow> u64 list result" where
  "Counters_set i v cs = rbind (Counters_counter cs i) (\<lambda>j. ok (cs[j := v]))"

definition Counters_get :: "nat \<Rightarrow> u64 list \<Rightarrow> u64 result" where
  "Counters_get i cs = rbind (Counters_counter cs i) (\<lambda>j. ok (cs ! j))"

section \<open>Packing\<close>

lemma pack_unat: "unat (pack v) = unat (v_end v) * 2 ^ 32 + unat (v_start v)"
proof -
  have "pack v = push_bit 32 (ucast (v_end v)) + ucast (v_start v)"
    unfolding pack_def
    by (rule disjunctive_add [symmetric]) (auto simp: bit_push_bit_iff bit_ucast_iff dest: bit_imp_le_length)
  then show ?thesis
    using unat_lt_32 [of "v_end v"] unat_lt_32 [of "v_start v"]
    by (simp add: push_bit_eq_mult unat_word_ariths unat_ucast_mod)
qed

lemma unpack_unat: "unat (v_start (unpack c)) = unat c mod 2 ^ 32" "unat (v_end (unpack c)) = unat c div 2 ^ 32"
proof -
  show "unat (v_start (unpack c)) = unat c mod 2 ^ 32" by (simp add: unpack_def unat_ucast_mod)
  have "unat (drop_bit 32 c) = unat c div 2 ^ 32" by (simp add: drop_bit_eq_div unat_div)
  then show "unat (v_end (unpack c)) = unat c div 2 ^ 32" using unat_lt_64 [of c] by (simp add: unpack_def unat_ucast_mod)
qed

lemma unpack_pack [simp]: "unpack (pack v) = v"
proof (rule Value.equality)
  show "v_start (unpack (pack v)) = v_start v" using unat_lt_32 [of "v_start v"]
    by (simp add: word_unat_eq_iff unpack_unat pack_unat)
  show "v_end (unpack (pack v)) = v_end v" using unat_lt_32 [of "v_start v"]
    by (simp add: word_unat_eq_iff unpack_unat pack_unat)
qed simp

lemma pack_unpack [simp]: "pack (unpack c) = c"
  by (simp add: word_unat_eq_iff pack_unat unpack_unat)

lemma unpack_plus:
  assumes "unat (v_start (unpack c)) < 2 ^ 32 - 1"
  shows "unpack (c + 1) = \<lparr>v_start = v_start (unpack c) + 1, v_end = v_end (unpack c)\<rparr>"
proof -
  have "pack \<lparr>v_start = v_start (unpack c) + 1, v_end = v_end (unpack c)\<rparr> = c + 1"
  proof -
    have "unat (v_start (unpack c) + 1) = unat (v_start (unpack c)) + 1" using assms by (simp add: unat_word_ariths)
    then have p: "unat (pack \<lparr>v_start = v_start (unpack c) + 1, v_end = v_end (unpack c)\<rparr>) = unat c + 1"
      by (simp add: pack_unat unpack_unat)
    then have "unat c + 1 < 2 ^ 64"
      using unat_lt_64 [of "pack \<lparr>v_start = v_start (unpack c) + 1, v_end = v_end (unpack c)\<rparr>"] by simp
    then show ?thesis using p by (simp add: word_unat_eq_iff unat_word_ariths)
  qed
  then show ?thesis by (metis unpack_pack)
qed

section \<open>The invariant\<close>

text \<open>
  The items of a counter, those a worker has taken from another one and not yet stored, and those that
  were returned. All of them are disjoint, and together they are the items of the work list.
\<close>

definition items :: "Value \<Rightarrow> nat set" where
  "items v = {unat (v_start v) ..< unat (v_end v)}"

definition taken :: "Pc \<Rightarrow> nat set" where
  "taken pc = (case pc of Store split e \<Rightarrow> {unat split ..< unat e} | _ \<Rightarrow> {})"

definition owned :: "World \<Rightarrow> nat \<Rightarrow> nat set" where
  "owned s w = items (unpack (w_counters s ! w)) \<union> taken (w_pcs s ! w)"

definition returned :: "World \<Rightarrow> nat list" where
  "returned s = map (\<lambda>(w, x). unat x) (w_log s)"

definition pc_ok :: "nat \<Rightarrow> nat \<Rightarrow> nat \<Rightarrow> Value \<Rightarrow> Pc \<Rightarrow> bool" where
  "pc_ok n M w v pc =
     (unat (v_end v) \<le> M \<and>
      (case pc of
         Idle \<Rightarrow> unat (v_start v) \<le> M
       | Scan value other victim i \<Rightarrow> unat (v_start v) \<le> M + 1 \<and> Value_empty v \<and> Value_empty value \<and> i < n \<and>
           (\<not> Value_empty other \<longrightarrow> victim < n \<and> victim \<noteq> w)
       | Cas value other victim \<Rightarrow> unat (v_start v) \<le> M + 1 \<and> Value_empty v \<and> Value_empty value \<and>
           \<not> Value_empty other \<and> victim < n \<and> victim \<noteq> w
       | Store split e \<Rightarrow> unat (v_start v) \<le> M + 1 \<and> Value_empty v \<and> split < e \<and> unat e \<le> M
       | Finished \<Rightarrow> unat (v_start v) \<le> M + 1 \<and> Value_empty v))"

definition world_ok :: "nat \<Rightarrow> nat set \<Rightarrow> World \<Rightarrow> bool" where
  "world_ok M I s \<longleftrightarrow> M < 2 ^ 32 - 1 \<and> length (w_pcs s) = length (w_counters s) \<and>
     (\<forall>w < length (w_counters s). pc_ok (length (w_counters s)) M w (unpack (w_counters s ! w)) (w_pcs s ! w)) \<and>
     (\<forall>v < length (w_counters s). \<forall>w < length (w_counters s). v \<noteq> w \<longrightarrow> owned s v \<inter> owned s w = {}) \<and>
     (\<forall>w < length (w_counters s). items (unpack (w_counters s ! w)) \<inter> taken (w_pcs s ! w) = {}) \<and>
     (\<forall>w < length (w_counters s). owned s w \<inter> set (returned s) = {}) \<and> distinct (returned s) \<and>
     (\<Union>w < length (w_counters s). owned s w) \<union> set (returned s) = I"

lemma items_empty: "Value_empty v \<Longrightarrow> items v = {}"
  by (simp add: Value_empty_def items_def word_le_nat_alt)

lemma taken_simps [simp]: "taken Idle = {}" "taken Finished = {}" "taken (Scan a b c d) = {}" "taken (Cas a b c) = {}"
  "taken (Store x y) = {unat x ..< unat y}"
  by (simp_all add: taken_def)

lemma split_bounds:
  assumes "\<not> Value_empty v"
  shows "unat (v_start v) \<le> unat (steal_split v)" "unat (steal_split v) < unat (v_end v)"
proof -
  have lt: "unat (v_start v) < unat (v_end v)" using assms by (simp add: Value_empty_def word_le_nat_alt)
  then have "unat (Value_size v) = unat (v_end v) - unat (v_start v)"
    by (simp add: Value_size_def word_less_nat_alt unat_sub word_le_nat_alt)
  then have s: "unat (Value_size v div 2) = (unat (v_end v) - unat (v_start v)) div 2" by (simp add: unat_div)
  have "unat (steal_split v) = unat (v_start v) + (unat (v_end v) - unat (v_start v)) div 2"
    unfolding steal_split_def using lt s unat_lt_32 [of "v_end v"] by (simp add: unat_word_ariths)
  then show "unat (v_start v) \<le> unat (steal_split v)" "unat (steal_split v) < unat (v_end v)" using lt by auto
qed

text \<open>
  A step leaves the invariant when it redistributes what the workers own: the other workers keep what they
  have, except that a victim and a thief share what the victim had.
\<close>

lemma world_okI:
  assumes "world_ok M I s" "length (w_pcs s') = length (w_counters s)" "length (w_counters s') = length (w_counters s)"
    and "\<And>w. w < length (w_counters s) \<Longrightarrow>
      pc_ok (length (w_counters s)) M w (unpack (w_counters s' ! w)) (w_pcs s' ! w) \<and>
      items (unpack (w_counters s' ! w)) \<inter> taken (w_pcs s' ! w) = {}"
    and "\<And>v w. v < length (w_counters s) \<Longrightarrow> w < length (w_counters s) \<Longrightarrow> v \<noteq> w \<Longrightarrow> owned s' v \<inter> owned s' w = {}"
    and "\<And>w. w < length (w_counters s) \<Longrightarrow> owned s' w \<inter> set (returned s') = {}" "distinct (returned s')"
    and "(\<Union>w < length (w_counters s). owned s' w) \<union> set (returned s') = I"
  shows "world_ok M I s'"
  using assms unfolding world_ok_def by simp

lemma world_okD:
  assumes "world_ok M I s"
  shows "M < 2 ^ 32 - 1" "length (w_pcs s) = length (w_counters s)"
    "\<And>w. w < length (w_counters s) \<Longrightarrow> pc_ok (length (w_counters s)) M w (unpack (w_counters s ! w)) (w_pcs s ! w)"
    "\<And>v w. v < length (w_counters s) \<Longrightarrow> w < length (w_counters s) \<Longrightarrow> v \<noteq> w \<Longrightarrow> owned s v \<inter> owned s w = {}"
    "\<And>w. w < length (w_counters s) \<Longrightarrow> items (unpack (w_counters s ! w)) \<inter> taken (w_pcs s ! w) = {}"
    "\<And>w. w < length (w_counters s) \<Longrightarrow> owned s w \<inter> set (returned s) = {}" "distinct (returned s)"
    "(\<Union>w < length (w_counters s). owned s w) \<union> set (returned s) = I"
  using assms unfolding world_ok_def by blast+

text \<open>A worker that only moves on.\<close>

lemma goto_ok:
  assumes "world_ok M I s" "w < length (w_counters s)" "taken pc = taken (w_pcs s ! w)"
    "pc_ok (length (w_counters s)) M w (unpack (w_counters s ! w)) pc"
  shows "world_ok M I (goto w pc s)"
proof -
  note d = world_okD [OF assms(1)]
  have t: "taken (w_pcs (goto w pc s) ! v) = taken (w_pcs s ! v)" if "v < length (w_counters s)" for v
    using that assms(2,3) d(2) by (cases "v = w") (simp_all add: goto_def)
  have o: "owned (goto w pc s) v = owned s v" if "v < length (w_counters s)" for v
    using t [OF that] by (simp add: owned_def) (simp add: goto_def)
  have r: "returned (goto w pc s) = returned s" by (simp add: returned_def goto_def)
  show ?thesis
  proof (rule world_okI [OF assms(1)])
    fix v
    assume v: "v < length (w_counters s)"
    show "pc_ok (length (w_counters s)) M v (unpack (w_counters (goto w pc s) ! v)) (w_pcs (goto w pc s) ! v) \<and>
        items (unpack (w_counters (goto w pc s) ! v)) \<inter> taken (w_pcs (goto w pc s) ! v) = {}"
      unfolding t [OF v] using d(3,5) [OF v] assms(4) v d(2) by (cases "v = w") (simp_all add: goto_def)
  qed (use d o r in \<open>simp_all add: goto_def\<close>)
qed

lemma redistribute:
  assumes ok: "world_ok M I s" and wx: "w < length (w_counters s)" "x < length (w_counters s)"
    and len: "length (w_pcs s') = length (w_counters s)" "length (w_counters s') = length (w_counters s)"
    and pcs: "\<And>v. v < length (w_counters s) \<Longrightarrow>
      pc_ok (length (w_counters s)) M v (unpack (w_counters s' ! v)) (w_pcs s' ! v) \<and>
      items (unpack (w_counters s' ! v)) \<inter> taken (w_pcs s' ! v) = {}"
    and same: "\<And>v. v < length (w_counters s) \<Longrightarrow> v \<noteq> w \<Longrightarrow> v \<noteq> x \<Longrightarrow> owned s' v = owned s v"
    and both: "owned s' w \<union> owned s' x \<union> set new = owned s w \<union> owned s x"
    and disj: "x \<noteq> w \<Longrightarrow> owned s' w \<inter> owned s' x = {}" "(owned s' w \<union> owned s' x) \<inter> set new = {}" "distinct new"
    and ret: "returned s' = returned s @ new"
  shows "world_ok M I s'"
proof (rule world_okI [OF ok len pcs])
  note d = world_okD [OF ok]
  let ?n = "length (w_counters s)"
  have new: "set new \<inter> set (returned s) = {}" using both d(6) [OF wx(1)] d(6) [OF wx(2)] by blast
  then show "distinct (returned s')" using d(7) disj(3) by (auto simp: ret)
  have out: "owned s v \<inter> (owned s w \<union> owned s x) = {}" if "v < ?n" "v \<noteq> w" "v \<noteq> x" for v
    using d(4) [OF that(1) wx(1) that(2)] d(4) [OF that(1) wx(2) that(3)] by blast
  show "owned s' v \<inter> owned s' u = {}" if vu: "v < ?n" "u < ?n" "v \<noteq> u" for v u
  proof (cases "v = w \<or> v = x"; cases "u = w \<or> u = x")
    assume "v = w \<or> v = x" "u = w \<or> u = x"
    then show ?thesis using disj(1) vu(3) by (auto simp: Int_commute)
  next
    assume "v = w \<or> v = x" "\<not> (u = w \<or> u = x)"
    then show ?thesis using out [of u] same [of u] both vu(2) by auto
  next
    assume "\<not> (v = w \<or> v = x)" "u = w \<or> u = x"
    then show ?thesis using out [of v] same [of v] both vu(1) by auto
  next
    assume "\<not> (v = w \<or> v = x)" "\<not> (u = w \<or> u = x)"
    then show ?thesis using same [of v] same [of u] d(4) [OF vu] vu(1,2) by simp
  qed
  show "owned s' v \<inter> set (returned s') = {}" if v: "v < ?n" for v
  proof (cases "v = w \<or> v = x")
    case True
    then have "owned s' v \<subseteq> owned s w \<union> owned s x" "owned s' v \<inter> set new = {}" using both disj(2) by auto
    then show ?thesis unfolding ret using d(6) [OF wx(1)] d(6) [OF wx(2)] by auto
  next
    case False
    then have "owned s v \<inter> set new = {}" using out [OF v] both by auto
    then show ?thesis unfolding ret using False same [OF v] d(6) [OF v] by auto
  qed
  have "(\<Union>v < ?n. owned s' v) \<union> set new = (\<Union>v < ?n. owned s v)"
  proof -
    have a: "(\<Union>v < ?n. owned t v) = (\<Union>v\<in>{v. v < ?n \<and> v \<noteq> w \<and> v \<noteq> x}. owned t v) \<union> (owned t w \<union> owned t x)" for t
      using wx by auto
    have "(\<Union>v\<in>{v. v < ?n \<and> v \<noteq> w \<and> v \<noteq> x}. owned s' v) = (\<Union>v\<in>{v. v < ?n \<and> v \<noteq> w \<and> v \<noteq> x}. owned s v)"
      using same by auto
    then show ?thesis unfolding a [of s'] a [of s] using both by auto
  qed
  then show "(\<Union>v < ?n. owned s' v) \<union> set (returned s') = I" using d(8) by (auto simp: ret)
qed

section \<open>Every step keeps the invariant\<close>

lemma world_simps [simp]:
  "w_counters (goto w pc s) = w_counters s" "w_log (goto w pc s) = w_log s" "w_pcs (goto w pc s) = (w_pcs s)[w := pc]"
  "w_counters (assign i c s) = (w_counters s)[i := c]" "w_log (assign i c s) = w_log s" "w_pcs (assign i c s) = w_pcs s"
  "w_counters (emit w x s) = w_counters s" "w_log (emit w x s) = w_log s @ [(w, x)]" "w_pcs (emit w x s) = w_pcs s"
  by (simp_all add: goto_def assign_def emit_def)

lemma returned_simps [simp]:
  "returned (goto w pc s) = returned s" "returned (assign i c s) = returned s" "returned (emit w x s) = returned s @ [unat x]"
  by (simp_all add: returned_def)

lemma fetch_ok:
  assumes ok: "world_ok M I s" and w: "w < length (w_counters s)" "w_pcs s ! w = Idle"
  shows "world_ok M I (Worklist_step w s)"
proof -
  note d = world_okD [OF ok]
  let ?c = "w_counters s ! w"
  let ?v = "unpack ?c" and ?v' = "unpack (?c + 1)"
  have p: "unat (v_start ?v) \<le> M" "unat (v_end ?v) \<le> M" using d(3) [OF w(1)] w(2) by (simp_all add: pc_ok_def)
  then have v': "?v' = \<lparr>v_start = v_start ?v + 1, v_end = v_end ?v\<rparr>" using d(1) by (intro unpack_plus) simp
  have s1: "unat (v_start ?v + 1) = unat (v_start ?v) + 1" using p(1) d(1) by (simp add: unat_word_ariths)
  show ?thesis
  proof (cases "Value_empty ?v")
    case True
    let ?s = "goto w (Scan ?v ?v w ((w + 1) mod length (w_counters s))) (assign w (?c + 1) s)"
    have e': "Value_empty ?v'" using True s1 by (simp add: v' Value_empty_def word_le_nat_alt)
    have same: "owned ?s v = owned s v" if "v < length (w_counters s)" for v
      using that w d(2) items_empty [OF True] items_empty [OF e'] by (cases "v = w") (simp_all add: owned_def)
    have run: "Worklist_step w s = ?s" using w(2) True by (simp add: Worklist_step_def Let_def)
    show ?thesis
      unfolding run
    proof (rule redistribute [OF ok w(1) w(1), where new = "[]"])
      fix v
      assume v: "v < length (w_counters s)"
      show "pc_ok (length (w_counters s)) M v (unpack (w_counters ?s ! v)) (w_pcs ?s ! v) \<and>
          items (unpack (w_counters ?s ! v)) \<inter> taken (w_pcs ?s ! v) = {}"
      proof (cases "v = w")
        case True
        then show ?thesis using w(1) d(2) e' p s1 \<open>Value_empty ?v\<close> mod_less_divisor [OF le_less_trans [OF le0 w(1)]]
          by (simp add: pc_ok_def v')
      qed (use d(3,5) [OF v] v d(2) in simp)
    qed (use d(2) same w(1) in auto)
  next
    case False
    let ?s = "emit w (v_start ?v) (assign w (?c + 1) s)"
    have run: "Worklist_step w s = ?s" using w(2) False by (simp add: Worklist_step_def Let_def)
    have lt: "unat (v_start ?v) < unat (v_end ?v)" using False by (simp add: Value_empty_def word_le_nat_alt)
    have own: "owned s w = {unat (v_start ?v) ..< unat (v_end ?v)}" using w(2) by (simp add: owned_def items_def)
    have own': "owned ?s w = {unat (v_start ?v) + 1 ..< unat (v_end ?v)}" using w d(2) by (simp add: owned_def items_def v' s1)
    show ?thesis
      unfolding run
    proof (rule redistribute [OF ok w(1) w(1), where new = "[unat (v_start ?v)]"])
      show "owned ?s w \<union> owned ?s w \<union> set [unat (v_start ?v)] = owned s w \<union> owned s w" unfolding own own' using lt by auto
      show "(owned ?s w \<union> owned ?s w) \<inter> set [unat (v_start ?v)] = {}" unfolding own' by auto
      fix v
      assume v: "v < length (w_counters s)"
      show "pc_ok (length (w_counters s)) M v (unpack (w_counters ?s ! v)) (w_pcs ?s ! v) \<and>
          items (unpack (w_counters ?s ! v)) \<inter> taken (w_pcs ?s ! v) = {}"
      proof (cases "v = w")
        case True
        then show ?thesis using w p lt s1 d(2) by (simp add: pc_ok_def v')
      qed (use d(3,5) [OF v] v d(2) in simp)
      show "owned ?s v = owned s v" if "v \<noteq> w" "v \<noteq> w" using that by (simp add: owned_def)
    qed (use d(2) in auto)
  qed
qed

lemma cas_ok:
  assumes ok: "world_ok M I s" and w: "w < length (w_counters s)" "w_pcs s ! w = Cas value other victim"
  shows "world_ok M I (Worklist_step w s)"
proof -
  note d = world_okD [OF ok]
  let ?c = "w_counters s ! w"
  have p: "Value_empty (unpack ?c)" "unat (v_start (unpack ?c)) \<le> M + 1" "unat (v_end (unpack ?c)) \<le> M" "Value_empty value"
      "\<not> Value_empty other" "victim < length (w_counters s)" "victim \<noteq> w"
    using d(3) [OF w(1)] w(2) by (simp_all add: pc_ok_def)
  let ?split = "steal_split other"
  note sp = split_bounds [OF p(5)]
  show ?thesis
  proof (cases "w_counters s ! victim = pack other")
    case False
    have n: "0 < length (w_counters s)" using w(1) by (rule le_less_trans [OF le0])
    have run: "Worklist_step w s = goto w (Scan value value victim ((w + 1) mod length (w_counters s))) s"
      using w(2) False by (simp add: Worklist_step_def Let_def)
    show ?thesis unfolding run by (rule goto_ok [OF ok w(1)]) (use p n w(2) in \<open>simp_all add: pc_ok_def\<close>)
  next
    case True
    let ?u = "\<lparr>v_start = v_start other, v_end = ?split\<rparr>"
    let ?s = "goto w (Store ?split (v_end other)) (assign victim (pack ?u) s)"
    have run: "Worklist_step w s = ?s" using w(2) True by (simp add: Worklist_step_def Let_def)
    have ov: "unpack (w_counters s ! victim) = other" using True by simp
    note pv = d(3) [OF p(6), unfolded ov pc_ok_def]
    have idle: "w_pcs s ! victim = Idle" using pv p(5) by (auto split: Pc.splits)
    then have b: "unat (v_start other) \<le> M" "unat (v_end other) \<le> M" using pv by simp_all
    have own: "owned s w = {}" "owned s victim = {unat (v_start other) ..< unat (v_end other)}"
      using w(2) items_empty [OF p(1)] idle ov by (simp_all add: owned_def items_def)
    have own': "owned ?s w = {unat ?split ..< unat (v_end other)}" "owned ?s victim = {unat (v_start other) ..< unat ?split}"
      using w(1) p(6,7) d(2) items_empty [OF p(1)] idle by (simp_all add: owned_def items_def)
    show ?thesis
      unfolding run
    proof (rule redistribute [OF ok w(1) p(6), where new = "[]"])
      show "owned ?s w \<union> owned ?s victim \<union> set [] = owned s w \<union> owned s victim" unfolding own own' using sp by auto
      show "owned ?s w \<inter> owned ?s victim = {}" unfolding own' by auto
      fix v
      assume v: "v < length (w_counters s)"
      consider "v = w" | "v = victim" | "v \<noteq> w" "v \<noteq> victim" by blast
      then show "pc_ok (length (w_counters s)) M v (unpack (w_counters ?s ! v)) (w_pcs ?s ! v) \<and>
          items (unpack (w_counters ?s ! v)) \<inter> taken (w_pcs ?s ! v) = {}"
      proof cases
        case 1
        then show ?thesis using p sp b w(1) d(2) items_empty [OF p(1)] by (simp add: pc_ok_def word_less_nat_alt)
      next
        case 2
        then show ?thesis using p sp b idle d(2) by (simp add: pc_ok_def)
      qed (use d(3,5) [OF v] v d(2) in simp)
      show "owned ?s v = owned s v" if "v \<noteq> w" "v \<noteq> victim" using that by (simp add: owned_def)
    qed (use d(2) in auto)
  qed
qed

lemma store_ok:
  assumes ok: "world_ok M I s" and w: "w < length (w_counters s)" "w_pcs s ! w = Store split e"
  shows "world_ok M I (Worklist_step w s)"
proof -
  note d = world_okD [OF ok]
  have p: "Value_empty (unpack (w_counters s ! w))" "unat split < unat e" "unat e \<le> M"
    using d(3) [OF w(1)] w(2) by (simp_all add: pc_ok_def word_less_nat_alt)
  have s1: "unat (split + 1) = unat split + 1" using p d(1) by (simp add: unat_word_ariths)
  let ?s = "emit w split (goto w Idle (assign w (pack \<lparr>v_start = split + 1, v_end = e\<rparr>) s))"
  have run: "Worklist_step w s = ?s" using w(2) by (simp add: Worklist_step_def Let_def)
  have own: "owned s w = {unat split ..< unat e}" using w(2) items_empty [OF p(1)] by (simp add: owned_def)
  have own': "owned ?s w = {unat split + 1 ..< unat e}" using w d(2) by (simp add: owned_def items_def s1)
  show ?thesis
    unfolding run
  proof (rule redistribute [OF ok w(1) w(1), where new = "[unat split]"])
    show "owned ?s w \<union> owned ?s w \<union> set [unat split] = owned s w \<union> owned s w" unfolding own own' using p(2) by auto
    show "(owned ?s w \<union> owned ?s w) \<inter> set [unat split] = {}" unfolding own' by auto
    fix v
    assume v: "v < length (w_counters s)"
    show "pc_ok (length (w_counters s)) M v (unpack (w_counters ?s ! v)) (w_pcs ?s ! v) \<and>
        items (unpack (w_counters ?s ! v)) \<inter> taken (w_pcs ?s ! v) = {}"
    proof (cases "v = w")
      case True
      then show ?thesis using w p s1 d(2) by (simp add: pc_ok_def)
    qed (use d(3,5) [OF v] v d(2) in simp)
    show "owned ?s v = owned s v" if "v \<noteq> w" "v \<noteq> w" using that by (simp add: owned_def)
  qed (use d(2) in auto)
qed

lemma scan_ok:
  assumes ok: "world_ok M I s" and w: "w < length (w_counters s)" "w_pcs s ! w = Scan value other victim i"
  shows "world_ok M I (Worklist_step w s)"
proof -
  note d = world_okD [OF ok]
  have p: "Value_empty (unpack (w_counters s ! w))" "unat (v_start (unpack (w_counters s ! w))) \<le> M + 1"
      "unat (v_end (unpack (w_counters s ! w))) \<le> M" "Value_empty value" "i < length (w_counters s)"
      "\<not> Value_empty other \<Longrightarrow> victim < length (w_counters s) \<and> victim \<noteq> w"
    using d(3) [OF w(1)] w(2) by (simp_all add: pc_ok_def)
  have n: "0 < length (w_counters s)" using w(1) by (rule le_less_trans [OF le0])
  have "\<exists>pc. Worklist_step w s = goto w pc s \<and> taken pc = taken (w_pcs s ! w) \<and>
      pc_ok (length (w_counters s)) M w (unpack (w_counters s ! w)) pc"
    using w(2) p n by (auto simp: Worklist_step_def Let_def pc_ok_def)
  then show ?thesis using goto_ok [OF ok w(1)] by metis
qed

lemma step_ok:
  assumes "world_ok M I s" "w < length (w_counters s)"
  shows "world_ok M I (Worklist_step w s)"
proof (cases "w_pcs s ! w")
  case Idle
  then show ?thesis by (rule fetch_ok [OF assms])
next
  case (Scan x y v i)
  then show ?thesis by (rule scan_ok [OF assms])
next
  case (Cas x y v)
  then show ?thesis by (rule cas_ok [OF assms])
next
  case (Store split e)
  then show ?thesis by (rule store_ok [OF assms])
next
  case Finished
  then show ?thesis using assms(1) by (simp add: Worklist_step_def)
qed

lemma step_length [simp]: "length (w_counters (Worklist_step w s)) = length (w_counters s)"
  by (auto simp: Worklist_step_def Let_def split: Pc.split)

section \<open>Termination\<close>

text \<open>
  Every change of a counter leads to an item that is returned, or to the end of a worker. Between two
  changes a worker can only read the other counters once and attempt an exchange, which fails only if
  what it has read is outdated.
\<close>

definition pc_rank :: "Pc \<Rightarrow> nat" where
  "pc_rank pc = (case pc of Idle \<Rightarrow> 3 | Scan _ _ _ _ \<Rightarrow> 2 | Cas _ _ _ \<Rightarrow> 2 | Store _ _ \<Rightarrow> 1 | Finished \<Rightarrow> 0)"

definition outdated :: "u64 list \<Rightarrow> Value \<Rightarrow> nat \<Rightarrow> bool" where
  "outdated cs other victim \<longleftrightarrow> \<not> Value_empty other \<and> cs ! victim \<noteq> pack other"

definition pc_cost :: "u64 list \<Rightarrow> nat \<Rightarrow> Pc \<Rightarrow> nat" where
  "pc_cost cs w pc =
     (let n = length cs in
      case pc of
        Scan _ other victim i \<Rightarrow> (w + n - i) mod n + 2 + (if outdated cs other victim then n + 2 else 0)
      | Cas _ other victim \<Rightarrow> 1 + (if outdated cs other victim then n + 2 else 0)
      | _ \<Rightarrow> 0)"

definition changes :: "nat set \<Rightarrow> World \<Rightarrow> nat" where
  "changes I s = 4 * (card I - length (w_log s)) + (\<Sum>w < length (w_counters s). pc_rank (w_pcs s ! w))"

definition reads :: "World \<Rightarrow> nat" where
  "reads s = (\<Sum>w < length (w_counters s). pc_cost (w_counters s) w (w_pcs s ! w))"

lemma sum_update:
  fixes g :: "nat \<Rightarrow> 'a \<Rightarrow> nat"
  assumes "w < n" "n \<le> length xs"
  shows "(\<Sum>v<n. g v (xs[w := x] ! v)) + g w (xs ! w) = (\<Sum>v<n. g v (xs ! v)) + g w x"
proof -
  have w: "w \<in> {..<n}" using assms(1) by simp
  have "(\<Sum>v\<in>{..<n} - {w}. g v (xs[w := x] ! v)) = (\<Sum>v\<in>{..<n} - {w}. g v (xs ! v))" by (rule sum.cong) auto
  then show ?thesis
    using sum.remove [OF _ w, of "\<lambda>v. g v (xs[w := x] ! v)"] sum.remove [OF _ w, of "\<lambda>v. g v (xs ! v)"] assms by simp
qed

lemma world_ok_card:
  assumes "world_ok M I s"
  shows "finite I" "length (w_log s) \<le> card I"
proof -
  note d = world_okD [OF assms]
  have "finite (owned s w)" for w by (cases "w_pcs s ! w") (simp_all add: owned_def items_def)
  then show f: "finite I" using d(8) by (metis finite_UN finite_Un finite_lessThan finite_set)
  have "length (w_log s) = card (set (returned s))" using distinct_card [OF d(7)] by (simp add: returned_def)
  also have "\<dots> \<le> card I" by (rule card_mono [OF f]) (use d(8) in auto)
  finally show "length (w_log s) \<le> card I" .
qed

lemma distance_step:
  assumes "i < n" "w < n" "i \<noteq> w"
  shows "(w + n - (i + 1) mod n) mod n < (w + n - i) mod (n :: nat)"
proof -
  consider "i < w" | "w < i" "i + 1 < n" | "w < i" "i + 1 = n" using assms by linarith
  then show ?thesis
  proof cases
    case 1
    then have "(i + 1) mod n = i + 1" "(w + n - i) mod n = w - i" using assms by (simp_all add: le_mod_geq)
    moreover have "(w + n - (i + 1)) mod n = w - (i + 1)" using 1 assms by (simp add: le_mod_geq)
    ultimately show ?thesis using 1 by simp
  next
    case 2
    then show ?thesis using assms by simp
  next
    case 3
    then have m: "(i + 1) mod n = 0" "w + n - i = w + 1" by auto
    show ?thesis unfolding m using 3 assms by simp
  qed
qed

lemma scan_start: "w < n \<Longrightarrow> (w + n - (w + 1) mod n) mod n < (n :: nat)"
  by simp

lemma goto_reads:
  assumes "world_ok M I s" "w < length (w_counters s)"
    "pc_cost (w_counters s) w pc < pc_cost (w_counters s) w (w_pcs s ! w)" "pc_rank pc = pc_rank (w_pcs s ! w)"
  shows "changes I (goto w pc s) = changes I s" "reads (goto w pc s) < reads s"
proof -
  have l: "length (w_counters s) \<le> length (w_pcs s)" using world_okD(2) [OF assms(1)] by simp
  show "changes I (goto w pc s) = changes I s"
    using sum_update [OF assms(2) l, of "\<lambda>_. pc_rank" pc] assms(4) by (simp add: changes_def)
  show "reads (goto w pc s) < reads s"
    using sum_update [OF assms(2) l, of "pc_cost (w_counters s)" pc] assms(3) by (simp add: reads_def)
qed

lemma goto_changes:
  assumes "world_ok M I s" "w < length (w_counters s)" "w_counters t = (w_counters s)[i := c]" "w_pcs t = (w_pcs s)[w := pc]"
    "w_log t = w_log s @ new" "world_ok M I t" "pc_rank pc < pc_rank (w_pcs s ! w) + 4 * length new"
  shows "changes I t < changes I s"
proof -
  have l: "length (w_counters s) \<le> length (w_pcs s)" using world_okD(2) [OF assms(1)] by simp
  have "length (w_log s) + length new \<le> card I" using world_ok_card(2) [OF assms(6)] assms(5) by simp
  then show ?thesis
    using sum_update [OF assms(2) l, of "\<lambda>_. pc_rank" pc] assms(3-5,7) by (simp add: changes_def)
qed

lemma step_decreases:
  assumes ok: "world_ok M I s" and w: "w < length (w_counters s)" "w_pcs s ! w \<noteq> Finished"
  shows "(Worklist_step w s, s) \<in> measures [changes I, reads]"
proof (cases "w_pcs s ! w")
  case Idle
  have "changes I (Worklist_step w s) < changes I s"
  proof (cases "Value_empty (unpack (w_counters s ! w))")
    case True
    let ?pc = "Scan (unpack (w_counters s ! w)) (unpack (w_counters s ! w)) w ((w + 1) mod length (w_counters s))"
    have "Worklist_step w s = goto w ?pc (assign w (w_counters s ! w + 1) s)"
      using Idle True by (simp add: Worklist_step_def Let_def)
    then show ?thesis
      by (intro goto_changes [OF ok w(1) _ _ _ step_ok [OF ok w(1)], of w "w_counters s ! w + 1" ?pc "[]"]) (simp_all add: Idle pc_rank_def)
  next
    case False
    then have "Worklist_step w s = emit w (v_start (unpack (w_counters s ! w))) (assign w (w_counters s ! w + 1) s)"
      using Idle by (simp add: Worklist_step_def Let_def)
    then show ?thesis
      by (intro goto_changes [OF ok w(1) _ _ _ step_ok [OF ok w(1)], of w "w_counters s ! w + 1" Idle "[(w, v_start (unpack (w_counters s ! w)))]"])
        (simp_all add: Idle [symmetric])
  qed
  then show ?thesis by simp
next
  case (Scan val other victim i)
  have p: "i < length (w_counters s)" using world_okD(3) [OF ok w(1)] Scan by (simp add: pc_ok_def)
  show ?thesis
  proof (cases "i = w")
    case True
    show ?thesis
    proof (cases "Value_empty other")
      case e: True
      then have run: "Worklist_step w s = goto w Finished s" using Scan True by (simp add: Worklist_step_def Let_def)
      have "changes I (Worklist_step w s) < changes I s"
        by (rule goto_changes [OF ok w(1) _ _ _ step_ok [OF ok w(1)], of w "w_counters s ! w" Finished "[]"])
          (simp_all add: run Scan pc_rank_def)
      then show ?thesis by simp
    next
      case False
      then have run: "Worklist_step w s = goto w (Cas val other victim) s" using Scan True by (simp add: Worklist_step_def Let_def)
      have "pc_cost (w_counters s) w (Cas val other victim) < pc_cost (w_counters s) w (w_pcs s ! w)" by (simp add: Scan pc_cost_def Let_def)
      from goto_reads [OF ok w(1) this] show ?thesis by (simp add: run Scan pc_rank_def)
    qed
  next
    case False
    note dist = distance_step [OF p w(1) False]
    have "\<exists>o' v'. Worklist_step w s = goto w (Scan val o' v' ((i + 1) mod length (w_counters s))) s \<and>
        (outdated (w_counters s) o' v' \<longrightarrow> outdated (w_counters s) other victim)"
    proof (cases "Value_size other < Value_size (Worklist_get (w_counters s) i)")
      case True
      then show ?thesis using Scan False
        by (intro exI [of _ "Worklist_get (w_counters s) i"] exI [of _ i])
          (simp add: Worklist_step_def Let_def Worklist_get_def outdated_def)
    next
      case False
      then show ?thesis using Scan \<open>i \<noteq> w\<close> by (intro exI [of _ other] exI [of _ victim]) (simp add: Worklist_step_def Let_def)
    qed
    then obtain o' v' where run: "Worklist_step w s = goto w (Scan val o' v' ((i + 1) mod length (w_counters s))) s"
        "outdated (w_counters s) o' v' \<Longrightarrow> outdated (w_counters s) other victim" by blast
    have "pc_cost (w_counters s) w (Scan val o' v' ((i + 1) mod length (w_counters s))) < pc_cost (w_counters s) w (w_pcs s ! w)"
      using dist run(2) by (auto simp: Scan pc_cost_def Let_def)
    from goto_reads [OF ok w(1) this] show ?thesis by (simp add: run(1) Scan pc_rank_def)
  qed
next
  case (Cas val other victim)
  have e: "\<not> Value_empty other" "Value_empty val" using world_okD(3) [OF ok w(1)] Cas by (simp_all add: pc_ok_def)
  show ?thesis
  proof (cases "w_counters s ! victim = pack other")
    case True
    let ?c = "pack \<lparr>v_start = v_start other, v_end = steal_split other\<rparr>"
    have run: "Worklist_step w s = goto w (Store (steal_split other) (v_end other)) (assign victim ?c s)"
      using Cas True by (simp add: Worklist_step_def Let_def)
    have "changes I (Worklist_step w s) < changes I s"
      by (rule goto_changes [OF ok w(1) _ _ _ step_ok [OF ok w(1)], of victim ?c "Store (steal_split other) (v_end other)" "[]"])
        (simp_all add: run Cas pc_rank_def)
    then show ?thesis by simp
  next
    case False
    let ?pc = "Scan val val victim ((w + 1) mod length (w_counters s))"
    have run: "Worklist_step w s = goto w ?pc s" using Cas False by (simp add: Worklist_step_def Let_def)
    have "pc_cost (w_counters s) w ?pc < pc_cost (w_counters s) w (w_pcs s ! w)"
      using scan_start [OF w(1)] e False by (simp add: Cas pc_cost_def Let_def outdated_def)
    from goto_reads [OF ok w(1) this] show ?thesis by (simp add: run Cas pc_rank_def)
  qed
next
  case (Store split e)
  let ?c = "pack \<lparr>v_start = split + 1, v_end = e\<rparr>"
  have run: "Worklist_step w s = emit w split (goto w Idle (assign w ?c s))" using Store by (simp add: Worklist_step_def Let_def)
  have "changes I (Worklist_step w s) < changes I s"
    by (rule goto_changes [OF ok w(1) _ _ _ step_ok [OF ok w(1)], of w ?c Idle "[(w, split)]"])
      (simp_all add: run Store pc_rank_def)
  then show ?thesis by simp
qed (use w(2) in simp)

lemma finished_step: "w_pcs s ! w = Finished \<Longrightarrow> Worklist_step w s = s"
  by (simp add: Worklist_step_def)

lemma all_finished_iff:
  assumes "world_ok M I s"
  shows "all_finished s \<longleftrightarrow> (\<forall>w < length (w_counters s). w_pcs s ! w = Finished)"
  using world_okD(2) [OF assms] by (auto simp: all_finished_def all_set_conv_all_nth)

text \<open>Under every schedule that gives each worker a turn again and again, all workers finish.\<close>

definition fair :: "nat \<Rightarrow> (nat \<Rightarrow> nat) \<Rightarrow> bool" where
  "fair n sched \<longleftrightarrow> (\<forall>k. sched k < n) \<and> (\<forall>w < n. \<forall>k. \<exists>j\<ge>k. sched j = w)"

lemma fair_shift: "fair n sched \<Longrightarrow> fair n (\<lambda>j. sched (j + k))"
  unfolding fair_def by (metis add_le_imp_le_right le_add_diff_inverse2 le_add2 le_trans)

lemma run_shift: "Worklist_run sched s (k + j) = Worklist_run (\<lambda>i. sched (i + k)) (Worklist_run sched s k) j"
  by (induction k arbitrary: sched s) simp_all

lemma run_ok:
  assumes "world_ok M I s" "\<And>k. sched k < length (w_counters s)"
  shows "world_ok M I (Worklist_run sched s k) \<and> length (w_counters (Worklist_run sched s k)) = length (w_counters s)"
  using assms by (induction k arbitrary: sched s) (auto simp: step_ok)

lemma finished_turns:
  assumes "\<And>j. j < k \<Longrightarrow> w_pcs s ! sched j = Finished"
  shows "Worklist_run sched s k = s"
  using assms by (induction k arbitrary: sched) (auto simp: finished_step)

lemma fair_finishes:
  assumes "world_ok M I s" "fair (length (w_counters s)) sched"
  shows "\<exists>k. all_finished (Worklist_run sched s k)"
  using assms
proof (induction s arbitrary: sched rule: wf_induct_rule [OF wf_measures, of "[changes I, reads]"])
  case (1 s)
  show ?case
  proof (cases "all_finished s")
    case True
    then show ?thesis by (intro exI [of _ 0]) simp
  next
    case False
    then obtain w where w: "w < length (w_counters s)" "w_pcs s ! w \<noteq> Finished" using all_finished_iff [OF "1.prems"(1)] by auto
    then have "\<exists>j. w_pcs s ! sched j \<noteq> Finished" using "1.prems"(2) by (metis fair_def)
    then obtain j where j: "w_pcs s ! sched j \<noteq> Finished" "\<And>i. i < j \<Longrightarrow> w_pcs s ! sched i = Finished"
      using exists_least_iff [of "\<lambda>j. w_pcs s ! sched j \<noteq> Finished"] by auto
    have n: "sched j < length (w_counters s)" using "1.prems"(2) by (simp add: fair_def)
    let ?s = "Worklist_step (sched j) s"
    have stay: "Worklist_run sched s j = s" by (rule finished_turns) (rule j(2))
    have run: "Worklist_run sched s (j + 1) = ?s"
      using run_shift [of sched s j 1] stay by simp
    have "fair (length (w_counters ?s)) (\<lambda>i. sched (i + (j + 1)))" using fair_shift [OF "1.prems"(2), of "j + 1"] by simp
    from "1.IH" [OF step_decreases [OF "1.prems"(1) n j(1)] step_ok [OF "1.prems"(1) n] this]
    obtain k where "all_finished (Worklist_run (\<lambda>i. sched (i + (j + 1))) ?s k)" by blast
    then show ?thesis using run_shift [of sched s "j + 1" k] run by metis
  qed
qed

section \<open>Initial work lists\<close>

definition disjoint_blocks :: "Value list \<Rightarrow> bool" where
  "disjoint_blocks vs \<longleftrightarrow> (\<forall>v < length vs. \<forall>w < length vs. v \<noteq> w \<longrightarrow> items (vs ! v) \<inter> items (vs ! w) = {}) \<and>
     (\<forall>v\<in>set vs. unat (v_start v) < 2 ^ 32 - 1 \<and> unat (v_end v) < 2 ^ 32 - 1)"

lemma open_create:
  assumes "length vs < 2 ^ 64"
  shows "Worklist_open (Worklist_create vs) = ok (map pack vs)"
  using assms by (simp add: Worklist_open_def Worklist_create_def unat_of_nat)

lemma create_new:
  assumes "length vs < 2 ^ 64"
  shows "StealingCounter_new (Worklist_create vs) (length vs) = ok (map pack vs)"
  by (simp add: StealingCounter_new_def open_create [OF assms])

lemma initial_ok:
  assumes "disjoint_blocks vs"
  shows "world_ok (2 ^ 32 - 2) (\<Union>v\<in>set vs. items v) (World_new (map pack vs))"
proof -
  let ?s = "World_new (map pack vs)"
  have o: "owned ?s w = items (vs ! w)" if "w < length vs" for w using that by (simp add: owned_def World_new_def)
  have u: "(\<Union>w < length vs. owned ?s w) = (\<Union>v\<in>set vs. items v)" using o by (auto simp: set_conv_nth)
  have p: "pc_ok (length vs) (2 ^ 32 - 2) w (vs ! w) Idle" if "w < length vs" for w
    using assms that by (auto simp: disjoint_blocks_def pc_ok_def dest!: bspec [OF _ nth_mem [OF that]])
  show ?thesis
    unfolding world_ok_def using assms o u p
    by (simp add: World_new_def returned_def disjoint_blocks_def)
qed

lemma done_ok:
  assumes "world_ok M I s" "all_finished s"
  shows "set (returned s) = I"
proof -
  note d = world_okD [OF assms(1)]
  have "owned s w = {}" if "w < length (w_counters s)" for w
    using d(3) [OF that] assms that all_finished_iff [OF assms(1)] items_empty by (auto simp: owned_def pc_ok_def)
  then show ?thesis using d(8) by auto
qed

section \<open>The serial counter returns its block\<close>

fun serial_items :: "nat \<Rightarrow> Value \<Rightarrow> u32 list" where
  "serial_items 0 c = []"
| "serial_items (Suc k) c =
     (case SerialCounter_next c of (None, _) \<Rightarrow> [] | (Some v, c) \<Rightarrow> v_start v # serial_items k c)"

lemma serial_items_eq:
  assumes "unat (Value_size c) \<le> k"
  shows "map unat (serial_items k c) = [unat (v_start c) ..< unat (v_end c)]"
  using assms
proof (induction k arbitrary: c)
  case 0
  then show ?case by (auto simp: Value_size_def unat_sub_if_size word_less_nat_alt split: if_splits)
next
  case (Suc k)
  show ?case
  proof (cases "v_start c < v_end c")
    case True
    then have start: "unat (v_start c + 1) = unat (v_start c) + 1"
      using unat_lt_32 [of "v_end c"] by (simp add: word_less_nat_alt unat_word_ariths)
    have "unat (Value_size (c\<lparr>v_start := v_start c + 1\<rparr>)) \<le> k"
      using Suc.prems True start by (auto simp: Value_size_def word_less_nat_alt unat_sub word_le_nat_alt)
    from Suc.IH [OF this] show ?thesis
      using True start by (simp add: SerialCounter_next_def word_less_nat_alt upt_conv_Cons)
  next
    case False
    then show ?thesis by (simp add: SerialCounter_next_def word_less_nat_alt)
  qed
qed

section \<open>Properties\<close>

text \<open>
  C3. Work stealing never loses or repeats an item: for a work list with disjoint blocks and any interleaving
  of the atomic operations of the workers, every item that \<^verbatim>\<open>next\<close> has returned so far was in the list, no
  item was returned twice, whatever the workers are, and once all workers have been told that there
  is no more work, every item of the list has been returned.
\<close>

theorem worklist_exactly_once:
  assumes "disjoint_blocks vs" "length vs < 2 ^ 64" "\<And>k. sched k < length vs"
  shows "\<exists>cs. StealingCounter_new (Worklist_create vs) (length vs) = ok cs \<and>
    (let s = Worklist_run sched (World_new cs) k in
     distinct (returned s) \<and> set (returned s) \<subseteq> (\<Union>v\<in>set vs. items v) \<and>
     (all_finished s \<longrightarrow> set (returned s) = (\<Union>v\<in>set vs. items v)))"
proof -
  let ?s = "Worklist_run sched (World_new (map pack vs)) k"
  have ok: "world_ok (2 ^ 32 - 2) (\<Union>v\<in>set vs. items v) ?s"
    using run_ok [OF initial_ok [OF assms(1)], of sched k] assms(3) by (simp add: World_new_def)
  show ?thesis
    unfolding Let_def using create_new [OF assms(2)] world_okD(7,8) [OF ok] done_ok [OF ok]
    by (intro exI [of _ "map pack vs"]) auto
qed

definition sample_values :: "Value list" where
  "sample_values = [\<lparr>v_start = 0, v_end = 3\<rparr>, \<lparr>v_start = 3, v_end = 3\<rparr>]"

lemma sample_values_ok: "disjoint_blocks sample_values" "length sample_values = 2"
  by (auto simp: disjoint_blocks_def sample_values_def items_def less_Suc_eq nth_Cons')

theorem worklist_exactly_once_witness:
  "\<exists>cs. StealingCounter_new (Worklist_create sample_values) 2 = ok cs \<and>
     distinct (returned (Worklist_run (\<lambda>k. k mod 2) (World_new cs) 20))"
proof -
  have len: "length sample_values < 2 ^ 64" by (simp add: sample_values_ok(2))
  have "\<And>k :: nat. k mod 2 < length sample_values" by (simp add: sample_values_ok(2))
  from worklist_exactly_once [OF sample_values_ok(1) len, of "\<lambda>k. k mod 2", OF this, where k = 20]
  show ?thesis unfolding Let_def sample_values_ok(2) by blast
qed

text \<open>
  C18. Work stealing ends: under every schedule that gives each worker a turn again and again, all workers are
  told after finitely many steps that there is no more work, although an exchange can fail and the
  search for a victim starts over; then every item was returned exactly once.
\<close>

theorem worklist_terminates:
  assumes "disjoint_blocks vs" "fair (length vs) sched"
  shows "\<exists>k. let s = Worklist_run sched (World_new (map pack vs)) k in
    all_finished s \<and> distinct (returned s) \<and> set (returned s) = (\<Union>v\<in>set vs. items v)"
proof -
  note ok = initial_ok [OF assms(1)]
  have l: "length (w_counters (World_new (map pack vs))) = length vs" by (simp add: World_new_def)
  obtain k where k: "all_finished (Worklist_run sched (World_new (map pack vs)) k)"
    using fair_finishes [OF ok] assms(2) l by auto
  have ok': "world_ok (2 ^ 32 - 2) (\<Union>v\<in>set vs. items v) (Worklist_run sched (World_new (map pack vs)) k)"
    using run_ok [OF ok, of sched k] assms(2) l by (simp add: fair_def)
  show ?thesis using k done_ok [OF ok' k] world_okD(7) [OF ok'] by (intro exI [of _ k]) (simp add: Let_def)
qed

theorem worklist_terminates_witness:
  "\<exists>k. let s = Worklist_run (\<lambda>k. k mod 2) (World_new (map pack sample_values)) k in
    all_finished s \<and> set (returned s) = {0, 1, 2}"
proof -
  have "\<exists>j\<ge>k. j mod 2 = w" if "w < 2" for w k :: nat
    using that by (intro exI [of _ "2 * k + w"]) auto
  then have "fair (length sample_values) (\<lambda>k. k mod 2)" by (simp add: fair_def sample_values_ok(2))
  moreover have "(\<Union>v\<in>set sample_values. items v) = {0, 1, 2}" by (auto simp: sample_values_def items_def)
  ultimately show ?thesis using worklist_terminates [OF sample_values_ok(1), of "\<lambda>k. k mod 2"] unfolding Let_def by metis
qed

end
