(* ===== verification/Mangled_Strings.thy ===== *)
theory Mangled_Strings
  imports Binary_IO
begin

text \<open>
  The representation of strings, \<^verbatim>\<open>rts/string.h\<close> and \<^verbatim>\<open>string.cpp\<close>, the operations of \<^verbatim>\<open>Input\<close> on them, and the
  primitive of \<^verbatim>\<open>rts/prim.cpp\<close>. The macros of ICU are not part of the repository and arguments of the operations:
  \<open>nxt\<close> is \<^verbatim>\<open>U8_NEXT\<close> or \<^verbatim>\<open>U8_NEXT_UNSAFE\<close>, applied to the bytes from the index on, with the number of bytes
  it advances by and the code point (negative for an ill-formed sequence) as result, \<open>app\<close> is \<^verbatim>\<open>U8_APPEND_UNSAFE\<close> and
  \<open>tolower\<close> is \<^verbatim>\<open>u_tolower\<close>. A string that is written to an \<open>Output\<close> is appended to its bytes. The chunks passed to the
  function arguments of \<^verbatim>\<open>untrustedChunks\<close> and \<^verbatim>\<open>trustedChunks\<close> are collected in a list. Indices of type \<^verbatim>\<open>int\<close>
  overflow at \<open>2^31\<close>, which is undefined.
\<close>

section \<open>Untrusted strings\<close>

type_synonym u8_next = "bytes \<Rightarrow> nat \<times> int"

function ascii_run :: "bytes \<Rightarrow> nat \<Rightarrow> nat" where
  "ascii_run p i = (if i < length p \<and> p ! i > 0 \<and> p ! i < 0x80 then ascii_run p (i + 1) else i)"
  by pat_completeness auto

termination
  by (relation "measure (\<lambda>(p, i). length p - i)") auto

declare ascii_run.simps [simp del]

text \<open>\<^verbatim>\<open>UChar\<close> is an unsigned type of 16 bits.\<close>

partial_function (option) untrusted_loop :: "u8_next \<Rightarrow> bytes \<Rightarrow> nat \<Rightarrow> nat \<Rightarrow> bytes list \<Rightarrow> (nat \<times> bytes list) result option" where
  "untrusted_loop nxt p i k chunks =
     (if i \<ge> length p then Some (raise Undefined)
      else
        let (n, cp) = nxt (drop i p); j = i + n; c = (word_of_int cp :: u16) in
        if j \<ge> 2 ^ 31 then Some (raise Undefined)
        else if c = 0 then
          if j < length p then
            if j + 1 \<ge> 2 ^ 31 then Some (raise Undefined)
            else if p ! j = 0 then Some (ok (j + 1, chunks @ [take (j - k - 1) (drop k p)]))
            else if p ! j = 1 then untrusted_loop nxt p (j + 1) (j + 1) (chunks @ [take (j - k) (drop k p)])
            else Some (raise (RtsError ''invalid NUL in mangled string''))
          else Some (raise (RtsError ''truncated terminator in mangled string''))
        else if uint c < 0 then Some (raise (RtsError ''invalid UTF-8 string''))
        else untrusted_loop nxt p j k chunks)"

declare untrusted_loop.simps [code]

definition untrustedChunks :: "u8_next \<Rightarrow> bytes \<Rightarrow> (nat \<times> bytes list) result option" where
  "untrustedChunks nxt p =
     (let i = ascii_run p 0 in
      if i + 1 \<ge> 2 ^ 31 then Some (raise Undefined)
      else if i + 1 < length p \<and> p ! i = 0 \<and> p ! (i + 1) = 0 then
        if i + 2 \<ge> 2 ^ 31 then Some (raise Undefined) else Some (ok (i + 2, [take i p]))
      else untrusted_loop nxt p i 0 [])"

definition validateUntrustedString :: "u8_next \<Rightarrow> bytes \<Rightarrow> nat result option" where
  "validateUntrustedString nxt rng = map_option (\<lambda>r. rbind r (\<lambda>(n, _). ok n)) (untrustedChunks nxt rng)"

definition demangleUntrustedString :: "u8_next \<Rightarrow> bytes \<Rightarrow> bytes \<Rightarrow> (nat \<times> bytes) result option" where
  "demangleUntrustedString nxt rng output =
     map_option (\<lambda>r. rbind r (\<lambda>(n, chunks). ok (n, fold (\<lambda>c out. out @ c) chunks output))) (untrustedChunks nxt rng)"

section \<open>Trusted strings\<close>

definition memchr0 :: "bytes \<Rightarrow> nat option" where
  "memchr0 p = (let n = length (takeWhile (\<lambda>b. b \<noteq> 0) p) in if n < length p then Some n else None)"

function trusted_loop :: "bytes \<Rightarrow> nat \<Rightarrow> bytes list \<Rightarrow> (nat \<times> bytes list) result" where
  "trusted_loop p start chunks =
     (case memchr0 p of
        None \<Rightarrow> raise CheckFailed
      | Some q \<Rightarrow>
          if \<not> q + 1 < length p then raise CheckFailed
          else if p ! (q + 1) = 0 then ok (start + q + 2, chunks @ [take q p])
          else trusted_loop (drop (q + 2) p) (start + q + 2) (chunks @ [take (q + 1) p]))"
  by pat_completeness auto

termination
  by (relation "measure (\<lambda>(p, start, chunks). length p)") auto

declare trusted_loop.simps [simp del]

definition trustedChunks :: "bytes \<Rightarrow> (nat \<times> bytes list) result" where
  "trustedChunks rng = trusted_loop rng 0 []"

definition skipTrustedString :: "bytes \<Rightarrow> (nat \<times> nat) result" where
  "skipTrustedString rng =
     rbind (trustedChunks rng) (\<lambda>(size, chunks).
     let nuls = fold (\<lambda>_ n. n + 1) chunks (0 :: nat) in
     rbind (guard (nuls > 0) CheckFailed) (\<lambda>_.
     rbind (guard (size \<ge> nuls * 2) CheckFailed) (\<lambda>_.
     ok (size, size - nuls - 1))))"

text \<open>The buffer is the memory of the caller; the code does not check its size.\<close>

definition demangleTrustedString :: "bytes \<Rightarrow> bytes \<Rightarrow> (nat \<times> bytes) result" where
  "demangleTrustedString rng buffer =
     rbind (trustedChunks rng) (\<lambda>(_, chunks).
     rbind (rfold (\<lambda>c (out, buf).
         rbind (guard (out + length c \<le> length buf) Undefined) (\<lambda>_.
         ok (out + length c, take out buf @ c @ drop (out + length c) buf))) chunks (0, buffer)) ok)"

section \<open>Mangling\<close>

lemma memchr0_less: "memchr0 p = Some q \<Longrightarrow> q < length p"
  by (auto simp: memchr0_def Let_def split: if_splits)

function mangle_loop :: "bytes \<Rightarrow> bytes \<Rightarrow> bytes" where
  "mangle_loop p output =
     (case memchr0 p of
        Some q \<Rightarrow> mangle_loop (drop (q + 1) p) (output @ take (q + 1) p @ [1])
      | None \<Rightarrow> output @ p)"
  by pat_completeness auto

termination
  by (relation "measure (\<lambda>(p, output). length p)") (auto dest: memchr0_less)

declare mangle_loop.simps [simp del]

definition mangleString :: "bytes \<Rightarrow> bytes \<Rightarrow> bytes" where
  "mangleString rng output = (if rng \<noteq> [] then mangle_loop rng output else output) @ [0, 0]"

section \<open>Lower case\<close>

partial_function (option) toLower_loop :: "u8_next \<Rightarrow> (int \<Rightarrow> int) \<Rightarrow> (int \<Rightarrow> bytes) \<Rightarrow> bytes \<Rightarrow> nat \<Rightarrow> bytes \<Rightarrow> bytes result option" where
  "toLower_loop nxt tolower app rng i output =
     (if i < length rng then
        if i + 1 \<ge> 2 ^ 31 then Some (raise Undefined)
        else
          let b = rng ! i in
          if b < 0x80 then
            let b = (if b \<ge> 0x41 \<and> b \<le> 0x5A then b - 0x41 + 0x61 else b) in
            toLower_loop nxt tolower app rng (i + 1) (output @ [b])
          else
            let (n, c) = nxt (drop i rng); j = i + n; buf = app (tolower c) in
            if j > length rng \<or> j \<ge> 2 ^ 31 \<or> length buf > 4 then Some (raise Undefined)
            else toLower_loop nxt tolower app rng j (output @ buf)
      else Some (ok output))"

declare toLower_loop.simps [code]

definition toLowerTrustedString :: "u8_next \<Rightarrow> (int \<Rightarrow> int) \<Rightarrow> (int \<Rightarrow> bytes) \<Rightarrow> bytes \<Rightarrow> bytes \<Rightarrow> bytes result option" where
  "toLowerTrustedString nxt tolower app rng output = toLower_loop nxt tolower app rng 0 output"

section \<open>Strings in an input\<close>

definition Input_skipUntrustedString :: "u8_next \<Rightarrow> bytes \<Rightarrow> bytes result option" where
  "Input_skipUntrustedString nxt buf =
     map_option (\<lambda>r. rbind r (\<lambda>n. ok (drop n buf))) (validateUntrustedString nxt buf)"

definition Input_demangleUntrustedString :: "u8_next \<Rightarrow> bytes \<Rightarrow> bytes \<Rightarrow> (bytes \<times> bytes) result option" where
  "Input_demangleUntrustedString nxt buf output =
     map_option (\<lambda>r. rbind r (\<lambda>(n, output). ok (drop n buf, output))) (demangleUntrustedString nxt buf output)"

definition Input_skipTrustedString :: "bytes \<Rightarrow> (nat \<times> bytes) result" where
  "Input_skipTrustedString buf = rbind (skipTrustedString buf) (\<lambda>(n, size). ok (size, drop n buf))"

section \<open>Byte spans\<close>

text \<open>The loop counts with an \<^verbatim>\<open>int\<close>.\<close>

fun spans_loop :: "varint_enc \<Rightarrow> varint_dec \<Rightarrow> nat \<Rightarrow> nat \<Rightarrow> u64 \<Rightarrow> bytes \<Rightarrow> bytes \<Rightarrow> bytes result" where
  "spans_loop enc dec 0 i start input output = ok output"
| "spans_loop enc dec (Suc n) i start input output =
     rbind (Input_packed dec input) (\<lambda>(offset, input).
     let start = start + offset in
     rbind (Input_packed dec input) (\<lambda>(len, input).
     rbind (guard (i + 1 < 2 ^ 31) Undefined) (\<lambda>_.
     spans_loop enc dec n (i + 1) start input (output @ enc start @ enc len))))"

definition relToAbsByteSpans :: "varint_enc \<Rightarrow> varint_dec \<Rightarrow> bytes \<Rightarrow> bytes \<Rightarrow> bytes result" where
  "relToAbsByteSpans enc dec rng output =
     rbind (Input_packed dec rng) (\<lambda>(n, input). spans_loop enc dec (unat n) 0 0 input (output @ enc n))"

end
