(* ===== verification/Mangled_Strings_Correct.thy ===== *)
theory Mangled_Strings_Correct
  imports Mangled_Strings
begin

text \<open>
  What the representation of strings guarantees: mangled strings followed by anything compare as the strings do,
  and demangling gives the string back. The hypotheses on ICU are the documented meaning of its macros on
  well-formed UTF-8, stated as the locale \<open>utf8_codec\<close> and shown for an encoder and decoder written out here.
\<close>

section \<open>Mangled strings\<close>

definition mangled :: "bytes \<Rightarrow> bytes" where
  "mangled s = concat (map (\<lambda>b. if b = 0 then [0, 1] else [b]) s)"

lemma mangled_simps [simp]:
  "mangled [] = []" "mangled (b # s) = (if b = 0 then [0, 1] else [b]) @ mangled s" "mangled (s @ t) = mangled s @ mangled t"
  by (simp_all add: mangled_def)

lemma mangled_plain: "0 \<notin> set s \<Longrightarrow> mangled s = s"
  by (induction s) auto

lemma length_mangled: "length (mangled s) = length s + count_list s 0"
  by (induction s) auto

lemma memchr0_split: "0 \<notin> set xs \<Longrightarrow> memchr0 (xs @ 0 # ys) = Some (length xs)"
proof -
  assume "0 \<notin> set xs"
  then have "takeWhile (\<lambda>b. b \<noteq> 0) (xs @ 0 # ys) = xs" by (subst takeWhile_append2) auto
  then show ?thesis by (simp add: memchr0_def)
qed

lemma memchr0_None: "memchr0 p = None \<longleftrightarrow> 0 \<notin> set p"
proof -
  have "length (takeWhile (\<lambda>b. b \<noteq> 0) p) < length p \<longleftrightarrow> takeWhile (\<lambda>b. b \<noteq> 0) p \<noteq> p"
    by (metis length_takeWhile_le nless_le takeWhile_eq_take take_all_iff)
  then show ?thesis by (auto simp: memchr0_def Let_def takeWhile_eq_all_conv)
qed

text \<open>A string has no NUL, or it is a part without NUL, a NUL and a shorter string.\<close>

lemma nul_induct [case_names plain nul]:
  assumes "\<And>s. 0 \<notin> set s \<Longrightarrow> P s" "\<And>xs ys. 0 \<notin> set xs \<Longrightarrow> P ys \<Longrightarrow> P (xs @ (0 :: u8) # ys)"
  shows "P s"
proof (induction s rule: length_induct)
  case (1 s)
  show ?case
  proof (cases "0 \<in> set s")
    case True
    then obtain xs ys where "s = xs @ 0 # ys" "0 \<notin> set xs" using split_list_first by metis
    then show ?thesis using assms(2) [of xs ys] 1 by simp
  qed (rule assms(1))
qed

lemma mangle_loop_eq: "mangle_loop p out = out @ mangled p"
proof (induction p arbitrary: out rule: nul_induct)
  case (plain s)
  then show ?case by (subst mangle_loop.simps) (simp add: memchr0_None [THEN iffD2] mangled_plain)
next
  case (nul xs ys)
  then show ?case by (subst mangle_loop.simps) (simp add: memchr0_split mangled_plain)
qed

lemma mangleString_eq: "mangleString s out = out @ mangled s @ [0, 0]"
  by (simp add: mangleString_def mangle_loop_eq)

lemma mangled_less:
  "mangled s @ 0 # 0 # r < mangled t @ 0 # 0 # r' \<longleftrightarrow> s < t \<or> s = t \<and> r < r'"
proof (induction s arbitrary: t)
  case Nil
  show ?case
  proof (cases t)
    case (Cons b t')
    have "(0 :: u8) < b" if "b \<noteq> 0" using that by (simp add: word_gt_0)
    then show ?thesis by (simp add: Cons)
  qed simp
next
  case (Cons a s)
  show ?case
  proof (cases t)
    case Nil
    then show ?thesis by simp
  next
    case t: (Cons b t')
    have "(0 :: u8) < b" if "b \<noteq> 0" for b using that by (simp add: word_gt_0)
    then show ?thesis using Cons.IH [of t'] by (auto simp: t)
  qed
qed

section \<open>Trusted strings\<close>

lemma trusted_loop_mangled:
  "\<exists>cs. trusted_loop (mangled s @ 0 # 0 # r) start chunks = ok (start + length (mangled s) + 2, chunks @ cs) \<and>
     concat cs = s \<and> length cs = Suc (count_list s 0)"
proof (induction s arbitrary: start chunks rule: nul_induct)
  case (plain s)
  then show ?case
    by (subst trusted_loop.simps) (simp add: memchr0_split mangled_plain count_list_0_iff nth_append)
next
  case (nul xs ys)
  obtain cs where cs: "trusted_loop (mangled ys @ 0 # 0 # r) (start + length xs + 2) (chunks @ [xs @ [0]]) =
      ok (start + length xs + 2 + length (mangled ys) + 2, (chunks @ [xs @ [0]]) @ cs)"
    "concat cs = ys" "length cs = Suc (count_list ys 0)" using nul(2) by blast
  show ?case
    using nul(1) cs by (intro exI [of _ "(xs @ [0]) # cs"], subst trusted_loop.simps)
      (simp add: memchr0_split mangled_plain nth_append count_list_0_iff)
qed

lemma fold_count: "fold (\<lambda>_. Suc) cs k = k + length cs"
  by (induction cs arbitrary: k) simp_all

lemma skipTrustedString_mangled:
  "skipTrustedString (mangleString s [] @ r) = ok (length (mangleString s []), length s)"
proof -
  obtain cs where cs: "trusted_loop (mangled s @ 0 # 0 # r) 0 [] = ok (length (mangled s) + 2, cs)" "length cs = Suc (count_list s 0)"
    using trusted_loop_mangled [of s r 0 "[]"] by auto
  then show ?thesis using count_le_length [of s 0]
    by (simp add: skipTrustedString_def trustedChunks_def mangleString_eq fold_count length_mangled Let_def) auto
qed

lemma copy_chunks:
  "rfold (\<lambda>c (out, buf). rbind (guard (out + length c \<le> length buf) Undefined) (\<lambda>_.
       ok (out + length c, take out buf @ c @ drop (out + length c) buf))) cs (out, buf) =
     (if cs = [] \<or> out + length (concat cs) \<le> length buf
      then ok (out + length (concat cs), take out buf @ concat cs @ drop (out + length (concat cs)) buf) else raise Undefined)"
proof (induction cs arbitrary: out buf)
  case (Cons c cs)
  show ?case
  proof (cases "out + length c \<le> length buf")
    case True
    then show ?thesis using Cons.IH [of "out + length c" "take out buf @ c @ drop (out + length c) buf"]
      by (auto simp: ac_simps)
  qed auto
qed simp

lemma demangleTrustedString_mangled:
  "demangleTrustedString (mangleString s [] @ r) buffer =
     (if length s \<le> length buffer then ok (length s, s @ drop (length s) buffer) else raise Undefined)"
proof -
  obtain cs where cs: "trusted_loop (mangled s @ 0 # 0 # r) 0 [] = ok (length (mangled s) + 2, cs)" "concat cs = s" "length cs > 0"
    using trusted_loop_mangled [of s r 0 "[]"] by force
  then show ?thesis by (simp add: demangleTrustedString_def trustedChunks_def mangleString_eq copy_chunks)
qed

section \<open>UTF-8\<close>

definition scalar :: "int \<Rightarrow> bool" where
  "scalar c \<longleftrightarrow> 0 \<le> c \<and> c < 0x110000 \<and> \<not> (0xD800 \<le> c \<and> c < 0xE000)"

definition utf8 :: "(int \<Rightarrow> bytes) \<Rightarrow> int list \<Rightarrow> bytes" where
  "utf8 app cs = concat (map app cs)"

lemma utf8_simps [simp]:
  "utf8 app [] = []" "utf8 app (c # cs) = app c @ utf8 app cs" "utf8 app (as @ cs) = utf8 app as @ utf8 app cs"
  by (simp_all add: utf8_def)

text \<open>
  What ICU documents of its macros: \<^verbatim>\<open>U8_APPEND_UNSAFE\<close> writes a character below 128 as its byte and every other one as
  up to four bytes from 128 on, and \<^verbatim>\<open>U8_NEXT\<close> reads a character that was written.
\<close>

locale utf8_codec =
  fixes nxt :: u8_next and app :: "int \<Rightarrow> bytes"
  assumes app_ascii: "0 \<le> c \<Longrightarrow> c < 128 \<Longrightarrow> app c = [word_of_int c]"
    and app_multi: "scalar c \<Longrightarrow> 128 \<le> c \<Longrightarrow> app c \<noteq> [] \<and> length (app c) \<le> 4 \<and> (\<forall>b\<in>set (app c). 128 \<le> b)"
    and nxt_app: "scalar c \<Longrightarrow> nxt (app c @ r) = (length (app c), c)"
begin

lemma app_zero: "app 0 = [0]"
  using app_ascii [of 0] by simp

lemma ascii_byte:
  assumes "0 < c" "c < (128 :: int)"
  shows "(word_of_int c :: u8) \<noteq> 0 \<and> word_of_int c < (128 :: u8)"
proof -
  have u: "uint (word_of_int c :: u8) = c" using assms by (simp add: uint_word_of_int_eq take_bit_int_eq_self)
  then have "word_of_int c \<noteq> (0 :: u8)" using assms(1) by (metis less_irrefl unsigned_0)
  moreover have "word_of_int c < (128 :: u8)" unfolding word_less_def u using assms(2) by simp
  ultimately show ?thesis by simp
qed

lemma app_no_nul:
  assumes "scalar c" "c \<noteq> 0"
  shows "0 \<notin> set (app c)" "app c \<noteq> []"
proof -
  have "\<not> (128 :: u8) \<le> 0" by simp
  moreover have "0 < c" using assms by (simp add: scalar_def)
  ultimately show "0 \<notin> set (app c)" "app c \<noteq> []"
    using app_multi [OF assms(1)] app_ascii [of c] ascii_byte [of c] by (cases "c < 128"; force)+
qed

lemma mangled_app: "scalar c \<Longrightarrow> mangled (app c) = (if c = 0 then [0, 1] else app c)"
  using app_no_nul [of c] by (simp add: app_zero mangled_plain)

lemma nxt_nul: "nxt (0 # r) = (1, 0)"
  using nxt_app [of 0 r] by (simp add: app_zero scalar_def)

lemma untrusted_loop_mangled:
  assumes "\<forall>c\<in>set cs. scalar c \<and> (c = 0 \<or> c mod 0x10000 \<noteq> 0)" "k \<le> length pre"
    "length pre + length (mangled (utf8 app cs)) + 2 < 2 ^ 31"
  shows "\<exists>chs. untrusted_loop nxt (pre @ mangled (utf8 app cs) @ 0 # 0 # r) (length pre) k chunks =
      Some (ok (length pre + length (mangled (utf8 app cs)) + 2, chunks @ chs)) \<and> concat chs = drop k pre @ utf8 app cs"
  using assms
proof (induction cs arbitrary: pre k chunks)
  case Nil
  then show ?case by (intro exI [of _ "[drop k pre]"], subst untrusted_loop.simps) (simp add: nxt_nul nth_append)
next
  case (Cons c cs)
  let ?p = "pre @ mangled (utf8 app (c # cs)) @ 0 # 0 # r"
  have c: "scalar c" "c = 0 \<or> c mod 0x10000 \<noteq> 0" using Cons.prems(1) by simp_all
  show ?case
  proof (cases "c = 0")
    case True
    let ?pre = "pre @ [0, 1]"
    obtain chs where chs: "untrusted_loop nxt ?p (length ?pre) (length ?pre) (chunks @ [drop k pre @ [0]]) =
        Some (ok (length ?pre + length (mangled (utf8 app cs)) + 2, (chunks @ [drop k pre @ [0]]) @ chs))"
      "concat chs = utf8 app cs"
      using Cons.IH [of "length ?pre" ?pre "chunks @ [drop k pre @ [0]]"] Cons.prems(1,3) True by (auto simp: app_zero)
    show ?thesis
      using chs Cons.prems(2,3) True
      by (intro exI [of _ "(drop k pre @ [0]) # chs"], subst untrusted_loop.simps) (simp add: nxt_nul nth_append app_zero Suc_diff_le)
  next
    case False
    let ?pre = "pre @ app c"
    have m: "mangled (app c) = app c" using mangled_app [OF c(1)] False by simp
    have "(word_of_int c :: u16) \<noteq> 0"
      using c(2) False by (simp add: word_of_int_eq_0_iff dvd_eq_mod_eq_0)
    moreover have "nxt (app c @ mangled (utf8 app cs) @ 0 # 0 # r) = (length (app c), c)" by (rule nxt_app [OF c(1)])
    moreover obtain chs where "untrusted_loop nxt (?pre @ mangled (utf8 app cs) @ 0 # 0 # r) (length ?pre) k chunks =
        Some (ok (length ?pre + length (mangled (utf8 app cs)) + 2, chunks @ chs))" "concat chs = drop k ?pre @ utf8 app cs"
      using Cons.IH [of k ?pre chunks] Cons.prems m by auto
    moreover have "app c \<noteq> []" by (rule app_no_nul(2) [OF c(1) False])
    ultimately show ?thesis using Cons.prems(2,3) m
      by (intro exI [of _ chs], subst untrusted_loop.simps) (simp add: add.assoc)
  qed
qed

lemma ascii_run_split:
  assumes "\<forall>b\<in>set as. b > 0 \<and> b < 0x80" "\<not> (y > 0 \<and> y < 0x80)"
  shows "ascii_run (pre @ as @ y # ys) (length pre) = length (pre @ as)"
  using assms
proof (induction as arbitrary: pre)
  case (Cons a as)
  then show ?case using Cons.IH [of "pre @ [a]"] by (subst ascii_run.simps) (simp add: nth_append)
qed (subst ascii_run.simps, auto simp: nth_append)

lemma untrustedChunks_mangled:
  assumes "\<forall>c\<in>set cs. scalar c \<and> (c = 0 \<or> c mod 0x10000 \<noteq> 0)" "length (mangled (utf8 app cs)) + 2 < 2 ^ 31"
  shows "\<exists>chs. untrustedChunks nxt (mangled (utf8 app cs) @ 0 # 0 # r) = Some (ok (length (mangled (utf8 app cs)) + 2, chs)) \<and>
    concat chs = utf8 app cs"
proof -
  let ?P = "\<lambda>c :: int. 0 < c \<and> c < 128"
  define as bs where "as = takeWhile ?P cs" and "bs = dropWhile ?P cs"
  have cs: "cs = as @ bs" and as: "\<forall>c\<in>set as. ?P c" by (auto simp: as_def bs_def dest: set_takeWhileD)
  have "utf8 app as = map word_of_int as" using as by (induction as) (simp_all add: app_ascii)
  then have u: "\<forall>b\<in>set (utf8 app as). b > 0 \<and> b < 0x80" using as ascii_byte by (auto simp: word_gt_0)
  then have m: "mangled (utf8 app as) = utf8 app as" by (intro mangled_plain) auto
  let ?p = "mangled (utf8 app cs) @ 0 # 0 # r"
  obtain y ys where ys: "mangled (utf8 app bs) @ 0 # 0 # r = y # ys" "\<not> (y > 0 \<and> y < 0x80)" "bs \<noteq> [] \<Longrightarrow> y = 0 \<Longrightarrow> hd ys = 1"
    "bs = [] \<Longrightarrow> y = 0 \<and> ys = 0 # r" "ys \<noteq> []"
  proof (cases bs)
    case Nil
    then show thesis by (intro that [of 0 "0 # r"]) simp_all
  next
    case (Cons c cs')
    then have "scalar c" using assms(1) cs by simp
    moreover have "\<not> ?P c" using Cons hd_dropWhile [of ?P cs] by (simp add: bs_def)
    ultimately have c: "scalar c" "\<not> ?P c" by simp_all
    show thesis
    proof (cases "c = 0")
      case True
      then show thesis using Cons by (intro that [of 0 "1 # mangled (utf8 app cs') @ 0 # 0 # r"]) (simp_all add: app_zero)
    next
      case False
      then have "128 \<le> c" using c by (simp add: scalar_def)
      then obtain b bs' where "app c = b # bs'" "128 \<le> b" using app_multi [OF c(1)] by (cases "app c") auto
      then show thesis using Cons mangled_app [OF c(1)] False
        by (intro that [of b "bs' @ mangled (utf8 app cs') @ 0 # 0 # r"]) auto
    qed
  qed
  have p: "?p = utf8 app as @ y # ys" by (simp add: cs m ys(1))
  have run: "ascii_run ?p 0 = length (utf8 app as)"
    using ascii_run_split [OF u ys(2), of "[]"] by (simp add: p)
  have len: "length (mangled (utf8 app cs)) = length (utf8 app as) + length (mangled (utf8 app bs))" by (simp add: cs m)
  show ?thesis
  proof (cases "bs = []")
    case True
    then show ?thesis using assms(2) ys(4) len by (simp add: untrustedChunks_def run) (simp add: p cs nth_append Let_def m)
  next
    case False
    then obtain z zs where z: "ys = z # zs" "y = 0 \<Longrightarrow> z = 1" using ys(3,5) by (cases ys) auto
    have "untrustedChunks nxt ?p = untrusted_loop nxt ?p (length (utf8 app as)) 0 []"
      using assms(2) z len unfolding untrustedChunks_def run by (auto simp: p nth_append Let_def)
    moreover have "\<exists>chs. untrusted_loop nxt (utf8 app as @ mangled (utf8 app bs) @ 0 # 0 # r) (length (utf8 app as)) 0 [] =
        Some (ok (length (utf8 app as) + length (mangled (utf8 app bs)) + 2, [] @ chs)) \<and> concat chs = drop 0 (utf8 app as) @ utf8 app bs"
      using assms(1) cs by (intro untrusted_loop_mangled) (use assms(2) len in auto)
    ultimately show ?thesis by (simp add: len) (simp add: cs m)
  qed
qed

end

lemma fold_append: "fold (\<lambda>c out. out @ c) cs out = out @ concat cs"
  by (induction cs arbitrary: out) simp_all

section \<open>Lower case\<close>

definition lower :: "(int \<Rightarrow> int) \<Rightarrow> int \<Rightarrow> int" where
  "lower tolower c = (if c < 128 then if 0x41 \<le> c \<and> c \<le> 0x5A then c + 32 else c else tolower c)"

context utf8_codec
begin

lemma lower_ascii:
  assumes "0 \<le> c" "c < 128"
  shows "app (lower tolower c) =
    [let b = word_of_int c :: u8 in if b \<ge> 0x41 \<and> b \<le> 0x5A then b - 0x41 + 0x61 else b]"
proof -
  have u: "uint (word_of_int c :: u8) = c" using assms by (simp add: uint_word_of_int_eq take_bit_int_eq_self)
  have "(0x41 :: u8) \<le> word_of_int c \<longleftrightarrow> 0x41 \<le> c" "word_of_int c \<le> (0x5A :: u8) \<longleftrightarrow> c \<le> 0x5A"
    unfolding word_le_def u by simp_all
  moreover have "word_of_int (c + 32) = (word_of_int c :: u8) - 0x41 + 0x61" by (simp add: wi_hom_add [symmetric])
  ultimately show ?thesis using assms by (simp add: lower_def app_ascii Let_def)
qed

lemma toLower_ascii:
  assumes "b < 0x80" "length pre + 1 < 2 ^ 31"
  shows "toLower_loop nxt tolower app (pre @ b # p) (length pre) out =
    toLower_loop nxt tolower app ((pre @ [b]) @ p) (length (pre @ [b])) (out @ [if b \<ge> 0x41 \<and> b \<le> 0x5A then b - 0x41 + 0x61 else b])"
  using assms by (subst toLower_loop.simps) (simp add: nth_append Let_def)

lemma toLower_multi:
  assumes "scalar c" "128 \<le> c" "scalar (tolower c)" "length pre + length (app c) < 2 ^ 31"
  shows "toLower_loop nxt tolower app (pre @ app c @ p) (length pre) out =
    toLower_loop nxt tolower app ((pre @ app c) @ p) (length (pre @ app c)) (out @ app (tolower c))"
proof -
  obtain b bs where b: "app c = b # bs" "128 \<le> b" using app_multi [OF assms(1,2)] by (cases "app c") auto
  have "length (app (tolower c)) \<le> 4"
    using app_multi [OF assms(3)] app_ascii [of "tolower c"] assms(3) by (cases "128 \<le> tolower c") (auto simp: scalar_def)
  moreover have "nxt (b # bs @ p) = (length (app c), c)" using nxt_app [OF assms(1), of p] b(1) by simp
  ultimately show ?thesis using assms(4) b
    by (subst toLower_loop.simps) (auto simp: nth_append Let_def)
qed

lemma toLower_loop_mangled:
  assumes "\<forall>c\<in>set cs. scalar c" "\<And>c. scalar c \<Longrightarrow> 128 \<le> c \<Longrightarrow> scalar (tolower c) \<and> tolower c \<noteq> 0"
    "length pre + length (mangled (utf8 app cs)) + 2 < 2 ^ 31"
  shows "toLower_loop nxt tolower app (pre @ mangled (utf8 app cs) @ [0, 0]) (length pre) out =
    Some (ok (out @ mangled (utf8 app (map (lower tolower) cs)) @ [0, 0]))"
  using assms(1,3)
proof (induction cs arbitrary: pre out)
  case Nil
  have "toLower_loop nxt tolower app (pre @ [0, 0]) (length (pre @ [0, 0])) (out @ [0, 0]) = Some (ok (out @ [0, 0]))"
    by (subst toLower_loop.simps) simp
  then show ?case using Nil toLower_ascii [of 0 pre tolower "[0]" out] toLower_ascii [of 0 "pre @ [0]" tolower "[]" "out @ [0]"] by simp
next
  case (Cons c cs)
  let ?q = "mangled (utf8 app cs) @ [0, 0]"
  have c: "scalar c" using Cons.prems(1) by simp
  consider "c = 0" | "0 < c" "c < 128" | "128 \<le> c" using c unfolding scalar_def by linarith
  then show ?case
  proof cases
    case 1
    have l: "lower tolower c = 0" using 1 by (simp add: lower_def)
    have one: "\<not> (65 :: u8) \<le> 1" by (simp add: word_le_nat_alt)
    show ?thesis
      using Cons.IH [of "pre @ [0, 1]" "out @ [0, 1]"] Cons.prems toLower_ascii [of 0 pre tolower "1 # ?q" out]
        toLower_ascii [of 1 "pre @ [0]" tolower ?q "out @ [0]"] unfolding list.map l by (simp add: 1 app_zero one)
  next
    case 2
    define b where "b = (word_of_int c :: u8)"
    define b' where "b' = (if b \<ge> 0x41 \<and> b \<le> 0x5A then b - 0x41 + 0x61 else b)"
    have b: "b \<noteq> 0" "b < 0x80" "app c = [b]" using ascii_byte [OF 2] 2 app_ascii [of c] by (simp_all add: b_def)
    have l: "app (lower tolower c) = [b']" using lower_ascii [of c tolower] 2 by (simp add: b_def b'_def Let_def)
    have "lower tolower c \<noteq> 0" "0 \<le> lower tolower c" "lower tolower c < 128" using 2 by (auto simp: lower_def)
    then have "b' \<noteq> 0" using l app_ascii [of "lower tolower c"] ascii_byte [of "lower tolower c"] by auto
    then show ?thesis
      using Cons.IH [of "pre @ [b]" "out @ [b']"] Cons.prems toLower_ascii [of b pre tolower ?q out] b l by (simp add: b'_def)
  next
    case 3
    have t: "scalar (tolower c)" "tolower c \<noteq> 0" using assms(2) [OF c 3] by simp_all
    then show ?thesis
      using Cons.IH [of "pre @ app c" "out @ app (tolower c)"] Cons.prems toLower_multi [of c tolower pre ?q out, OF c 3 t(1)]
        mangled_app [OF c] mangled_app [OF t(1)] 3 by (simp add: lower_def)
  qed
qed

end

section \<open>An encoder and decoder\<close>

text \<open>UTF-8 as ICU documents it; \<open>utf8_nxt\<close> reads one byte of an ill-formed sequence.\<close>

definition u8_of :: "int \<Rightarrow> u8" where
  "u8_of x = word_of_int x"

definition utf8_app :: "int \<Rightarrow> bytes" where
  "utf8_app c = map u8_of
     (if c < 0x80 then [c]
      else if c < 0x800 then [0xC0 + c div 64, 0x80 + c mod 64]
      else if c < 0x10000 then [0xE0 + c div 64 div 64, 0x80 + c div 64 mod 64, 0x80 + c mod 64]
      else [0xF0 + c div 64 div 64 div 64, 0x80 + c div 64 div 64 mod 64, 0x80 + c div 64 mod 64, 0x80 + c mod 64])"

definition utf8_nxt :: u8_next where
  "utf8_nxt p =
     (case map uint (take 4 p) of
        [] \<Rightarrow> (1, - 1)
      | b # t \<Rightarrow>
          let d = (\<lambda>i. t ! i - 0x80); tr = (\<lambda>n. n \<le> length t \<and> list_all (\<lambda>b. 0x80 \<le> b \<and> b < 0xC0) (take n t)) in
          if b < 0x80 then (1, b)
          else if 0xC2 \<le> b \<and> b < 0xE0 \<and> tr 1 then (2, (b - 0xC0) * 64 + d 0)
          else if 0xE0 \<le> b \<and> b < 0xF0 \<and> tr 2 then
            let c = ((b - 0xE0) * 64 + d 0) * 64 + d 1 in if 0x800 \<le> c \<and> scalar c then (3, c) else (1, - 1)
          else if 0xF0 \<le> b \<and> b < 0xF5 \<and> tr 3 then
            let c = (((b - 0xF0) * 64 + d 0) * 64 + d 1) * 64 + d 2 in if 0x10000 \<le> c \<and> scalar c then (4, c) else (1, - 1)
          else (1, - 1))"

lemma uint_byte: "0 \<le> x \<Longrightarrow> x < 256 \<Longrightarrow> uint (u8_of x) = x"
  by (simp add: u8_of_def uint_word_of_int_eq take_bit_int_eq_self)

lemma byte_ge_128: "128 \<le> x \<Longrightarrow> x < 256 \<Longrightarrow> (128 :: u8) \<le> u8_of x"
  unfolding word_le_def by (subst uint_byte) auto

lemma trail_byte: "0 \<le> 0x80 + (x :: int) mod 64" "0x80 + x mod 64 < 256" "0x80 + x mod 64 < 0xC0" "0x80 \<le> 0x80 + x mod 64"
  using pos_mod_bound [of 64 x] pos_mod_sign [of 64 x] by simp_all

lemma div_mod_64: "(c :: int) div 64 * 64 + c mod 64 = c"
  by simp

lemma utf8_nxt_app:
  assumes "scalar c"
  shows "utf8_nxt (utf8_app c @ r) = (length (utf8_app c), c)"
proof -
  consider "0 \<le> c" "c < 0x80" | "0x80 \<le> c" "c < 0x800" | "0x800 \<le> c" "c < 0x10000" | "0x10000 \<le> c" "c < 0x110000"
    using assms unfolding scalar_def by linarith
  then show ?thesis
  proof cases
    case 1
    then show ?thesis by (simp add: utf8_app_def utf8_nxt_def uint_byte Let_def)
  next
    case 2
    then have "2 \<le> c div 64" "c div 64 < 32" by linarith+
    then show ?thesis using 2 by (simp add: utf8_app_def utf8_nxt_def uint_byte trail_byte Let_def)
  next
    case 3
    then have "0 \<le> c div 64 div 64" "c div 64 div 64 < 16" by linarith+
    then show ?thesis using 3 assms by (simp add: utf8_app_def utf8_nxt_def uint_byte trail_byte Let_def)
  next
    case 4
    then have "0 \<le> c div 64 div 64 div 64" "c div 64 div 64 div 64 < 5" by linarith+
    then show ?thesis using 4 assms by (simp add: utf8_app_def utf8_nxt_def uint_byte trail_byte Let_def)
  qed
qed

lemma utf8_app_multi:
  assumes "scalar c" "128 \<le> c"
  shows "utf8_app c \<noteq> [] \<and> length (utf8_app c) \<le> 4 \<and> (\<forall>b\<in>set (utf8_app c). 128 \<le> b)"
proof -
  have t: "(128 :: u8) \<le> u8_of (0x80 + x mod 64)" for x by (rule byte_ge_128) (rule trail_byte)+
  consider "c < 0x800" | "0x800 \<le> c" "c < 0x10000" | "0x10000 \<le> c" "c < 0x110000" using assms unfolding scalar_def by linarith
  then show ?thesis
  proof cases
    case 1
    then have "(128 :: u8) \<le> u8_of (0xC0 + c div 64)" using assms(2) by (intro byte_ge_128) linarith+
    then show ?thesis using 1 assms(2) t by (simp add: utf8_app_def)
  next
    case 2
    then have "(128 :: u8) \<le> u8_of (0xE0 + c div 64 div 64)" by (intro byte_ge_128) linarith+
    then show ?thesis using 2 t by (simp add: utf8_app_def)
  next
    case 3
    then have "(128 :: u8) \<le> u8_of (0xF0 + c div 64 div 64 div 64)" by (intro byte_ge_128) linarith+
    then show ?thesis using 3 t by (simp add: utf8_app_def)
  qed
qed

interpretation u8: utf8_codec utf8_nxt utf8_app
  by unfold_locales (simp add: utf8_app_def u8_of_def, rule utf8_app_multi, assumption+, rule utf8_nxt_app, assumption)

section \<open>Byte spans\<close>

fun abs_spans :: "u64 \<Rightarrow> (u64 \<times> u64) list \<Rightarrow> (u64 \<times> u64) list" where
  "abs_spans start [] = []"
| "abs_spans start ((offset, len) # spans) = (start + offset, len) # abs_spans (start + offset) spans"

definition span_bytes :: "varint_enc \<Rightarrow> (u64 \<times> u64) list \<Rightarrow> bytes" where
  "span_bytes enc spans = concat (map (\<lambda>(a, b). enc a @ enc b) spans)"

lemma spans_loop_abs:
  assumes "varint_codec enc dec" "i + length spans < 2 ^ 31"
  shows "spans_loop enc dec (length spans) i start (span_bytes enc spans @ r) out = ok (out @ span_bytes enc (abs_spans start spans))"
  using assms(2)
proof (induction spans arbitrary: i start out)
  case (Cons s spans)
  then show ?case
    by (cases s) (simp add: span_bytes_def varint_codec.packed64_enc [OF assms(1)] Let_def)
qed (simp add: span_bytes_def)

section \<open>Properties\<close>

text \<open>
  C27. The comparison of bytes sorts mangled strings: two strings in mangled form, whatever follows them, compare as
  the strings, and what follows counts only if they are equal. In particular no mangled string is a proper prefix
  of another.
\<close>

theorem mangleString_order:
  "mangleString s [] @ r < mangleString t [] @ r' \<longleftrightarrow> s < t \<or> s = t \<and> r < r'"
  using mangled_less [of s r t r'] by (simp add: mangleString_eq)



text \<open>
  The reading of untrusted strings stores the code point in 16 bits and does not compare the index with the size: a
  character such as U+10000 counts as a NUL and is cut, ill-formed UTF-8 is accepted, and a string without
  terminator is read past its end.
\<close>

lemma utf8_nxt_examples:
  "utf8_nxt [0xF0, 0x90, 0x80, 0x80, 0, 0] = (4, 0x10000)" "utf8_nxt [0xFF, 0, 0] = (1, - 1)" "utf8_nxt [0, 0] = (1, 0)"
  by code_simp+

lemma ascii_run_examples: "ascii_run [0xF0, 0x90, 0x80, 0x80, 0, 0] 0 = 0" "ascii_run [0xFF, 0, 0] 0 = 0" "ascii_run [97] 0 = 1"
  by code_simp+

lemma untrusted_multiple_of_10000:
  "mangleString (utf8_app 0x10000) [] = [0xF0, 0x90, 0x80, 0x80, 0, 0]"
  "demangleUntrustedString utf8_nxt [0xF0, 0x90, 0x80, 0x80, 0, 0] [] = Some (ok (5, [0xF0, 0x90, 0x80]))"
proof -
  have "untrusted_loop utf8_nxt [0xF0, 0x90, 0x80, 0x80, 0, 0] 0 0 [] = Some (ok (5, [[0xF0, 0x90, 0x80]]))"
    by (subst untrusted_loop.simps) (simp add: utf8_nxt_examples Let_def)
  then show "demangleUntrustedString utf8_nxt [0xF0, 0x90, 0x80, 0x80, 0, 0] [] = Some (ok (5, [0xF0, 0x90, 0x80]))"
    by (simp add: demangleUntrustedString_def untrustedChunks_def ascii_run_examples)
qed code_simp

lemma untrusted_accepts_ill_formed: "demangleUntrustedString utf8_nxt [0xFF, 0, 0] [] = Some (ok (3, [0xFF]))"
proof -
  have "untrusted_loop utf8_nxt [0xFF, 0, 0] 1 0 [] = Some (ok (3, [[0xFF]]))"
    by (subst untrusted_loop.simps) (simp add: utf8_nxt_examples Let_def)
  then have "untrusted_loop utf8_nxt [0xFF, 0, 0] 0 0 [] = Some (ok (3, [[0xFF]]))"
    by (subst untrusted_loop.simps) (simp add: utf8_nxt_examples Let_def)
  then show ?thesis by (simp add: demangleUntrustedString_def untrustedChunks_def ascii_run_examples)
qed

lemma untrusted_reads_past_end: "validateUntrustedString nxt [97] = Some (raise Undefined)"
proof -
  have "untrusted_loop nxt [97] 1 0 [] = Some (raise Undefined)" by (subst untrusted_loop.simps) simp
  then show ?thesis by (simp add: validateUntrustedString_def untrustedChunks_def ascii_run_examples)
qed

text \<open>
  C39. Converting a mangled string to lower case gives the mangled form of the string whose characters are converted
  one by one, by the rule for the ASCII letters and by ICU for the others; the encoding and the terminator are kept.
\<close>

theorem toLowerTrustedString_mangled:
  assumes "utf8_codec nxt app" "\<forall>c\<in>set cs. scalar c" "\<And>c. scalar c \<Longrightarrow> 128 \<le> c \<Longrightarrow> scalar (tolower c) \<and> tolower c \<noteq> 0"
    "length (mangleString (utf8 app cs) []) < 2 ^ 31"
  shows "toLowerTrustedString nxt tolower app (mangleString (utf8 app cs) []) out =
    Some (ok (mangleString (utf8 app (map (lower tolower) cs)) out))"
  using utf8_codec.toLower_loop_mangled [of nxt app cs tolower "[]" out, OF assms(1-3)] assms(4)
  by (simp add: toLowerTrustedString_def mangleString_eq)

theorem toLowerTrustedString_mangled_witness:
  "toLowerTrustedString utf8_nxt (\<lambda>c. if c = 0xC4 then 0xE4 else c) utf8_app (mangleString (utf8 utf8_app [0x41, 0xC4, 0]) []) [] =
     Some (ok (mangleString (utf8 utf8_app [0x61, 0xE4, 0]) []))"
proof -
  have "mangleString (utf8 utf8_app [0x41, 0xC4, 0]) [] = [0x41, 0xC3, 0x84, 0, 1, 0, 0]" by code_simp
  then have l: "length (mangleString (utf8 utf8_app [0x41, 0xC4, 0]) []) < 2 ^ 31" by simp
  have "toLowerTrustedString utf8_nxt (\<lambda>c. if c = 0xC4 then 0xE4 else c) utf8_app (mangleString (utf8 utf8_app [0x41, 0xC4, 0]) []) [] =
     Some (ok (mangleString (utf8 utf8_app (map (lower (\<lambda>c. if c = 0xC4 then 0xE4 else c)) [0x41, 0xC4, 0])) []))"
    by (rule toLowerTrustedString_mangled [OF u8.utf8_codec_axioms _ _ l]) (auto simp: scalar_def)
  then show ?thesis by (simp add: lower_def)
qed

text \<open>
  The byte spans read with offsets relative to the previous start are written with the running sums, modulo
  \<open>2^64\<close>, and unchanged lengths.
\<close>

lemma relToAbsByteSpans_sums:
  assumes "varint_codec enc dec" "length spans < 2 ^ 31"
  shows "relToAbsByteSpans enc dec (enc (of_nat (length spans)) @ span_bytes enc spans) out =
    ok (out @ enc (of_nat (length spans)) @ span_bytes enc (abs_spans 0 spans))"
proof -
  have "unat (of_nat (length spans) :: u64) = length spans" using assms(2) by (intro unat_of_nat_64) simp
  then show ?thesis
    using spans_loop_abs [OF assms(1), of 0 spans 0 "[]" "out @ enc (of_nat (length spans))"] assms(2)
    by (simp add: relToAbsByteSpans_def varint_codec.packed64_enc [OF assms(1)])
qed

end
