(* ===== verification/Json_Escape.thy ===== *)
theory Json_Escape
  imports Mangled_Strings_Correct
begin

text \<open>
  The escaping of strings and the printing of numbers in \<^verbatim>\<open>rts/json.cpp\<close>. A \<^verbatim>\<open>char\<close> is a byte; sizes are natural
  numbers, as no buffer of more than \<open>2^61\<close> bytes exists. The caller's buffer \<open>out\<close> is its bytes; a write
  outside it is \<open>Undefined\<close> and a failed \<^verbatim>\<open>assert\<close> is \<open>CheckFailed\<close>. The decimal printing of folly
  (\<^verbatim>\<open>to_ascii_decimal\<close>) is the argument \<open>ascii\<close>. Reading JSON and the access to JSON values are calls of folly.
\<close>

section \<open>Escapes\<close>

definition K :: u8 where
  "K = 0"

definition Z :: u8 where
  "Z = 1"

definition X :: u8 where
  "X = 2"

definition regularEscapes :: "u8 list" where
  "regularEscapes =
     replicate 8 X @ [0x62, 0x74, 0x6E, X, 0x66, 0x72, X, X] @ replicate 16 X @ [K, K, 0x22] @ replicate 57 K @ [0x5C] @ replicate 163 K"

definition mangledEscapes :: "u8 list" where
  "mangledEscapes =
     [Z] @ replicate 7 X @ [0x62, 0x74, 0x6E, X, 0x66, 0x72, X, X] @ replicate 16 X @ [K, K, 0x22] @ replicate 57 K @ [0x5C] @ replicate 163 K"

fun escaped_size :: "u8 list \<Rightarrow> bytes \<Rightarrow> nat" where
  "escaped_size escapes [] = 0"
| "escaped_size escapes (c # text) =
     (let e = escapes ! unat c in
      if e = K then 1 + escaped_size escapes text
      else if e = Z then 6 + escaped_size escapes (drop 1 text)
      else if e = X then 6 + escaped_size escapes text
      else 2 + escaped_size escapes text)"

definition hex :: "u8 \<Rightarrow> u8" where
  "hex c = c + (if c < 10 then 0x30 else 0x61 - 10)"

definition write_at :: "nat \<Rightarrow> bytes \<Rightarrow> bytes \<Rightarrow> bytes result" where
  "write_at i bs out = (if i + length bs \<le> length out then ok (take i out @ bs @ drop (i + length bs) out) else raise Undefined)"

definition hex_escape :: "u8 \<Rightarrow> bytes" where
  "hex_escape c = [0x5C, 0x75, 0x30, 0x30, hex (drop_bit 4 c), hex (c AND 0x0F)]"

fun escape_loop :: "u8 list \<Rightarrow> bytes \<Rightarrow> nat \<Rightarrow> nat \<Rightarrow> bytes \<Rightarrow> bytes result" where
  "escape_loop escapes [] esize i out = rbind (guard (i = esize) CheckFailed) (\<lambda>_. ok out)"
| "escape_loop escapes (c # text) esize i out =
     (let e = escapes ! unat c;
          bs = (if e = K then [c] else if e = Z \<or> e = X then hex_escape c else [0x5C, e]) in
      rbind (write_at i bs out) (\<lambda>out.
      rbind (guard (i + length bs \<le> esize) CheckFailed) (\<lambda>_.
      escape_loop escapes (drop (if e = Z then 1 else 0) text) esize (i + length bs) out)))"

definition escape :: "u8 list \<Rightarrow> bytes \<Rightarrow> bytes \<Rightarrow> nat \<Rightarrow> bytes result" where
  "escape escapes text out esize =
     rbind (guard (esize \<ge> length text) CheckFailed) (\<lambda>_.
     if esize = length text then
       if length text \<noteq> 0 then write_at 0 text out else ok out
     else escape_loop escapes text esize 0 out)"

definition glean_json_string_escaped_size :: "bytes \<Rightarrow> nat" where
  "glean_json_string_escaped_size text = escaped_size regularEscapes text"

definition glean_json_string_escape :: "bytes \<Rightarrow> bytes \<Rightarrow> nat \<Rightarrow> bytes result" where
  "glean_json_string_escape text out esize = escape regularEscapes text out esize"

definition glean_json_mangled_string_escaped_size :: "bytes \<Rightarrow> nat result" where
  "glean_json_mangled_string_escaped_size text =
     rbind (guard (length text \<ge> 2) CheckFailed) (\<lambda>_. ok (escaped_size mangledEscapes (take (length text - 2) text)))"

definition glean_json_mangled_string_escape :: "bytes \<Rightarrow> bytes \<Rightarrow> nat \<Rightarrow> bytes result" where
  "glean_json_mangled_string_escape text out esize =
     rbind (guard (length text \<ge> 2) CheckFailed) (\<lambda>_. escape mangledEscapes (take (length text - 2) text) out esize)"

definition glean_json_encode_number :: "(u64 \<Rightarrow> bytes) \<Rightarrow> u64 \<Rightarrow> bytes \<Rightarrow> (nat \<times> bytes) result" where
  "glean_json_encode_number ascii number out =
     (if sint number < 0 then
        rbind (write_at 0 [0x2D] out) (\<lambda>out.
        let unumber = NOT number + 1 in
        rbind (write_at 1 (ascii unumber) out) (\<lambda>out. ok (1 + length (ascii unumber), out)))
      else rbind (write_at 0 (ascii number) out) (\<lambda>out. ok (length (ascii number), out)))"

section \<open>What the tables contain\<close>

text \<open>The strings of JSON: a byte that stands for itself, a short escape, or the number of a character.\<close>

fun hex_value :: "u8 \<Rightarrow> u8 option" where
  "hex_value c =
     (if 0x30 \<le> c \<and> c \<le> 0x39 then Some (c - 0x30) else if 0x61 \<le> c \<and> c \<le> 0x66 then Some (c - 0x61 + 10)
      else if 0x41 \<le> c \<and> c \<le> 0x46 then Some (c - 0x41 + 10) else None)"

definition short_escapes :: "(u8 \<times> u8) list" where
  "short_escapes = [(0x22, 0x22), (0x5C, 0x5C), (0x2F, 0x2F), (0x62, 8), (0x66, 12), (0x6E, 10), (0x72, 13), (0x74, 9)]"

fun json_string :: "bytes \<Rightarrow> bytes option" where
  "json_string [] = Some []"
| "json_string (c # s) =
     (if c = 0x5C then
        case s of
          [] \<Rightarrow> None
        | e # s \<Rightarrow>
            if e = 0x75 then
              case s of
                a # b # x # y # s \<Rightarrow>
                  if a = 0x30 \<and> b = 0x30 then
                    Option.bind (hex_value x) (\<lambda>x. Option.bind (hex_value y) (\<lambda>y. map_option ((#) (push_bit 4 x OR y)) (json_string s)))
                  else None
              | _ \<Rightarrow> None
            else Option.bind (map_of short_escapes e) (\<lambda>c. map_option ((#) c) (json_string s))
      else if c < 0x20 \<or> c = 0x22 then None
      else map_option ((#) c) (json_string s))"

text \<open>The bytes written for a byte.\<close>

definition json_byte :: "u8 \<Rightarrow> bytes" where
  "json_byte c =
     (let e = regularEscapes ! unat c in if e = K then [c] else if e = X then hex_escape c else [0x5C, e])"

definition byte_ok :: "u8 \<Rightarrow> bool" where
  "byte_ok c \<longleftrightarrow> length regularEscapes = 256 \<and> regularEscapes ! unat c \<noteq> Z \<and>
     (c \<noteq> 0 \<longrightarrow> mangledEscapes ! unat c = regularEscapes ! unat c) \<and>
     (case json_byte c of
        [a] \<Rightarrow> a = c \<and> a \<noteq> 0x5C \<and> \<not> (a < 0x20 \<or> a = 0x22)
      | [a, e] \<Rightarrow> a = 0x5C \<and> e \<noteq> 0x75 \<and> map_of short_escapes e = Some c
      | [a, u, z, z', x, y] \<Rightarrow> a = 0x5C \<and> u = 0x75 \<and> z = 0x30 \<and> z' = 0x30 \<and>
          Option.bind (hex_value x) (\<lambda>x. map_option (\<lambda>y. push_bit 4 x OR y) (hex_value y)) = Some c
      | _ \<Rightarrow> False)"

lemma bytes_ok: "list_all (\<lambda>n. byte_ok (of_nat n)) [0..<256]"
  by code_simp

lemma byte_ok: "byte_ok c"
proof -
  have "unat c \<in> set [0..<256]" using unat_lt_8 [of c] by simp
  then have "byte_ok (of_nat (unat c))" using bytes_ok unfolding list_all_iff by blast
  then show ?thesis by simp
qed

section \<open>Escaped strings\<close>

definition json_bytes :: "bytes \<Rightarrow> bytes" where
  "json_bytes s = concat (map json_byte s)"

lemma json_bytes_simps [simp]: "json_bytes [] = []" "json_bytes (c # s) = json_byte c @ json_bytes s"
  by (simp_all add: json_bytes_def)

lemma regular_not_Z: "regularEscapes ! unat (c :: u8) \<noteq> Z"
  using byte_ok [of c] by (simp add: byte_ok_def)

lemma escapes_differ [simp]: "K \<noteq> Z" "K \<noteq> X" "Z \<noteq> X" "Z \<noteq> K" "X \<noteq> K" "X \<noteq> Z"
  by (simp_all add: K_def Z_def X_def)

lemma nul_escape [simp]: "regularEscapes ! 0 = X" "mangledEscapes ! 0 = Z"
  by code_simp+

lemma mangled_table: "mangledEscapes ! unat (c :: u8) = (if c = 0 then Z else regularEscapes ! unat c)"
  using byte_ok [of c] by (simp add: byte_ok_def)

lemma json_byte_cases:
  obtains (plain) "json_byte c = [c]" "c \<noteq> 0x5C" "\<not> (c < 0x20 \<or> c = 0x22)"
  | (short) e where "json_byte c = [0x5C, e]" "e \<noteq> 0x75" "map_of short_escapes e = Some c"
  | (hex) x y a b where "json_byte c = [0x5C, 0x75, 0x30, 0x30, x, y]" "hex_value x = Some a" "hex_value y = Some b" "push_bit 4 a OR b = c"
  using byte_ok [of c] by (auto simp: byte_ok_def bind_eq_Some_conv split: list.splits)

lemma length_json_byte: "length (json_byte c) \<ge> 1" "length (json_byte c) = 1 \<Longrightarrow> json_byte c = [c]"
  by (cases rule: json_byte_cases [of c]; simp)+

lemma json_byte_nul: "length (json_byte 0) = 6"
  by (simp add: json_byte_def nul_escape escapes_differ hex_escape_def)

lemma json_string_byte: "json_string (json_byte c @ s) = map_option ((#) c) (json_string s)"
  by (cases rule: json_byte_cases [of c]) (simp_all del: hex_value.simps)

lemma json_string_bytes: "json_string (json_bytes s) = Some s"
  by (induction s) (simp_all add: json_string_byte del: json_string.simps(2))

lemma escaped_size_bytes: "escaped_size regularEscapes s = length (json_bytes s)"
  by (induction s) (auto simp: json_byte_def regular_not_Z hex_escape_def Let_def)

lemma write_at_ok: "i + length bs \<le> length out \<Longrightarrow> write_at i bs out = ok (take i out @ bs @ drop (i + length bs) out)"
  by (simp add: write_at_def)

lemma escape_loop_bytes:
  "i + length (json_bytes s) \<le> length out \<Longrightarrow>
   escape_loop regularEscapes s (i + length (json_bytes s)) i out = ok (take i out @ json_bytes s @ drop (i + length (json_bytes s)) out)"
proof (induction s arbitrary: i out)
  case (Cons c s)
  let ?bs = "json_byte c" and ?o = "take i out @ json_byte c @ drop (i + length (json_byte c)) out"
  have b: "(if regularEscapes ! unat c = K then [c] else if regularEscapes ! unat c = Z \<or> regularEscapes ! unat c = X then hex_escape c
      else [0x5C, regularEscapes ! unat c]) = ?bs" by (simp add: json_byte_def regular_not_Z)
  have l: "length ?o = length out" using Cons.prems by simp
  show ?case
    using Cons.IH [of "i + length ?bs" ?o] Cons.prems
    by (simp add: b write_at_ok regular_not_Z Let_def ac_simps)
qed simp

lemma mangled_same: "(c :: u8) \<noteq> 0 \<Longrightarrow> mangledEscapes ! unat c = regularEscapes ! unat c"
  by (simp add: mangled_table)

lemma escape_loop_mangled: "escape_loop mangledEscapes (mangled s) n i out = escape_loop regularEscapes s n i out"
proof (induction s arbitrary: i out)
  case (Cons c s)
  then show ?case by (cases "c = 0") (simp_all add: mangled_same regular_not_Z Let_def)
qed simp

lemma escaped_size_mangled: "escaped_size mangledEscapes (mangled s) = escaped_size regularEscapes s"
proof (induction s)
  case (Cons c s)
  then show ?case by (cases "c = 0") (simp_all add: mangled_same regular_not_Z Let_def)
qed simp

lemma json_bytes_length: "length (json_bytes s) \<ge> length (mangled s)" "length (json_bytes s) = length (mangled s) \<Longrightarrow> json_bytes s = s \<and> 0 \<notin> set s"
proof (induction s)
  case (Cons c s)
  { case 1
    show ?case using Cons.IH(1) length_json_byte(1) [of c] json_byte_nul by (auto simp: add_le_mono) }
  { case 2
    show ?case using 2 Cons.IH length_json_byte [of c] json_byte_nul by (cases "c = 0") auto }
qed simp_all

lemma length_mangled_ge: "length s \<le> length (mangled s)"
  by (simp add: length_mangled)

lemma escape_regular:
  assumes "length (json_bytes s) \<le> length out"
  shows "escape regularEscapes s out (length (json_bytes s)) = ok (json_bytes s @ drop (length (json_bytes s)) out)"
proof (cases "length (json_bytes s) = length s")
  case True
  then have "json_bytes s = s" using json_bytes_length [of s] length_mangled_ge [of s] by simp
  then show ?thesis using assms by (simp add: escape_def write_at_ok)
next
  case False
  then show ?thesis using assms escape_loop_bytes [of 0 s out] json_bytes_length(1) [of s] length_mangled_ge [of s]
    by (simp add: escape_def)
qed

lemma escape_mangled:
  assumes "length (json_bytes s) \<le> length out"
  shows "escape mangledEscapes (mangled s) out (length (json_bytes s)) = ok (json_bytes s @ drop (length (json_bytes s)) out)"
proof (cases "length (json_bytes s) = length (mangled s)")
  case True
  then have "json_bytes s = s" "mangled s = s" using json_bytes_length(2) [of s] mangled_plain [of s] by simp_all
  then show ?thesis using assms by (simp add: escape_def write_at_ok)
next
  case False
  then show ?thesis using assms escape_loop_bytes [of 0 s out] json_bytes_length(1) [of s]
    by (simp add: escape_def escape_loop_mangled)
qed

section \<open>Numbers\<close>

definition digits_value :: "bytes \<Rightarrow> int" where
  "digits_value ds = foldl (\<lambda>v d. 10 * v + (uint d - 0x30)) 0 ds"

definition json_number :: "bytes \<Rightarrow> int" where
  "json_number s = (case s of c # ds \<Rightarrow> if c = 0x2D then - digits_value ds else digits_value s | [] \<Rightarrow> 0)"

lemma minus_uint:
  assumes "sint (w :: u64) < 0"
  shows "sint w = - uint (NOT w + 1)"
proof -
  have w: "NOT w + 1 = - w" by (simp add: minus_eq_not_plus_1)
  have "- w = word_of_int (- sint w)" by simp
  moreover have "- sint w \<le> 2 ^ 63" using sint_ge [of w] by simp
  ultimately have "uint (- w) = - sint w"
    using assms by (simp only: uint_word_of_int_eq) (simp add: take_bit_int_eq_self)
  then show ?thesis by (simp add: w)
qed

lemma encode_number_reads_back:
  assumes "\<And>n. digits_value (ascii n) = uint n \<and> ascii n \<noteq> [] \<and> 0x2D \<notin> set (ascii n)" "\<And>n. length (ascii n) < length out"
  shows "\<exists>n out'. glean_json_encode_number ascii w out = ok (n, out') \<and> json_number (take n out') = sint w \<and> length out' = length out"
proof (cases "sint w < 0")
  case True
  obtain b bs where out: "out = b # bs" using assms(2) by (cases out) auto
  have "length (ascii (NOT w + 1)) \<le> length bs" using assms(2) [of "NOT w + 1"] out by simp
  then show ?thesis
    using True assms(1) by (simp add: glean_json_encode_number_def write_at_def Let_def json_number_def out) (use minus_uint [OF True] in simp)
next
  case False
  obtain d ds where a: "ascii w = d # ds" using assms(1) [of w] by (cases "ascii w") auto
  have "d \<noteq> 0x2D" "digits_value (d # ds) = uint w" using assms(1) [of w] a by auto
  moreover have "uint w = sint w" using False sint_lt [of w] by (subst uint_sint) (simp add: take_bit_int_eq_self)
  ultimately show ?thesis using False assms(2) [of w] a by (simp add: glean_json_encode_number_def write_at_def json_number_def)
qed

section \<open>Properties\<close>

text \<open>
  C40. Escaping a string for JSON fills exactly the size computed for it, never writes past it, and what is written
  reads back as the string by the rules of JSON, so that it contains no quote, control character or backslash that
  is not part of an escape. Escaping the mangled form, without demangling it first, has the same size and writes the
  same bytes.
\<close>

theorem json_escape_reads_back:
  assumes "glean_json_string_escaped_size s \<le> length out"
  shows "\<exists>e. json_string e = Some s \<and> length e = glean_json_string_escaped_size s \<and>
    glean_json_string_escape s out (length e) = ok (e @ drop (length e) out) \<and>
    glean_json_mangled_string_escaped_size (mangleString s []) = ok (length e) \<and>
    glean_json_mangled_string_escape (mangleString s []) out (length e) = ok (e @ drop (length e) out)"
proof -
  have n: "length (json_bytes s) \<le> length out" using assms by (simp add: glean_json_string_escaped_size_def escaped_size_bytes)
  then show ?thesis
    by (intro exI [of _ "json_bytes s"])
      (simp add: json_string_bytes glean_json_string_escaped_size_def escaped_size_bytes glean_json_string_escape_def escape_regular
        glean_json_mangled_string_escaped_size_def glean_json_mangled_string_escape_def mangleString_eq escaped_size_mangled escape_mangled)
qed

theorem json_escape_reads_back_witness:
  "\<exists>e. json_string e = Some [0x61, 0x22, 0] \<and> length e = 9 \<and>
    glean_json_mangled_string_escape (mangleString [0x61, 0x22, 0] []) (replicate 10 0) (length e) = ok (e @ [0])"
proof -
  have n: "glean_json_string_escaped_size [0x61, 0x22, 0] = 9" by code_simp
  then have "glean_json_string_escaped_size [0x61, 0x22, 0] \<le> length (replicate 10 (0 :: u8))" by simp
  from json_escape_reads_back [OF this] obtain e where e: "json_string e = Some [0x61, 0x22, 0]" "length e = 9"
    "glean_json_mangled_string_escape (mangleString [0x61, 0x22, 0] []) (replicate 10 0) (length e) = ok (e @ drop (length e) (replicate 10 0))"
    unfolding n by (elim exE conjE) (rule that; assumption)
  moreover have "drop (length e) (replicate 10 (0 :: u8)) = [0]" using e(2) by simp
  ultimately show ?thesis by metis
qed

end
