(* ===== verification/Database_Diff.thy ===== *)
theory Database_Diff
  imports Define_Batch
begin

text \<open>
  The comparison of two databases, \<^verbatim>\<open>tools/diff/lib.cpp\<close>: the facts of the second one are renamed and defined on top
  of the first one. The three numbers it prints are its result.
\<close>

section \<open>Comparing two lookups\<close>

record DiffState =
  df_additional :: FactSet
  df_subst :: Substitution
  df_kept :: nat
  df_added :: nat

definition diff_step :: "Inventory \<Rightarrow> Lookup \<Rightarrow> Id \<Rightarrow> Ref \<Rightarrow> DiffState \<Rightarrow> DiffState result" where
  "diff_step inventory fst_db first_boundary r s =
     (case lookupPredicate inventory (ref_type r) of
        None \<Rightarrow> raise CheckFailed
      | Some pred \<Rightarrow>
          rbind (Predicate_substitute pred (Substituter_rename (df_subst s)) (ref_clause r)) (\<lambda>(out, key_size).
          rbind (Stacked_define FactSet_lookup FactSet_define fst_db (df_additional s) (ref_type r) (Clause_from out key_size) WordId_invalid)
            (\<lambda>(i, additional).
          let s = (if i < first_boundary then s\<lparr>df_kept := df_kept s + 1\<rparr> else s\<lparr>df_added := df_added s + 1\<rparr>) in
          rbind (Substitution_set (df_subst s) (ref_id r) i) (\<lambda>subst.
          ok (s\<lparr>df_additional := additional, df_subst := subst\<rparr>)))))"

definition glean_diff :: "Inventory \<Rightarrow> Lookup \<Rightarrow> Lookup \<Rightarrow> (nat \<times> nat \<times> u64) result" where
  "glean_diff inventory fst_db snd_db =
     (let first_starting = startingId fst_db; first_boundary = firstFreeId fst_db; second_starting = startingId snd_db;
          second_size = distance second_starting (firstFreeId snd_db) in
      rbind (rfold (diff_step inventory fst_db first_boundary) (enumerate snd_db WordId_invalid WordId_invalid)
        \<lparr>df_additional = FactSet_new first_boundary, df_subst = Substitution_new second_starting (unat second_size), df_kept = 0, df_added = 0\<rparr>)
        (\<lambda>s. ok (df_kept s, df_added s, distance first_starting first_boundary - of_nat (df_kept s))))"

section \<open>A database and itself\<close>

text \<open>A predicate renames the references of a fact: where they keep their ids, the fact stays what it is.\<close>

definition renames_refs :: "Inventory \<Rightarrow> Lookup \<Rightarrow> Ref \<Rightarrow> bool" where
  "renames_refs inventory L r \<longleftrightarrow>
     (\<exists>pred. lookupPredicate inventory (ref_type r) = Some pred \<and>
       (\<forall>f. (\<forall>i. factById L i \<noteq> None \<and> i < ref_id r \<longrightarrow> f i = i) \<longrightarrow>
         (\<exists>out n. Predicate_substitute pred f (ref_clause r) = ok (out, n) \<and>
           Clause_key (Clause_from out n) = Ref_key r \<and> Clause_value (Clause_from out n) = Ref_value r)))"

lemma define_in_base:
  assumes L: "lookup_contract L fs" and a: "Ref_view r \<in> set fs"
    and c: "Clause_key c = Ref_key r" "Clause_value c = Ref_value r"
  shows "Stacked_define FactSet_lookup FactSet_define L (FactSet_new (firstFreeId L)) (ref_type r) c WordId_invalid =
    ok (ref_id r, FactSet_new (firstFreeId L))"
proof -
  have p: "lookup_points L fs" using L by (simp add: lookup_contract_def lookup_forward_def)
  have i: "idByKey L (ref_type r) (Ref_key r) = ref_id r" using lookup_points.idByKey_iff [OF p a] by simp
  have b: "ref_id r < firstFreeId L" "ref_id r \<noteq> WordId_invalid"
    using lookup_points.ids_bounded [OF p a] lookup_points.fact_valid [OF p a] by simp_all
  then have z: "WordId_invalid < firstFreeId L" by (metis le_less_trans invalid_le)
  have s: "startingId (FactSet_lookup (FactSet_new (firstFreeId L))) = firstFreeId L" by (simp add: FactSet_lookup_def FactSet_new_def)
  have "facts_by_id fs (ref_id r) = Some (Ref_view r)" using facts_by_id_Some [OF lookup_points.facts_ok [OF p]] a by simp
  then have "map_option clause_view (factById L (ref_id r)) = Some (ref_type r, Ref_key r, Ref_value r)"
    using lookup_points.factById [OF p, of "ref_id r"] by (simp add: afact_view_def)
  then obtain t found where "factById L (ref_id r) = Some (t, found)" "Clause_value found = Ref_value r"
    by (auto simp: clause_view_def split_def)
  then show ?thesis using i b z s c by (simp add: Stacked_define_def Let_def)
qed

lemma diff_step_kept:
  assumes L: "lookup_contract L fs" and a: "Ref_view r \<in> set fs" and "renames_refs inventory L r"
    and s: "df_additional s = FactSet_new (firstFreeId L)" "Substitution_ok (df_subst s)" "in_block (df_subst s) (ref_id r)"
      "\<forall>i. factById L i \<noteq> None \<and> i < ref_id r \<longrightarrow> Substitution_subst (df_subst s) i = i"
  shows "\<exists>sub. diff_step inventory L (firstFreeId L) r s = ok (s\<lparr>df_subst := sub, df_kept := df_kept s + 1\<rparr>) \<and> Substitution_ok sub \<and>
    (\<forall>j. Substitution_subst sub j = (if j = ref_id r then j else Substitution_subst (df_subst s) j)) \<and> in_block sub = in_block (df_subst s)"
proof -
  have p: "lookup_points L fs" using L by (simp add: lookup_contract_def lookup_forward_def)
  have b: "ref_id r < firstFreeId L" using lookup_points.ids_bounded [OF p a] by simp
  obtain pred out n where pred: "lookupPredicate inventory (ref_type r) = Some pred"
      "Predicate_substitute pred (Substituter_rename (df_subst s)) (ref_clause r) = ok (out, n)"
      "Clause_key (Clause_from out n) = Ref_key r" "Clause_value (Clause_from out n) = Ref_value r"
    using assms(3) s(4) unfolding renames_refs_def Substituter_rename_def by blast
  obtain sub where sub: "Substitution_set (df_subst s) (ref_id r) (ref_id r) = ok sub" "Substitution_ok sub"
      "\<forall>j. Substitution_subst sub j = (if j = ref_id r then ref_id r else Substitution_subst (df_subst s) j)"
    using Substitution_set_subst [OF s(2), of "ref_id r" "ref_id r"] s(3) by auto
  have "in_block sub = in_block (df_subst s)" using sub(1) by (auto simp: Substitution_set_def in_block_def split: if_splits)
  then show ?thesis
    using define_in_base [OF L a pred(3,4)] pred(1,2) sub b s(1)
    by (intro exI [of _ sub]) (cases s, simp add: diff_step_def Let_def)
qed

lemma diff_all_kept:
  assumes L: "lookup_contract L fs" and fs: "fs = map Ref_view (done @ rs)" and rs: "\<forall>r\<in>set rs. renames_refs inventory L r"
    and s: "df_additional s = FactSet_new (firstFreeId L)" "Substitution_ok (df_subst s)" "\<forall>a\<in>set fs. in_block (df_subst s) (a_id a)"
      "\<forall>r\<in>set done. Substitution_subst (df_subst s) (ref_id r) = ref_id r"
  shows "\<exists>sub. rfold (diff_step inventory L (firstFreeId L)) rs s = ok (s\<lparr>df_subst := sub, df_kept := df_kept s + length rs\<rparr>)"
  using fs rs s
proof (induction rs arbitrary: s "done")
  case Nil
  then show ?case by (intro exI [of _ "df_subst s"]) simp
next
  case (Cons r rs)
  have p: "lookup_points L fs" using L by (simp add: lookup_contract_def lookup_forward_def)
  have ok: "facts_ok fs" by (rule lookup_points.facts_ok [OF p])
  have a: "Ref_view r \<in> set fs" using Cons.prems(1) by simp
  have "i \<in> ref_id ` set done" if "factById L i \<noteq> None" "i < ref_id r" for i
  proof -
    have "facts_by_id fs i \<noteq> None" using lookup_points.factById [OF p, of i] that(1) by (cases "facts_by_id fs i") auto
    then obtain x where "x \<in> set fs" "a_id x = i" using facts_by_id_Some [OF ok] by blast
    then obtain q where q: "q \<in> set (done @ r # rs)" "ref_id q = i"
      unfolding Cons.prems(1) set_map by (elim imageE) (rule that, assumption, simp)
    have "sorted_wrt (<) (map ref_id (done @ r # rs))"
      using ok Cons.prems(1) by (simp add: facts_ok_def comp_def)
    then have "\<forall>q\<in>set rs. ref_id r < ref_id q" by (simp add: sorted_wrt_append)
    then show ?thesis using q that(2) by auto
  qed
  then have "\<forall>i. factById L i \<noteq> None \<and> i < ref_id r \<longrightarrow> Substitution_subst (df_subst s) i = i" using Cons.prems(6) by blast
  moreover have "renames_refs inventory L r" "in_block (df_subst s) (ref_id r)" using Cons.prems(2,5) a by force+
  ultimately obtain sub where sub: "diff_step inventory L (firstFreeId L) r s = ok (s\<lparr>df_subst := sub, df_kept := df_kept s + 1\<rparr>)" "Substitution_ok sub"
      "\<forall>j. Substitution_subst sub j = (if j = ref_id r then j else Substitution_subst (df_subst s) j)" "in_block sub = in_block (df_subst s)"
    using diff_step_kept [OF L a _ Cons.prems(3,4)] by blast
  show ?case
    using Cons.IH [of "done @ [r]" "s\<lparr>df_subst := sub, df_kept := df_kept s + 1\<rparr>"] Cons.prems sub by auto
qed

text \<open>
  Comparing a database with itself finds no difference: every fact is kept, none is added, and the number of facts
  called removed is the number of ids without a fact.
\<close>

lemma glean_diff_self:
  assumes L: "lookup_contract L fs" and "\<forall>r\<in>set (enumerate L WordId_invalid WordId_invalid). renames_refs inventory L r"
  shows "glean_diff inventory L L = ok (length fs, 0, distance (startingId L) (firstFreeId L) - of_nat (length fs))"
proof -
  have p: "lookup_forward L fs" "lookup_points L fs" using L by (simp_all add: lookup_contract_def lookup_forward_def)
  let ?rs = "enumerate L WordId_invalid WordId_invalid" and ?n = "unat (distance (startingId L) (firstFreeId L))"
  let ?sub = "Substitution_new (startingId L) ?n"
  have fs: "fs = map Ref_view ([] @ ?rs)" using lookup_forward.enumerate [OF p(1)] by (simp add: facts_between_def)
  have n: "unat (startingId L) + ?n = unat (firstFreeId L)"
    using lookup_points.starting_le [OF p(2)] by (simp add: unat_distance word_le_nat_alt)
  then have o: "Substitution_ok ?sub" using unat_lt_64 [of "firstFreeId L"] by (simp add: Substitution_ok_def Substitution_new_def)
  have b: "\<forall>a\<in>set fs. in_block ?sub (a_id a)"
    using lookup_points.ids_bounded [OF p(2)] n by (auto simp: in_block_def Substitution_new_def word_le_nat_alt word_less_nat_alt)
  have l: "length fs = length ?rs" using fs by (metis append_Nil length_map)
  obtain sub where "rfold (diff_step inventory L (firstFreeId L)) ?rs \<lparr>df_additional = FactSet_new (firstFreeId L), df_subst = ?sub, df_kept = 0, df_added = 0\<rparr> =
      ok (\<lparr>df_additional = FactSet_new (firstFreeId L), df_subst = sub, df_kept = length ?rs, df_added = 0\<rparr>)"
    using diff_all_kept [OF L fs assms(2), of "\<lparr>df_additional = FactSet_new (firstFreeId L), df_subst = ?sub, df_kept = 0, df_added = 0\<rparr>"] o b by auto
  then show ?thesis by (simp add: glean_diff_def Let_def l)
qed


text \<open>A fact whose key is in the first database with another value is counted as kept: its id is invalid and below the boundary.\<close>

definition changed_value :: "bytes \<Rightarrow> FactSet" where
  "changed_value v = (case FactSet_define (FactSet_new 1024) 7 (Clause_from (1 # v) 1) 0 of Inr (_, s) \<Rightarrow> s | Inl _ \<Rightarrow> FactSet_new 1024)"

definition plain_inventory :: Inventory where
  "plain_inventory = Inventory_of [no_predicate\<lparr>pred_id := 7, typechecker := (\<lambda>c. TcDone (Clause_bytes c) (ucast (key_size c)))\<rparr>]"

lemma glean_diff_changed_value: "glean_diff plain_inventory (FactSet_lookup (changed_value [2])) (FactSet_lookup (changed_value [3])) = ok (1, 0, 0)"
  by code_simp

end
