(* ===== verification/Spec2Isabelle.thy ===== *)
theory Spec2Isabelle
  imports Nat_Codec Ids_Stats Binary_IO Facts Lookups Dense_Map Fact_Set Stacked_Lookup Substitutions
    Inventories Define_Batch Rebase_Validate Set_U32_Correct Lookup_Cache_Correct Slices Trie_Array_Correct Rocks_Reopen Queries_Correct
    Worklists Json_Escape Database_Diff
begin

text \<open>
  A verification library for Glean, a system that stores facts about source code: the runtime system
  (\<^verbatim>\<open>src/glean/rts\<close>), the storage of facts and ownership in RocksDB (\<^verbatim>\<open>src/glean/rocksdb\<close>), the work lists shared by
  processes (\<^verbatim>\<open>src/glean/interprocess/cpp\<close>) and the comparison of databases (\<^verbatim>\<open>src/glean/tools/diff\<close>). File names below
  are relative to \<^verbatim>\<open>src/glean\<close>.

  \<^bold>\<open>The parts of the program and how they interact.\<close> A fact has an id, a predicate, a key and a value. Objects that give
  access to facts implement the interface \<^verbatim>\<open>Lookup\<close>, those to which facts can be added also \<^verbatim>\<open>Define\<close>. An indexer sends
  batches of serialized facts; \<^verbatim>\<open>defineUntrustedBatch\<close> checks them with the typecheckers of the inventory and adds them to a
  \<^verbatim>\<open>FactSet\<close> stacked on the database, with a substitution from the ids of the batch to the real ones. The fact set is
  committed to the database, which answers lookups, through a cache if one is used. Each unit (a file, say) owns ranges of
  facts; from them \<^verbatim>\<open>computeOwnership\<close> derives which units own each fact, directly or through references, as canonical sets
  that the database stores, and a slice hides the facts without a visible owner. Queries run as bytecode subroutines that call
  the functions of a query executor, which reads facts, collects results with the facts they refer to, derives new facts and
  records their owners, and can be suspended and restarted.

  \<^bold>\<open>The theories.\<close>
  \<^item> \<open>Glean_Prelude\<close>: byte strings, words, the type of results (every raise, failed check and undefined access of the C++ code is
    a value), lemmas on words, lists and lexicographic order.
  \<^item> \<open>Nat_Codec\<close> (\<^verbatim>\<open>rts/nat.h\<close>, \<^verbatim>\<open>nat.cpp\<close>): packed numbers. Loading inverts storing, the validating decoder accepts exactly what is
    stored, and bytes compare as the numbers.
  \<^item> \<open>Ids_Stats\<close> (\<^verbatim>\<open>id.h\<close>, \<^verbatim>\<open>stats.h\<close>), \<open>Binary_IO\<close> (\<^verbatim>\<open>binary.h\<close>, \<^verbatim>\<open>binary.cpp\<close>), \<open>Facts\<close> (\<^verbatim>\<open>fact.h\<close>, \<^verbatim>\<open>fact.cpp\<close>), \<open>Dense_Map\<close>
    (\<^verbatim>\<open>densemap.h\<close>): ids, intervals, buffers, clauses and facts, maps from ids. Writes stay inside the buffer, facts survive
    serialization, a deserialized clause lies in its input unless its sizes wrap.
  \<^item> \<open>Mangled_Strings\<close>, \<open>Mangled_Strings_Correct\<close> (\<^verbatim>\<open>string.h\<close>, \<^verbatim>\<open>string.cpp\<close>, \<^verbatim>\<open>prim.cpp\<close>), \<open>Json_Escape\<close> (\<^verbatim>\<open>json.cpp\<close>): the
    representation of strings sorts as the strings and can be read back; escaping it for JSON reads back as the string.
  \<^item> \<open>Lookups\<close> (\<^verbatim>\<open>lookup.h\<close>, \<^verbatim>\<open>lookup.cpp\<close>), \<open>Define_Iface\<close> (\<^verbatim>\<open>define.h\<close>): iterators, and the interfaces as the locales \<open>lookup_points\<close>,
    \<open>lookup_forward\<close>, \<open>lookup_contract\<close> and \<open>define_provider\<close>: an object keeps the contract for a list of facts if it answers from that
    list. \<open>Fact_Set\<close> (\<^verbatim>\<open>factset.h\<close>, \<^verbatim>\<open>factset.cpp\<close>) and \<open>Stacked_Lookup\<close> (\<^verbatim>\<open>stacked.h\<close>) are interpretations.
  \<^item> \<open>Substitutions\<close>, \<open>Inventories\<close>, \<open>Define_Batch\<close>, \<open>Rebase_Validate\<close>, \<open>Database_Diff\<close> (\<^verbatim>\<open>substitution.*\<close>, \<^verbatim>\<open>inventory.*\<close>, \<^verbatim>\<open>define.cpp\<close>,
    \<^verbatim>\<open>store.h\<close>, \<^verbatim>\<open>validate.cpp\<close>, \<^verbatim>\<open>factset.cpp\<close>, \<^verbatim>\<open>tools/diff/lib.cpp\<close>): adding a batch refines adding to a list of facts, and defines
    exactly the facts of the batch; rebasing renames ids; \<^verbatim>\<open>validate\<close> accepts exactly the consistent lookups.
  \<^item> \<open>Lookup_Cache\<close>, \<open>Lookup_Cache_Correct\<close> (\<^verbatim>\<open>cache.h\<close>, \<^verbatim>\<open>cache.cpp\<close>): the LRU cache over an explicit heap of facts. In every reachable
    state it answers as the base does, frees nothing twice, leaks nothing and stays within its capacity.
  \<^item> \<open>Bits_Hdr\<close>, \<open>Set_U32\<close>, \<open>Set_U32_Correct\<close>, \<open>Elias_Fano\<close>, \<open>Usets\<close> (\<^verbatim>\<open>ownership/setu32.*\<close>, \<^verbatim>\<open>uset.*\<close>): compressed sets have one
    representation, merging is union, and sets with reference counts are kept once in a table of sets.
  \<^item> \<open>Slices\<close> (\<^verbatim>\<open>ownership/slice.*\<close>), \<open>Ownerships\<close>, \<open>Trie_Array\<close>, \<open>Trie_Visit\<close>, \<open>Trie_Insert\<close>, \<open>Ownerships_Correct\<close>,
    \<open>Trie_Array_Correct\<close> (\<^verbatim>\<open>ownership.*\<close>, \<^verbatim>\<open>ownership/triearray.h\<close>): visibility of sets and facts, and the computation of ownership,
    which gives each fact exactly the units that reach it.
  \<^item> \<open>Rocks_Store\<close>, \<open>Rocks_Database\<close>, \<open>Rocks_Database_Correct\<close>, \<open>Rocks_Commit\<close>, \<open>Rocks_Ownership\<close>, \<open>Rocks_Ownership_Correct\<close>,
    \<open>Rocks_Reopen\<close> (\<^verbatim>\<open>rocksdb/rocksdb.*\<close>, \<^verbatim>\<open>rocksdb/stats.*\<close>): the database over an abstract store. It keeps the contract of \<^verbatim>\<open>Lookup\<close> for
    the committed facts through commits, ownership, optimization and reopening; computing and storing ownership is correct end to end.
  \<^item> \<open>Derived_Ownership\<close>, \<open>Derived_Ownership_Correct\<close> (\<^verbatim>\<open>ownership/derived.*\<close>, \<^verbatim>\<open>rocksdb.cpp\<close>): owners of derived facts are recorded
    under ids of the database.
  \<^item> \<open>Queries\<close>, \<open>Queries_Correct\<close> (\<^verbatim>\<open>query.*\<close>, \<^verbatim>\<open>bytecode/subroutine.*\<close>): results come with exactly the facts reachable from them,
    and a restarted query goes on as the suspended one.
  \<^item> \<open>Worklists\<close> (\<^verbatim>\<open>interprocess/cpp/worklist.*\<close>, \<^verbatim>\<open>counters.cpp\<close>): a step is an atomic operation of one worker; under every interleaving
    no item is returned twice, and under every fair schedule all items are returned and all workers stop.

  \<^bold>\<open>How code is modelled.\<close> Classes are records, methods functions on them, exceptions, failed checks and undefined behaviour the
  errors of a result type. Integers keep their width where they can wrap; sizes of containers are natural numbers. Pointers
  that are shared (the facts of the cache, the sets of ownership, the nodes of tries) live in explicit heaps with their reference
  counts. A debug \<^verbatim>\<open>assert\<close> is a check. Log messages and timers are left out.

  \<^bold>\<open>Loops.\<close> Loops are recursive functions with a termination proof. Where the end of a loop depends on a parameter or on an
  invariant it is a \<open>partial_function\<close> with \<open>None\<close> for not returning, and the theorems state that it returns. There is no fuel.

  \<^bold>\<open>Parameters.\<close> Code outside the repository is an argument with its documented behaviour as a locale: the varints and Elias-Fano
  lists of folly (\<open>varint_codec\<close>, \<open>elias_fano\<close>), the macros of ICU (\<open>utf8_codec\<close>), RocksDB as families of ordered maps with atomic batches
  (\<open>rocks_store\<close>). Each locale has an interpretation that the witnesses use. Further parameters are the compiled typecheckers and
  traversals of predicates and the run of a query subroutine (trees of the calls they make), the clock, the size after
  \<^verbatim>\<open>malloc\<close>, and the order in which hash maps are traversed.

  \<^bold>\<open>Not modelled.\<close> The bytecode evaluator, whose decoder is generated by the build and whose instructions work on raw addresses; the C
  interfaces (\<^verbatim>\<open>ffi\<close>), which wrap the functions modelled here; parsing JSON and the binary form of thrift structures, which are library
  calls; options, backup and restore of RocksDB; the C++ client (\<^verbatim>\<open>cpp\<close>), templates over generated schema types around a thrift
  service; the clang indexer (\<^verbatim>\<open>lang/clang\<close>), a client of the compiler's syntax trees; and the parts of Glean written in Haskell.
\<close>

end
